(* ===== verification/Prelude.thy ===== *)
theory Prelude
  imports Main "HOL-Library.Word"
begin

unbundle bit_operations_syntax

text \<open>
  Shared types and facts.  Bytes are \<open>8 word\<close>, C \<open>int\<close>, \<open>long\<close>, \<open>size_t\<close> and
  pointers are \<open>32 word\<close> (the ILP32 target of the NPC workloads) and \<open>long long\<close> is
  \<open>64 word\<close>; signed reads go through \<open>sint\<close>.  Byte memory is a total function from
  addresses, so that pointer arithmetic wraps as on the machine.  The theory holds the vocabulary
  of the byte-level components (\<open>copied\<close>, \<open>filled\<close>, \<open>bytes\<close>, \<open>cstr\<close>), facts on counting
  loops over words, positional notation and alignment.
\<close>

type_synonym u8 = "8 word"
type_synonym u32 = "32 word"
type_synonym u64 = "64 word"
type_synonym cint = "32 word"
type_synonym addr = "32 word"
type_synonym size_t = "32 word"
type_synonym mem = "addr \<Rightarrow> u8"

abbreviation NULL :: addr where "NULL \<equiv> 0"
abbreviation SIZE_MAX :: size_t where "SIZE_MAX \<equiv> 4294967295"

text \<open>\<open>copied m out inn n\<close> is \<open>m\<close> with the \<open>n\<close> bytes at \<open>inn\<close> copied to \<open>out\<close>, all read before any is written.\<close>

definition copied :: "mem \<Rightarrow> addr \<Rightarrow> addr \<Rightarrow> size_t \<Rightarrow> mem" where
  "copied m out inn n = (\<lambda>a. if a - out < n then m (inn + (a - out)) else m a)"

text \<open>\<open>filled m s b n\<close> is \<open>m\<close> with \<open>n\<close> bytes \<open>b\<close> from \<open>s\<close> on.\<close>

definition filled :: "mem \<Rightarrow> addr \<Rightarrow> u8 \<Rightarrow> size_t \<Rightarrow> mem" where
  "filled m s b n = (\<lambda>a. if a - s < n then b else m a)"

text \<open>A byte-by-byte ascending copy reads no byte it has already written.\<close>

definition fwd_safe :: "addr \<Rightarrow> addr \<Rightarrow> size_t \<Rightarrow> bool" where
  "fwd_safe out inn n \<longleftrightarrow> out = inn \<or> n \<le> out - inn"

text \<open>The \<open>n\<close> bytes from \<open>s\<close> on, as a list.\<close>

definition bytes :: "mem \<Rightarrow> addr \<Rightarrow> nat \<Rightarrow> u8 list" where
  "bytes m s n = map (\<lambda>k. m (s + of_nat k)) [0..<n]"

text \<open>The NUL-terminated string \<open>xs\<close> is stored at \<open>s\<close>.\<close>

definition cstr :: "mem \<Rightarrow> addr \<Rightarrow> u8 list \<Rightarrow> bool" where
  "cstr m s xs \<longleftrightarrow> length xs < 2 ^ 32 \<and> 0 \<notin> set xs \<and> bytes m s (Suc (length xs)) = xs @ [0]"

text \<open>A zero memory with the bytes \<open>xs\<close> stored at \<open>p\<close>.\<close>

definition mem_at :: "addr \<Rightarrow> u8 list \<Rightarrow> mem" where
  "mem_at p xs = (\<lambda>a. let k = unat (a - p) in if k < length xs then xs ! k else 0)"

named_theorems word_loop \<open>facts that make counting loops over words terminate\<close>

subsection \<open>Words as loop counters\<close>

lemma unat_plus_one [word_loop]:
  fixes i n :: "'a::len word"
  assumes "i < n"
  shows "unat (i + 1) = Suc (unat i)"
proof -
  have "i + 1 \<noteq> 0"
  proof
    assume "i + 1 = 0"
    then have "i = - 1" by (simp add: eq_neg_iff_add_eq_0)
    then show False using assms by (metis not_less word_order.extremum)
  qed
  then show ?thesis by (metis add.commute unatSuc)
qed

lemma word_plus_one_le_iff:
  fixes i n k :: "'a::len word"
  assumes "i < n"
  shows "i + 1 \<le> k \<longleftrightarrow> i < k"
  using unat_plus_one [OF assms] by (simp add: word_le_nat_alt word_less_nat_alt Suc_le_eq)

lemma word_loop_measure [word_loop]:
  fixes i n :: "'a::len word"
  shows "i < n \<Longrightarrow> unat n - unat (i + 1) < unat n - unat i"
  by (simp add: unat_plus_one word_less_nat_alt)

lemma unat_of_nat_small [simp]: "k < 2 ^ LENGTH('a) \<Longrightarrow> unat (of_nat k :: 'a::len word) = k"
  by (simp add: unat_of_nat take_bit_nat_eq_self)

lemma unat_ucast_up:
  "LENGTH('a) \<le> LENGTH('b) \<Longrightarrow> unat (ucast (x :: 'a::len word) :: 'b::len word) = unat x"
  by (simp add: unsigned_ucast_eq take_bit_nat_eq_self_iff order.strict_trans2 [OF unsigned_less])

lemma uint_ucast_up:
  "LENGTH('a) \<le> LENGTH('b) \<Longrightarrow> uint (ucast (x :: 'a::len word) :: 'b::len word) = uint x"
  using unat_ucast_up [of x, where ?'b = 'b] by (metis uint_nat)

lemma ucast_u8_inj: "(ucast (x :: u8) :: u32) = ucast y \<longleftrightarrow> x = y"
proof
  assume "(ucast x :: u32) = ucast y"
  then have "unat (ucast x :: u32) = unat (ucast y :: u32)" by simp
  then show "x = y" by (simp add: unat_ucast_up word_unat_eq_iff)
qed simp

lemma ucast_u8_eq_0: "0 = (ucast (x :: u8) :: u32) \<longleftrightarrow> 0 = x"
  using ucast_u8_inj [of 0 x] by simp

lemma unat_diff:
  fixes i k :: "'a::len word"
  shows "i \<le> k \<Longrightarrow> unat (k - i) = unat k - unat i"
  by (rule unat_sub)

lemma word_sub_between:
  fixes i k n :: "'a::len word"
  assumes "i < k" "k < n"
  shows "k - i < n" "k - i \<noteq> 0"
  using assms unat_diff [of i k] by (auto simp: word_less_nat_alt word_le_nat_alt)

lemma unat_sub_wrap:
  fixes a b :: "'a::len word"
  shows "a < b \<Longrightarrow> unat (a - b) = 2 ^ LENGTH('a) + unat a - unat b"
  by (simp add: unat_sub_if' word_le_nat_alt word_less_nat_alt)

lemma unat_add_small:
  fixes a b :: "'a::len word"
  shows "unat a + unat b < 2 ^ LENGTH('a) \<Longrightarrow> unat (a + b) = unat a + unat b"
  by (simp add: unat_word_ariths)

lemma sint_u32_add:
  fixes a b :: cint
  shows "- (2 ^ 31) \<le> sint a + sint b \<Longrightarrow> sint a + sint b < 2 ^ 31 \<Longrightarrow> sint (a + b) = sint a + sint b"
  by (simp add: sint_word_add signed_take_bit_int_eq_self)

lemma sint_u32_diff:
  fixes a b :: cint
  shows "- (2 ^ 31) \<le> sint a - sint b \<Longrightarrow> sint a - sint b < 2 ^ 31 \<Longrightarrow> sint (a - b) = sint a - sint b"
  by (simp add: sint_word_diff signed_take_bit_int_eq_self)

lemma sint_small:
  fixes x :: "'a::len word"
  assumes "uint x < 2 ^ (LENGTH('a) - 1)"
  shows "sint x = uint x"
proof -
  have "signed_take_bit (LENGTH('a) - 1) (uint x) = uint x"
    using assms by (intro signed_take_bit_int_eq_self) (auto intro: order_trans [of _ 0])
  then show ?thesis by (simp add: sint_uint)
qed

lemma unat_drop_bit: "unat (drop_bit k (x :: 'a::len word)) = unat x div 2 ^ k"
  by (simp only: unsigned_drop_bit_eq)
    (simp add: drop_bit_eq_div take_bit_nat_eq_self unsigned_less)


subsection \<open>Bytes and strings in memory\<close>

lemma length_bytes [simp]: "length (bytes m s n) = n"
  by (simp add: bytes_def)

lemma nth_bytes [simp]: "k < n \<Longrightarrow> bytes m s n ! k = m (s + of_nat k)"
  by (simp add: bytes_def)

lemma bytes_0 [simp]: "bytes m s 0 = []"
  by (simp add: bytes_def)

lemma bytes_Suc: "bytes m s (Suc n) = m s # bytes m (s + 1) n"
  by (simp add: bytes_def map_upt_Suc add.assoc del: upt_Suc)

lemma bytes_add: "bytes m s (a + b) = bytes m s a @ bytes m (s + of_nat a) b"
  by (induction a arbitrary: s) (simp_all add: bytes_Suc add.assoc)

lemma bytes_cong: "(\<And>k. k < n \<Longrightarrow> m (s + of_nat k) = m' (s' + of_nat k)) \<Longrightarrow> bytes m s n = bytes m' s' n"
  by (simp add: bytes_def)

lemma cstr_Nil [simp]: "cstr m s [] \<longleftrightarrow> m s = 0"
  by (simp add: cstr_def bytes_Suc)

lemma cstr_Cons:
  "cstr m s (x # xs) \<longleftrightarrow> m s = x \<and> x \<noteq> 0 \<and> Suc (length xs) < 2 ^ 32 \<and> cstr m (s + 1) xs"
  by (auto simp: cstr_def bytes_Suc)

lemma cstr_ne [simp]: "cstr m s xs \<Longrightarrow> 0 \<notin> set xs"
  by (simp add: cstr_def)

lemma cstr_unique: "cstr m s xs \<Longrightarrow> cstr m s ys \<Longrightarrow> xs = ys"
proof (induction xs arbitrary: s ys)
  case Nil
  then show ?case by (cases ys) (auto simp: cstr_Cons)
next
  case (Cons x xs)
  then show ?case by (cases ys) (auto simp: cstr_Cons)
qed

lemma fwd_safe_le: "fwd_safe out inn n \<Longrightarrow> k \<le> n \<Longrightarrow> fwd_safe out inn k"
  by (auto simp: fwd_safe_def)

lemma bytes_copied: "n < 2 ^ 32 \<Longrightarrow> bytes (copied m out inn (of_nat n)) out n = bytes m inn n"
  by (intro bytes_cong) (simp add: copied_def word_less_nat_alt)


subsection \<open>Positional notation\<close>

text \<open>The digits of \<open>n\<close> in base \<open>b\<close>, most significant first.\<close>

function digits :: "nat \<Rightarrow> nat \<Rightarrow> nat list" where
  "digits b n = (if n < b \<or> b < 2 then [n] else digits b (n div b) @ [n mod b])"
  by pat_completeness auto
termination
  by (relation "measure snd") auto

declare digits.simps [simp del]

definition digits_val :: "nat \<Rightarrow> nat list \<Rightarrow> nat" where
  "digits_val b ds = foldl (\<lambda>a d. a * b + d) 0 ds"

lemma digits_val_digits: "digits_val b (digits b n) = n"
proof (induction b n rule: digits.induct)
  case (1 b n)
  then show ?case by (subst digits.simps) (auto simp: digits_val_def)
qed

lemma digits_less: "2 \<le> b \<Longrightarrow> d \<in> set (digits b n) \<Longrightarrow> d < b"
proof (induction b n rule: digits.induct)
  case (1 b n)
  then show ?case by (cases "n < b") (auto simp: digits.simps [of b n])
qed

lemma digits_ne [simp]: "digits b n \<noteq> []"
  by (simp add: digits.simps [of b n])

lemma length_digits: "2 \<le> b \<Longrightarrow> n < b ^ Suc k \<Longrightarrow> length (digits b n) \<le> Suc k"
proof (induction k arbitrary: n)
  case 0
  then show ?case by (simp add: digits.simps [of b n])
next
  case (Suc k)
  have "length (digits b (n div b)) \<le> Suc k"
    using Suc.prems by (intro Suc.IH) (simp_all add: less_mult_imp_div_less mult.commute)
  then show ?case by (subst digits.simps) simp
qed

lemma hd_digits: "2 \<le> b \<Longrightarrow> hd (digits b n) = 0 \<longleftrightarrow> n = 0"
proof (induction b n rule: digits.induct)
  case (1 b n)
  show ?case
  proof (cases "n < b")
    case True
    then show ?thesis by (simp add: digits.simps [of b n])
  next
    case False
    then have "hd (digits b n) = hd (digits b (n div b))"
      using "1.prems" by (simp add: digits.simps [of b n])
    then show ?thesis using 1 False by (auto simp: div_eq_0_iff)
  qed
qed


subsection \<open>Alignment\<close>

lemma round_up_mask:
  fixes x :: "'a::len word"
  shows "x AND NOT (mask n) = push_bit n (drop_bit n x)"
  by (rule bit_word_eqI) (auto simp: bit_simps)

lemma unat_push_drop:
  fixes x :: "'a::len word"
  shows "n < LENGTH('a) \<Longrightarrow> unat (push_bit n (drop_bit n x)) = unat x div 2 ^ n * 2 ^ n"
proof -
  have "unat x div 2 ^ n * 2 ^ n < 2 ^ LENGTH('a)"
    by (rule order.strict_trans1 [OF _ unsigned_less [of x]]) simp
  then show ?thesis
    by (simp only: unsigned_push_bit_eq unsigned_drop_bit_eq)
      (simp add: push_bit_eq_mult drop_bit_eq_div take_bit_nat_eq_self)
qed

lemma unat_align8:
  "unat (x :: u32) + 7 < 2 ^ 32 \<Longrightarrow> unat ((x + 7) AND NOT 7) = (unat x + 7) div 8 * 8"
  using round_up_mask [of "x + 7" 3] unat_push_drop [of 3 "x + 7"]
  by (simp add: mask_eq_exp_minus_1 unat_word_ariths)

end
