(* ===== verification/KString.thy ===== *)
theory KString
  imports Prelude
begin

text \<open>
  The string and memory functions of \<open>klib/src/string.c\<close>.  A loop bounded by a length is a
  \<open>function\<close> with a measure; a loop that runs to a NUL byte is a \<open>partial_function\<close>, whose
  value is \<open>None\<close> when no NUL is ever met.  The lemmas relate each routine to lists of bytes.
\<close>

subsection \<open>The functions of string.c\<close>

partial_function (option) strlen_loop :: "mem \<Rightarrow> addr \<Rightarrow> size_t \<Rightarrow> size_t option" where
  "strlen_loop m s len = (if m (s + len) \<noteq> 0 then strlen_loop m s (len + 1) else Some len)"

definition strlen :: "mem \<Rightarrow> addr \<Rightarrow> size_t option" where
  "strlen m s = strlen_loop m s 0"

partial_function (option) strcpy_loop :: "mem \<Rightarrow> addr \<Rightarrow> addr \<Rightarrow> size_t \<Rightarrow> mem option" where
  "strcpy_loop m dst src i =
     (if m (src + i) \<noteq> 0 then strcpy_loop (m(dst + i := m (src + i))) dst src (i + 1)
      else Some (m(dst + i := 0)))"

definition strcpy :: "mem \<Rightarrow> addr \<Rightarrow> addr \<Rightarrow> (mem \<times> addr) option" where
  "strcpy m dst src = map_option (\<lambda>m'. (m', dst)) (strcpy_loop m dst src 0)"

function strncpy_copy :: "mem \<Rightarrow> addr \<Rightarrow> addr \<Rightarrow> size_t \<Rightarrow> size_t \<Rightarrow> mem \<times> size_t" where
  "strncpy_copy m dst src i n =
     (if i < n \<and> m (src + i) \<noteq> 0
      then strncpy_copy (m(dst + i := m (src + i))) dst src (i + 1) n else (m, i))"
  by pat_completeness auto
termination
  by (relation "measure (\<lambda>(m, dst, src, i, n). unat n - unat i)") (auto intro: word_loop)

function strncpy_pad :: "mem \<Rightarrow> addr \<Rightarrow> size_t \<Rightarrow> size_t \<Rightarrow> mem" where
  "strncpy_pad m dst i n = (if i < n then strncpy_pad (m(dst + i := 0)) dst (i + 1) n else m)"
  by pat_completeness auto
termination
  by (relation "measure (\<lambda>(m, dst, i, n). unat n - unat i)") (auto intro: word_loop)

definition strncpy :: "mem \<Rightarrow> addr \<Rightarrow> addr \<Rightarrow> size_t \<Rightarrow> mem \<times> addr" where
  "strncpy m dst src n =
     (let (m1, i) = strncpy_copy m dst src 0 n in (strncpy_pad m1 dst i n, dst))"

definition strcat :: "mem \<Rightarrow> addr \<Rightarrow> addr \<Rightarrow> (mem \<times> addr) option" where
  "strcat m dst src =
     (case strlen m dst of None \<Rightarrow> None
      | Some l \<Rightarrow> (case strcpy m (dst + l) src of None \<Rightarrow> None | Some (m', _) \<Rightarrow> Some (m', dst)))"

function strncmp_loop :: "mem \<Rightarrow> addr \<Rightarrow> addr \<Rightarrow> size_t \<Rightarrow> size_t \<Rightarrow> int" where
  "strncmp_loop m s1 s2 i n =
     (if i < n then
        (if m (s1 + i) > m (s2 + i) then 1
         else if m (s1 + i) < m (s2 + i) then - 1
         else if m (s1 + i) = 0 then 0
         else strncmp_loop m s1 s2 (i + 1) n)
      else 0)"
  by pat_completeness auto
termination
  by (relation "measure (\<lambda>(m, s1, s2, i, n). unat n - unat i)") (auto intro: word_loop)

definition strncmp :: "mem \<Rightarrow> addr \<Rightarrow> addr \<Rightarrow> size_t \<Rightarrow> int" where
  "strncmp m s1 s2 n = strncmp_loop m s1 s2 0 n"

definition strcmp :: "mem \<Rightarrow> addr \<Rightarrow> addr \<Rightarrow> int" where
  "strcmp m s1 s2 = strncmp m s1 s2 SIZE_MAX"

function memset_loop :: "mem \<Rightarrow> addr \<Rightarrow> cint \<Rightarrow> size_t \<Rightarrow> size_t \<Rightarrow> mem" where
  "memset_loop m s c i n = (if i < n then memset_loop (m(s + i := ucast c)) s c (i + 1) n else m)"
  by pat_completeness auto
termination
  by (relation "measure (\<lambda>(m, s, c, i, n). unat n - unat i)") (auto intro: word_loop)

definition memset :: "mem \<Rightarrow> addr \<Rightarrow> cint \<Rightarrow> size_t \<Rightarrow> mem \<times> addr" where
  "memset m s c n = (memset_loop m s c 0 n, s)"

function memcpy_loop :: "mem \<Rightarrow> addr \<Rightarrow> addr \<Rightarrow> size_t \<Rightarrow> size_t \<Rightarrow> mem" where
  "memcpy_loop m out inn i n =
     (if i < n then memcpy_loop (m(out + i := m (inn + i))) out inn (i + 1) n else m)"
  by pat_completeness auto
termination
  by (relation "measure (\<lambda>(m, out, inn, i, n). unat n - unat i)") (auto intro: word_loop)

definition memcpy :: "mem \<Rightarrow> addr \<Rightarrow> addr \<Rightarrow> size_t \<Rightarrow> mem \<times> addr" where
  "memcpy m out inn n = (memcpy_loop m out inn 0 n, out)"

definition memmove :: "mem \<Rightarrow> addr \<Rightarrow> addr \<Rightarrow> size_t \<Rightarrow> mem \<times> addr" where
  "memmove m dst src n =
     (if src + n \<le> dst \<or> dst + n \<le> src then (fst (memcpy m dst src n), dst)
      else if src < dst then
        let overlap_size = src + n - dst;
            non_overlap_size = dst - src;
            m1 = fst (memcpy m (dst + non_overlap_size) (src + non_overlap_size) overlap_size);
            m2 = fst (memcpy m1 dst src non_overlap_size)
        in (m2, dst)
      else if dst < src then
        let overlap_size = dst + n - src;
            non_overlap_size = src - dst;
            m1 = fst (memcpy m dst src overlap_size);
            m2 = fst (memcpy m1 (dst + non_overlap_size) (src + non_overlap_size) non_overlap_size)
        in (m2, dst)
      else (m, dst))"

function memcmp_loop :: "mem \<Rightarrow> addr \<Rightarrow> addr \<Rightarrow> size_t \<Rightarrow> size_t \<Rightarrow> int" where
  "memcmp_loop m s1 s2 i n =
     (if i < n then
        (if m (s1 + i) > m (s2 + i) then 1
         else if m (s1 + i) < m (s2 + i) then - 1
         else memcmp_loop m s1 s2 (i + 1) n)
      else 0)"
  by pat_completeness auto
termination
  by (relation "measure (\<lambda>(m, s1, s2, i, n). unat n - unat i)") (auto intro: word_loop)

definition memcmp :: "mem \<Rightarrow> addr \<Rightarrow> addr \<Rightarrow> size_t \<Rightarrow> int" where
  "memcmp m s1 s2 n = memcmp_loop m s1 s2 0 n"

partial_function (option) strchr :: "mem \<Rightarrow> addr \<Rightarrow> cint \<Rightarrow> addr option" where
  "strchr m s c =
     (if ucast (m s) = c then Some s
      else if m s = 0 then Some NULL
      else strchr m (s + 1) c)"

function strrchr_loop :: "mem \<Rightarrow> addr \<Rightarrow> addr \<Rightarrow> cint \<Rightarrow> addr" where
  "strrchr_loop m s p c =
     (if ucast (m p) = c then p
      else if s = p then NULL
      else strrchr_loop m s (p - 1) c)"
  by pat_completeness auto
termination
  by (relation "measure (\<lambda>(m, s, p, c). unat (p - s))") (auto simp: measure_unat diff_diff_eq2 simp flip: diff_diff_eq simp: diff_right_commute)

definition strrchr :: "mem \<Rightarrow> addr \<Rightarrow> cint \<Rightarrow> addr option" where
  "strrchr m s c = map_option (\<lambda>l. strrchr_loop m s (s + l) c) (strlen m s)"

declare memcpy_loop.simps [simp del] memset_loop.simps [simp del] strncpy_pad.simps [simp del]
  strncpy_copy.simps [simp del] strncmp_loop.simps [simp del] memcmp_loop.simps [simp del]
  strrchr_loop.simps [simp del]


subsection \<open>Copying and filling\<close>

lemma loop_step_set:
  fixes i n a out :: addr
  assumes "i < n"
  shows "(i \<le> a - out \<and> a - out < n) \<longleftrightarrow> a = out + i \<or> (i + 1 \<le> a - out \<and> a - out < n)"
proof -
  have "a = out + i \<longleftrightarrow> a - out = i" by (auto simp: diff_eq_eq add.commute)
  then show ?thesis using assms by (auto simp: word_plus_one_le_iff [OF assms])
qed

lemma memcpy_loop_fwd:
  assumes "fwd_safe out inn n"
  shows "memcpy_loop m out inn i n =
    (\<lambda>a. if i \<le> a - out \<and> a - out < n then m (inn + (a - out)) else m a)"
  using assms
proof (induction m out inn i n rule: memcpy_loop.induct)
  case (1 m out inn i n)
  show ?case
  proof (cases "i < n")
    case False
    then show ?thesis by (subst memcpy_loop.simps) (auto intro!: ext)
  next
    case True
    let ?m1 = "m(out + i := m (inn + i))"
    have src: "?m1 (inn + k) = m (inn + k)" if "i < k" "k < n" for k
    proof -
      have "inn + k \<noteq> out + i"
      proof
        assume "inn + k = out + i"
        then have "out - inn = k - i" by (simp add: algebra_simps)
        with that "1.prems" word_sub_between [OF that] show False
          by (auto simp: fwd_safe_def)
      qed
      then show ?thesis by simp
    qed
    have "memcpy_loop m out inn i n = memcpy_loop ?m1 out inn (i + 1) n"
      using True by (subst memcpy_loop.simps) simp
    also have "\<dots> = (\<lambda>a. if i + 1 \<le> a - out \<and> a - out < n then ?m1 (inn + (a - out)) else ?m1 a)"
      by (rule "1.IH" [OF True "1.prems"])
    also have "\<dots> = (\<lambda>a. if i \<le> a - out \<and> a - out < n then m (inn + (a - out)) else m a)"
    proof
      fix a
      show "(if i + 1 \<le> a - out \<and> a - out < n then ?m1 (inn + (a - out)) else ?m1 a) =
        (if i \<le> a - out \<and> a - out < n then m (inn + (a - out)) else m a)"
        using src [of "a - out"]
        by (auto simp: loop_step_set [OF True] word_plus_one_le_iff [OF True])
    qed
    finally show ?thesis .
  qed
qed

lemma memcpy_fwd: "fwd_safe out inn n \<Longrightarrow> memcpy m out inn n = (copied m out inn n, out)"
  by (simp add: memcpy_def memcpy_loop_fwd copied_def)

lemma memset_loop_eq:
  "memset_loop m s c i n = (\<lambda>a. if i \<le> a - s \<and> a - s < n then ucast c else m a)"
proof (induction m s c i n rule: memset_loop.induct)
  case (1 m s c i n)
  show ?case
  proof (cases "i < n")
    case False
    then show ?thesis by (subst memset_loop.simps) (auto intro!: ext)
  next
    case True
    have "memset_loop m s c i n = memset_loop (m(s + i := ucast c)) s c (i + 1) n"
      using True by (subst memset_loop.simps) simp
    also have "\<dots> = (\<lambda>a. if i \<le> a - s \<and> a - s < n then ucast c else m a)"
      unfolding "1.IH" [OF True] by (auto simp: fun_eq_iff loop_step_set [OF True])
    finally show ?thesis .
  qed
qed

lemma memset_eq: "memset m s c n = (filled m s (ucast c) n, s)"
  by (simp add: memset_def memset_loop_eq filled_def)

lemma strncpy_pad_memset: "strncpy_pad m dst i n = memset_loop m dst 0 i n"
proof (induction m dst i n rule: strncpy_pad.induct)
  case (1 m dst i n)
  then show ?case
    by (subst strncpy_pad.simps, subst memset_loop.simps) (simp del: fun_upd_apply)
qed

subsection \<open>Strings\<close>

lemma strlen_loop_cstr:
  "cstr m (s + len) xs \<Longrightarrow> strlen_loop m s len = Some (len + of_nat (length xs))"
proof (induction xs arbitrary: len)
  case Nil
  then show ?case by (subst strlen_loop.simps) simp
next
  case (Cons x xs)
  then have "strlen_loop m s (len + 1) = Some (len + 1 + of_nat (length xs))"
    by (intro Cons.IH) (simp add: cstr_Cons add.assoc)
  with Cons.prems show ?case
    by (subst strlen_loop.simps) (simp add: cstr_Cons add.assoc)
qed

lemma strlen_cstr: "cstr m s xs \<Longrightarrow> strlen m s = Some (of_nat (length xs))"
  using strlen_loop_cstr [of m s 0 xs] by (simp add: strlen_def)

text \<open>The three-way lexicographic comparison of byte lists.\<close>

fun cmp_bytes :: "u8 list \<Rightarrow> u8 list \<Rightarrow> int" where
  "cmp_bytes [] [] = 0"
| "cmp_bytes [] (y # ys) = - 1"
| "cmp_bytes (x # xs) [] = 1"
| "cmp_bytes (x # xs) (y # ys) = (if x > y then 1 else if x < y then - 1 else cmp_bytes xs ys)"

lemma cmp_bytes_eq_0_iff: "cmp_bytes xs ys = 0 \<longleftrightarrow> xs = ys"
  by (induction xs ys rule: cmp_bytes.induct) auto

lemma cmp_bytes_neg_iff: "cmp_bytes xs ys = - 1 \<longleftrightarrow> (xs, ys) \<in> lexord {(a, b). a < b}"
  by (induction xs ys rule: cmp_bytes.induct) auto

lemma cmp_bytes_antisym: "cmp_bytes ys xs = - cmp_bytes xs ys"
  by (induction xs ys rule: cmp_bytes.induct) auto

lemma strncmp_loop_cstr:
  assumes "cstr m (s1 + i) xs" "cstr m (s2 + i) ys" "unat n = unat i + k"
  shows "strncmp_loop m s1 s2 i n = cmp_bytes (take k xs) (take k ys)"
  using assms
proof (induction k arbitrary: i xs ys)
  case 0
  then show ?case by (subst strncmp_loop.simps) (simp add: word_less_nat_alt)
next
  case (Suc k)
  then have i: "i < n" by (simp add: word_less_nat_alt)
  have n: "unat n = unat (i + 1) + k" using Suc.prems(3) unat_plus_one [OF i] by simp
  show ?case
  proof (cases xs; cases ys)
    fix x xs' y ys'
    assume eq: "xs = x # xs'" "ys = y # ys'"
    then have "strncmp_loop m s1 s2 (i + 1) n = cmp_bytes (take k xs') (take k ys')"
      using Suc.prems n by (intro Suc.IH) (auto simp: cstr_Cons add.assoc)
    then show ?thesis using Suc.prems i eq by (subst strncmp_loop.simps) (auto simp: cstr_Cons)
  qed (use Suc.prems i in \<open>(subst strncmp_loop.simps, auto simp: cstr_Cons word_less_nat_alt unat_gt_0)+\<close>)
qed

lemma strncmp_cstr:
  "cstr m s1 xs \<Longrightarrow> cstr m s2 ys \<Longrightarrow>
     strncmp m s1 s2 n = cmp_bytes (take (unat n) xs) (take (unat n) ys)"
  using strncmp_loop_cstr [of m s1 0 xs s2 ys n "unat n"] by (simp add: strncmp_def)

lemma strcmp_cstr:
  assumes "cstr m s1 xs" "cstr m s2 ys"
  shows "strcmp m s1 s2 = cmp_bytes xs ys"
proof -
  have "length xs \<le> unat SIZE_MAX" "length ys \<le> unat SIZE_MAX"
    using assms by (auto simp: cstr_def)
  then show ?thesis using strncmp_cstr [OF assms, of SIZE_MAX] by (simp add: strcmp_def)
qed

lemma memcmp_loop_bytes:
  assumes "unat n = unat i + k"
  shows "memcmp_loop m s1 s2 i n = cmp_bytes (bytes m (s1 + i) k) (bytes m (s2 + i) k)"
  using assms
proof (induction k arbitrary: i)
  case 0
  then show ?case by (subst memcmp_loop.simps) (simp add: word_less_nat_alt)
next
  case (Suc k)
  then have i: "i < n" by (simp add: word_less_nat_alt)
  have "memcmp_loop m s1 s2 (i + 1) n = cmp_bytes (bytes m (s1 + (i + 1)) k) (bytes m (s2 + (i + 1)) k)"
    using Suc.prems unat_plus_one [OF i] by (intro Suc.IH) simp
  then show ?case using i by (subst memcmp_loop.simps) (simp add: bytes_Suc add.assoc)
qed

lemma memcmp_eq: "memcmp m s1 s2 n = cmp_bytes (bytes m s1 (unat n)) (bytes m s2 (unat n))"
  using memcmp_loop_bytes [of n 0 "unat n"] by (simp add: memcmp_def)

lemma strchr_cstr:
  "cstr m s xs \<Longrightarrow>
     strchr m s (ucast b) =
       Some (if b \<in> set (xs @ [0]) then s + of_nat (length (takeWhile (\<lambda>x. x \<noteq> b) (xs @ [0]))) else NULL)"
proof (induction xs arbitrary: s)
  case Nil
  then show ?case by (subst strchr.simps) (auto simp: ucast_u8_inj ucast_u8_eq_0)
next
  case (Cons x xs)
  have inj: "(ucast x :: cint) = ucast b \<longleftrightarrow> x = b"
    by (rule ucast_u8_inj)
  show ?case using Cons.prems Cons.IH [of "s + 1"] inj
    by (subst strchr.simps) (auto simp: cstr_Cons add.assoc)
qed

lemma cstr_frame:
  assumes "cstr m s xs" "\<And>k. k \<le> length xs \<Longrightarrow> m' (s + of_nat k) = m (s + of_nat k)"
  shows "cstr m' s xs"
proof -
  have "bytes m' s (Suc (length xs)) = bytes m s (Suc (length xs))"
    using assms(2) by (intro bytes_cong) simp
  then show ?thesis using assms(1) by (simp add: cstr_def)
qed


lemma memcpy_loop0_fwd: "fwd_safe out inn n \<Longrightarrow> memcpy_loop m out inn 0 n = copied m out inn n"
  using memcpy_fwd [of out inn n m] by (simp add: memcpy_def)

lemma fwd_safe_ne:
  assumes "fwd_safe dst src n" "i < k" "k < n"
  shows "src + k \<noteq> dst + i"
proof
  assume "src + k = dst + i"
  then have "dst - src = k - i" by (simp add: algebra_simps)
  with assms word_sub_between [OF assms(2,3)] show False by (auto simp: fwd_safe_def)
qed

lemma cstr_step_frame:
  assumes c: "cstr m (src + (i + 1)) xs" and safe: "fwd_safe dst src N"
    and N: "unat i + Suc (length xs) < unat N"
  shows "cstr (m(dst + i := b)) (src + (i + 1)) xs"
proof (rule cstr_frame [OF c])
  fix k assume k: "k \<le> length xs"
  have i: "unat (i + 1) = Suc (unat i)"
    using N by (intro unat_plus_one [of i N]) (simp add: word_less_nat_alt)
  have "unat (i + 1 + of_nat k) = unat i + 1 + k"
    using k N i unsigned_less [of N, where ?'a = nat] by (simp add: unat_word_ariths)
  then have "i < i + 1 + of_nat k" "i + 1 + of_nat k < N"
    using k N by (simp_all add: word_less_nat_alt)
  then have "src + (i + 1 + of_nat k) \<noteq> dst + i" by (rule fwd_safe_ne [OF safe])
  then show "(m(dst + i := b)) (src + (i + 1) + of_nat k) = m (src + (i + 1) + of_nat k)"
    by (simp add: add.assoc)
qed

lemma strcpy_loop_memcpy:
  assumes "cstr m (src + i) xs" "unat n = unat i + Suc (length xs)" "fwd_safe dst src n"
  shows "strcpy_loop m dst src i = Some (memcpy_loop m dst src i n)"
  using assms
proof (induction xs arbitrary: m i)
  case Nil
  then have "i < n" "\<not> i + 1 < n"
    using unat_plus_one [of i n] by (simp_all add: word_less_nat_alt)
  then show ?case using Nil.prems
    by (subst strcpy_loop.simps, subst memcpy_loop.simps, subst memcpy_loop.simps) simp
next
  case (Cons x xs)
  then have i: "i < n" by (simp add: word_less_nat_alt)
  have n: "unat n = unat (i + 1) + Suc (length xs)"
    using Cons.prems(2) unat_plus_one [OF i] by simp
  let ?m1 = "m(dst + i := m (src + i))"
  have "cstr ?m1 (src + (i + 1)) xs"
    using Cons.prems by (intro cstr_step_frame [of _ _ _ _ _ n]) (simp_all add: cstr_Cons add.assoc)
  then have "strcpy_loop ?m1 dst src (i + 1) = Some (memcpy_loop ?m1 dst src (i + 1) n)"
    using Cons.IH Cons.prems(3) n by blast
  then show ?case using Cons.prems(1) i
    by (subst strcpy_loop.simps, subst memcpy_loop.simps) (simp add: cstr_Cons del: fun_upd_apply)
qed

lemma strcpy_cstr:
  assumes "cstr m src xs" "Suc (length xs) < 2 ^ 32" "fwd_safe dst src (of_nat (Suc (length xs)))"
  shows "strcpy m dst src = Some (copied m dst src (of_nat (Suc (length xs))), dst)"
  using strcpy_loop_memcpy [of m src 0 xs "of_nat (Suc (length xs))" dst] assms
  by (simp add: strcpy_def memcpy_loop_fwd copied_def del: of_nat_Suc)

lemma cstr_copied:
  assumes "cstr m src xs" "Suc (length xs) < 2 ^ 32"
  shows "cstr (copied m dst src (of_nat (Suc (length xs)))) dst xs"
  using assms bytes_copied [of "Suc (length xs)" m dst src] by (simp add: cstr_def del: of_nat_Suc)

lemma strcat_cstr:
  assumes d: "cstr m dst xs" and s: "cstr m src ys" and len: "Suc (length xs + length ys) < 2 ^ 32"
    and safe: "fwd_safe (dst + of_nat (length xs)) src (of_nat (Suc (length ys)))"
  obtains m' where "strcat m dst src = Some (m', dst)" "cstr m' dst (xs @ ys)"
    "\<And>a. of_nat (Suc (length ys)) \<le> a - (dst + of_nat (length xs)) \<Longrightarrow> m' a = m a"
proof
  let ?d = "dst + of_nat (length xs)"
  let ?m' = "copied m ?d src (of_nat (Suc (length ys)))"
  have len': "Suc (length ys) < 2 ^ 32" using len by simp
  show "strcat m dst src = Some (?m', dst)"
    by (simp add: strcat_def strlen_cstr [OF d] strcpy_cstr [OF s len' safe] del: of_nat_Suc)
  show "?m' a = m a" if "of_nat (Suc (length ys)) \<le> a - ?d" for a
    using that by (auto simp: copied_def dest: leD)
  have keep: "?m' (dst + of_nat k) = m (dst + of_nat k)" if "k < length xs" for k
  proof -
    have "unat (of_nat k - of_nat (length xs) :: addr) = 2 ^ 32 - (length xs - k)"
      using that len by (simp add: unat_word_ariths unat_sub_if' word_le_nat_alt)
    then have "\<not> (dst + of_nat k - ?d < of_nat (Suc (length ys)))"
      using that len by (simp add: word_less_nat_alt del: of_nat_Suc)
    then show ?thesis by (simp add: copied_def)
  qed
  have "bytes ?m' dst (length xs) = bytes m dst (length xs)"
    by (rule bytes_cong) (rule keep)
  moreover have "bytes ?m' ?d (Suc (length ys)) = ys @ [0]"
    using cstr_copied [OF s len', of ?d] by (simp add: cstr_def)
  moreover have "bytes m dst (length xs) = xs"
    using d bytes_add [of m dst "length xs" 1] by (simp add: cstr_def)
  ultimately have "bytes ?m' dst (length xs + Suc (length ys)) = xs @ ys @ [0]"
    by (simp only: bytes_add append_assoc)
  then show "cstr ?m' dst (xs @ ys)" using d s len by (simp add: cstr_def)
qed


lemma strncpy_copy_cstr:
  assumes "cstr m (src + i) xs" "unat n = unat i + k" "fwd_safe dst src N"
    "unat n \<le> unat N" "unat i + length xs < unat N"
  shows "strncpy_copy m dst src i n =
    (memcpy_loop m dst src i (i + of_nat (min k (length xs))), i + of_nat (min k (length xs)))"
  using assms
proof (induction xs arbitrary: m i k)
  case Nil
  then show ?case by (subst strncpy_copy.simps, subst memcpy_loop.simps) simp
next
  case (Cons x xs)
  show ?case
  proof (cases k)
    case 0
    with Cons.prems(2) show ?thesis
      by (subst strncpy_copy.simps, subst memcpy_loop.simps) (simp add: word_less_nat_alt)
  next
    case (Suc k')
    then have i: "i < n" using Cons.prems(2) by (simp add: word_less_nat_alt)
    let ?m1 = "m(dst + i := m (src + i))"
    let ?l = "min k' (length xs)"
    have n: "unat n = unat (i + 1) + k'" using Cons.prems(2) Suc unat_plus_one [OF i] by simp
    have c1: "cstr ?m1 (src + (i + 1)) xs"
      using Cons.prems by (intro cstr_step_frame [of _ _ _ _ _ N]) (simp_all add: cstr_Cons add.assoc)
    have "strncpy_copy ?m1 dst src (i + 1) n =
      (memcpy_loop ?m1 dst src (i + 1) (i + 1 + of_nat ?l), i + 1 + of_nat ?l)"
      using Cons.prems(5) unat_plus_one [OF i] by (intro Cons.IH [OF c1 n Cons.prems(3,4)]) simp
    moreover have "unat (i + 1 + of_nat ?l) = unat i + 1 + ?l"
      using n unat_plus_one [OF i] unsigned_less [of n, where ?'a = nat] by (simp add: unat_word_ariths)
    then have "i < i + 1 + of_nat ?l" by (simp add: word_less_nat_alt)
    moreover have "i + of_nat (min k (length (x # xs))) = i + 1 + of_nat ?l"
      by (simp add: Suc)
    ultimately show ?thesis using Cons.prems(1) i
      by (subst strncpy_copy.simps, subst memcpy_loop.simps) (simp add: cstr_Cons add.assoc del: fun_upd_apply)
  qed
qed

lemma strncpy_cstr:
  assumes c: "cstr m src xs" and safe: "fwd_safe dst src N"
    and N: "unat n \<le> unat N" "length xs < unat N"
  obtains m' where "strncpy m dst src n = (m', dst)"
    "bytes m' dst (unat n) = take (unat n) xs @ replicate (unat n - length xs) 0"
    "\<And>a. n \<le> a - dst \<Longrightarrow> m' a = m a"
proof -
  let ?k = "min (unat n) (length xs)"
  let ?w = "of_nat ?k :: size_t"
  have w: "unat ?w = ?k" using unsigned_less [of n, where ?'a = nat] by simp
  have safe': "fwd_safe dst src ?w"
    using safe N w by (elim fwd_safe_le) (simp add: word_le_nat_alt)
  have eq: "strncpy m dst src n =
    ((\<lambda>a. if ?w \<le> a - dst \<and> a - dst < n then 0 else copied m dst src ?w a), dst)"
    using strncpy_copy_cstr [of m src 0 xs n "unat n" dst N] c safe N
    by (simp add: strncpy_def strncpy_pad_memset memset_loop_eq memcpy_loop_fwd [OF safe'] copied_def fun_eq_iff)
  have "bytes (fst (strncpy m dst src n)) dst (unat n) ! k =
      (take (unat n) xs @ replicate (unat n - length xs) 0) ! k" if "k < unat n" for k
  proof (cases "k < length xs")
    case True
    have "(xs @ [0]) ! k = m (src + of_nat k)" using c True by (metis cstr_def less_Suc_eq nth_bytes)
    moreover have "(of_nat k :: addr) < ?w"
      using True that w unsigned_less [of n, where ?'a = nat] by (simp add: word_less_nat_alt)
    ultimately show ?thesis using that True by (auto simp: eq copied_def nth_append dest: leD)
  next
    case False
    have "?w \<le> (of_nat k :: addr)" "(of_nat k :: addr) < n"
      using False that w unsigned_less [of n, where ?'a = nat] by (simp_all add: word_less_nat_alt word_le_nat_alt)
    then show ?thesis using that False by (simp add: eq nth_append)
  qed
  then have 1: "bytes (fst (strncpy m dst src n)) dst (unat n) = take (unat n) xs @ replicate (unat n - length xs) 0"
    by (intro nth_equalityI) auto
  have "\<not> a - dst < ?w" if "n \<le> a - dst" for a
    using that w by (simp add: word_less_nat_alt word_le_nat_alt)
  then have 2: "fst (strncpy m dst src n) a = m a" if "n \<le> a - dst" for a
    using that by (simp add: eq copied_def leD)
  show thesis using that [of "fst (strncpy m dst src n)"] 1 2 eq by simp
qed

lemma strrchr_loop_cstr:
  assumes "k \<le> length ys" "length ys < 2 ^ 32" 
  shows "strrchr_loop m s (s + of_nat k) (ucast b) =
    (if b \<in> set (bytes m s (Suc k))
     then s + of_nat (k - length (takeWhile (\<lambda>x. x \<noteq> b) (rev (bytes m s (Suc k))))) else NULL)"
  using assms(1)
proof (induction k)
  case 0
  then show ?case by (subst strrchr_loop.simps) (auto simp: bytes_Suc ucast_u8_inj)
next
  case (Suc k)
  have snoc: "bytes m s (Suc (Suc k)) = bytes m s (Suc k) @ [m (s + of_nat (Suc k))]"
    using bytes_add [of m s "Suc k" 1] by (simp add: bytes_Suc)
  have "unat (of_nat (Suc k) :: addr) = Suc k" using Suc.prems assms(2) by (intro unat_of_nat_small) simp
  then have ne: "s \<noteq> s + of_nat (Suc k)" by (metis add_cancel_right_right nat.distinct(1) unat_0)
  show ?case
    unfolding snoc using Suc ne by (subst strrchr_loop.simps) (auto simp: ucast_u8_inj)
qed


lemma copied_at: "copied m out inn n (out + x) = (if x < n then m (inn + x) else m (out + x))"
  by (simp add: copied_def)

lemma copied_eqI: "(\<And>x. m' (out + x) = copied m out inn n (out + x)) \<Longrightarrow> m' = copied m out inn n"
proof
  fix a
  assume "\<And>x. m' (out + x) = copied m out inn n (out + x)"
  from this [of "a - out"] show "m' a = copied m out inn n a" by simp
qed

lemma memmove_disjoint:
  assumes nw: "unat src + unat n < 2 ^ 32" "unat dst + unat n < 2 ^ 32"
    and dj: "src + n \<le> dst \<or> dst + n \<le> src"
  shows "memmove m dst src n = (copied m dst src n, dst)"
proof -
  have "fwd_safe dst src n"
  proof (cases "src \<le> dst")
    case True
    then have "unat (dst - src) = unat dst - unat src" by (rule unat_diff)
    then show ?thesis using dj nw True
      by (auto simp: fwd_safe_def word_le_nat_alt unat_add_small word_unat_eq_iff)
  next
    case False
    then have "unat (dst - src) = 2 ^ 32 + unat dst - unat src" by (subst unat_sub_wrap) auto
    then show ?thesis using dj nw False unsigned_less [of src, where ?'a = nat]
      by (auto simp: fwd_safe_def word_le_nat_alt unat_add_small)
  qed
  then show ?thesis using dj by (simp add: memmove_def memcpy_fwd)
qed

lemma memcpy_loop_frame:
  "\<not> (i \<le> a - out \<and> a - out < n) \<Longrightarrow> memcpy_loop m out inn i n a = m a"
proof (induction m out inn i n rule: memcpy_loop.induct)
  case (1 m out inn i n)
  show ?case
  proof (cases "i < n")
    case True
    then have "memcpy_loop (m(out + i := m (inn + i))) out inn (i + 1) n a = (m(out + i := m (inn + i))) a"
      using 1 loop_step_set [OF True] by blast
    then show ?thesis using True "1.prems" loop_step_set [OF True, of a out]
      by (subst memcpy_loop.simps) auto
  qed (subst memcpy_loop.simps, simp)
qed

lemma memcpy_loop_split:
  "i \<le> k \<Longrightarrow> k \<le> n \<Longrightarrow>
     memcpy_loop m out inn i n = memcpy_loop (memcpy_loop m out inn i k) out inn k n"
proof (induction m out inn i n rule: memcpy_loop.induct)
  case (1 m out inn i n)
  show ?case
  proof (cases "i < k")
    case True
    then have "i < n" using "1.prems" by simp
    then have "memcpy_loop m out inn i n = memcpy_loop (m(out + i := m (inn + i))) out inn (i + 1) n"
      by (subst memcpy_loop.simps) simp
    also have "\<dots> = memcpy_loop (memcpy_loop (m(out + i := m (inn + i))) out inn (i + 1) k) out inn k n"
      using \<open>i < n\<close> "1.prems"(2) True by (intro "1.IH") (auto simp: word_plus_one_le_iff)
    also have "memcpy_loop (m(out + i := m (inn + i))) out inn (i + 1) k = memcpy_loop m out inn i k"
      using True by (subst (2) memcpy_loop.simps) simp
    finally show ?thesis .
  next
    case False
    then have "i = k" using "1.prems" by simp
    then show ?thesis by (subst (3) memcpy_loop.simps) simp
  qed
qed


subsection \<open>Overlapping moves\<close>

text \<open>The two overlapping cases, with the distance \<open>d\<close> between the blocks as a parameter.\<close>

definition overlap :: "addr \<Rightarrow> size_t \<Rightarrow> size_t \<Rightarrow> bool" where
  "overlap p d n \<longleftrightarrow> 0 < d \<and> d < n \<and> unat p + unat d + unat n < 2 ^ 32"

lemma overlap_facts:
  assumes "overlap p d n"
  shows "unat (p + d) = unat p + unat d" "unat (p + n) = unat p + unat n"
    "unat (p + d + n) = unat p + unat d + unat n" "unat (d + d) = 2 * unat d"
    "unat (n - d) = unat n - unat d" "0 < unat d" "unat d < unat n"
    "unat (- d) = 2 ^ 32 - unat d"
  using assms unat_sub_wrap [of 0 d]
  by (simp_all add: overlap_def unat_add_small unat_diff word_less_nat_alt word_le_nat_alt unat_word_ariths)

lemma memmove_fwd_eq:
  assumes "overlap src d n"
  shows "memmove m (src + d) src n =
    (memcpy_loop (memcpy_loop m (src + d + d) (src + d) 0 (n - d)) (src + d) src 0 d, src + d)"
proof -
  have "\<not> src + n \<le> src + d" "\<not> src + d + n \<le> src" "src < src + d"
    using overlap_facts [OF assms] by (simp_all add: word_le_nat_alt word_less_nat_alt)
  then show ?thesis by (simp add: memmove_def memcpy_def Let_def)
qed

lemma memmove_bwd_eq:
  assumes "overlap dst d n"
  shows "memmove m dst (dst + d) n =
    (copied (copied m dst (dst + d) (n - d)) (dst + d) (dst + d + d) d, dst)"
proof -
  have "\<not> dst + n \<le> dst + d" "\<not> dst + d + n \<le> dst" "\<not> dst + d < dst" "dst < dst + d"
    using overlap_facts [OF assms] by (simp_all add: word_le_nat_alt word_less_nat_alt)
  moreover have "fwd_safe dst (dst + d) (n - d)" "fwd_safe (dst + d) (dst + d + d) d"
    using overlap_facts [OF assms] assms
    by (auto simp: fwd_safe_def word_le_nat_alt overlap_def intro!: disjI2)
  ultimately show ?thesis by (simp add: memmove_def memcpy_fwd Let_def)
qed

lemma memmove_fwd_half:
  assumes ol: "overlap src d n" and half: "unat n \<le> 2 * unat d"
  shows "memmove m (src + d) src n = (copied m (src + d) src n, src + d)"
proof -
  note f = overlap_facts [OF ol]
  let ?dst = "src + d"
  have "memcpy_loop m (?dst + d) ?dst 0 (n - d) = copied m (?dst + d) ?dst (n - d)"
    using f half by (intro memcpy_loop0_fwd) (auto simp: fwd_safe_def word_le_nat_alt)
  moreover have "memcpy_loop m1 ?dst src 0 d = copied m1 ?dst src d" for m1
    by (rule memcpy_loop0_fwd) (simp add: fwd_safe_def)
  moreover have "copied (copied m (?dst + d) ?dst (n - d)) ?dst src d = copied m ?dst src n"
  proof (rule copied_eqI)
    fix x
    show "copied (copied m (?dst + d) ?dst (n - d)) ?dst src d (?dst + x) = copied m ?dst src n (?dst + x)"
    proof (cases "x < d")
      case True
      then have "unat (x - (d + d)) = 2 ^ 32 + unat x - 2 * unat d"
        using f by (subst unat_sub_wrap) (simp_all add: word_less_nat_alt)
      then have "\<not> x - (d + d) < n - d" using f ol by (simp add: word_less_nat_alt overlap_def)
      moreover have "src + x - (?dst + d) = x - (d + d)" by (simp add: algebra_simps)
      ultimately have "\<not> src + x - (?dst + d) < n - d" by metis
      moreover have "x < n" using True f by (simp add: word_less_nat_alt)
      ultimately show ?thesis using True
        by (simp only: copied_at copied_def [of m "?dst + d"] if_True if_False)
    next
      case False
      then have "unat (x - d) = unat x - unat d" by (simp add: unat_diff)
      then have "x - d < n - d \<longleftrightarrow> x < n" using False f by (auto simp: word_less_nat_alt word_le_nat_alt)
      moreover have "?dst + x - (?dst + d) = x - d" "?dst + (x - d) = src + x" by simp_all
      ultimately show ?thesis using False by (simp only: copied_at copied_def [of m "?dst + d"] if_False)
    qed
  qed
  ultimately show ?thesis by (simp add: memmove_fwd_eq [OF ol])
qed

lemma memmove_fwd_repeats:
  assumes ol: "overlap src d n" and half: "2 * unat d < unat n"
  shows "fst (memmove m (src + d) src n) (src + d + d + d) = m (src + d)"
proof -
  note f = overlap_facts [OF ol]
  let ?out = "src + d + d"
  let ?m0 = "memcpy_loop m ?out (src + d) 0 d"
  let ?m1 = "memcpy_loop m ?out (src + d) 0 (n - d)"
  have lt: "d < n - d" using f half by (simp add: word_less_nat_alt)
  have m0: "?m0 = copied m ?out (src + d) d"
    by (rule memcpy_loop0_fwd) (simp add: fwd_safe_def)
  let ?m2 = "?m0(?out + d := ?m0 (src + d + d))"
  have e1: "?m1 = memcpy_loop ?m0 ?out (src + d) d (n - d)"
    using lt by (intro memcpy_loop_split) simp_all
  have e2: "memcpy_loop ?m0 ?out (src + d) d (n - d) = memcpy_loop ?m2 ?out (src + d) (d + 1) (n - d)"
    using lt by (subst memcpy_loop.simps) (simp only: if_True)
  have "memcpy_loop ?m2 ?out (src + d) (d + 1) (n - d) (?out + d) = ?m2 (?out + d)"
    using lt by (intro memcpy_loop_frame) (simp add: word_plus_one_le_iff [OF lt])
  moreover have "?m0 ?out = m (src + d)"
    unfolding m0 copied_def using ol by (simp add: overlap_def)
  ultimately have v: "?m1 (?out + d) = m (src + d)"
    by (simp only: e1 e2 fun_upd_same)
  have "\<not> d + d < d" using f by (simp add: word_less_nat_alt)
  then have "memcpy_loop ?m1 (src + d) src 0 d (?out + d) = ?m1 (?out + d)"
    by (intro memcpy_loop_frame) (simp add: add.assoc)
  then show ?thesis using v by (simp add: memmove_fwd_eq [OF ol])
qed

lemma memmove_bwd_half:
  assumes ol: "overlap dst d n" and half: "unat n = 2 * unat d"
  shows "memmove m dst (dst + d) n = (copied m dst (dst + d) n, dst)"
proof -
  note f = overlap_facts [OF ol]
  have nd: "n - d = d" using f half by (simp add: word_unat_eq_iff)
  have "copied (copied m dst (dst + d) d) (dst + d) (dst + d + d) d = copied m dst (dst + d) n"
  proof (rule copied_eqI)
    fix x
    show "copied (copied m dst (dst + d) d) (dst + d) (dst + d + d) d (dst + x) = copied m dst (dst + d) n (dst + x)"
    proof (cases "x < d")
      case True
      then have "unat (x - d) = 2 ^ 32 + unat x - unat d" by (subst unat_sub_wrap) simp_all
      then have "\<not> x - d < d" using True f ol by (simp add: word_less_nat_alt overlap_def)
      moreover have "x < n" using True f by (simp add: word_less_nat_alt)
      ultimately show ?thesis using True by (simp add: copied_def)
    next
      case False
      then have "unat (x - d) = unat x - unat d" by (simp add: unat_diff)
      then have xd: "x - d < d \<longleftrightarrow> x < n" using False f half by (auto simp: word_less_nat_alt)
      have "\<not> d + x < d" if "x < n"
        using that f ol by (simp add: word_less_nat_alt overlap_def unat_add_small)
      moreover have "dst + d + d + (x - d) = dst + (d + x)" by simp
      ultimately show ?thesis using False xd
        by (simp only: copied_at copied_def [of _ "dst + d"] add_diff_cancel_left) (auto simp: add.assoc)
    qed
  qed
  then show ?thesis by (simp add: memmove_bwd_eq [OF ol] nd)
qed

lemma memmove_bwd_overrun:
  assumes ol: "overlap dst d n" and half: "unat n < 2 * unat d"
  shows "fst (memmove m dst (dst + d) n) (dst + n) = m (dst + d + n)"
proof -
  note f = overlap_facts [OF ol]
  have 1: "n - d < d" using f half by (simp add: word_less_nat_alt)
  have "unat (d + n) = unat d + unat n" using f ol by (subst unat_add_small) (simp_all add: overlap_def)
  then have 2: "\<not> d + n < n - d" using f by (simp add: word_less_nat_alt)
  let ?m1 = "copied m dst (dst + d) (n - d)"
  have "copied ?m1 (dst + d) (dst + d + d) d (dst + n) = ?m1 (dst + d + d + (n - d))"
    using 1 by (simp only: copied_def [of _ "dst + d"] add_diff_cancel_left if_True)
  also have "dst + d + d + (n - d) = dst + (d + n)" by simp
  also have "?m1 (dst + (d + n)) = m (dst + (d + n))" using 2 by (simp only: copied_at if_False)
  finally show ?thesis by (simp add: memmove_bwd_eq [OF ol] add.assoc)
qed

lemma memmove_bwd_short:
  assumes ol: "overlap dst d n" and half: "2 * unat d < unat n"
  shows "fst (memmove m dst (dst + d) n) (dst + (n - 1)) = m (dst + (n - 1))"
proof -
  note f = overlap_facts [OF ol]
  have n1: "unat (n - 1) = unat n - 1" using f by (subst unat_diff) (simp_all add: word_le_nat_alt)
  have "unat (n - 1 - d) = unat n - 1 - unat d"
    using f n1 by (subst unat_diff) (simp_all add: word_le_nat_alt)
  then have 1: "\<not> n - 1 - d < d" using half by (simp add: word_less_nat_alt)
  have 2: "\<not> n - 1 < n - d" using f n1 by (simp add: word_less_nat_alt)
  show ?thesis unfolding memmove_bwd_eq [OF ol] using 1 2
    by (simp only: fst_conv copied_def [of _ "dst + d"] add_diff_cancel_left if_False copied_at)
qed

subsection \<open>Properties\<close>

text \<open>
  \<open>memcpy\<close> delivers an exact copy and changes no byte outside the destination, for disjoint
  blocks, for a destination below the source and for source equal to destination.
\<close>
theorem memcpy_exact:
  "fwd_safe out inn n \<Longrightarrow> memcpy m out inn n = (copied m out inn n, out)"
  by (rule memcpy_fwd)

theorem memcpy_exact_witness:
  "memcpy (mem_at 100 [1, 2, 3]) 200 100 3 = (copied (mem_at 100 [1, 2, 3]) 200 100 3, 200)"
  by (rule memcpy_exact) (simp add: fwd_safe_def)

text \<open>
  \<open>memmove\<close> is an exact move when the blocks are disjoint, or when the destination lies above
  the source by at least half the length.
\<close>
theorem memmove_exact:
  assumes "unat src + unat n < 2 ^ 32" "unat dst + unat n < 2 ^ 32"
    and "unat src + unat n \<le> unat dst \<or> unat dst + unat n \<le> unat src \<or>
         (src < dst \<and> unat n \<le> 2 * unat (dst - src))"
  shows "memmove m dst src n = (copied m dst src n, dst)"
proof (cases "src + n \<le> dst \<or> dst + n \<le> src")
  case True
  then show ?thesis using assms by (intro memmove_disjoint)
next
  case False
  then have nd: "unat dst < unat src + unat n" "unat src < unat dst + unat n"
    using assms(1,2) by (simp_all add: word_le_nat_alt unat_add_small)
  with assms(3) have up: "src < dst" "unat n \<le> 2 * unat (dst - src)" by auto
  then have d: "unat (dst - src) = unat dst - unat src" by (intro unat_diff) simp
  then have "overlap src (dst - src) n"
    using assms(2) nd up(1) by (simp add: overlap_def word_less_nat_alt)
  from memmove_fwd_half [OF this up(2)] show ?thesis by simp
qed

theorem memmove_exact_witness:
  "memmove (mem_at 100 [1, 2, 3, 4]) 102 100 4 = (copied (mem_at 100 [1, 2, 3, 4]) 102 100 4, 102)"
  by (rule memmove_exact) simp_all

text \<open>
  When the destination lies above the source by \<open>d\<close> with \<open>2 * d\<close> less than the length,
  \<open>memmove\<close> is not a move: the byte at offset \<open>2 * d\<close> of the destination receives the source
  byte at offset \<open>d\<close>, because the first \<open>memcpy\<close> reads bytes it has already overwritten.
\<close>
theorem memmove_overlap_repeats:
  assumes "0 < d" "2 * unat d < unat n" "unat src + unat d + unat n < 2 ^ 32"
  shows "fst (memmove m (src + d) src n) (src + d + (d + d)) = m (src + d)"
proof -
  have "d < n" "0 < d" using assms by (simp_all add: word_less_nat_alt)
  then have "overlap src d n" using assms by (simp add: overlap_def)
  from memmove_fwd_repeats [OF this assms(2)] show ?thesis by (simp add: add.assoc)
qed

theorem memmove_overlap_repeats_witness:
  "fst (memmove (mem_at 100 [1, 2, 3]) (100 + 1) 100 3) (100 + 1 + (1 + 1)) = 2"
  by (subst memmove_overlap_repeats) (simp_all add: mem_at_def)

text \<open>
  \<open>strcpy\<close> returns, leaves the source string at the destination and changes no byte beyond
  its terminator.
\<close>
theorem strcpy_copies:
  assumes "cstr m src xs" "Suc (length xs) < 2 ^ 32" "fwd_safe dst src (of_nat (Suc (length xs)))"
  shows "\<exists>m'. strcpy m dst src = Some (m', dst) \<and> cstr m' dst xs \<and>
    (\<forall>a. \<not> a - dst < of_nat (Suc (length xs)) \<longrightarrow> m' a = m a)"
  using strcpy_cstr [OF assms] cstr_copied [OF assms(1,2), of dst]
  by (auto simp: copied_def simp del: of_nat_Suc)

theorem strcpy_copies_witness:
  "\<exists>m'. strcpy (mem_at 100 [72, 105, 0]) 200 100 = Some (m', 200) \<and> cstr m' 200 [72, 105] \<and>
    (\<forall>a. \<not> a - 200 < of_nat (Suc (length [72, 105 :: u8])) \<longrightarrow> m' a = mem_at 100 [72, 105, 0] a)"
  by (rule strcpy_copies) (simp_all add: cstr_Cons mem_at_def fwd_safe_def)

text \<open>
  \<open>strcat\<close> returns, leaves the concatenation of the two strings at the destination and
  changes no byte outside the appended part.
\<close>
theorem strcat_concatenates:
  assumes "cstr m dst xs" "cstr m src ys" "Suc (length xs + length ys) < 2 ^ 32"
    and "fwd_safe (dst + of_nat (length xs)) src (of_nat (Suc (length ys)))"
  shows "\<exists>m'. strcat m dst src = Some (m', dst) \<and> cstr m' dst (xs @ ys) \<and>
    (\<forall>a. of_nat (Suc (length ys)) \<le> a - (dst + of_nat (length xs)) \<longrightarrow> m' a = m a)"
  using strcat_cstr [OF assms] by metis

theorem strcat_concatenates_witness:
  "\<exists>m'. strcat (mem_at 100 [72, 105, 0, 0, 33, 0]) 100 104 = Some (m', 100) \<and>
    cstr m' 100 ([72, 105] @ [33]) \<and>
    (\<forall>a. of_nat (Suc (length [33 :: u8])) \<le> a - (100 + of_nat (length [72, 105 :: u8])) \<longrightarrow>
      m' a = mem_at 100 [72, 105, 0, 0, 33, 0] a)"
  by (rule strcat_concatenates) (simp_all add: cstr_Cons mem_at_def fwd_safe_def)

text \<open>
  \<open>strncpy\<close> fills exactly \<open>n\<close> bytes: the source truncated to \<open>n\<close>, padded with NUL bytes,
  and nothing beyond.
\<close>
theorem strncpy_pads:
  assumes "cstr m src xs" "fwd_safe dst src N" "unat n \<le> unat N" "length xs < unat N"
  shows "\<exists>m'. strncpy m dst src n = (m', dst) \<and>
    bytes m' dst (unat n) = take (unat n) xs @ replicate (unat n - length xs) 0 \<and>
    (\<forall>a. n \<le> a - dst \<longrightarrow> m' a = m a)"
  using strncpy_cstr [OF assms] by metis

theorem strncpy_pads_witness:
  "\<exists>m'. strncpy (mem_at 100 [72, 105, 0]) 200 100 5 = (m', 200) \<and>
    bytes m' 200 (unat (5 :: size_t)) = take (unat (5 :: size_t)) [72, 105] @ replicate (unat (5 :: size_t) - length [72, 105 :: u8]) 0 \<and>
    (\<forall>a. 5 \<le> a - 200 \<longrightarrow> m' a = mem_at 100 [72, 105, 0] a)"
  by (rule strncpy_pads [where N = 50]) (simp_all add: cstr_Cons mem_at_def fwd_safe_def)

text \<open>
  \<open>strcmp\<close> orders strings lexicographically by unsigned bytes, and reports equality exactly
  for equal strings.
\<close>
theorem strcmp_lexicographic:
  assumes "cstr m s1 xs" "cstr m s2 ys"
  shows "(strcmp m s1 s2 = 0 \<longleftrightarrow> xs = ys) \<and>
    (strcmp m s1 s2 = - 1 \<longleftrightarrow> (xs, ys) \<in> lexord {(a, b). a < b}) \<and>
    (strcmp m s1 s2 = 1 \<longleftrightarrow> (ys, xs) \<in> lexord {(a, b). a < b})"
  using cmp_bytes_eq_0_iff [of xs ys] cmp_bytes_neg_iff [of xs ys] cmp_bytes_neg_iff [of ys xs]
    cmp_bytes_antisym [of xs ys] by (simp add: strcmp_cstr [OF assms])

theorem strcmp_lexicographic_witness:
  "strcmp (mem_at 100 [97, 0, 98, 0]) 100 102 = - 1"
  by (subst strcmp_lexicographic [where xs = "[97]" and ys = "[98]", THEN conjunct2, THEN conjunct1])
    (simp_all add: cstr_Cons mem_at_def)

end
