(* ===== verification/KCtype.thy ===== *)
theory KCtype
  imports Prelude
begin

text \<open>
  The character classes of \<open>klib/src/ctypes.c\<close>; the argument is a C \<open>int\<close> and the tests are
  signed comparisons.
\<close>

definition isspace :: "cint \<Rightarrow> bool" where
  "isspace c \<longleftrightarrow> c = 32 \<or> c = 12 \<or> c = 10 \<or> c = 13 \<or> c = 9 \<or> c = 11"

definition isprint :: "cint \<Rightarrow> bool" where
  "isprint c \<longleftrightarrow> 0x20 \<le> sint c \<and> sint c < 128"

definition isdigit :: "cint \<Rightarrow> bool" where
  "isdigit c \<longleftrightarrow> 48 \<le> sint c \<and> sint c \<le> 57"

definition isxdigit :: "cint \<Rightarrow> bool" where
  "isxdigit c \<longleftrightarrow> isdigit c \<or> (65 \<le> sint c \<and> sint c \<le> 70) \<or> (97 \<le> sint c \<and> sint c \<le> 102)"

definition islower :: "cint \<Rightarrow> bool" where
  "islower c \<longleftrightarrow> 97 \<le> sint c \<and> sint c \<le> 122"

definition isupper :: "cint \<Rightarrow> bool" where
  "isupper c \<longleftrightarrow> 65 \<le> sint c \<and> sint c \<le> 90"

definition isalpha :: "cint \<Rightarrow> bool" where
  "isalpha c \<longleftrightarrow> islower c \<or> isupper c"

definition isalnum :: "cint \<Rightarrow> bool" where
  "isalnum c \<longleftrightarrow> isalpha c \<or> isdigit c"

definition ispunct :: "cint \<Rightarrow> bool" where
  "ispunct c \<longleftrightarrow> isprint c \<and> \<not> isspace c \<and> \<not> isalnum c"

definition iscntrl :: "cint \<Rightarrow> bool" where
  "iscntrl c \<longleftrightarrow> 0 \<le> sint c \<and> sint c < 0x20"

definition isgraph :: "cint \<Rightarrow> bool" where
  "isgraph c \<longleftrightarrow> isprint c \<and> \<not> isspace c"

definition tolower :: "cint \<Rightarrow> cint" where
  "tolower c = (if isupper c then c + 97 - 65 else c)"

definition toupper :: "cint \<Rightarrow> cint" where
  "toupper c = (if islower c then c + 65 - 97 else c)"

lemmas ctype_defs = isspace_def isprint_def isdigit_def isxdigit_def islower_def isupper_def
  isalpha_def isalnum_def ispunct_def iscntrl_def isgraph_def

lemma sint_ucast_u8 [simp]: "sint (ucast (b :: u8) :: cint) = uint b"
proof -
  have "0 \<le> uint b" "uint b < 256" using unsigned_less [of b, where ?'a = int] by simp_all
  then have "signed_take_bit 31 (uint b) = uint b"
    by (intro signed_take_bit_int_eq_self) (auto intro: order_trans [of _ 0])
  then show ?thesis by (simp add: sint_uint uint_ucast_up)
qed

lemma tolower_isupper: "isupper c \<Longrightarrow> islower (tolower c)"
  using sint_u32_add [of c 32] by (simp add: tolower_def ctype_defs add.commute)

lemma toupper_islower: "islower c \<Longrightarrow> isupper (toupper c)"
  using sint_u32_diff [of c 32] by (simp add: toupper_def ctype_defs)

lemma tolower_toupper_roundtrip:
  "(isupper c \<longrightarrow> toupper (tolower c) = c) \<and> (islower c \<longrightarrow> tolower (toupper c) = c)"
  using tolower_isupper [of c] toupper_islower [of c] by (auto simp: tolower_def toupper_def)

end
