(* ===== verification/Allocator.thy ===== *)
theory Allocator
  imports Main
begin

text \<open>
  What a client may expect of a memory allocator: a block it hands out lies in the pool and
  shares no byte with what had been handed out before.
\<close>

definition block :: "nat \<times> nat \<Rightarrow> nat set" where
  "block b = {fst b ..< fst b + snd b}"

locale allocator =
  fixes inv :: "'s \<Rightarrow> bool" and pool :: "'s \<Rightarrow> nat set" and taken :: "'s \<Rightarrow> nat set"
    and admissible :: "'s \<Rightarrow> nat \<Rightarrow> bool" and alloc :: "'s \<Rightarrow> nat \<Rightarrow> 's \<times> nat option"
  assumes inv_alloc: "inv s \<Longrightarrow> admissible s n \<Longrightarrow> inv (fst (alloc s n))"
    and pool_alloc: "pool (fst (alloc s n)) = pool s"
    and admissible_alloc: "admissible (fst (alloc s n)) = admissible s"
    and taken_alloc: "inv s \<Longrightarrow> admissible s n \<Longrightarrow> taken s \<subseteq> taken (fst (alloc s n))"
    and block_alloc: "inv s \<Longrightarrow> admissible s n \<Longrightarrow> snd (alloc s n) = Some p \<Longrightarrow>
          block (p, n) \<subseteq> pool s - taken s \<and> block (p, n) \<subseteq> taken (fst (alloc s n))"

primrec run_allocs :: "('s \<Rightarrow> nat \<Rightarrow> 's \<times> nat option) \<Rightarrow> 's \<Rightarrow> nat list \<Rightarrow> (nat \<times> nat) list" where
  "run_allocs alloc s [] = []"
| "run_allocs alloc s (n # ns) =
     (case alloc s n of (s', r) \<Rightarrow>
        (case r of None \<Rightarrow> [] | Some p \<Rightarrow> [(p, n)]) @ run_allocs alloc s' ns)"

context allocator
begin

lemma run_allocs_free:
  "inv s \<Longrightarrow> list_all (admissible s) ns \<Longrightarrow> b \<in> set (run_allocs alloc s ns) \<Longrightarrow>
     block b \<subseteq> pool s - taken s"
proof (induction ns arbitrary: s)
  case (Cons n ns)
  obtain s' r where a: "alloc s n = (s', r)" by fastforce
  have "block b \<subseteq> pool s' - taken s'" if "b \<in> set (run_allocs alloc s' ns)"
    using Cons.IH [of s'] Cons.prems that inv_alloc [of s n] admissible_alloc [of s n] a by simp
  then show ?case
    using Cons.prems taken_alloc [of s n] pool_alloc [of s n] block_alloc [of s n] a
    by (auto split: option.splits)
qed simp

lemma run_allocs_disjoint:
  "inv s \<Longrightarrow> list_all (admissible s) ns \<Longrightarrow>
     sorted_wrt (\<lambda>b c. block b \<inter> block c = {}) (run_allocs alloc s ns)"
proof (induction ns arbitrary: s)
  case (Cons n ns)
  obtain s' r where a: "alloc s n = (s', r)" by fastforce
  have s': "inv s'" "list_all (admissible s') ns"
    using Cons.prems inv_alloc [of s n] admissible_alloc [of s n] a by simp_all
  have "block (p, n) \<inter> block c = {}" if "r = Some p" "c \<in> set (run_allocs alloc s' ns)" for p c
    using run_allocs_free [OF s' that(2)] block_alloc [of s n p] Cons.prems a that(1)
    by auto
  then show ?case using Cons.IH [OF s'] a by (cases r) auto
qed simp

end

text \<open>
  The contract of a heap that takes blocks back: \<open>live\<close> are the blocks handed out, with their real sizes.  Calls
  may end the system (\<open>None\<close>), and the contract says that they do not.
\<close>

locale heap_allocator =
  fixes inv :: "'s \<Rightarrow> bool" and live :: "'s \<Rightarrow> (nat \<times> nat) set" and pool :: "'s \<Rightarrow> nat set" and admissible :: "nat \<Rightarrow> bool"
    and alloc :: "'s \<Rightarrow> nat \<Rightarrow> ('s \<times> nat option) option" and free :: "'s \<Rightarrow> nat \<Rightarrow> 's option"
  assumes live_pool: "inv s \<Longrightarrow> b \<in> live s \<Longrightarrow> block b \<subseteq> pool s \<and> 0 < snd b"
    and live_disjoint: "inv s \<Longrightarrow> b \<in> live s \<Longrightarrow> b' \<in> live s \<Longrightarrow> b \<noteq> b' \<Longrightarrow> block b \<inter> block b' = {}"
    and alloc_ok: "inv s \<Longrightarrow> admissible n \<Longrightarrow> \<exists>s' r. alloc s n = Some (s', r) \<and> inv s' \<and> pool s' = pool s \<and>
          (case r of None \<Rightarrow> live s' = live s | Some p \<Rightarrow> \<exists>c\<ge>n. (p, c) \<notin> live s \<and> live s' = insert (p, c) (live s))"
    and free_ok: "inv s \<Longrightarrow> (p, c) \<in> live s \<Longrightarrow> \<exists>s'. free s p = Some s' \<and> inv s' \<and> pool s' = pool s \<and> live s' = live s - {(p, c)}"

text \<open>A client allocates and gives back what it holds, in any order; \<open>Free i\<close> is the \<open>i\<close>-th block it holds.  The
  blocks it holds are listed with the sizes it asked for.\<close>

datatype heap_op = Alloc nat | Free nat

fun heap_step :: "('s \<Rightarrow> nat \<Rightarrow> ('s \<times> nat option) option) \<Rightarrow> ('s \<Rightarrow> nat \<Rightarrow> 's option) \<Rightarrow> heap_op \<Rightarrow>
    's \<times> (nat \<times> nat) list \<Rightarrow> ('s \<times> (nat \<times> nat) list) option" where
  "heap_step alloc free (Alloc n) (s, held) =
     (case alloc s n of None \<Rightarrow> None | Some (s', None) \<Rightarrow> Some (s', held) | Some (s', Some p) \<Rightarrow> Some (s', held @ [(p, n)]))"
| "heap_step alloc free (Free i) (s, held) =
     (if i < length held
      then (case free s (fst (held ! i)) of None \<Rightarrow> None | Some s' \<Rightarrow> Some (s', take i held @ drop (Suc i) held))
      else Some (s, held))"

primrec heap_run :: "('s \<Rightarrow> nat \<Rightarrow> ('s \<times> nat option) option) \<Rightarrow> ('s \<Rightarrow> nat \<Rightarrow> 's option) \<Rightarrow> heap_op list \<Rightarrow>
    's \<times> (nat \<times> nat) list \<Rightarrow> ('s \<times> (nat \<times> nat) list) option" where
  "heap_run alloc free [] st = Some st"
| "heap_run alloc free (x # xs) st = (case heap_step alloc free x st of None \<Rightarrow> None | Some st' \<Rightarrow> heap_run alloc free xs st')"

text \<open>The blocks of the client are the blocks of the heap, each held once.\<close>

definition holds :: "('s \<Rightarrow> (nat \<times> nat) set) \<Rightarrow> 's \<Rightarrow> (nat \<times> nat) list \<Rightarrow> bool" where
  "holds live s held \<longleftrightarrow> distinct (map fst held) \<and> fst ` live s = fst ` set held \<and> (\<forall>(p, n)\<in>set held. \<exists>c\<ge>n. (p, c) \<in> live s)"

context heap_allocator
begin

lemma live_unique: "inv s \<Longrightarrow> (p, c) \<in> live s \<Longrightarrow> (p, c') \<in> live s \<Longrightarrow> c = c'"
  using live_disjoint [of s "(p, c)" "(p, c')"] live_pool [of s "(p, c)"] live_pool [of s "(p, c')"]
  by (fastforce simp: block_def)

lemma step_holds:
  assumes i: "inv s" and h: "holds live s held" and x: "case x of Alloc n \<Rightarrow> admissible n | _ \<Rightarrow> True"
  obtains s' held' where "heap_step alloc free x (s, held) = Some (s', held')" "inv s'" "holds live s' held'" "pool s' = pool s"
proof (cases x)
  case (Alloc n)
  obtain s' r where a: "alloc s n = Some (s', r)" "inv s'" "pool s' = pool s"
    and l: "case r of None \<Rightarrow> live s' = live s | Some p \<Rightarrow> \<exists>c\<ge>n. (p, c) \<notin> live s \<and> live s' = insert (p, c) (live s)"
    using alloc_ok [OF i, of n] x Alloc by fastforce
  show thesis
  proof (cases r)
    case None
    then show thesis using that [of s' held] a l h Alloc by (simp add: holds_def)
  next
    case (Some p)
    then obtain c where c: "c \<ge> n" "(p, c) \<notin> live s" "live s' = insert (p, c) (live s)" using l by auto
    have "p \<notin> fst ` live s" using c(2) live_unique [OF a(2), of p c] unfolding c(3) by fastforce
    then have "p \<notin> fst ` set held" using h by (simp add: holds_def)
    then have "holds live s' (held @ [(p, n)])" using h c(1,3) by (fastforce simp: holds_def)
    then show thesis using that [of s' "held @ [(p, n)]"] a Alloc Some by simp
  qed
next
  case (Free i)
  show thesis
  proof (cases "i < length held")
    case True
    let ?rest = "take i held @ drop (Suc i) held"
    obtain p n where e: "held ! i = (p, n)" by fastforce
    then obtain c where c: "(p, c) \<in> live s" using h nth_mem [OF True] by (auto simp: holds_def)
    obtain s' where f: "free s p = Some s'" "inv s'" "pool s' = pool s" "live s' = live s - {(p, c)}" using free_ok [OF assms(1) c] by blast
    have d: "held = take i held @ (p, n) # drop (Suc i) held" using id_take_nth_drop [OF True] e by simp
    have "distinct (map fst (take i held @ (p, n) # drop (Suc i) held))" using h unfolding holds_def by (subst (asm) d) blast
    then have di: "distinct (map fst ?rest)" "p \<notin> fst ` set ?rest" by auto
    have "\<exists>c\<ge>n'. (p', c) \<in> live s'" if "(p', n') \<in> set ?rest" for p' n'
    proof -
      have "(p', n') \<in> set held" using that by (subst d) auto
      then obtain c' where "c' \<ge> n'" "(p', c') \<in> live s" using h by (auto simp: holds_def)
      moreover have "p' \<noteq> p" using di(2) that by force
      ultimately show ?thesis using f(4) by auto
    qed
    moreover have "fst ` live s' = fst ` live s - {p}" using live_unique [OF assms(1) c] unfolding f(4) by force
    moreover have "fst ` set held = insert p (fst ` set ?rest)" by (subst d) auto
    ultimately have "holds live s' ?rest" using di h unfolding holds_def by auto
    then show thesis using that [of s' ?rest] f e True Free by simp
  next
    case False
    then show thesis using that [of s held] i h Free assms(1) by simp
  qed
qed

lemma run_holds:
  assumes "inv s" "holds live s held" "\<forall>x\<in>set xs. case x of Alloc n \<Rightarrow> admissible n | _ \<Rightarrow> True"
  shows "\<exists>s' held'. heap_run alloc free xs (s, held) = Some (s', held') \<and> inv s' \<and> holds live s' held' \<and> pool s' = pool s"
  using assms
proof (induction xs arbitrary: s held)
  case (Cons x xs)
  obtain s1 held1 where st: "heap_step alloc free x (s, held) = Some (s1, held1)" "inv s1" "holds live s1 held1" "pool s1 = pool s"
    by (rule step_holds [OF Cons.prems(1,2), of x]) (use Cons.prems(3) in auto)
  from Cons.IH [OF st(2,3)] Cons.prems(3) st(1,4) show ?case by auto
qed simp

lemma holds_disjoint:
  assumes "inv s" "holds live s held"
  shows "sorted_wrt (\<lambda>b c. block b \<inter> block c = {}) held" "b \<in> set held \<Longrightarrow> block b \<subseteq> pool s"
proof -
  have big: "\<exists>c. (fst b, c) \<in> live s \<and> block b \<subseteq> block (fst b, c)" if "b \<in> set held" for b
    using assms(2) that by (cases b) (fastforce simp: holds_def block_def)
  then show "b \<in> set held \<Longrightarrow> block b \<subseteq> pool s" using live_pool [OF assms(1)] by blast
  have "block b \<inter> block c = {}" if "b \<in> set held" "c \<in> set held" "fst b \<noteq> fst c" for b c
    using big [OF that(1)] big [OF that(2)] live_disjoint [OF assms(1)] that(3) by blast
  note dis = this
  have "sorted_wrt (\<lambda>b c. block b \<inter> block c = {}) hs" if "set hs \<subseteq> set held" "distinct (map fst hs)" for hs
    using that
  proof (induction hs)
    case (Cons h hs)
    have "block h \<inter> block c = {}" if "c \<in> set hs" for c using dis [of h c] Cons.prems that by force
    then show ?case using Cons by simp
  qed simp
  then show "sorted_wrt (\<lambda>b c. block b \<inter> block c = {}) held" using assms(2) by (simp add: holds_def)
qed

end

end
