(* ===== verification/KStdlib.thy ===== *)
theory KStdlib
  imports KString KCtype Allocator
begin

text \<open>
  \<open>klib/src/stdlib.c\<close>: the pseudo-random generator, number parsing (\<open>atoi\<close> and \<open>strtol\<close>
  families, one generic body instantiated at 32 and 64 bits, as the C file repeats the same text)
  and the bump allocator behind \<open>malloc\<close>.  Static variables (\<open>_random_seed\<close> and the
  \<open>ptr\<close> of \<open>malloc\<close>) are passed and returned; the linker's \<open>heap\<close> area is an argument.
  Signed overflow wraps, as the code is compiled for the target.
\<close>

subsection \<open>The functions of stdlib.c\<close>

definition rand :: "u32 \<Rightarrow> u32 \<times> cint" where
  "rand seed0 =
     (let seed = (if seed0 = 0 then 0x7a2d5eed else seed0);
          feedback = (0 :: u32);
          feedback = feedback XOR (drop_bit 31 seed OR 1);
          feedback = feedback XOR (drop_bit 21 seed OR 1);
          feedback = feedback XOR (drop_bit 1 seed OR 1);
          feedback = feedback XOR (drop_bit 0 seed OR 1);
          seed = drop_bit 1 seed;
          seed = seed OR push_bit 31 feedback
      in (seed, drop_bit 1 seed mod 0x7fffffff))"

definition srand :: "u32 \<Rightarrow> u32" where
  "srand seed = seed"

definition abs_int :: "cint \<Rightarrow> cint" where
  "abs_int x = (if sint x < 0 then - x else x)"

partial_function (option) skip_space :: "mem \<Rightarrow> addr \<Rightarrow> addr option" where
  "skip_space m p = (if isspace (ucast (m p)) then skip_space m (p + 1) else Some p)"

definition read_sign :: "mem \<Rightarrow> addr \<Rightarrow> bool \<times> addr" where
  "read_sign m p = (if m p = 43 then (False, p + 1) else if m p = 45 then (True, p + 1) else (False, p))"

partial_function (option) ato_digits :: "mem \<Rightarrow> addr \<Rightarrow> 'a::len word \<Rightarrow> 'a word option" where
  "ato_digits m p x =
     (if 48 \<le> m p \<and> m p \<le> 57 then ato_digits m (p + 1) (x * 10 + ucast (m p) - 48) else Some x)"

definition ato_num :: "mem \<Rightarrow> addr \<Rightarrow> 'a::len word option" where
  "ato_num m nptr =
     (case skip_space m nptr of None \<Rightarrow> None
      | Some p \<Rightarrow>
          let (negative, p) = read_sign m p
          in map_option (\<lambda>x. if negative then - x else x) (ato_digits m p 0))"

definition atoi :: "mem \<Rightarrow> addr \<Rightarrow> cint option" where
  "atoi m nptr = ato_num m nptr"

definition atol :: "mem \<Rightarrow> addr \<Rightarrow> cint option" where
  "atol m nptr = ato_num m nptr"

definition atoll :: "mem \<Rightarrow> addr \<Rightarrow> u64 option" where
  "atoll m nptr = ato_num m nptr"

definition base_bad :: "cint \<Rightarrow> bool" where
  "base_bad base \<longleftrightarrow> base \<noteq> 0 \<and> (sint base < 2 \<or> sint base > 36)"

definition detect_base :: "mem \<Rightarrow> addr \<Rightarrow> cint \<Rightarrow> cint \<times> addr" where
  "detect_base m p base =
     (if base = 0 then
        if m p = 48 then
          let p = p + 1 in
          if m p = 120 \<or> m p = 88 then (16, p + 1) else (8, p)
        else (10, p)
      else if base = 16 then
        let p = (if m p = 48 then p + 1 else p)
        in (16, if m p = 120 \<or> m p = 88 then p + 1 else p)
      else (base, p))"

definition digit_of :: "u8 \<Rightarrow> cint option" where
  "digit_of b =
     (if isdigit (ucast b) then Some (ucast b - 48)
      else if isupper (ucast b) then Some (ucast b - 65 + 10)
      else if islower (ucast b) then Some (ucast b - 97 + 10)
      else None)"

partial_function (option) strto_digits ::
  "mem \<Rightarrow> addr \<Rightarrow> cint \<Rightarrow> 'a::len word \<Rightarrow> ('a word \<times> addr) option" where
  "strto_digits m p base result =
     (case digit_of (m p) of None \<Rightarrow> Some (result, p)
      | Some digit \<Rightarrow>
          if sint digit \<ge> sint base then Some (result, p)
          else strto_digits m (p + 1) base (result * scast base + scast digit))"

definition strto_signed :: "mem \<Rightarrow> addr \<Rightarrow> cint \<Rightarrow> ('a::len word \<times> addr) option" where
  "strto_signed m str base =
     (if base_bad base then Some (0, str)
      else case skip_space m str of None \<Rightarrow> None
      | Some p \<Rightarrow>
          let (negative, p) = read_sign m p;
              (base, p) = detect_base m p base
          in map_option (\<lambda>(result, p). (if negative then - result else result, p))
               (strto_digits m p base 0))"

definition strto_unsigned :: "mem \<Rightarrow> addr \<Rightarrow> cint \<Rightarrow> ('a::len word \<times> addr) option" where
  "strto_unsigned m str base =
     (if base_bad base then Some (0, str)
      else case skip_space m str of None \<Rightarrow> None
      | Some p \<Rightarrow> let (base, p) = detect_base m p base in strto_digits m p base 0)"

definition strtol :: "mem \<Rightarrow> addr \<Rightarrow> cint \<Rightarrow> (cint \<times> addr) option" where
  "strtol m str base = strto_signed m str base"

definition strtoll :: "mem \<Rightarrow> addr \<Rightarrow> cint \<Rightarrow> (u64 \<times> addr) option" where
  "strtoll m str base = strto_signed m str base"

definition strtoul :: "mem \<Rightarrow> addr \<Rightarrow> cint \<Rightarrow> (u32 \<times> addr) option" where
  "strtoul m str base = strto_unsigned m str base"

definition strtoull :: "mem \<Rightarrow> addr \<Rightarrow> cint \<Rightarrow> (u64 \<times> addr) option" where
  "strtoull m str base = strto_unsigned m str base"

record area =
  start_of :: addr
  end_of :: addr

definition malloc :: "area \<Rightarrow> addr \<Rightarrow> size_t \<Rightarrow> addr \<times> addr" where
  "malloc heap ptr sz =
     (let ptr = (if ptr = NULL then end_of heap else ptr);
          sz = (sz + 7) AND NOT 7
      in if ptr - sz < start_of heap then (ptr, NULL)
         else let ptr = ptr - sz in (ptr, ptr))"

definition free :: "addr \<Rightarrow> addr \<Rightarrow> addr" where
  "free ptr p = ptr"

definition calloc :: "area \<Rightarrow> mem \<Rightarrow> addr \<Rightarrow> size_t \<Rightarrow> size_t \<Rightarrow> mem \<times> addr \<times> addr" where
  "calloc heap m ptr nmemb sz =
     (let total = nmemb * sz;
          (ptr, ret) = malloc heap ptr total
      in if ret \<noteq> NULL then (fst (memset m ret 0 total), ptr, ret) else (m, ptr, ret))"

definition realloc :: "area \<Rightarrow> mem \<Rightarrow> addr \<Rightarrow> addr \<Rightarrow> size_t \<Rightarrow> mem \<times> addr \<times> addr" where
  "realloc heap m ptr p sz =
     (if p = NULL then let (ptr, ret) = malloc heap ptr sz in (m, ptr, ret)
      else if sz = 0 then (m, free ptr p, NULL)
      else let (ptr, ret) = malloc heap ptr sz;
               m = (if ret \<noteq> NULL then fst (memcpy m ret p sz) else m)
           in (m, free ptr p, ret))"

subsection \<open>rand\<close>

lemma push_top_zero: "\<not> bit (w :: u32) 0 \<Longrightarrow> push_bit 31 w = 0"
proof (rule bit_word_eqI)
  fix n assume b: "\<not> bit w 0" and n: "n < LENGTH(32)"
  show "bit (push_bit 31 w) n \<longleftrightarrow> bit (0 :: u32) n"
  proof (cases "n = 31")
    case True
    with b show ?thesis by (simp only: bit_push_bit_iff bit_0_eq) simp
  next
    case False
    with n have "\<not> 31 \<le> n" by simp
    then show ?thesis by (simp only: bit_push_bit_iff bit_0_eq) simp
  qed
qed

lemma rand_shift: "fst (rand s) = drop_bit 1 (if s = 0 then 0x7a2d5eed else s)"
proof -
  have "\<not> bit ((((0 XOR (drop_bit 31 x OR 1)) XOR (drop_bit 21 x OR 1)) XOR (drop_bit 1 x OR 1)) XOR (drop_bit 0 x OR 1)) 0"
    for x :: u32
    by (simp add: bit_simps)
  from push_top_zero [OF this] show ?thesis
    unfolding rand_def Let_def fst_conv by (simp only: or.right_neutral)
qed

subsection \<open>Numbers\<close>

abbreviation ws :: "u8 \<Rightarrow> bool" where "ws b \<equiv> isspace (ucast b)"
abbreviation dec_digit :: "u8 \<Rightarrow> bool" where "dec_digit b \<equiv> 48 \<le> b \<and> b \<le> 57"

lemma not_ws_0 [simp]: "\<not> isspace 0"
  by (simp add: isspace_def)

lemma cstr_drop:
  "cstr m p xs \<Longrightarrow> k \<le> length xs \<Longrightarrow> cstr m (p + of_nat k) (drop k xs)"
proof (induction k arbitrary: p xs)
  case (Suc k)
  then obtain x xs' where "xs = x # xs'" by (cases xs) auto
  with Suc.prems Suc.IH [of "p + 1" xs'] show ?case by (simp add: cstr_Cons add.assoc)
qed simp

lemma skip_space_cstr:
  "cstr m p xs \<Longrightarrow> skip_space m p = Some (p + of_nat (length (takeWhile ws xs)))"
proof (induction xs arbitrary: p)
  case Nil
  then show ?case by (subst skip_space.simps) simp
next
  case (Cons x xs)
  then show ?case using Cons.IH [of "p + 1"]
    by (subst skip_space.simps) (simp add: cstr_Cons add.assoc)
qed

definition dec_from :: "nat \<Rightarrow> u8 list \<Rightarrow> nat" where
  "dec_from a ds = foldl (\<lambda>a b. a * 10 + (unat b - 48)) a ds"

lemma dec_step:
  "dec_digit x \<Longrightarrow> (of_nat a * 10 + ucast x - 48 :: 'a::len word) = of_nat (a * 10 + (unat x - 48))"
proof -
  assume d: "dec_digit x"
  have "(of_nat (unat x - 48) :: 'a word) = of_nat (unat x) - of_nat 48"
    using d by (intro of_nat_diff) (simp add: word_le_nat_alt)
  moreover have "(of_nat (unat x) :: 'a word) = ucast x" by (rule of_nat_unat)
  ultimately show ?thesis by simp
qed

lemma ato_digits_cstr:
  "cstr m p xs \<Longrightarrow>
     ato_digits m p (of_nat a :: 'a::len word) = Some (of_nat (dec_from a (takeWhile dec_digit xs)))"
proof (induction xs arbitrary: p a)
  case Nil
  then show ?case by (subst ato_digits.simps) (simp add: dec_from_def)
next
  case (Cons x xs)
  show ?case
  proof (cases "dec_digit x")
    case True
    have "ato_digits m p (of_nat a :: 'a word) = ato_digits m (p + 1) (of_nat a * 10 + ucast x - 48)"
      using Cons.prems True by (subst ato_digits.simps) (simp only: cstr_Cons if_True simp_thms)
    also have "\<dots> = Some (of_nat (dec_from (a * 10 + (unat x - 48)) (takeWhile dec_digit xs)))"
      unfolding dec_step [OF True] using Cons.prems by (intro Cons.IH) (simp add: cstr_Cons)
    finally show ?thesis using True by (simp add: dec_from_def)
  next
    case False
    then show ?thesis using Cons.prems by (subst ato_digits.simps) (auto simp add: cstr_Cons dec_from_def)
  qed
qed


definition split_sign :: "u8 list \<Rightarrow> bool \<times> u8 list" where
  "split_sign xs = (case xs of [] \<Rightarrow> (False, [])
     | x # ys \<Rightarrow> if x = 43 then (False, ys) else if x = 45 then (True, ys) else (False, xs))"

definition c_decimal :: "u8 list \<Rightarrow> int" where
  "c_decimal xs =
     (let (negative, ys) = split_sign (dropWhile ws xs);
          v = int (dec_from 0 (takeWhile dec_digit ys))
      in if negative then - v else v)"

lemma cstr_dropWhile: "cstr m p xs \<Longrightarrow> cstr m (p + of_nat (length (takeWhile P xs))) (dropWhile P xs)"
  using cstr_drop [of m p xs "length (takeWhile P xs)"]
  by (simp add: length_takeWhile_le dropWhile_eq_drop)

definition offs :: "u8 list \<Rightarrow> u8 list \<Rightarrow> addr" where
  "offs xs ys = of_nat (length xs) - of_nat (length ys)"

lemma offs_self [simp]: "offs xs xs = 0"
  by (simp add: offs_def)

lemma offs_dropWhile: "offs xs (dropWhile P xs) = of_nat (length (takeWhile P xs))"
proof -
  have "length xs = length (takeWhile P xs) + length (dropWhile P xs)"
    by (metis length_append takeWhile_dropWhile_id)
  then show ?thesis unfolding offs_def by simp
qed

lemma offs_trans: "offs xs ys + offs ys zs = offs xs zs"
  by (simp add: offs_def)

lemma read_sign_cstr:
  assumes "cstr m p xs" "split_sign xs = (negative, ys)"
  shows "read_sign m p = (negative, p + offs xs ys)" "cstr m (p + offs xs ys) ys"
  using assms by (cases xs; auto simp: read_sign_def split_sign_def cstr_Cons offs_def split: if_splits)+

lemma ato_num_cstr:
  assumes "cstr m p xs"
  shows "ato_num m p = Some (of_int (c_decimal xs) :: 'a::len word)"
proof -
  obtain negative ys where s: "split_sign (dropWhile ws xs) = (negative, ys)" by fastforce
  note r = read_sign_cstr [OF cstr_dropWhile [OF assms] s]
  show ?thesis
    using ato_digits_cstr [OF r(2), of 0, where ?'a = 'a] r(1)
    by (simp add: ato_num_def skip_space_cstr [OF assms] s c_decimal_def)
qed

subsection \<open>strtol and its relatives\<close>

abbreviation base_digit :: "cint \<Rightarrow> u8 \<Rightarrow> bool" where
  "base_digit base c \<equiv> (case digit_of c of None \<Rightarrow> False | Some d \<Rightarrow> sint d < sint base)"

definition digit_val :: "u8 \<Rightarrow> nat" where
  "digit_val c = nat (sint (the (digit_of c)))"

definition base_from :: "cint \<Rightarrow> nat \<Rightarrow> u8 list \<Rightarrow> nat" where
  "base_from base a ds = foldl (\<lambda>a c. a * nat (sint base) + digit_val c) a ds"

lemma digit_of_nonneg: "digit_of c = Some d \<Longrightarrow> 0 \<le> sint d"
  using sint_u32_diff [of "ucast c" 48] sint_u32_diff [of "ucast c" 55] sint_u32_diff [of "ucast c" 87]
    unsigned_less [of c, where ?'a = int]
  by (auto simp: digit_of_def ctype_defs split: if_splits)

lemma digit_of_0 [simp]: "digit_of 0 = None"
  by (simp add: digit_of_def ctype_defs)

lemma scast_nonneg: "0 \<le> sint (w :: cint) \<Longrightarrow> (scast w :: 'a::len word) = of_nat (nat (sint w))"
  by (metis nat_0_le of_int_of_nat_eq scast_eq)

lemma strto_digits_cstr:
  assumes "cstr m p xs" "0 \<le> sint base"
  shows "strto_digits m p base (of_nat a :: 'a::len word) =
    Some (of_nat (base_from base a (takeWhile (base_digit base) xs)),
          p + of_nat (length (takeWhile (base_digit base) xs)))"
  using assms(1)
proof (induction xs arbitrary: p a)
  case Nil
  then show ?case by (subst strto_digits.simps) (simp add: base_from_def)
next
  case (Cons x xs)
  show ?case
  proof (cases "base_digit base x")
    case True
    then obtain d where d: "digit_of x = Some d" "sint d < sint base"
      by (auto split: option.splits)
    have step: "(of_nat a * scast base + scast d :: 'a word) = of_nat (a * nat (sint base) + digit_val x)"
      using assms(2) digit_of_nonneg [OF d(1)]
      by (simp only: digit_val_def d(1) option.sel scast_nonneg of_nat_add of_nat_mult)
    have "strto_digits m p base (of_nat a :: 'a word) =
      strto_digits m (p + 1) base (of_nat a * scast base + scast d)"
      using Cons.prems d by (subst strto_digits.simps) (simp add: cstr_Cons)
    also have "\<dots> = Some (of_nat (base_from base (a * nat (sint base) + digit_val x) (takeWhile (base_digit base) xs)),
        p + 1 + of_nat (length (takeWhile (base_digit base) xs)))"
      unfolding step using Cons.prems by (intro Cons.IH) (simp add: cstr_Cons)
    finally show ?thesis using True by (simp add: base_from_def add.assoc)
  next
    case False
    then show ?thesis using Cons.prems
      by (subst strto_digits.simps) (auto simp: cstr_Cons base_from_def split: option.splits)
  qed
qed

definition first :: "u8 list \<Rightarrow> u8" where
  "first xs = (case xs of [] \<Rightarrow> 0 | x # _ \<Rightarrow> x)"

definition strip_base :: "cint \<Rightarrow> u8 list \<Rightarrow> cint \<times> u8 list" where
  "strip_base base xs =
     (if base = 0 then
        if first xs = 48 then
          if first (tl xs) \<in> {120, 88} then (16, tl (tl xs)) else (8, tl xs)
        else (10, xs)
      else if base = 16 then
        let ys = (if first xs = 48 then tl xs else xs)
        in (16, if first ys \<in> {120, 88} then tl ys else ys)
      else (base, xs))"

lemma cstr_first: "cstr m p xs \<Longrightarrow> m p = first xs"
  by (cases xs) (auto simp: first_def cstr_Cons)

lemma cstr_tl: "cstr m p xs \<Longrightarrow> first xs \<noteq> 0 \<Longrightarrow> cstr m (p + 1) (tl xs)"
  by (cases xs) (auto simp: first_def cstr_Cons)

lemma offs_tl: "first xs \<noteq> 0 \<Longrightarrow> p + 1 + offs (tl xs) ys = p + offs xs ys"
  by (cases xs) (auto simp: first_def offs_def algebra_simps)

lemma offs_tl_self: "first xs \<noteq> 0 \<Longrightarrow> offs xs (tl xs) = 1"
  by (cases xs) (auto simp: first_def offs_def algebra_simps)

lemma detect_base_cstr:
  assumes "cstr m p xs"
  shows "detect_base m p base = (fst (strip_base base xs), p + offs xs (snd (strip_base base xs)))"
    and "cstr m (p + offs xs (snd (strip_base base xs))) (snd (strip_base base xs))"
proof -
  have 1: "m p = first xs" using assms by (rule cstr_first)
  have 2: "m (p + 1) = first (tl xs)" if "first xs \<noteq> 0"
    using assms that cstr_tl cstr_first by blast
  show "detect_base m p base = (fst (strip_base base xs), p + offs xs (snd (strip_base base xs)))"
    using 1 2 offs_tl [of xs p "tl (tl xs)"]
    by (auto simp: detect_base_def strip_base_def Let_def offs_tl_self)
  show "cstr m (p + offs xs (snd (strip_base base xs))) (snd (strip_base base xs))"
    using assms cstr_tl [of m p xs] cstr_tl [of m "p + 1" "tl xs"] offs_tl [of xs p "tl (tl xs)"]
    by (auto simp: strip_base_def Let_def offs_tl_self add.commute [of 2])
qed

definition c_strto :: "cint \<Rightarrow> u8 list \<Rightarrow> nat \<times> u8 list" where
  "c_strto base xs =
     (let (b, ds) = strip_base base xs
      in (base_from b 0 (takeWhile (base_digit b) ds), dropWhile (base_digit b) ds))"

lemma strip_base_pos: "\<not> base_bad base \<Longrightarrow> 0 \<le> sint (fst (strip_base base xs))"
  by (auto simp: strip_base_def base_bad_def Let_def)

lemma strto_rest_cstr:
  assumes "cstr m p xs" "\<not> base_bad base"
  shows "(let (b, p) = detect_base m p base in strto_digits m p b (0 :: 'a::len word)) =
    Some (of_nat (fst (c_strto base xs)), p + offs xs (snd (c_strto base xs)))"
proof -
  let ?b = "fst (strip_base base xs)" and ?ds = "snd (strip_base base xs)"
  have "strto_digits m (p + offs xs ?ds) ?b (of_nat 0 :: 'a word) =
    Some (of_nat (base_from ?b 0 (takeWhile (base_digit ?b) ?ds)),
      p + offs xs ?ds + of_nat (length (takeWhile (base_digit ?b) ?ds)))"
    by (rule strto_digits_cstr [OF detect_base_cstr(2) [OF assms(1)] strip_base_pos [OF assms(2)]])
  then show ?thesis
    by (simp add: detect_base_cstr(1) [OF assms(1)] c_strto_def split_beta offs_dropWhile [symmetric]
        add.assoc offs_trans del: of_nat_0)
qed

lemma strto_unsigned_cstr:
  assumes "cstr m p xs" "\<not> base_bad base"
  shows "strto_unsigned m p base = Some (of_nat (fst (c_strto base (dropWhile ws xs))) :: 'a::len word,
     p + offs xs (snd (c_strto base (dropWhile ws xs))))"
  using strto_rest_cstr [OF cstr_dropWhile [OF assms(1)] assms(2), where ?'a = 'a] assms(2)
  by (simp add: strto_unsigned_def skip_space_cstr [OF assms(1)] offs_dropWhile [symmetric] add.assoc offs_trans)

lemma strto_signed_cstr:
  assumes "cstr m p xs" "\<not> base_bad base"
    and "split_sign (dropWhile ws xs) = (negative, ys)" "c_strto base ys = (v, rest)"
  shows "strto_signed m p base =
    Some (of_int (if negative then - int v else int v) :: 'a::len word, p + offs xs rest)"
proof -
  note r = read_sign_cstr [OF cstr_dropWhile [OF assms(1)] assms(3),
      unfolded offs_dropWhile [symmetric] add.assoc offs_trans]
  obtain b q2 where d: "detect_base m (p + offs xs ys) base = (b, q2)" by fastforce
  have "strto_digits m q2 b (0 :: 'a word) = Some (of_nat v, p + offs xs rest)"
    using strto_rest_cstr [OF r(2) assms(2), where ?'a = 'a] assms(4) d
    by (simp add: add.assoc offs_trans)
  then show ?thesis
    using assms(2) d r(1)
    by (simp add: strto_signed_def skip_space_cstr [OF assms(1)] offs_dropWhile [symmetric])
qed


subsection \<open>Reading back printed numbers\<close>

definition digit_char :: "bool \<Rightarrow> nat \<Rightarrow> u8" where
  "digit_char up d = (if d < 10 then 48 + of_nat d else (if up then 55 else 87) + of_nat d)"

definition numeral_chars :: "bool \<Rightarrow> nat \<Rightarrow> nat \<Rightarrow> u8 list" where
  "numeral_chars up b n = map (digit_char up) (digits b n)"

lemma digit_char_table:
  "\<forall>up. \<forall>d\<in>set [0..<36]. let c = digit_char up d in
     digit_of c = Some (of_nat d) \<and> \<not> ws c \<and> c \<noteq> 43 \<and> c \<noteq> 45 \<and> (c = 48 \<longleftrightarrow> d = 0) \<and>
     (d < 16 \<longrightarrow> c \<noteq> 120 \<and> c \<noteq> 88) \<and> (d < 10 \<longrightarrow> 48 \<le> c \<and> c \<le> 57 \<and> unat c = 48 + d)"
  by code_simp

lemma digit_char:
  assumes "d < 36"
  shows "digit_of (digit_char up d) = Some (of_nat d)" "\<not> ws (digit_char up d)"
    "digit_char up d \<noteq> 43" "digit_char up d \<noteq> 45" "digit_char up d = 48 \<longleftrightarrow> d = 0"
    "d < 16 \<Longrightarrow> digit_char up d \<noteq> 120 \<and> digit_char up d \<noteq> 88"
    "d < 10 \<Longrightarrow> 48 \<le> digit_char up d \<and> digit_char up d \<le> 57 \<and> unat (digit_char up d) = 48 + d"
  using digit_char_table [rule_format, of d up] assms by (simp_all add: Let_def)

lemma sint_of_nat_digit: "d < 2 ^ 31 \<Longrightarrow> sint (of_nat d :: cint) = int d"
proof -
  assume d: "d < 2 ^ 31"
  have "signed_take_bit 31 (int d) = int d"
    using d by (intro signed_take_bit_int_eq_self) (auto intro: order_trans [of _ 0])
  then have "sint (word_of_int (int d) :: cint) = int d"
    by (simp only: sint_sbintrunc') simp
  then show ?thesis by simp
qed

lemma base_from_numeral:
  assumes "list_all (\<lambda>d. d < 36) ds"
  shows "base_from base a (map (digit_char up) ds) = foldl (\<lambda>a d. a * nat (sint base) + d) a ds"
  using assms
proof (induction ds arbitrary: a)
  case (Cons d ds)
  then have "digit_val (digit_char up d) = d"
    using digit_char(1) [of d up] by (simp add: digit_val_def sint_of_nat_digit)
  with Cons show ?case by (simp add: base_from_def)
qed (simp add: base_from_def)

lemma takeWhile_numeral:
  assumes "\<forall>d \<in> set ds. d < nat (sint base)" "sint base \<le> 36" "rest = [] \<or> digit_of (hd rest) = None"
  shows "takeWhile (base_digit base) (map (digit_char up) ds @ rest) = map (digit_char up) ds"
    "dropWhile (base_digit base) (map (digit_char up) ds @ rest) = rest"
proof -
  have "base_digit base (digit_char up d)" if "d \<in> set ds" for d
    using assms(1,2) that digit_char(1) [of d up] by (force simp: sint_of_nat_digit)
  then show "takeWhile (base_digit base) (map (digit_char up) ds @ rest) = map (digit_char up) ds"
    "dropWhile (base_digit base) (map (digit_char up) ds @ rest) = rest"
    using assms(3) by (cases rest; auto simp: takeWhile_append dropWhile_append)+
qed

lemma first_numeral: "first (numeral_chars up b n @ rest) = digit_char up (hd (digits b n))"
  by (cases "digits b n") (auto simp: first_def numeral_chars_def)

lemma strip_base_numeral:
  assumes b: "2 \<le> sint base" "sint base \<le> 36" "b = nat (sint base)"
    and rest: "rest = [] \<or> digit_of (hd rest) = None"
  shows "strip_base base (numeral_chars up b n @ rest) =
    (base, if base = 16 \<and> n = 0 then rest else numeral_chars up b n @ rest)"
proof (cases "base = 16")
  case True
  have "digit_of 120 \<noteq> None" "digit_of 88 \<noteq> None" by code_simp+
  then have r: "first rest \<noteq> 120 \<and> first rest \<noteq> 88"
    using rest by (cases rest) (auto simp: first_def)
  have h: "hd (digits b n) < 16" "hd (digits b n) = 0 \<longleftrightarrow> n = 0"
    using True b by (auto intro: digits_less [OF _ list.set_sel(1)] simp: hd_digits)
  have "tl (numeral_chars up b 0 @ rest) = rest"
    using b by (simp add: numeral_chars_def digits.simps)
  then show ?thesis
    using True r h digit_char(5,6) [of "hd (digits b n)" up]
    by (auto simp: strip_base_def first_numeral Let_def)
qed (use b in \<open>auto simp: strip_base_def\<close>)

lemma c_strto_numeral:
  assumes b: "2 \<le> sint base" "sint base \<le> 36" "b = nat (sint base)"
    and rest: "rest = [] \<or> digit_of (hd rest) = None"
  shows "c_strto base (numeral_chars up b n @ rest) = (n, rest)"
proof (cases "base = 16 \<and> n = 0")
  case True
  then have [simp]: "base = 16" "n = 0" by auto
  show ?thesis using takeWhile_numeral [of "[]" 16 rest] rest strip_base_numeral [OF assms, of up n]
    by (simp add: c_strto_def base_from_def)
next
  case False
  have less: "\<forall>d \<in> set (digits b n). d < nat (sint base)" using b digits_less by auto
  then have "list_all (\<lambda>d. d < 36) (digits b n)" using b by (force simp: list_all_iff)
  moreover note takeWhile_numeral [OF less b(2) rest, of up]
  moreover have "strip_base base (numeral_chars up b n @ rest) = (base, map (digit_char up) (digits b n) @ rest)"
    using False strip_base_numeral [OF assms, of up n] by (auto simp: numeral_chars_def)
  ultimately show ?thesis using digits_val_digits [of b n] b(3)
    by (simp add: c_strto_def base_from_numeral digits_val_def)
qed

lemma strto_signed_numeral:
  assumes c: "cstr m p (sp @ sg @ numeral_chars up b n @ rest)" and sp: "list_all ws sp"
    and sg: "sg \<in> {[], [43], [45]}"
    and b: "2 \<le> sint base" "sint base \<le> 36" "b = nat (sint base)"
    and rest: "rest = [] \<or> digit_of (hd rest) = None"
  shows "strto_signed m p base =
    Some (of_int (if sg = [45] then - int n else int n) :: 'a::len word,
          p + of_nat (length (sp @ sg @ numeral_chars up b n)))"
proof -
  let ?N = "numeral_chars up b n @ rest"
  obtain c cs where N: "?N = c # cs" by (cases ?N) (auto simp: numeral_chars_def)
  have c36: "hd (digits b n) < 36" using b by (intro order.strict_trans2 [OF digits_less [of b "hd (digits b n)" n]]) auto
  have "c = digit_char up (hd (digits b n))" using first_numeral [of up b n rest] N by (simp add: first_def)
  then have cc: "\<not> ws c" "c \<noteq> 43" "c \<noteq> 45" using digit_char [OF c36, of up] by auto
  have "\<not> ws 43" "\<not> ws 45" by code_simp+
  then have "dropWhile ws (sp @ sg @ ?N) = sg @ ?N"
    using sp sg cc N by (auto simp: list_all_iff dropWhile_append)
  moreover have "split_sign (sg @ ?N) = (sg = [45], ?N)"
    using sg cc N by (auto simp: split_sign_def)
  moreover have "\<not> base_bad base" using b by (simp add: base_bad_def)
  ultimately have "strto_signed m p base =
    Some (of_int (if sg = [45] then - int n else int n) :: 'a word, p + offs (sp @ sg @ ?N) rest)"
    using strto_signed_cstr [OF c, of base "sg = [45]" ?N n rest, where ?'a = 'a]
      c_strto_numeral [OF b rest, of up n] by simp
  then show ?thesis by (simp add: offs_def)
qed



subsection \<open>The bump allocator\<close>

definition heap_ok :: "area \<times> addr \<Rightarrow> bool" where
  "heap_ok s = (case s of (heap, ptr) \<Rightarrow>
     0 < start_of heap \<and> start_of heap \<le> end_of heap \<and> 8 dvd unat (end_of heap) \<and>
     (ptr = NULL \<or> start_of heap \<le> ptr \<and> ptr \<le> end_of heap \<and> 8 dvd unat ptr))"

definition heap_pool :: "area \<times> addr \<Rightarrow> nat set" where
  "heap_pool s = {unat (start_of (fst s)) ..< unat (end_of (fst s))}"

definition heap_taken :: "area \<times> addr \<Rightarrow> nat set" where
  "heap_taken s = (if snd s = NULL then {} else {unat (snd s) ..< unat (end_of (fst s))})"

definition heap_fits :: "area \<times> addr \<Rightarrow> nat \<Rightarrow> bool" where
  "heap_fits s n \<longleftrightarrow> n + 7 \<le> unat (start_of (fst s))"

definition malloc_step :: "area \<times> addr \<Rightarrow> nat \<Rightarrow> (area \<times> addr) \<times> nat option" where
  "malloc_step s n = (case s of (heap, ptr) \<Rightarrow>
     let (ptr', ret) = malloc heap ptr (of_nat n)
     in ((heap, ptr'), if ret = NULL then None else Some (unat ret)))"

lemma malloc_ok:
  assumes ok: "heap_ok (heap, ptr)" and fits: "heap_fits (heap, ptr) n"
    and a: "a = (n + 7) div 8 * 8" "p = (if ptr = NULL then end_of heap else ptr)"
  shows "malloc heap ptr (of_nat n) =
    (if unat p < unat (start_of heap) + a then (p, NULL)
     else (of_nat (unat p - a), of_nat (unat p - a)))"
proof -
  have n: "n + 7 < 2 ^ 32"
    using fits unsigned_less [of "start_of heap", where ?'a = nat] by (simp add: heap_fits_def)
  then have al: "unat ((of_nat n + 7 :: size_t) AND NOT 7) = a"
    using unat_align8 [of "of_nat n"] by (simp add: a)
  have "a \<le> n + 7" unfolding a by (rule div_times_less_eq_dividend)
  moreover have "start_of heap \<le> p" using ok a(2) by (auto simp: heap_ok_def)
  ultimately have "a \<le> unat p" using fits by (simp add: heap_fits_def word_le_nat_alt)
  then have "unat (p - ((of_nat n + 7) AND NOT 7)) = unat p - a"
    using al by (subst unat_diff) (simp_all add: word_le_nat_alt)
  moreover from this have "p - ((of_nat n + 7) AND NOT 7) = of_nat (unat p - a)"
    by (metis of_nat_unat ucast_id)
  ultimately show ?thesis using \<open>a \<le> unat p\<close>
    by (auto simp: malloc_def Let_def a(2) [symmetric] word_less_nat_alt)
qed

lemma malloc_step_cases:
  assumes ok: "heap_ok (heap, ptr)" and fits: "heap_fits (heap, ptr) n"
  obtains (fail) q where "malloc_step (heap, ptr) n = ((heap, q), None)" "q = (if ptr = NULL then end_of heap else ptr)"
    | (block) q b where "malloc_step (heap, ptr) n = ((heap, of_nat b), Some b)"
      "q = (if ptr = NULL then end_of heap else ptr)" "unat (start_of heap) \<le> b" "b + n \<le> unat q"
      "8 dvd b" "0 < b" "unat (of_nat b :: addr) = b" "b \<le> unat (end_of heap)"
proof -
  define a where "a = (n + 7) div 8 * 8"
  define q where "q = (if ptr = NULL then end_of heap else ptr)"
  have al: "n \<le> a" "8 dvd a" unfolding a_def by simp_all
  have q: "8 dvd unat q" "0 < unat (start_of heap)" "unat q \<le> unat (end_of heap)"
    using ok by (auto simp: q_def heap_ok_def word_less_nat_alt word_le_nat_alt)
  note m = malloc_ok [OF ok fits a_def q_def]
  show thesis
  proof (cases "unat q < unat (start_of heap) + a")
    case True
    then show ?thesis using m q_def by (intro fail) (simp_all add: malloc_step_def)
  next
    case False
    define b where "b = unat q - a"
    have b: "unat (of_nat b :: addr) = b"
      using unsigned_less [of q, where ?'a = nat] by (simp add: b_def less_imp_diff_less)
    have b0: "0 < b" "unat (start_of heap) \<le> b" "b + n \<le> unat q" "8 dvd b" "b \<le> unat (end_of heap)"
      using False q al by (auto simp: b_def)
    have "(of_nat b :: addr) \<noteq> 0"
    proof
      assume "(of_nat b :: addr) = 0"
      with b b0(1) show False by simp
    qed
    moreover have "malloc heap ptr (of_nat n) = (of_nat b, of_nat b)"
      using m False by (simp only: b_def if_False)
    ultimately show ?thesis using b b0 q_def
      by (intro block [of b q]) (simp_all add: malloc_step_def)
  qed
qed

interpretation klib: allocator heap_ok heap_pool heap_taken heap_fits malloc_step
proof
  fix s :: "area \<times> addr" and n p
  obtain heap ptr where s: "s = (heap, ptr)" by fastforce
  show "heap_pool (fst (malloc_step s n)) = heap_pool s" "heap_fits (fst (malloc_step s n)) = heap_fits s"
    by (auto simp: s malloc_step_def heap_pool_def heap_fits_def split: prod.splits)
  assume "heap_ok s" "heap_fits s n"
  then have ok: "heap_ok (heap, ptr)" and fits: "heap_fits (heap, ptr) n" by (simp_all add: s)
  show "heap_ok (fst (malloc_step s n))" using ok fits
    by (cases rule: malloc_step_cases [OF ok fits]) (auto simp: s heap_ok_def word_le_nat_alt)
  show "heap_taken s \<subseteq> heap_taken (fst (malloc_step s n))" using ok fits
    by (cases rule: malloc_step_cases [OF ok fits]) (auto simp: s heap_taken_def split: if_splits)
  show "snd (malloc_step s n) = Some p \<Longrightarrow>
      block (p, n) \<subseteq> heap_pool s - heap_taken s \<and> block (p, n) \<subseteq> heap_taken (fst (malloc_step s n))"
    using ok fits by (cases rule: malloc_step_cases [OF ok fits])
      (auto simp: s heap_taken_def heap_pool_def block_def heap_ok_def word_le_nat_alt split: if_splits)
qed


subsection \<open>Properties\<close>

text \<open>
  The feedback bit of \<open>rand\<close> is always zero, so the generator only shifts its seed right: a
  seed whose highest set bit is bit \<open>k\<close> is exhausted after \<open>k + 1\<close> calls.
\<close>
theorem rand_exhausts_seed:
  assumes "2 ^ k \<le> unat s" "unat s < 2 ^ Suc k"
  shows "((\<lambda>s. fst (rand s)) ^^ Suc k) s = 0"
  using assms
proof (induction k arbitrary: s)
  case 0
  then have "unat s = 1" by simp
  then have "s = 1" by (metis unat_1 word_unat_eq_iff)
  then show ?case by (simp add: rand_shift drop_bit_eq_div)
next
  case (Suc k)
  then have s0: "s \<noteq> 0" by auto
  have "unat (drop_bit 1 s) = unat s div 2"
    by (simp add: drop_bit_eq_div unat_div)
  then have "((\<lambda>s. fst (rand s)) ^^ Suc k) (drop_bit 1 s) = 0"
    using Suc.prems by (intro Suc.IH) auto
  then show ?case using s0 by (subst funpow_Suc_right) (simp add: rand_shift)
qed

theorem rand_exhausts_seed_witness: "((\<lambda>s. fst (rand s)) ^^ Suc 3) 9 = 0"
  by (rule rand_exhausts_seed) simp_all

text \<open>
  \<open>atoi\<close>, \<open>atol\<close> and \<open>atoll\<close> return on every NUL-terminated string, with the value of the
  optional sign and leading decimal digits after white space, modulo the width of the result.
\<close>
theorem atoi_decimal:
  assumes "cstr m p xs"
  shows "atoi m p = Some (of_int (c_decimal xs)) \<and> atol m p = Some (of_int (c_decimal xs)) \<and>
    atoll m p = Some (of_int (c_decimal xs))"
  by (simp add: atoi_def atol_def atoll_def ato_num_cstr [OF assms])

theorem atoi_decimal_witness: "atoi (mem_at 100 [32, 45, 52, 50, 0]) 100 = Some (- 42)"
proof -
  have "cstr (mem_at 100 [32, 45, 52, 50, 0]) 100 [32, 45, 52, 50]"
    by (simp add: cstr_Cons mem_at_def)
  from atoi_decimal [OF this] show ?thesis
    by (simp add: c_decimal_def split_sign_def dec_from_def isspace_def)
qed

text \<open>
  \<open>strtol\<close> and \<open>strtoll\<close> read back a number written in any base from 2 to 36 with optional
  white space and sign, upper or lower case, and set the end pointer behind its last digit.
\<close>
theorem strtol_roundtrip:
  assumes "cstr m p (sp @ sg @ numeral_chars up b n @ rest)" "list_all ws sp"
    and "sg \<in> {[], [43], [45]}" "2 \<le> sint base" "sint base \<le> 36" "b = nat (sint base)"
    and "rest = [] \<or> digit_of (hd rest) = None"
  shows "strtol m p base = Some (of_int (if sg = [45] then - int n else int n),
          p + of_nat (length (sp @ sg @ numeral_chars up b n))) \<and>
    strtoll m p base = Some (of_int (if sg = [45] then - int n else int n),
          p + of_nat (length (sp @ sg @ numeral_chars up b n)))"
  unfolding strtol_def strtoll_def by (intro conjI strto_signed_numeral [OF assms])

theorem strtol_roundtrip_witness: "strtol (mem_at 100 [45, 49, 102, 59, 0]) 100 16 = Some (- 31, 103)"
proof -
  have n: "numeral_chars False 16 31 = [49, 102]"
    by (simp add: numeral_chars_def digits.simps digit_char_def)
  have "strtol (mem_at 100 [45, 49, 102, 59, 0]) 100 16 =
    Some (of_int (if [45 :: u8] = [45] then - int 31 else int 31),
      100 + of_nat (length ([] @ [45] @ numeral_chars False 16 31)))"
    by (rule strtol_roundtrip [where rest = "[59]", THEN conjunct1])
      (simp_all add: n cstr_Cons mem_at_def digit_of_def ctype_defs)
  then show ?thesis by (simp add: n)
qed

text \<open>
  The blocks that any sequence of \<open>malloc\<close> calls returns are pairwise disjoint and lie in the
  heap area, when no requested size reaches the address of the heap.
\<close>
theorem malloc_blocks_disjoint:
  assumes "heap_ok s" "list_all (heap_fits s) ns"
  shows "sorted_wrt (\<lambda>b c. block b \<inter> block c = {}) (run_allocs malloc_step s ns) \<and>
    (\<forall>b \<in> set (run_allocs malloc_step s ns). block b \<subseteq> heap_pool s)"
  using klib.run_allocs_disjoint [OF assms] klib.run_allocs_free [OF assms] by blast

theorem malloc_blocks_disjoint_witness:
  "sorted_wrt (\<lambda>b c. block b \<inter> block c = {})
     (run_allocs malloc_step (\<lparr>start_of = 1024, end_of = 2048\<rparr>, 0) [10, 20, 30])"
  by (rule malloc_blocks_disjoint [THEN conjunct1]) (simp_all add: heap_ok_def heap_fits_def)

text \<open>
  A request within 7 bytes of the largest \<open>size_t\<close> is rounded to zero by the alignment step:
  \<open>malloc\<close> succeeds and returns the block it returned last.
\<close>
theorem malloc_size_wraps:
  assumes "2 ^ 32 \<le> unat sz + 7" "start_of heap \<le> ptr" "ptr \<noteq> NULL"
  shows "malloc heap ptr sz = (ptr, ptr)"
proof -
  have "unat (sz + 7) < 8"
    using assms(1) unsigned_less [of sz, where ?'a = nat] by (auto simp: unat_word_ariths mod_if)
  then have "unat ((sz + 7) AND NOT 7) = 0"
    using round_up_mask [of "sz + 7" 3] unat_push_drop [of 3 "sz + 7"]
    by (simp add: mask_eq_exp_minus_1)
  then have "(sz + 7) AND NOT 7 = 0" by (simp add: unat_eq_0)
  then show ?thesis using assms(2,3) by (simp add: malloc_def Let_def)
qed

theorem malloc_size_wraps_witness:
  "malloc \<lparr>start_of = 1024, end_of = 2048\<rparr> 1536 (- 3) = (1536, 1536)"
  by (rule malloc_size_wraps) simp_all

end
