(* ===== verification/KStdio.thy ===== *)
theory KStdio
  imports KStdlib "HOL-Library.Monad_Syntax"
begin

text \<open>
  \<open>klib/src/stdio.c\<close>: the formatted output engine and \<open>sscanf\<close>.  The \<open>printf_state_t\<close> of the
  code becomes a record that also carries the memory the engine reads and writes and the bytes sent
  to the serial port by \<open>putch\<close>.  A variable argument list is the list of its slots: \<open>VW\<close> for an
  argument of at most 32 bits or a pointer, \<open>VD\<close> for a 64-bit integer or a \<open>double\<close>; reading past
  its end or at another width is undefined in C and is \<open>None\<close> here, as is a scan that never meets
  its terminating NUL.
\<close>

subsection \<open>State and output\<close>

record printf_state =
  dest :: addr
  to_port :: bool
  count :: size_t
  max_count :: size_t
  pmem :: mem
  port :: "u8 list"

datatype va = VW u32 | VD u64

definition putchar :: "u8 list \<Rightarrow> cint \<Rightarrow> u8 list \<times> cint" where
  "putchar out c = (let ch = ucast c :: u8 in (out @ [ch], ucast ch))"

partial_function (option) puts_loop :: "mem \<Rightarrow> addr \<Rightarrow> u8 list \<Rightarrow> cint \<Rightarrow> (u8 list \<times> cint) option" where
  "puts_loop m str out cnt =
     (if m (str + cnt) \<noteq> 0 then puts_loop m str (out @ [m (str + cnt)]) (cnt + 1)
      else Some (out @ [10], cnt))"

definition puts :: "mem \<Rightarrow> u8 list \<Rightarrow> addr \<Rightarrow> (u8 list \<times> cint) option" where
  "puts m out str = puts_loop m str out 0"

definition printf_putch :: "printf_state \<Rightarrow> u8 \<Rightarrow> printf_state" where
  "printf_putch st ch =
     (let st = (if count st < max_count st then
                  if to_port st then st\<lparr>port := port st @ [ch]\<rparr>
                  else st\<lparr>pmem := (pmem st)(dest st + count st := ch)\<rparr>
                else st)
      in st\<lparr>count := count st + 1\<rparr>)"

function printf_pad_loop :: "printf_state \<Rightarrow> u8 \<Rightarrow> size_t \<Rightarrow> size_t \<Rightarrow> printf_state" where
  "printf_pad_loop st ch i n = (if i < n then printf_pad_loop (printf_putch st ch) ch (i + 1) n else st)"
  by pat_completeness auto
termination
  by (relation "measure (\<lambda>(st, ch, i, n). unat n - unat i)") (auto intro: word_loop)

definition printf_pad :: "printf_state \<Rightarrow> u8 \<Rightarrow> size_t \<Rightarrow> printf_state" where
  "printf_pad st ch n = printf_pad_loop st ch 0 n"

definition printf_char :: "printf_state \<Rightarrow> u8 \<Rightarrow> size_t \<Rightarrow> bool \<Rightarrow> printf_state" where
  "printf_char st ch width left_justified =
     (if left_justified then
        let st = printf_putch st ch
        in if width > 1 then printf_pad st 32 (width - 1) else st
      else
        let st = (if width > 1 then printf_pad st 32 (width - 1) else st)
        in printf_putch st ch)"

partial_function (option) printf_string_loop :: "printf_state \<Rightarrow> addr \<Rightarrow> size_t \<Rightarrow> printf_state option" where
  "printf_string_loop st str i =
     (if pmem st (str + i) \<noteq> 0 then printf_string_loop (printf_putch st (pmem st (str + i))) str (i + 1)
      else Some st)"

definition printf_string :: "printf_state \<Rightarrow> addr \<Rightarrow> size_t \<Rightarrow> bool \<Rightarrow> printf_state option" where
  "printf_string st str width left_justified =
     do {
       len \<leftarrow> strlen (pmem st) str;
       let st = (if width > len \<and> \<not> left_justified then printf_pad st 32 (width - len) else st);
       st \<leftarrow> printf_string_loop st str 0;
       Some (if width > len \<and> left_justified then printf_pad st 32 (width - len) else st)
     }"

subsection \<open>Numbers\<close>

text \<open>
  The six number printers repeat one body at different bases, widths and buffer sizes.  A write
  past the end of the digit buffer is \<open>None\<close>; division of unsigned words is division of their
  values.
\<close>

fun digit_loop :: "nat \<Rightarrow> bool \<Rightarrow> nat \<Rightarrow> u8 list \<Rightarrow> nat \<Rightarrow> (u8 list \<times> nat) option" where
  "digit_loop base up n buffer n_digits =
     (if 0 < n \<and> 1 < base then
        if n_digits < length buffer then
          let rem = n mod base;
              c = (if rem < 10 then 48 + of_nat rem else of_nat (rem - 10) + (if up then 65 else 97))
          in digit_loop base up (n div base) (buffer[n_digits := c]) (n_digits + 1)
        else None
      else Some (buffer, n_digits))"

primrec putch_down :: "u8 list \<Rightarrow> nat \<Rightarrow> printf_state \<Rightarrow> printf_state" where
  "putch_down buffer 0 st = st"
| "putch_down buffer (Suc i) st = putch_down buffer i (printf_putch st (buffer ! i))"

definition printf_number ::
  "nat \<Rightarrow> nat \<Rightarrow> bool \<Rightarrow> printf_state \<Rightarrow> nat \<Rightarrow> size_t \<Rightarrow> bool \<Rightarrow> u8 \<Rightarrow> printf_state option" where
  "printf_number base bufsize up st n width left_justified padding =
     do {
       let buffer = 48 # replicate (bufsize - 1) 0;
       (buffer, n_digits) \<leftarrow> (if n = 0 then Some (buffer[0 := 48], 1) else digit_loop base up n buffer 0);
       let nd = of_nat n_digits;
       let st = (if \<not> left_justified \<and> width > nd then printf_pad st padding (width - nd) else st);
       let st = putch_down buffer n_digits st;
       Some (if left_justified \<and> width > nd then printf_pad st 32 (width - nd) else st)
     }"

definition printf_uint32 :: "printf_state \<Rightarrow> u32 \<Rightarrow> size_t \<Rightarrow> bool \<Rightarrow> u8 \<Rightarrow> printf_state option" where
  "printf_uint32 st n width left_justified padding =
     printf_number 10 10 False st (unat n) width left_justified padding"

definition printf_int32 :: "printf_state \<Rightarrow> cint \<Rightarrow> size_t \<Rightarrow> bool \<Rightarrow> u8 \<Rightarrow> u8 \<Rightarrow> printf_state option" where
  "printf_int32 st n width left_justified padding sign =
     (let (st, n, width) =
        (if sign \<noteq> 0 \<and> sint n > 0 then (printf_putch st sign, n, width - 1)
         else if sint n < 0 then (printf_putch st 45, - n, width - 1)
         else (st, n, width))
      in printf_uint32 st n width left_justified padding)"

definition printf_uint64 :: "printf_state \<Rightarrow> u64 \<Rightarrow> size_t \<Rightarrow> bool \<Rightarrow> u8 \<Rightarrow> printf_state option" where
  "printf_uint64 st n width left_justified padding =
     printf_number 10 20 False st (unat n) width left_justified padding"

definition printf_int64 :: "printf_state \<Rightarrow> u64 \<Rightarrow> size_t \<Rightarrow> bool \<Rightarrow> u8 \<Rightarrow> u8 \<Rightarrow> printf_state option" where
  "printf_int64 st n width left_justified padding sign =
     (let (st, n, width) =
        (if sign \<noteq> 0 \<and> sint n > 0 then (printf_putch st sign, n, width - 1)
         else if sint n < 0 then (printf_putch st 45, - n, width - 1)
         else (st, n, width))
      in printf_uint64 st n width left_justified padding)"

definition printf_hex32 :: "printf_state \<Rightarrow> u32 \<Rightarrow> size_t \<Rightarrow> bool \<Rightarrow> u8 \<Rightarrow> bool \<Rightarrow> printf_state option" where
  "printf_hex32 st n width left_justified padding upper_case =
     printf_number 16 8 upper_case st (unat n) width left_justified padding"

definition printf_hex64 :: "printf_state \<Rightarrow> u64 \<Rightarrow> size_t \<Rightarrow> bool \<Rightarrow> u8 \<Rightarrow> bool \<Rightarrow> printf_state option" where
  "printf_hex64 st n width left_justified padding upper_case =
     printf_number 16 16 upper_case st (unat n) width left_justified padding"

definition printf_octal32 :: "printf_state \<Rightarrow> u32 \<Rightarrow> size_t \<Rightarrow> bool \<Rightarrow> u8 \<Rightarrow> printf_state option" where
  "printf_octal32 st n width left_justified padding =
     printf_number 8 11 False st (unat n) width left_justified padding"

definition printf_octal64 :: "printf_state \<Rightarrow> u64 \<Rightarrow> size_t \<Rightarrow> bool \<Rightarrow> u8 \<Rightarrow> printf_state option" where
  "printf_octal64 st n width left_justified padding =
     printf_number 8 22 False st (unat n) width left_justified padding"

subsection \<open>The format interpreter\<close>

record conv_spec =
  left_just :: bool
  sign_char :: u8
  pad_char :: u8

partial_function (option) scan_flags :: "mem \<Rightarrow> addr \<Rightarrow> size_t \<Rightarrow> conv_spec \<Rightarrow> (size_t \<times> conv_spec) option" where
  "scan_flags m fmt i cs =
     (let flag = m (fmt + i) in
      if flag = 45 then scan_flags m fmt (i + 1) (cs\<lparr>left_just := True\<rparr>)
      else if flag = 43 then scan_flags m fmt (i + 1) (cs\<lparr>sign_char := 43\<rparr>)
      else if flag = 32 then scan_flags m fmt (i + 1) (cs\<lparr>sign_char := 32\<rparr>)
      else if flag = 48 then scan_flags m fmt (i + 1) (cs\<lparr>pad_char := 48\<rparr>)
      else if flag = 35 then scan_flags m fmt (i + 1) cs
      else Some (i, cs))"

partial_function (option) scan_width :: "mem \<Rightarrow> addr \<Rightarrow> size_t \<Rightarrow> size_t \<Rightarrow> (size_t \<times> size_t) option" where
  "scan_width m fmt i width =
     (if 48 \<le> m (fmt + i) \<and> m (fmt + i) \<le> 57
      then scan_width m fmt (i + 1) (width * 10 + (ucast (m (fmt + i)) - 48))
      else Some (i, width))"

definition scan_precision :: "mem \<Rightarrow> addr \<Rightarrow> size_t \<Rightarrow> size_t option" where
  "scan_precision m fmt i =
     (if m (fmt + i) = 46 then map_option fst (scan_width m fmt (i + 1) 0) else Some i)"

partial_function (option) scan_length :: "mem \<Rightarrow> addr \<Rightarrow> size_t \<Rightarrow> cint \<Rightarrow> (size_t \<times> cint) option" where
  "scan_length m fmt i length_level =
     (if m (fmt + i) = 108 then scan_length m fmt (i + 1) (length_level + 1)
      else if m (fmt + i) = 104 then scan_length m fmt (i + 1) (length_level - 1)
      else Some (i, length_level))"

definition va_word :: "va list \<Rightarrow> (u32 \<times> va list) option" where
  "va_word ap = (case ap of VW w # ap' \<Rightarrow> Some (w, ap') | _ \<Rightarrow> None)"

definition va_dword :: "va list \<Rightarrow> (u64 \<times> va list) option" where
  "va_dword ap = (case ap of VD w # ap' \<Rightarrow> Some (w, ap') | _ \<Rightarrow> None)"

definition printf_conv ::
  "addr \<Rightarrow> printf_state \<Rightarrow> u8 \<Rightarrow> conv_spec \<Rightarrow> size_t \<Rightarrow> cint \<Rightarrow> va list \<Rightarrow> (printf_state \<times> va list) option" where
  "printf_conv null_str st conv cs width length_level ap =
     (let left_justified = left_just cs; sign = sign_char cs; padding = pad_char cs in
      if conv = 37 then Some (printf_char st 37 width left_justified, ap)
      else if conv = 99 then
        do { (w, ap) \<leftarrow> va_word ap; Some (printf_char st (ucast w) width left_justified, ap) }
      else if conv = 115 then
        do { (str, ap) \<leftarrow> va_word ap;
             let str = (if str = NULL then null_str else str);
             st \<leftarrow> printf_string st str width left_justified;
             Some (st, ap) }
      else if conv = 100 \<or> conv = 105 then
        if sint length_level \<le> 1 then
          do { (n, ap) \<leftarrow> va_word ap;
               st \<leftarrow> printf_int32 st n width left_justified padding sign; Some (st, ap) }
        else
          do { (n, ap) \<leftarrow> va_dword ap;
               st \<leftarrow> printf_int64 st n width left_justified padding sign; Some (st, ap) }
      else if conv = 117 then
        if sint length_level \<le> 1 then
          do { (n, ap) \<leftarrow> va_word ap;
               st \<leftarrow> printf_uint32 st n width left_justified padding; Some (st, ap) }
        else
          do { (n, ap) \<leftarrow> va_dword ap;
               st \<leftarrow> printf_uint64 st n width left_justified padding; Some (st, ap) }
      else if conv = 120 \<or> conv = 88 \<or> conv = 112 then
        let upper_case = (conv = 88) in
        if sint length_level \<le> 1 then
          do { (n, ap) \<leftarrow> va_word ap;
               st \<leftarrow> printf_hex32 st n width left_justified padding upper_case; Some (st, ap) }
        else
          do { (n, ap) \<leftarrow> va_dword ap;
               st \<leftarrow> printf_hex64 st n width left_justified padding upper_case; Some (st, ap) }
      else if conv = 111 then
        if sint length_level \<le> 1 then
          do { (n, ap) \<leftarrow> va_word ap;
               st \<leftarrow> printf_octal32 st n width left_justified padding; Some (st, ap) }
        else
          do { (n, ap) \<leftarrow> va_dword ap;
               st \<leftarrow> printf_octal64 st n width left_justified padding; Some (st, ap) }
      else if conv \<in> {102, 70, 101, 69, 103, 71, 97, 65} then
        do { (w, ap) \<leftarrow> va_dword ap; Some (st, ap) }
      else Some (st, ap))"

definition printf_directive ::
  "addr \<Rightarrow> printf_state \<Rightarrow> addr \<Rightarrow> size_t \<Rightarrow> va list \<Rightarrow> (printf_state \<times> size_t \<times> va list) option" where
  "printf_directive null_str st fmt i ap =
     do {
       (i, cs) \<leftarrow> scan_flags (pmem st) fmt i \<lparr>left_just = False, sign_char = 0, pad_char = 32\<rparr>;
       (i, width) \<leftarrow> scan_width (pmem st) fmt i 0;
       i \<leftarrow> scan_precision (pmem st) fmt i;
       (i, length_level) \<leftarrow> scan_length (pmem st) fmt i 0;
       (st', ap) \<leftarrow> printf_conv null_str st (pmem st (fmt + i)) cs width length_level ap;
       Some (st', i, ap)
     }"

partial_function (option) printf_loop ::
  "addr \<Rightarrow> printf_state \<Rightarrow> addr \<Rightarrow> size_t \<Rightarrow> size_t \<Rightarrow> va list \<Rightarrow> printf_state option" where
  "printf_loop null_str st fmt n i ap =
     (if i < n then
        if pmem st (fmt + i) = 37 then
          do {
            (st, i, ap) \<leftarrow> printf_directive null_str st fmt (i + 1) ap;
            printf_loop null_str st fmt n (i + 1) ap
          }
        else printf_loop null_str (printf_putch st (pmem st (fmt + i))) fmt n (i + 1) ap
      else Some st)"

definition printf_backend :: "addr \<Rightarrow> printf_state \<Rightarrow> addr \<Rightarrow> va list \<Rightarrow> printf_state option" where
  "printf_backend null_str st fmt ap =
     do { len \<leftarrow> strlen (pmem st) fmt; printf_loop null_str st fmt (len + 1) 0 ap }"

definition vprintf :: "addr \<Rightarrow> mem \<Rightarrow> u8 list \<Rightarrow> addr \<Rightarrow> va list \<Rightarrow> (u8 list \<times> cint) option" where
  "vprintf null_str m out fmt ap =
     do {
       st \<leftarrow> printf_backend null_str
               \<lparr>dest = NULL, to_port = True, count = 0, max_count = SIZE_MAX, pmem = m, port = out\<rparr> fmt ap;
       Some (port st, count st)
     }"

definition printf :: "addr \<Rightarrow> mem \<Rightarrow> u8 list \<Rightarrow> addr \<Rightarrow> va list \<Rightarrow> (u8 list \<times> cint) option" where
  "printf null_str m out fmt ap =
     do {
       st \<leftarrow> printf_backend null_str
               \<lparr>dest = NULL, to_port = True, count = 0, max_count = SIZE_MAX, pmem = m, port = out\<rparr> fmt ap;
       Some (port st, count st)
     }"

definition vsnprintf :: "addr \<Rightarrow> mem \<Rightarrow> addr \<Rightarrow> size_t \<Rightarrow> addr \<Rightarrow> va list \<Rightarrow> (mem \<times> cint) option" where
  "vsnprintf null_str m out n fmt ap =
     do {
       st \<leftarrow> printf_backend null_str
               \<lparr>dest = out, to_port = False, count = 0, max_count = (if n > 0 then n - 1 else 0),
                pmem = m, port = []\<rparr> fmt ap;
       let m' = (if n > 0 then
                   let term = (if count st < n - 1 then count st else n - 1) in (pmem st)(out + term := 0)
                 else pmem st);
       Some (m', count st)
     }"

definition vsprintf :: "addr \<Rightarrow> mem \<Rightarrow> addr \<Rightarrow> addr \<Rightarrow> va list \<Rightarrow> (mem \<times> cint) option" where
  "vsprintf null_str m out fmt ap = vsnprintf null_str m out SIZE_MAX fmt ap"

definition sprintf :: "addr \<Rightarrow> mem \<Rightarrow> addr \<Rightarrow> addr \<Rightarrow> va list \<Rightarrow> (mem \<times> cint) option" where
  "sprintf null_str m out fmt ap = vsnprintf null_str m out SIZE_MAX fmt ap"

definition snprintf :: "addr \<Rightarrow> mem \<Rightarrow> addr \<Rightarrow> size_t \<Rightarrow> addr \<Rightarrow> va list \<Rightarrow> (mem \<times> cint) option" where
  "snprintf null_str m out n fmt ap = vsnprintf null_str m out n fmt ap"

subsection \<open>sscanf\<close>

datatype scan_result = Scanned mem addr cint | Assert_failed mem

definition store_word :: "mem \<Rightarrow> addr \<Rightarrow> u32 \<Rightarrow> mem" where
  "store_word m p v =
     m(p := ucast v, p + 1 := ucast (drop_bit 8 v), p + 2 := ucast (drop_bit 16 v), p + 3 := ucast (drop_bit 24 v))"

partial_function (option) scanf_loop ::
  "mem \<Rightarrow> addr \<Rightarrow> addr \<Rightarrow> cint \<Rightarrow> va list \<Rightarrow> scan_result option" where
  "scanf_loop m pstr pfmt item ap =
     (if m pfmt = 0 then Some (Scanned m pstr item)
      else
        let ch = m pfmt; pfmt = pfmt + 1 in
        if isspace (ucast ch) then
          do {
            pfmt \<leftarrow> skip_space m pfmt;
            pstr \<leftarrow> skip_space m pstr;
            scanf_loop m pstr pfmt (item + 1) ap
          }
        else if ch \<noteq> 37 then
          if m pstr = ch then scanf_loop m (pstr + 1) pfmt (item + 1) ap
          else Some (Scanned m pstr item)
        else
          let ch = m pfmt; pfmt = pfmt + 1 in
          if ch = 100 then
            do {
              (v, p) \<leftarrow> strtol m pstr 10;
              (q, ap) \<leftarrow> va_word ap;
              let m' = store_word m q v;
              if p = pstr then Some (Scanned m' pstr item)
              else scanf_loop m' p pfmt (item + 1) ap
            }
          else if ch = 99 then
            do {
              (q, ap) \<leftarrow> va_word ap;
              scanf_loop (m(q := m pstr)) (pstr + 1) pfmt (item + 1) ap
            }
          else Some (Assert_failed m))"

definition am_vsscanf_internal :: "mem \<Rightarrow> addr \<Rightarrow> addr \<Rightarrow> va list \<Rightarrow> scan_result option" where
  "am_vsscanf_internal m str fmt ap = scanf_loop m str fmt (- 1) ap"

definition sscanf :: "mem \<Rightarrow> addr \<Rightarrow> addr \<Rightarrow> va list \<Rightarrow> scan_result option" where
  "sscanf m str fmt ap = am_vsscanf_internal m str fmt ap"

declare printf_pad_loop.simps [simp del] digit_loop.simps [simp del]

subsection \<open>Output as a list of bytes\<close>

definition emit :: "printf_state \<Rightarrow> u8 list \<Rightarrow> printf_state" where
  "emit st xs = foldl printf_putch st xs"

lemma emit_Nil [simp]: "emit st [] = st"
  by (simp add: emit_def)

lemma emit_Cons: "emit st (x # xs) = emit (printf_putch st x) xs"
  by (simp add: emit_def)

lemma emit_append: "emit (emit st xs) ys = emit st (xs @ ys)"
  by (simp add: emit_def)

lemma emit_single: "printf_putch st x = emit st [x]"
  by (simp add: emit_def)

lemma printf_pad_loop_emit: "unat n = unat i + k \<Longrightarrow> printf_pad_loop st ch i n = emit st (replicate k ch)"
proof (induction k arbitrary: st i)
  case 0
  then show ?case by (subst printf_pad_loop.simps) (simp add: word_less_nat_alt)
next
  case (Suc k)
  then have i: "i < n" by (simp add: word_less_nat_alt)
  then have "printf_pad_loop (printf_putch st ch) ch (i + 1) n = emit (printf_putch st ch) (replicate k ch)"
    using Suc.prems unat_plus_one [OF i] by (intro Suc.IH) simp
  then show ?case using i by (subst printf_pad_loop.simps) (simp add: emit_Cons)
qed

lemma printf_pad_emit: "printf_pad st ch n = emit st (replicate (unat n) ch)"
  by (simp add: printf_pad_def printf_pad_loop_emit)

definition padded :: "bool \<Rightarrow> u8 \<Rightarrow> size_t \<Rightarrow> u8 list \<Rightarrow> u8 list" where
  "padded left_justified padding width xs =
     (let k = unat width - length xs
      in if left_justified then xs @ replicate k 32 else replicate k padding @ xs)"

lemma pad_width:
  fixes width :: size_t
  assumes "length xs < 2 ^ 32"
  shows "of_nat (length xs) < width \<Longrightarrow> unat (width - of_nat (length xs)) = unat width - length xs"
    and "\<not> of_nat (length xs) < width \<Longrightarrow> unat width - length xs = 0"
proof -
  have l: "unat (of_nat (length xs) :: size_t) = length xs" using assms by simp
  show "of_nat (length xs) < width \<Longrightarrow> unat (width - of_nat (length xs)) = unat width - length xs"
    by (subst unat_diff) (auto simp: l)
  show "\<not> of_nat (length xs) < width \<Longrightarrow> unat width - length xs = 0"
    by (simp add: word_less_nat_alt l)
qed

lemma printf_char_emit: "printf_char st ch width lj = emit st (padded lj 32 width [ch])"
  using pad_width [of "[ch]" width]
  by (cases "1 < width")
    (simp_all add: printf_char_def printf_pad_emit Let_def padded_def emit_append emit_single)

text \<open>
  The bytes of memory that at most \<open>L\<close> bytes of output leave alone (all output, when \<open>L\<close> is
  \<open>2 ^ 32\<close> or more), and the texts that stay within that limit.
\<close>

definition untouched :: "nat \<Rightarrow> printf_state \<Rightarrow> addr \<Rightarrow> bool" where
  "untouched L st a \<longleftrightarrow> to_port st \<or> L \<le> unat (a - dest st) \<or> max_count st \<le> a - dest st"

definition fits :: "nat \<Rightarrow> printf_state \<Rightarrow> u8 list \<Rightarrow> bool" where
  "fits L st xs \<longleftrightarrow> 2 ^ 32 \<le> L \<or> unat (count st) + length xs \<le> L"

lemma putch_fixed [simp]:
  "dest (printf_putch st x) = dest st" "max_count (printf_putch st x) = max_count st"
  "to_port (printf_putch st x) = to_port st" "count (printf_putch st x) = count st + 1"
  by (simp_all add: printf_putch_def Let_def)

lemma emit_fixed [simp]:
  "dest (emit st xs) = dest st" "max_count (emit st xs) = max_count st" "to_port (emit st xs) = to_port st"
  by (induction xs arbitrary: st) (simp_all add: emit_Cons)

lemma untouched_emit [simp]: "untouched L (emit st xs) = untouched L st"
  by (simp add: untouched_def fun_eq_iff)

lemma unat_Suc_le: "unat ((w :: size_t) + 1) \<le> unat w + 1"
  by (simp add: unat_word_ariths)

lemma fits_Cons: "fits L st (x # xs) \<Longrightarrow> fits L (printf_putch st x) xs"
  using unat_Suc_le [of "count st"] by (auto simp: fits_def)

lemma fits_append: "fits L st (xs @ ys) \<Longrightarrow> fits L st xs \<and> fits L (emit st xs) ys"
proof (induction xs arbitrary: st)
  case (Cons x xs)
  then show ?case using Cons.IH [OF fits_Cons [of L st x "xs @ ys"]] by (auto simp: emit_Cons fits_def)
qed (auto simp: fits_def)

lemma pmem_emit: "untouched L st a \<Longrightarrow> fits L st xs \<Longrightarrow> pmem (emit st xs) a = pmem st a"
proof (induction xs arbitrary: st)
  case (Cons x xs)
  have "pmem (printf_putch st x) a = pmem st a"
    using Cons.prems unsigned_less [of "count st", where ?'a = nat]
    by (auto simp: printf_putch_def untouched_def fits_def Let_def word_less_nat_alt word_le_nat_alt)
  moreover have "untouched L (printf_putch st x) a" using Cons.prems by (simp add: untouched_def)
  ultimately show ?case using Cons.IH fits_Cons [OF Cons.prems(2)] by (simp add: emit_Cons)
qed simp

definition readable :: "nat \<Rightarrow> printf_state \<Rightarrow> addr \<Rightarrow> u8 list \<Rightarrow> bool" where
  "readable L st p xs \<longleftrightarrow> cstr (pmem st) p xs \<and> (\<forall>k\<le>length xs. untouched L st (p + of_nat k))"

lemma readable_emit: "readable L st p xs \<Longrightarrow> fits L st ys \<Longrightarrow> readable L (emit st ys) p xs"
  unfolding readable_def by (auto simp: pmem_emit [of L] intro: cstr_frame)

lemma readable_Cons: "readable L st p (x # xs) \<Longrightarrow> readable L st (p + 1) xs \<and> pmem st p = x \<and> x \<noteq> 0"
proof -
  assume r: "readable L st p (x # xs)"
  have "untouched L st (p + 1 + of_nat k)" if "k \<le> length xs" for k
    using r that unfolding readable_def by (force simp: add.assoc dest: spec [of _ "Suc k"])
  then show ?thesis using r by (simp add: readable_def cstr_Cons)
qed

lemma printf_string_loop_emit:
  "readable L st (str + i) xs \<Longrightarrow> fits L st xs \<Longrightarrow> printf_string_loop st str i = Some (emit st xs)"
proof (induction xs arbitrary: st i)
  case Nil
  then show ?case by (subst printf_string_loop.simps) (simp add: readable_def)
next
  case (Cons x xs)
  have r: "readable L st (str + (i + 1)) xs" "pmem st (str + i) = x" "x \<noteq> 0"
    using readable_Cons [OF Cons.prems(1)] by (simp_all add: add.assoc)
  have f: "fits L st [x]" "fits L (emit st [x]) xs" using fits_append [of L st "[x]" xs] Cons.prems(2) by simp_all
  from f r have "printf_string_loop (emit st [x]) str (i + 1) = Some (emit (emit st [x]) xs)"
    by (intro Cons.IH readable_emit)
  then show ?case using r by (subst printf_string_loop.simps) (simp add: emit_single emit_append)
qed

lemma printf_string_emit:
  assumes r: "readable L st str xs" and f: "fits L st (padded lj 32 width xs)"
  shows "printf_string st str width lj = Some (emit st (padded lj 32 width xs))"
proof -
  let ?pad = "replicate (unat width - length xs) 32 :: u8 list"
  have c: "cstr (pmem st) str xs" "length xs < 2 ^ 32" using r by (simp_all add: readable_def cstr_def)
  have e: "printf_string_loop (emit st ys) str 0 = Some (emit (emit st ys) xs)" if "fits L st (ys @ xs)" for ys
    using that fits_append [OF that] r by (intro printf_string_loop_emit [of L]) (simp_all add: readable_emit)
  have f0: "fits L st xs" using f fits_append [of L st xs ?pad] by (auto simp: padded_def fits_def Let_def split: if_splits)
  have f1: "\<not> lj \<Longrightarrow> fits L st (?pad @ xs)" using f by (simp add: padded_def)
  show ?thesis
    using e [of "[]"] e [of ?pad] f0 f1 pad_width [OF c(2), of width]
    by (cases "of_nat (length xs) < width"; cases lj)
      (simp_all add: printf_string_def strlen_cstr [OF c(1)] padded_def Let_def printf_pad_emit emit_append)
qed

subsection \<open>Numbers\<close>

lemma digit_loop_zero: "digit_loop base up 0 buf k = Some (buf, k)"
  by (simp add: digit_loop.simps)

lemma digit_char_eq:
  "rem < 36 \<Longrightarrow> (if rem < 10 then 48 + of_nat rem else of_nat (rem - 10) + (if up then 65 else 97)) = digit_char up rem"
  by (auto simp: digit_char_def of_nat_diff)

lemma digit_loop_digits:
  assumes "2 \<le> base" "base \<le> 36" "0 < n" "k + length (digits base n) \<le> length buf"
  shows "digit_loop base up n buf k =
    Some (take k buf @ rev (numeral_chars up base n) @ drop (k + length (digits base n)) buf,
          k + length (digits base n))"
  using assms
proof (induction base n arbitrary: buf k rule: digits.induct)
  case (1 base n)
  let ?c = "digit_char up (n mod base)"
  have rem: "n mod base < 36" using "1.prems"(1,2) mod_less_divisor [of base n] by linarith
  have k: "k < length buf"
    using "1.prems"(4) length_greater_0_conv [of "digits base n"] by (simp del: length_greater_0_conv)
  have step: "digit_loop base up n buf k = digit_loop base up (n div base) (buf[k := ?c]) (k + 1)"
    using "1.prems" digit_char_eq [OF rem, of up]
    k by (subst digit_loop.simps) (simp add: Let_def)
  show ?case
  proof (cases "n < base")
    case True
    then have d: "digits base n = [n]" by (simp add: digits.simps)
    with True step k show ?thesis
      by (simp add: digit_loop_zero numeral_chars_def upd_conv_take_nth_drop)
  next
    case False
    have d: "digits base n = digits base (n div base) @ [n mod base]"
      using False "1.prems" by (simp add: digits.simps [of base n])
    have "digit_loop base up (n div base) (buf[k := ?c]) (k + 1) =
      Some (take (k + 1) (buf[k := ?c]) @ rev (numeral_chars up base (n div base)) @
            drop (k + 1 + length (digits base (n div base))) (buf[k := ?c]),
            k + 1 + length (digits base (n div base)))"
      using False "1.prems" d by (intro "1.IH") (auto simp: div_greater_zero_iff)
    then show ?thesis using step k by (simp add: d numeral_chars_def take_Suc_conv_app_nth)
  qed
qed

lemma putch_down_emit: "k \<le> length buf \<Longrightarrow> putch_down buf k st = emit st (rev (take k buf))"
  by (induction k arbitrary: st) (simp_all add: take_Suc_conv_app_nth emit_Cons)

lemma printf_number_emit:
  assumes b: "2 \<le> base" "base \<le> 36" and n: "n < base ^ Suc sz" and sz: "Suc sz < 2 ^ 32"
  shows "printf_number base (Suc sz) up st n width lj padding =
    Some (emit st (padded lj padding width (numeral_chars up base n)))"
proof -
  let ?N = "numeral_chars up base n" and ?buf = "48 # replicate sz 0 :: u8 list"
  have len: "length (digits base n) \<le> Suc sz" using length_digits [OF b(1) n] .
  then have l32: "length ?N < 2 ^ 32" using sz by (simp add: numeral_chars_def)
  have "\<exists>rest. (if n = 0 then Some (?buf[0 := 48], 1) else digit_loop base up n ?buf 0) =
      Some (rev ?N @ rest, length ?N)"
  proof (cases "n = 0")
    case True
    then have "?N = [48]" using b by (simp add: numeral_chars_def digits.simps [of base 0] digit_char_def)
    then show ?thesis using True by simp
  next
    case False
    then show ?thesis using digit_loop_digits [OF b, of n 0 ?buf up] len by (simp add: numeral_chars_def)
  qed
  then obtain rest where r: "(if n = 0 then Some (?buf[0 := 48], 1) else digit_loop base up n ?buf 0) =
      Some (rev ?N @ rest, length ?N)" ..
  have pd: "putch_down (rev ?N @ rest) (length ?N) st = emit st ?N" for st
    by (subst putch_down_emit) simp_all
  show ?thesis unfolding printf_number_def Let_def diff_Suc_1 r
    using pad_width [OF l32, of width]
    by (cases "of_nat (length ?N) < width")
      (auto simp: pd printf_pad_emit padded_def Let_def emit_append)
qed


subsection \<open>Formats as lists\<close>

text \<open>
  The interpreter on lists of bytes instead of memory, an intermediate step of the proofs: \<open>strs\<close> gives the strings that \<open>%s\<close>
  arguments point to.  It does what the code does, faults included: the closing NUL of the format is a literal byte like any
  other, and the width of a number is decremented for its sign without a test.  What a format means is defined further below.
\<close>

fun flags_text :: "u8 list \<Rightarrow> conv_spec \<Rightarrow> u8 list \<times> conv_spec" where
  "flags_text [] cs = ([], cs)"
| "flags_text (f # fs) cs =
     (if f = 45 then flags_text fs (cs\<lparr>left_just := True\<rparr>)
      else if f = 43 then flags_text fs (cs\<lparr>sign_char := 43\<rparr>)
      else if f = 32 then flags_text fs (cs\<lparr>sign_char := 32\<rparr>)
      else if f = 48 then flags_text fs (cs\<lparr>pad_char := 48\<rparr>)
      else if f = 35 then flags_text fs cs
      else (f # fs, cs))"

fun width_text :: "u8 list \<Rightarrow> size_t \<Rightarrow> u8 list \<times> size_t" where
  "width_text [] w = ([], w)"
| "width_text (f # fs) w =
     (if 48 \<le> f \<and> f \<le> 57 then width_text fs (w * 10 + (ucast f - 48)) else (f # fs, w))"

definition precision_text :: "u8 list \<Rightarrow> u8 list" where
  "precision_text fs = (if first fs = 46 then fst (width_text (tl fs) 0) else fs)"

fun length_text :: "u8 list \<Rightarrow> cint \<Rightarrow> u8 list \<times> cint" where
  "length_text [] l = ([], l)"
| "length_text (f # fs) l =
     (if f = 108 then length_text fs (l + 1)
      else if f = 104 then length_text fs (l - 1) else (f # fs, l))"

definition signed_text :: "'a::len word \<Rightarrow> size_t \<Rightarrow> bool \<Rightarrow> u8 \<Rightarrow> u8 \<Rightarrow> u8 list" where
  "signed_text n width lj padding sign =
     (if sign \<noteq> 0 \<and> sint n > 0 then sign # padded lj padding (width - 1) (numeral_chars False 10 (unat n))
      else if sint n < 0 then 45 # padded lj padding (width - 1) (numeral_chars False 10 (unat (- n)))
      else padded lj padding width (numeral_chars False 10 (unat n)))"

definition conv_text ::
  "(addr \<Rightarrow> u8 list option) \<Rightarrow> addr \<Rightarrow> u8 \<Rightarrow> conv_spec \<Rightarrow> size_t \<Rightarrow> cint \<Rightarrow> va list \<Rightarrow> (u8 list \<times> va list) option" where
  "conv_text strs null_str conv cs width lvl ap =
     (let lj = left_just cs; pc = pad_char cs;
          num = (\<lambda>b up. if sint lvl \<le> 1
                   then do { (n, ap) \<leftarrow> va_word ap; Some (padded lj pc width (numeral_chars up b (unat n)), ap) }
                   else do { (n, ap) \<leftarrow> va_dword ap; Some (padded lj pc width (numeral_chars up b (unat n)), ap) })
      in if conv = 37 then Some (padded lj 32 width [37], ap)
         else if conv = 99 then do { (w, ap) \<leftarrow> va_word ap; Some (padded lj 32 width [ucast w], ap) }
         else if conv = 115 then
           do { (p, ap) \<leftarrow> va_word ap;
                xs \<leftarrow> strs (if p = NULL then null_str else p);
                Some (padded lj 32 width xs, ap) }
         else if conv = 100 \<or> conv = 105 then
           if sint lvl \<le> 1
           then do { (n, ap) \<leftarrow> va_word ap; Some (signed_text n width lj pc (sign_char cs), ap) }
           else do { (n, ap) \<leftarrow> va_dword ap; Some (signed_text n width lj pc (sign_char cs), ap) }
         else if conv = 117 then num 10 False
         else if conv = 120 \<or> conv = 88 \<or> conv = 112 then num 16 (conv = 88)
         else if conv = 111 then num 8 False
         else if conv \<in> {102, 70, 101, 69, 103, 71, 97, 65} then do { (w, ap) \<leftarrow> va_dword ap; Some ([], ap) }
         else Some ([], ap))"

definition directive_text ::
  "(addr \<Rightarrow> u8 list option) \<Rightarrow> addr \<Rightarrow> u8 list \<Rightarrow> va list \<Rightarrow> (u8 list \<times> u8 list \<times> va list) option" where
  "directive_text strs null_str fs ap =
     (let (fs, cs) = flags_text fs \<lparr>left_just = False, sign_char = 0, pad_char = 32\<rparr>;
          (fs, width) = width_text fs 0;
          fs = precision_text fs;
          (fs, lvl) = length_text fs 0
      in do { (t, ap) \<leftarrow> conv_text strs null_str (first fs) cs width lvl ap; Some (t, fs, ap) })"

lemma flags_text_length: "length (fst (flags_text fs cs)) \<le> length fs"
  by (induction fs cs rule: flags_text.induct) (auto intro: le_SucI)

lemma width_text_length: "length (fst (width_text fs w)) \<le> length fs"
  by (induction fs w rule: width_text.induct) (auto intro: le_SucI)

lemma length_text_length: "length (fst (length_text fs l)) \<le> length fs"
  by (induction fs l rule: length_text.induct) (auto intro: le_SucI)

lemma precision_text_length: "length (precision_text fs) \<le> length fs"
  using width_text_length [of "tl fs" 0] by (auto simp: precision_text_def)

lemma directive_text_length:
  assumes "directive_text strs null_str fs ap = Some (t, fs', ap')"
  shows "length fs' \<le> length fs"
proof -
  let ?fs1 = "fst (flags_text fs \<lparr>left_just = False, sign_char = 0, pad_char = 32\<rparr>)"
  let ?fs3 = "precision_text (fst (width_text ?fs1 0))"
  have "fs' = fst (length_text ?fs3 0)"
    using assms by (auto simp: directive_text_def split_beta Let_def bind_eq_Some_conv)
  then have "length fs' \<le> length ?fs3" by (simp add: length_text_length)
  also have "\<dots> \<le> length (fst (width_text ?fs1 0))" by (rule precision_text_length)
  also have "\<dots> \<le> length ?fs1" by (rule width_text_length)
  also have "\<dots> \<le> length fs" by (rule flags_text_length)
  finally show ?thesis .
qed

function fmt_text :: "(addr \<Rightarrow> u8 list option) \<Rightarrow> addr \<Rightarrow> u8 list \<Rightarrow> va list \<Rightarrow> u8 list option" where
  "fmt_text strs null_str fs ap =
     (case fs of [] \<Rightarrow> Some [0]
      | f # fs \<Rightarrow>
          if f = 37 then
            (case directive_text strs null_str fs ap of None \<Rightarrow> None
             | Some (t, fs', ap') \<Rightarrow>
                 if fs' = [] then Some t else map_option (\<lambda>u. t @ u) (fmt_text strs null_str (tl fs') ap'))
          else map_option (\<lambda>u. f # u) (fmt_text strs null_str fs ap))"
  by pat_completeness auto
termination
  by (relation "measure (\<lambda>(_, _, fs, _). length fs)") (auto dest: directive_text_length)

declare fmt_text.simps [simp del]

subsection \<open>The interpreter refines the list semantics\<close>

lemma offs_Cons: "offs (x # xs) ys = 1 + offs xs ys"
  by (simp add: offs_def)

lemma offs_Cons_self [simp]: "1 + offs xs (x # xs) = 0"
  by (simp add: offs_def)

lemma scan_flags_cstr:
  "cstr m (fmt + i) fs \<Longrightarrow> flags_text fs cs = (fs', cs') \<Longrightarrow>
     scan_flags m fmt i cs = Some (i + offs fs fs', cs') \<and> cstr m (fmt + (i + offs fs fs')) fs'"
proof (induction fs cs arbitrary: i rule: flags_text.induct)
  case (1 cs)
  then show ?case by (subst scan_flags.simps) simp
next
  case (2 f fs cs)
  have c: "m (fmt + i) = f" "cstr m (fmt + (i + 1)) fs" "cstr m (fmt + i) (f # fs)"
    using "2.prems" by (simp_all add: cstr_Cons add.assoc)
  show ?case
    using "2.IH" [of "i + 1"] "2.prems"(2) c
    by (subst scan_flags.simps) (auto simp: offs_Cons add.assoc Let_def split: if_splits)
qed

lemma scan_width_cstr:
  "cstr m (fmt + i) fs \<Longrightarrow> width_text fs w = (fs', w') \<Longrightarrow>
     scan_width m fmt i w = Some (i + offs fs fs', w') \<and> cstr m (fmt + (i + offs fs fs')) fs'"
proof (induction fs w arbitrary: i rule: width_text.induct)
  case (1 w)
  then show ?case by (subst scan_width.simps) simp
next
  case (2 f fs w)
  have c: "m (fmt + i) = f" "cstr m (fmt + (i + 1)) fs" "cstr m (fmt + i) (f # fs)"
    using "2.prems" by (simp_all add: cstr_Cons add.assoc)
  show ?case
    using "2.IH" [of "i + 1"] "2.prems"(2) c
    by (subst scan_width.simps) (auto simp: offs_Cons add.assoc Let_def split: if_splits)
qed

lemma scan_length_cstr:
  "cstr m (fmt + i) fs \<Longrightarrow> length_text fs l = (fs', l') \<Longrightarrow>
     scan_length m fmt i l = Some (i + offs fs fs', l') \<and> cstr m (fmt + (i + offs fs fs')) fs'"
proof (induction fs l arbitrary: i rule: length_text.induct)
  case (1 l)
  then show ?case by (subst scan_length.simps) simp
next
  case (2 f fs l)
  have c: "m (fmt + i) = f" "cstr m (fmt + (i + 1)) fs" "cstr m (fmt + i) (f # fs)"
    using "2.prems" by (simp_all add: cstr_Cons add.assoc)
  show ?case
    using "2.IH" [of "i + 1"] "2.prems"(2) c
    by (subst scan_length.simps) (auto simp: offs_Cons add.assoc Let_def split: if_splits)
qed


lemma scan_precision_cstr:
  assumes "cstr m (fmt + i) fs"
  shows "scan_precision m fmt i = Some (i + offs fs (precision_text fs))"
    and "cstr m (fmt + (i + offs fs (precision_text fs))) (precision_text fs)"
proof -
  have f: "m (fmt + i) = first fs" using assms by (rule cstr_first)
  have "scan_precision m fmt i = Some (i + offs fs (precision_text fs)) \<and>
    cstr m (fmt + (i + offs fs (precision_text fs))) (precision_text fs)"
  proof (cases "first fs = 46")
    case True
    then obtain fs' where fs: "fs = 46 # fs'" by (cases fs) (auto simp: first_def)
    obtain fs2 w where w: "width_text fs' 0 = (fs2, w)" by fastforce
    have "cstr m (fmt + (i + 1)) fs'" using assms fs by (simp add: cstr_Cons add.assoc)
    from scan_width_cstr [OF this w] show ?thesis
      using True f by (simp add: scan_precision_def precision_text_def fs w offs_Cons add.assoc)
  next
    case False
    then show ?thesis using f assms by (simp add: scan_precision_def precision_text_def)
  qed
  then show "scan_precision m fmt i = Some (i + offs fs (precision_text fs))"
    "cstr m (fmt + (i + offs fs (precision_text fs))) (precision_text fs)" by simp_all
qed

lemma printf_uint_emit:
  "printf_uint32 st n width lj pc = Some (emit st (padded lj pc width (numeral_chars False 10 (unat n))))"
  "printf_uint64 st k width lj pc = Some (emit st (padded lj pc width (numeral_chars False 10 (unat k))))"
  "printf_hex32 st n width lj pc up = Some (emit st (padded lj pc width (numeral_chars up 16 (unat n))))"
  "printf_hex64 st k width lj pc up = Some (emit st (padded lj pc width (numeral_chars up 16 (unat k))))"
  "printf_octal32 st n width lj pc = Some (emit st (padded lj pc width (numeral_chars False 8 (unat n))))"
  "printf_octal64 st k width lj pc = Some (emit st (padded lj pc width (numeral_chars False 8 (unat k))))"
  using unsigned_less [of n, where ?'a = nat] unsigned_less [of k, where ?'a = nat]
    printf_number_emit [of 10 "unat n" 9] printf_number_emit [of 10 "unat k" 19]
    printf_number_emit [of 16 "unat n" 7] printf_number_emit [of 16 "unat k" 15]
    printf_number_emit [of 8 "unat n" 10] printf_number_emit [of 8 "unat k" 21]
  by (simp_all add: printf_uint32_def printf_uint64_def printf_hex32_def printf_hex64_def
      printf_octal32_def printf_octal64_def)

lemma printf_int_emit:
  "printf_int32 st n width lj pc sign = Some (emit st (signed_text n width lj pc sign))"
  "printf_int64 st k width lj pc sign = Some (emit st (signed_text k width lj pc sign))"
  by (auto simp: printf_int32_def printf_int64_def signed_text_def printf_uint_emit emit_single emit_append)

lemma printf_conv_emit:
  assumes "conv_text strs null_str conv cs width lvl ap = Some (t, ap')"
    and "\<And>p xs. strs p = Some xs \<Longrightarrow> readable L st p xs" "fits L st t"
  shows "printf_conv null_str st conv cs width lvl ap = Some (emit st t, ap')"
proof -
  note rules = conv_text_def printf_conv_def Let_def printf_char_emit printf_int_emit printf_uint_emit
    bind_eq_Some_conv
  consider "conv = 37" | "conv = 99" | "conv = 115" | "conv = 100 \<or> conv = 105" | "conv = 117"
    | "conv = 120 \<or> conv = 88 \<or> conv = 112" | "conv = 111" | "conv \<in> {102, 70, 101, 69, 103, 71, 97, 65}"
    | "conv \<notin> {37, 99, 115, 100, 105, 117, 120, 88, 112, 111, 102, 70, 101, 69, 103, 71, 97, 65}"
    by blast
  then show ?thesis
  proof cases
    case 3
    then obtain p xs where "va_word ap = Some (p, ap')" "strs (if p = NULL then null_str else p) = Some xs"
        "t = padded (left_just cs) 32 width xs"
      using assms(1) by (auto simp: rules)
    then show ?thesis using 3 assms(2,3) printf_string_emit [of L st "if p = NULL then null_str else p" xs]
      by (simp add: rules)
  next
    case 4
    then show ?thesis using assms(1) by (cases "sint lvl \<le> 1") (auto simp: rules)
  next
    case 5
    then show ?thesis using assms(1) by (cases "sint lvl \<le> 1") (auto simp: rules)
  next
    case 6
    then show ?thesis using assms(1) by (cases "sint lvl \<le> 1") (auto simp: rules)
  next
    case 7
    then show ?thesis using assms(1) by (cases "sint lvl \<le> 1") (auto simp: rules)
  qed (use assms(1) in \<open>auto simp: rules\<close>)
qed


lemma offs_le: "length ys \<le> length xs \<Longrightarrow> offs xs ys = of_nat (length xs - length ys)"
  by (simp add: offs_def)

lemma fmt_text_simps [simp]:
  "fmt_text strs null_str [] ap = Some [0]"
  "fmt_text strs null_str (f # fs) ap =
     (if f = 37 then
        (case directive_text strs null_str fs ap of None \<Rightarrow> None
         | Some (t, fs', ap') \<Rightarrow>
             if fs' = [] then Some t else map_option (\<lambda>u. t @ u) (fmt_text strs null_str (tl fs') ap'))
      else map_option (\<lambda>u. f # u) (fmt_text strs null_str fs ap))"
  by (simp_all add: fmt_text.simps [of _ _ "[]"] fmt_text.simps [of _ _ "_ # _"])

lemma readable_suffix:
  assumes "readable L st p xs" "cstr (pmem st) (p + offs xs ys) ys" "length ys \<le> length xs"
  shows "readable L st (p + offs xs ys) ys"
proof -
  have "untouched L st (p + offs xs ys + of_nat k)" if "k \<le> length ys" for k
  proof -
    have "p + offs xs ys + of_nat k = p + of_nat (length xs - length ys + k)"
      using assms(3) by (simp add: offs_le add.assoc)
    moreover have "length xs - length ys + k \<le> length xs" using assms(3) that by simp
    then have "untouched L st (p + of_nat (length xs - length ys + k))"
      using assms(1) unfolding readable_def by blast
    ultimately show ?thesis by (simp only:)
  qed
  then show ?thesis using assms(2) by (simp add: readable_def)
qed

lemma printf_directive_emit:
  assumes c: "cstr (pmem st) (fmt + i) fs"
    and d: "directive_text strs null_str fs ap = Some (t, fs', ap')"
    and s: "\<And>p xs. strs p = Some xs \<Longrightarrow> readable L st p xs" and f: "fits L st t"
  shows "printf_directive null_str st fmt i ap = Some (emit st t, i + offs fs fs', ap')"
    and "cstr (pmem st) (fmt + (i + offs fs fs')) fs'"
proof -
  obtain fs1 cs where 1: "flags_text fs \<lparr>left_just = False, sign_char = 0, pad_char = 32\<rparr> = (fs1, cs)"
    by fastforce
  obtain fs2 w where 2: "width_text fs1 0 = (fs2, w)" by fastforce
  obtain fs4 l where 4: "length_text (precision_text fs2) 0 = (fs4, l)" by fastforce
  have fs': "fs4 = fs'" "conv_text strs null_str (first fs4) cs w l ap = Some (t, ap')"
    using d by (auto simp: directive_text_def 1 2 4 Let_def bind_eq_Some_conv)
  note s1 = scan_flags_cstr [OF c 1]
  note s2 = scan_width_cstr [OF s1 [THEN conjunct2] 2]
  note s3 = scan_precision_cstr [OF s2 [THEN conjunct2]]
  note s4 = scan_length_cstr [OF s3(2) 4, unfolded fs'(1)]
  have o: "i + offs fs fs1 + offs fs1 fs2 + offs fs2 (precision_text fs2) + offs (precision_text fs2) fs' = i + offs fs fs'"
    by (simp add: add.assoc offs_trans)
  show "cstr (pmem st) (fmt + (i + offs fs fs')) fs'" using s4 unfolding o by simp
  then have "pmem st (fmt + (i + offs fs fs')) = first fs'" by (rule cstr_first)
  then show "printf_directive null_str st fmt i ap = Some (emit st t, i + offs fs fs', ap')"
    using s1 s2 s3(1) s4 printf_conv_emit [OF fs'(2) s f] fs'(1)
    unfolding printf_directive_def o by simp
qed

lemma unat_add_of_nat: "unat (i :: size_t) + k \<le> unat (n :: size_t) \<Longrightarrow> unat (i + of_nat k) = unat i + k"
  using unsigned_less [of n, where ?'a = nat] by (subst unat_add_small) simp_all

lemma printf_loop_emit:
  assumes "fmt_text strs null_str fs ap = Some t" "readable L st (fmt + i) fs"
    and "unat n = unat i + Suc (length fs)"
    and "\<And>p xs. strs p = Some xs \<Longrightarrow> readable L st p xs" "fits L st t"
  shows "printf_loop null_str st fmt n i ap = Some (emit st t)"
  using assms
proof (induction strs null_str fs ap arbitrary: st i t rule: fmt_text.induct)
  case (1 strs null_str fs ap)
  have i: "i < n" using "1.prems"(3) by (simp add: word_less_nat_alt)
  show ?case
  proof (cases fs)
    case Nil
    then have t: "t = [0]" using "1.prems"(1) by simp
    have "\<not> i + 1 < n" using Nil "1.prems"(3) unat_plus_one [OF i] by (simp add: word_less_nat_alt)
    then show ?thesis using Nil "1.prems"(2) i t
      by (subst printf_loop.simps, subst printf_loop.simps) (simp add: readable_def emit_single)
  next
    case (Cons f fs0)
    note r = readable_Cons [OF "1.prems"(2) [unfolded Cons]]
    show ?thesis
    proof (cases "f = 37")
      case False
      obtain u where u: "fmt_text strs null_str fs0 ap = Some u" "t = f # u"
        using "1.prems"(1) Cons False by auto
      have ft: "fits L st [f]" "fits L (emit st [f]) u"
        using "1.prems"(5) fits_append [of L st "[f]" u] u(2) by simp_all
      have "printf_loop null_str (emit st [f]) fmt n (i + 1) ap = Some (emit (emit st [f]) u)"
        using r Cons False "1.prems"(3,4) unat_plus_one [OF i] u(1) ft
        by (intro "1.IH"(2) [OF Cons]) (simp_all add: readable_emit add.assoc)
      then show ?thesis using r i False u(2)
        by (subst printf_loop.simps) (simp add: emit_single emit_append)
    next
      case True
      obtain t1 fs' ap' where d: "directive_text strs null_str fs0 ap = Some (t1, fs', ap')"
        using "1.prems"(1) Cons True by (auto split: option.splits)
      have le: "length fs' \<le> length fs0" using d by (rule directive_text_length)
      have c0: "cstr (pmem st) (fmt + (i + 1)) fs0" using r by (simp add: readable_def add.assoc)
      have ft1: "fits L st t1"
        using "1.prems"(1,5) Cons True d fits_append [of L st t1] by (auto split: if_splits)
      note pd = printf_directive_emit [OF c0 d "1.prems"(4) ft1]
      define i' where "i' = i + of_nat (Suc (Suc (length fs0 - length fs')))"
      have i': "i + 1 + offs fs0 fs' + 1 = i'" using le by (simp add: i'_def offs_le algebra_simps)
      have step: "printf_loop null_str st fmt n i ap = printf_loop null_str (emit st t1) fmt n i' ap'"
        using r i True pd(1) by (subst printf_loop.simps) (simp add: i')
      show ?thesis
      proof (cases fs')
        case Nil
        then have "t = t1" using "1.prems"(1) Cons True d by simp
        moreover have "unat i' = unat n"
          unfolding i'_def using Nil Cons "1.prems"(3) by (subst unat_add_of_nat [of _ _ n]) simp_all
        ultimately show ?thesis unfolding step by (subst printf_loop.simps) (simp add: word_less_nat_alt)
      next
        case fs': (Cons c fs2)
        obtain u where u: "fmt_text strs null_str fs2 ap' = Some u" "t = t1 @ u"
          using "1.prems"(1) Cons True d fs' by auto
        have ft2: "fits L (emit st t1) u" using "1.prems"(5) u(2) fits_append by blast
        have "readable L st (fmt + (i + 1) + offs fs0 fs') fs'"
          using r pd(2) le by (intro readable_suffix) (simp_all add: add.assoc)
        then have "readable L st (fmt + (i + 1) + offs fs0 fs' + 1) fs2" unfolding fs' by (rule readable_Cons [THEN conjunct1])
        then have "readable L (emit st t1) (fmt + i') fs2"
          using ft1 by (intro readable_emit) (simp_all only: i' [symmetric] add.assoc)
        moreover have "unat n = unat i' + Suc (length fs2)"
          unfolding i'_def using fs' le Cons "1.prems"(3) by (subst unat_add_of_nat [of _ _ n]) simp_all
        ultimately have "printf_loop null_str (emit st t1) fmt n i' ap' = Some (emit (emit st t1) u)"
          using u(1) fs' "1.prems"(4) ft1 ft2 by (intro "1.IH"(1) [OF Cons True d refl refl]) (simp_all add: readable_emit)
        then show ?thesis unfolding step by (simp add: u(2) emit_append)
      qed
    qed
  qed
qed

lemma printf_backend_emit:
  assumes "fmt_text strs null_str fs ap = Some t" "readable L st fmt fs" "Suc (length fs) < 2 ^ 32"
    and "\<And>p xs. strs p = Some xs \<Longrightarrow> readable L st p xs" "fits L st t"
  shows "printf_backend null_str st fmt ap = Some (emit st t)"
proof -
  have "strlen (pmem st) fmt = Some (of_nat (length fs))"
    using assms(2) by (intro strlen_cstr) (simp add: readable_def)
  moreover have "unat (of_nat (Suc (length fs)) :: size_t) = Suc (length fs)"
    using assms(3) by (intro unat_of_nat_small) simp
  then have "unat (of_nat (length fs) + 1 :: size_t) = Suc (length fs)"
    by (simp only: of_nat_Suc add.commute)
  ultimately show ?thesis
    using printf_loop_emit [OF assms(1) _ _ assms(4,5), where i = 0 and fmt = fmt and n = "of_nat (length fs) + 1"] assms(2)
    by (simp add: printf_backend_def)
qed


subsection \<open>The two sinks\<close>

lemma count_emit: "count (emit st xs) = count st + of_nat (length xs)"
  by (induction xs arbitrary: st) (simp_all add: emit_Cons add.assoc)

lemma port_emit:
  assumes "to_port st" "unat (count st) + length xs \<le> unat (max_count st)"
  shows "port (emit st xs) = port st @ xs"
  using assms
proof (induction xs arbitrary: st)
  case (Cons x xs)
  have lt: "count st < max_count st" using Cons.prems by (simp add: word_less_nat_alt)
  then have "port (printf_putch st x) = port st @ [x]"
    using Cons.prems(1) by (simp add: printf_putch_def Let_def)
  then show ?case using Cons.IH [of "printf_putch st x"] Cons.prems unat_plus_one [OF lt]
    by (simp add: emit_Cons)
qed simp

lemma pmem_emit_memory:
  assumes "\<not> to_port st" "unat (count st) + length xs < 2 ^ 32"
  shows "pmem (emit st xs) = (\<lambda>a. let k = unat (a - dest st) in
    if unat (count st) \<le> k \<and> k < unat (count st) + length xs \<and> k < unat (max_count st)
    then xs ! (k - unat (count st)) else pmem st a)"
  using assms
proof (induction xs arbitrary: st)
  case (Cons x xs)
  let ?st = "printf_putch st x"
  have c: "unat (count st + 1) = Suc (unat (count st))"
    using Cons.prems(2) unat_add_small [of "count st" 1] by simp
  have m: "pmem ?st a = (if unat (a - dest st) = unat (count st) \<and> unat (count st) < unat (max_count st) then x else pmem st a)" for a
  proof -
    have "a = dest st + count st \<longleftrightarrow> a - dest st = count st" by (auto simp: diff_eq_eq add.commute)
    then show ?thesis
      using Cons.prems(1) by (auto simp: printf_putch_def Let_def word_less_nat_alt word_unat_eq_iff)
  qed
  have "pmem (emit ?st xs) = (\<lambda>a. let k = unat (a - dest ?st) in
    if unat (count ?st) \<le> k \<and> k < unat (count ?st) + length xs \<and> k < unat (max_count ?st)
    then xs ! (k - unat (count ?st)) else pmem ?st a)"
    using Cons.prems c by (intro Cons.IH) simp_all
  then show ?case
    by (simp only: emit_Cons c m putch_fixed) (auto simp: fun_eq_iff Let_def nth_Cons')
next
  case Nil
  then show ?case by (intro ext) (auto simp: Let_def)
qed

subsection \<open>Memory outside the buffer\<close>

text \<open>Whatever the format and the arguments, output changes only the buffer it was given.\<close>

definition framed :: "printf_state \<Rightarrow> printf_state \<Rightarrow> bool" where
  "framed st st' \<longleftrightarrow> dest st' = dest st \<and> max_count st' = max_count st \<and> to_port st' = to_port st \<and>
     (\<forall>a. untouched (2 ^ 32) st a \<longrightarrow> pmem st' a = pmem st a)"

lemma framed_refl [simp]: "framed st st"
  by (simp add: framed_def)

lemma framed_trans: "framed st st' \<Longrightarrow> framed st' st'' \<Longrightarrow> framed st st''"
  by (auto simp: framed_def untouched_def)

lemma framed_emit [simp]: "framed st (emit st xs)"
  by (simp add: framed_def pmem_emit [of "2 ^ 32"] fits_def)

lemma framed_emitI: "framed (emit st xs) st' \<Longrightarrow> framed st st'"
  by (rule framed_trans [OF framed_emit])

lemma printf_string_loop_framed:
  assumes "printf_string_loop st str i = Some st'"
  shows "framed st st'"
proof (induction rule: printf_string_loop.raw_induct [OF _ assms])
  case (1 f st str i st')
  show ?case using 1(2)
    by (auto simp: emit_single split: if_splits intro: framed_emitI 1(1))
qed

lemma printf_string_framed:
  "printf_string st str width lj = Some st' \<Longrightarrow> framed st st'"
  by (auto simp: printf_string_def bind_eq_Some_conv printf_pad_emit Let_def split: if_splits
      dest!: printf_string_loop_framed intro: framed_trans framed_emit)

lemma printf_conv_framed:
  assumes "printf_conv null_str st conv cs width lvl ap = Some (st', ap')"
  shows "framed st st'"
proof -
  have o: "framed st st'" if "\<exists>xs. st' = emit st xs" using that by auto
  show ?thesis
  proof (cases "conv = 115")
    case True
    then show ?thesis using assms
      by (auto simp: printf_conv_def Let_def bind_eq_Some_conv dest: printf_string_framed)
  next
    case False
    then have "\<exists>xs. st' = emit st xs" using assms
      unfolding printf_conv_def Let_def printf_char_emit printf_int_emit printf_uint_emit
      by (auto simp: bind_eq_Some_conv split: if_splits intro: exI [of _ "[]"])
    then show ?thesis by (rule o)
  qed
qed

lemma printf_directive_framed:
  "printf_directive null_str st fmt i ap = Some (st', i', ap') \<Longrightarrow> framed st st'"
  by (auto simp: printf_directive_def bind_eq_Some_conv dest: printf_conv_framed)

lemma printf_loop_framed:
  assumes "printf_loop null_str st fmt n i ap = Some st'"
  shows "framed st st'"
proof (induction rule: printf_loop.raw_induct [OF _ assms])
  case (1 f st fmt n i ap st')
  show ?case using 1(2)
    by (auto simp: emit_single bind_eq_Some_conv split: if_splits
        intro: framed_emitI 1(1) framed_trans [OF printf_directive_framed 1(1)])
qed

lemma printf_backend_framed: "printf_backend null_str st fmt ap = Some st' \<Longrightarrow> framed st st'"
  by (auto simp: printf_backend_def bind_eq_Some_conv dest: printf_loop_framed)


lemma unat_minus_one: "0 < (n :: size_t) \<Longrightarrow> unat (n - 1) = unat n - 1"
  by (subst unat_diff) (simp_all add: word_le_nat_alt word_less_nat_alt Suc_le_eq)

lemma vsnprintf_bytes:
  assumes f: "fmt_text strs null_str fs ap = Some t" "cstr m fmt fs" "Suc (length fs) < 2 ^ 32"
    and n: "0 < n" and t: "length t < 2 ^ 32"
    and L: "L = min (length t) (unat n - 1)"
    and df: "\<forall>k\<le>length fs. L \<le> unat (fmt + of_nat k - out)"
    and ds: "\<forall>p xs. strs p = Some xs \<longrightarrow> cstr m p xs \<and> (\<forall>k\<le>length xs. L \<le> unat (p + of_nat k - out))"
  shows "\<exists>m'. vsnprintf null_str m out n fmt ap = Some (m', of_nat (length t)) \<and>
    bytes m' out (Suc L) = take L t @ [0]"
proof -
  let ?st = "\<lparr>dest = out, to_port = False, count = 0, max_count = (if n > 0 then n - 1 else 0), pmem = m, port = []\<rparr>"
  note n1 = unat_minus_one [OF n]
  have "untouched (length t) ?st a" if "L \<le> unat (a - out)" for a
    using that L n n1 by (auto simp: untouched_def word_le_nat_alt)
  then have "printf_backend null_str ?st fmt ap = Some (emit ?st t)"
    using f df ds by (intro printf_backend_emit [OF f(1), where L = "length t"]) (auto simp: readable_def fits_def)
  moreover define tm :: size_t where "tm = (if of_nat (length t) < n - 1 then of_nat (length t) else n - 1)"
  have tm: "unat tm = L" using t n1 L by (auto simp: tm_def word_less_nat_alt)
  ultimately have v: "vsnprintf null_str m out n fmt ap = Some ((pmem (emit ?st t))(out + tm := 0), of_nat (length t))"
    using n by (simp add: vsnprintf_def count_emit tm_def)
  have pm: "pmem (emit ?st t) (out + of_nat k) = t ! k" if "k < L" for k
    using that t n n1 L by (subst pmem_emit_memory) (simp_all add: Let_def)
  have "bytes ((pmem (emit ?st t))(out + tm := 0)) out (Suc L) ! k = (take L t @ [0]) ! k" if "k < Suc L" for k
  proof -
    have "unat (of_nat k :: addr) = k" using that L t by (intro unat_of_nat_small) simp
    then have "(of_nat k :: addr) = tm \<longleftrightarrow> k = L" using tm by (auto simp: word_unat_eq_iff)
    then show ?thesis using that pm [of k] L by (auto simp: nth_append)
  qed
  then have "bytes ((pmem (emit ?st t))(out + tm := 0)) out (Suc L) = take L t @ [0]"
    using L by (intro nth_equalityI) auto
  with v show ?thesis by blast
qed

lemma strto_unsigned_numeral:
  assumes c: "cstr m p (numeral_chars up b n)"
    and b: "2 \<le> sint base" "sint base \<le> 36" "b = nat (sint base)"
  shows "strto_unsigned m p base = Some (of_nat n :: 'a::len word, p + of_nat (length (numeral_chars up b n)))"
proof -
  obtain c cs where N: "numeral_chars up b n = c # cs" by (cases "numeral_chars up b n") (auto simp: numeral_chars_def)
  have c36: "hd (digits b n) < 36" using b by (intro order.strict_trans2 [OF digits_less [of b "hd (digits b n)" n]]) auto
  have "c = digit_char up (hd (digits b n))" using first_numeral [of up b n "[]"] N by (simp add: first_def)
  then have "dropWhile ws (numeral_chars up b n) = numeral_chars up b n"
    using digit_char(2) [OF c36, of up] N by simp
  moreover have "\<not> base_bad base" using b by (simp add: base_bad_def)
  ultimately show ?thesis
    using strto_unsigned_cstr [OF c, of base, where ?'a = 'a] c_strto_numeral [OF b, of "[]" up n]
    by (simp add: offs_def)
qed

subsection \<open>The meaning of a format\<close>

text \<open>
  Formats as the C standard describes them, without reference to the interpreter: literal bytes and conversions, each conversion with the value
  it is given and its layout (flags \<open>-\<close> and \<open>0\<close>, minimum field width, \<open>ll\<close> for 64-bit numbers).
\<close>

datatype conversion = Percent | Chr u8 | Str addr "u8 list" | Signed int | Unsigned nat | Hex bool nat | Octal nat

record layout =
  minus :: bool
  zero :: bool
  fwidth :: nat
  long :: bool

datatype item = Literal u8 | Conversion layout conversion

text \<open>How an item is written in the format, and the arguments it takes.\<close>

fun letter :: "conversion \<Rightarrow> u8" where
  "letter Percent = 37"
| "letter (Chr c) = 99"
| "letter (Str p xs) = 115"
| "letter (Signed v) = 100"
| "letter (Unsigned n) = 117"
| "letter (Hex up n) = (if up then 88 else 120)"
| "letter (Octal n) = 111"

definition spell :: "layout \<Rightarrow> conversion \<Rightarrow> u8 list" where
  "spell l c = (if minus l then [45] else []) @ (if zero l then [48] else []) @
     (if fwidth l = 0 then [] else numeral_chars False 10 (fwidth l)) @ (if long l then [108, 108] else []) @ [letter c]"

fun spelling :: "item \<Rightarrow> u8 list" where
  "spelling (Literal b) = [b]"
| "spelling (Conversion l c) = 37 # spell l c"

definition number :: "bool \<Rightarrow> int \<Rightarrow> va" where
  "number lng v = (if lng then VD (of_int v) else VW (of_int v))"

fun arguments :: "item \<Rightarrow> va list" where
  "arguments (Literal b) = []"
| "arguments (Conversion l Percent) = []"
| "arguments (Conversion l (Chr c)) = [VW (ucast c)]"
| "arguments (Conversion l (Str p xs)) = [VW p]"
| "arguments (Conversion l (Signed v)) = [number (long l) v]"
| "arguments (Conversion l (Unsigned n)) = [number (long l) (int n)]"
| "arguments (Conversion l (Hex up n)) = [number (long l) (int n)]"
| "arguments (Conversion l (Octal n)) = [number (long l) (int n)]"

text \<open>What is printed: the field is filled up to its width, with spaces at the end or in front, or with zeros between the sign and the digits.\<close>

definition field :: "bool \<Rightarrow> bool \<Rightarrow> nat \<Rightarrow> u8 list \<Rightarrow> u8 list \<Rightarrow> u8 list" where
  "field left zeros w sign body =
     (let k = w - (length sign + length body)
      in if left then sign @ body @ replicate k 32 else if zeros then sign @ replicate k 48 @ body else replicate k 32 @ sign @ body)"

fun meaning :: "item \<Rightarrow> u8 list" where
  "meaning (Literal b) = [b]"
| "meaning (Conversion l Percent) = field (minus l) False (fwidth l) [] [37]"
| "meaning (Conversion l (Chr c)) = field (minus l) False (fwidth l) [] [c]"
| "meaning (Conversion l (Str p xs)) = field (minus l) False (fwidth l) [] xs"
| "meaning (Conversion l (Signed v)) = field (minus l) (zero l) (fwidth l) (if v < 0 then [45] else []) (numeral_chars False 10 (nat \<bar>v\<bar>))"
| "meaning (Conversion l (Unsigned n)) = field (minus l) (zero l) (fwidth l) [] (numeral_chars False 10 n)"
| "meaning (Conversion l (Hex up n)) = field (minus l) (zero l) (fwidth l) [] (numeral_chars up 16 n)"
| "meaning (Conversion l (Octal n)) = field (minus l) (zero l) (fwidth l) [] (numeral_chars False 8 n)"

text \<open>
  The items that are printed as the standard says: values in the range of their type, strings in memory, and for a negative number a positive width
  that is filled behind the number or with zeros.  \<open>printf_int32_negative_pads\<close> and \<open>printf_int32_space_pads\<close> show what becomes of the other negative
  numbers.
\<close>

definition bits :: "layout \<Rightarrow> nat" where
  "bits l = (if long l then 64 else 32)"

fun proper :: "mem \<Rightarrow> item \<Rightarrow> bool" where
  "proper m (Literal b) \<longleftrightarrow> b \<noteq> 37"
| "proper m (Conversion l c) \<longleftrightarrow> fwidth l < 2 ^ 32 \<and>
     (case c of
        Percent \<Rightarrow> \<not> long l
      | Chr ch \<Rightarrow> \<not> long l
      | Str p xs \<Rightarrow> \<not> long l \<and> p \<noteq> NULL \<and> cstr m p xs
      | Signed v \<Rightarrow> - (2 ^ (bits l - 1)) \<le> v \<and> v < 2 ^ (bits l - 1) \<and> (v < 0 \<longrightarrow> 0 < fwidth l \<and> (minus l \<or> zero l))
      | Unsigned n \<Rightarrow> n < 2 ^ bits l
      | Hex up n \<Rightarrow> n < 2 ^ bits l
      | Octal n \<Rightarrow> n < 2 ^ bits l)"

lemma letter_facts:
  "letter c \<noteq> 45" "letter c \<noteq> 43" "letter c \<noteq> 32" "letter c \<noteq> 48" "letter c \<noteq> 35" "letter c \<noteq> 46" "letter c \<noteq> 108" "letter c \<noteq> 104"
  "\<not> (48 \<le> letter c \<and> letter c \<le> 57)"
  by (cases c; simp)+

lemma width_text_digits:
  assumes "\<not> (48 \<le> c \<and> c \<le> 57)" "\<forall>d\<in>set ds. d < 10"
  shows "width_text (map (digit_char False) ds @ c # fs) (of_nat a) = (c # fs, of_nat (foldl (\<lambda>a d. a * 10 + d) a ds))"
  using assms(2)
proof (induction ds arbitrary: a)
  case (Cons d ds)
  have d: "48 \<le> digit_char False d" "digit_char False d \<le> 57" "unat (digit_char False d) = 48 + d"
    using digit_char(7) [of d False] Cons.prems by simp_all
  have "ucast (digit_char False d) = (of_nat (48 + d) :: size_t)" 
    using Cons.prems unat_of_nat_small [of "48 + d", where ?'a = 32] by (intro word_unat_eq_iff [THEN iffD2]) (simp add: unat_ucast_up d(3))
  then have "of_nat a * 10 + (ucast (digit_char False d) - 48) = (of_nat (a * 10 + d) :: size_t)" by (simp add: algebra_simps)
  then show ?case using Cons d by (simp del: of_nat_add of_nat_mult)
qed (use assms(1) in auto)

lemma width_text_numeral:
  assumes "\<not> (48 \<le> c \<and> c \<le> 57)"
  shows "width_text (numeral_chars False 10 w @ c # fs) 0 = (c # fs, of_nat w)"
proof -
  have "\<forall>d\<in>set (digits 10 w). d < 10" using digits_less [of 10 _ w] by simp
  from width_text_digits [OF assms this, of fs 0] show ?thesis
    using digits_val_digits [of 10 w] by (simp add: numeral_chars_def digits_val_def)
qed

text \<open>A conversion as the list interpreter reads it.\<close>

lemma directive_spell:
  assumes "fwidth l < 2 ^ 32"
  shows "directive_text strs null_str (spell l c @ fs) ap =
    map_option (\<lambda>(t, ap). (t, letter c # fs, ap)) (conv_text strs null_str (letter c)
      \<lparr>left_just = minus l, sign_char = 0, pad_char = (if zero l then 48 else 32)\<rparr> (of_nat (fwidth l)) (if long l then 2 else 0) ap)"
proof -
  let ?L = "(if long l then [108, 108] else []) @ letter c # fs" and ?W = "if fwidth l = 0 then [] else numeral_chars False 10 (fwidth l)"
  let ?cs = "\<lparr>left_just = minus l, sign_char = 0, pad_char = (if zero l then 48 else 32)\<rparr>"
  obtain x xs where L: "?L = x # xs" "\<not> (48 \<le> x \<and> x \<le> 57)" "x \<notin> {45, 43, 32, 48, 35, 46}"
    using letter_facts [of c] by (cases "long l") auto
  obtain y ys where W: "?W @ ?L = y # ys" "y \<notin> {45, 43, 32, 48, 35}"
  proof (cases "fwidth l = 0")
    case True
    then show thesis using that L by auto
  next
    case False
    obtain d ds where d: "digits 10 (fwidth l) = d # ds" by (cases "digits 10 (fwidth l)") auto
    have "d < 10" "d \<noteq> 0" using digits_less [of 10 d "fwidth l"] hd_digits [of 10 "fwidth l"] d False by auto
    then have "48 < unat (digit_char False d)" using digit_char(7) [of d False] by simp
    then have "digit_char False d \<notin> {45, 43, 32, 48, 35}" by auto
    then show thesis using that False d by (simp add: numeral_chars_def)
  qed
  have f: "flags_text (y # ys) cs = (y # ys, cs)" for cs using W(2) by simp
  have "spell l c @ fs = (if minus l then [45] else []) @ (if zero l then [48] else []) @ y # ys"
    unfolding spell_def W(1) [symmetric] by simp
  then have "flags_text (spell l c @ fs) \<lparr>left_just = False, sign_char = 0, pad_char = 32\<rparr> = (y # ys, ?cs)"
    using f by (simp del: flags_text.simps(2)) (cases "minus l"; cases "zero l"; simp)
  moreover have "width_text (y # ys) 0 = (?L, of_nat (fwidth l))"
    unfolding W(1) [symmetric] using width_text_numeral [OF L(2)] L(1,2) by (cases "fwidth l = 0") auto
  moreover have "precision_text ?L = ?L" using L by (simp add: precision_text_def first_def)
  moreover have "length_text ?L 0 = (letter c # fs, if long l then 2 else 0)" using letter_facts(7,8) [of c] by simp
  ultimately show ?thesis
    by (simp add: directive_text_def first_def Let_def split: option.splits) (auto simp: bind_eq_Some_conv map_option_case split: option.splits)
qed

lemma padded_field: "w < 2 ^ 32 \<Longrightarrow> padded left (if zeros then 48 else 32) (of_nat w) xs = field left zeros w [] xs"
  "w < 2 ^ 32 \<Longrightarrow> padded left 32 (of_nat w) xs = field left False w [] xs"
  by (simp_all add: padded_def field_def Let_def unat_of_nat_small)

lemma signed_field:
  fixes v :: int
  assumes r: "- (2 ^ (LENGTH('a::len) - 1)) \<le> v" "v < 2 ^ (LENGTH('a) - 1)" and w: "w < 2 ^ 32" and n: "v < 0 \<longrightarrow> 0 < w \<and> (left \<or> zeros)"
  shows "signed_text (of_int v :: 'a word) (of_nat w) left (if zeros then 48 else 32) 0 =
    field left zeros w (if v < 0 then [45] else []) (numeral_chars False 10 (nat \<bar>v\<bar>))"
proof -
  have s: "sint (of_int v :: 'a word) = v" using r by (simp add: sint_sbintrunc' signed_take_bit_int_eq_self)
  have p: "(2 :: int) ^ (LENGTH('a) - 1) < 2 ^ LENGTH('a)" by (rule power_strict_increasing) simp_all
  show ?thesis
  proof (cases "v < 0")
    case True
    have "uint (of_int (- v) :: 'a word) = - v" using True r(1) p by (simp only: uint_word_of_int_eq) (rule take_bit_int_eq_self; linarith)
    then have u: "unat (- of_int v :: 'a word) = nat \<bar>v\<bar>" using True by (simp add: unat_eq_nat_uint)
    have "(of_nat w :: size_t) - 1 = of_nat (w - 1)" using True n by (simp add: of_nat_diff)
    then have w1: "unat ((of_nat w :: size_t) - 1) = w - 1" using w by (simp add: unat_of_nat_small)
    show ?thesis using True s n u w1 by (auto simp: signed_text_def padded_def field_def Let_def)
  next
    case False
    have "uint (of_int v :: 'a word) = v" using False r(2) p by (simp only: uint_word_of_int_eq) (rule take_bit_int_eq_self; linarith)
    then have "unat (of_int v :: 'a word) = nat \<bar>v\<bar>" using False by (simp add: unat_eq_nat_uint)
    then show ?thesis using False s padded_field(1) [OF w] by (simp add: signed_text_def)
  qed
qed

lemma conv_number:
  assumes w: "fwidth l < 2 ^ 32" and n: "n < 2 ^ bits l"
    and c: "(conv, b, up) \<in> {(117, 10, False), (120, 16, False), (88, 16, True), (111, 8, False)}"
  shows "conv_text strs null_str conv \<lparr>left_just = minus l, sign_char = 0, pad_char = (if zero l then 48 else 32)\<rparr>
      (of_nat (fwidth l)) (if long l then 2 else 0) (number (long l) (int n) # ap) =
    Some (field (minus l) (zero l) (fwidth l) [] (numeral_chars up b n), ap)"
proof (cases "long l")
  case True
  then have "unat (of_nat n :: u64) = n" using n by (simp add: bits_def unat_of_nat_small)
  then show ?thesis using True c padded_field(1) [OF w]
    by (elim insertE; simp add: conv_text_def va_dword_def number_def Let_def del: power_Suc)
next
  case False
  then have "unat (of_nat n :: u32) = n" using n by (simp add: bits_def unat_of_nat_small)
  then show ?thesis using False c padded_field(1) [OF w]
    by (elim insertE; simp add: conv_text_def va_word_def number_def Let_def del: power_Suc)
qed

lemma conv_meaning:
  assumes "proper m (Conversion l c)" "\<And>p xs. cstr m p xs \<Longrightarrow> strs p = Some xs"
  shows "conv_text strs null_str (letter c) \<lparr>left_just = minus l, sign_char = 0, pad_char = (if zero l then 48 else 32)\<rparr>
      (of_nat (fwidth l)) (if long l then 2 else 0) (arguments (Conversion l c) @ ap) = Some (meaning (Conversion l c), ap)"
proof -
  have w: "fwidth l < 2 ^ 32" using assms(1) by simp
  note pf = padded_field(2) [OF w]
  show ?thesis
  proof (cases c)
    case Percent
    then show ?thesis using assms(1) pf by (simp add: conv_text_def)
  next
    case (Chr ch)
    have "ucast (ucast ch :: u32) = ch" by (simp add: bit_eq_iff bit_simps)
    then show ?thesis using Chr assms(1) pf by (simp add: conv_text_def va_word_def)
  next
    case (Str p xs)
    then show ?thesis using assms(1) assms(2) [of p xs] pf by (simp add: conv_text_def va_word_def)
  next
    case (Signed v)
    then have r: "- (2 ^ (bits l - 1)) \<le> v" "v < 2 ^ (bits l - 1)" "v < 0 \<longrightarrow> 0 < fwidth l \<and> (minus l \<or> zero l)" using assms(1) by simp_all
    show ?thesis
    proof (cases "long l")
      case True
      then show ?thesis using Signed signed_field [where 'a = 64, OF _ _ w r(3)] r(1,2)
        by (simp add: conv_text_def va_dword_def number_def bits_def)
    next
      case False
      then show ?thesis using Signed signed_field [where 'a = 32, OF _ _ w r(3)] r(1,2)
        by (simp add: conv_text_def va_word_def number_def bits_def)
    qed
  next
    case (Unsigned n)
    then show ?thesis using assms(1) conv_number [OF w, of n 117 10 False] by simp
  next
    case (Hex up n)
    then show ?thesis using assms(1) conv_number [OF w, of n "letter c" 16 up] by simp
  next
    case (Octal n)
    then show ?thesis using assms(1) conv_number [OF w, of n 111 8 False] by simp
  qed
qed

lemma fmt_meaning:
  assumes "\<forall>it\<in>set items. proper m it" "\<And>p xs. cstr m p xs \<Longrightarrow> strs p = Some xs"
  shows "fmt_text strs null_str (concat (map spelling items)) (concat (map arguments items)) = Some (concat (map meaning items) @ [0])"
  using assms(1)
proof (induction items)
  case (Cons it items)
  then have IH: "fmt_text strs null_str (concat (map spelling items)) (concat (map arguments items)) = Some (concat (map meaning items) @ [0])" by simp
  show ?case
  proof (cases it)
    case (Literal b)
    then show ?thesis using Cons.prems IH by simp
  next
    case (Conversion l c)
    then have p: "proper m (Conversion l c)" using Cons.prems by simp
    then have w: "fwidth l < 2 ^ 32" by simp
    show ?thesis using Conversion IH directive_spell [OF w] conv_meaning [OF p assms(2)] by simp
  qed
qed simp

subsection \<open>Properties\<close>

text \<open>
  C38: \<open>printf\<close> sends to the serial port what its format means: literal bytes, and for each conversion (\<open>%%\<close>, \<open>%c\<close>, \<open>%s\<close>, \<open>%d\<close>, \<open>%u\<close>, \<open>%x\<close>, \<open>%X\<close>, \<open>%o\<close>, with
  \<open>ll\<close> for 64 bits) its value in the prescribed base and layout, with the flags \<open>-\<close> and \<open>0\<close> and any field width.  Contrary to the standard it then
  sends a NUL byte, and counts it in its result.  Negative numbers must have a width that is filled behind them or with zeros.
\<close>
theorem printf_sends_text:
  assumes p: "\<forall>it\<in>set items. proper m it" and f: "cstr m fmt (concat (map spelling items))" "Suc (length (concat (map spelling items))) < 2 ^ 32"
    and l: "Suc (length (concat (map meaning items))) < 2 ^ 32"
  shows "printf null_str m out fmt (concat (map arguments items)) =
    Some (out @ concat (map meaning items) @ [0], of_nat (length (concat (map meaning items)) + 1))"
proof -
  let ?st = "\<lparr>dest = NULL, to_port = True, count = 0, max_count = SIZE_MAX, pmem = m, port = out\<rparr>" and ?t = "concat (map meaning items) @ [0]"
  define strs where "strs p = (if \<exists>xs. cstr m p xs then Some (THE xs. cstr m p xs) else None)" for p
  have s: "strs p = Some xs \<longleftrightarrow> cstr m p xs" for p xs
  proof -
    have "(THE xs. cstr m p xs) = ys" if "cstr m p ys" for ys using that cstr_unique by blast
    then show ?thesis by (auto simp: strs_def)
  qed
  have len: "length ?t < 2 ^ 32" using l by simp
  have "readable (length ?t) ?st p xs \<longleftrightarrow> cstr m p xs" for p xs by (simp add: readable_def untouched_def)
  then have "printf_backend null_str ?st fmt (concat (map arguments items)) = Some (emit ?st ?t)"
    using f s len by (intro printf_backend_emit [OF fmt_meaning [OF p, of strs], where L = "length ?t"]) (simp_all add: fits_def)
  moreover have "port (emit ?st ?t) = out @ ?t" using len port_emit [of ?st ?t] by simp
  ultimately show ?thesis by (simp add: printf_def count_emit)
qed

text \<open>The format \<open>%04d!\<close> with the argument -7.\<close>

theorem printf_sends_text_witness:
  "printf 0 (mem_at 100 [37, 48, 52, 100, 33, 0]) [] 100 [VW (- 7)] = Some ([45, 48, 48, 55, 33, 0], 6)"
proof -
  let ?l = "\<lparr>minus = False, zero = True, fwidth = 4, long = False\<rparr>"
  let ?items = "[Conversion ?l (Signed (- 7)), Literal 33]"
  have n: "numeral_chars False 10 4 = [52]" "numeral_chars False 10 7 = [55]" by (simp_all add: numeral_chars_def digits.simps digit_char_def)
  have r: "replicate 2 (48 :: u8) = [48, 48]" by (simp add: numeral_eq_Suc)
  have s: "concat (map spelling ?items) = [37, 48, 52, 100, 33]" by (simp add: spell_def n)
  have t: "concat (map meaning ?items) = [45, 48, 48, 55, 33]" by (simp add: field_def n r)
  have a: "concat (map arguments ?items) = [VW (- 7)]" by (simp add: number_def)
  have "\<forall>it\<in>set ?items. proper (mem_at 100 [37, 48, 52, 100, 33, 0]) it" by (simp add: bits_def)
  from printf_sends_text [OF this, of 100 0 "[]"] show ?thesis unfolding s t a by (simp add: cstr_Cons mem_at_def)
qed

text \<open>
  \<open>vsnprintf\<close> leaves the text of its format, cut to \<open>n - 1\<close> bytes and NUL-terminated, in the
  buffer, and returns the length of the whole text, when the buffer overlaps neither the format nor
  the strings it prints.
\<close>
theorem vsnprintf_writes_text:
  assumes "fmt_text strs null_str fs ap = Some t" "cstr m fmt fs" "Suc (length fs) < 2 ^ 32"
    and "0 < n" "length t < 2 ^ 32" "L = min (length t) (unat n - 1)"
    and "\<forall>k\<le>length fs. L \<le> unat (fmt + of_nat k - out)"
    and "\<forall>p xs. strs p = Some xs \<longrightarrow> cstr m p xs \<and> (\<forall>k\<le>length xs. L \<le> unat (p + of_nat k - out))"
  shows "\<exists>m'. vsnprintf null_str m out n fmt ap = Some (m', of_nat (length t)) \<and>
    bytes m' out (Suc L) = take L t @ [0]"
  using assms by (rule vsnprintf_bytes)

theorem vsnprintf_writes_text_witness:
  "\<exists>m'. vsnprintf 0 (mem_at 100 [65, 66, 67, 0]) 200 3 100 [] = Some (m', of_nat (length [65 :: u8, 66, 67, 0])) \<and>
    bytes m' 200 (Suc 2) = take 2 [65, 66, 67, 0] @ [0]"
  by (rule vsnprintf_writes_text [where strs = "\<lambda>_. None" and fs = "[65, 66, 67]"])
    (auto simp: cstr_Cons mem_at_def le_Suc_eq)

text \<open>
  C39: \<open>vsnprintf\<close> never writes outside the \<open>n\<close> bytes of its buffer, whatever the format, the
  arguments and the length of the text, and a non-empty buffer is always NUL-terminated.
\<close>
theorem vsnprintf_stays_in_buffer:
  assumes "vsnprintf null_str m out n fmt ap = Some (m', r)"
  shows "(\<forall>a. n \<le> a - out \<longrightarrow> m' a = m a) \<and> (0 < n \<longrightarrow> (\<exists>k < n. m' (out + k) = 0))"
proof -
  let ?st = "\<lparr>dest = out, to_port = False, count = 0, max_count = (if n > 0 then n - 1 else 0), pmem = m, port = []\<rparr>"
  obtain st where b: "printf_backend null_str ?st fmt ap = Some st"
    and m': "m' = (if n > 0 then (pmem st)(out + (if count st < n - 1 then count st else n - 1) := 0) else pmem st)"
    using assms by (auto simp: vsnprintf_def bind_eq_Some_conv Let_def)
  have fr: "pmem st a = m a" if "max_count ?st \<le> a - out" for a
    using printf_backend_framed [OF b] that by (simp add: framed_def untouched_def)
  show ?thesis
  proof (cases "n > 0")
    case False
    then show ?thesis using fr m' by simp
  next
    case True
    define tm where "tm = (if count st < n - 1 then count st else n - 1)"
    have n1: "n - 1 < n" using unat_minus_one [OF True] True by (simp add: word_less_nat_alt)
    then have t: "tm < n" by (auto simp: tm_def)
    have m2: "m' = (pmem st)(out + tm := 0)" using m' True by (simp add: tm_def)
    have "m' a = m a" if "n \<le> a - out" for a
    proof -
      have "a \<noteq> out + tm" using that t by auto
      moreover have "n - 1 \<le> a - out" using that n1 by simp
      ultimately show ?thesis using fr [of a] True by (simp add: m2)
    qed
    then show ?thesis using t m2 by auto
  qed
qed

theorem vsnprintf_stays_in_buffer_witness:
  "\<exists>m' r. vsnprintf 0 (mem_at 100 [65, 66, 67, 0]) 200 3 100 [] = Some (m', r) \<and>
     (\<forall>a. 3 \<le> a - 200 \<longrightarrow> m' a = mem_at 100 [65, 66, 67, 0] a)"
proof -
  have "\<exists>m'. vsnprintf 0 (mem_at 100 [65, 66, 67, 0]) 200 3 100 [] = Some (m', of_nat (length [65 :: u8, 66, 67, 0])) \<and>
    bytes m' 200 (Suc 2) = take 2 [65, 66, 67, 0] @ [0]"
    by (rule vsnprintf_bytes [where strs = "\<lambda>_. None" and fs = "[65, 66, 67]"])
      (auto simp: cstr_Cons mem_at_def le_Suc_eq)
  with vsnprintf_stays_in_buffer show ?thesis by blast
qed

text \<open>
  A number printed by \<open>sprintf\<close> with \<open>%u\<close> is read back by \<open>strtoul\<close> in base 10, for every
  32-bit value.
\<close>
theorem sprintf_strtoul_roundtrip:
  assumes "cstr m fmt [37, 117]" "\<forall>k\<le>2. 11 \<le> unat (fmt + of_nat k - out)"
  shows "\<exists>m' r. sprintf null_str m out fmt [VW v] = Some (m', r) \<and>
    strtoul m' out 10 = Some (v, out + of_nat (length (numeral_chars False 10 (unat v))))"
proof -
  let ?N = "numeral_chars False 10 (unat v)"
  have t: "fmt_text (\<lambda>_. None) null_str [37, 117] [VW v] = Some (?N @ [0])"
    by (simp add: directive_text_def first_def precision_text_def conv_text_def va_word_def padded_def)
  have len: "length ?N \<le> 10"
    using length_digits [of 10 "unat v" 9] unsigned_less [of v, where ?'a = nat] by (simp add: numeral_chars_def)
  have "\<exists>m'. sprintf null_str m out fmt [VW v] = Some (m', of_nat (length (?N @ [0]))) \<and>
      bytes m' out (Suc (length (?N @ [0]))) = take (length (?N @ [0])) (?N @ [0]) @ [0]"
    unfolding sprintf_def using assms len by (intro vsnprintf_bytes [OF t]) (auto intro: order_trans [of _ 11])
  then obtain m' where m': "sprintf null_str m out fmt [VW v] = Some (m', of_nat (length (?N @ [0])))"
      "bytes m' out (Suc (length ?N) + 1) = ?N @ [0] @ [0]" by auto
  have "bytes m' out (Suc (length ?N)) = ?N @ [0]"
    using m'(2) unfolding bytes_add by (simp add: bytes_Suc)
  moreover have "digit_char False d \<noteq> 0" if "d \<in> set (digits 10 (unat v))" for d
    using digits_less [of 10 d "unat v"] digit_char(7) [of d False] that by auto
  then have "0 \<notin> set ?N" by (auto simp: numeral_chars_def)
  ultimately have "cstr m' out ?N" using len by (simp add: cstr_def)
  from strto_unsigned_numeral [OF this, of 10, where ?'a = 32] m'(1) show ?thesis by (simp add: strtoul_def)
qed

theorem sprintf_strtoul_roundtrip_witness:
  "\<exists>m' r. sprintf 0 (mem_at 100 [37, 117, 0]) 200 100 [VW 42] = Some (m', r) \<and>
    strtoul m' 200 10 = Some (42, 200 + of_nat (length (numeral_chars False 10 (unat (42 :: u32)))))"
proof (rule sprintf_strtoul_roundtrip)
  have "k \<le> 2 \<longleftrightarrow> k = 0 \<or> k = 1 \<or> k = 2" for k :: nat by auto
  then show "\<forall>k\<le>2. 11 \<le> unat (100 + of_nat k - 200 :: addr)" by auto
qed (simp add: cstr_Cons mem_at_def)

text \<open>With spaces in front, the sign of a negative number comes before the spaces.\<close>

lemma printf_int32_space_pads:
  "printf_int32 st (- 7) 4 False 32 0 = Some (emit st [45, 32, 32, 55])"
proof -
  have "numeral_chars False 10 7 = [55]" by (simp add: numeral_chars_def digits.simps digit_char_def)
  moreover have "replicate 2 (32 :: u8) = [32, 32]" by (simp add: numeral_eq_Suc)
  ultimately show ?thesis by (simp add: printf_int_emit signed_text_def padded_def Let_def)
qed

text \<open>
  A negative number printed with \<open>%d\<close> and no width fills \<open>2 ^ 32 - 1\<close> columns: after the minus
  sign the width 0 is decremented and wraps to the largest \<open>size_t\<close>, and the digits are padded with
  spaces to it.
\<close>
theorem printf_int32_negative_pads:
  assumes "sint n < 0"
  shows "printf_int32 st n 0 False 32 0 = Some (emit st (45 #
    replicate (2 ^ 32 - 1 - length (numeral_chars False 10 (unat (- n)))) 32 @ numeral_chars False 10 (unat (- n))))"
  using assms
  by (simp add: printf_int_emit signed_text_def padded_def Let_def unsigned_minus_1_eq_mask mask_eq_exp_minus_1)

theorem printf_int32_negative_pads_witness:
  "let st = \<lparr>dest = 0, to_port = True, count = 0, max_count = SIZE_MAX, pmem = mem_at 0 [], port = []\<rparr> in
   printf_int32 st (- 5) 0 False 32 0 = Some (emit st (45 #
    replicate (2 ^ 32 - 1 - length (numeral_chars False 10 (unat (- (- 5) :: u32)))) 32 @
      numeral_chars False 10 (unat (- (- 5) :: u32))))"
  unfolding Let_def by (rule printf_int32_negative_pads) simp

text \<open>
  \<open>sscanf\<close> with the single directive \<open>%d\<close> stores the number it reads and returns 0: the item
  counter starts at \<open>-1\<close>, so a successful conversion is reported as none.
\<close>
theorem sscanf_single_item_is_zero:
  assumes "cstr m fmt [37, 100]" "cstr m str (numeral_chars up 10 n)"
    and "\<forall>k<4. q + of_nat k \<noteq> fmt + 2"
  shows "sscanf m str fmt [VW q] =
    Some (Scanned (store_word m q (of_nat n)) (str + of_nat (length (numeral_chars up 10 n))) 0)"
proof -
  let ?N = "numeral_chars up 10 n" and ?m = "store_word m q (of_nat n)"
  have N: "0 < length ?N" "length ?N < 2 ^ 32" using assms(2) by (simp_all add: numeral_chars_def cstr_def)
  have s: "strtol m str 10 = Some (of_nat n, str + of_nat (length ?N))"
  proof -
    have "strto_signed m str 10 = Some (of_int (if ([] :: u8 list) = [45] then - int n else int n) :: cint,
        str + of_nat (length ([] @ [] @ ?N)))"
      by (rule strto_signed_numeral [where rest = "[]"]) (simp_all add: assms(2))
    then show ?thesis by (simp only: strtol_def append_Nil if_False list.distinct of_int_of_nat_eq)
  qed
  have "unat (of_nat (length ?N) :: addr) = length ?N" using N(2) by (intro unat_of_nat_small) simp
  then have ne: "(of_nat (length ?N) :: addr) \<noteq> 0" using N(1) by (metis unat_0 less_irrefl)
  have f: "m fmt = 37" "m (fmt + 1) = 100" "m (fmt + 2) = 0" using assms(1) by (simp_all add: cstr_Cons add.assoc)
  have "q \<noteq> fmt + 2" "q + 1 \<noteq> fmt + 2" "q + 2 \<noteq> fmt + 2" "q + 3 \<noteq> fmt + 2"
    using assms(3) [rule_format, of 0] assms(3) [rule_format, of 1] assms(3) [rule_format, of 2]
      assms(3) [rule_format, of 3] by simp_all
  then have z: "?m (fmt + 2) = 0" using f by (auto simp: store_word_def)
  have "scanf_loop ?m (str + of_nat (length ?N)) (fmt + 2) 0 [] = Some (Scanned ?m (str + of_nat (length ?N)) 0)"
    using z by (subst scanf_loop.simps) simp
  then show ?thesis unfolding sscanf_def am_vsscanf_internal_def
    by (subst scanf_loop.simps) (simp add: f s ne isspace_def va_word_def add.assoc Let_def)
qed

theorem sscanf_single_item_is_zero_witness:
  "sscanf (mem_at 100 [37, 100, 0, 55, 0]) 103 100 [VW 200] =
    Some (Scanned (store_word (mem_at 100 [37, 100, 0, 55, 0]) 200 (of_nat 7)) (103 + of_nat (length (numeral_chars False 10 7))) 0)"
proof (rule sscanf_single_item_is_zero)
  have "k < 4 \<longleftrightarrow> k = 0 \<or> k = 1 \<or> k = 2 \<or> k = 3" for k :: nat by auto
  then show "\<forall>k<4. (200 :: addr) + of_nat k \<noteq> 100 + 2" by auto
qed (simp_all add: cstr_Cons mem_at_def numeral_chars_def digits.simps [of 10 7] digit_char_def)

end
