(* ===== verification/Int64.thy ===== *)
theory Int64
  imports Prelude "HOL-Library.Signed_Division"
begin

text \<open>
  64-bit integer arithmetic on the 32-bit target: the division routines and bit counters of
  \<open>klib/src/int64.c\<close> and the shift and multiplication of \<open>am/src/riscv/npc/libgcc\<close>.  The unions
  \<open>dwords\<close> and \<open>udwords\<close> are the 64-bit word with its halves \<open>high_of\<close> and \<open>low_of\<close>; the builtins
  \<open>__builtin_clz\<close>, \<open>__builtin_ctz\<close> and \<open>__builtin_clzll\<close> are calls of the routines of the same
  file, as the target has no such instructions.  Division by zero is undefined in C; the theorems
  assume a divisor other than zero.
\<close>

subsection \<open>Halves and bit counters\<close>

definition high_of :: "u64 \<Rightarrow> u32" where
  "high_of w = ucast (drop_bit 32 w)"

definition low_of :: "u64 \<Rightarrow> u32" where
  "low_of w = ucast w"

definition dword :: "u32 \<Rightarrow> u32 \<Rightarrow> u64" where
  "dword hi lo = push_bit 32 (ucast hi) OR ucast lo"

definition clzsi2 :: "u32 \<Rightarrow> u32" where
  "clzsi2 a =
     (let x = a;
          t = (if x AND 0xFFFF0000 = 0 then 16 else 0);
          x = drop_bit (16 - t) x;
          r = of_nat t :: u32;
          t = (if x AND 0xFF00 = 0 then 8 else 0);
          x = drop_bit (8 - t) x;
          r = r + of_nat t;
          t = (if x AND 0xF0 = 0 then 4 else 0);
          x = drop_bit (4 - t) x;
          r = r + of_nat t;
          t = (if x AND 0xC = 0 then 2 else 0);
          x = drop_bit (2 - t) x;
          r = r + of_nat t
      in r + ((2 - x) AND - of_bool (x AND 2 = 0)))"

definition ctzsi2 :: "u32 \<Rightarrow> u32" where
  "ctzsi2 a =
     (let x = a;
          t = (if x AND 0x0000FFFF = 0 then 16 else 0);
          x = drop_bit t x;
          r = of_nat t :: u32;
          t = (if x AND 0x00FF = 0 then 8 else 0);
          x = drop_bit t x;
          r = r + of_nat t;
          t = (if x AND 0x0F = 0 then 4 else 0);
          x = drop_bit t x;
          r = r + of_nat t;
          t = (if x AND 0x3 = 0 then 2 else 0);
          x = drop_bit t x;
          x = x AND 3;
          r = r + of_nat t
      in r + ((2 - drop_bit 1 x) AND - of_bool (x AND 1 = 0)))"

definition clzdi2 :: "u64 \<Rightarrow> u32" where
  "clzdi2 a =
     (let f = - of_bool (high_of a = 0) :: u32
      in clzsi2 ((high_of a AND NOT f) OR (low_of a AND f)) + (f AND 32))"

definition ctzdi2 :: "u64 \<Rightarrow> u32" where
  "ctzdi2 a =
     (let f = - of_bool (low_of a = 0) :: u32
      in ctzsi2 ((high_of a AND f) OR (low_of a AND NOT f)) + (f AND 32))"

subsection \<open>Shift-subtract division\<close>

primrec div_loop :: "nat \<Rightarrow> u64 \<Rightarrow> u64 \<Rightarrow> u64 \<Rightarrow> u64 \<Rightarrow> u64 \<times> u64 \<times> u64" where
  "div_loop 0 d r n carry = (r, n, carry)"
| "div_loop (Suc sr) d r n carry =
     (let r = push_bit 1 r OR drop_bit 63 n;
          n = push_bit 1 n OR carry;
          s = signed_drop_bit 63 (d - r - 1);
          carry = s AND 1;
          r = r - (d AND s)
      in div_loop sr d r n carry)"

definition shift_count :: "u64 \<Rightarrow> u64 \<Rightarrow> u32" where
  "shift_count n d = (if d \<noteq> 0 then clzdi2 d else 64) - (if n \<noteq> 0 then clzdi2 n else 64)"

definition udivXi3 :: "u64 \<Rightarrow> u64 \<Rightarrow> u64" where
  "udivXi3 n d =
     (let sr = shift_count n d in
      if sr > 63 then 0
      else if sr = 63 then n
      else
        let sr = sr + 1;
            r = drop_bit (unat sr) n;
            n = push_bit (unat (64 - sr)) n;
            (r, n, carry) = div_loop (unat sr) d r n 0
        in push_bit 1 n OR carry)"

definition umodXi3 :: "u64 \<Rightarrow> u64 \<Rightarrow> u64" where
  "umodXi3 n d =
     (let sr = shift_count n d in
      if sr > 63 then n
      else if sr = 63 then 0
      else
        let sr = sr + 1;
            r = drop_bit (unat sr) n;
            n = push_bit (unat (64 - sr)) n;
            (r, n, carry) = div_loop (unat sr) d r n 0
        in r)"

definition udivdi3 :: "u64 \<Rightarrow> u64 \<Rightarrow> u64" where
  "udivdi3 a b = udivXi3 a b"

definition umoddi3 :: "u64 \<Rightarrow> u64 \<Rightarrow> u64" where
  "umoddi3 a b = umodXi3 a b"

subsection \<open>Division on halves\<close>

primrec udivmod_loop :: "nat \<Rightarrow> u64 \<Rightarrow> u64 \<Rightarrow> u64 \<Rightarrow> u32 \<Rightarrow> u64 \<times> u64 \<times> u32" where
  "udivmod_loop 0 d r q carry = (r, q, carry)"
| "udivmod_loop (Suc sr) d r q carry =
     (let r_high = push_bit 1 (high_of r) OR drop_bit 31 (low_of r);
          r_low = push_bit 1 (low_of r) OR drop_bit 31 (high_of q);
          q_high = push_bit 1 (high_of q) OR drop_bit 31 (low_of q);
          q_low = push_bit 1 (low_of q) OR carry;
          r = dword r_high r_low;
          q = dword q_high q_low;
          s = signed_drop_bit 63 (d - r - 1);
          carry = ucast (s AND 1);
          r = r - (d AND s)
      in udivmod_loop sr d r q carry)"

definition udivmod_finish :: "u32 \<Rightarrow> u64 \<Rightarrow> u64 \<Rightarrow> u64 \<Rightarrow> u64 \<times> u64" where
  "udivmod_finish sr d r q =
     (let (r, q, carry) = udivmod_loop (unat sr) d r q 0
      in (push_bit 1 q OR ucast carry, r))"

definition udivmoddi4 :: "u64 \<Rightarrow> u64 \<Rightarrow> u64 \<times> u64" where
  "udivmoddi4 a b =
     (let n_high = high_of a; n_low = low_of a; d_high = high_of b; d_low = low_of b in
      if n_high = 0 then
        if d_high = 0 then (ucast (n_low div d_low), ucast (n_low mod d_low))
        else (0, ucast n_low)
      else if d_low = 0 then
        if d_high = 0 then (ucast (n_high div d_low), ucast (n_high mod d_low))
        else if n_low = 0 then (ucast (n_high div d_high), dword (n_high mod d_high) 0)
        else if d_high AND (d_high - 1) = 0 then
          (ucast (drop_bit (unat (ctzsi2 d_high)) n_high), dword (n_high AND (d_high - 1)) n_low)
        else
          let sr = clzsi2 d_high - clzsi2 n_high in
          if sr > 30 then (0, a)
          else
            let sr = sr + 1;
                q = dword (push_bit (unat (32 - sr)) n_low) 0;
                r = dword (drop_bit (unat sr) n_high)
                      (push_bit (unat (32 - sr)) n_high OR drop_bit (unat sr) n_low)
            in udivmod_finish sr b r q
      else if d_high = 0 then
        if d_low AND (d_low - 1) = 0 then
          if d_low = 1 then (a, ucast (n_low AND (d_low - 1)))
          else
            let sr = ctzsi2 d_low
            in (dword (drop_bit (unat sr) n_high)
                  (push_bit (unat (32 - sr)) n_high OR drop_bit (unat sr) n_low),
                ucast (n_low AND (d_low - 1)))
        else
          let sr = 1 + 32 + clzsi2 d_low - clzsi2 n_high in
          if sr = 32 then udivmod_finish sr b (dword 0 n_high) (dword n_low 0)
          else if sr < 32 then
            let q = dword (push_bit (unat (32 - sr)) n_low) 0;
                r = dword (drop_bit (unat sr) n_high)
                      (push_bit (unat (32 - sr)) n_high OR drop_bit (unat sr) n_low)
            in udivmod_finish sr b r q
          else
            let q = dword (push_bit (unat (64 - sr)) n_high OR drop_bit (unat (sr - 32)) n_low)
                      (push_bit (unat (64 - sr)) n_low);
                r = dword 0 (drop_bit (unat (sr - 32)) n_high)
            in udivmod_finish sr b r q
      else
        let sr = clzsi2 d_high - clzsi2 n_high in
        if sr > 31 then (0, a)
        else
          let sr = sr + 1 in
          if sr = 32 then udivmod_finish sr b (dword 0 n_high) (dword n_low 0)
          else
            let q = dword (push_bit (unat (32 - sr)) n_low) 0;
                r = dword (drop_bit (unat sr) n_high)
                      (push_bit (unat (32 - sr)) n_high OR drop_bit (unat sr) n_low)
            in udivmod_finish sr b r q)"

definition divdi3 :: "u64 \<Rightarrow> u64 \<Rightarrow> u64" where
  "divdi3 a b =
     (let s_a = signed_drop_bit 63 a;
          s_b = signed_drop_bit 63 b;
          a = (a XOR s_a) - s_a;
          b = (b XOR s_b) - s_b;
          s_a = s_a XOR s_b
      in (fst (udivmoddi4 a b) XOR s_a) - s_a)"

definition divmoddi4 :: "u64 \<Rightarrow> u64 \<Rightarrow> u64 \<times> u64" where
  "divmoddi4 a b = (let d = divdi3 a b in (d, a - d * b))"

definition moddi3 :: "u64 \<Rightarrow> u64 \<Rightarrow> u64" where
  "moddi3 a b =
     (let s = signed_drop_bit 63 b;
          b = (b XOR s) - s;
          s = signed_drop_bit 63 a;
          a = (a XOR s) - s;
          r = snd (udivmoddi4 a b)
      in (r XOR s) - s)"

subsection \<open>Shift and multiplication\<close>

definition ashldi3 :: "u64 \<Rightarrow> cint \<Rightarrow> u64" where
  "ashldi3 u b =
     (if b = 0 then u
      else
        let bm = 32 - b in
        if sint bm \<le> 0 then dword (push_bit (unat (- bm)) (low_of u)) 0
        else
          let carries = drop_bit (unat bm) (low_of u)
          in dword (push_bit (unat b) (high_of u) OR carries) (push_bit (unat b) (low_of u)))"

function mul_loop :: "u32 \<Rightarrow> u32 \<Rightarrow> u32 \<Rightarrow> u32 \<Rightarrow> u32 \<Rightarrow> u32 \<times> u32" where
  "mul_loop u_low v_low w_low w_high w_high_tmp =
     (let new_w_low = w_low + u_low;
          w_high_tmp2x = push_bit 1 w_high_tmp;
          w_high_tmp = w_high_tmp + w_high;
          (w_low, w_high) =
            (if v_low AND 1 \<noteq> 0 then (new_w_low, of_bool (new_w_low < w_low) + w_high_tmp) else (w_low, w_high));
          u_low_msb = drop_bit 31 u_low;
          v_low = drop_bit 1 v_low;
          u_low = push_bit 1 u_low;
          w_high_tmp = u_low_msb OR w_high_tmp2x
      in if v_low \<noteq> 0 then mul_loop u_low v_low w_low w_high w_high_tmp else (w_low, w_high))"
  by pat_completeness auto
termination
proof (relation "measure (\<lambda>(u, v, w, h, t). unat v)", simp, goal_cases)
  case (1 u v w h t a b c d e f g)
  then show ?case
    by (cases "v = 0") (auto simp: unat_drop_bit unat_gt_0 intro!: div_less_dividend)
qed

definition muldi3 :: "u64 \<Rightarrow> u64 \<Rightarrow> u64" where
  "muldi3 u v =
     (let (w_low, w_high) = mul_loop (low_of u) (low_of v) 0 0 0;
          w_high = (if high_of u \<noteq> 0 then w_high + low_of v * high_of u else w_high);
          w_high = (if high_of v \<noteq> 0 then w_high + low_of u * high_of v else w_high)
      in dword w_high w_low)"



subsection \<open>Bit length\<close>

fun bitlen :: "nat \<Rightarrow> nat" where
  "bitlen n = (if n = 0 then 0 else Suc (bitlen (n div 2)))"

declare bitlen.simps [simp del]

lemma bitlen_0 [simp]: "bitlen 0 = 0"
  by (simp add: bitlen.simps)

lemma bitlen_Suc: "0 < n \<Longrightarrow> bitlen n = Suc (bitlen (n div 2))"
  by (simp add: bitlen.simps [of n])

lemma bitlen_le_iff: "bitlen n \<le> k \<longleftrightarrow> n < 2 ^ k"
proof (induction k arbitrary: n)
  case 0
  show ?case by (cases n) (auto simp: bitlen_Suc)
next
  case (Suc k)
  show ?case
  proof (cases "n = 0")
    case False
    then have "bitlen n \<le> Suc k \<longleftrightarrow> bitlen (n div 2) \<le> k" by (simp add: bitlen_Suc)
    also have "\<dots> \<longleftrightarrow> n div 2 < 2 ^ k" by (rule Suc.IH)
    also have "\<dots> \<longleftrightarrow> n < 2 ^ Suc k" by auto
    finally show ?thesis .
  qed simp
qed

lemma less_bitlen_iff: "k < bitlen n \<longleftrightarrow> 2 ^ k \<le> n"
  using bitlen_le_iff [of n k] by auto

lemma bitlen_eqI: "n < 2 ^ k \<Longrightarrow> 2 ^ k \<le> 2 * n \<Longrightarrow> bitlen n = k"
proof (cases k)
  case 0
  assume "n < 2 ^ k" "2 ^ k \<le> 2 * n"
  with 0 show ?thesis by simp
next
  case (Suc j)
  assume "n < 2 ^ k" "2 ^ k \<le> 2 * n"
  then have "bitlen n \<le> k" "j < bitlen n" using Suc by (simp_all add: bitlen_le_iff less_bitlen_iff)
  then show ?thesis using Suc by simp
qed

lemma bitlen_div: "bitlen (n div 2 ^ k) = bitlen n - k"
proof (induction k)
  case (Suc k)
  have h: "bitlen (m div 2) = bitlen m - 1" for m by (cases "m = 0") (simp_all add: bitlen_Suc)
  have "n div 2 ^ Suc k = n div 2 ^ k div 2" by (simp only: power_Suc2 div_mult2_eq)
  then show ?case using h [of "n div 2 ^ k"] Suc by simp
qed simp

lemma nat_and_block: "n AND push_bit w (mask v) = (n div 2 ^ w mod 2 ^ v) * 2 ^ w" for n :: nat
proof -
  have "n AND push_bit w (mask v) = push_bit w (take_bit v (drop_bit w n))"
    by (rule bit_eqI) (auto simp: bit_simps)
  then show ?thesis by (simp add: push_bit_eq_mult take_bit_eq_mod drop_bit_eq_div)
qed

lemma and_block_zero:
  fixes x :: u32
  assumes "unat x < 2 ^ (w + v)" "unat m = push_bit w (mask v)"
  shows "x AND m = 0 \<longleftrightarrow> unat x < 2 ^ w"
proof -
  have "unat x div 2 ^ w < 2 ^ v" using assms(1) by (simp add: less_mult_imp_div_less power_add mult.commute)
  then have "unat (x AND m) = unat x div 2 ^ w * 2 ^ w"
    by (simp add: unsigned_and_eq assms(2) nat_and_block)
  then show ?thesis by (simp add: unat_eq_zero div_eq_0_iff flip: unat_eq_zero)
qed

lemma clz_step:
  fixes x :: u32
  assumes "unat x < 2 ^ (w + w)" "unat m = push_bit w (mask w)" "t = (if x AND m = 0 then w else 0)"
  shows "unat (drop_bit (w - t) x) < 2 ^ w" "w + bitlen (unat (drop_bit (w - t) x)) = t + bitlen (unat x)"
proof -
  note d = unat_drop_bit
  note z = and_block_zero [OF assms(1,2)]
  have "w \<le> bitlen (unat x)" if "\<not> unat x < 2 ^ w"
    using that less_bitlen_iff [of w "unat x"] by auto
  then show "unat (drop_bit (w - t) x) < 2 ^ w" "w + bitlen (unat (drop_bit (w - t) x)) = t + bitlen (unat x)"
    using z assms(1,3) by (auto simp: d bitlen_div less_mult_imp_div_less power_add)
qed

lemma clz_last:
  fixes x :: u32
  assumes "unat x < 4"
  shows "unat ((2 - x) AND - of_bool (x AND 2 = 0)) + bitlen (unat x) = 2"
proof -
  have "unat x = 0 \<or> unat x = 1 \<or> unat x = 2 \<or> unat x = 3" using assms by auto
  then have "x = 0 \<or> x = 1 \<or> x = 2 \<or> x = 3" by (simp add: word_unat_eq_iff)
  then show ?thesis by (auto simp: bitlen.simps)
qed

lemma clzsi2_bitlen: "unat (clzsi2 a) = 32 - bitlen (unat a)"
proof -
  define t1 where "t1 = (if a AND 0xFFFF0000 = 0 then 16 else 0 :: nat)"
  define x1 where "x1 = drop_bit (16 - t1) a"
  define t2 where "t2 = (if x1 AND 0xFF00 = 0 then 8 else 0 :: nat)"
  define x2 where "x2 = drop_bit (8 - t2) x1"
  define t3 where "t3 = (if x2 AND 0xF0 = 0 then 4 else 0 :: nat)"
  define x3 where "x3 = drop_bit (4 - t3) x2"
  define t4 where "t4 = (if x3 AND 0xC = 0 then 2 else 0 :: nat)"
  define x4 where "x4 = drop_bit (2 - t4) x3"
  define e where "e = (2 - x4) AND - of_bool (x4 AND 2 = 0)"
  have 0: "unat a < 2 ^ (16 + 16)" using unsigned_less [of a, where ?'a = nat] by simp
  note 1 = clz_step [OF 0 _ t1_def, folded x1_def, unfolded push_bit_eq_mult mask_eq_exp_minus_1, simplified]
  have "unat x1 < 2 ^ (8 + 8)" using 1 by simp
  note 2 = clz_step [OF this _ t2_def, folded x2_def, unfolded push_bit_eq_mult mask_eq_exp_minus_1, simplified]
  have "unat x2 < 2 ^ (4 + 4)" using 2 by simp
  note 3 = clz_step [OF this _ t3_def, folded x3_def, unfolded push_bit_eq_mult mask_eq_exp_minus_1, simplified]
  have "unat x3 < 2 ^ (2 + 2)" using 3 by simp
  note 4 = clz_step [OF this _ t4_def, folded x4_def, unfolded push_bit_eq_mult mask_eq_exp_minus_1, simplified]
  have "unat x4 < 4" using 4 by simp
  note 5 = clz_last [OF this, folded e_def]
  have sum: "t1 + t2 + t3 + t4 + unat e = 32 - bitlen (unat a)"
    using 1(2) 2(2) 3(2) 4(2) 5 by linarith
  have "clzsi2 a = of_nat t1 + of_nat t2 + of_nat t3 + of_nat t4 + e"
    unfolding clzsi2_def Let_def t1_def [symmetric] x1_def [symmetric] t2_def [symmetric] x2_def [symmetric]
      t3_def [symmetric] x3_def [symmetric] t4_def [symmetric] x4_def [symmetric] e_def [symmetric] ..
  also have "\<dots> = of_nat (t1 + t2 + t3 + t4 + unat e)" by simp
  finally show ?thesis unfolding sum by simp
qed


lemma unat_high_of: "unat (high_of w) = unat w div 2 ^ 32"
proof -
  have "unat w div 2 ^ 32 < 2 ^ 32"
    using unsigned_less [of w, where ?'a = nat] by (intro less_mult_imp_div_less) simp
  then show ?thesis by (simp add: high_of_def unsigned_ucast_eq unat_drop_bit take_bit_nat_eq_self)
qed

lemma unat_low_of: "unat (low_of w) = unat w mod 2 ^ 32"
  by (simp add: low_of_def unsigned_ucast_eq take_bit_eq_mod)

lemma unat_or_disjoint:
  fixes x y :: "'a::len word"
  assumes "x AND y = 0" "unat x + unat y < 2 ^ LENGTH('a)"
  shows "unat (x OR y) = unat x + unat y"
proof -
  have "x OR y = x + y" using assms(1) by (metis disjunctive_add_eq_or)
  then show ?thesis using assms(2) by (simp add: unat_add_small)
qed

lemma unat_push_or:
  fixes x y :: "'a::len word"
  assumes "unat y < 2 ^ k" "unat x * 2 ^ k < 2 ^ LENGTH('a)"
  shows "unat (push_bit k x OR y) = unat x * 2 ^ k + unat y"
proof -
  have p: "unat (push_bit k x) = unat x * 2 ^ k"
    using assms(2) by (simp only: unsigned_push_bit_eq) (simp add: push_bit_eq_mult take_bit_nat_eq_self)
  have "unat (take_bit k y) = unat y" using assms(1) by (simp add: unsigned_take_bit_eq take_bit_nat_eq_self)
  then have "take_bit k y = y" by (simp add: word_unat_eq_iff)
  then have "push_bit k x AND y = push_bit k x AND take_bit k y" by simp
  also have "\<dots> = 0" by (rule bit_word_eqI) (auto simp: bit_simps)
  finally have z: "push_bit k x AND y = 0" .
  show ?thesis
  proof (cases "k < LENGTH('a)")
    case True
    have "2 ^ k dvd (2 :: nat) ^ LENGTH('a)" using True by (simp add: le_imp_power_dvd)
    then obtain c :: nat where c: "2 ^ LENGTH('a) = 2 ^ k * c" by (elim dvdE)
    then have "Suc (unat x) \<le> c" using assms(2) by (simp add: mult.commute)
    then have "2 ^ k * Suc (unat x) \<le> 2 ^ LENGTH('a)" unfolding c by (rule mult_le_mono2)
    then have "unat x * 2 ^ k + unat y < 2 ^ LENGTH('a)"
      using assms(1) by (simp add: algebra_simps)
    then show ?thesis using unat_or_disjoint [OF z] p by simp
  next
    case False
    have "unat x = 0"
    proof (rule ccontr)
      assume "unat x \<noteq> 0"
      then have "2 ^ k \<le> unat x * 2 ^ k" by simp
      moreover have "(2 :: nat) ^ LENGTH('a) \<le> 2 ^ k" using False by (intro power_increasing) simp_all
      ultimately show False using assms(2) by linarith
    qed
    then show ?thesis by (simp add: unat_eq_0)
  qed
qed

lemma unat_dword: "unat (dword hi lo) = unat hi * 2 ^ 32 + unat lo"
  using unsigned_less [of lo, where ?'a = nat] unsigned_less [of hi, where ?'a = nat]
    unat_push_or [of "ucast lo :: u64" 32 "ucast hi"]
  by (simp add: dword_def unat_ucast_up)

lemma dword_halves [simp]: "dword (high_of w) (low_of w) = w"
  by (simp add: word_unat_eq_iff unat_dword unat_high_of unat_low_of div_mult_mod_eq mult.commute)

lemma bitlen_high: "0 < n div 2 ^ 32 \<Longrightarrow> bitlen (n div 2 ^ 32) + 32 = bitlen n"
  using less_bitlen_iff [of 32 n] bitlen_div [of n 32] by (simp add: div_greater_zero_iff)

lemma clzdi2_bitlen: "unat (clzdi2 a) = 64 - bitlen (unat a)"
proof (cases "high_of a = 0")
  case True
  then have "unat a < 2 ^ 32" using unat_high_of [of a] by (simp add: div_eq_0_iff)
  then have l: "unat (low_of a) = unat a" "bitlen (unat a) \<le> 32" by (simp_all add: unat_low_of bitlen_le_iff)
  have "clzdi2 a = clzsi2 (low_of a) + 32" using True by (simp add: clzdi2_def)
  moreover have "unat (clzsi2 (low_of a) + 32) = unat (clzsi2 (low_of a)) + 32"
    by (subst unat_add_small) (simp_all add: clzsi2_bitlen)
  ultimately show ?thesis using l by (simp add: clzsi2_bitlen)
next
  case False
  then have "0 < unat a div 2 ^ 32" using unat_high_of [of a] by (simp add: unat_gt_0 flip: unat_gt_0)
  then have "bitlen (unat (high_of a)) + 32 = bitlen (unat a)" unfolding unat_high_of by (rule bitlen_high)
  then show ?thesis using False by (simp add: clzdi2_def clzsi2_bitlen)
qed


subsection \<open>The division loop\<close>

lemma bit_63_iff: "bit (x :: u64) 63 \<longleftrightarrow> 2 ^ 63 \<le> unat x"
proof -
  have "bit x 63 \<longleftrightarrow> bit (unat x) 63" by (simp only: bit_unsigned_iff) simp
  also have "\<dots> \<longleftrightarrow> odd (unat x div 2 ^ 63)" by (rule bit_iff_odd)
  also have "unat x div 2 ^ 63 = of_bool (2 ^ 63 \<le> unat x)"
  proof (cases "(2 :: nat) ^ 63 \<le> unat x")
    case True
    then show ?thesis using unsigned_less [of x, where ?'a = nat] by (simp add: div_if)
  qed simp
  finally show ?thesis by simp
qed

lemma signed_drop_63: "signed_drop_bit 63 (x :: u64) = (if 2 ^ 63 \<le> unat x then - 1 else 0)"
proof -
  have "signed_drop_bit 63 x = (if bit x 63 then - 1 else 0)"
    by (rule bit_word_eqI) (auto simp: bit_simps not_le less_Suc_eq_le)
  then show ?thesis by (simp only: bit_63_iff)
qed

lemma sign_mask:
  fixes d r :: u64
  assumes "r < d \<Longrightarrow> unat d - unat r \<le> 2 ^ 63" "d \<le> r \<Longrightarrow> unat r - unat d < 2 ^ 63"
  shows "signed_drop_bit 63 (d - r - 1) = (if d \<le> r then - 1 else 0)"
proof -
  note sb = signed_drop_63
  show ?thesis
  proof (cases "d \<le> r")
    case True
    have "unat (d - r - 1) = 2 ^ 64 - 1 - (unat r - unat d)"
    proof (cases "d = r")
      case True
      then show ?thesis by (simp add: unsigned_minus_1_eq_mask mask_eq_exp_minus_1)
    next
      case False
      with \<open>d \<le> r\<close> have "d < r" by simp
      from unat_sub_wrap [OF this] show ?thesis
        using \<open>d < r\<close> unsigned_less [of r, where ?'a = nat]
        by (subst unat_minus_one) (auto simp: word_less_nat_alt)
    qed
    then show ?thesis using sb [of "d - r - 1"] True assms(2) by simp
  next
    case False
    then have "unat (d - r) = unat d - unat r" by (intro unat_diff) simp
    then have "unat (d - r - 1) = unat d - unat r - 1" using False
      by (subst unat_diff) (simp_all add: word_le_nat_alt)
    moreover have "r < d" using False by simp
    ultimately show ?thesis using sb [of "d - r - 1"] False assms(1) [OF \<open>r < d\<close>]
      by (auto simp: word_less_nat_alt)
  qed
qed



text \<open>
  The state of the division of \<open>N\<close> by \<open>d\<close> with \<open>k\<close> bits to go: the prefix \<open>N div 2 ^ k\<close> has been
  divided, its remainder is in \<open>r\<close>, its quotient is the low part of \<open>n\<close> followed by \<open>carry\<close>, and
  the bits still to be read are at the top of \<open>n\<close>.
\<close>

definition div_state :: "nat \<Rightarrow> nat \<Rightarrow> u64 \<Rightarrow> u64 \<Rightarrow> u64 \<Rightarrow> u64 \<Rightarrow> bool" where
  "div_state N k d r n carry \<longleftrightarrow>
     (let A = N div 2 ^ k; Q = A div unat d in
      unat r = A mod unat d \<and> unat carry = Q mod 2 \<and> k \<le> 64 \<and>
      unat n = (N mod 2 ^ k) * 2 ^ (64 - k) + Q div 2)"

lemma div_state_step:
  assumes st: "div_state N (Suc k) d r n carry" and d: "d \<noteq> 0" and N: "N < 2 ^ 64"
    and big: "unat d \<le> 2 ^ 63 \<or> 2 ^ 63 \<le> N div 2 ^ k"
    and r': "r' = push_bit 1 r OR drop_bit 63 n" and n': "n' = push_bit 1 n OR carry"
    and s: "s = signed_drop_bit 63 (d - r' - 1)"
  shows "div_state N k d (r' - (d AND s)) n' (s AND 1)"
proof -
  define A where "A = N div 2 ^ Suc k"
  define Q where "Q = A div unat d"
  define b where "b = N div 2 ^ k mod 2"
  have dp: "0 < unat d" using d by (simp add: unat_gt_0)
  have A': "N div 2 ^ k = 2 * A + b"
  proof -
    have "A = N div 2 ^ k div 2" unfolding A_def by (simp only: power_Suc2 div_mult2_eq)
    then show ?thesis by (simp add: b_def)
  qed
  have k: "Suc k \<le> 64" and ur: "unat r = A mod unat d" and uc: "unat carry = Q mod 2"
    and un: "unat n = (N mod 2 ^ Suc k) * 2 ^ (63 - k) + Q div 2"
    using st by (simp_all add: div_state_def A_def Q_def Let_def)
  have Nk: "N mod 2 ^ Suc k = b * 2 ^ k + N mod 2 ^ k"
    by (simp only: power_Suc2 mod_mult2_eq b_def) simp
  have A63: "A < 2 ^ (63 - k)"
  proof -
    have e: "(2 :: nat) ^ 64 = 2 ^ (63 - k) * 2 ^ Suc k" using k by (simp only: power_add [symmetric]) simp
    show ?thesis using N unfolding A_def e by (rule less_mult_imp_div_less)
  qed
  define rest where "rest = (N mod 2 ^ k) * 2 ^ (63 - k) + Q div 2"
  have pk: "(2 :: nat) ^ k * 2 ^ (63 - k) = 2 ^ 63" using k by (simp only: power_add [symmetric]) simp
  have rest63: "rest < 2 ^ 63"
  proof -
    have "Q \<le> A" "Q div 2 \<le> Q" by (simp_all add: Q_def)
    then have "Q div 2 < 2 ^ (63 - k)" using A63 by linarith
    moreover have "Suc (N mod 2 ^ k) * 2 ^ (63 - k) \<le> 2 ^ k * 2 ^ (63 - k)"
      by (intro mult_le_mono1) (simp add: Suc_le_eq)
    ultimately show ?thesis unfolding rest_def pk by simp
  qed
  have un': "unat n = b * 2 ^ 63 + rest"
    unfolding un Nk rest_def by (simp only: distrib_right mult.assoc pk add.assoc)
  have top: "unat (drop_bit 63 n) = b"
    unfolding unat_drop_bit un' using rest63 by simp
  have b2: "b < 2" by (simp add: b_def)
  have A2: "2 * A + b \<le> N" using A' div_le_dividend [of N "2 ^ k"] by simp
  have "A < 2 ^ 63" using A2 N by simp
  then have am: "A mod unat d < 2 ^ 63" using mod_less_eq_dividend [of A "unat d"] by (rule order.strict_trans1 [rotated])
  have r1: "unat r' = 2 * (A mod unat d) + b"
    using top b2 am unat_push_or [of "drop_bit 63 n" 1 r]
    by (simp add: r' ur mult.commute)
  have n1: "unat n' = (N mod 2 ^ k) * 2 ^ (64 - k) + Q"
  proof -
    have "push_bit 1 n = push_bit 1 (take_bit 63 n)"
      by (rule bit_word_eqI) (simp only: bit_push_bit_iff bit_take_bit_iff, auto)
    moreover have "unat (take_bit 63 n) = rest"
      using rest63 by (simp only: unsigned_take_bit_eq) (simp add: take_bit_eq_mod un')
    ultimately have "unat n' = rest * 2 + Q mod 2"
      using unat_push_or [of carry 1 "take_bit 63 n"] rest63 by (simp only: n' uc) simp
    moreover have "(2 :: nat) ^ (64 - k) = 2 * 2 ^ (63 - k)" using k by (simp flip: power_Suc add: Suc_diff_le)
    ultimately show ?thesis by (simp add: rest_def algebra_simps)
  qed
  let ?R = "2 * (A mod unat d) + b"
  have R2: "?R < 2 * unat d" using mod_less_divisor [OF dp, of A] b2 by linarith
  have "2 * A + b = 2 * (unat d * Q + A mod unat d) + b" by (simp only: Q_def mult_div_mod_eq)
  also have "\<dots> = ?R + unat d * (2 * Q)" by (simp add: algebra_simps del: mult_div_mod_eq)
  finally have A'd: "2 * A + b = ?R + unat d * (2 * Q)" .
  have ge: "d \<le> r' \<longleftrightarrow> unat d \<le> ?R" by (simp add: word_le_nat_alt r1)
  have sv: "s = (if unat d \<le> ?R then - 1 else 0)"
  proof -
    have "A mod unat d = A" if "2 ^ 63 < unat d" using that A2 N by simp
    then have "r' < d \<Longrightarrow> unat d - unat r' \<le> 2 ^ 63"
      using big A' unsigned_less [of d, where ?'a = nat] by (cases "2 ^ 63 < unat d") (auto simp: r1)
    moreover have "d \<le> r' \<Longrightarrow> unat r' - unat d < 2 ^ 63"
      using R2 unsigned_less [of r', where ?'a = nat] by (auto simp: r1)
    ultimately show ?thesis using sign_mask [of r' d] ge by (simp add: s)
  qed
  show ?thesis
  proof (cases "unat d \<le> ?R")
    case True
    have e: "2 * A + b = (?R - unat d) + unat d * (2 * Q + 1)" and lt: "?R - unat d < unat d"
      using A'd True R2 by (simp_all add: algebra_simps)
    have dm: "(2 * A + b) div unat d = 2 * Q + 1" "(2 * A + b) mod unat d = ?R - unat d"
      unfolding e using dp lt by (simp_all only: div_mult_self2 mod_mult_self2 div_less mod_less)
    have "unat (r' - d) = ?R - unat d" using True ge by (simp add: unat_diff r1)
    then show ?thesis using sv True dm n1 k by (simp add: div_state_def A' Let_def)
  next
    case False
    then have dm: "(2 * A + b) div unat d = 2 * Q" "(2 * A + b) mod unat d = ?R"
      unfolding A'd using dp by simp_all
    then show ?thesis using sv False n1 k by (simp add: div_state_def A' Let_def r1)
  qed
qed


lemma div_loop_state:
  assumes "div_state N k d r n carry" "d \<noteq> 0" "N < 2 ^ 64"
    and "\<And>j. j < k \<Longrightarrow> unat d \<le> 2 ^ 63 \<or> 2 ^ 63 \<le> N div 2 ^ j"
  shows "\<exists>r' n' carry'. div_loop k d r n carry = (r', n', carry') \<and> div_state N 0 d r' n' carry'"
  using assms
proof (induction k arbitrary: r n carry)
  case (Suc k)
  define r1 where "r1 = push_bit 1 r OR drop_bit 63 n"
  define n1 where "n1 = push_bit 1 n OR carry"
  define s where "s = signed_drop_bit 63 (d - r1 - 1)"
  have "div_state N k d (r1 - (d AND s)) n1 (s AND 1)"
    by (rule div_state_step [OF Suc.prems(1,2,3) Suc.prems(4) r1_def n1_def s_def]) simp
  then have "\<exists>r' n' carry'. div_loop k d (r1 - (d AND s)) n1 (s AND 1) = (r', n', carry') \<and> div_state N 0 d r' n' carry'"
    using Suc.prems by (intro Suc.IH) auto
  moreover have "div_loop (Suc k) d r n carry = div_loop k d (r1 - (d AND s)) n1 (s AND 1)"
    by (simp only: div_loop.simps Let_def r1_def n1_def s_def)
  ultimately show ?case by simp
qed simp

lemma div_state_final:
  assumes "div_state N 0 d r n carry" "N < 2 ^ 64"
  shows "unat r = N mod unat d" "unat (push_bit 1 n OR carry) = N div unat d"
proof -
  have f: "unat r = N mod unat d" "unat carry = N div unat d mod 2" "unat n = N div unat d div 2"
    using assms(1) by (simp_all add: div_state_def Let_def)
  show "unat r = N mod unat d" by (rule f)
  have "N div unat d < 2 ^ 64" by (rule order.strict_trans1 [OF div_le_dividend assms(2)])
  then have "unat n * 2 ^ 1 < 2 ^ 64" using f(3) by simp
  then have "unat (push_bit 1 n OR carry) = unat n * 2 ^ 1 + unat carry"
    using f(2) by (intro unat_push_or) simp_all
  then show "unat (push_bit 1 n OR carry) = N div unat d" using f by simp
qed

lemma bitlen_less: "bitlen x < bitlen y \<Longrightarrow> x < y"
  using bitlen_le_iff [of x "bitlen x"] less_bitlen_iff [of "bitlen x" y] by simp

lemma bitlen_pos: "(d :: u64) \<noteq> 0 \<Longrightarrow> 0 < bitlen (unat d)"
  by (subst bitlen_Suc) (simp_all add: unat_gt_0)

lemma bitlen_u64: "bitlen (unat (n :: u64)) \<le> 64"
  using unsigned_less [of n, where ?'a = nat] by (simp add: bitlen_le_iff)

lemma div_state_init:
  assumes "bitlen (unat n) < bitlen (unat d) + k" "k \<le> 64" "d \<noteq> 0"
  shows "div_state (unat n) k d (drop_bit k n) (push_bit (64 - k) n) 0"
proof -
  have "bitlen (unat n div 2 ^ k) < bitlen (unat d)"
    using assms(1) bitlen_pos [OF assms(3)] by (simp only: bitlen_div)
  then have A: "unat n div 2 ^ k < unat d" by (rule bitlen_less)
  have e: "(2 :: nat) ^ 64 = 2 ^ k * 2 ^ (64 - k)" using assms(2) by (simp only: power_add [symmetric]) simp
  have "unat (push_bit (64 - k) n) = unat n * 2 ^ (64 - k) mod 2 ^ 64"
    by (simp only: unsigned_push_bit_eq) (simp add: push_bit_eq_mult take_bit_eq_mod)
  also have "\<dots> = (unat n mod 2 ^ k) * 2 ^ (64 - k)" unfolding e by (rule mod_mult_mult2)
  finally show ?thesis using A assms(2) by (simp add: div_state_def Let_def unat_drop_bit)
qed

lemma div_loop_correct:
  assumes d: "d \<noteq> 0" and k: "k = Suc (bitlen (unat n) - bitlen (unat d))" "bitlen (unat d) \<le> bitlen (unat n)" "k \<le> 64"
    and l: "div_loop k d (drop_bit k n) (push_bit (64 - k) n) 0 = (r, q, carry)"
  shows "unat r = unat n mod unat d" "unat (push_bit 1 q OR carry) = unat n div unat d"
proof -
  have st: "div_state (unat n) k d (drop_bit k n) (push_bit (64 - k) n) 0"
    using k d by (intro div_state_init) auto
  have "unat d \<le> 2 ^ 63 \<or> 2 ^ 63 \<le> unat n div 2 ^ j" if "j < k" for j
  proof (rule disjCI)
    assume "\<not> 2 ^ 63 \<le> unat n div 2 ^ j"
    show "unat d \<le> 2 ^ 63"
    proof (rule ccontr)
      assume "\<not> unat d \<le> 2 ^ 63"
      then have "63 < bitlen (unat d)" by (simp add: less_bitlen_iff)
      then have "k = 1" "63 < bitlen (unat n)" using k bitlen_u64 [of n] by auto
      then show False using that \<open>\<not> 2 ^ 63 \<le> unat n div 2 ^ j\<close> by (simp add: less_bitlen_iff)
    qed
  qed
  from div_loop_state [OF st d _ this] l unsigned_less [of n, where ?'a = nat]
  have "div_state (unat n) 0 d r q carry" by auto
  from div_state_final [OF this] unsigned_less [of n, where ?'a = nat]
  show "unat r = unat n mod unat d" "unat (push_bit 1 q OR carry) = unat n div unat d" by simp_all
qed

lemma shift_count_bitlen:
  assumes "d \<noteq> 0"
  shows "unat (shift_count n d) =
    (if bitlen (unat d) \<le> bitlen (unat n) then bitlen (unat n) - bitlen (unat d)
     else 2 ^ 32 + bitlen (unat n) - bitlen (unat d))"
proof -
  define a where "a = (if d \<noteq> 0 then clzdi2 d else 64)"
  define b where "b = (if n \<noteq> 0 then clzdi2 n else 64)"
  have "unat a = 64 - bitlen (unat d)" "unat b = 64 - bitlen (unat n)"
    by (simp_all add: a_def b_def clzdi2_bitlen)
  then show ?thesis unfolding shift_count_def a_def [symmetric] b_def [symmetric]
    using bitlen_u64 [of n] bitlen_u64 [of d] by (auto simp: unat_sub_if' word_le_nat_alt)
qed

lemma udivmodXi3_correct:
  assumes d: "d \<noteq> 0"
  shows "unat (udivXi3 n d) = unat n div unat d" "unat (umodXi3 n d) = unat n mod unat d"
proof -
  define sr where "sr = shift_count n d"
  have sr: "unat sr = (if bitlen (unat d) \<le> bitlen (unat n) then bitlen (unat n) - bitlen (unat d)
     else 2 ^ 32 + bitlen (unat n) - bitlen (unat d))"
    unfolding sr_def by (rule shift_count_bitlen [OF d])
  note b64 = bitlen_u64 [of n] bitlen_u64 [of d] bitlen_pos [OF d]
  have "unat (udivXi3 n d) = unat n div unat d \<and> unat (umodXi3 n d) = unat n mod unat d"
  proof (cases "bitlen (unat d) \<le> bitlen (unat n)")
    case False
    then have "unat n < unat d" using bitlen_less [of "unat n" "unat d"] by linarith
    moreover have "63 < unat sr"
    proof -
      have "unat sr = 2 ^ 32 + bitlen (unat n) - bitlen (unat d)" using False by (simp only: sr if_False)
      then show ?thesis using b64 by simp
    qed
    then have "sr > 63" by (simp add: word_less_nat_alt)
    ultimately show ?thesis by (simp add: udivXi3_def umodXi3_def sr_def [symmetric])
  next
    case True
    show ?thesis
    proof (cases "sr = 63")
      case s63: True
      then have "bitlen (unat d) = 1" using sr True b64 by simp
      then have "unat d < 2 ^ 1" using bitlen_le_iff [of "unat d" 1] by simp
      then have "unat d = 1" using d unat_gt_0 [of d] by simp
      then show ?thesis using s63 by (simp add: udivXi3_def umodXi3_def sr_def [symmetric])
    next
      case False
      then have "unat sr \<noteq> 63" by (auto simp: word_unat_eq_iff)
      then have lt: "unat sr < 63" using sr True b64 by auto
      define k where "k = Suc (unat sr)"
      have k: "unat (sr + 1) = k" "unat (64 - (sr + 1)) = 64 - k"
        using lt unat_add_small [of sr 1] unat_diff [of "sr + 1" 64] by (simp_all add: k_def word_le_nat_alt)
      obtain r q carry where l: "div_loop k d (drop_bit k n) (push_bit (64 - k) n) 0 = (r, q, carry)"
        using prod_cases3 by blast
      have "unat r = unat n mod unat d" "unat (push_bit 1 q OR carry) = unat n div unat d"
        using div_loop_correct [OF d _ True _ l] sr True lt by (simp_all add: k_def)
      moreover have "\<not> sr > 63" using lt by (simp add: word_less_nat_alt)
      ultimately show ?thesis using False l k by (simp add: udivXi3_def umodXi3_def sr_def [symmetric] Let_def)
    qed
  qed
  then show "unat (udivXi3 n d) = unat n div unat d" "unat (umodXi3 n d) = unat n mod unat d" by simp_all
qed

declare mul_loop.simps [simp del]

subsection \<open>Halves, bit by bit\<close>

lemma bit_dword: "bit (dword h l) n \<longleftrightarrow> n < 64 \<and> (if n < 32 then bit l n else bit h (n - 32))"
  by (auto simp: dword_def bit_or_iff bit_push_bit_iff bit_ucast_iff dest: bit_imp_le_length)

lemma bit_halves: "bit (low_of w) n \<longleftrightarrow> n < 32 \<and> bit w n" "bit (high_of w) n \<longleftrightarrow> n < 32 \<and> bit w (32 + n)"
  by (simp_all add: low_of_def high_of_def bit_ucast_iff bit_drop_bit_eq)

lemma dword_eqI:
  assumes "\<And>n. n < 32 \<Longrightarrow> bit l n = bit w n" "\<And>n. n < 32 \<Longrightarrow> bit h n = bit w (n + 32)"
  shows "dword h l = w"
proof (rule bit_word_eqI)
  fix n assume "n < LENGTH(64)"
  then show "bit (dword h l) n = bit w n"
    using assms(1) [of n] assms(2) [of "n - 32"] by (auto simp: bit_dword not_less)
qed

lemma shift_in:
  "dword (push_bit 1 (high_of r) OR drop_bit 31 (low_of r)) (push_bit 1 (low_of r) OR drop_bit 31 (high_of q)) =
   push_bit 1 r OR drop_bit 63 q"
proof (rule dword_eqI)
  fix n :: nat assume n: "n < 32"
  have z: "31 + n < 32 \<longleftrightarrow> n = 0" "63 + n < 64 \<longleftrightarrow> n = 0" using n by auto
  show "bit (push_bit 1 (low_of r) OR drop_bit 31 (high_of q)) n = bit (push_bit 1 r OR drop_bit 63 q) n"
    using n z by (simp only: bit_or_iff bit_push_bit_iff bit_drop_bit_eq bit_halves o_def)
      (auto dest: bit_imp_le_length)
  show "bit (push_bit 1 (high_of r) OR drop_bit 31 (low_of r)) n = bit (push_bit 1 r OR drop_bit 63 q) (n + 32)"
    using n z by (simp only: bit_or_iff bit_push_bit_iff bit_drop_bit_eq bit_halves o_def)
      (auto dest: bit_imp_le_length simp: add.commute)
qed


lemma shift_in_carry:
  assumes "c AND 1 = c"
  shows "dword (push_bit 1 (high_of q) OR drop_bit 31 (low_of q)) (push_bit 1 (low_of q) OR ucast c) =
    push_bit 1 q OR c"
proof (rule dword_eqI)
  fix n :: nat assume n: "n < 32"
  have c: "bit c k \<longleftrightarrow> k = 0 \<and> bit c 0" for k
    using assms by (metis bit_and_iff bit_1_iff)
  have z: "31 + n < 32 \<longleftrightarrow> n = 0" using n by auto
  show "bit (push_bit 1 (low_of q) OR ucast c) n = bit (push_bit 1 q OR c) n"
    using n by (simp only: bit_or_iff bit_push_bit_iff bit_ucast_iff bit_halves) auto
  show "bit (push_bit 1 (high_of q) OR drop_bit 31 (low_of q)) n = bit (push_bit 1 q OR c) (n + 32)"
    using n z c [of "n + 32"] by (simp only: bit_or_iff bit_push_bit_iff bit_drop_bit_eq bit_halves o_def)
      (auto dest: bit_imp_le_length simp: add.commute)
qed

lemma split_shift:
  assumes "0 < k" "k < 32"
  shows "dword (push_bit (32 - k) (low_of n)) 0 = push_bit (64 - k) n"
    and "dword (drop_bit k (high_of n)) (push_bit (32 - k) (high_of n) OR drop_bit k (low_of n)) = drop_bit k n"
  using assms bit_imp_le_length [of n] by (fastforce intro!: dword_eqI
      simp: bit_or_iff bit_push_bit_iff bit_drop_bit_eq bit_halves o_def ac_simps)+

lemma split_shift_32: "dword (low_of n) 0 = push_bit 32 n" "dword 0 (high_of n) = drop_bit 32 n"
  using bit_imp_le_length [of n] by (fastforce intro!: dword_eqI
      simp: bit_push_bit_iff bit_drop_bit_eq bit_halves o_def ac_simps)+

lemma split_shift_high:
  assumes "32 < k" "k < 64"
  shows "dword (push_bit (64 - k) (high_of n) OR drop_bit (k - 32) (low_of n)) (push_bit (64 - k) (low_of n)) = push_bit (64 - k) n"
    and "dword 0 (drop_bit (k - 32) (high_of n)) = drop_bit k n"
  using assms bit_imp_le_length [of n] by (fastforce intro!: dword_eqI
      simp: bit_or_iff bit_push_bit_iff bit_drop_bit_eq bit_halves o_def ac_simps)+

lemma udivmod_loop_div_loop:
  assumes "c AND 1 = c" "div_loop k d r q c = (r', q', c')"
  shows "udivmod_loop k d r q (ucast c) = (r', q', ucast c') \<and> c' AND 1 = c'"
  using assms
proof (induction k arbitrary: r q c)
  case (Suc k)
  define r1 where "r1 = push_bit 1 r OR drop_bit 63 q"
  define q1 where "q1 = push_bit 1 q OR c"
  define s where "s = signed_drop_bit 63 (d - r1 - 1)"
  have "div_loop k d (r1 - (d AND s)) q1 (s AND 1) = (r', q', c')"
    using Suc.prems(2) by (simp only: div_loop.simps Let_def r1_def q1_def s_def)
  then have "udivmod_loop k d (r1 - (d AND s)) q1 (ucast (s AND 1)) = (r', q', ucast c') \<and> c' AND 1 = c'"
    by (intro Suc.IH) (simp_all add: and.assoc)
  then show ?case
    by (simp only: udivmod_loop.simps Let_def shift_in shift_in_carry [OF Suc.prems(1)] r1_def q1_def s_def)
qed simp

lemma udivmod_finish_correct:
  assumes d: "d \<noteq> 0" and k: "unat sr = Suc (bitlen (unat n) - bitlen (unat d))" "bitlen (unat d) \<le> bitlen (unat n)" "unat sr \<le> 64"
    and init: "r = drop_bit (unat sr) n" "q = push_bit (64 - unat sr) n"
  shows "unat (fst (udivmod_finish sr d r q)) = unat n div unat d"
    and "unat (snd (udivmod_finish sr d r q)) = unat n mod unat d"
proof -
  obtain r' q' c' where l: "div_loop (unat sr) d (drop_bit (unat sr) n) (push_bit (64 - unat sr) n) 0 = (r', q', c')"
    using prod_cases3 by blast
  have u: "udivmod_loop (unat sr) d r q 0 = (r', q', ucast c')" "c' AND 1 = c'"
    using udivmod_loop_div_loop [OF _ l] init by simp_all
  have "ucast (ucast c' :: u32) = c'"
    using u(2) by (metis and_one_eq unsigned_0 unsigned_1 of_bool_def odd_iff_mod_2_eq_one even_iff_mod_2_eq_zero bit_0 parity_cases)
  then show "unat (fst (udivmod_finish sr d r q)) = unat n div unat d"
    "unat (snd (udivmod_finish sr d r q)) = unat n mod unat d"
    using div_loop_correct [OF d k l] by (simp_all add: udivmod_finish_def u(1))
qed


lemma nat_power_of_two: "0 < n \<Longrightarrow> n AND (n - 1) = 0 \<Longrightarrow> \<exists>j. n = 2 ^ j" for n :: nat
proof (induction n rule: less_induct)
  case (less n)
  show ?case
  proof (cases "even n")
    case True
    then obtain m where m: "n = 2 * m" by (elim evenE)
    then have "0 < m" using less.prems by simp
    have "(n - 1) div 2 = m - 1" "odd (n - 1)" using \<open>0 < m\<close> m by auto
    then have "n AND (n - 1) = 2 * (m AND (m - 1))" using m by (subst and_rec) simp
    then have "\<exists>j. m = 2 ^ j" using less.prems \<open>0 < m\<close> m by (intro less.IH) simp_all
    then obtain j where "m = 2 ^ j" ..
    then have "n = 2 ^ Suc j" using m by simp
    then show ?thesis ..
  next
    case False
    then obtain m where m: "n = 2 * m + 1" by (elim oddE)
    have "n AND (n - 1) = 2 * m" using m by (subst and_rec) simp
    then have "n = 2 ^ 0" using less.prems m by simp
    then show ?thesis ..
  qed
qed

lemma unat_exp: "j < 32 \<Longrightarrow> unat (2 ^ j :: u32) = 2 ^ j"
proof -
  assume "j < 32"
  then have "(2 :: nat) ^ j < 2 ^ 32" by (intro power_strict_increasing) simp_all
  then have "unat (of_nat (2 ^ j) :: u32) = 2 ^ j" by (intro unat_of_nat_small) simp
  then show ?thesis by simp
qed

lemma ctz_step:
  fixes x :: u32
  assumes "x = 2 ^ j" "j < w + w" "j < 32" "m = mask w" "t = (if x AND m = 0 then w else 0)"
  shows "drop_bit t x = 2 ^ (j - t)" "j - t < w" "t \<le> j"
proof -
  have "x AND m = (if j < w then 2 ^ j else 0)"
  proof -
    have "x AND m = take_bit w x" by (simp add: assms(4) take_bit_eq_mask)
    moreover have "unat (take_bit w x) = 2 ^ j mod 2 ^ w"
      using assms(1,3) unat_exp [of j] by (simp only: unsigned_take_bit_eq) (simp add: take_bit_eq_mod)
    moreover have "(2 :: nat) ^ j mod 2 ^ w = (if j < w then 2 ^ j else 0)"
      by (auto simp: le_imp_power_dvd not_less mod_eq_0_iff_dvd)
    ultimately show ?thesis using assms(3) unat_exp [of j] by (auto simp: word_unat_eq_iff)
  qed
  moreover have "(2 :: u32) ^ j \<noteq> 0" using assms(3) unat_exp [of j] by auto
  ultimately have t: "t = (if j < w then 0 else w)" using assms(5) by auto
  then show "j - t < w" "t \<le> j" using assms(2) by auto
  then have "unat (drop_bit t x) = unat (2 ^ (j - t) :: u32)"
    using assms(1,3) by (simp add: unat_drop_bit unat_exp power_diff)
  then show "drop_bit t x = 2 ^ (j - t)" by (simp add: word_unat_eq_iff)
qed

lemma ctzsi2_exp:
  assumes "j < 32"
  shows "ctzsi2 (2 ^ j) = of_nat j"
proof -
  define x0 where "x0 = (2 ^ j :: u32)"
  define t1 where "t1 = (if x0 AND 0x0000FFFF = 0 then 16 else 0 :: nat)"
  define x1 where "x1 = drop_bit t1 x0"
  define t2 where "t2 = (if x1 AND 0x00FF = 0 then 8 else 0 :: nat)"
  define x2 where "x2 = drop_bit t2 x1"
  define t3 where "t3 = (if x2 AND 0x0F = 0 then 4 else 0 :: nat)"
  define x3 where "x3 = drop_bit t3 x2"
  define t4 where "t4 = (if x3 AND 0x3 = 0 then 2 else 0 :: nat)"
  define x4 where "x4 = drop_bit t4 x3"
  note 1 = ctz_step [OF x0_def _ assms _ t1_def, folded x1_def, unfolded mask_eq_exp_minus_1, simplified]
  note 2 = ctz_step [OF 1(1) _ _ _ t2_def, folded x2_def, unfolded mask_eq_exp_minus_1, simplified]
  note 3 = ctz_step [OF 2(1) _ _ _ t3_def, folded x3_def, unfolded mask_eq_exp_minus_1, simplified]
  note 4 = ctz_step [OF 3(1) _ _ _ t4_def, folded x4_def, unfolded mask_eq_exp_minus_1, simplified]
  have b1: "j - t1 < 16" "t1 \<le> j" "x1 = 2 ^ (j - t1)" using 1 assms by simp_all
  have b2: "j - t1 - t2 < 8" "t2 \<le> j - t1" "x2 = 2 ^ (j - t1 - t2)" using 2 b1 assms by simp_all
  have b3: "j - t1 - t2 - t3 < 4" "t3 \<le> j - t1 - t2" "x3 = 2 ^ (j - t1 - t2 - t3)" using 3 b1 b2 assms by simp_all
  have b4: "j - t1 - t2 - t3 - t4 < 2" "t4 \<le> j - t1 - t2 - t3" "x4 = 2 ^ (j - t1 - t2 - t3 - t4)" using 4 b1 b2 b3 assms by simp_all
  define i where "i = j - t1 - t2 - t3 - t4"
  have i: "i = 0 \<or> i = 1" "x4 = 2 ^ i" "t1 + t2 + t3 + t4 + i = j" using b1 b2 b3 b4 by (auto simp: i_def)
  have "ctzsi2 x0 = of_nat t1 + of_nat t2 + of_nat t3 + of_nat t4 + ((2 - drop_bit 1 (x4 AND 3)) AND - of_bool ((x4 AND 3) AND 1 = 0))"
    unfolding ctzsi2_def Let_def t1_def [symmetric] x1_def [symmetric] t2_def [symmetric] x2_def [symmetric]
      t3_def [symmetric] x3_def [symmetric] t4_def [symmetric] x4_def [symmetric] ..
  also have "\<dots> = of_nat t1 + of_nat t2 + of_nat t3 + of_nat t4 + of_nat i" using i(1,2) by auto
  also have "\<dots> = of_nat (t1 + t2 + t3 + t4 + i)" by simp
  finally show ?thesis by (simp only: x0_def i(3))
qed

lemma power_of_two:
  fixes x :: u32
  assumes "x \<noteq> 0" "x AND (x - 1) = 0"
  obtains j where "j < 32" "x = 2 ^ j" "unat x = 2 ^ j" "unat (ctzsi2 x) = j"
    "\<And>y. unat (y AND (x - 1)) = unat y mod 2 ^ j"
proof -
  have x1: "unat (x - 1) = unat x - 1" using assms(1) by (rule unat_minus_one)
  have "unat x AND (unat x - 1) = 0" using assms(2) by (metis unsigned_0 unsigned_and_eq x1)
  then obtain j where j: "unat x = 2 ^ j"
    using nat_power_of_two [of "unat x"] assms(1) by (auto simp: unat_gt_0)
  then have lt: "j < 32"
    using unsigned_less [of x, where ?'a = nat] power_strict_increasing_iff [of "2 :: nat" j 32] by simp
  then have p: "x = 2 ^ j" using j unat_exp by (simp add: word_unat_eq_iff)
  moreover have "unat (ctzsi2 x) = j" using ctzsi2_exp lt by (simp add: p)
  moreover have "unat (y AND (x - 1)) = unat y mod 2 ^ j" for y
  proof -
    have "unat (x - 1) = mask j" by (simp add: x1 j mask_eq_exp_minus_1)
    then show ?thesis by (simp add: unsigned_and_eq take_bit_eq_mod flip: take_bit_eq_mask)
  qed
  ultimately show thesis using that [OF lt] j by blast
qed


subsection \<open>Correctness of the unsigned division\<close>

lemma unat_split: "unat (w :: u64) = unat (high_of w) * 2 ^ 32 + unat (low_of w)"
  by (simp only: unat_high_of unat_low_of div_mult_mod_eq)

lemma bitlen_mult: "0 < h \<Longrightarrow> l < 2 ^ 32 \<Longrightarrow> bitlen (h * 2 ^ 32 + l) = bitlen h + 32"
  using bitlen_high [of "h * 2 ^ 32 + l"] by simp

lemma bitlen_u32: "bitlen (unat (n :: u32)) \<le> 32"
  using unsigned_less [of n, where ?'a = nat] by (simp add: bitlen_le_iff)

lemma bitlen_u32_pos: "(d :: u32) \<noteq> 0 \<Longrightarrow> 0 < bitlen (unat d)"
  by (subst bitlen_Suc) (simp_all add: unat_gt_0)

lemma bitlen_one: "bitlen (unat (d :: u32)) = 1 \<Longrightarrow> d = 1"
proof -
  assume "bitlen (unat d) = 1"
  then have "0 < unat d" "unat d < 2" using bitlen_le_iff [of "unat d" 1] less_bitlen_iff [of 0 "unat d"] by simp_all
  then have "unat d = 1" by linarith
  then show ?thesis by (simp add: word_unat_eq_iff)
qed

lemma bitlen_split: "high_of w \<noteq> 0 \<Longrightarrow> bitlen (unat w) = bitlen (unat (high_of w)) + 32"
  using bitlen_mult [of "unat (high_of w)" "unat (low_of w)"] unsigned_less [of "low_of w", where ?'a = nat]
  by (simp add: unat_split [of w] unat_gt_0)

lemma bitlen_low: "high_of w = 0 \<Longrightarrow> bitlen (unat w) = bitlen (unat (low_of w))"
  by (simp add: unat_split [of w])

abbreviation divides_ok :: "u64 \<times> u64 \<Rightarrow> u64 \<Rightarrow> u64 \<Rightarrow> bool" where
  "divides_ok r a b \<equiv> unat (fst r) = unat a div unat b \<and> unat (snd r) = unat a mod unat b"

lemma udivmod_low:
  assumes "high_of b \<noteq> 0" "high_of a \<noteq> 0" and sr: "sr = clzsi2 (high_of b) - clzsi2 (high_of a)"
  shows "\<not> bitlen (unat b) \<le> bitlen (unat a) \<Longrightarrow> 32 < unat sr"
    and "bitlen (unat b) \<le> bitlen (unat a) \<Longrightarrow> unat sr = bitlen (unat a) - bitlen (unat b) \<and> unat sr \<le> 31"
proof -
  note b = bitlen_split [OF assms(1)] bitlen_split [OF assms(2)] bitlen_u32 [of "high_of a"] bitlen_u32 [of "high_of b"]
    bitlen_u32_pos [OF assms(1)] bitlen_u32_pos [OF assms(2)]
  show "\<not> bitlen (unat b) \<le> bitlen (unat a) \<Longrightarrow> 32 < unat sr"
    "bitlen (unat b) \<le> bitlen (unat a) \<Longrightarrow> unat sr = bitlen (unat a) - bitlen (unat b) \<and> unat sr \<le> 31"
    unfolding sr using b by (auto simp: unat_sub_if' word_le_nat_alt clzsi2_bitlen)
qed

lemma div_pow2_dword:
  assumes "0 < j" "j < 32"
  shows "unat (dword (drop_bit j (high_of a)) (push_bit (32 - j) (high_of a) OR drop_bit j (low_of a))) = unat a div 2 ^ j"
  by (simp only: split_shift(2) [OF assms] unat_drop_bit)

text \<open>The initialisation of quotient and remainder, with the branches for the shift count that the code repeats.\<close>

definition udivmod_general :: "u32 \<Rightarrow> u64 \<Rightarrow> u64 \<Rightarrow> u64 \<times> u64" where
  "udivmod_general sr b a =
     (if sr = 32 then udivmod_finish sr b (dword 0 (high_of a)) (dword (low_of a) 0)
      else
        udivmod_finish sr b
          (dword (drop_bit (unat sr) (high_of a))
             (push_bit (unat (32 - sr)) (high_of a) OR drop_bit (unat sr) (low_of a)))
          (dword (push_bit (unat (32 - sr)) (low_of a)) 0))"

lemma udivmod_general_correct:
  assumes "b \<noteq> 0" "unat sr = Suc (bitlen (unat a) - bitlen (unat b))" "bitlen (unat b) \<le> bitlen (unat a)" "unat sr \<le> 32"
  shows "divides_ok (udivmod_general sr b a) a b"
proof (cases "sr = 32")
  case True
  then show ?thesis
    using udivmod_finish_correct [OF assms(1-3), of "dword 0 (high_of a)" "dword (low_of a) 0"] split_shift_32
    by (simp add: udivmod_general_def)
next
  case False
  then have "unat sr \<noteq> 32" by (auto simp: word_unat_eq_iff)
  then have k: "0 < unat sr" "unat sr < 32" using assms by simp_all
  have "unat (32 - sr) = 32 - unat sr" using k by (subst unat_diff) (simp_all add: word_le_nat_alt)
  then show ?thesis
    using udivmod_finish_correct [OF assms(1-3) _ split_shift(2) [OF k] split_shift(1) [OF k]] k False
    by (simp add: udivmod_general_def)
qed

lemma div_mod_block:
  fixes h d l :: nat
  assumes "l < 2 ^ 32" "0 < d"
  shows "(h * 2 ^ 32 + l) div (d * 2 ^ 32) = h div d" "(h * 2 ^ 32 + l) mod (d * 2 ^ 32) = (h mod d) * 2 ^ 32 + l"
proof -
  have "(h * 2 ^ 32 + l) div (d * 2 ^ 32) = (h * 2 ^ 32 + l) div 2 ^ 32 div d"
    by (simp only: mult.commute [of d] div_mult2_eq)
  then show "(h * 2 ^ 32 + l) div (d * 2 ^ 32) = h div d" using assms(1) by simp
  have "(h * 2 ^ 32 + l) mod (2 ^ 32 * d) = 2 ^ 32 * ((h * 2 ^ 32 + l) div 2 ^ 32 mod d) + (h * 2 ^ 32 + l) mod 2 ^ 32"
    by (rule mod_mult2_eq)
  then show "(h * 2 ^ 32 + l) mod (d * 2 ^ 32) = (h mod d) * 2 ^ 32 + l" using assms(1) by (simp add: mult.commute)
qed

lemma udivmoddi4_high_zero:
  assumes "high_of a = 0" "b \<noteq> 0"
  shows "divides_ok (udivmoddi4 a b) a b"
proof (cases "high_of b = 0")
  case True
  then show ?thesis using assms
    by (simp add: udivmoddi4_def Let_def unat_split [of a] unat_split [of b] unat_ucast_up unat_div unat_mod)
next
  case False
  then have "1 \<le> unat (high_of b)" by (simp add: Suc_le_eq unat_gt_0)
  then have "2 ^ 32 \<le> unat b" unfolding unat_split [of b] by simp
  moreover have "unat a < 2 ^ 32" using assms(1) unsigned_less [of "low_of a", where ?'a = nat] by (simp add: unat_split [of a])
  ultimately show ?thesis using assms(1) False by (simp add: udivmoddi4_def unat_ucast_up unat_split [of a])
qed

lemma udivmoddi4_low_zero:
  assumes "high_of a \<noteq> 0" "low_of b = 0" "b \<noteq> 0"
  shows "divides_ok (udivmoddi4 a b) a b"
proof -
  have bh: "high_of b \<noteq> 0" using assms(2,3) dword_halves [of b] by (auto simp: dword_def)
  have ub: "unat b = unat (high_of b) * 2 ^ 32" using assms(2) by (simp add: unat_split [of b])
  have dv: "unat a div unat b = unat (high_of a) div unat (high_of b)"
    "unat a mod unat b = (unat (high_of a) mod unat (high_of b)) * 2 ^ 32 + unat (low_of a)"
    using div_mod_block [of "unat (low_of a)" "unat (high_of b)" "unat (high_of a)"]
      unsigned_less [of "low_of a", where ?'a = nat] bh
    by (simp_all add: ub unat_split [of a] unat_gt_0)
  consider "low_of a = 0" | "low_of a \<noteq> 0" "high_of b AND (high_of b - 1) = 0"
    | "low_of a \<noteq> 0" "high_of b AND (high_of b - 1) \<noteq> 0" by blast
  then show ?thesis
  proof cases
    case 1
    then show ?thesis using assms bh dv
      by (simp add: udivmoddi4_def Let_def unat_dword unat_ucast_up unat_div unat_mod)
  next
    case 2
    obtain j where "unat (high_of b) = 2 ^ j" "unat (ctzsi2 (high_of b)) = j"
        "\<And>y. unat (y AND (high_of b - 1)) = unat y mod 2 ^ j"
      using power_of_two [OF bh 2(2)] by metis
    then show ?thesis using assms bh dv 2
      by (simp add: udivmoddi4_def Let_def unat_dword unat_ucast_up unat_drop_bit)
  next
    case 3
    define sr where "sr = clzsi2 (high_of b) - clzsi2 (high_of a)"
    note sr = udivmod_low [OF bh assms(1) sr_def]
    have "sr = 31" if "sr + 1 = 32" using that by (simp add: eq_diff_eq [symmetric])
    then have def: "udivmoddi4 a b = (if sr > 30 then (0, a) else udivmod_general (sr + 1) b a)"
      using assms bh 3 by (auto simp: udivmoddi4_def Let_def sr_def [symmetric] udivmod_general_def)
    show ?thesis
    proof (cases "bitlen (unat b) \<le> bitlen (unat a)")
      case False
      then have "unat a < unat b" using bitlen_less [of "unat a" "unat b"] by linarith
      then show ?thesis using sr(1) [OF False] by (simp add: def word_less_nat_alt)
    next
      case True
      note u = sr(2) [OF True]
      have "unat sr \<noteq> 31"
      proof
        assume "unat sr = 31"
        then have "bitlen (unat (high_of b)) = 1"
          using u bitlen_split [OF bh] bitlen_split [OF assms(1)] bitlen_u32 [of "high_of a"] bitlen_u32_pos [OF bh] by simp
        then have "high_of b = 1" by (rule bitlen_one)
        with 3(2) show False by simp
      qed
      then have u30: "unat sr \<le> 30" using u by simp
      have s1: "unat (sr + 1) = Suc (unat sr)" using u by (subst unat_add_small) simp_all
      have "\<not> sr > 30" using u30 by (simp add: word_less_nat_alt)
      then show ?thesis
        using udivmod_general_correct [OF assms(3) _ True, of "sr + 1"] u s1 by (simp add: def)
    qed
  qed
qed

lemma udivmoddi4_word:
  assumes "high_of a \<noteq> 0" "high_of b = 0" "low_of b \<noteq> 0"
  shows "divides_ok (udivmoddi4 a b) a b"
proof -
  have ub: "unat b = unat (low_of b)" and b0: "b \<noteq> 0" using assms(2,3) by (auto simp: unat_split [of b] low_of_def)
  consider "low_of b = 1" | "low_of b \<noteq> 1" "low_of b AND (low_of b - 1) = 0"
    | "low_of b AND (low_of b - 1) \<noteq> 0" by blast
  then show ?thesis
  proof cases
    case 1
    then show ?thesis using assms by (simp add: udivmoddi4_def ub)
  next
    case 2
    obtain j where j: "j < 32" "unat (low_of b) = 2 ^ j" "unat (ctzsi2 (low_of b)) = j"
        "\<And>y. unat (y AND (low_of b - 1)) = unat y mod 2 ^ j"
      using power_of_two [OF assms(3) 2(2)] by metis
    have "0 < j" using 2(1) j(2) by (cases j) (auto simp: word_unat_eq_iff)
    have "unat (32 - ctzsi2 (low_of b)) = 32 - j" using j by (subst unat_diff) (simp_all add: word_le_nat_alt)
    moreover have "unat (low_of a) mod 2 ^ j = unat a mod 2 ^ j"
      using j(1) mod_mod_cancel [of "2 ^ j" "2 ^ 32" "unat a"] by (simp add: unat_low_of le_imp_power_dvd del: power_numeral)
    ultimately show ?thesis using assms 2 j div_pow2_dword [OF \<open>0 < j\<close> j(1), of a]
      by (simp add: udivmoddi4_def Let_def unat_ucast_up ub)
  next
    case 3
    define sr where "sr = 1 + 32 + clzsi2 (low_of b) - clzsi2 (high_of a)"
    note bl = bitlen_split [OF assms(1)] bitlen_low [OF assms(2)] bitlen_u32 [of "high_of a"] bitlen_u32 [of "low_of b"]
      bitlen_u32_pos [OF assms(1)] bitlen_u32_pos [OF assms(3)]
    have le: "bitlen (unat b) \<le> bitlen (unat a)" using bl by simp
    have "unat (33 + clzsi2 (low_of b)) = 33 + (32 - bitlen (unat (low_of b)))"
      by (subst unat_add_small) (simp_all add: clzsi2_bitlen)
    then have sr: "unat sr = Suc (bitlen (unat a) - bitlen (unat b))"
      unfolding sr_def using bl by (auto simp: unat_sub_if' word_le_nat_alt clzsi2_bitlen)
    have "bitlen (unat (low_of b)) \<noteq> 1"
    proof
      assume "bitlen (unat (low_of b)) = 1"
      then have "low_of b = 1" by (rule bitlen_one)
      with 3 show False by simp
    qed
    then have s63: "unat sr \<le> 63" using sr bl by simp
    have def: "udivmoddi4 a b = (if sr \<le> 32 then udivmod_general sr b a else
        udivmod_finish sr b (dword 0 (drop_bit (unat (sr - 32)) (high_of a)))
          (dword (push_bit (unat (64 - sr)) (high_of a) OR drop_bit (unat (sr - 32)) (low_of a)) (push_bit (unat (64 - sr)) (low_of a))))"
      unfolding udivmoddi4_def Let_def sr_def [symmetric] using assms 3 by (simp add: udivmod_general_def)
    show ?thesis
    proof (cases "unat sr \<le> 32")
      case True
      then have "udivmoddi4 a b = udivmod_general sr b a" by (simp add: def word_le_nat_alt)
      then show ?thesis using udivmod_general_correct [OF b0 sr le True] by simp
    next
      case False
      have k: "unat (64 - sr) = 64 - unat sr" "unat (sr - 32) = unat sr - 32"
        using s63 False by (simp_all add: unat_diff word_le_nat_alt)
      have "udivmoddi4 a b = udivmod_finish sr b (dword 0 (drop_bit (unat sr - 32) (high_of a)))
          (dword (push_bit (64 - unat sr) (high_of a) OR drop_bit (unat sr - 32) (low_of a)) (push_bit (64 - unat sr) (low_of a)))"
        using False k by (simp add: def word_le_nat_alt)
      then show ?thesis
        using udivmod_finish_correct [OF b0 sr le _ split_shift_high(2) split_shift_high(1)] s63 False by simp
    qed
  qed
qed

lemma udivmoddi4_full:
  assumes "high_of a \<noteq> 0" "high_of b \<noteq> 0" "low_of b \<noteq> 0"
  shows "divides_ok (udivmoddi4 a b) a b"
proof -
  define sr where "sr = clzsi2 (high_of b) - clzsi2 (high_of a)"
  note sr = udivmod_low [OF assms(2,1) sr_def]
  have b0: "b \<noteq> 0" using assms(3) by (auto simp: low_of_def)
  have def: "udivmoddi4 a b = (if sr > 31 then (0, a) else udivmod_general (sr + 1) b a)"
    using assms by (simp add: udivmoddi4_def Let_def sr_def udivmod_general_def)
  show ?thesis
  proof (cases "bitlen (unat b) \<le> bitlen (unat a)")
    case False
    then have "unat a < unat b" using bitlen_less [of "unat a" "unat b"] by linarith
    then show ?thesis using sr(1) [OF False] by (simp add: def word_less_nat_alt)
  next
    case True
    note u = sr(2) [OF True]
    have s1: "unat (sr + 1) = Suc (unat sr)" using u by (subst unat_add_small) simp_all
    have "\<not> sr > 31" using u by (simp add: word_less_nat_alt)
    then show ?thesis
      using udivmod_general_correct [OF b0 _ True, of "sr + 1"] u s1 by (simp add: def)
  qed
qed

lemma udivmoddi4_correct:
  assumes "b \<noteq> 0"
  shows "unat (fst (udivmoddi4 a b)) = unat a div unat b" "unat (snd (udivmoddi4 a b)) = unat a mod unat b"
  using udivmoddi4_high_zero [of a b] udivmoddi4_low_zero [of a b] udivmoddi4_word [of a b]
    udivmoddi4_full [of a b] assms by blast+


subsection \<open>Signed division over any correct unsigned division\<close>

locale unsigned_division =
  fixes udivmod :: "u64 \<Rightarrow> u64 \<Rightarrow> u64 \<times> u64"
  assumes quotient: "b \<noteq> 0 \<Longrightarrow> unat (fst (udivmod a b)) = unat a div unat b"
    and remainder: "b \<noteq> 0 \<Longrightarrow> unat (snd (udivmod a b)) = unat a mod unat b"

definition sgn_mask :: "u64 \<Rightarrow> u64" where
  "sgn_mask a = signed_drop_bit 63 a"

definition cneg :: "u64 \<Rightarrow> u64 \<Rightarrow> u64" where
  "cneg x s = (x XOR s) - s"

lemma le_unat_iff: "numeral k \<le> unat (a :: 'a::len word) \<longleftrightarrow> numeral k \<le> uint a"
  using of_nat_le_iff [of "numeral k" "unat a", where ?'a = int] by simp

lemma sint_u64: "sint (a :: u64) = (if 2 ^ 63 \<le> uint a then uint a - 2 ^ 64 else uint a)"
proof -
  have "sint a = take_bit 64 (uint a) - 2 ^ 64 * of_bool (bit (uint a) 63)"
    using signed_take_bit_eq_take_bit_minus [of 63 "uint a"] by (simp only: sint_uint) simp
  moreover have "bit (uint a) 63 \<longleftrightarrow> 2 ^ 63 \<le> uint a"
    using bit_63_iff [of a] le_unat_iff [of _ a] by (simp add: bit_unsigned_iff)
  moreover have "take_bit 64 (uint a) = uint a" by (rule take_bit_int_eq_self) (use unsigned_less [of a, where ?'a = int] in simp_all)
  ultimately show ?thesis by simp
qed

lemma sgn_mask_eq: "sgn_mask a = (if sint a < 0 then - 1 else 0)"
  using unsigned_less [of a, where ?'a = int] le_unat_iff [of _ a]
  by (simp add: sgn_mask_def signed_drop_63 sint_u64)

lemma cneg_simps [simp]: "cneg x 0 = x" "cneg x (- 1) = - x"
  by (simp_all add: cneg_def not_eq_complement)

lemma uint_neg: "x \<noteq> 0 \<Longrightarrow> uint (- x :: u64) = 2 ^ 64 - uint x"
proof -
  assume "x \<noteq> 0"
  then have "uint x \<noteq> 0" by (simp add: uint_0_iff)
  moreover have "uint x mod 2 ^ 64 = uint x" using unsigned_less [of x, where ?'a = int] by simp
  moreover have "uint (- x) = (- uint x) mod 2 ^ 64" by (simp only: uint_word_ariths) simp
  ultimately show ?thesis by (simp add: zmod_zminus1_eq_if)
qed

lemma uint_magnitude: "uint (cneg a (sgn_mask a)) = \<bar>sint a\<bar>"
proof (cases "sint a < 0")
  case True
  then have "2 ^ 63 \<le> uint a" using sint_u64 [of a] by (auto split: if_splits)
  moreover from this have "a \<noteq> 0" by auto
  ultimately show ?thesis using True unsigned_less [of a, where ?'a = int]
    by (simp add: sgn_mask_eq uint_neg sint_u64)
next
  case False
  then show ?thesis using unsigned_less [of a, where ?'a = int] by (simp add: sgn_mask_eq sint_u64 split: if_splits)
qed

lemma magnitude_nonzero: "b \<noteq> 0 \<Longrightarrow> cneg b (sgn_mask b) \<noteq> 0"
  by (simp add: sgn_mask_eq)

lemma sint_magnitude: "uint x < 2 ^ 63 \<Longrightarrow> sint (x :: u64) = uint x"
  by (simp add: sint_u64)

lemma sint_neg_magnitude: "uint x \<le> 2 ^ 63 \<Longrightarrow> sint (- x :: u64) = - uint x"
proof (cases "x = 0")
  case False
  assume "uint x \<le> 2 ^ 63"
  moreover have "uint x \<noteq> 0" "0 \<le> uint x" using False by (simp_all add: uint_0_iff)
  ultimately show ?thesis using uint_neg [OF False] by (simp add: sint_u64)
qed simp

lemma signed_zero_iff: "sint (b :: u64) = 0 \<longleftrightarrow> b = 0"
  by (metis sint_0 signed_word_eqI)

context unsigned_division
begin

lemma uint_quotient:
  "b \<noteq> 0 \<Longrightarrow> uint (fst (udivmod (cneg a (sgn_mask a)) (cneg b (sgn_mask b)))) = \<bar>sint a\<bar> div \<bar>sint b\<bar>"
  using quotient [OF magnitude_nonzero, of b "cneg a (sgn_mask a)"] uint_magnitude [of a] uint_magnitude [of b]
  by (metis uint_nat zdiv_int)

lemma uint_remainder:
  "b \<noteq> 0 \<Longrightarrow> uint (snd (udivmod (cneg a (sgn_mask a)) (cneg b (sgn_mask b)))) = \<bar>sint a\<bar> mod \<bar>sint b\<bar>"
  using remainder [OF magnitude_nonzero, of b "cneg a (sgn_mask a)"] uint_magnitude [of a] uint_magnitude [of b]
  by (metis uint_nat zmod_int)

lemma signed_quotient:
  assumes b: "b \<noteq> 0" and no: "\<not> (sint a = - (2 ^ 63) \<and> sint b = - 1)"
  shows "sint (cneg (fst (udivmod (cneg a (sgn_mask a)) (cneg b (sgn_mask b)))) (sgn_mask a XOR sgn_mask b)) = sint a sdiv sint b"
proof -
  define q where "q = fst (udivmod (cneg a (sgn_mask a)) (cneg b (sgn_mask b)))"
  have iq: "uint q = \<bar>sint a\<bar> div \<bar>sint b\<bar>" unfolding q_def by (rule uint_quotient [OF b])
  have a63: "\<bar>sint a\<bar> \<le> 2 ^ 63" using sint_ge [of a] sint_lt [of a] by simp
  have b0: "sint b \<noteq> 0" using b by (simp add: signed_zero_iff)
  have dv: "\<bar>sint a\<bar> div \<bar>sint b\<bar> \<le> \<bar>sint a\<bar>" using b0 zdiv_mono2 [of "\<bar>sint a\<bar>" 1 "\<bar>sint b\<bar>"] by simp
  have q63: "uint q \<le> 2 ^ 63" unfolding iq using a63 dv by linarith
  consider "sint a < 0" "\<not> sint b < 0" | "\<not> sint a < 0" "sint b < 0" | "sint a < 0" "sint b < 0" | "\<not> sint a < 0" "\<not> sint b < 0" by blast
  then have "sint (cneg q (sgn_mask a XOR sgn_mask b)) = sint a sdiv sint b"
  proof cases
    case 1
    then show ?thesis using sint_neg_magnitude [OF q63] iq b0
      by (simp add: sgn_mask_eq signed_divide_int_def)
  next
    case 2
    then show ?thesis using sint_neg_magnitude [OF q63] iq b0
      by (cases "sint a = 0") (simp_all add: sgn_mask_eq signed_divide_int_def)
  next
    case 3
    have "uint q < 2 ^ 63"
    proof (cases "sint b = - 1")
      case True
      then have "\<bar>sint a\<bar> < 2 ^ 63" using no a63 3 by auto
      then show ?thesis unfolding iq using dv by linarith
    next
      case False
      then have "\<bar>sint a\<bar> div \<bar>sint b\<bar> \<le> \<bar>sint a\<bar> div 2" using 3 by (intro zdiv_mono2) auto
      then show ?thesis unfolding iq using a63 by simp
    qed
    with 3 show ?thesis using sint_magnitude iq b0 by (simp add: sgn_mask_eq signed_divide_int_def)
  next
    case 4
    have "\<bar>sint a\<bar> < 2 ^ 63" using 4 sint_lt [of a] by simp
    then have "uint q < 2 ^ 63" unfolding iq using dv by linarith
    with 4 show ?thesis using sint_magnitude iq b0
      by (cases "sint a = 0") (simp_all add: sgn_mask_eq signed_divide_int_def)
  qed
  then show ?thesis by (simp add: q_def)
qed

lemma signed_remainder:
  assumes b: "b \<noteq> 0"
  shows "sint (cneg (snd (udivmod (cneg a (sgn_mask a)) (cneg b (sgn_mask b)))) (sgn_mask a)) = sint a smod sint b"
proof -
  define r where "r = snd (udivmod (cneg a (sgn_mask a)) (cneg b (sgn_mask b)))"
  have ir: "uint r = \<bar>sint a\<bar> mod \<bar>sint b\<bar>" unfolding r_def by (rule uint_remainder [OF b])
  have b0: "sint b \<noteq> 0" using b by (simp add: signed_zero_iff)
  have "\<bar>sint a\<bar> mod \<bar>sint b\<bar> < \<bar>sint b\<bar>" using b0 by (intro pos_mod_bound) simp
  moreover have "\<bar>sint b\<bar> \<le> 2 ^ 63" using sint_ge [of b] sint_lt [of b] by simp
  ultimately have "uint r < 2 ^ 63" using ir by linarith
  then have "sint (cneg r (sgn_mask a)) = sint a smod sint b"
    using sint_magnitude [of r] sint_neg_magnitude [of r] ir
    by (cases "sint a < 0"; cases "sint a = 0") (simp_all add: sgn_mask_eq signed_modulo_int_def)
  then show ?thesis by (simp add: r_def)
qed

end

interpretation udivmod: unsigned_division udivmoddi4
  by unfold_locales (simp_all add: udivmoddi4_correct)

interpretation udivX: unsigned_division "\<lambda>a b. (udivdi3 a b, umoddi3 a b)"
  by unfold_locales (simp_all add: udivdi3_def umoddi3_def udivmodXi3_correct)


subsection \<open>Shift and multiplication are exact\<close>

lemma ashldi3_push_bit:
  assumes "unat b < 64"
  shows "ashldi3 u b = push_bit (unat b) u"
proof -
  have "uint b < 64" using assms of_nat_less_iff [of "unat b" 64, where ?'a = int] by simp
  then have "sint b = uint b" by (intro sint_small) simp
  moreover have "- uint b < 2147483616" using uint_ge_0 [of b] by linarith
  ultimately have "sint (32 - b) = 32 - uint b"
    using sint_u32_diff [of 32 b] \<open>uint b < 64\<close> by simp
  then have sb: "sint (32 - b) \<le> 0 \<longleftrightarrow> 32 \<le> unat b" using le_unat_iff [of _ b] by simp
  consider "b = 0" | "b \<noteq> 0" "unat b < 32" | "32 \<le> unat b" by linarith
  then show ?thesis
  proof cases
    case 1
    then show ?thesis by (simp add: ashldi3_def)
  next
    case 2
    then have k: "0 < unat b" "unat (32 - b) = 32 - unat b"
      by (simp_all add: unat_gt_0 unat_diff word_le_nat_alt)
    have "dword (push_bit (unat b) (high_of u) OR drop_bit (32 - unat b) (low_of u)) (push_bit (unat b) (low_of u)) = push_bit (unat b) u"
      using k(1) 2(2) bit_imp_le_length [of u] by (fastforce intro!: dword_eqI
        simp: bit_or_iff bit_push_bit_iff bit_drop_bit_eq bit_halves o_def ac_simps)
    then show ?thesis using 2 sb k by (simp add: ashldi3_def Let_def)
  next
    case 3
    then have k: "unat (- (32 - b)) = unat b - 32" by (simp add: unat_diff word_le_nat_alt)
    have "dword (push_bit (unat b - 32) (low_of u)) 0 = push_bit (unat b) u"
      using 3 assms by (fastforce intro!: dword_eqI simp: bit_push_bit_iff bit_halves ac_simps)
    then show ?thesis using 3 sb k by (auto simp: ashldi3_def Let_def)
  qed
qed

lemma dword_add: "dword h w + dword t u = dword (of_bool (w + u < w) + (t + h)) (w + u)"
proof -
  define c :: nat where "c = of_bool (w + u < w)"
  have c: "unat (of_bool (w + u < w) :: u32) = c" by (simp add: c_def)
  have wu: "unat w + unat u = c * 2 ^ 32 + unat (w + u)"
    using unsigned_less [of w, where ?'a = nat] unsigned_less [of u, where ?'a = nat]
    by (auto simp: c_def word_less_nat_alt unat_word_ariths mod_if)
  let ?x = "c + unat t + unat h"
  have "unat (of_bool (w + u < w) + (t + h) :: u32) = ?x mod 2 ^ 32"
    by (simp add: unat_word_ariths c mod_simps add.assoc)
  then have "unat (dword (of_bool (w + u < w) + (t + h)) (w + u)) = (?x mod 2 ^ 32) * 2 ^ 32 + unat (w + u)"
    by (simp only: unat_dword)
  also have "\<dots> = (?x * 2 ^ 32 + unat (w + u)) mod (2 ^ 32 * 2 ^ 32)"
    using div_mod_block(2) [of "unat (w + u)" "2 ^ 32" ?x] unsigned_less [of "w + u", where ?'a = nat] by simp
  also have "?x * 2 ^ 32 + unat (w + u) = (unat h * 2 ^ 32 + unat w) + (unat t * 2 ^ 32 + unat u)"
    using wu by (simp add: algebra_simps)
  also have "\<dots> mod (2 ^ 32 * 2 ^ 32) = unat (dword h w + dword t u)"
    by (simp add: unat_word_ariths unat_dword)
  finally show ?thesis by (simp add: word_unat_eq_iff)
qed

lemma dword_double: "dword (drop_bit 31 u OR push_bit 1 t) (push_bit 1 u) = 2 * dword t u"
proof -
  have "dword (drop_bit 31 u OR push_bit 1 t) (push_bit 1 u) = push_bit 1 (dword t u)"
  proof (rule dword_eqI)
    fix n :: nat assume n: "n < 32"
    have z: "31 + n < 32 \<longleftrightarrow> n = 0" using n by auto
    show "bit (push_bit 1 u) n = bit (push_bit 1 (dword t u)) n"
      using n by (simp only: bit_push_bit_iff bit_dword) auto
    show "bit (drop_bit 31 u OR push_bit 1 t) n = bit (push_bit 1 (dword t u)) (n + 32)"
      using n z bit_imp_le_length [of u "31 + n"] by (simp only: bit_or_iff bit_drop_bit_eq bit_push_bit_iff bit_dword o_def) auto
  qed
  then show ?thesis by (simp add: push_bit_eq_mult mult.commute)
qed

lemma ucast_halve: "(ucast v :: u64) = 2 * ucast (drop_bit 1 v) + of_bool (v AND 1 \<noteq> 0)" for v :: u32
proof -
  have "bit v 0 \<longleftrightarrow> bit (unat v) 0" by (simp only: bit_unsigned_iff) simp
  moreover have "unat v mod 2 = of_bool (bit (unat v) 0)" by (simp only: bit_0 mod_2_eq_odd)
  moreover have "v AND 1 \<noteq> 0 \<longleftrightarrow> bit v 0" by (simp only: bit_0 and_one_eq mod_2_eq_odd) simp
  ultimately have m: "unat v mod 2 = of_bool (v AND 1 \<noteq> 0)" by (simp only:)
  have "unat v = 2 * unat (drop_bit 1 v) + of_bool (v AND 1 \<noteq> 0)"
    using mult_div_mod_eq [of 2 "unat v"] by (simp only: unat_drop_bit m power_one_right)
  then have "(of_nat (unat v) :: u64) = of_nat (2 * unat (drop_bit 1 v) + of_bool (v AND 1 \<noteq> 0))" by (rule arg_cong)
  then show ?thesis by (simp only: of_nat_add of_nat_mult of_nat_unat of_nat_of_bool of_nat_numeral)
qed

lemma mul_loop_product:
  "mul_loop u v w h t = (w', h') \<Longrightarrow> dword h' w' = dword h w + dword t u * ucast v"
proof (induction "unat v" arbitrary: u v w h t rule: less_induct)
  case less
  define W where "W = (if v AND 1 \<noteq> 0 then (w + u, of_bool (w + u < w) + (t + h)) else (w, h))"
  have W: "dword (snd W) (fst W) = dword h w + of_bool (v AND 1 \<noteq> 0) * dword t u"
    by (auto simp: W_def dword_add)
  let ?v = "drop_bit 1 v" and ?u = "push_bit 1 u" and ?t = "drop_bit 31 u OR push_bit 1 t"
  have step: "mul_loop u v w h t = (if ?v \<noteq> 0 then mul_loop ?u ?v (fst W) (snd W) ?t else W)"
    by (subst mul_loop.simps) (simp only: Let_def W_def [symmetric] split_beta prod.collapse)
  show ?case
  proof (cases "?v = 0")
    case True
    then have "W = (w', h')" using less.prems step by simp
    then show ?thesis using W ucast_halve [of v] True by (simp add: mult.commute)
  next
    case False
    have "0 < unat v" using False by (cases "v = 0") (simp_all add: unat_gt_0)
    then have "unat ?v < unat v" by (simp only: unat_drop_bit) simp
    moreover have "mul_loop ?u ?v (fst W) (snd W) ?t = (w', h')" using False less.prems step by simp
    ultimately have "dword h' w' = dword (snd W) (fst W) + dword ?t ?u * ucast ?v" by (rule less.hyps)
    then show ?thesis unfolding W dword_double using ucast_halve [of v] by (simp add: algebra_simps)
  qed
qed

lemma dword_high_product: "dword (a * b) 0 = push_bit 32 (ucast a * ucast b)"
proof -
  have "unat (dword (a * b) 0) = (unat a * unat b mod 2 ^ 32) * 2 ^ 32"
    by (simp add: unat_dword unat_word_ariths)
  also have "\<dots> = (unat a * unat b * 2 ^ 32) mod (2 ^ 32 * 2 ^ 32)" by (rule mod_mult_mult2 [symmetric])
  also have "\<dots> = unat (push_bit 32 (ucast a * ucast b :: u64))"
    by (simp only: unsigned_push_bit_eq)
      (simp add: push_bit_eq_mult take_bit_eq_mod unat_word_ariths unat_ucast_up mod_simps)
  finally show ?thesis by (simp add: word_unat_eq_iff)
qed

lemma dword_add_high: "dword (h + x) l = dword h l + dword x 0"
  by (simp add: dword_add add.commute)

lemma dword_as_sum: "dword h l = push_bit 32 (ucast h) + ucast l"
proof -
  have "push_bit 32 (ucast h :: u64) AND ucast l = 0"
    by (rule bit_word_eqI) (auto simp: bit_and_iff bit_push_bit_iff bit_ucast_iff dest: bit_imp_le_length)
  then show ?thesis unfolding dword_def by (metis disjunctive_add_eq_or)
qed

lemma muldi3_mult: "muldi3 u v = u * v"
proof -
  obtain w h where l: "mul_loop (low_of u) (low_of v) 0 0 0 = (w, h)" by fastforce
  let ?ul = "ucast (low_of u) :: u64" and ?uh = "ucast (high_of u) :: u64"
    and ?vl = "ucast (low_of v) :: u64" and ?vh = "ucast (high_of v) :: u64"
  have low: "dword h w = ?ul * ?vl"
    using mul_loop_product [OF l] by (simp add: dword_def)
  have "muldi3 u v = dword (h + low_of v * high_of u + low_of u * high_of v) w"
    by (auto simp: muldi3_def l)
  also have "\<dots> = ?ul * ?vl + push_bit 32 (?vl * ?uh) + push_bit 32 (?ul * ?vh)"
    by (simp only: dword_add_high low dword_high_product)
  also have "\<dots> = (push_bit 32 ?uh + ?ul) * (push_bit 32 ?vh + ?vl)"
  proof -
    have "push_bit 32 ?uh * push_bit 32 ?vh = ?uh * ?vh * 2 ^ LENGTH(64)"
      by (simp only: push_bit_eq_mult) (simp add: ac_simps)
    then have "push_bit 32 ?uh * push_bit 32 ?vh = 0" by (simp only: word_exp_length_eq_0 mult_zero_right)
    then show ?thesis by (simp only: distrib_left distrib_right) (simp add: push_bit_eq_mult ac_simps)
  qed
  also have "\<dots> = u * v" by (simp only: dword_as_sum [symmetric] dword_halves)
  finally show ?thesis .
qed


subsection \<open>Properties\<close>

text \<open>
  C37: \<open>__udivmoddi4\<close> returns the quotient and stores the remainder of its unsigned operands, on all
  of its special cases and in the shift-subtract loop on 32-bit halves.
\<close>
theorem udivmoddi4_divides:
  assumes "b \<noteq> 0"
  shows "udivmoddi4 a b = (a div b, a mod b)"
  using udivmoddi4_correct [OF assms, of a]
  by (simp add: prod_eq_iff word_unat_eq_iff unat_div unat_mod)

theorem udivmoddi4_divides_witness:
  "udivmoddi4 0x123456789ABCDEF0 0x1234567 = (0x123456789ABCDEF0 div 0x1234567, 0x123456789ABCDEF0 mod 0x1234567)"
  by (rule udivmoddi4_divides) simp

text \<open>
  \<open>__udivdi3\<close> and \<open>__umoddi3\<close> are exact for every divisor other than zero: the branch-free
  comparison of the shift-subtract loop never meets a sign error.
\<close>
theorem udivdi3_umoddi3_exact:
  assumes "b \<noteq> 0"
  shows "udivdi3 a b = a div b \<and> umoddi3 a b = a mod b"
  using udivmodXi3_correct [OF assms, of a]
  by (simp add: udivdi3_def umoddi3_def word_unat_eq_iff unat_div unat_mod)

theorem udivdi3_umoddi3_exact_witness: "udivdi3 1000000007 10 = 1000000007 div 10"
  by (rule udivdi3_umoddi3_exact [THEN conjunct1]) simp

text \<open>
  The signed routines \<open>__divdi3\<close>, \<open>__moddi3\<close> and \<open>__divmoddi4\<close> truncate towards zero, and the
  remainder has the sign of the dividend, except for the overflowing quotient of the smallest number
  by minus one.
\<close>
theorem divdi3_truncates:
  assumes "b \<noteq> 0" "\<not> (sint a = - (2 ^ 63) \<and> sint b = - 1)"
  shows "sint (divdi3 a b) = sint a sdiv sint b \<and> sint (moddi3 a b) = sint a smod sint b \<and>
    fst (divmoddi4 a b) = divdi3 a b \<and> snd (divmoddi4 a b) = a - divdi3 a b * b"
  using udivmod.signed_quotient [OF assms] udivmod.signed_remainder [OF assms(1), of a]
  by (simp add: divdi3_def moddi3_def divmoddi4_def Let_def sgn_mask_def cneg_def)

theorem divdi3_truncates_witness: "sint (divdi3 (- 7) 2) = sint (- 7 :: u64) sdiv sint (2 :: u64)"
  by (rule divdi3_truncates [THEN conjunct1]) simp_all

text \<open>
  The 64-bit product computed from 32-bit additions and shifts by \<open>__muldi3\<close> is the product
  modulo \<open>2 ^ 64\<close>.
\<close>
theorem muldi3_exact: "muldi3 u v = u * v"
  by (rule muldi3_mult)

text \<open>
  \<open>__ashldi3\<close> is the 64-bit left shift for every count from 0 to 63.
\<close>
theorem ashldi3_shifts:
  assumes "unat b < 64"
  shows "ashldi3 u b = push_bit (unat b) u"
  using assms by (rule ashldi3_push_bit)

theorem ashldi3_shifts_witness: "ashldi3 5 33 = push_bit (unat (33 :: cint)) 5"
  by (rule ashldi3_shifts) simp

end
