(* ===== verification/SoftFloat.thy ===== *)
theory SoftFloat
  imports Complex_Main Int64
begin

unbundle bit_operations_syntax

text \<open>
  The soft-float helper \<open>__floatsidf\<close> of the board support package (\<open>bsp/abstract-machine/src/libc.c\<close>),
  which turns a signed 32-bit integer into the bit pattern of an IEEE 754 double.
\<close>

subsection \<open>The code\<close>

partial_function (option) find_exp :: "u32 \<Rightarrow> int \<Rightarrow> u32 \<Rightarrow> int option" where
  "find_exp u e m = (if u AND m = 0 then find_exp u (e - 1) (drop_bit 1 m) else Some e)"

definition floatsidf :: "cint \<Rightarrow> u64 option" where
  "floatsidf a =
     (if a = 0 then Some 0
      else
        let sign = (if sint a < 0 then 1 else 0);
            u = (if sint a < 0 then - a else a)
        in (case find_exp u 31 (push_bit 31 1) of
              None \<Rightarrow> None
            | Some e \<Rightarrow>
                let mant = push_bit (nat (52 - e)) (ucast u) AND (push_bit 52 1 - 1);
                    bits = push_bit 63 sign OR push_bit 52 (of_int (e + 1023)) OR mant
                in Some bits))"

subsection \<open>What a double denotes\<close>

text \<open>The value of a zero or normal double: sign, 11-bit exponent with bias 1023, 52-bit fraction.\<close>

definition double_sign :: "u64 \<Rightarrow> real" where
  "double_sign d = (if bit d 63 then -1 else 1)"

definition double_exp :: "u64 \<Rightarrow> nat" where
  "double_exp d = unat d div 2 ^ 52 mod 2 ^ 11"

definition double_frac :: "u64 \<Rightarrow> nat" where
  "double_frac d = unat d mod 2 ^ 52"

definition double_value :: "u64 \<Rightarrow> real" where
  "double_value d =
     (if double_exp d = 0 \<and> double_frac d = 0 then 0
      else double_sign d * (1 + real (double_frac d) / 2 ^ 52) * 2 powr (real (double_exp d) - 1023))"

subsection \<open>Correctness\<close>

lemma and_bit_zero: "(u :: u32) AND push_bit n 1 = 0 \<longleftrightarrow> \<not> bit u n"
proof
  have b: "bit (u AND push_bit n 1) j \<longleftrightarrow> j = n \<and> bit u n" for j
    by (simp only: bit_and_iff bit_push_bit_iff) (auto simp: bit_1_iff dest: bit_imp_le_length)
  show "\<not> bit u n" if "u AND push_bit n 1 = 0" using b [of n] unfolding that by simp
  show "u AND push_bit n 1 = 0" if "\<not> bit u n" by (rule bit_word_eqI) (simp only: b that, simp)
qed

lemma bit_top:
  assumes "bitlen (unat (u :: u32)) = Suc k"
  shows "bit u k" "k < n \<Longrightarrow> \<not> bit u n"
proof -
  have b: "2 ^ k \<le> unat u" "unat u < 2 ^ Suc k"
    using assms less_bitlen_iff [of k "unat u"] bitlen_le_iff [of "unat u" "Suc k"] by simp_all
  have bit: "bit u j \<longleftrightarrow> odd (unat u div 2 ^ j)" for j
    using bit_unsigned_iff [of u j, where ?'a = nat] bit_imp_le_length [of u j] by (auto simp: bit_iff_odd [of "unat u"])
  have "unat u div 2 ^ k = 1" using b by (intro div_nat_eqI) simp_all
  then show "bit u k" by (simp add: bit)
  show "\<not> bit u n" if "k < n"
  proof -
    have "(2::nat) ^ Suc k \<le> 2 ^ n" using that by (intro power_increasing) simp_all
    then have "unat u div 2 ^ n = 0" using b(2) by (simp only: div_eq_0_iff) linarith
    then show ?thesis by (simp add: bit)
  qed
qed

text \<open>The loop ends at the highest bit that is set.\<close>

lemma find_exp_bitlen:
  assumes "bitlen (unat u) = Suc k" "k \<le> n" "n < 32"
  shows "find_exp u (int n) (push_bit n 1) = Some (int k)"
  using assms
proof (induction n)
  case 0
  then show ?case using bit_top(1) [OF assms(1)] and_bit_zero [of u 0] by (subst find_exp.simps) simp
next
  case (Suc n)
  show ?case
  proof (cases "k = Suc n")
    case True
    then show ?thesis using bit_top(1) [OF assms(1)] and_bit_zero [of u "Suc n"] by (subst find_exp.simps) simp
  next
    case False
    have "drop_bit 1 (push_bit (Suc n) 1 :: u32) = push_bit n 1"
      by (rule bit_word_eqI) (use Suc.prems in \<open>auto simp: bit_simps\<close>)
    moreover have "\<not> bit u (Suc n)" using bit_top(2) [OF assms(1), of "Suc n"] Suc.prems False by simp
    ultimately show ?thesis using Suc False and_bit_zero [of u "Suc n"] by (subst find_exp.simps) simp
  qed
qed

lemma magnitude32:
  fixes a :: cint
  shows "int (unat (if sint a < 0 then - a else a)) = \<bar>sint a\<bar>"
proof -
  have w: "(if sint a < 0 then - a else a) = of_int \<bar>sint a\<bar>" by (simp add: abs_if)
  have "- (2 ^ 31) \<le> sint a" "sint a < 2 ^ 31" using sint_greater_eq [of a] sint_less [of a] by simp_all
  then have "uint (of_int \<bar>sint a\<bar> :: u32) = \<bar>sint a\<bar>" by (simp only: uint_word_of_int) (simp add: take_bit_int_eq_self)
  then show ?thesis unfolding w by simp
qed

text \<open>The fields of the pattern.\<close>

lemma frac_bits:
  assumes "bitlen (unat u) = Suc k" "k < 32"
  shows "unat (push_bit (52 - k) (ucast (u :: u32)) AND (push_bit 52 1 - 1) :: u64) = (unat u - 2 ^ k) * 2 ^ (52 - k)"
proof -
  have b: "2 ^ k \<le> unat u" "unat u < 2 ^ Suc k"
    using assms(1) less_bitlen_iff [of k "unat u"] bitlen_le_iff [of "unat u" "Suc k"] by simp_all
  have p: "(2::nat) ^ k * 2 ^ (52 - k) = 2 ^ 52" using assms(2) by (simp add: power_add [symmetric])
  have "unat u * 2 ^ (52 - k) < 2 ^ Suc k * 2 ^ (52 - k)" using b(2) by (intro mult_strict_right_mono) simp_all
  also have "\<dots> = 2 * 2 ^ 52" by (simp only: power_Suc mult.assoc p)
  finally have l: "unat u * 2 ^ (52 - k) < 2 ^ 53" by simp
  have uc: "unat (ucast u :: u64) = unat u" by (rule unat_ucast_up) simp
  have "unat (push_bit (52 - k) (ucast u) :: u64) = unat u * 2 ^ (52 - k)"
    using l by (simp only: unsigned_push_bit_eq uc) (simp add: push_bit_eq_mult take_bit_nat_eq_self)
  moreover have "(push_bit 52 1 - 1 :: u64) = mask 52" by (simp add: mask_eq_exp_minus_1)
  ultimately have "unat (push_bit (52 - k) (ucast u) AND (push_bit 52 1 - 1) :: u64) = unat u * 2 ^ (52 - k) mod 2 ^ 52"
    by (simp only: take_bit_eq_mask [symmetric] unsigned_take_bit_eq) (simp add: take_bit_eq_mod)
  also have "\<dots> = (2 ^ 52 + (unat u - 2 ^ k) * 2 ^ (52 - k)) mod 2 ^ 52"
  proof -
    have "unat u = 2 ^ k + (unat u - 2 ^ k)" using b(1) by simp
    then have "unat u * 2 ^ (52 - k) = 2 ^ k * 2 ^ (52 - k) + (unat u - 2 ^ k) * 2 ^ (52 - k)" by (metis add_mult_distrib)
    then show ?thesis by (simp only: p)
  qed
  also have "\<dots> = (unat u - 2 ^ k) * 2 ^ (52 - k)"
  proof -
    have "(unat u - 2 ^ k) * 2 ^ (52 - k) < 2 ^ k * 2 ^ (52 - k)" using b by (intro mult_strict_right_mono) auto
    then show ?thesis using p by simp
  qed
  finally show ?thesis .
qed

lemma double_fields:
  fixes s m :: u64
  assumes s: "unat s < 2" and e: "e < 2 ^ 11" and m: "unat m < 2 ^ 52"
  defines "d \<equiv> push_bit 63 s OR push_bit 52 (of_nat e) OR m"
  shows "double_exp d = e" "double_frac d = unat m" "bit d 63 \<longleftrightarrow> s = 1"
proof -
  have e': "unat (of_nat e :: u64) = e" using e by (intro unat_of_nat_small) simp
  let ?l = "push_bit 52 (of_nat e) OR m"
  have l: "unat ?l = e * 2 ^ 52 + unat m" using unat_push_or [of m 52 "of_nat e"] m e by (simp add: e')
  have "e * 2 ^ 52 \<le> (2 ^ 11 - 1) * 2 ^ 52" using e by (intro mult_right_mono) auto
  then have l63: "unat ?l < 2 ^ 63" using m l by simp
  have "unat d = unat s * 2 ^ 63 + unat ?l"
    using unat_push_or [of ?l 63 s] l63 s by (simp add: d_def or.assoc)
  then have d: "unat d = unat s * 2 ^ 63 + (e * 2 ^ 52 + unat m)" by (simp add: l)
  have "unat d = (unat s * 2 ^ 11 + e) * 2 ^ 52 + unat m" by (simp add: d algebra_simps)
  then have "unat d div 2 ^ 52 = unat s * 2 ^ 11 + e" "unat d mod 2 ^ 52 = unat m"
    using m by (simp_all only: div_mult_self3 mod_mult_self3 div_mult_self1_is_m) auto
  then show "double_exp d = e" "double_frac d = unat m" using e by (simp_all add: double_exp_def double_frac_def)
  have "bit d 63 \<longleftrightarrow> bit (unat d) 63" by (simp add: bit_unsigned_iff)
  also have "\<dots> \<longleftrightarrow> unat s = 1" using d l l63 s by (auto simp: bit_iff_odd less_2_cases_iff)
  finally show "bit d 63 \<longleftrightarrow> s = 1" by (simp add: word_unat_eq_iff)
qed

text \<open>
  C40: \<open>__floatsidf\<close> returns for every 32-bit integer, and the double it returns denotes exactly that integer.
\<close>
theorem floatsidf_exact:
  "\<exists>d. floatsidf a = Some d \<and> double_value d = real_of_int (sint a)"
proof (cases "a = 0")
  case True
  then show ?thesis by (simp add: floatsidf_def double_value_def double_exp_def double_frac_def)
next
  case False
  define u where "u = (if sint a < 0 then - a else a)"
  define s :: u64 where "s = (if sint a < 0 then 1 else 0)"
  have mag: "int (unat u) = \<bar>sint a\<bar>" unfolding u_def by (rule magnitude32)
  have "u \<noteq> 0" using False by (simp add: u_def)
  then obtain k where k: "bitlen (unat u) = Suc k" using bitlen_u32_pos [of u] by (cases "bitlen (unat u)") auto
  have k32: "k < 32" using bitlen_u32 [of u] k by simp
  define f where "f = (push_bit (52 - k) (ucast u) AND (push_bit 52 1 - 1) :: u64)"
  define d where "d = push_bit 63 s OR push_bit 52 (of_nat (k + 1023)) OR f"
  have "find_exp u 31 (push_bit 31 1) = Some (int k)" using find_exp_bitlen [OF k, of 31] k32 by simp
  moreover have "nat (52 - int k) = 52 - k" "of_int (int k + 1023) = (of_nat (k + 1023) :: u64)" by simp_all
  ultimately have r: "floatsidf a = Some d"
    using False by (simp add: floatsidf_def Let_def u_def [symmetric] s_def [symmetric] f_def d_def del: of_nat_add)
  have b: "2 ^ k \<le> unat u" "unat u < 2 ^ Suc k"
    using k less_bitlen_iff [of k "unat u"] bitlen_le_iff [of "unat u" "Suc k"] by simp_all
  have f: "unat f = (unat u - 2 ^ k) * 2 ^ (52 - k)" unfolding f_def by (rule frac_bits [OF k k32])
  have "(unat u - 2 ^ k) * 2 ^ (52 - k) < 2 ^ k * 2 ^ (52 - k)" using b by (intro mult_strict_right_mono) auto
  also have "\<dots> = (2 ^ 52 :: nat)" using k32 by (simp add: power_add [symmetric])
  finally have f52: "unat f < 2 ^ 52" by (simp add: f)
  have e: "double_exp d = k + 1023" "double_frac d = unat f" "bit d 63 \<longleftrightarrow> s = 1"
    unfolding d_def by (rule double_fields; use f52 k32 in \<open>simp add: s_def\<close>)+
  have "(1 + real (unat f) / 2 ^ 52) * 2 ^ k = real (unat u)"
  proof -
    have p: "(2::real) ^ (52 - k) * 2 ^ k = 2 ^ 52" using k32 by (simp add: power_add [symmetric])
    have "real (unat f) * 2 ^ k = (real (unat u) - 2 ^ k) * 2 ^ 52" using b(1) p by (simp add: f of_nat_diff mult.assoc)
    then show ?thesis by (simp add: field_simps)
  qed
  then have "double_value d = double_sign d * real (unat u)"
    by (simp add: double_value_def e powr_realpow [symmetric])
  also have "\<dots> = real_of_int (sint a)"
  proof -
    have "real (unat u) = real_of_int (int (unat u))" by simp
    also have "\<dots> = \<bar>real_of_int (sint a)\<bar>" by (simp only: mag of_int_abs)
    finally have "real (unat u) = \<bar>real_of_int (sint a)\<bar>" .
    moreover have "s = 1 \<longleftrightarrow> real_of_int (sint a) < 0" by (simp only: of_int_less_0_iff) (simp add: s_def)
    ultimately show ?thesis by (simp only: double_sign_def e(3)) auto
  qed
  finally show ?thesis using r by blast
qed

end
