(* ===== verification/AmTimer.thy ===== *)
theory AmTimer
  imports Int64
begin

text \<open>
  The uptime of the abstract machine (\<open>am/src/riscv/npc/timer.c\<close>): a 64-bit counter that runs on its own is
  read through two 32-bit registers.  Every read of a register is one of a sequence of reads; \<open>mtime i\<close> is the
  value of the counter at read number \<open>i\<close>.
\<close>

subsection \<open>The code\<close>

definition CYCLES_PER_US :: u64 where
  "CYCLES_PER_US = 100"

partial_function (option) read_mtime :: "(nat \<Rightarrow> u64) \<Rightarrow> nat \<Rightarrow> (u64 \<times> nat) option" where
  "read_mtime mtime n =
     (let hi = high_of (mtime n);
          lo = low_of (mtime (n + 1))
      in if hi \<noteq> high_of (mtime (n + 2)) then read_mtime mtime (n + 3)
         else Some (push_bit 32 (ucast hi) OR ucast lo, n + 3))"

definition am_timer_uptime :: "(nat \<Rightarrow> u64) \<Rightarrow> nat \<Rightarrow> (u64 \<times> nat) option" where
  "am_timer_uptime mtime n = map_option (\<lambda>(cycles, n). (cycles div CYCLES_PER_US, n)) (read_mtime mtime n)"

subsection \<open>Correctness\<close>

lemma high_mono: "(a :: u64) \<le> b \<Longrightarrow> unat (high_of a) \<le> unat (high_of b)"
  by (simp only: unat_high_of word_le_nat_alt) (rule div_le_mono)

text \<open>A round in which the high half did not change yields the counter at its middle read.\<close>

lemma round_exact:
  assumes "mtime n \<le> mtime (n + 1)" "mtime (n + 1) \<le> mtime (n + 2)" "high_of (mtime n) = high_of (mtime (n + 2))"
  shows "read_mtime mtime n = Some (mtime (n + 1), n + 3)"
proof -
  have "unat (high_of (mtime n)) \<le> unat (high_of (mtime (n + 1)))" "unat (high_of (mtime (n + 1))) \<le> unat (high_of (mtime (n + 2)))"
    by (rule high_mono [OF assms(1)], rule high_mono [OF assms(2)])
  then have "high_of (mtime (n + 1)) = high_of (mtime n)" using assms(3) by (simp add: word_unat_eq_iff)
  then have "push_bit 32 (ucast (high_of (mtime n))) OR ucast (low_of (mtime (n + 1))) = mtime (n + 1)"
    using dword_halves [of "mtime (n + 1)"] by (simp add: dword_def)
  then show ?thesis using assms(3) by (subst read_mtime.simps) (simp add: Let_def)
qed

text \<open>
  Reading the uptime ends and is exact.  When the counter only counts up, and by less than \<open>2^32\<close> over six
  reads, the loop runs at most twice and the cycles it returns are the value of the counter at one of the
  reads, never a mix of an old high half and a new low half.
\<close>
theorem uptime_exact:
  assumes mono: "\<forall>i. mtime i \<le> mtime (Suc i)" and slow: "unat (mtime (n + 5)) < unat (mtime n) + 2 ^ 32"
  shows "\<exists>i. n \<le> i \<and> i \<le> n + 4 \<and> read_mtime mtime n = Some (mtime i, i + 2) \<and>
    am_timer_uptime mtime n = Some (mtime i div 100, i + 2)"
proof -
  have le: "mtime (n + i) \<le> mtime (n + j)" if "i \<le> j" for i j
    by (rule lift_Suc_mono_le [where f = "\<lambda>i. mtime (n + i)"]) (use mono that in auto)
  consider "high_of (mtime n) = high_of (mtime (n + 2))" | "high_of (mtime n) \<noteq> high_of (mtime (n + 2))" by blast
  then show ?thesis
  proof cases
    case 1
    have "read_mtime mtime n = Some (mtime (n + 1), n + 3)" by (rule round_exact) (use le [of 0 1] le [of 1 2] 1 in simp_all)
    then show ?thesis by (intro exI [of _ "n + 1"]) (simp add: am_timer_uptime_def CYCLES_PER_US_def)
  next
    case 2
    have "unat (high_of (mtime n)) \<le> unat (high_of (mtime (n + 2)))" "unat (high_of (mtime (n + 2))) \<le> unat (high_of (mtime (n + 3)))"
      "unat (high_of (mtime (n + 3))) \<le> unat (high_of (mtime (n + 5)))"
      using le [of 0 2] le [of 2 3] le [of 3 5] by (auto intro: high_mono)
    moreover have "unat (high_of (mtime n)) \<noteq> unat (high_of (mtime (n + 2)))" using 2 by (simp add: word_unat_eq_iff)
    moreover have "unat (high_of (mtime (n + 5))) \<le> unat (high_of (mtime n)) + 1" using slow by (simp add: unat_high_of)
    ultimately have e: "unat (high_of (mtime (n + 3))) = unat (high_of (mtime (n + 5)))" by linarith
    have "n + 3 + 2 = n + 5" by simp
    then have h: "high_of (mtime (n + 3)) = high_of (mtime (n + 3 + 2))" using e by (simp only: word_unat_eq_iff)
    have "read_mtime mtime (n + 3) = Some (mtime (n + 3 + 1), n + 3 + 3)"
      by (rule round_exact) (use le [of 3 4] le [of 4 5] h in \<open>simp_all add: add.commute\<close>)
    then have "read_mtime mtime n = Some (mtime (n + 4), n + 6)"
      using 2 by (subst read_mtime.simps) (simp add: Let_def add.commute)
    then show ?thesis by (intro exI [of _ "n + 4"]) (simp add: am_timer_uptime_def CYCLES_PER_US_def)
  qed
qed

text \<open>The counter passes \<open>2^32\<close> between the reads of its two halves.\<close>

theorem uptime_exact_witness:
  "\<exists>i. read_mtime (\<lambda>i. 0xFFFFFFFE + of_nat (min i 6)) 0 = Some (0xFFFFFFFE + of_nat (min i 6), i + 2)"
proof -
  let ?m = "\<lambda>i. 0xFFFFFFFE + of_nat (min i 6) :: u64"
  have u: "unat (?m i) = 0xFFFFFFFE + min i 6" for i
  proof -
    have "unat (of_nat (min i 6) :: u64) = min i 6" by (rule unat_of_nat_small) simp
    then show ?thesis by (subst unat_add_small) simp_all
  qed
  have "\<forall>i. ?m i \<le> ?m (Suc i)" unfolding word_le_nat_alt u by (auto simp: min_def)
  moreover have "unat (?m (0 + 5)) < unat (?m 0) + 2 ^ 32" unfolding u by simp
  ultimately show ?thesis using uptime_exact [of ?m 0] by blast
qed

end
