(* ===== verification/AmContext.thy ===== *)
theory AmContext
  imports Prelude "HOL-Library.Monad_Syntax"
begin

unbundle bit_operations_syntax

text \<open>
  The context switch of the RT-Thread port: the trap entry and exit of the abstract machine
  (\<open>am/src/riscv/npc/trap.S\<close>, \<open>cte.c\<close>) and the switch functions of the board support package
  (\<open>bsp/abstract-machine/src/context.c\<close>), for the rv32e processor with registers \<open>x0\<close> to \<open>x15\<close>.

  Memory is seen as words at their addresses; all accesses of this code are to aligned words.  The
  static variables of the C code are fields of the state.  \<open>mstatus\<close> is constant on this processor
  (\<open>core/rtl/npc_csr_file.v\<close>), so that writing it has no effect.  \<open>None\<close> is a failed assertion or
  \<open>halt\<close>.
\<close>

subsection \<open>The machine\<close>

datatype handler = Ev_handler

record machine =
  gpr :: "nat \<Rightarrow> u32"
  pc :: u32
  mepc :: u32
  mcause :: u32
  mtvec :: u32
  wm :: "u32 \<Rightarrow> u32"
  user_handler :: "handler option"
  rt_switch_to :: u32
  rt_switch_fromp :: u32

definition MSTATUS :: u32 where
  "MSTATUS = 0x1800"

definition setx :: "nat \<Rightarrow> u32 \<Rightarrow> machine \<Rightarrow> machine" where
  "setx r v m = m\<lparr>gpr := (gpr m)(r := v)\<rparr>"

definition store_word :: "u32 \<Rightarrow> u32 \<Rightarrow> machine \<Rightarrow> machine" where
  "store_word a v m = m\<lparr>wm := (wm m)(a := v)\<rparr>"

text \<open>The registers that \<open>REGS\<close> lists: all but \<open>x0\<close> and the stack pointer.\<close>

definition REGS :: "nat list" where
  "REGS = [1, 3, 4, 5, 6, 7, 8, 9, 10, 11, 12, 13, 14, 15]"

text \<open>The layout of a saved context, in bytes: \<open>gpr[16]\<close>, \<open>mcause\<close>, \<open>mstatus\<close>, \<open>mepc\<close>; the C structure
  has one word more, \<open>pdir\<close>.\<close>

definition CONTEXT_SIZE :: u32 where "CONTEXT_SIZE = 76"
definition sizeof_Context :: u32 where "sizeof_Context = 80"
definition OFFSET_SP :: u32 where "OFFSET_SP = 8"
definition OFFSET_CAUSE :: u32 where "OFFSET_CAUSE = 64"
definition OFFSET_STATUS :: u32 where "OFFSET_STATUS = 68"
definition OFFSET_EPC :: u32 where "OFFSET_EPC = 72"

lemmas layout = CONTEXT_SIZE_def sizeof_Context_def OFFSET_SP_def OFFSET_CAUSE_def OFFSET_STATUS_def OFFSET_EPC_def REGS_def MSTATUS_def

definition push_reg :: "nat \<Rightarrow> machine \<Rightarrow> machine" where
  "push_reg r m = store_word (gpr m 2 + 4 * of_nat r) (gpr m r) m"

definition pop_reg :: "nat \<Rightarrow> machine \<Rightarrow> machine" where
  "pop_reg r m = setx r (wm m (gpr m 2 + 4 * of_nat r)) m"

subsection \<open>Trap entry and exit\<close>

text \<open>The \<open>ecall\<close> instruction.\<close>

definition ecall :: "machine \<Rightarrow> machine" where
  "ecall m = m\<lparr>mepc := pc m, mcause := 11, pc := mtvec m\<rparr>"

definition trap_save :: "machine \<Rightarrow> machine" where
  "trap_save m =
     (let m = setx 2 (gpr m 2 - CONTEXT_SIZE) m;
          m = setx 5 (gpr m 2 + CONTEXT_SIZE) m;
          m = store_word (gpr m 2 + OFFSET_SP) (gpr m 5) m;
          m = fold push_reg REGS m;
          m = setx 5 (mcause m) m;
          m = setx 6 MSTATUS m;
          m = setx 7 (mepc m) m;
          m = store_word (gpr m 2 + OFFSET_CAUSE) (gpr m 5) m;
          m = store_word (gpr m 2 + OFFSET_STATUS) (gpr m 6) m;
          m = store_word (gpr m 2 + OFFSET_EPC) (gpr m 7) m
      in setx 10 (gpr m 2) m)"

definition trap_restore :: "machine \<Rightarrow> machine" where
  "trap_restore m =
     (let m = setx 2 (gpr m 10) m;
          m = setx 6 (wm m (gpr m 2 + OFFSET_STATUS)) m;
          m = setx 7 (wm m (gpr m 2 + OFFSET_EPC)) m;
          m = m\<lparr>mepc := gpr m 7 AND NOT 3\<rparr>;
          m = fold pop_reg REGS m;
          m = setx 2 (wm m (gpr m 2 + OFFSET_SP)) m
      in m\<lparr>pc := mepc m\<rparr>)"

subsection \<open>The C code\<close>

datatype event = EVENT_YIELD | EVENT_ERROR

definition ev_handler :: "event \<Rightarrow> u32 \<Rightarrow> machine \<Rightarrow> (machine \<times> u32) option" where
  "ev_handler e c m =
     (case e of
        EVENT_YIELD \<Rightarrow>
          let m = store_word (c + OFFSET_EPC) (wm m (c + OFFSET_EPC) + 4) m;
              m = (if rt_switch_fromp m \<noteq> 0 then store_word (rt_switch_fromp m) c m else m)
          in Some (m, rt_switch_to m)
      | _ \<Rightarrow> None)"

fun call_handler :: "handler \<Rightarrow> event \<Rightarrow> u32 \<Rightarrow> machine \<Rightarrow> (machine \<times> u32) option" where
  "call_handler Ev_handler e c m = ev_handler e c m"

definition am_irq_handle :: "u32 \<Rightarrow> machine \<Rightarrow> (machine \<times> u32) option" where
  "am_irq_handle c m =
     (case user_handler m of
        None \<Rightarrow> Some (m, c)
      | Some h \<Rightarrow>
          let cause = wm m (c + OFFSET_CAUSE) in
          if cause = 3 then None
          else do {
            (m, c) \<leftarrow> call_handler h (if cause = 11 then EVENT_YIELD else EVENT_ERROR) c m;
            if c = 0 then None else Some (m, c)
          })"

definition am_asm_trap :: "machine \<Rightarrow> machine option" where
  "am_asm_trap m =
     do {
       let m = trap_save m;
       (m, c) \<leftarrow> am_irq_handle (gpr m 10) m;
       Some (trap_restore (setx 10 c m))
     }"

definition cte_init :: "u32 \<Rightarrow> handler \<Rightarrow> machine \<Rightarrow> machine" where
  "cte_init trap h m = m\<lparr>mtvec := trap, user_handler := Some h\<rparr>"

definition am_cte_init :: "u32 \<Rightarrow> machine \<Rightarrow> machine" where
  "am_cte_init trap m = cte_init trap Ev_handler m"

text \<open>\<open>yield\<close>, whose \<open>ecall\<close> instruction is at the address \<open>at\<close>.\<close>

definition am_yield :: "u32 \<Rightarrow> machine \<Rightarrow> machine option" where
  "am_yield at m = am_asm_trap (ecall ((setx 15 (-1) m)\<lparr>pc := at\<rparr>))"

definition rt_hw_context_switch_to :: "u32 \<Rightarrow> u32 \<Rightarrow> machine \<Rightarrow> machine option" where
  "rt_hw_context_switch_to at to m = am_yield at (m\<lparr>rt_switch_to := wm m to, rt_switch_fromp := 0\<rparr>)"

definition rt_hw_context_switch :: "u32 \<Rightarrow> u32 \<Rightarrow> u32 \<Rightarrow> machine \<Rightarrow> machine option" where
  "rt_hw_context_switch at from to m = am_yield at (m\<lparr>rt_switch_to := wm m to, rt_switch_fromp := from\<rparr>)"

definition rt_hw_context_switch_interrupt :: "u32 \<Rightarrow> u32 \<Rightarrow> u32 \<Rightarrow> u32 \<Rightarrow> u32 \<Rightarrow> machine \<Rightarrow> machine option" where
  "rt_hw_context_switch_interrupt at from to from_thread to_thread m = rt_hw_context_switch at from to m"

text \<open>\<open>memset\<close> of a context and the initial contexts of \<open>kcontext\<close> and \<open>rt_hw_stack_init\<close>.\<close>

definition clear_context :: "u32 \<Rightarrow> machine \<Rightarrow> machine" where
  "clear_context c m = fold (\<lambda>i. store_word (c + 4 * of_nat i) 0) [0..<20] m"

definition kcontext :: "u32 \<Rightarrow> u32 \<Rightarrow> u32 \<Rightarrow> machine \<Rightarrow> machine \<times> u32" where
  "kcontext stack_end entry arg m =
     (let ctx = stack_end - sizeof_Context;
          m = clear_context ctx m;
          m = store_word (ctx + OFFSET_EPC) entry m;
          m = store_word (ctx + OFFSET_STATUS) 0x1800 m;
          m = store_word (ctx + 4 * 2) stack_end m;
          m = store_word (ctx + 4 * 10) arg m
      in (m, ctx))"

definition rt_hw_stack_init :: "u32 \<Rightarrow> u32 \<Rightarrow> u32 \<Rightarrow> u32 \<Rightarrow> machine \<Rightarrow> machine \<times> u32" where
  "rt_hw_stack_init tentry parameter stack_addr texit m =
     (let top = stack_addr - sizeof_Context;
          top = top AND NOT 0xF;
          m = clear_context top m;
          m = store_word (top + OFFSET_EPC) tentry m;
          m = store_word (top + OFFSET_STATUS) 0x1800 m;
          m = store_word (top + 4 * 2) top m;
          m = store_word (top + 4 * 1) texit m;
          m = store_word (top + 4 * 10) parameter m
      in (m, top))"

subsection \<open>What a trap saves and restores\<close>

definition ctx_block :: "u32 \<Rightarrow> u32 set" where
  "ctx_block a = (\<lambda>i. a + 4 * of_nat i) ` {..<19}"

lemma setx_simps [simp]:
  "gpr (setx r v m) = (gpr m)(r := v)" "wm (setx r v m) = wm m" "pc (setx r v m) = pc m" "mepc (setx r v m) = mepc m"
  "mcause (setx r v m) = mcause m" "user_handler (setx r v m) = user_handler m" "rt_switch_to (setx r v m) = rt_switch_to m"
  "rt_switch_fromp (setx r v m) = rt_switch_fromp m" "mtvec (setx r v m) = mtvec m"
  by (simp_all add: setx_def)

lemma store_simps [simp]:
  "gpr (store_word a v m) = gpr m" "wm (store_word a v m) = (wm m)(a := v)" "pc (store_word a v m) = pc m" "mepc (store_word a v m) = mepc m"
  "mcause (store_word a v m) = mcause m" "user_handler (store_word a v m) = user_handler m" "rt_switch_to (store_word a v m) = rt_switch_to m"
  "rt_switch_fromp (store_word a v m) = rt_switch_fromp m" "mtvec (store_word a v m) = mtvec m"
  by (simp_all add: store_word_def)

lemma reg_cases:
  assumes "r \<in> {1..15}"
  shows "r = 1 \<or> r = 2 \<or> r = 3 \<or> r = 4 \<or> r = 5 \<or> r = 6 \<or> r = 7 \<or> r = 8 \<or> r = 9 \<or> r = 10 \<or> r = 11 \<or> r = 12 \<or> r = 13 \<or> r = 14 \<or> r = (15 :: nat)"
  using assms by simp arith

text \<open>The word saved for a register: the stack pointer before the trap for \<open>x2\<close>, and by mistake for \<open>t0\<close> as well.\<close>

lemmas trap_eval = trap_save_def layout push_reg_def Let_def

lemma trap_save_gpr:
  assumes "r \<in> {1..15}"
  shows "wm (trap_save m) (gpr m 2 - 76 + 4 * of_nat r) = (if r = 5 then gpr m 2 else gpr m r)"
proof -
  note reg_cases [OF assms]
  then show ?thesis by (elim disjE) (simp_all add: trap_eval)
qed

lemma trap_save_rest:
  "wm (trap_save m) (gpr m 2 - 76 + 64) = mcause m" "wm (trap_save m) (gpr m 2 - 76 + 72) = mepc m" "gpr (trap_save m) 10 = gpr m 2 - 76"
  "user_handler (trap_save m) = user_handler m" "rt_switch_to (trap_save m) = rt_switch_to m"
  "rt_switch_fromp (trap_save m) = rt_switch_fromp m" "mtvec (trap_save m) = mtvec m"
  by (simp_all add: trap_eval)

lemma trap_save_other:
  assumes "a \<notin> ctx_block (gpr m 2 - 76)"
  shows "wm (trap_save m) a = wm m a"
proof -
  have "a \<noteq> gpr m 2 - 76 + 4 * of_nat i" if "i < 19" for i using assms that by (auto simp: ctx_block_def)
  from this [of 1] this [of 2] this [of 3] this [of 4] this [of 5] this [of 6] this [of 7] this [of 8] this [of 9] this [of 10]
    this [of 11] this [of 12] this [of 13] this [of 14] this [of 15] this [of 16] this [of 17] this [of 18]
  show ?thesis by (simp add: trap_eval)
qed


lemma trap_restore_gpr:
  assumes "r \<in> {1..15}"
  shows "gpr (trap_restore m) r = wm m (gpr m 10 + 4 * of_nat r)"
proof -
  note reg_cases [OF assms]
  then show ?thesis by (elim disjE) (simp_all add: trap_restore_def pop_reg_def layout Let_def)
qed

lemma trap_restore_rest:
  "pc (trap_restore m) = wm m (gpr m 10 + 72) AND NOT 3" "wm (trap_restore m) = wm m" "user_handler (trap_restore m) = user_handler m"
  by (simp_all add: trap_restore_def pop_reg_def layout Let_def)

text \<open>The state in which the new thread runs: its registers and program counter come from its context, and the
  old thread's frame is on its stack, with its address in the thread's slot.\<close>

lemma switch_effect:
  assumes h: "user_handler m = Some Ev_handler" and t: "wm m to \<noteq> 0"
    and sl: "from = 0 \<or> from \<notin> ctx_block (gpr m 2 - 76)"
  defines "c \<equiv> gpr m 2 - 76"
  obtains m' where "am_yield at (m\<lparr>rt_switch_to := wm m to, rt_switch_fromp := from\<rparr>) = Some m'"
    "user_handler m' = Some Ev_handler"
    "\<And>r. r \<in> {1..15} \<Longrightarrow> wm m' (c + 4 * of_nat r) = (if r = 5 then gpr m 2 else if r = 15 then -1 else gpr m r)"
    "wm m' (c + 72) = at + 4" "from \<noteq> 0 \<Longrightarrow> wm m' from = c"
    "\<And>a. a \<notin> ctx_block c \<Longrightarrow> a \<noteq> from \<Longrightarrow> wm m' a = wm m a"
    "\<And>r. r \<in> {1..15} \<Longrightarrow> gpr m' r = wm m' (wm m to + 4 * of_nat r)" "pc m' = wm m' (wm m to + 72) AND NOT 3"
proof -
  define n where "n = ecall ((setx 15 (-1) (m\<lparr>rt_switch_to := wm m to, rt_switch_fromp := from\<rparr>))\<lparr>pc := at\<rparr>)"
  define s where "s = trap_save n"
  define m2 where "m2 = (let m1 = store_word (c + 72) (at + 4) s in if from \<noteq> 0 then store_word from c m1 else m1)"
  define m' where "m' = trap_restore (setx 10 (wm m to) m2)"
  have f: "gpr n = (gpr m)(15 := -1)" "wm n = wm m" "mepc n = at" "mcause n = 11" "user_handler n = Some Ev_handler"
    "rt_switch_to n = wm m to" "rt_switch_fromp n = from" using h by (simp_all add: n_def ecall_def)
  have c: "gpr n 2 - 76 = c" by (simp add: f c_def)
  note rest = trap_save_rest [of n, unfolded c, folded s_def, unfolded f]
  have w2: "wm m2 = (if from \<noteq> 0 then (wm s)(c + 72 := at + 4, from := c) else (wm s)(c + 72 := at + 4))"
    "user_handler m2 = Some Ev_handler" using rest by (simp_all add: m2_def Let_def)
  have i: "am_irq_handle c s = Some (m2, wm m to)"
    using rest t by (simp add: am_irq_handle_def ev_handler_def layout m2_def Let_def)
  then have r: "am_yield at (m\<lparr>rt_switch_to := wm m to, rt_switch_fromp := from\<rparr>) = Some m'"
    using rest by (simp add: am_yield_def am_asm_trap_def m'_def Let_def n_def [symmetric] s_def [symmetric])
  have in_block: "c + 4 * of_nat i \<in> ctx_block c" if "i < 19" for i using that by (auto simp: ctx_block_def)
  have fc: "c + 4 * of_nat i \<noteq> from" if "i < 19" "from \<noteq> 0" for i using sl in_block [OF that(1)] that(2) by (auto simp: c_def)
  have ne: "c + 4 * of_nat r \<noteq> c + 72" if "r \<in> {1..15}" for r
  proof -
    have "r \<in> {1, 2, 3, 4, 5, 6, 7, 8, 9, 10, 11, 12, 13, 14, 15}" using that by simp arith
    then show ?thesis by auto
  qed
  have w': "wm m' = wm m2" by (simp add: m'_def trap_restore_rest)
  show thesis
  proof (rule that [OF r])
    show "user_handler m' = Some Ev_handler" by (simp add: m'_def trap_restore_rest w2)
    show "wm m' (c + 4 * of_nat r) = (if r = 5 then gpr m 2 else if r = 15 then -1 else gpr m r)" if r: "r \<in> {1..15}" for r
      using trap_save_gpr [OF r, of n, unfolded c, folded s_def] ne [OF r] fc [of r] r by (auto simp: w' w2 f)
    show "wm m' (c + 72) = at + 4" using fc [of 18] by (auto simp: w' w2)
    show "wm m' from = c" if "from \<noteq> 0" using that by (simp add: w' w2)
    show "wm m' a = wm m a" if "a \<notin> ctx_block c" "a \<noteq> from" for a
      using trap_save_other [of a n, unfolded c] that in_block [of 18] by (auto simp: f w' w2 s_def)
    show "gpr m' r = wm m' (wm m to + 4 * of_nat r)" if "r \<in> {1..15}" for r
      unfolding w' using trap_restore_gpr [OF that, of "setx 10 (wm m to) m2"] by (simp add: m'_def)
    show "pc m' = wm m' (wm m to + 72) AND NOT 3" unfolding w' by (simp add: m'_def trap_restore_rest)
  qed
qed

text \<open>Rounding down to words and to stack frames.\<close>

lemma mask_below:
  fixes a :: u32
  shows "unat (a AND NOT 0xF) = unat a div 16 * 16" "unat (a AND NOT 3) = unat a div 4 * 4"
  using round_up_mask [of a 4] unat_push_drop [of 4 a] round_up_mask [of a 2] unat_push_drop [of 2 a] by (simp_all add: mask_eq_exp_minus_1)

lemma aligned_mask:
  fixes a :: u32
  assumes "unat a mod 4 = 0"
  shows "a AND NOT 3 = a"
proof -
  have "unat a div 4 * 4 = unat a" using assms by auto
  then have "unat (a AND NOT 3) = unat a" by (simp only: mask_below)
  then show ?thesis by (simp only: word_unat_eq_iff)
qed

lemma aligned_next:
  fixes a :: u32
  assumes "unat a mod 4 = 0"
  shows "(a + 4) AND NOT 3 = a + 4"
proof (rule aligned_mask)
  have "unat (a + 4) = (unat a + 4) mod 2 ^ 32" by (simp add: unat_word_ariths)
  then show "unat (a + 4) mod 4 = 0" using assms by (simp add: mod_mod_cancel)
qed

text \<open>
  C33: A thread that gives up the processor gets it back as it left.  Thread A switches away with its context
  saved through the slot \<open>from\<close>; other threads run, as long as they leave A's frame and slot alone; some
  thread switches back through the same slot.  A continues behind the \<open>ecall\<close> with its stack pointer and
  registers, except \<open>a5\<close>, which \<open>yield\<close> itself overwrites, and \<open>t0\<close>, which the trap entry overwrites with the
  stack pointer before it saves the registers.
\<close>
theorem context_switch_roundtrip:
  assumes h: "user_handler m = Some Ev_handler" and t: "wm m to \<noteq> 0"
    and slot: "from \<noteq> 0" "from \<notin> ctx_block (gpr m 2 - 76)" "gpr m 2 \<noteq> 76" and al: "unat at mod 4 = 0"
    and s: "rt_hw_context_switch at from to m = Some m1"
    and keep: "\<forall>w \<in> insert from (ctx_block (gpr m 2 - 76)). wm m2 w = wm m1 w" and h2: "user_handler m2 = Some Ev_handler"
    and dis: "ctx_block (gpr m2 2 - 76) \<inter> ctx_block (gpr m 2 - 76) = {}" "from' \<notin> ctx_block (gpr m 2 - 76)" "from' \<notin> ctx_block (gpr m2 2 - 76)"
  shows "\<exists>m3. rt_hw_context_switch at' from' from m2 = Some m3 \<and> pc m3 = at + 4 \<and>
    (\<forall>r\<in>{1..15}. gpr m3 r = (if r = 5 then gpr m 2 else if r = 15 then -1 else gpr m r))"
proof -
  let ?c = "gpr m 2 - 76"
  obtain m' where "am_yield at (m\<lparr>rt_switch_to := wm m to, rt_switch_fromp := from\<rparr>) = Some m'" and
    m1: "\<And>r. r \<in> {1..15} \<Longrightarrow> wm m' (?c + 4 * of_nat r) = (if r = 5 then gpr m 2 else if r = 15 then -1 else gpr m r)"
    "wm m' (?c + 72) = at + 4" "from \<noteq> 0 \<Longrightarrow> wm m' from = ?c"
    by (rule switch_effect [OF h t disjI2 [OF slot(2)], where at = at]) (rule that)
  then have "m' = m1" using s by (simp add: rt_hw_context_switch_def)
  note m1 = m1 [unfolded this]
  have in_block: "?c + 4 * of_nat i \<in> ctx_block ?c" if "i < 19" for i using that by (auto simp: ctx_block_def)
  have f: "wm m2 from = ?c" using keep m1(3) slot(1) by simp
  obtain m3 where r: "am_yield at' (m2\<lparr>rt_switch_to := wm m2 from, rt_switch_fromp := from'\<rparr>) = Some m3" and
    m3: "\<And>a. a \<notin> ctx_block (gpr m2 2 - 76) \<Longrightarrow> a \<noteq> from' \<Longrightarrow> wm m3 a = wm m2 a"
    "\<And>r. r \<in> {1..15} \<Longrightarrow> gpr m3 r = wm m3 (wm m2 from + 4 * of_nat r)" "pc m3 = wm m3 (wm m2 from + 72) AND NOT 3"
    by (rule switch_effect [OF h2 _ disjI2 [OF dis(3)], where to = "from" and at = at']) (use f slot(3) in simp, rule that)
  have mem: "wm m3 a = wm m1 a" if "a \<in> ctx_block ?c" for a using m3(1) [of a] that dis keep by auto
  have "pc m3 = at + 4"
    using m3(3) m1(2) mem [OF in_block [of 18]] aligned_next [OF al] by (simp add: f)
  moreover have "gpr m3 r = (if r = 5 then gpr m 2 else if r = 15 then -1 else gpr m r)" if "r \<in> {1..15}" for r
    using m3(2) [OF that] m1(1) [OF that] mem [OF in_block [of r]] that by (simp add: f)
  ultimately show ?thesis using r by (auto simp: rt_hw_context_switch_def)
qed


text \<open>The context that \<open>rt_hw_stack_init\<close> lays out.\<close>

lemma stack_init_frame:
  assumes s: "rt_hw_stack_init tentry parameter stack_addr texit m = (m', sp)"
  shows "sp = (stack_addr - 80) AND NOT 0xF" "wm m' (sp + 72) = tentry"
    "r \<in> {1..15} \<Longrightarrow> wm m' (sp + 4 * of_nat r) = (if r = 1 then texit else if r = 2 then sp else if r = 10 then parameter else 0)"
proof -
  show sp: "sp = (stack_addr - 80) AND NOT 0xF" using s by (auto simp: rt_hw_stack_init_def Let_def layout)
  have m': "m' = store_word (sp + 40) parameter (store_word (sp + 4) texit (store_word (sp + 8) sp
      (store_word (sp + 68) 0x1800 (store_word (sp + 72) tentry (clear_context sp m)))))"
    using s unfolding rt_hw_stack_init_def Let_def layout sp by auto
  show "wm m' (sp + 72) = tentry" by (simp add: m')
  assume "r \<in> {1..15}"
  note reg_cases [OF this]
  then show "wm m' (sp + 4 * of_nat r) = (if r = 1 then texit else if r = 2 then sp else if r = 10 then parameter else 0)"
    by (elim disjE) (simp_all add: m' clear_context_def upt_rec)
qed

text \<open>
  The first switch to a new thread starts it at its entry with its parameter in \<open>a0\<close>, a return to the exit
  function in \<open>ra\<close>, all other registers zero, and a stack pointer that is 16-byte aligned and lies with the
  whole initial frame below the top of the stack.
\<close>
theorem new_thread_starts:
  assumes s: "rt_hw_stack_init tentry parameter stack_addr texit m = (m1, sp)" and al: "unat tentry mod 4 = 0" and big: "96 \<le> stack_addr"
    and keep: "\<forall>w \<in> ctx_block sp. wm m2 w = wm m1 w" and h: "user_handler m2 = Some Ev_handler" and slot: "wm m2 to = sp"
    and dis: "ctx_block (gpr m2 2 - 76) \<inter> ctx_block sp = {}" "from \<notin> ctx_block sp" "from = 0 \<or> from \<notin> ctx_block (gpr m2 2 - 76)"
  shows "\<exists>m3. rt_hw_context_switch at from to m2 = Some m3 \<and> pc m3 = tentry \<and> gpr m3 10 = parameter \<and> gpr m3 1 = texit \<and> gpr m3 2 = sp \<and>
    (\<forall>r\<in>{1..15} - {1, 2, 10}. gpr m3 r = 0) \<and> unat sp mod 16 = 0 \<and> unat sp + 80 \<le> unat stack_addr"
proof -
  note fr = stack_init_frame [OF s]
  have u: "unat sp = unat (stack_addr - 80) div 16 * 16" by (simp only: fr(1) mask_below)
  have b: "unat (stack_addr - 80) = unat stack_addr - 80" "96 \<le> unat stack_addr"
    using big by (auto simp: unat_sub_if' word_le_nat_alt)
  have sp: "unat sp mod 16 = 0" "unat sp + 80 \<le> unat stack_addr" "16 \<le> unat sp" using u b by auto
  have nz: "wm m2 to \<noteq> 0" using slot sp(3) by auto
  have in_block: "sp + 4 * of_nat i \<in> ctx_block sp" if "i < 19" for i using that by (auto simp: ctx_block_def)
  obtain m3 where r: "am_yield at (m2\<lparr>rt_switch_to := wm m2 to, rt_switch_fromp := from\<rparr>) = Some m3" and
    m3: "\<And>a. a \<notin> ctx_block (gpr m2 2 - 76) \<Longrightarrow> a \<noteq> from \<Longrightarrow> wm m3 a = wm m2 a"
    "\<And>r. r \<in> {1..15} \<Longrightarrow> gpr m3 r = wm m3 (wm m2 to + 4 * of_nat r)" "pc m3 = wm m3 (wm m2 to + 72) AND NOT 3"
    by (rule switch_effect [OF h nz dis(3), where at = at]) (rule that)
  have mem: "wm m3 a = wm m1 a" if "a \<in> ctx_block sp" for a using m3(1) [of a] that dis keep by auto
  have g: "gpr m3 r = (if r = 1 then texit else if r = 2 then sp else if r = 10 then parameter else 0)" if "r \<in> {1..15}" for r
    using m3(2) [OF that] fr(3) [OF that] mem [OF in_block [of r]] that by (simp add: slot)
  have "pc m3 = tentry" using m3(3) fr(2) mem [OF in_block [of 18]] aligned_mask [OF al] by (simp add: slot)
  then show ?thesis using r g sp(1,2) by (auto simp: rt_hw_context_switch_def)
qed


subsection \<open>Witnesses\<close>

text \<open>Thread A runs with its stack at \<open>0x1000\<close>; the context of thread B at \<open>0x2000\<close> has its stack at \<open>0x3000\<close>.\<close>

definition demo_machine :: machine where
  "demo_machine = \<lparr>gpr = (\<lambda>_. 0)(2 := 0x1000, 8 := 42), pc = 0x500, mepc = 0, mcause = 0, mtvec = 0x40,
     wm = (\<lambda>_. 0)(0x200 := 0x2000, 0x2008 := 0x3000), user_handler = Some Ev_handler, rt_switch_to = 0, rt_switch_fromp = 0\<rparr>"

lemma ctx_block_list: "ctx_block a = set (map (\<lambda>i. a + 4 * of_nat i) [0..<19])"
  by (auto simp: ctx_block_def)

lemma upt_19: "[0..<19] = [0, 1, 2, 3, 4, 5, 6, 7, 8, 9, 10, 11, 12, 13, 14, 15, 16, 17, 18]"
  by (simp add: upt_rec)

lemma demo_block: "ctx_block 0xFB4 \<inter> ctx_block 0x2FB4 = {}" "0x100 \<notin> ctx_block 0xFB4" "0x200 \<notin> ctx_block 0xFB4" "0x200 \<notin> ctx_block 0x2FB4"
  "0x2008 \<notin> ctx_block 0xFB4"
  by (simp_all add: ctx_block_list upt_19)

theorem context_switch_roundtrip_witness:
  "\<exists>m1 m3. rt_hw_context_switch 0x500 0x100 0x200 demo_machine = Some m1 \<and> rt_hw_context_switch 0x600 0x200 0x100 m1 = Some m3 \<and>
     pc m3 = 0x504 \<and> gpr m3 8 = 42 \<and> gpr m3 2 = 0x1000"
proof -
  let ?m = demo_machine
  have m: "user_handler ?m = Some Ev_handler" "wm ?m 0x200 \<noteq> 0" "wm ?m 0x200 = 0x2000" "gpr ?m 2 = 0x1000" "gpr ?m 8 = 42" "wm ?m 0x2008 = 0x3000"
    by (simp_all add: demo_machine_def)
  have s: "(0x100 :: u32) = 0 \<or> 0x100 \<notin> ctx_block (gpr ?m 2 - 76)" using demo_block by (simp add: m)
  obtain m1 where a: "am_yield 0x500 (?m\<lparr>rt_switch_to := wm ?m 0x200, rt_switch_fromp := 0x100\<rparr>) = Some m1" "user_handler m1 = Some Ev_handler" and
    m1: "\<And>a. a \<notin> ctx_block (gpr ?m 2 - 76) \<Longrightarrow> a \<noteq> 0x100 \<Longrightarrow> wm m1 a = wm ?m a"
    "\<And>r. r \<in> {1..15} \<Longrightarrow> gpr m1 r = wm m1 (wm ?m 0x200 + 4 * of_nat r)"
    by (rule switch_effect [OF m(1,2) s, where at = "0x500"]) (rule that)
  have r: "rt_hw_context_switch 0x500 0x100 0x200 ?m = Some m1" using a(1) by (simp add: rt_hw_context_switch_def)
  have sp: "gpr m1 2 = 0x3000" using m1(2) [of 2] m1(1) [of "0x2008"] demo_block by (simp add: m)
  have "\<exists>m3. rt_hw_context_switch 0x600 0x200 0x100 m1 = Some m3 \<and> pc m3 = 0x500 + 4 \<and>
    (\<forall>r\<in>{1..15}. gpr m3 r = (if r = 5 then gpr ?m 2 else if r = 15 then -1 else gpr ?m r))"
    by (rule context_switch_roundtrip [OF m(1,2) _ _ _ _ r _ a(2)]) (use demo_block in \<open>auto simp: m sp\<close>)
  then show ?thesis using r by (auto simp: m)
qed

theorem new_thread_starts_witness:
  "\<exists>m1 sp m3. rt_hw_stack_init 0x800 7 0x4000 0x900 demo_machine = (m1, sp) \<and>
     rt_hw_context_switch 0x500 0x100 0x300 (store_word 0x300 sp m1) = Some m3 \<and> pc m3 = 0x800 \<and> gpr m3 10 = 7 \<and> unat sp + 80 \<le> 0x4000"
proof -
  obtain m1 sp where s: "rt_hw_stack_init 0x800 7 0x4000 0x900 demo_machine = (m1, sp)" by fastforce
  have sp: "sp = 0x3FB0" using stack_init_frame(1) [OF s] by simp
  have m1: "gpr m1 2 = 0x1000" "user_handler m1 = Some Ev_handler"
    using s by (auto simp: rt_hw_stack_init_def Let_def clear_context_def demo_machine_def upt_rec)
  have b: "ctx_block 0xFB4 \<inter> ctx_block 0x3FB0 = {}" "0x100 \<notin> ctx_block 0x3FB0" "0x300 \<notin> ctx_block 0x3FB0" "0x100 \<notin> ctx_block 0xFB4"
    by (simp_all add: ctx_block_list upt_19)
  have "\<exists>m3. rt_hw_context_switch 0x500 0x100 0x300 (store_word 0x300 sp m1) = Some m3 \<and> pc m3 = 0x800 \<and> gpr m3 10 = 7 \<and> gpr m3 1 = 0x900 \<and> gpr m3 2 = sp \<and>
    (\<forall>r\<in>{1..15} - {1, 2, 10}. gpr m3 r = 0) \<and> unat sp mod 16 = 0 \<and> unat sp + 80 \<le> unat (0x4000 :: u32)"
    by (rule new_thread_starts [OF s]) (use b in \<open>auto simp: m1 sp\<close>)
  then show ?thesis using s by auto
qed

end
