(* ===== verification/KState.thy ===== *)
theory KState
  imports Prelude "HOL-Library.Monad_Syntax"
begin

text \<open>
  The state of the RT-Thread kernel (single core, 32 priorities, the configuration of the
  abstract-machine port) and the primitives every kernel component uses.

  Threads and the other kernel objects are addresses (natural numbers).  The status byte of a thread
  is split into its state and the yield bit, which the code combines by masks.  Every thread has one
  list node \<open>tlist\<close>, which is in at most one of the kernel's thread lists; the lists are kept as a map
  from list heads to the threads on them, front first.  Removing the node takes the thread off
  whatever list it is on.  An operation returns \<open>None\<close> where an \<open>RT_ASSERT\<close> of the code fails or
  the code follows a null pointer: the system stops there.  Hooks are not installed.
\<close>

type_synonym tid = nat
type_synonym oid = nat

datatype suspend_flag = RT_INTERRUPTIBLE | RT_KILLABLE | RT_UNINTERRUPTIBLE

datatype thread_stat = TH_INIT | TH_CLOSE | TH_READY | TH_RUNNING | TH_SUSPEND suspend_flag

datatype err = RT_EOK | RT_ERROR | RT_ETIMEOUT | RT_EFULL | RT_EEMPTY | RT_ENOMEM | RT_EINTR | RT_EINVAL

datatype ipc_flag = RT_IPC_FLAG_FIFO | RT_IPC_FLAG_PRIO

text \<open>The heads of thread lists: the ready queue of a priority, the waiters of an IPC object, the
  suspended senders of a mailbox or message queue, and the defunct threads.\<close>

datatype qid = Ready nat | Wait oid | WaitSend oid | Defunct

text \<open>Timers: the timer built into a thread or a timer object of its own.  The timeout function is
  the thread timeout or one of the application's, by address.\<close>

datatype timer_id = ThreadTimer tid | Timer oid

datatype timeout_func = Thread_Timeout | App_Timeout nat

record rt_timer =
  activated :: bool
  periodic :: bool
  soft :: bool
  timeout_fn :: timeout_func
  timer_parm :: nat
  init_tick :: u32
  timeout_tick :: u32

record rt_thread =
  stat :: thread_stat
  yield :: bool
  error :: err
  init_priority :: nat
  current_priority :: nat
  number_mask :: u32
  pending_object :: "oid option"
  event_set :: u32
  event_info :: u8
  slice_tick :: u32
  remaining_tick :: u32

record rt_semaphore =
  sem_flag :: ipc_flag
  sem_value :: nat

record rt_mutex =
  mutex_flag :: ipc_flag
  ceiling_priority :: nat
  mutex_priority :: nat
  mutex_hold :: nat
  owner :: "tid option"

record rt_event =
  event_flag :: ipc_flag
  ev_set :: u32

record rt_mailbox =
  mb_flag :: ipc_flag
  msg_pool :: "u32 list"
  mb_size :: nat
  mb_entry :: nat
  in_offset :: nat
  out_offset :: nat

text \<open>A message block of a queue is named by its index in the pool; \<open>mq_next\<close> and \<open>mq_data\<close> are its link
  and its payload.\<close>

record rt_messagequeue =
  mq_flag :: ipc_flag
  msg_size :: nat
  max_msgs :: nat
  mq_entry :: nat
  mq_head :: "nat option"
  mq_tail :: "nat option"
  mq_free :: "nat option"
  mq_next :: "nat \<Rightarrow> nat option"
  mq_data :: "nat \<Rightarrow> u8 list"

text \<open>The kernel objects and their classes.\<close>

datatype obj = OThread tid | OSem oid | OMutex oid | OEvent oid | OMailBox oid | OMq oid | OTimer timer_id | OMemPool oid

datatype obj_class = Class_Null | Class_Thread | Class_Semaphore | Class_Mutex | Class_Event
  | Class_MailBox | Class_MessageQueue | Class_Timer | Class_MemPool

record rt_object =
  obj_type :: obj_class
  obj_static :: bool
  obj_name :: string

record kernel =
  objects :: "obj \<Rightarrow> rt_object"
  containers :: "obj_class \<Rightarrow> obj list"
  threads :: "tid \<Rightarrow> rt_thread"
  lists :: "qid \<Rightarrow> tid list"
  ready_group :: u32
  current :: "tid option"
  running_priority :: nat
  lock_nest :: "16 word"
  interrupt_nest :: nat
  tick :: u32
  timers :: "timer_id \<Rightarrow> rt_timer"
  timer_list :: "timer_id list"
  soft_timer_list :: "timer_id list"
  firing :: "timer_id list"
  soft_firing :: "timer_id list"
  soft_timer_busy :: bool
  timer_thread :: tid
  taken :: "tid \<Rightarrow> oid list"
  sems :: "oid \<Rightarrow> rt_semaphore"
  mutexes :: "oid \<Rightarrow> rt_mutex"
  events :: "oid \<Rightarrow> rt_event"
  mailboxes :: "oid \<Rightarrow> rt_mailbox"
  mqs :: "oid \<Rightarrow> rt_messagequeue"
  rt_errno :: err

definition rt_assert :: "bool \<Rightarrow> unit option" where
  "rt_assert b = (if b then Some () else None)"

lemma rt_assert_Some [simp]: "rt_assert b = Some u \<longleftrightarrow> b"
  by (simp add: rt_assert_def)

lemma rt_assert_bind [simp]: "rt_assert b \<bind> f = (if b then f () else None)"
  by (simp add: rt_assert_def)

definition upd_thread :: "tid \<Rightarrow> (rt_thread \<Rightarrow> rt_thread) \<Rightarrow> kernel \<Rightarrow> kernel" where
  "upd_thread t f k = k\<lparr>threads := (threads k)(t := f (threads k t))\<rparr>"

definition upd_timer :: "timer_id \<Rightarrow> (rt_timer \<Rightarrow> rt_timer) \<Rightarrow> kernel \<Rightarrow> kernel" where
  "upd_timer t f k = k\<lparr>timers := (timers k)(t := f (timers k t))\<rparr>"


subsection \<open>The thread lists\<close>

text \<open>\<open>rt_list_remove (&(thread->tlist))\<close>, and insertion of the node next to a list head.\<close>

definition tlist_remove :: "tid \<Rightarrow> kernel \<Rightarrow> kernel" where
  "tlist_remove t k = k\<lparr>lists := (\<lambda>q. removeAll t (lists k q))\<rparr>"

definition tlist_insert_after :: "qid \<Rightarrow> tid \<Rightarrow> kernel \<Rightarrow> kernel" where
  "tlist_insert_after q t k = k\<lparr>lists := (lists k)(q := t # lists k q)\<rparr>"

definition tlist_insert_before :: "qid \<Rightarrow> tid \<Rightarrow> kernel \<Rightarrow> kernel" where
  "tlist_insert_before q t k = k\<lparr>lists := (lists k)(q := lists k q @ [t])\<rparr>"

definition rt_list_isempty :: "qid \<Rightarrow> kernel \<Rightarrow> bool" where
  "rt_list_isempty q k \<longleftrightarrow> lists k q = []"

abbreviation suspended :: "rt_thread \<Rightarrow> bool" where
  "suspended th \<equiv> (case stat th of TH_SUSPEND _ \<Rightarrow> True | _ \<Rightarrow> False)"


subsection \<open>The kernel at reset\<close>

text \<open>All kernel variables are zero-initialised; the list heads are empty lists.\<close>

definition thread0 :: rt_thread where
  "thread0 = \<lparr>stat = TH_INIT, yield = False, error = RT_EOK, init_priority = 0, current_priority = 0,
     number_mask = 0, pending_object = None, event_set = 0, event_info = 0, slice_tick = 0, remaining_tick = 0\<rparr>"

definition kernel0 :: kernel where
  "kernel0 = \<lparr>objects = (\<lambda>_. \<lparr>obj_type = Class_Null, obj_static = False, obj_name = []\<rparr>),
     containers = (\<lambda>_. []), threads = (\<lambda>_. thread0), lists = (\<lambda>_. []), ready_group = 0, current = None,
     running_priority = 0, lock_nest = 0, interrupt_nest = 0, tick = 0,
     timers = (\<lambda>_. \<lparr>activated = False, periodic = False, soft = False, timeout_fn = Thread_Timeout,
       timer_parm = 0, init_tick = 0, timeout_tick = 0\<rparr>),
     timer_list = [], soft_timer_list = [], firing = [], soft_firing = [], soft_timer_busy = False, timer_thread = 0, taken = (\<lambda>_. []),
     sems = (\<lambda>_. \<lparr>sem_flag = RT_IPC_FLAG_FIFO, sem_value = 0\<rparr>),
     mutexes = (\<lambda>_. \<lparr>mutex_flag = RT_IPC_FLAG_FIFO, ceiling_priority = 0, mutex_priority = 0, mutex_hold = 0, owner = None\<rparr>),
     events = (\<lambda>_. \<lparr>event_flag = RT_IPC_FLAG_FIFO, ev_set = 0\<rparr>),
     mailboxes = (\<lambda>_. \<lparr>mb_flag = RT_IPC_FLAG_FIFO, msg_pool = [], mb_size = 0, mb_entry = 0, in_offset = 0, out_offset = 0\<rparr>),
     mqs = (\<lambda>_. \<lparr>mq_flag = RT_IPC_FLAG_FIFO, msg_size = 0, max_msgs = 0, mq_entry = 0, mq_head = None, mq_tail = None,
       mq_free = None, mq_next = (\<lambda>_. None), mq_data = (\<lambda>_. [])\<rparr>), rt_errno = RT_EOK\<rparr>"

end
