(* ===== verification/SmallMem.thy ===== *)
theory SmallMem
  imports KState Allocator
begin

text \<open>
  The small memory manager (\<open>src/mem.c\<close>), which is the kernel's heap.  Every block starts with a header
  (\<open>rt_small_mem_item\<close>) that links it to its neighbours; headers are found by their offset from \<open>heap_ptr\<close>.
  Offsets and sizes inside the heap are numbers below \<open>2 ^ 32\<close>; sizes asked for and addresses are 32-bit
  words.  The bytes of the blocks are no part of this state, and \<open>smem_run_safe\<close> shows that no block ever
  overlaps a header or another block.
\<close>

subsection \<open>The code\<close>

definition RT_ALIGN :: "u32 \<Rightarrow> u32 \<Rightarrow> u32" where
  "RT_ALIGN sz align = (sz + align - 1) AND NOT (align - 1)"

definition RT_ALIGN_DOWN :: "u32 \<Rightarrow> u32 \<Rightarrow> u32" where
  "RT_ALIGN_DOWN sz align = sz AND NOT (align - 1)"

abbreviation (input) RT_ALIGN_SIZE :: u32 where "RT_ALIGN_SIZE \<equiv> 8"

record smem_item =
  pool_ptr :: u32
  item_next :: nat
  item_prev :: nat
  item_thread :: string

record small_mem =
  smem_self :: addr
  attached :: bool
  mem_total :: nat
  mem_used :: nat
  mem_max :: nat
  heap_ptr :: addr
  heap_end :: nat
  lfree :: nat
  mem_size_aligned :: nat
  items :: "nat \<Rightarrow> smem_item"

abbreviation (input) SIZEOF_STRUCT_MEM :: nat where "SIZEOF_STRUCT_MEM \<equiv> 16"
abbreviation (input) MIN_SIZE :: nat where "MIN_SIZE \<equiv> 12"
abbreviation (input) MIN_SIZE_ALIGNED :: nat where "MIN_SIZE_ALIGNED \<equiv> 16"

definition sizeof_small_mem :: u32 where "sizeof_small_mem = 72"

definition MEM_MASK :: u32 where "MEM_MASK = NOT 0 - 1"

definition MEM_USED :: "small_mem \<Rightarrow> u32" where
  "MEM_USED m = (smem_self m AND MEM_MASK) OR 1"

definition MEM_FREED :: "small_mem \<Rightarrow> u32" where
  "MEM_FREED m = (smem_self m AND MEM_MASK) OR 0"

definition MEM_ISUSED :: "smem_item \<Rightarrow> bool" where
  "MEM_ISUSED it \<longleftrightarrow> pool_ptr it AND NOT MEM_MASK \<noteq> 0"

definition MEM_POOL :: "smem_item \<Rightarrow> addr" where
  "MEM_POOL it = pool_ptr it AND MEM_MASK"

definition rt_smem_setname :: "string \<Rightarrow> smem_item \<Rightarrow> smem_item" where
  "rt_smem_setname name it = it\<lparr>item_thread := take 4 (take 4 name @ replicate 4 (CHR '' ''))\<rparr>"

definition upd_item :: "nat \<Rightarrow> (smem_item \<Rightarrow> smem_item) \<Rightarrow> small_mem \<Rightarrow> small_mem" where
  "upd_item p f m = m\<lparr>items := (items m)(p := f (items m p))\<rparr>"

text \<open>The address of an offset.\<close>

definition heap_at :: "small_mem \<Rightarrow> nat \<Rightarrow> addr" where
  "heap_at m p = heap_ptr m + of_nat p"

text \<open>The block at \<open>q\<close> becomes part of the block at \<open>p\<close> before it; both halves of \<open>plug_holes\<close> do this.\<close>

definition smem_merge :: "nat \<Rightarrow> nat \<Rightarrow> small_mem \<Rightarrow> small_mem" where
  "smem_merge p q m =
     (let m = (if lfree m = q then m\<lparr>lfree := p\<rparr> else m);
          m = upd_item q (\<lambda>it. it\<lparr>pool_ptr := 0\<rparr>) m;
          m = upd_item p (\<lambda>it. it\<lparr>item_next := item_next (items m q)\<rparr>) m
      in upd_item (item_next (items m q)) (\<lambda>it. it\<lparr>item_prev := p\<rparr>) m)"

definition plug_forward :: "nat \<Rightarrow> small_mem \<Rightarrow> small_mem" where
  "plug_forward mem m =
     (let nmem = item_next (items m mem)
      in if mem \<noteq> nmem \<and> \<not> MEM_ISUSED (items m nmem) \<and> nmem \<noteq> heap_end m then smem_merge mem nmem m else m)"

definition plug_backward :: "nat \<Rightarrow> small_mem \<Rightarrow> small_mem" where
  "plug_backward mem m =
     (let pmem = item_prev (items m mem)
      in if pmem \<noteq> mem \<and> \<not> MEM_ISUSED (items m pmem) then smem_merge pmem mem m else m)"

definition plug_holes :: "nat \<Rightarrow> small_mem \<Rightarrow> small_mem option" where
  "plug_holes mem m =
     do {
       rt_assert (heap_ptr m \<le> heap_at m mem);
       rt_assert (heap_at m mem < heap_at m (heap_end m));
       Some (plug_backward mem (plug_forward mem m))
     }"

text \<open>The two headers of a fresh heap.  \<open>garbage\<close> is what the memory held before.\<close>

definition smem_fresh :: "(nat \<Rightarrow> smem_item) \<Rightarrow> addr \<Rightarrow> addr \<Rightarrow> nat \<Rightarrow> small_mem" where
  "smem_fresh garbage self begin_align mem_size =
     (let m = \<lparr>smem_self = self, attached = True, mem_total = mem_size, mem_used = 0, mem_max = 0,
               heap_ptr = begin_align, heap_end = 0, lfree = 0, mem_size_aligned = mem_size, items = garbage\<rparr>;
          m = upd_item 0 (\<lambda>it. rt_smem_setname ''INIT'' (it\<lparr>item_next := mem_size_aligned m + SIZEOF_STRUCT_MEM, item_prev := 0,
                pool_ptr := MEM_FREED m\<rparr>)) m;
          m = m\<lparr>heap_end := item_next (items m 0)\<rparr>;
          m = upd_item (heap_end m) (\<lambda>it. rt_smem_setname ''INIT'' (it\<lparr>item_next := mem_size_aligned m + SIZEOF_STRUCT_MEM,
                item_prev := mem_size_aligned m + SIZEOF_STRUCT_MEM, pool_ptr := MEM_USED m\<rparr>)) m
      in m\<lparr>lfree := 0\<rparr>)"

definition rt_smem_init :: "(nat \<Rightarrow> smem_item) \<Rightarrow> addr \<Rightarrow> u32 \<Rightarrow> small_mem option" where
  "rt_smem_init garbage begin_addr sz =
     (let self = RT_ALIGN begin_addr RT_ALIGN_SIZE;
          start_addr = self + sizeof_small_mem;
          begin_align = RT_ALIGN start_addr RT_ALIGN_SIZE;
          end_align = RT_ALIGN_DOWN (begin_addr + sz) RT_ALIGN_SIZE
      in if end_align > 2 * 16 \<and> end_align - 2 * 16 \<ge> start_addr
         then Some (smem_fresh garbage self begin_align (unat (end_align - begin_align - 2 * 16)))
         else None)"

definition rt_smem_detach :: "small_mem \<Rightarrow> (small_mem \<times> err) option" where
  "rt_smem_detach m = do { rt_assert (attached m); Some (m\<lparr>attached := False\<rparr>, RT_EOK) }"

text \<open>The search of \<open>rt_smem_alloc\<close>, and the loop that moves the lowest-free pointer on.\<close>

partial_function (option) smem_search :: "small_mem \<Rightarrow> nat \<Rightarrow> nat \<Rightarrow> nat option option" where
  "smem_search m sz ptr =
     (if ptr \<le> mem_size_aligned m - sz
      then if \<not> MEM_ISUSED (items m ptr) \<and> item_next (items m ptr) - (ptr + SIZEOF_STRUCT_MEM) \<ge> sz
           then Some (Some ptr)
           else smem_search m sz (item_next (items m ptr))
      else Some None)"

partial_function (option) next_free :: "small_mem \<Rightarrow> nat \<Rightarrow> nat option" where
  "next_free m p =
     (if MEM_ISUSED (items m p) \<and> p \<noteq> heap_end m then next_free m (item_next (items m p)) else Some p)"

definition account :: "nat \<Rightarrow> small_mem \<Rightarrow> small_mem" where
  "account n m =
     (let m = m\<lparr>mem_used := mem_used m + n\<rparr>
      in if mem_max m < mem_used m then m\<lparr>mem_max := mem_used m\<rparr> else m)"

text \<open>A new free block at \<open>ptr2\<close> behind the block at \<open>ptr\<close>.\<close>

definition smem_split :: "nat \<Rightarrow> nat \<Rightarrow> small_mem \<Rightarrow> small_mem" where
  "smem_split ptr ptr2 m =
     (let m = upd_item ptr2 (\<lambda>it. rt_smem_setname ''    '' (it\<lparr>pool_ptr := MEM_FREED m, item_next := item_next (items m ptr), item_prev := ptr\<rparr>)) m;
          m = upd_item ptr (\<lambda>it. it\<lparr>item_next := ptr2\<rparr>) m
      in if item_next (items m ptr2) \<noteq> mem_size_aligned m + SIZEOF_STRUCT_MEM
         then upd_item (item_next (items m ptr2)) (\<lambda>it. it\<lparr>item_prev := ptr2\<rparr>) m else m)"

text \<open>The block at \<open>ptr\<close> is taken for a request of \<open>sz\<close> bytes.  \<open>name\<close> is the name of the current thread, if there is
  one.\<close>

definition smem_taken :: "string option \<Rightarrow> nat \<Rightarrow> nat \<Rightarrow> small_mem \<Rightarrow> small_mem" where
  "smem_taken name sz ptr m =
     (let m = (if item_next (items m ptr) - (ptr + SIZEOF_STRUCT_MEM) \<ge> sz + SIZEOF_STRUCT_MEM + MIN_SIZE_ALIGNED
         then account (sz + SIZEOF_STRUCT_MEM) (smem_split ptr (ptr + SIZEOF_STRUCT_MEM + sz) m)
         else account (item_next (items m ptr) - ptr) m)
      in upd_item ptr (\<lambda>it. rt_smem_setname (case name of Some n \<Rightarrow> n | None \<Rightarrow> ''NONE'') (it\<lparr>pool_ptr := MEM_USED m\<rparr>)) m)"

definition rt_smem_alloc :: "string option \<Rightarrow> u32 \<Rightarrow> small_mem \<Rightarrow> (small_mem \<times> addr) option" where
  "rt_smem_alloc name sz m =
     (if sz = 0 then Some (m, NULL)
      else do {
        rt_assert (attached m);
        let sz = unat (RT_ALIGN sz RT_ALIGN_SIZE);
        let sz = (if sz < MIN_SIZE_ALIGNED then MIN_SIZE_ALIGNED else sz);
        if sz > mem_size_aligned m then Some (m, NULL)
        else do {
          r \<leftarrow> smem_search m sz (lfree m);
          case r of
            None \<Rightarrow> Some (m, NULL)
          | Some ptr \<Rightarrow> do {
              let m = smem_taken name sz ptr m;
              m \<leftarrow> (if ptr = lfree m then do {
                       l \<leftarrow> next_free m (lfree m);
                       let m = m\<lparr>lfree := l\<rparr>;
                       rt_assert (lfree m = heap_end m \<or> \<not> MEM_ISUSED (items m (lfree m)));
                       Some m
                     }
                     else Some m);
              rt_assert (heap_at m (ptr + SIZEOF_STRUCT_MEM + sz) \<le> heap_at m (heap_end m));
              rt_assert (heap_at m (ptr + SIZEOF_STRUCT_MEM) mod RT_ALIGN_SIZE = 0);
              rt_assert (heap_at m ptr AND (RT_ALIGN_SIZE - 1) = 0);
              Some (m, heap_at m (ptr + SIZEOF_STRUCT_MEM))
            }
        }
      })"

definition smem_freed :: "nat \<Rightarrow> small_mem \<Rightarrow> small_mem" where
  "smem_freed mem m =
     (let m = upd_item mem (\<lambda>it. rt_smem_setname ''    '' (it\<lparr>pool_ptr := MEM_FREED m\<rparr>)) m;
          m = (if mem < lfree m then m\<lparr>lfree := mem\<rparr> else m)
      in m\<lparr>mem_used := mem_used m - (item_next (items m mem) - mem)\<rparr>)"

text \<open>The code finds the heap through the header of the block; a block whose header names no heap, or one that
  is not a memory object, fails an assertion, and here so does a header that names another heap.\<close>

definition rt_smem_free :: "addr \<Rightarrow> small_mem \<Rightarrow> small_mem option" where
  "rt_smem_free rmem m =
     (if rmem = NULL then Some m
      else do {
        rt_assert (rmem AND (RT_ALIGN_SIZE - 1) = 0);
        let mem = unat (rmem - of_nat SIZEOF_STRUCT_MEM - heap_ptr m);
        rt_assert (MEM_POOL (items m mem) \<noteq> NULL);
        rt_assert (MEM_ISUSED (items m mem));
        rt_assert (MEM_POOL (items m mem) = smem_self m \<and> attached m);
        rt_assert (rmem \<ge> heap_ptr m \<and> rmem < heap_at m (heap_end m));
        rt_assert (MEM_POOL (items m (item_next (items m mem))) = smem_self m);
        plug_holes mem (smem_freed mem m)
      })"


subsection \<open>The heap as a list of blocks\<close>

text \<open>A block is its length, header included, and whether it is in use.  \<open>lay its a p q ss\<close>: from offset \<open>p\<close> on the
  headers describe the blocks \<open>ss\<close> of the heap object \<open>a\<close>, the block before \<open>p\<close> starting at \<open>q\<close>.\<close>

type_synonym seg = "nat \<times> bool"

fun lay :: "(nat \<Rightarrow> smem_item) \<Rightarrow> addr \<Rightarrow> nat \<Rightarrow> nat \<Rightarrow> seg list \<Rightarrow> bool" where
  "lay its a p q [] \<longleftrightarrow> True"
| "lay its a p q ((n, u) # ss) \<longleftrightarrow> item_next (its p) = p + n \<and> item_prev (its p) = q \<and> (MEM_ISUSED (its p) \<longleftrightarrow> u) \<and>
     MEM_POOL (its p) = a \<and> 16 \<le> n \<and> (u \<longrightarrow> 24 \<le> n) \<and> 8 dvd n \<and> lay its a (p + n) p ss"

definition seg_total :: "seg list \<Rightarrow> nat" where
  "seg_total ss = sum_list (map fst ss)"

definition used_total :: "seg list \<Rightarrow> nat" where
  "used_total ss = sum_list (map fst (filter snd ss))"

fun lastp :: "nat \<Rightarrow> nat \<Rightarrow> seg list \<Rightarrow> nat" where
  "lastp p q [] = q"
| "lastp p q (s # ss) = lastp (p + fst s) p ss"

fun coalesced :: "seg list \<Rightarrow> bool" where
  "coalesced (s # t # ss) \<longleftrightarrow> (snd s \<or> snd t) \<and> coalesced (t # ss)"
| "coalesced ss \<longleftrightarrow> True"

fun first_free :: "nat \<Rightarrow> seg list \<Rightarrow> nat" where
  "first_free p [] = p"
| "first_free p ((n, u) # ss) = (if u then first_free (p + n) ss else p)"

definition smem_wf :: "small_mem \<Rightarrow> seg list \<Rightarrow> bool" where
  "smem_wf m ss \<longleftrightarrow> attached m \<and> smem_self m \<noteq> 0 \<and> smem_self m AND MEM_MASK = smem_self m \<and>
     8 dvd unat (heap_ptr m) \<and> unat (heap_ptr m) + heap_end m + 16 \<le> 2 ^ 32 \<and>
     heap_end m = mem_size_aligned m + 16 \<and> seg_total ss = heap_end m \<and> lay (items m) (smem_self m) 0 0 ss \<and>
     MEM_ISUSED (items m (heap_end m)) \<and> MEM_POOL (items m (heap_end m)) = smem_self m \<and>
     lfree m = first_free 0 ss \<and> mem_used m = used_total ss \<and> mem_used m \<le> mem_max m"

definition smem_inv :: "small_mem \<Rightarrow> seg list \<Rightarrow> bool" where
  "smem_inv m ss \<longleftrightarrow> smem_wf m ss \<and> coalesced ss"

subsection \<open>What the operations do to the blocks\<close>

text \<open>Allocation takes the first free block that is large enough and cuts off what is not needed, if a block of its
  own can be made of it.\<close>

fun first_fit :: "nat \<Rightarrow> nat \<Rightarrow> seg list \<Rightarrow> (nat \<times> seg list) option" where
  "first_fit sz p [] = None"
| "first_fit sz p ((n, u) # ss) =
     (if \<not> u \<and> sz + 16 \<le> n
      then Some (p, if sz + 48 \<le> n then (sz + 16, True) # (n - (sz + 16), False) # ss else (n, True) # ss)
      else map_option (\<lambda>(q, ss'). (q, (n, u) # ss')) (first_fit sz (p + n) ss))"

text \<open>Freeing joins the block with its free neighbours.\<close>

fun join :: "seg \<Rightarrow> seg list \<Rightarrow> seg list" where
  "join (n, False) ((n', False) # ss) = (n + n', False) # ss"
| "join s ss = s # ss"

fun release :: "nat \<Rightarrow> seg list \<Rightarrow> seg list" where
  "release p [] = []"
| "release p ((n, u) # ss) = (if p = 0 then join (n, False) ss else join (n, u) (release (p - n) ss))"

subsection \<open>Facts about layouts\<close>

lemma total_simps [simp]: "seg_total [] = 0" "seg_total (s # ss) = fst s + seg_total ss" "seg_total (xs @ ys) = seg_total xs + seg_total ys"
  by (simp_all add: seg_total_def)

lemma used_total_simps [simp]:
  "used_total [] = 0" "used_total (s # ss) = (if snd s then fst s else 0) + used_total ss" "used_total (xs @ ys) = used_total xs + used_total ys"
  by (simp_all add: used_total_def)

lemma lay_append [simp]:
  "lay its a p q (xs @ ys) \<longleftrightarrow> lay its a p q xs \<and> lay its a (p + seg_total xs) (lastp p q xs) ys"
  by (induction its a p q xs rule: lay.induct) (auto simp: add.assoc)

lemma lastp_append [simp]: "lastp p q (xs @ [s]) = p + seg_total xs"
  by (induction p q xs rule: lastp.induct) auto

lemma lay_cong:
  assumes "lay its a p q ss" "\<And>x. p \<le> x \<Longrightarrow> x < p + seg_total ss \<Longrightarrow> its' x = its x"
  shows "lay its' a p q ss"
  using assms by (induction its a p q ss rule: lay.induct) auto

lemma lay_prev:
  assumes "lay its a p q ss" "\<And>x. p < x \<Longrightarrow> x < p + seg_total ss \<Longrightarrow> its' x = its x" "ss \<noteq> [] \<Longrightarrow> its' p = its p\<lparr>item_prev := q'\<rparr>"
  shows "lay its' a p q' ss"
proof (cases ss)
  case (Cons s ts)
  obtain n u where [simp]: "s = (n, u)" by fastforce
  have "lay its' a (p + n) p ts" by (rule lay_cong [of its]) (use assms(1,2) Cons in auto)
  moreover have "its' p = its p\<lparr>item_prev := q'\<rparr>" using assms(3) Cons by blast
  ultimately show ?thesis using assms(1) Cons by (simp add: MEM_ISUSED_def MEM_POOL_def)
qed simp

lemma lay_dvd: "lay its a p q ss \<Longrightarrow> 8 dvd seg_total ss"
  by (induction its a p q ss rule: lay.induct) auto

lemma first_free_append: "first_free p (xs @ ys) = (if \<forall>s\<in>set xs. snd s then first_free (p + seg_total xs) ys else first_free p xs)"
  by (induction p xs rule: first_free.induct) (auto simp: add.assoc)

lemma first_free_bounds: "p \<le> first_free p ss" "first_free p ss \<le> p + seg_total ss"
  by (induction p ss rule: first_free.induct) auto

lemma first_free_less: "\<not> (\<forall>s\<in>set ss. snd s) \<Longrightarrow> \<forall>s\<in>set ss. 0 < fst s \<Longrightarrow> first_free p ss < p + seg_total ss"
  by (induction p ss rule: first_free.induct) auto

lemma first_free_free: "lay its a p q ss \<Longrightarrow> first_free p ss = p + seg_total ss \<or> \<not> MEM_ISUSED (its (first_free p ss))"
  by (induction its a p q ss rule: lay.induct) auto

lemma coalesced_Cons: "coalesced (s # ss) \<longleftrightarrow> coalesced ss \<and> (ss = [] \<or> snd s \<or> snd (hd ss))"
  by (cases ss) auto

lemma coalesced_append:
  "coalesced (xs @ ys) \<longleftrightarrow> coalesced xs \<and> coalesced ys \<and> (xs = [] \<or> ys = [] \<or> snd (last xs) \<or> snd (hd ys))"
  by (induction xs rule: coalesced.induct) (auto simp: coalesced_Cons)

lemma lay_pos: "lay its a p q ss \<Longrightarrow> \<forall>s\<in>set ss. 16 \<le> fst s"
  by (induction its a p q ss rule: lay.induct) auto

lemma first_fit_too_small: "seg_total ss < sz + 16 \<Longrightarrow> first_fit sz p ss = None"
  by (induction sz p ss rule: first_fit.induct) auto

lemma first_fit_SomeD:
  assumes "first_fit sz p ss = Some (q, ss')"
  obtains xs n ys where "ss = xs @ (n, False) # ys" "q = p + seg_total xs" "sz + 16 \<le> n" "\<forall>s\<in>set xs. snd s \<or> fst s < sz + 16"
    "ss' = xs @ (if sz + 48 \<le> n then (sz + 16, True) # (n - (sz + 16), False) # ys else (n, True) # ys)"
  using assms
proof (induction sz p ss arbitrary: q ss' thesis rule: first_fit.induct)
  case (2 sz p n u ss)
  show ?case
  proof (cases "\<not> u \<and> sz + 16 \<le> n")
    case True
    then show ?thesis using 2(3) by (intro 2(2) [of "[]" n ss]) auto
  next
    case False
    with 2(3) obtain ss1 where ff: "first_fit sz (p + n) ss = Some (q, ss1)" and ss': "ss' = (n, u) # ss1" by (auto split: if_splits)
    show ?thesis
      by (rule 2(1) [OF False _ ff], rule 2(2) [of "(n, u) # _"]) (use False ss' in auto)
  qed
qed simp


subsection \<open>The loops\<close>

lemma search_spec:
  assumes "lay (items m) a p q ss" "p + seg_total ss = mem_size_aligned m + 16" "sz \<le> mem_size_aligned m"
  shows "smem_search m sz p = Some (map_option fst (first_fit sz p ss))"
  using assms
proof (induction ss arbitrary: p q)
  case Nil
  then have "\<not> p \<le> mem_size_aligned m - sz" by simp
  then show ?case by (subst smem_search.simps) simp
next
  case (Cons s ss)
  obtain n u where [simp]: "s = (n, u)" by fastforce
  show ?case
  proof (cases "p \<le> mem_size_aligned m - sz")
    case True
    have "smem_search m sz (p + n) = Some (map_option fst (first_fit sz (p + n) ss))" using Cons by auto
    then show ?thesis using True Cons.prems
      by (subst smem_search.simps) (auto simp: option.map_comp comp_def case_prod_beta)
  next
    case False
    then have "seg_total (s # ss) < sz + 16" using Cons.prems by simp
    from first_fit_too_small [OF this] False show ?thesis by (subst smem_search.simps) simp
  qed
qed

lemma next_free_spec:
  assumes "lay (items m) a p q ss" "p + seg_total ss = heap_end m"
  shows "next_free m p = Some (first_free p ss)"
  using assms
proof (induction ss arbitrary: p q)
  case Nil
  then show ?case by (subst next_free.simps) simp
next
  case (Cons s ss)
  obtain n u where [simp]: "s = (n, u)" by fastforce
  have "next_free m (p + n) = Some (first_free (p + n) ss)" using Cons by auto
  then show ?case using Cons.prems by (subst next_free.simps) auto
qed

text \<open>The search starts at the lowest free block, and misses nothing.\<close>

lemma first_fit_append:
  "\<forall>s\<in>set us. snd s \<Longrightarrow> first_fit sz p (us @ ss) = map_option (\<lambda>(q, ss'). (q, us @ ss')) (first_fit sz (p + seg_total us) ss)"
proof (induction us arbitrary: p)
  case Nil
  then show ?case by (cases "first_fit sz p ss") auto
next
  case (Cons s us)
  then show ?case by (cases s; cases "first_fit sz (p + seg_total (s # us)) ss") (auto simp: add.assoc)
qed

lemma lfree_split:
  obtains us ys where "ss = us @ ys" "\<forall>s\<in>set us. snd s" "first_free 0 ss = seg_total us"
proof -
  have "\<exists>us ys. ss = us @ ys \<and> (\<forall>s\<in>set us. snd s) \<and> first_free p ss = p + seg_total us" for p
  proof (induction p ss rule: first_free.induct)
    case (2 p n u ss)
    show ?case
    proof (cases u)
      case True
      with 2 obtain us ys where "ss = us @ ys \<and> (\<forall>s\<in>set us. snd s) \<and> first_free (p + n) ss = p + n + seg_total us" by blast
      then show ?thesis using True by - (rule exI [of _ "(n, u) # us"], rule exI [of _ ys], auto simp: add.assoc)
    next
      case False
      then show ?thesis by - (rule exI [of _ "[]"], simp)
    qed
  qed simp
  then show thesis using that by (metis add_0)
qed

lemma search_lfree:
  assumes "smem_wf m ss" "sz \<le> mem_size_aligned m"
  shows "smem_search m sz (lfree m) = Some (map_option fst (first_fit sz 0 ss))"
proof -
  obtain us ys where ss: "ss = us @ ys" "\<forall>s\<in>set us. snd s" "first_free 0 ss = seg_total us" by (rule lfree_split)
  have "smem_search m sz (seg_total us) = Some (map_option fst (first_fit sz (seg_total us) ys))"
    by (rule search_spec [of m "smem_self m" _ "lastp 0 0 us"]) (use assms ss in \<open>auto simp: smem_wf_def\<close>)
  then show ?thesis using assms(1) ss(2,3)
    by (simp add: smem_wf_def) (simp add: ss(1) first_fit_append option.map_comp comp_def case_prod_beta)
qed

subsection \<open>Headers\<close>

lemma MEM_MASK_eq: "MEM_MASK = NOT 1"
  by (simp add: MEM_MASK_def)

lemma item_flags [simp]:
  "MEM_ISUSED (it\<lparr>item_next := x\<rparr>) = MEM_ISUSED it" "MEM_POOL (it\<lparr>item_next := x\<rparr>) = MEM_POOL it"
  "MEM_ISUSED (it\<lparr>item_prev := x\<rparr>) = MEM_ISUSED it" "MEM_POOL (it\<lparr>item_prev := x\<rparr>) = MEM_POOL it"
  "MEM_ISUSED (rt_smem_setname nm it) = MEM_ISUSED it" "MEM_POOL (rt_smem_setname nm it) = MEM_POOL it"
  "item_next (rt_smem_setname nm it) = item_next it" "item_prev (rt_smem_setname nm it) = item_prev it"
  by (simp_all add: MEM_ISUSED_def MEM_POOL_def rt_smem_setname_def)

lemma used_bits: "(MEM_USED m AND NOT MEM_MASK) = 1" "MEM_USED m AND MEM_MASK = smem_self m AND MEM_MASK"
  "(MEM_FREED m AND NOT MEM_MASK) = 0" "MEM_FREED m AND MEM_MASK = smem_self m AND MEM_MASK"
  unfolding MEM_USED_def MEM_FREED_def MEM_MASK_eq
  by (rule bit_eqI; auto simp: bit_simps)+

lemma item_used [simp]:
  "MEM_ISUSED (it\<lparr>pool_ptr := MEM_USED m\<rparr>)" "MEM_POOL (it\<lparr>pool_ptr := MEM_USED m\<rparr>) = smem_self m AND MEM_MASK"
  "\<not> MEM_ISUSED (it\<lparr>pool_ptr := MEM_FREED m\<rparr>)" "MEM_POOL (it\<lparr>pool_ptr := MEM_FREED m\<rparr>) = smem_self m AND MEM_MASK"
  by (simp_all add: MEM_ISUSED_def MEM_POOL_def used_bits)

lemma upd_item_simps [simp]:
  "smem_self (upd_item p f m) = smem_self m" "attached (upd_item p f m) = attached m" "mem_total (upd_item p f m) = mem_total m"
  "mem_used (upd_item p f m) = mem_used m" "mem_max (upd_item p f m) = mem_max m" "heap_ptr (upd_item p f m) = heap_ptr m"
  "heap_end (upd_item p f m) = heap_end m" "lfree (upd_item p f m) = lfree m" "mem_size_aligned (upd_item p f m) = mem_size_aligned m"
  "items (upd_item p f m) = (items m)(p := f (items m p))"
  by (simp_all add: upd_item_def)

lemma account_simps [simp]:
  "smem_self (account n m) = smem_self m" "attached (account n m) = attached m" "mem_total (account n m) = mem_total m"
  "mem_used (account n m) = mem_used m + n" "mem_max (account n m) = max (mem_max m) (mem_used m + n)" "heap_ptr (account n m) = heap_ptr m"
  "heap_end (account n m) = heap_end m" "lfree (account n m) = lfree m" "mem_size_aligned (account n m) = mem_size_aligned m"
  "items (account n m) = items m"
  by (simp_all add: account_def Let_def)

lemma heap_at_upd [simp]:
  "heap_at (upd_item p f m) = heap_at m" "heap_at (m\<lparr>lfree := l\<rparr>) = heap_at m" "heap_at (m\<lparr>mem_used := u\<rparr>) = heap_at m"
  by (simp_all add: heap_at_def fun_eq_iff)

lemma smem_wfD:
  assumes "smem_wf m ss"
  shows "attached m" "smem_self m \<noteq> 0" "smem_self m AND MEM_MASK = smem_self m" "8 dvd unat (heap_ptr m)"
    "unat (heap_ptr m) + heap_end m + 16 \<le> 2 ^ 32" "heap_end m = mem_size_aligned m + 16" "seg_total ss = heap_end m"
    "lay (items m) (smem_self m) 0 0 ss" "MEM_ISUSED (items m (heap_end m))" "MEM_POOL (items m (heap_end m)) = smem_self m"
    "lfree m = first_free 0 ss" "mem_used m = used_total ss" "mem_used m \<le> mem_max m"
  using assms unfolding smem_wf_def by blast+

lemma smem_invD: "smem_inv m ss \<Longrightarrow> smem_wf m ss" "smem_inv m ss \<Longrightarrow> coalesced ss"
  by (simp_all add: smem_inv_def)

text \<open>Addresses do not wrap inside the heap.\<close>

lemma unat_heap_at: "smem_wf m ss \<Longrightarrow> p \<le> heap_end m \<Longrightarrow> unat (heap_at m p) = unat (heap_ptr m) + p"
  by (simp add: smem_wf_def heap_at_def unat_word_ariths unat_of_nat)

lemma heap_at_aligned:
  assumes "smem_wf m ss" "p \<le> heap_end m" "8 dvd p"
  shows "heap_at m p mod 8 = 0" "heap_at m p AND 7 = 0"
proof -
  have "8 dvd unat (heap_at m p)" using assms by (simp add: unat_heap_at smem_wfD)
  then show *: "heap_at m p mod 8 = 0" by (simp add: word_unat_eq_iff unat_mod dvd_eq_mod_eq_0)
  have "heap_at m p AND 7 = take_bit 3 (heap_at m p)" by (simp add: take_bit_eq_mask mask_eq_exp_minus_1)
  then have "heap_at m p AND 7 = heap_at m p mod 8" by (simp add: take_bit_eq_mod)
  then show "heap_at m p AND 7 = 0" using * by simp
qed


subsection \<open>Changing the layout\<close>

lemma lay_mark:
  assumes "lay its a p q (xs @ (n, u) # ys)" "r = p + seg_total xs"
    "\<And>x. x \<noteq> r \<Longrightarrow> its' x = its x" "item_next (its' r) = item_next (its r)" "item_prev (its' r) = item_prev (its r)"
    "MEM_ISUSED (its' r) = u'" "MEM_POOL (its' r) = a" "u' \<Longrightarrow> 24 \<le> n"
  shows "lay its' a p q (xs @ (n, u') # ys)"
proof -
  have "lay its' a p q xs" by (rule lay_cong [of its]) (use assms in auto)
  moreover have "lay its' a (r + n) r ys" by (rule lay_cong [of its]) (use assms in auto)
  ultimately show ?thesis using assms by auto
qed

lemma lay_split:
  assumes "lay its a p q (xs @ (n, u) # ys)" "r = p + seg_total xs" "16 \<le> k" "u1 \<Longrightarrow> 24 \<le> k" "16 \<le> n - k" "u2 \<Longrightarrow> 24 \<le> n - k" "8 dvd k"
    "\<And>x. x \<noteq> r \<Longrightarrow> x \<noteq> r + k \<Longrightarrow> x \<noteq> r + n \<Longrightarrow> its' x = its x"
    "item_next (its' r) = r + k" "item_prev (its' r) = item_prev (its r)" "MEM_ISUSED (its' r) = u1" "MEM_POOL (its' r) = a"
    "item_next (its' (r + k)) = r + n" "item_prev (its' (r + k)) = r" "MEM_ISUSED (its' (r + k)) = u2" "MEM_POOL (its' (r + k)) = a"
    "ys \<noteq> [] \<Longrightarrow> its' (r + n) = its (r + n)\<lparr>item_prev := r + k\<rparr>"
  shows "lay its' a p q (xs @ (k, u1) # (n - k, u2) # ys)"
proof -
  have "lay its' a p q xs" by (rule lay_cong [of its]) (use assms in auto)
  moreover have "lay its' a (r + n) (r + k) ys" by (rule lay_prev [of its _ _ r]) (use assms in auto)
  moreover have "8 dvd n - k" using assms(1,7) by (simp add: dvd_diff_nat)
  ultimately show ?thesis using assms by (auto simp: add.assoc)
qed

lemma lay_merge:
  assumes "lay its a p q (xs @ (n1, u1) # (n2, u2) # ys)" "r = p + seg_total xs"
    "\<And>x. x \<noteq> r \<Longrightarrow> x \<noteq> r + n1 \<Longrightarrow> x \<noteq> r + n1 + n2 \<Longrightarrow> its' x = its x"
    "item_next (its' r) = r + n1 + n2" "item_prev (its' r) = item_prev (its r)" "MEM_ISUSED (its' r) = u" "MEM_POOL (its' r) = a" "u \<Longrightarrow> 24 \<le> n1 + n2"
    "ys \<noteq> [] \<Longrightarrow> its' (r + n1 + n2) = its (r + n1 + n2)\<lparr>item_prev := r\<rparr>"
  shows "lay its' a p q (xs @ (n1 + n2, u) # ys)"
proof -
  have "lay its' a p q xs" by (rule lay_cong [of its]) (use assms in auto)
  moreover have "lay its' a (r + n1 + n2) r ys" by (rule lay_prev [of its _ _ "r + n1"]) (use assms in auto)
  ultimately show ?thesis using assms by (auto simp: add.assoc)
qed


subsection \<open>Allocation\<close>

lemma RT_ALIGN8: "RT_ALIGN x 8 = (x + 7) AND NOT 7" "RT_ALIGN_DOWN x 8 = x AND NOT 7"
  by (simp_all add: RT_ALIGN_def RT_ALIGN_DOWN_def add.commute)

lemma align8_dvd: "8 dvd unat (RT_ALIGN x 8)" "8 dvd unat (RT_ALIGN_DOWN x 8)"
  using round_up_mask [of "x + 7" 3] unat_push_drop [of 3 "x + 7"] round_up_mask [of x 3] unat_push_drop [of 3 x]
  by (simp_all add: RT_ALIGN8 mask_eq_exp_minus_1)

text \<open>The size of the block that a request gets.\<close>

definition block_size :: "u32 \<Rightarrow> nat" where
  "block_size sz = max 16 (unat (RT_ALIGN sz 8))"

lemma block_size: "16 \<le> block_size sz" "8 dvd block_size sz"
  using align8_dvd(1) [of sz] by (auto simp: block_size_def max_def)

lemma block_size_fits: "unat sz + 7 < 2 ^ 32 \<Longrightarrow> unat sz \<le> block_size sz"
  using unat_align8 [of sz] by (simp add: block_size_def RT_ALIGN8)

lemma smem_split_fields [simp]:
  "smem_self (smem_split p p2 m) = smem_self m" "attached (smem_split p p2 m) = attached m" "mem_total (smem_split p p2 m) = mem_total m"
  "mem_used (smem_split p p2 m) = mem_used m" "mem_max (smem_split p p2 m) = mem_max m" "heap_ptr (smem_split p p2 m) = heap_ptr m"
  "heap_end (smem_split p p2 m) = heap_end m" "lfree (smem_split p p2 m) = lfree m" "mem_size_aligned (smem_split p p2 m) = mem_size_aligned m"
  by (simp_all add: smem_split_def Let_def)

lemma smem_taken_fields [simp]:
  "smem_self (smem_taken nm z p m) = smem_self m" "attached (smem_taken nm z p m) = attached m" "mem_total (smem_taken nm z p m) = mem_total m"
  "heap_ptr (smem_taken nm z p m) = heap_ptr m" "heap_end (smem_taken nm z p m) = heap_end m" "lfree (smem_taken nm z p m) = lfree m"
  "mem_size_aligned (smem_taken nm z p m) = mem_size_aligned m" "heap_at (smem_taken nm z p m) = heap_at m"
  by (simp_all add: smem_taken_def Let_def heap_at_def fun_eq_iff)

lemma smem_taken_lay:
  assumes i: "smem_wf m (xs @ (n, False) # ys)" and z: "z + 16 \<le> n" "8 dvd z" "16 \<le> z" and p: "p = seg_total xs"
    and ss: "ss' = xs @ (if z + 48 \<le> n then (z + 16, True) # (n - (z + 16), False) # ys else (n, True) # ys)"
  shows "lay (items (smem_taken nm z p m)) (smem_self m) 0 0 ss'" (is ?lay)
    "MEM_ISUSED (items (smem_taken nm z p m) (heap_end m))" "MEM_POOL (items (smem_taken nm z p m) (heap_end m)) = smem_self m"
    "mem_used (smem_taken nm z p m) = used_total ss'" "mem_used (smem_taken nm z p m) \<le> mem_max (smem_taken nm z p m)"
proof -
  have l: "lay (items m) (smem_self m) 0 0 (xs @ (n, False) # ys)" and e: "p + n + seg_total ys = heap_end m" "heap_end m = mem_size_aligned m + 16"
    and a: "smem_self m AND MEM_MASK = smem_self m" and u: "mem_used m = used_total (xs @ ys)" "mem_used m \<le> mem_max m"
    and he: "MEM_ISUSED (items m (heap_end m))" "MEM_POOL (items m (heap_end m)) = smem_self m"
    using smem_wfD [OF i] p by simp_all
  have nx: "item_next (items m p) = p + n" using l p by simp
  have ys: "p + n = heap_end m \<longleftrightarrow> ys = []" using lay_pos [OF l] e by (cases ys) auto
  have sp: "item_next (items m p) - (p + 16) \<ge> z + 32 \<longleftrightarrow> z + 48 \<le> n" using nx z by auto
  show ?lay
  proof (cases "z + 48 \<le> n")
    case True
    have "lay (items (smem_taken nm z p m)) (smem_self m) 0 0 (xs @ (z + 16, True) # (n - (z + 16), False) # ys)"
      by (rule lay_split [OF l _, where r = p])
        (use True p z nx ys e a in \<open>auto simp: smem_taken_def sp smem_split_def Let_def add.commute add.left_commute\<close>)
    then show ?thesis using True ss by simp
  next
    case False
    have "lay (items (smem_taken nm z p m)) (smem_self m) 0 0 (xs @ (n, True) # ys)"
      by (rule lay_mark [OF l _, where r = p]) (use False p z nx a in \<open>auto simp: smem_taken_def sp Let_def\<close>)
    then show ?thesis using False ss by simp
  qed
  show "MEM_ISUSED (items (smem_taken nm z p m) (heap_end m))" "MEM_POOL (items (smem_taken nm z p m) (heap_end m)) = smem_self m"
    using he z e nx a by (auto simp: smem_taken_def sp smem_split_def Let_def)
  show "mem_used (smem_taken nm z p m) = used_total ss'" "mem_used (smem_taken nm z p m) \<le> mem_max (smem_taken nm z p m)"
    using u nx ss by (auto simp: smem_taken_def sp Let_def)
qed

lemma smem_alloc_refines:
  assumes i: "smem_inv m ss" and s: "sz \<noteq> 0"
  shows "case first_fit (block_size sz) 0 ss of
      None \<Rightarrow> rt_smem_alloc nm sz m = Some (m, NULL)
    | Some (p, ss') \<Rightarrow> \<exists>m'. rt_smem_alloc nm sz m = Some (m', heap_at m (p + 16)) \<and> smem_inv m' ss' \<and>
        heap_ptr m' = heap_ptr m \<and> heap_end m' = heap_end m \<and> mem_total m' = mem_total m"
proof -
  note w = smem_invD(1) [OF i]
  let ?z = "block_size sz"
  have z: "(if unat (RT_ALIGN sz 8) < 16 then 16 else unat (RT_ALIGN sz 8)) = ?z" by (simp add: block_size_def max_def)
  have at: "attached m" "seg_total ss = mem_size_aligned m + 16" using smem_wfD [OF w] by simp_all
  show ?thesis
  proof (cases "first_fit ?z 0 ss")
    case None
    then show ?thesis using s at search_lfree [OF w, of ?z] by (simp add: rt_smem_alloc_def Let_def z)
  next
    case (Some r)
    obtain p ss' where r: "r = (p, ss')" by fastforce
    obtain xs n ys where ss: "ss = xs @ (n, False) # ys" and p: "p = seg_total xs" and n: "?z + 16 \<le> n" and
      ss': "ss' = xs @ (if ?z + 48 \<le> n then (?z + 16, True) # (n - (?z + 16), False) # ys else (n, True) # ys)"
      by (rule first_fit_SomeD [OF Some [unfolded r]]) (simp only: add_0)
    let ?m = "smem_taken nm ?z p m"
    note tk = smem_taken_lay [OF w [unfolded ss] n block_size(2,1) p ss', of nm]
    have sr: "\<not> mem_size_aligned m < ?z" using Some at first_fit_too_small [of ss ?z 0] by auto
    then have sr': "smem_search m ?z (lfree m) = Some (Some p)" using search_lfree [OF w, of ?z] Some by (simp add: r)
    have t': "seg_total ss' = heap_end m" using smem_wfD(7) [OF w] n by (auto simp: ss ss')
    have co: "coalesced ss'" using smem_invD(2) [OF i] by (auto simp: ss ss' coalesced_append coalesced_Cons)
    have d: "8 dvd p" "p + 16 + ?z \<le> heap_end m"
      using smem_wfD(7,8) [OF w] n lay_dvd [of "items m" "smem_self m" 0 0 xs] by (auto simp: ss p)
    have as: "heap_at m (p + 16 + ?z) \<le> heap_at m (heap_end m)" "heap_at m (p + 16) mod 8 = 0" "heap_at m p AND 7 = 0"
      using heap_at_aligned [OF w] d unat_heap_at [OF w] by (auto simp: word_le_nat_alt)
    have "rt_smem_alloc nm sz m = Some (?m\<lparr>lfree := first_free 0 ss'\<rparr>, heap_at m (p + 16))"
    proof (cases "p = lfree m")
      case True
      then have au: "\<forall>s\<in>set xs. snd s" using first_free_less [of xs 0] smem_wfD(8,11) [OF w] lay_pos [of "items m" "smem_self m" 0 0 xs]
        by (fastforce simp: ss p first_free_append split: if_splits)
      have "next_free ?m p = Some (first_free p (drop (length xs) ss'))"
        by (rule next_free_spec [of _ "smem_self m" _ "lastp 0 0 xs"]) (use tk(1) t' ss' p in auto)
      then have fr: "next_free ?m p = Some (first_free 0 ss')" using au by (simp add: ss' p first_free_append)
      then have "first_free 0 ss' = heap_end m \<or> \<not> MEM_ISUSED (items ?m (first_free 0 ss'))"
        using first_free_free [OF tk(1)] t' by simp
      then show ?thesis using s at(1) sr sr' as True fr
        by (simp add: rt_smem_alloc_def Let_def z)
    next
      case False
      then have "\<not> (\<forall>s\<in>set xs. snd s)" using smem_wfD(11) [OF w] by (auto simp: ss p first_free_append split: if_splits)
      then have "first_free 0 ss' = lfree m" using smem_wfD(11) [OF w] by (auto simp: ss ss' first_free_append)
      then show ?thesis using s at(1) sr sr' as False
        by (simp add: rt_smem_alloc_def Let_def z)
    qed
    moreover have "smem_inv (?m\<lparr>lfree := first_free 0 ss'\<rparr>) ss'"
      using smem_wfD(1-6) [OF w] tk t' co by (simp add: smem_inv_def smem_wf_def)
    ultimately show ?thesis using Some r by auto
  qed
qed


subsection \<open>Freeing\<close>

lemma wf_merge:
  assumes w: "smem_wf m (xs @ (n1, False) # (n2, False) # ys)" and p: "p = seg_total xs" "q = p + n1"
  shows "smem_wf (smem_merge p q m) (xs @ (n1 + n2, False) # ys)"
proof -
  note l = smem_wfD(8) [OF w]
  have n: "item_next (items m q) = p + n1 + n2" "16 \<le> n1" "16 \<le> n2" "p + n1 + n2 + seg_total ys = heap_end m"
    using l p smem_wfD(7) [OF w] by (auto simp: add.assoc)
  have "first_free 0 (xs @ (n1, False) # (n2, False) # ys) \<le> p" using first_free_bounds(2) [of 0 xs] p by (auto simp: first_free_append)
  then have lf: "lfree m \<noteq> q" "first_free 0 (xs @ (n1 + n2, False) # ys) = lfree m"
    using smem_wfD(11) [OF w] p n by (auto simp: first_free_append)
  have "lay (items (smem_merge p q m)) (smem_self m) 0 0 (xs @ (n1 + n2, False) # ys)"
    by (rule lay_merge [OF l, where r = p]) (use p n l lf in \<open>auto simp: smem_merge_def Let_def\<close>)
  then show ?thesis using smem_wfD [OF w] n lf p by (auto simp: smem_wf_def smem_merge_def Let_def)
qed

lemma smem_merge_fields:
  "heap_ptr (smem_merge p q m) = heap_ptr m" "heap_end (smem_merge p q m) = heap_end m" "mem_total (smem_merge p q m) = mem_total m"
  by (simp_all add: smem_merge_def Let_def)

lemma plug_fields:
  "heap_ptr (plug_forward p m) = heap_ptr m" "heap_end (plug_forward p m) = heap_end m" "mem_total (plug_forward p m) = mem_total m"
  "heap_ptr (plug_backward p m) = heap_ptr m" "heap_end (plug_backward p m) = heap_end m" "mem_total (plug_backward p m) = mem_total m"
  by (simp_all add: plug_forward_def plug_backward_def smem_merge_fields Let_def)

lemma plug_forward_spec:
  assumes w: "smem_wf m (xs @ (n, False) # ys)" and p: "p = seg_total xs"
  shows "smem_wf (plug_forward p m) (xs @ join (n, False) ys)"
proof -
  note l = smem_wfD(8) [OF w]
  have n: "item_next (items m p) = p + n" "16 \<le> n" "p + n + seg_total ys = heap_end m" using l p smem_wfD(7) [OF w] by auto
  show ?thesis
  proof (cases "\<exists>n' ys'. ys = (n', False) # ys'")
    case True
    then obtain n' ys' where ys: "ys = (n', False) # ys'" by blast
    have "plug_forward p m = smem_merge p (p + n) m" using n l p by (auto simp: plug_forward_def ys)
    then show ?thesis using wf_merge [OF w [unfolded ys] p refl] by (simp add: ys)
  next
    case False
    then have "plug_forward p m = m \<and> join (n, False) ys = (n, False) # ys"
      using n l p by (cases ys) (auto simp: plug_forward_def)
    then show ?thesis using w by simp
  qed
qed

lemma plug_backward_spec:
  assumes w: "smem_wf m (xs @ (n, False) # ys)" and p: "p = seg_total xs"
  shows "smem_wf (plug_backward p m) (if xs \<noteq> [] \<and> \<not> snd (last xs) then butlast xs @ (fst (last xs) + n, False) # ys else xs @ (n, False) # ys)"
proof (cases xs rule: rev_cases)
  case Nil
  then show ?thesis using w smem_wfD(8) [OF w] p by (simp add: plug_backward_def Let_def)
next
  case (snoc zs s)
  obtain n0 u0 where s: "s = (n0, u0)" by fastforce
  have pr: "item_prev (items m p) = seg_total zs" "MEM_ISUSED (items m (seg_total zs)) = u0" "16 \<le> n0"
    using smem_wfD(8) [OF w] p by (auto simp: snoc s)
  show ?thesis
  proof (cases u0)
    case True
    then show ?thesis using pr w by (simp add: snoc s plug_backward_def)
  next
    case False
    then have "plug_backward p m = smem_merge (seg_total zs) p m" using pr p by (simp add: snoc s plug_backward_def Let_def)
    then show ?thesis using wf_merge [of m zs n0 n ys "seg_total zs" p] w p False by (simp add: snoc s)
  qed
qed

lemma join_free:
  "join (n, False) ys = (if ys \<noteq> [] \<and> \<not> snd (hd ys) then (n + fst (hd ys), False) # tl ys else (n, False) # ys)"
proof (cases ys)
  case (Cons s zs)
  then show ?thesis by (cases s; cases "snd s") auto
qed simp

lemma release_append:
  "lay its a p q xs \<Longrightarrow> release (seg_total xs) (xs @ (n, u) # ys) = foldr join xs (join (n, False) ys)"
  by (induction its a p q xs rule: lay.induct) auto

lemma foldr_join: "coalesced (xs @ [z]) \<Longrightarrow> foldr join xs (z # zs) = xs @ z # zs"
proof (induction xs)
  case (Cons x xs)
  then have "foldr join xs (z # zs) = xs @ z # zs" by (simp add: coalesced_Cons)
  then show ?case using Cons.prems by (cases x; cases z; cases "snd x"; cases xs) (auto simp: coalesced_Cons)
qed simp

lemma release_coalesced:
  assumes c: "coalesced (xs @ (n, True) # ys)" and l: "lay its a p q xs" and j: "join (n, False) ys = (n', False) # ys'"
    and r: "rs = (if xs \<noteq> [] \<and> \<not> snd (last xs) then butlast xs @ (fst (last xs) + n', False) # ys' else xs @ (n', False) # ys')"
  shows "release (seg_total xs) (xs @ (n, True) # ys) = rs" "coalesced rs"
proof -
  have cx: "coalesced xs" "coalesced ys" using c by (simp_all add: coalesced_append coalesced_Cons)
  have ys': "coalesced ((n0, False) # ys')" for n0
    using cx(2) j by (cases ys) (auto simp: join_free coalesced_Cons split: if_splits)
  have re: "release (seg_total xs) (xs @ (n, True) # ys) = foldr join xs ((n', False) # ys')" using release_append [OF l] j by simp
  have "release (seg_total xs) (xs @ (n, True) # ys) = rs \<and> coalesced rs"
  proof (cases xs rule: rev_cases)
    case Nil
    then show ?thesis using re ys' r by simp
  next
    case (snoc zs s)
    show ?thesis
    proof (cases "snd s")
      case True
      then have rs: "rs = xs @ (n', False) # ys'" using r by (simp add: snoc)
      have "coalesced (xs @ [(n', False)])" using cx(1) True by (simp add: snoc coalesced_append coalesced_Cons)
      moreover have "coalesced rs" using cx(1) True ys' by (simp add: rs coalesced_append) (simp add: snoc)
      ultimately show ?thesis using foldr_join re rs by simp
    next
      case False
      then have rs: "rs = zs @ (fst s + n', False) # ys'" using r by (simp add: snoc)
      have zs: "coalesced zs" "zs = [] \<or> snd (last zs)" using cx(1) False by (auto simp: snoc coalesced_append)
      then have "coalesced (zs @ [(fst s + n', False)])" by (auto simp: coalesced_append)
      moreover have "coalesced rs" using zs ys' by (auto simp: rs coalesced_append)
      ultimately show ?thesis using foldr_join [of zs "(fst s + n', False)" ys'] re rs False by (cases s) (simp add: snoc)
    qed
  qed
  then show "release (seg_total xs) (xs @ (n, True) # ys) = rs" "coalesced rs" by simp_all
qed

lemma smem_freed_fields [simp]:
  "smem_self (smem_freed p m) = smem_self m" "attached (smem_freed p m) = attached m" "mem_total (smem_freed p m) = mem_total m"
  "heap_ptr (smem_freed p m) = heap_ptr m" "heap_end (smem_freed p m) = heap_end m" "mem_size_aligned (smem_freed p m) = mem_size_aligned m"
  by (simp_all add: smem_freed_def Let_def)

lemma smem_freed_wf:
  assumes w: "smem_wf m (xs @ (n, True) # ys)" and p: "p = seg_total xs"
  shows "smem_wf (smem_freed p m) (xs @ (n, False) # ys)"
proof -
  note l = smem_wfD(8) [OF w]
  have n: "item_next (items m p) = p + n" "24 \<le> n" "p + n + seg_total ys = heap_end m" using l p smem_wfD(7) [OF w] by auto
  have "lay (items (smem_freed p m)) (smem_self m) 0 0 (xs @ (n, False) # ys)"
    by (rule lay_mark [OF l, where r = p]) (use p smem_wfD(3) [OF w] in \<open>auto simp: smem_freed_def Let_def\<close>)
  moreover have "lfree (smem_freed p m) = first_free 0 (xs @ (n, False) # ys)"
  proof (cases "\<forall>s\<in>set xs. snd s")
    case True
    then have "lfree m = first_free (p + n) ys" using smem_wfD(11) [OF w] p by (simp add: first_free_append)
    then show ?thesis using True n(2) first_free_bounds [of "p + n" ys] p by (simp add: smem_freed_def Let_def first_free_append)
  next
    case False
    moreover have "\<forall>s\<in>set xs. 0 < fst s" using lay_pos [OF l] by force
    then have "first_free 0 xs < p" using first_free_less [OF False, of 0] p by simp
    ultimately show ?thesis using smem_wfD(11) [OF w] by (auto simp: smem_freed_def Let_def first_free_append)
  qed
  moreover have "items (smem_freed p m) (heap_end m) = items m (heap_end m)" using n by (auto simp: smem_freed_def Let_def)
  moreover have "mem_used (smem_freed p m) = used_total (xs @ (n, False) # ys)" "mem_used (smem_freed p m) \<le> mem_max (smem_freed p m)"
    using smem_wfD(12,13) [OF w] n(1) by (auto simp: smem_freed_def Let_def)
  ultimately show ?thesis using smem_wfD(1-7,9,10) [OF w] unfolding smem_wf_def by simp
qed

text \<open>The checks of \<open>rt_smem_free\<close> pass for the address of a block in use.\<close>

lemma smem_free_checks:
  assumes w: "smem_wf m (xs @ (n, True) # ys)" and p: "p = seg_total xs"
  shows "rt_smem_free (heap_at m (p + 16)) m = plug_holes p (smem_freed p m)"
proof -
  note l = smem_wfD(8) [OF w]
  have hd: "item_next (items m p) = p + n" "MEM_ISUSED (items m p)" "MEM_POOL (items m p) = smem_self m" "24 \<le> n" "8 dvd p"
    using l p lay_dvd [of "items m" "smem_self m" 0 0 xs] by auto
  have pe: "p + n + seg_total ys = heap_end m" using smem_wfD(7) [OF w] p by simp
  have nxt: "MEM_POOL (items m (p + n)) = smem_self m" using l pe smem_wfD(10) [OF w] p by (cases ys) auto
  have ad: "unat (heap_at m (p + 16)) = unat (heap_ptr m) + p + 16" "heap_at m (p + 16) AND 7 = 0"
    using unat_heap_at [OF w, of "p + 16"] heap_at_aligned(2) [OF w, of "p + 16"] hd(4,5) pe by simp_all
  have "heap_at m (p + 16) - 16 - heap_ptr m = of_nat p" by (simp add: heap_at_def)
  then have of: "unat (heap_at m (p + 16) - 16 - heap_ptr m) = p" using smem_wfD(5) [OF w] pe by simp
  have nz: "heap_at m (p + 16) \<noteq> 0" "heap_ptr m \<le> heap_at m (p + 16)" using ad(1) by (auto simp: word_le_nat_alt)
  have lt: "heap_at m (p + 16) < heap_at m (heap_end m)" using unat_heap_at [OF w] ad(1) pe hd(4) by (simp add: word_less_nat_alt)
  show ?thesis using ad(2) of nz lt hd nxt smem_wfD(1,2) [OF w] by (simp add: rt_smem_free_def Let_def)
qed

lemma smem_free_refines:
  assumes i: "smem_inv m (xs @ (n, True) # ys)" and p: "p = seg_total xs"
  shows "\<exists>m'. rt_smem_free (heap_at m (p + 16)) m = Some m' \<and> smem_inv m' (release p (xs @ (n, True) # ys)) \<and>
    heap_ptr m' = heap_ptr m \<and> heap_end m' = heap_end m \<and> mem_total m' = mem_total m"
proof -
  note w = smem_invD(1) [OF i]
  note w1 = smem_freed_wf [OF w p] and l = smem_wfD(8) [OF w]
  obtain n' ys' where j: "join (n, False) ys = (n', False) # ys'" by (cases "ys \<noteq> [] \<and> \<not> snd (hd ys)") (auto simp: join_free)
  let ?m' = "plug_backward p (plug_forward p (smem_freed p m))"
  have "plug_holes p (smem_freed p m) = Some ?m'"
    using unat_heap_at [OF w1] smem_wfD(7,8) [OF w] p by (simp add: plug_holes_def word_le_nat_alt word_less_nat_alt)
  moreover have "smem_inv ?m' (release p (xs @ (n, True) # ys))"
    using plug_backward_spec [OF plug_forward_spec [OF w1 p, unfolded j] p]
      release_coalesced [OF smem_invD(2) [OF i] _ j refl, of "items m" "smem_self m" 0 0] l
    unfolding smem_inv_def p by simp
  ultimately show ?thesis using smem_free_checks [OF w p] by (simp add: plug_fields)
qed

subsection \<open>Initialisation\<close>

lemma unat_align:
  "unat x + 7 < 2 ^ 32 \<Longrightarrow> unat (RT_ALIGN x 8) = (unat x + 7) div 8 * 8" "unat (RT_ALIGN_DOWN x 8) = unat x div 8 * 8"
  using unat_align8 [of x] round_up_mask [of x 3] unat_push_drop [of 3 x] by (simp_all add: RT_ALIGN8 mask_eq_exp_minus_1)

lemma align_masked: "RT_ALIGN x 8 AND MEM_MASK = RT_ALIGN x 8"
  by (simp add: RT_ALIGN8 MEM_MASK_eq and.assoc)

lemma smem_fresh_fields:
  "smem_self (smem_fresh g self b n) = self" "attached (smem_fresh g self b n)" "heap_ptr (smem_fresh g self b n) = b"
  "mem_size_aligned (smem_fresh g self b n) = n" "heap_end (smem_fresh g self b n) = n + 16" "lfree (smem_fresh g self b n) = 0"
  "mem_used (smem_fresh g self b n) = 0" "mem_max (smem_fresh g self b n) = 0" "mem_total (smem_fresh g self b n) = n"
  by (simp_all add: smem_fresh_def Let_def)

lemma smem_fresh_inv:
  assumes "self \<noteq> 0" "self AND MEM_MASK = self" "8 dvd unat b" "8 dvd n" "unat b + n + 32 \<le> 2 ^ 32"
  shows "smem_inv (smem_fresh g self b n) [(heap_end (smem_fresh g self b n), False)]"
  using assms unfolding smem_inv_def smem_wf_def by (simp add: smem_fresh_fields) (simp add: smem_fresh_def Let_def)

lemma smem_init_inv:
  assumes "0 < unat begin_addr" "unat begin_addr + unat sz < 2 ^ 32" "128 \<le> unat sz"
  obtains m where "rt_smem_init garbage begin_addr sz = Some m" "smem_inv m [(heap_end m, False)]" "unat begin_addr < unat (heap_ptr m)"
    "unat (heap_ptr m) + heap_end m + 16 \<le> unat begin_addr + unat sz" "unat sz \<le> mem_size_aligned m + 128"
proof -
  let ?self = "RT_ALIGN begin_addr 8" and ?e = "RT_ALIGN_DOWN (begin_addr + sz) 8"
  let ?start = "?self + sizeof_small_mem"
  have S: "unat ?self = (unat begin_addr + 7) div 8 * 8" using assms by (intro unat_align) simp
  have E: "unat ?e = (unat begin_addr + unat sz) div 8 * 8" using assms by (simp add: unat_align(2) unat_word_ariths)
  have T: "unat ?start = unat ?self + 72" using assms S by (simp add: sizeof_small_mem_def unat_word_ariths)
  have B: "unat (RT_ALIGN ?start 8) = unat ?start" using assms S T by (subst unat_align) simp_all
  have c: "?e > 32" "unat (?e - 32) = unat ?e - 32" using E assms by (simp_all add: word_less_nat_alt unat_sub word_le_nat_alt)
  have c': "?e - 32 \<ge> ?start" using c(2) E S T assms by (simp add: word_le_nat_alt)
  have e: "unat ?start + 32 \<le> unat ?e" using E S T assms by simp
  then have M1: "unat (?e - RT_ALIGN ?start 8) = unat ?e - unat ?start" using B by (simp add: unat_sub word_le_nat_alt)
  then have M: "unat (?e - RT_ALIGN ?start 8 - 32) = unat ?e - unat ?start - 32"
    using e by (subst unat_sub) (simp_all add: word_le_nat_alt)
  let ?m = "smem_fresh garbage ?self (RT_ALIGN ?start 8) (unat ?e - unat ?start - 32)"
  have r: "rt_smem_init garbage begin_addr sz = Some ?m" using c c' M by (simp add: rt_smem_init_def Let_def)
  have d: "8 dvd unat ?e" "8 dvd unat ?start" using E S T by simp_all
  have "smem_inv ?m [(heap_end ?m, False)]"
    by (rule smem_fresh_inv) (use e d B S E assms(1,2) align_masked [of begin_addr] in \<open>auto simp: dvd_diff_nat\<close>)
  moreover have "unat begin_addr < unat (heap_ptr ?m)" "unat (heap_ptr ?m) + heap_end ?m + 16 \<le> unat begin_addr + unat sz"
    "unat sz \<le> mem_size_aligned ?m + 128"
    using B S T E e by (simp_all add: smem_fresh_fields)
  ultimately show thesis by (rule that [OF r])
qed


subsection \<open>The blocks in use\<close>

text \<open>The address and the size, without the header, of every block in use.\<close>

fun used_blocks :: "nat \<Rightarrow> seg list \<Rightarrow> (nat \<times> nat) set" where
  "used_blocks p [] = {}"
| "used_blocks p ((n, u) # ss) = (if u then insert (p + 16, n - 16) else id) (used_blocks (p + n) ss)"

lemma used_blocks_append [simp]: "used_blocks p (xs @ ys) = used_blocks p xs \<union> used_blocks (p + seg_total xs) ys"
  by (induction p xs rule: used_blocks.induct) (auto simp: add.assoc)

lemma used_blocks_range: "(b, c) \<in> used_blocks p ss \<Longrightarrow> lay its a r q ss \<Longrightarrow> p + 16 \<le> b \<and> b + c \<le> p + seg_total ss \<and> 8 \<le> c"
  by (induction p ss arbitrary: r q rule: used_blocks.induct) (fastforce split: if_splits)+

lemma used_blocks_dvd: "(b, c) \<in> used_blocks p ss \<Longrightarrow> lay its a r q ss \<Longrightarrow> 8 dvd p \<Longrightarrow> 8 dvd b"
  by (induction p ss arbitrary: r q rule: used_blocks.induct) (auto split: if_splits)

lemma used_blocks_disjoint:
  "x \<in> used_blocks p ss \<Longrightarrow> y \<in> used_blocks p ss \<Longrightarrow> x \<noteq> y \<Longrightarrow> lay its a r q ss \<Longrightarrow> block x \<inter> block y = {}"
proof (induction p ss arbitrary: r q rule: used_blocks.induct)
  case (2 p n u ss)
  have l: "lay its a (r + n) r ss" "u \<Longrightarrow> 24 \<le> n" using 2(5) by simp_all
  have below: "block (p + 16, n - 16) \<inter> block z = {}" if "z \<in> used_blocks (p + n) ss" "u" for z
    using used_blocks_range [of "fst z" "snd z" "p + n" ss, OF _ l(1)] that l(2) by (auto simp: block_def)
  show ?case using 2(1) [OF _ _ 2(4) l(1)] 2(2-4) below [of x] below [of y] by (auto split: if_splits)
qed simp

lemma used_block_split:
  "(b, c) \<in> used_blocks p ss \<Longrightarrow> lay its a r q ss \<Longrightarrow> \<exists>xs n ys. ss = xs @ (n, True) # ys \<and> b = p + seg_total xs + 16 \<and> n = c + 16"
proof (induction p ss arbitrary: r q rule: used_blocks.induct)
  case (2 p n u ss)
  show ?case
  proof (cases "u \<and> b = p + 16 \<and> c = n - 16")
    case True
    then show ?thesis using 2(3) by - (rule exI [of _ "[]"], simp)
  next
    case False
    then have "(b, c) \<in> used_blocks (p + n) ss" "lay its a (r + n) r ss" using 2(2,3) by (auto split: if_splits)
    then obtain xs m ys where "ss = xs @ (m, True) # ys" "b = p + n + seg_total xs + 16" "m = c + 16" using 2(1) by blast
    then show ?thesis by - (rule exI [of _ "(n, u) # xs"], auto)
  qed
qed simp

lemma used_blocks_fit:
  assumes "first_fit z 0 ss = Some (p, ss')"
  obtains c where "z \<le> c" "used_blocks 0 ss' = insert (p + 16, c) (used_blocks 0 ss)"
proof -
  obtain xs n ys where ss: "ss = xs @ (n, False) # ys" "p = seg_total xs" "z + 16 \<le> n"
    "ss' = xs @ (if z + 48 \<le> n then (z + 16, True) # (n - (z + 16), False) # ys else (n, True) # ys)"
    by (rule first_fit_SomeD [OF assms]) (simp only: add_0)
  show thesis by (rule that [of "if z + 48 \<le> n then z else n - 16"]) (use ss in auto)
qed

lemma used_blocks_join: "used_blocks p (join (n, u) ss) = used_blocks p ((n, u) # ss)"
  by (cases u) (auto simp: join_free neq_Nil_conv add.assoc)

lemma used_blocks_foldr: "used_blocks p (foldr join xs ss) = used_blocks p (xs @ ss)"
  by (induction xs arbitrary: p) (auto simp: used_blocks_join add.assoc)

lemma used_blocks_release:
  assumes l: "lay its a 0 0 (xs @ (n, True) # ys)" and p: "p = seg_total xs"
  shows "used_blocks 0 (release p (xs @ (n, True) # ys)) = used_blocks 0 (xs @ (n, True) # ys) - {(p + 16, n - 16)}"
proof -
  have "release p (xs @ (n, True) # ys) = foldr join xs (join (n, False) ys)" using release_append [of its a 0 0 xs] l p by simp
  moreover have "(p + 16, n - 16) \<notin> used_blocks 0 xs" using used_blocks_range [of "p + 16" "n - 16" 0 xs its a 0 0] l p by auto
  moreover have "(p + 16, n - 16) \<notin> used_blocks (p + n) ys" using used_blocks_range [of "p + 16" "n - 16" "p + n" ys its a "p + n" p] l p by auto
  ultimately show ?thesis using p by (auto simp: used_blocks_foldr used_blocks_join)
qed

end
