(* ===== verification/SmallHeap.thy ===== *)
theory SmallHeap
  imports SmallMem
begin

text \<open>
  What the small memory manager (\<open>SmallMem\<close>) promises: the theorems on its operations, and the contract of a heap
  (\<open>heap_allocator\<close>) for it.
\<close>

subsection \<open>The blocks, read off the headers\<close>

fun walk :: "nat \<Rightarrow> small_mem \<Rightarrow> nat \<Rightarrow> seg list" where
  "walk 0 m p = []"
| "walk (Suc f) m p =
     (if p = heap_end m then [] else (item_next (items m p) - p, MEM_ISUSED (items m p)) # walk f m (item_next (items m p)))"

definition segs :: "small_mem \<Rightarrow> seg list" where
  "segs m = walk (heap_end m) m 0"

definition smem_ok :: "small_mem \<Rightarrow> bool" where
  "smem_ok m \<longleftrightarrow> smem_inv m (segs m)"

lemma walk_lay:
  assumes "lay (items m) a p q ss" "p + seg_total ss = heap_end m" "length ss \<le> f"
  shows "walk f m p = ss"
  using assms
proof (induction ss arbitrary: f p q)
  case Nil
  then show ?case by (cases f) auto
next
  case (Cons s ss)
  obtain n u where s: "s = (n, u)" by fastforce
  obtain f' where f: "f = Suc f'" using Cons.prems(3) by (cases f) auto
  have "walk f' m (p + n) = ss" by (rule Cons.IH [of _ p]) (use Cons.prems s f in auto)
  then show ?case using Cons.prems by (simp add: s f)
qed

lemma length_seg_total: "\<forall>s\<in>set ss. 16 \<le> fst s \<Longrightarrow> length ss \<le> seg_total ss"
  by (induction ss) auto

lemma segs_inv: "smem_inv m ss \<Longrightarrow> segs m = ss"
  using smem_wfD(7,8) [of m ss] length_seg_total [OF lay_pos, of "items m" "smem_self m" 0 0 ss]
  unfolding segs_def by (intro walk_lay [of m "smem_self m" 0 0]) (auto simp: smem_inv_def)

lemma smem_okI: "smem_inv m ss \<Longrightarrow> smem_ok m \<and> segs m = ss"
  using segs_inv by (simp add: smem_ok_def)

lemma smem_okD: "smem_ok m \<Longrightarrow> smem_inv m (segs m)" "smem_ok m \<Longrightarrow> smem_wf m (segs m)"
  by (simp_all add: smem_ok_def smem_inv_def)

subsection \<open>The contract of a heap\<close>

definition shift_block :: "nat \<Rightarrow> nat \<times> nat \<Rightarrow> nat \<times> nat" where
  "shift_block k b = (k + fst b, snd b)"

lemma shift_block: "inj (shift_block k)" "block (shift_block k b) = (+) k ` block b"
  by (auto simp: shift_block_def inj_def block_def prod_eq_iff add.assoc)

definition smem_live :: "small_mem \<Rightarrow> (nat \<times> nat) set" where
  "smem_live m = shift_block (unat (heap_ptr m)) ` used_blocks 0 (segs m)"

definition smem_pool :: "small_mem \<Rightarrow> nat set" where
  "smem_pool m = {unat (heap_ptr m) ..< unat (heap_ptr m) + heap_end m}"

definition smem_size :: "nat \<Rightarrow> bool" where
  "smem_size n \<longleftrightarrow> n + 7 < 2 ^ 32"

definition smem_alloc_op :: "string option \<Rightarrow> small_mem \<Rightarrow> nat \<Rightarrow> (small_mem \<times> nat option) option" where
  "smem_alloc_op name m n = map_option (\<lambda>(m, p). (m, if p = NULL then None else Some (unat p))) (rt_smem_alloc name (of_nat n) m)"

definition smem_free_op :: "small_mem \<Rightarrow> nat \<Rightarrow> small_mem option" where
  "smem_free_op m p = rt_smem_free (of_nat p) m"

lemma smem_live_block:
  assumes "smem_ok m" "(a, c) \<in> smem_live m"
  obtains xs ys where "segs m = xs @ (c + 16, True) # ys" "a = unat (heap_at m (seg_total xs + 16))" "seg_total xs + 16 + c \<le> heap_end m"
    "8 dvd a" "8 \<le> c"
proof -
  note w = smem_okD(2) [OF assms(1)]
  obtain b where b: "(b, c) \<in> used_blocks 0 (segs m)" "a = unat (heap_ptr m) + b" using assms(2) by (auto simp: smem_live_def shift_block_def)
  obtain xs ys where x: "segs m = xs @ (c + 16, True) # ys" "b = seg_total xs + 16"
    using used_block_split [OF b(1) smem_wfD(8) [OF w]] by auto
  have l: "seg_total xs + 16 + c \<le> heap_end m" using smem_wfD(7) [OF w] x by simp
  have "unat (heap_at m b) = unat (heap_ptr m) + b" using unat_heap_at [OF w, of b] l x by simp
  moreover have "8 dvd a" using used_blocks_dvd [OF b(1) smem_wfD(8) [OF w]] smem_wfD(4) [OF w] b(2) by simp
  moreover have "8 \<le> c" using used_blocks_range [OF b(1) smem_wfD(8) [OF w]] by simp
  ultimately show thesis using that x l b(2) by simp
qed

lemma smem_live_disjoint:
  assumes "smem_ok m" "b \<in> smem_live m" "b' \<in> smem_live m" "b \<noteq> b'"
  shows "block b \<inter> block b' = {}"
proof -
  let ?k = "unat (heap_ptr m)"
  obtain x y where x: "b = shift_block ?k x" "x \<in> used_blocks 0 (segs m)" and y: "b' = shift_block ?k y" "y \<in> used_blocks 0 (segs m)"
    using assms(2,3) unfolding smem_live_def by blast
  have "block x \<inter> block y = {}"
    by (rule used_blocks_disjoint [OF x(2) y(2) _ smem_wfD(8) [OF smem_okD(2) [OF assms(1)]]]) (use assms(4) x y in blast)
  then show ?thesis unfolding x(1) y(1) shift_block(2) by (simp flip: image_Int)
qed

lemma fit_fresh:
  assumes "first_fit z 0 ss = Some (p, ss')" and l: "lay its a 0 0 ss"
  shows "(p + 16, c) \<notin> used_blocks 0 ss" "p + 16 \<le> seg_total ss"
proof -
  obtain xs n ys where ss: "ss = xs @ (n, False) # ys" "p = seg_total xs" "z + 16 \<le> n"
    by (rule first_fit_SomeD [OF assms(1)]) (rule that, simp_all)
  then have "(p + 16, c) \<notin> used_blocks 0 xs" "(p + 16, c) \<notin> used_blocks (p + n) ys"
    using used_blocks_range [of "p + 16" c 0 xs its a 0 0] used_blocks_range [of "p + 16" c "p + n" ys its a "p + n" p] l by auto
  then show "(p + 16, c) \<notin> used_blocks 0 ss" "p + 16 \<le> seg_total ss" using ss by auto
qed

lemma smem_alloc_contract:
  assumes ok: "smem_ok m" and n: "smem_size n"
  shows "\<exists>m' r. smem_alloc_op nm m n = Some (m', r) \<and> smem_ok m' \<and> smem_pool m' = smem_pool m \<and>
    (case r of None \<Rightarrow> smem_live m' = smem_live m | Some p \<Rightarrow> \<exists>c\<ge>n. (p, c) \<notin> smem_live m \<and> smem_live m' = insert (p, c) (smem_live m))"
proof -
  note i = smem_okD(1) [OF ok] and w = smem_okD(2) [OF ok]
  have n': "unat (of_nat n :: u32) = n" using n by (simp add: smem_size_def)
  show ?thesis
  proof (cases "n = 0 \<or> first_fit (block_size (of_nat n)) 0 (segs m) = None")
    case True
    then have "rt_smem_alloc nm (of_nat n) m = Some (m, NULL)"
    proof (cases "n = 0")
      case False
      then have "of_nat n \<noteq> (0 :: u32)" using n' by auto
      then show ?thesis using smem_alloc_refines [OF i, of "of_nat n" nm] True False by simp
    qed (simp add: rt_smem_alloc_def)
    then show ?thesis using ok by (simp add: smem_alloc_op_def)
  next
    case False
    then obtain p ss' where f: "first_fit (block_size (of_nat n)) 0 (segs m) = Some (p, ss')" by fastforce
    have "of_nat n \<noteq> (0 :: u32)" using n' False by auto
    then obtain m' where m': "rt_smem_alloc nm (of_nat n) m = Some (m', heap_at m (p + 16))" "smem_inv m' ss'" "heap_ptr m' = heap_ptr m" "heap_end m' = heap_end m"
      using smem_alloc_refines [OF i, of "of_nat n" nm] f by auto
    obtain c where c: "block_size (of_nat n) \<le> c" "used_blocks 0 ss' = insert (p + 16, c) (used_blocks 0 (segs m))" by (rule used_blocks_fit [OF f])
    have nb: "(p + 16, c) \<notin> used_blocks 0 (segs m)" "p + 16 \<le> heap_end m"
      using fit_fresh [OF f smem_wfD(8) [OF w]] smem_wfD(7) [OF w] by simp_all
    then have a: "unat (heap_at m (p + 16)) = unat (heap_ptr m) + (p + 16)" using unat_heap_at [OF w] by simp
    have "smem_live m' = insert (unat (heap_at m (p + 16)), c) (smem_live m)" "(unat (heap_at m (p + 16)), c) \<notin> smem_live m"
      using c(2) nb unfolding smem_live_def m'(3) segs_inv [OF m'(2)] a by (auto simp: shift_block_def)
    moreover have "n \<le> c" using block_size_fits [of "of_nat n"] n n' c(1) by (simp add: smem_size_def)
    moreover have "heap_at m (p + 16) \<noteq> 0" using a by auto
    ultimately show ?thesis using m' smem_okI [OF m'(2)] by (auto simp: smem_alloc_op_def smem_pool_def)
  qed
qed

lemma smem_free_contract:
  assumes ok: "smem_ok m" and l: "(p, c) \<in> smem_live m"
  shows "\<exists>m'. smem_free_op m p = Some m' \<and> smem_ok m' \<and> smem_pool m' = smem_pool m \<and> smem_live m' = smem_live m - {(p, c)}"
proof -
  obtain xs ys where x: "segs m = xs @ (c + 16, True) # ys" "p = unat (heap_at m (seg_total xs + 16))" "seg_total xs + 16 + c \<le> heap_end m"
    by (rule smem_live_block [OF ok l]) (rule that)
  obtain m' where m': "rt_smem_free (heap_at m (seg_total xs + 16)) m = Some m'" "smem_inv m' (release (seg_total xs) (segs m))"
    "heap_ptr m' = heap_ptr m" "heap_end m' = heap_end m"
    using smem_free_refines [OF smem_okD(1) [OF ok, unfolded x(1)] refl] unfolding x(1) by blast
  have a: "p = unat (heap_ptr m) + (seg_total xs + 16)" using unat_heap_at [OF smem_okD(2) [OF ok], of "seg_total xs + 16"] x by simp
  have "used_blocks 0 (segs m') = used_blocks 0 (segs m) - {(seg_total xs + 16, c)}"
    using used_blocks_release [of "items m" "smem_self m" xs "c + 16" ys] smem_wfD(8) [OF smem_okD(2) [OF ok]]
    unfolding segs_inv [OF m'(2)] x(1) by simp
  moreover have "(p, c) = shift_block (unat (heap_ptr m)) (seg_total xs + 16, c)" by (simp add: shift_block_def a)
  ultimately have "smem_live m' = smem_live m - {(p, c)}"
    unfolding smem_live_def m'(3) by (simp add: image_set_diff [OF shift_block(1)])
  moreover have "smem_free_op m p = Some m'" using m'(1) by (simp add: smem_free_op_def x(2))
  ultimately show ?thesis using smem_okI [OF m'(2)] m'(3,4) by (simp add: smem_pool_def)
qed

interpretation smem: heap_allocator smem_ok smem_live smem_pool smem_size "smem_alloc_op nm" smem_free_op for nm
proof
  fix m b assume ok: "smem_ok m" and b: "b \<in> smem_live m"
  obtain xs ys where "segs m = xs @ (snd b + 16, True) # ys" "fst b = unat (heap_at m (seg_total xs + 16))"
    "seg_total xs + 16 + snd b \<le> heap_end m" "8 \<le> snd b"
    by (rule smem_live_block [OF ok, of "fst b" "snd b"]) (use b that in auto)
  then show "block b \<subseteq> smem_pool m \<and> 0 < snd b"
    using unat_heap_at [OF smem_okD(2) [OF ok]] by (auto simp: block_def smem_pool_def)
qed (rule smem_live_disjoint smem_alloc_contract smem_free_contract; assumption)+

subsection \<open>The theorems\<close>

lemma fit_release:
  assumes "first_fit z 0 ss = Some (p, ss')" and c: "coalesced ss" and l: "lay its a 0 0 ss"
  obtains xs k ys where "ss' = xs @ (k, True) # ys" "p = seg_total xs" "release p ss' = ss"
proof -
  obtain xs n ys where ss: "ss = xs @ (n, False) # ys" "p = seg_total xs" "z + 16 \<le> n"
    "ss' = xs @ (if z + 48 \<le> n then (z + 16, True) # (n - (z + 16), False) # ys else (n, True) # ys)"
    by (rule first_fit_SomeD [OF assms(1)]) (rule that, simp_all)
  obtain k zs where k: "ss' = xs @ (k, True) # zs" "join (k, False) zs = (n, False) # ys"
    using ss c by (cases "z + 48 \<le> n") (auto simp: join_free coalesced_append coalesced_Cons)
  have "coalesced (xs @ [(n, False)])" using c by (auto simp: ss coalesced_append)
  then have "foldr join xs ((n, False) # ys) = ss" by (simp add: foldr_join ss)
  moreover have "lay its a 0 0 xs" using l by (simp add: ss)
  ultimately have "release p ss' = ss" using release_append k by (simp add: ss(2))
  then show thesis using that k(1) ss(2) by blast
qed

lemma all_free:
  assumes "used_blocks p ss = {}" "coalesced ss" "ss \<noteq> []"
  shows "ss = [(seg_total ss, False)]"
proof -
  obtain n u ys where ss: "ss = (n, u) # ys" using assms(3) by (cases ss) auto
  then have "\<not> u" "ys = [] \<or> snd (hd ys)" "used_blocks (p + n) ys = {}" using assms(1,2) by (auto simp: coalesced_Cons split: if_splits)
  then show ?thesis using ss by (cases ys) (auto split: if_splits)
qed

text \<open>
  C9: Allocation is first fit.  A request gets the first free block that is large enough, cut to size when the rest can
  make a block of its own, and fails only when no free block is large enough; all other blocks stay as they are.
\<close>
theorem smem_alloc_first_fit:
  assumes "smem_ok m" "sz \<noteq> 0"
  shows "case first_fit (max 16 (unat (RT_ALIGN sz 8))) 0 (segs m) of
      None \<Rightarrow> rt_smem_alloc nm sz m = Some (m, NULL)
    | Some (p, ss') \<Rightarrow> \<exists>m'. rt_smem_alloc nm sz m = Some (m', heap_at m (p + 16)) \<and> smem_ok m' \<and> segs m' = ss'"
  using smem_alloc_refines [OF smem_okD(1) [OF assms(1)] assms(2), of nm] smem_okI
  unfolding block_size_def by (fastforce split: option.splits)

text \<open>
  Freeing a block in use passes every check of the code, and the block becomes one with the free blocks next to
  it: no two free blocks are ever neighbours.
\<close>
theorem smem_free_coalesces:
  assumes ok: "smem_ok m" and s: "segs m = xs @ (n, True) # ys"
  shows "\<exists>m'. rt_smem_free (heap_at m (seg_total xs + 16)) m = Some m' \<and> smem_ok m' \<and> segs m' = release (seg_total xs) (segs m) \<and>
    coalesced (segs m')"
proof -
  obtain m' where "rt_smem_free (heap_at m (seg_total xs + 16)) m = Some m'" and i: "smem_inv m' (release (seg_total xs) (segs m))"
    using smem_free_refines [OF smem_okD(1) [OF ok, unfolded s] refl] unfolding s by blast
  then show ?thesis using smem_okI [OF i] smem_invD(2) [OF i] by simp
qed

text \<open>
  Freeing what was just allocated restores the blocks of the heap.
\<close>
theorem smem_alloc_free:
  assumes ok: "smem_ok m" and a: "rt_smem_alloc nm sz m = Some (m', p)" and p: "p \<noteq> NULL"
  shows "\<exists>m''. rt_smem_free p m' = Some m'' \<and> smem_ok m'' \<and> segs m'' = segs m"
proof -
  note i = smem_okD(1) [OF ok]
  have sz: "sz \<noteq> 0" using a p by (auto simp: rt_smem_alloc_def)
  obtain q ss' where f: "first_fit (block_size sz) 0 (segs m) = Some (q, ss')"
    using smem_alloc_refines [OF i sz, of nm] a p by (auto split: option.splits)
  then have m': "p = heap_at m (q + 16)" "smem_inv m' ss'" "heap_ptr m' = heap_ptr m"
    using smem_alloc_refines [OF i sz, of nm] a by auto
  obtain xs k ys where x: "ss' = xs @ (k, True) # ys" "q = seg_total xs" "release q ss' = segs m"
    by (rule fit_release [OF f smem_invD(2) [OF i] smem_wfD(8) [OF smem_okD(2) [OF ok]]])
  have "p = heap_at m' (q + 16)" using m'(1,3) by (simp add: heap_at_def)
  then show ?thesis using smem_free_refines [OF m'(2) [unfolded x(1)] x(2)] smem_okI x(3) unfolding x(1) by metis
qed

text \<open>
  C8: A client that allocates and frees in any order never makes the heap fail a check, and never holds two blocks
  that overlap; its blocks are aligned, lie in the memory the heap was given, and when it has given
  everything back the heap is one free block again.
\<close>
theorem smem_run_safe:
  assumes b: "0 < unat begin_addr" "unat begin_addr + unat sz < 2 ^ 32" "128 \<le> unat sz"
    and xs: "\<forall>x\<in>set xs. case x of Alloc n \<Rightarrow> n < 2 ^ 32 - 7 | Free _ \<Rightarrow> True"
  shows "\<exists>m0 m held. rt_smem_init garbage begin_addr sz = Some m0 \<and>
    heap_run (smem_alloc_op nm) smem_free_op xs (m0, []) = Some (m, held) \<and> smem_ok m \<and>
    sorted_wrt (\<lambda>x y. block x \<inter> block y = {}) held \<and>
    (\<forall>(p, n)\<in>set held. 8 dvd p \<and> unat begin_addr < p \<and> p + n \<le> unat begin_addr + unat sz) \<and>
    (held = [] \<longrightarrow> segs m = [(heap_end m, False)])"
proof -
  obtain m0 where m0: "rt_smem_init garbage begin_addr sz = Some m0" "smem_inv m0 [(heap_end m0, False)]" "unat begin_addr < unat (heap_ptr m0)"
    "unat (heap_ptr m0) + heap_end m0 + 16 \<le> unat begin_addr + unat sz"
    by (rule smem_init_inv [OF b]) (rule that)
  have ok0: "smem_ok m0" "segs m0 = [(heap_end m0, False)]" using smem_okI [OF m0(2)] by simp_all
  then have "holds smem_live m0 []" by (simp add: holds_def smem_live_def)
  moreover have "\<forall>x\<in>set xs. case x of Alloc n \<Rightarrow> smem_size n | _ \<Rightarrow> True" using xs by (force simp: smem_size_def split: heap_op.splits)
  ultimately obtain m held where r: "heap_run (smem_alloc_op nm) smem_free_op xs (m0, []) = Some (m, held)" and ok: "smem_ok m"
    and h: "holds smem_live m held" and pl: "smem_pool m = smem_pool m0" using smem.run_holds [OF ok0(1), where nm = nm] by blast
  have pe: "heap_ptr m = heap_ptr m0" "heap_end m = heap_end m0"
    using pl smem_wfD(6) [OF smem_okD(2) [OF ok]] smem_wfD(6) [OF smem_okD(2) [OF ok0(1)]]
    by (auto simp: smem_pool_def atLeastLessThan_eq_iff word_unat_eq_iff)
  have "8 dvd p \<and> unat begin_addr < p \<and> p + n \<le> unat begin_addr + unat sz" if pn: "(p, n) \<in> set held" for p n
  proof -
    obtain c where c: "n \<le> c" "(p, c) \<in> smem_live m" using h pn by (auto simp: holds_def)
    obtain zs where "p = unat (heap_at m (seg_total zs + 16))" "seg_total zs + 16 + c \<le> heap_end m" "8 dvd p"
      by (rule smem_live_block [OF ok c(2)]) (rule that)
    then show ?thesis using unat_heap_at [OF smem_okD(2) [OF ok]] m0(3,4) pe c(1) by simp
  qed
  moreover have "segs m = [(heap_end m, False)]" if "held = []"
  proof -
    have "used_blocks 0 (segs m) = {}" using h that by (simp add: holds_def smem_live_def)
    moreover have "segs m \<noteq> []" using smem_wfD(6,7) [OF smem_okD(2) [OF ok]] by auto
    ultimately show ?thesis using all_free smem_invD(2) [OF smem_okD(1) [OF ok]] smem_wfD(7) [OF smem_okD(2) [OF ok]] by metis
  qed
  ultimately show ?thesis using m0(1) r ok smem.holds_disjoint(1) [OF ok h] by blast
qed

text \<open>A request within 7 bytes of the largest size is rounded to zero and gets the smallest block.\<close>

lemma smem_alloc_wraps:
  assumes "2 ^ 32 - 7 \<le> unat sz"
  shows "rt_smem_alloc nm sz m = rt_smem_alloc nm 16 m"
proof -
  have "unat sz < 2 ^ 32" by (rule order.strict_trans2 [OF unsigned_less]) simp
  then have "unat (sz + 7) < 8" using assms by (simp add: unat_word_ariths le_mod_geq)
  then have "unat (RT_ALIGN sz 8) = 0" using round_up_mask [of "sz + 7" 3] unat_push_drop [of 3 "sz + 7"]
    by (simp add: RT_ALIGN8 mask_eq_exp_minus_1)
  moreover have "sz \<noteq> 0" using assms by auto
  ultimately show ?thesis by (simp add: rt_smem_alloc_def RT_ALIGN8)
qed

subsection \<open>Witnesses\<close>

definition demo_heap :: small_mem where
  "demo_heap = the (rt_smem_init (\<lambda>_. \<lparr>pool_ptr = 0, item_next = 0, item_prev = 0, item_thread = []\<rparr>) 4096 1024)"

lemma demo_heap: "smem_inv demo_heap [(936, False)]" "smem_ok demo_heap" "segs demo_heap = [(936, False)]"
proof -
  show i: "smem_inv demo_heap [(936, False)]"
    using smem_fresh_inv [of 4096 4168 920] by (simp add: demo_heap_def rt_smem_init_def Let_def sizeof_small_mem_def RT_ALIGN8 MEM_MASK_def smem_fresh_fields)
  show "smem_ok demo_heap" "segs demo_heap = [(936, False)]" using smem_okI [OF i] by simp_all
qed

lemma demo_fit: "first_fit (max 16 (unat (RT_ALIGN 100 8))) 0 (segs demo_heap) = Some (0, [(120, True), (816, False)])"
  by (simp add: demo_heap(3) RT_ALIGN8)

theorem smem_alloc_first_fit_witness:
  "\<exists>m. rt_smem_alloc None 100 demo_heap = Some (m, heap_at demo_heap 16) \<and> segs m = [(120, True), (816, False)]"
  using smem_alloc_first_fit [OF demo_heap(2), of 100 None] by (auto simp: demo_fit)

lemma demo_taken:
  obtains m where "rt_smem_alloc None 100 demo_heap = Some (m, heap_at demo_heap 16)" "smem_ok m" "segs m = [(120, True), (816, False)]"
    "heap_at m 16 = heap_at demo_heap 16" "heap_at demo_heap 16 \<noteq> 0"
proof -
  obtain m where m: "rt_smem_alloc None 100 demo_heap = Some (m, heap_at demo_heap 16)" "smem_inv m [(120, True), (816, False)]"
    "heap_ptr m = heap_ptr demo_heap" "heap_end m = heap_end demo_heap"
    using smem_alloc_refines [OF demo_heap(1), of 100 None] demo_fit unfolding demo_heap(3) by (auto simp: block_size_def)
  have nz: "heap_at demo_heap 16 \<noteq> 0" using unat_heap_at [OF smem_okD(2) [OF demo_heap(2)], of 16] smem_wfD(6) [OF smem_okD(2) [OF demo_heap(2)]] by auto
  show thesis by (rule that [OF m(1) _ _ _ nz]) (use m smem_okI [OF m(2)] in \<open>simp_all add: heap_at_def\<close>)
qed

theorem smem_free_coalesces_witness:
  "\<exists>m m'. rt_smem_alloc None 100 demo_heap = Some (m, heap_at demo_heap 16) \<and> rt_smem_free (heap_at m 16) m = Some m' \<and>
    segs m' = [(936, False)]"
proof -
  obtain m where m: "rt_smem_alloc None 100 demo_heap = Some (m, heap_at demo_heap 16)" "smem_ok m" "segs m = [] @ (120, True) # [(816, False)]"
    by (rule demo_taken) (use that in auto)
  show ?thesis using smem_free_coalesces [OF m(2,3)] m(1,3) by auto
qed

theorem smem_alloc_free_witness:
  "\<exists>m m'. rt_smem_alloc None 100 demo_heap = Some (m, heap_at demo_heap 16) \<and> rt_smem_free (heap_at demo_heap 16) m = Some m' \<and>
    segs m' = segs demo_heap"
proof -
  obtain m where m: "rt_smem_alloc None 100 demo_heap = Some (m, heap_at demo_heap 16)" "heap_at demo_heap 16 \<noteq> 0"
    by (rule demo_taken) (rule that)
  show ?thesis using smem_alloc_free [OF demo_heap(2) m(1,2)] m(1) by blast
qed

theorem smem_run_safe_witness:
  "\<exists>m0 m held. rt_smem_init (\<lambda>_. \<lparr>pool_ptr = 0, item_next = 0, item_prev = 0, item_thread = []\<rparr>) 4096 1024 = Some m0 \<and>
    heap_run (smem_alloc_op None) smem_free_op [Alloc 100, Alloc 2000, Alloc 20, Free 0] (m0, []) = Some (m, held) \<and>
    sorted_wrt (\<lambda>x y. block x \<inter> block y = {}) held"
proof -
  have "\<forall>x\<in>set [Alloc 100, Alloc 2000, Alloc 20, Free 0]. case x of Alloc n \<Rightarrow> n < 2 ^ 32 - 7 | Free _ \<Rightarrow> True" by simp
  from smem_run_safe [OF _ _ _ this, of 4096 1024] show ?thesis by (simp del: heap_run.simps) blast
qed

end
