(* ===== verification/KService.thy ===== *)
theory KService
  imports KString
begin

text \<open>
  The memory and string functions of the kernel (\<open>src/kservice.c\<close>).  A \<open>long\<close> in memory is its four bytes.  Loops
  that count are \<open>function\<close>s, loops that run to a NUL are \<open>partial_function\<close>s, as in \<open>KString\<close>.
\<close>

subsection \<open>The code\<close>

definition load_long :: "mem \<Rightarrow> addr \<Rightarrow> u8 list" where
  "load_long m a = [m a, m (a + 1), m (a + 2), m (a + 3)]"

definition store_long :: "mem \<Rightarrow> addr \<Rightarrow> u8 list \<Rightarrow> mem" where
  "store_long m a l = m(a := l ! 0, a + 1 := l ! 1, a + 2 := l ! 2, a + 3 := l ! 3)"

lemma count_down: "k \<noteq> 0 \<Longrightarrow> k \<le> count \<Longrightarrow> unat (count - k) < unat (count :: u32)"
  by (simp add: unat_sub word_le_nat_alt) (metis diff_less neq0_conv order.strict_trans2 unsigned_0 word_unat_eq_iff)

lemma count_down2: "n \<noteq> 1 \<Longrightarrow> unat (n - 2) < unat (n - (1 :: u32))"
  using measure_unat [of "n - 1"] by (simp add: diff_diff_eq)

function set_big :: "mem \<Rightarrow> addr \<Rightarrow> u8 list \<Rightarrow> u32 \<Rightarrow> mem \<times> addr \<times> u32" where
  "set_big m a buffer count =
     (if count \<ge> 16
      then (let m = store_long m a buffer;
                m = store_long m (a + 4) buffer;
                m = store_long m (a + 8) buffer;
                m = store_long m (a + 12) buffer
            in set_big m (a + 16) buffer (count - 16))
      else (m, a, count))"
  by pat_completeness auto
termination
  by (relation "measure (\<lambda>(m, a, buffer, count). unat count)") (auto intro: count_down)

function set_little :: "mem \<Rightarrow> addr \<Rightarrow> u8 list \<Rightarrow> u32 \<Rightarrow> mem \<times> addr \<times> u32" where
  "set_little m a buffer count =
     (if count \<ge> 4 then set_little (store_long m a buffer) (a + 4) buffer (count - 4) else (m, a, count))"
  by pat_completeness auto
termination
  by (relation "measure (\<lambda>(m, a, buffer, count). unat count)") (auto intro: count_down)

function set_tail :: "mem \<Rightarrow> addr \<Rightarrow> u8 \<Rightarrow> u32 \<Rightarrow> mem" where
  "set_tail m a d count = (if count = 0 then m else set_tail (m(a := d)) (a + 1) d (count - 1))"
  by pat_completeness auto
termination
  by (relation "measure (\<lambda>(m, a, d, count). unat count)") (auto intro: measure_unat)

definition rt_memset :: "mem \<Rightarrow> addr \<Rightarrow> cint \<Rightarrow> u32 \<Rightarrow> mem \<times> addr" where
  "rt_memset m s c count =
     (let d = (ucast c :: u8);
          (m, p, count) = (if \<not> count < 4 \<and> s AND 3 = 0
            then (let buffer = replicate 4 d;
                      (m, aligned_addr, count) = set_big m s buffer count
                  in set_little m aligned_addr buffer count)
            else (m, s, count))
      in (set_tail m p d count, s))"

function copy_big :: "mem \<Rightarrow> addr \<Rightarrow> addr \<Rightarrow> u32 \<Rightarrow> mem \<times> addr \<times> addr \<times> u32" where
  "copy_big m dst src len =
     (if len \<ge> 16
      then (let m = store_long m dst (load_long m src);
                m = store_long m (dst + 4) (load_long m (src + 4));
                m = store_long m (dst + 8) (load_long m (src + 8));
                m = store_long m (dst + 12) (load_long m (src + 12))
            in copy_big m (dst + 16) (src + 16) (len - 16))
      else (m, dst, src, len))"
  by pat_completeness auto
termination
  by (relation "measure (\<lambda>(m, dst, src, len). unat len)") (auto intro: count_down)

function copy_little :: "mem \<Rightarrow> addr \<Rightarrow> addr \<Rightarrow> u32 \<Rightarrow> mem \<times> addr \<times> addr \<times> u32" where
  "copy_little m dst src len =
     (if len \<ge> 4 then copy_little (store_long m dst (load_long m src)) (dst + 4) (src + 4) (len - 4) else (m, dst, src, len))"
  by pat_completeness auto
termination
  by (relation "measure (\<lambda>(m, dst, src, len). unat len)") (auto intro: count_down)

function copy_tail :: "mem \<Rightarrow> addr \<Rightarrow> addr \<Rightarrow> u32 \<Rightarrow> mem" where
  "copy_tail m dst src len = (if len = 0 then m else copy_tail (m(dst := m src)) (dst + 1) (src + 1) (len - 1))"
  by pat_completeness auto
termination
  by (relation "measure (\<lambda>(m, dst, src, len). unat len)") (auto intro: measure_unat)

definition rt_memcpy :: "mem \<Rightarrow> addr \<Rightarrow> addr \<Rightarrow> u32 \<Rightarrow> mem \<times> addr" where
  "rt_memcpy m dst src count =
     (let (m, d, s, len) = (if \<not> count < 16 \<and> (src AND 3) OR (dst AND 3) = 0
            then (let (m, d, s, len) = copy_big m dst src count in copy_little m d s len)
            else (m, dst, src, count))
      in (copy_tail m d s len, dst))"

function copy_back :: "mem \<Rightarrow> addr \<Rightarrow> addr \<Rightarrow> u32 \<Rightarrow> mem" where
  "copy_back m tmp s n = (if n = 0 then m else copy_back (m(tmp - 1 := m (s - 1))) (tmp - 1) (s - 1) (n - 1))"
  by pat_completeness auto
termination
  by (relation "measure (\<lambda>(m, tmp, s, n). unat n)") (auto intro: measure_unat)

definition rt_memmove :: "mem \<Rightarrow> addr \<Rightarrow> addr \<Rightarrow> size_t \<Rightarrow> mem \<times> addr" where
  "rt_memmove m dest src n =
     (if src < dest \<and> dest < src + n then (copy_back m (dest + n) (src + n) n, dest)
      else (copy_tail m dest src n, dest))"

text \<open>A \<open>char\<close> is unsigned on this target.\<close>

function memcmp_from :: "mem \<Rightarrow> addr \<Rightarrow> addr \<Rightarrow> size_t \<Rightarrow> int" where
  "memcmp_from m su1 su2 count =
     (if 0 < count
      then (let res = uint (m su1) - uint (m su2) in if res \<noteq> 0 then res else memcmp_from m (su1 + 1) (su2 + 1) (count - 1))
      else 0)"
  by pat_completeness auto
termination
  by (relation "measure (\<lambda>(m, su1, su2, count). unat count)") (auto intro: measure_unat simp: word_neq_0_conv)

definition rt_memcmp :: "mem \<Rightarrow> addr \<Rightarrow> addr \<Rightarrow> size_t \<Rightarrow> int" where
  "rt_memcmp m cs ct count = memcmp_from m cs ct count"

partial_function (option) strlen_from :: "mem \<Rightarrow> addr \<Rightarrow> addr option" where
  "strlen_from m sc = (if m sc \<noteq> 0 then strlen_from m (sc + 1) else Some sc)"

definition rt_strlen :: "mem \<Rightarrow> addr \<Rightarrow> size_t option" where
  "rt_strlen m s = map_option (\<lambda>sc. sc - s) (strlen_from m s)"

partial_function (option) strnlen_from :: "mem \<Rightarrow> addr \<Rightarrow> u32 \<Rightarrow> addr \<Rightarrow> addr option" where
  "strnlen_from m s maxlen sc = (if m sc \<noteq> 0 \<and> sc - s < maxlen then strnlen_from m s maxlen (sc + 1) else Some sc)"

definition rt_strnlen :: "mem \<Rightarrow> addr \<Rightarrow> u32 \<Rightarrow> size_t option" where
  "rt_strnlen m s maxlen = map_option (\<lambda>sc. sc - s) (strnlen_from m s maxlen s)"

partial_function (option) rt_strcpy_from :: "mem \<Rightarrow> addr \<Rightarrow> addr \<Rightarrow> mem option" where
  "rt_strcpy_from m dst src =
     (if m src \<noteq> 0 then rt_strcpy_from (m(dst := m src)) (dst + 1) (src + 1) else Some (m(dst := 0)))"

definition rt_strcpy :: "mem \<Rightarrow> addr \<Rightarrow> addr \<Rightarrow> (mem \<times> addr) option" where
  "rt_strcpy m dst src = map_option (\<lambda>m. (m, dst)) (rt_strcpy_from m dst src)"

function strncpy_fill :: "mem \<Rightarrow> addr \<Rightarrow> size_t \<Rightarrow> mem" where
  "strncpy_fill m d n = (if n - 1 \<noteq> 0 then strncpy_fill (m(d := 0)) (d + 1) (n - 1) else m)"
  by pat_completeness auto
termination
  by (relation "measure (\<lambda>(m, d, n). unat (n - 1))") (auto intro: count_down2)

function strncpy_from :: "mem \<Rightarrow> addr \<Rightarrow> addr \<Rightarrow> size_t \<Rightarrow> mem" where
  "strncpy_from m d s n =
     (if m s = 0 then strncpy_fill (m(d := m s)) (d + 1) n
      else if n - 1 \<noteq> 0 then strncpy_from (m(d := m s)) (d + 1) (s + 1) (n - 1)
      else m(d := m s))"
  by pat_completeness auto
termination
  by (relation "measure (\<lambda>(m, d, s, n). unat (n - 1))") (auto intro: count_down2)

definition rt_strncpy :: "mem \<Rightarrow> addr \<Rightarrow> addr \<Rightarrow> size_t \<Rightarrow> mem \<times> addr" where
  "rt_strncpy m dst src n = ((if n \<noteq> 0 then strncpy_from m dst src n else m), dst)"

text \<open>\<open>__res\<close> is a \<open>signed char\<close>: it holds the difference modulo 256.\<close>

function rt_strncmp :: "mem \<Rightarrow> addr \<Rightarrow> addr \<Rightarrow> size_t \<Rightarrow> int" where
  "rt_strncmp m cs ct count =
     (if count = 0 then 0
      else (let res = sint (m cs - m ct) in
            if res \<noteq> 0 \<or> m cs = 0 then res else rt_strncmp m (cs + 1) (ct + 1) (count - 1)))"
  by pat_completeness auto
termination
  by (relation "measure (\<lambda>(m, cs, ct, count). unat count)") (auto intro: measure_unat)

partial_function (option) rt_strcmp :: "mem \<Rightarrow> addr \<Rightarrow> addr \<Rightarrow> int option" where
  "rt_strcmp m cs ct =
     (if m cs \<noteq> 0 \<and> m cs = m ct then rt_strcmp m (cs + 1) (ct + 1) else Some (uint (m cs) - uint (m ct)))"

definition lower :: "u8 \<Rightarrow> int" where
  "lower c = (if 65 \<le> c \<and> c \<le> 90 then uint c + 32 else uint c)"

partial_function (option) rt_strcasecmp :: "mem \<Rightarrow> addr \<Rightarrow> addr \<Rightarrow> int option" where
  "rt_strcasecmp m a b =
     (let ca = lower (m a); cb = lower (m b)
      in if ca = cb \<and> ca \<noteq> 0 then rt_strcasecmp m (a + 1) (b + 1) else Some (ca - cb))"

function strstr_from :: "mem \<Rightarrow> addr \<Rightarrow> addr \<Rightarrow> int \<Rightarrow> int \<Rightarrow> addr" where
  "strstr_from m s1 s2 l1 l2 =
     (if l1 \<ge> l2 then if rt_memcmp m s1 s2 (word_of_int l2) = 0 then s1 else strstr_from m (s1 + 1) s2 (l1 - 1) l2
      else NULL)"
  by pat_completeness auto
termination
  by (relation "measure (\<lambda>(m, s1, s2, l1, l2). nat (l1 - l2 + 1))") auto

definition rt_strstr :: "mem \<Rightarrow> addr \<Rightarrow> addr \<Rightarrow> addr option" where
  "rt_strstr m s1 s2 =
     (case rt_strlen m s2 of None \<Rightarrow> None
      | Some n2 \<Rightarrow> if sint n2 = 0 then Some s1
                    else map_option (\<lambda>n1. strstr_from m s1 s2 (sint n1) (sint n2)) (rt_strlen m s1))"

declare set_big.simps [simp del] set_little.simps [simp del] set_tail.simps [simp del] copy_big.simps [simp del]
  copy_little.simps [simp del] copy_tail.simps [simp del] copy_back.simps [simp del] memcmp_from.simps [simp del]
  strncpy_fill.simps [simp del] strncpy_from.simps [simp del] rt_strncmp.simps [simp del] strstr_from.simps [simp del]


subsection \<open>Filling and copying in pieces\<close>

lemma in_second_part:
  fixes k n y :: u32
  assumes "unat k + unat n < 2 ^ 32"
  shows "y - k < n \<longleftrightarrow> k \<le> y \<and> y < k + n"
proof (cases "k \<le> y")
  case True
  then show ?thesis using assms by (auto simp: word_less_nat_alt word_le_nat_alt unat_sub unat_word_ariths)
next
  case False
  then have "unat (y - k) = 2 ^ 32 + unat y - unat k"
    using unat_sub_if_size [of y k] by (simp add: word_le_nat_alt word_size)
  then show ?thesis using assms False by (simp add: word_less_nat_alt word_le_nat_alt)
qed

lemma filled_add:
  assumes "unat k + unat n < 2 ^ 32"
  shows "filled (filled m a d k) (a + k) d n = filled m a d (k + n)"
proof
  fix x
  have y: "x - (a + k) = (x - a) - k" by (simp add: diff_diff_eq)
  have "x - a < k \<Longrightarrow> x - a < k + n"
    using assms by (simp add: word_less_nat_alt unat_word_ariths)
  then show "filled (filled m a d k) (a + k) d n x = filled m a d (k + n) x"
    using in_second_part [OF assms, of "x - a"] unfolding filled_def y by auto
qed

lemma copied_add:
  assumes s: "fwd_safe dst src (k + n)" and o: "unat k + unat n < 2 ^ 32"
  shows "copied (copied m dst src k) (dst + k) (src + k) n = copied m dst src (k + n)"
proof
  fix x
  let ?y = "x - dst"
  have y: "x - (dst + k) = ?y - k" "src + k + (?y - k) = src + ?y" by (simp_all add: diff_diff_eq)
  have "\<not> (src + ?y) - dst < k" if "?y - k < n"
  proof -
    have r: "k \<le> ?y" "?y < k + n" using that in_second_part [OF o] by simp_all
    have e: "(src + ?y) - dst = ?y - (dst - src)" by simp
    show ?thesis
    proof (cases "dst = src")
      case True
      then show ?thesis using r(1) e by (simp add: not_less)
    next
      case False
      then have "?y < dst - src" using s r(2) by (auto simp: fwd_safe_def)
      then have "unat ((src + ?y) - dst) = 2 ^ 32 + unat ?y - unat (dst - src)"
        using unat_sub_if_size [of ?y "dst - src"] unfolding e by (simp add: word_less_nat_alt word_size)
      moreover have "unat (dst - src) < 2 ^ 32" by (rule order.strict_trans2 [OF unsigned_less]) simp
      ultimately show ?thesis using r(1) unfolding word_less_nat_alt word_le_nat_alt by linarith
    qed
  qed
  moreover have "?y < k \<Longrightarrow> ?y < k + n" using o by (simp add: word_less_nat_alt unat_word_ariths)
  ultimately show "copied (copied m dst src k) (dst + k) (src + k) n x = copied m dst src (k + n) x"
    using in_second_part [OF o, of ?y] unfolding copied_def y by auto
qed

lemma word_lt_4: "(y :: u32) < 4 \<longleftrightarrow> y = 0 \<or> y = 1 \<or> y = 2 \<or> y = 3"
proof -
  have "unat y < 4 \<longleftrightarrow> unat y = 0 \<or> unat y = 1 \<or> unat y = 2 \<or> unat y = 3" by auto
  then show ?thesis by (simp add: word_less_nat_alt word_unat_eq_iff)
qed

lemma store_long_filled: "store_long m a (replicate 4 d) = filled m a d 4"
proof
  fix x
  have "x = a + i \<longleftrightarrow> x - a = i" for i by (auto simp: diff_eq_eq add.commute)
  then show "store_long m a (replicate 4 d) x = filled m a d 4 x"
    using word_lt_4 [of "x - a"] by (auto simp: store_long_def filled_def numeral_eq_Suc)
qed

lemma store_long_copied: "store_long m dst (load_long m src) = copied m dst src 4"
proof
  fix x
  have "x = dst + i \<longleftrightarrow> x - dst = i" for i by (auto simp: diff_eq_eq add.commute)
  then show "store_long m dst (load_long m src) x = copied m dst src 4 x"
    using word_lt_4 [of "x - dst"] by (auto simp: store_long_def load_long_def copied_def)
qed

lemma filled_16: "filled (filled (filled (filled m a d 4) (a + 4) d 4) (a + 8) d 4) (a + 12) d 4 = filled m a d 16"
  using filled_add [of 4 4 m a d] filled_add [of 8 4 m a d] filled_add [of 12 4 m a d] by simp

text \<open>A part \<open>count - r\<close> of the work leaves \<open>r\<close>; both are words below \<open>count\<close>.\<close>

lemma rest_of:
  fixes k r count :: u32
  assumes "k \<le> count" "r \<le> count - k"
  shows "r \<le> count" "k + (count - k - r) = count - r" "unat k + unat (count - k - r) < 2 ^ 32"
proof -
  have u: "unat (count - k) = unat count - unat k" "unat k \<le> unat count" using assms(1) by (simp_all add: unat_sub word_le_nat_alt)
  have c: "unat count < 2 ^ 32" by (rule order.strict_trans2 [OF unsigned_less]) simp
  show "r \<le> count" using assms(2) u by (simp add: word_le_nat_alt)
  show "k + (count - k - r) = count - r" by simp
  have "unat (count - k - r) = unat count - unat k - unat r" using assms(2) u by (simp add: unat_sub)
  then show "unat k + unat (count - k - r) < 2 ^ 32" using u c by linarith
qed

lemma set_big_spec:
  "\<exists>r. set_big m a (replicate 4 d) count = (filled m a d (count - r), a + (count - r), r) \<and> r \<le> count"
proof (induction m a "replicate 4 d" count rule: set_big.induct)
  case (1 m a count)
  show ?case
  proof (cases "count \<ge> 16")
    case True
    obtain r where r: "set_big (filled m a d 16) (a + 16) (replicate 4 d) (count - 16) =
        (filled (filled m a d 16) (a + 16) d (count - 16 - r), a + 16 + (count - 16 - r), r)" "r \<le> count - 16"
      using 1 [OF True refl refl refl refl] by (auto simp: store_long_filled filled_16)
    note ro = rest_of [OF True r(2)]
    have "set_big m a (replicate 4 d) count = (filled m a d (count - r), a + (count - r), r)"
      using r(1) filled_add [OF ro(3)] True by (subst set_big.simps) (simp add: store_long_filled filled_16 Let_def)
    then show ?thesis using ro(1) by blast
  next
    case False
    then show ?thesis by (subst set_big.simps) (auto intro!: exI [of _ count] simp: filled_def)
  qed
qed

lemma set_little_spec:
  "\<exists>r. set_little m a (replicate 4 d) count = (filled m a d (count - r), a + (count - r), r) \<and> r \<le> count"
proof (induction m a "replicate 4 d" count rule: set_little.induct)
  case (1 m a count)
  show ?case
  proof (cases "count \<ge> 4")
    case True
    obtain r where r: "set_little (filled m a d 4) (a + 4) (replicate 4 d) (count - 4) =
        (filled (filled m a d 4) (a + 4) d (count - 4 - r), a + 4 + (count - 4 - r), r)" "r \<le> count - 4"
      using 1 [OF True] by (auto simp: store_long_filled)
    note ro = rest_of [OF True r(2)]
    have "set_little m a (replicate 4 d) count = (filled m a d (count - r), a + (count - r), r)"
      using r(1) filled_add [OF ro(3)] True by (subst set_little.simps) (simp add: store_long_filled)
    then show ?thesis using ro(1) by blast
  next
    case False
    then show ?thesis by (subst set_little.simps) (auto intro!: exI [of _ count] simp: filled_def)
  qed
qed

lemma filled_1: "m(a := d) = filled m a d 1"
  by (auto simp: filled_def fun_eq_iff word_less_1)

lemma copied_1: "m(dst := m src) = copied m dst src 1"
  by (auto simp: copied_def fun_eq_iff word_less_1)

lemma set_tail_spec: "set_tail m a d count = filled m a d count"
proof (induction m a d count rule: set_tail.induct)
  case (1 m a d count)
  show ?case
  proof (cases "count = 0")
    case False
    then have "1 \<le> count" by (simp add: word_le_nat_alt) (metis Suc_leI neq0_conv unsigned_0 word_unat_eq_iff)
    then have "filled (filled m a d 1) (a + 1) d (count - 1) = filled m a d count"
      using filled_add [of 1 "count - 1" m a d] rest_of(3) [of 1 count 0] by simp
    then show ?thesis using 1 False by (subst set_tail.simps) (simp add: filled_1)
  qed (subst set_tail.simps, simp add: filled_def)
qed

lemma rt_memset_filled: "rt_memset m s c count = (filled m s (ucast c) count, s)"
proof (cases "\<not> count < 4 \<and> s AND 3 = 0")
  case True
  let ?d = "ucast c :: u8"
  obtain r where r: "set_big m s (replicate 4 ?d) count = (filled m s ?d (count - r), s + (count - r), r)" "r \<le> count"
    using set_big_spec by blast
  obtain q where q: "set_little (filled m s ?d (count - r)) (s + (count - r)) (replicate 4 ?d) r =
      (filled (filled m s ?d (count - r)) (s + (count - r)) ?d (r - q), s + (count - r) + (r - q), q)" "q \<le> r"
    using set_little_spec by blast
  have c: "unat (count - r) = unat count - unat r" "unat (r - q) = unat r - unat q" "unat r \<le> unat count" "unat q \<le> unat r"
    using r(2) q(2) by (simp_all add: unat_sub word_le_nat_alt)
  have "unat count < 2 ^ 32" by (rule order.strict_trans2 [OF unsigned_less]) simp
  then have "filled (filled m s ?d (count - r)) (s + (count - r)) ?d (r - q) = filled m s ?d (count - q)"
    "filled (filled m s ?d (count - q)) (s + (count - q)) ?d q = filled m s ?d count"
    using filled_add [of "count - r" "r - q" m s ?d] filled_add [of "count - q" q m s ?d] c
    by (simp_all add: unat_sub word_le_nat_alt)
  then show ?thesis using True r(1) q(1) by (simp add: rt_memset_def set_tail_spec Let_def)
next
  case False
  then show ?thesis by (auto simp: rt_memset_def set_tail_spec Let_def)
qed

text \<open>
  \<open>rt_memset\<close>, which fills whole words where it can, sets exactly the \<open>count\<close> bytes from \<open>s\<close> on.
\<close>
theorem rt_memset_exact: "rt_memset m s c count = (filled m s (ucast c) count, s)"
  by (rule rt_memset_filled)

subsection \<open>Copying\<close>

lemma fwd_safe_part: "fwd_safe dst src n \<Longrightarrow> k \<le> n \<Longrightarrow> fwd_safe (dst + a) (src + a) k"
  by (auto simp: fwd_safe_def)

lemma copied_16:
  assumes "fwd_safe dst src 16"
  shows "copied (copied (copied (copied m dst src 4) (dst + 4) (src + 4) 4) (dst + 8) (src + 8) 4) (dst + 12) (src + 12) 4 = copied m dst src 16"
  using copied_add [of dst src 4 4 m] copied_add [of dst src 8 4 m] copied_add [of dst src 12 4 m]
    fwd_safe_part [OF assms, of 8 0] fwd_safe_part [OF assms, of 12 0] assms by simp

lemma copy_big_spec:
  "fwd_safe dst src len \<Longrightarrow>
     \<exists>r. copy_big m dst src len = (copied m dst src (len - r), dst + (len - r), src + (len - r), r) \<and> r \<le> len"
proof (induction m dst src len rule: copy_big.induct)
  case (1 m dst src len)
  show ?case
  proof (cases "len \<ge> 16")
    case True
    have s: "fwd_safe dst src 16" "fwd_safe (dst + 16) (src + 16) (len - 16)"
      using fwd_safe_part [OF 1(2) True, of 0] fwd_safe_part [OF 1(2), of "len - 16" 16] word_sub_le [OF True] by simp_all
    obtain r where r: "copy_big (copied m dst src 16) (dst + 16) (src + 16) (len - 16) =
        (copied (copied m dst src 16) (dst + 16) (src + 16) (len - 16 - r), dst + 16 + (len - 16 - r), src + 16 + (len - 16 - r), r)" "r \<le> len - 16"
      using 1(1) [OF True refl refl refl refl s(2)] by (auto simp: store_long_copied copied_16 [OF s(1)])
    note ro = rest_of [OF True r(2)]
    have "fwd_safe dst src (16 + (len - 16 - r))"
      using fwd_safe_part [OF 1(2), of "len - r" 0] word_sub_le [OF ro(1)] unfolding ro(2) by simp
    from copied_add [OF this ro(3)] have "copy_big m dst src len = (copied m dst src (len - r), dst + (len - r), src + (len - r), r)"
      using r(1) True by (subst copy_big.simps) (simp add: store_long_copied copied_16 [OF s(1)] Let_def)
    then show ?thesis using ro(1) by blast
  next
    case False
    then show ?thesis by (subst copy_big.simps) (auto intro!: exI [of _ len] simp: copied_def)
  qed
qed

lemma copy_little_spec:
  "fwd_safe dst src len \<Longrightarrow>
     \<exists>r. copy_little m dst src len = (copied m dst src (len - r), dst + (len - r), src + (len - r), r) \<and> r \<le> len"
proof (induction m dst src len rule: copy_little.induct)
  case (1 m dst src len)
  show ?case
  proof (cases "len \<ge> 4")
    case True
    have s: "fwd_safe (dst + 4) (src + 4) (len - 4)" using fwd_safe_part [OF 1(2), of "len - 4" 4] word_sub_le [OF True] by simp
    obtain r where r: "copy_little (copied m dst src 4) (dst + 4) (src + 4) (len - 4) =
        (copied (copied m dst src 4) (dst + 4) (src + 4) (len - 4 - r), dst + 4 + (len - 4 - r), src + 4 + (len - 4 - r), r)" "r \<le> len - 4"
      using 1(1) [OF True s] by (auto simp: store_long_copied)
    note ro = rest_of [OF True r(2)]
    have "fwd_safe dst src (4 + (len - 4 - r))"
      using fwd_safe_part [OF 1(2), of "len - r" 0] word_sub_le [OF ro(1)] unfolding ro(2) by simp
    from copied_add [OF this ro(3)] have "copy_little m dst src len = (copied m dst src (len - r), dst + (len - r), src + (len - r), r)"
      using r(1) True by (subst copy_little.simps) (simp add: store_long_copied)
    then show ?thesis using ro(1) by blast
  next
    case False
    then show ?thesis by (subst copy_little.simps) (auto intro!: exI [of _ len] simp: copied_def)
  qed
qed

lemma copied_0 [simp]: "copied m dst src 0 = m"
  by (simp add: copied_def)

lemma copy_tail_spec: "fwd_safe dst src len \<Longrightarrow> copy_tail m dst src len = copied m dst src len"
proof (induction m dst src len rule: copy_tail.induct)
  case (1 m dst src len)
  show ?case
  proof (cases "len = 0")
    case True
    then show ?thesis by (subst copy_tail.simps) simp
  next
    case False
    then have l: "1 \<le> len" by (simp add: word_le_nat_alt) (metis Suc_leI neq0_conv unsigned_0 word_unat_eq_iff)
    have "copy_tail (copied m dst src 1) (dst + 1) (src + 1) (len - 1) = copied (copied m dst src 1) (dst + 1) (src + 1) (len - 1)"
      using 1(1) [OF False] fwd_safe_part [OF 1(2), of "len - 1" 1] word_sub_le [OF l] by (simp add: copied_1)
    also have "\<dots> = copied m dst src len" using copied_add [of dst src 1 "len - 1" m] 1(2) rest_of(3) [OF l, of 0] by simp
    finally show ?thesis using False by (subst copy_tail.simps) (simp add: copied_1)
  qed
qed

lemma rt_memcpy_fwd:
  assumes f: "fwd_safe dst src count"
  shows "rt_memcpy m dst src count = (copied m dst src count, dst)"
proof (cases "\<not> count < 16 \<and> (src AND 3) OR (dst AND 3) = 0")
  case True
  obtain r where r: "copy_big m dst src count = (copied m dst src (count - r), dst + (count - r), src + (count - r), r)" "r \<le> count"
    using copy_big_spec [OF f] by blast
  have fr: "fwd_safe (dst + (count - r)) (src + (count - r)) r" by (rule fwd_safe_part [OF f r(2)])
  obtain q where q: "copy_little (copied m dst src (count - r)) (dst + (count - r)) (src + (count - r)) r =
      (copied (copied m dst src (count - r)) (dst + (count - r)) (src + (count - r)) (r - q),
       dst + (count - r) + (r - q), src + (count - r) + (r - q), q)" "q \<le> r"
    using copy_little_spec [OF fr] by blast
  have qc: "q \<le> count" using q(2) r(2) by simp
  have c: "unat (count - r) = unat count - unat r" "unat (r - q) = unat r - unat q" "unat r \<le> unat count" "unat q \<le> unat r"
    "unat (count - q) = unat count - unat q"
    using r(2) q(2) qc by (simp_all add: unat_sub word_le_nat_alt)
  have "unat count < 2 ^ 32" by (rule order.strict_trans2 [OF unsigned_less]) simp
  then have "copied (copied m dst src (count - r)) (dst + (count - r)) (src + (count - r)) (r - q) = copied m dst src (count - q)"
    "copied (copied m dst src (count - q)) (dst + (count - q)) (src + (count - q)) q = copied m dst src count"
    using copied_add [of dst src "count - r" "r - q" m] copied_add [of dst src "count - q" q m] c f
      fwd_safe_part [OF f word_sub_le [OF qc], of 0] by simp_all
  moreover have "fwd_safe (dst + (count - q)) (src + (count - q)) q" by (rule fwd_safe_part [OF f qc])
  ultimately show ?thesis using True r(1) q(1) by (simp add: rt_memcpy_def copy_tail_spec Let_def)
next
  case False
  then show ?thesis using copy_tail_spec [OF f] by (auto simp: rt_memcpy_def)
qed

text \<open>
  \<open>rt_memcpy\<close>, which copies whole words where it can, copies exactly \<open>count\<close> bytes, provided the destination does not
  start inside the source (a destination below the source is fine).
\<close>
theorem rt_memcpy_exact:
  "fwd_safe dst src count \<Longrightarrow> rt_memcpy m dst src count = (copied m dst src count, dst)"
  by (rule rt_memcpy_fwd)

lemma unat_pred: "Suc k = unat (n :: u32) \<Longrightarrow> n \<noteq> 0 \<and> 0 < n \<and> unat (n - 1) = k"
proof -
  assume k: "Suc k = unat n"
  then have "n \<noteq> 0" by auto
  then show ?thesis using k by (simp add: unat_minus_one word_gt_0)
qed

lemma copy_back_spec:
  "unat (dst - src) + unat n \<le> 2 ^ 32 \<Longrightarrow> copy_back m (dst + n) (src + n) n = copied m dst src n"
proof (induction "unat n" arbitrary: m n)
  case 0
  then have "n = 0" by (simp add: unsigned_eq_0_iff)
  then show ?case by (subst copy_back.simps) simp
next
  case (Suc k)
  then have n: "n \<noteq> 0" "unat (n - 1) = k" using unat_pred by blast+
  let ?m = "m(dst + n - 1 := m (src + n - 1))"
  have "copy_back m (dst + n) (src + n) n = copy_back ?m (dst + (n - 1)) (src + (n - 1)) (n - 1)"
    using n by (subst copy_back.simps) (simp add: add_diff_eq)
  also have "\<dots> = copied ?m dst src (n - 1)" using Suc n by (intro Suc.hyps(1)) simp_all
  also have "\<dots> = copied m dst src n"
  proof
    fix x
    let ?y = "x - dst"
    have lt: "?y < n - 1 \<longleftrightarrow> ?y < n \<and> ?y \<noteq> n - 1" using n Suc.hyps(2) by (auto simp: word_less_nat_alt word_unat_eq_iff)
    have x: "x = dst + n - 1 \<longleftrightarrow> ?y = n - 1" by (auto simp: algebra_simps)
    have "src + ?y \<noteq> dst + n - 1" if "?y < n - 1"
    proof
      assume "src + ?y = dst + n - 1"
      then have e: "?y = (dst - src) + (n - 1)" by (simp add: algebra_simps)
      have "unat ?y = unat (dst - src) + k"
        unfolding e using Suc.prems Suc.hyps(2) n(2) by (subst unat_word_ariths(1)) simp
      then show False using that n(2) by (simp add: word_less_nat_alt)
    qed
    moreover have "n - 1 < n" using n(2) Suc.hyps(2) by (simp add: word_less_nat_alt)
    ultimately show "copied ?m dst src (n - 1) x = copied m dst src n x" using lt x by (auto simp: copied_def add_diff_eq)
  qed
  finally show ?case .
qed

text \<open>
  C35: \<open>rt_memmove\<close> copies exactly, however the two regions overlap, as long as neither of them runs over the end of the
  address space.
\<close>
theorem rt_memmove_exact:
  assumes "unat src + unat n < 2 ^ 32" "unat dest + unat n < 2 ^ 32"
  shows "rt_memmove m dest src n = (copied m dest src n, dest)"
proof -
  have sn: "unat (src + n) = unat src + unat n" using assms(1) by (simp add: unat_word_ariths)
  show ?thesis
  proof (cases "src < dest \<and> dest < src + n")
    case True
    then have "unat (dest - src) + unat n \<le> 2 ^ 32" using assms by (simp add: unat_sub word_less_nat_alt word_le_nat_alt)
    then show ?thesis using True copy_back_spec by (simp add: rt_memmove_def)
  next
    case False
    have "fwd_safe dest src n"
    proof (cases "dest < src")
      case True
      then have "unat (dest - src) = 2 ^ 32 + unat dest - unat src"
        using unat_sub_if_size [of dest src] by (simp add: word_less_nat_alt word_size)
      then show ?thesis using assms unfolding fwd_safe_def word_le_nat_alt by linarith
    next
      case F: False
      then have "unat (dest - src) = unat dest - unat src" by (simp add: unat_sub)
      then show ?thesis using False F sn by (auto simp: fwd_safe_def word_le_nat_alt word_less_nat_alt word_unat_eq_iff)
    qed
    then show ?thesis using False copy_tail_spec by (auto simp: rt_memmove_def)
  qed
qed

subsection \<open>Comparing\<close>

lemma sgn_diff_byte: "sgn (uint (x :: u8) - uint y) = (if x > y then 1 else if x < y then - 1 else 0)"
  by (auto simp: word_less_def)

lemma memcmp_from_bytes: "sgn (memcmp_from m a b n) = cmp_bytes (bytes m a (unat n)) (bytes m b (unat n))"
proof (induction "unat n" arbitrary: a b n)
  case 0
  then have "n = 0" by (simp add: unsigned_eq_0_iff)
  then show ?case by (subst memcmp_from.simps) simp
next
  case (Suc k)
  then have n: "0 < n" "unat (n - 1) = k" using unat_pred by blast+
  have "sgn (memcmp_from m (a + 1) (b + 1) (n - 1)) = cmp_bytes (bytes m (a + 1) k) (bytes m (b + 1) k)"
    using Suc.hyps(1) [of "n - 1"] n by simp
  then show ?case using n sgn_diff_byte [of "m a" "m b"] unfolding Suc.hyps(2) [symmetric] bytes_Suc
    by (subst memcmp_from.simps) (auto simp: Let_def)
qed

text \<open>
  The kernel's \<open>rt_memcmp\<close> agrees with \<open>memcmp\<close> of klib up to the size of the result: the sign is the same.
\<close>
theorem rt_memcmp_agrees: "sgn (rt_memcmp m cs ct count) = memcmp m cs ct count"
  by (simp add: rt_memcmp_def memcmp_from_bytes memcmp_eq)

lemma rt_strcmp_cstr: "cstr m cs xs \<Longrightarrow> cstr m ct ys \<Longrightarrow> \<exists>r. rt_strcmp m cs ct = Some r \<and> sgn r = cmp_bytes xs ys"
proof (induction xs ys arbitrary: cs ct rule: cmp_bytes.induct)
  case (4 x xs y ys)
  then show ?case using sgn_diff_byte [of x y] by (subst rt_strcmp.simps) (auto simp: cstr_Cons)
next
  case (2 y ys)
  then show ?case using sgn_diff_byte [of 0 y] by (subst rt_strcmp.simps) (auto simp: cstr_Cons word_gt_0)
next
  case (3 x xs)
  then show ?case using sgn_diff_byte [of x 0] by (subst rt_strcmp.simps) (auto simp: cstr_Cons word_gt_0)
qed (subst rt_strcmp.simps, simp)

lemma rt_strncmp_zero:
  "cstr m cs xs \<Longrightarrow> cstr m ct ys \<Longrightarrow> rt_strncmp m cs ct n = 0 \<longleftrightarrow> take (unat n) xs = take (unat n) ys"
proof (induction "unat n" arbitrary: cs ct n xs ys)
  case 0
  then show ?case by (subst rt_strncmp.simps) (simp add: unsigned_eq_0_iff)
next
  case (Suc k)
  have n: "n \<noteq> 0" "unat (n - 1) = k" using unat_pred [OF Suc.hyps(2)] by blast+
  have z: "sint (a - b) = 0 \<longleftrightarrow> a = b" for a b :: u8 by (simp add: signed_eq_0_iff)
  have stop: "rt_strncmp m cs ct n = sint (m cs - m ct)" if "m cs = 0 \<or> m cs \<noteq> m ct"
    using that n(1) z by (subst rt_strncmp.simps) (auto simp: Let_def)
  show ?case
  proof (cases xs; cases ys)
    fix x xs' y ys'
    assume eq: "xs = x # xs'" "ys = y # ys'"
    then have "rt_strncmp m (cs + 1) (ct + 1) (n - 1) = 0 \<longleftrightarrow> take k xs' = take k ys'"
      using Suc.hyps(1) [of "n - 1" "cs + 1" xs' "ct + 1" ys'] Suc.prems n by (simp add: cstr_Cons)
    then show ?thesis using Suc.prems n(1) eq z unfolding Suc.hyps(2) [symmetric]
      by (subst rt_strncmp.simps) (auto simp: cstr_Cons Let_def)
  qed (use Suc.prems n(1) z stop in \<open>unfold Suc.hyps(2) [symmetric], (auto simp: cstr_Cons signed_eq_0_iff)\<close>)
qed

text \<open>The sign of \<open>rt_strncmp\<close> is wrong when the bytes are 128 or more apart.\<close>

lemma rt_strncmp_sign: "rt_strncmp (mem_at 0 [200, 0, 56, 0]) 0 2 1 = - 112" "strncmp (mem_at 0 [200, 0, 56, 0]) 0 2 1 = 1"
proof -
  show "rt_strncmp (mem_at 0 [200, 0, 56, 0]) 0 2 1 = - 112" by (subst rt_strncmp.simps) (simp add: mem_at_def Let_def)
  show "strncmp (mem_at 0 [200, 0, 56, 0]) 0 2 1 = 1" unfolding strncmp_def by (subst strncmp_loop.simps) (simp add: mem_at_def Let_def)
qed

subsection \<open>Strings\<close>

lemma strlen_from_iff: "strlen_from m (s + i) = map_option (\<lambda>l. s + l) (strlen_loop m s i)"
proof -
  have "\<forall>s i. sc = s + i \<longrightarrow> strlen_loop m s i = Some (r - s)" if "strlen_from m sc = Some r" for sc r
  proof (induction rule: strlen_from.raw_induct [OF _ that])
    case (1 f m sc r)
    then show ?case by (subst strlen_loop.simps) (auto simp: add.assoc split: if_splits)
  qed
  moreover have "strlen_from m (s + i) = Some (s + l)" if "strlen_loop m s i = Some l" for l
  proof (induction rule: strlen_loop.raw_induct [OF _ that])
    case (1 f m s i l)
    then show ?case by (subst strlen_from.simps) (auto simp: add.assoc split: if_splits)
  qed
  ultimately show ?thesis by (cases "strlen_loop m s i"; cases "strlen_from m (s + i)") auto
qed

lemma strcpy_from_iff: "rt_strcpy_from m (dst + i) (src + i) = strcpy_loop m dst src i"
proof -
  have "\<forall>dst src i. d = dst + i \<longrightarrow> s = src + i \<longrightarrow> strcpy_loop m dst src i = Some r" if "rt_strcpy_from m d s = Some r" for d s r
  proof (induction rule: rt_strcpy_from.raw_induct [OF _ that])
    case (1 f m d s r)
    then show ?case by (subst strcpy_loop.simps) (auto simp: add.assoc split: if_splits)
  qed
  moreover have "rt_strcpy_from m (dst + i) (src + i) = Some r" if "strcpy_loop m dst src i = Some r" for r
  proof (induction rule: strcpy_loop.raw_induct [OF _ that])
    case (1 f m dst src i r)
    then show ?case by (subst rt_strcpy_from.simps) (auto simp: add.assoc split: if_splits)
  qed
  ultimately show ?thesis by (cases "strcpy_loop m dst src i"; cases "rt_strcpy_from m (dst + i) (src + i)") auto
qed

lemma next_index:
  fixes i n :: u32
  assumes "i < n"
  shows "n - i - 1 = n - (i + 1)" "n - i \<noteq> 1 \<longleftrightarrow> i + 1 < n"
proof -
  show e: "n - i - 1 = n - (i + 1)" by (simp add: diff_diff_eq)
  have "i + 1 \<le> n" using assms by (simp add: word_plus_one_le_iff)
  then show "n - i \<noteq> 1 \<longleftrightarrow> i + 1 < n" by (auto simp: le_less eq_diff_eq diff_eq_eq add.commute)
qed

lemma strncpy_fill_iff: "i < n \<Longrightarrow> strncpy_fill m (dst + i + 1) (n - i) = strncpy_pad m dst (i + 1) n"
proof (induction "unat n - unat i" arbitrary: i m)
  case (Suc k)
  note ni = next_index [OF Suc.prems]
  show ?case
  proof (cases "i + 1 < n")
    case True
    have "strncpy_fill (m(dst + i + 1 := 0)) (dst + (i + 1) + 1) (n - (i + 1)) = strncpy_pad (m(dst + i + 1 := 0)) dst (i + 1 + 1) n"
      using Suc.hyps(2) unat_plus_one [OF Suc.prems] by (intro Suc.hyps(1) [OF _ True]) simp
    then have "strncpy_fill m (dst + i + 1) (n - i) = strncpy_pad (m(dst + i + 1 := 0)) dst (i + 1 + 1) n"
      using True ni by (subst strncpy_fill.simps) (auto simp: add.assoc diff_diff_eq)
    also have "\<dots> = strncpy_pad m dst (i + 1) n" using True by (subst (2) strncpy_pad.simps) (simp add: add.assoc)
    finally show ?thesis .
  next
    case False
    then show ?thesis using ni by (subst strncpy_fill.simps, subst strncpy_pad.simps) simp
  qed
qed (simp add: word_less_nat_alt)

lemma strncpy_from_iff:
  "i < n \<Longrightarrow> strncpy_from m (dst + i) (src + i) (n - i) = (let (m', j) = strncpy_copy m dst src i n in strncpy_pad m' dst j n)"
proof (induction m dst src i n rule: strncpy_copy.induct)
  case (1 m dst src i n)
  note ni = next_index [OF 1(2)]
  let ?m = "m(dst + i := m (src + i))"
  show ?case
  proof (cases "m (src + i) = 0")
    case True
    have "strncpy_from m (dst + i) (src + i) (n - i) = strncpy_pad ?m dst (i + 1) n"
      using True strncpy_fill_iff [OF 1(2)] by (subst strncpy_from.simps) simp
    also have "\<dots> = strncpy_pad m dst i n" using 1(2) True by (subst (2) strncpy_pad.simps) simp
    finally show ?thesis using True by (simp add: strncpy_copy.simps)
  next
    case False
    have c: "strncpy_copy m dst src i n = strncpy_copy ?m dst src (i + 1) n" using 1(2) False by (subst strncpy_copy.simps) simp
    show ?thesis
    proof (cases "i + 1 < n")
      case True
      have "strncpy_from ?m (dst + (i + 1)) (src + (i + 1)) (n - (i + 1)) =
          (let (m', j) = strncpy_copy ?m dst src (i + 1) n in strncpy_pad m' dst j n)"
        by (rule 1(1)) (use True False 1(2) in simp_all)
      then show ?thesis unfolding c using False True ni by (subst strncpy_from.simps) (auto simp: add.assoc diff_diff_eq)
    next
      case last: False
      then show ?thesis unfolding c using False ni
        by (subst strncpy_from.simps, subst strncpy_copy.simps) (simp add: strncpy_pad.simps)
    qed
  qed
qed

text \<open>
  The string functions of the kernel do what those of klib do, for every memory: the same length, the same copies, the same
  padding, and no result where there is none.
\<close>
theorem rt_strings_agree:
  "rt_strlen m s = strlen m s \<and> rt_strcpy m dst src = strcpy m dst src \<and> rt_strncpy m dst src n = strncpy m dst src n"
proof (intro conjI)
  show "rt_strlen m s = strlen m s" using strlen_from_iff [of m s 0] by (simp add: rt_strlen_def strlen_def option.map_comp comp_def option.map_id [unfolded id_def])
  show "rt_strcpy m dst src = strcpy m dst src" using strcpy_from_iff [of m dst 0 src] by (simp add: rt_strcpy_def strcpy_def)
  show "rt_strncpy m dst src n = strncpy m dst src n"
  proof (cases "n = 0")
    case True
    then show ?thesis by (simp add: rt_strncpy_def strncpy_def strncpy_copy.simps strncpy_pad.simps)
  next
    case False
    then show ?thesis using strncpy_from_iff [of 0 n m dst src] by (simp add: rt_strncpy_def strncpy_def case_prod_beta word_gt_0)
  qed
qed

subsection \<open>Search\<close>

text \<open>\<open>ys\<close> occurs in \<open>xs\<close> at \<open>k\<close>.\<close>

definition occurs_at :: "u8 list \<Rightarrow> u8 list \<Rightarrow> nat \<Rightarrow> bool" where
  "occurs_at ys xs k \<longleftrightarrow> k + length ys \<le> length xs \<and> take (length ys) (drop k xs) = ys"

lemma memcmp_zero: "rt_memcmp m a b n = 0 \<longleftrightarrow> bytes m a (unat n) = bytes m b (unat n)"
  using memcmp_from_bytes [of m a b n] cmp_bytes_eq_0_iff by (simp add: rt_memcmp_def) (metis sgn_eq_0_iff)

lemma cstr_bytes: "cstr m s xs \<Longrightarrow> k \<le> length xs \<Longrightarrow> bytes m s k = take k xs"
proof -
  assume c: "cstr m s xs" and k: "k \<le> length xs"
  have "bytes m s k = take k (bytes m s (Suc (length xs)))" using k by (simp add: bytes_def take_map del: upt_Suc)
  then show ?thesis using c k by (simp add: cstr_def)
qed

lemma strstr_from_spec:
  assumes "cstr m s1 xs" "cstr m s2 ys" "length xs < 2 ^ 31" "length ys < 2 ^ 31"
  shows "strstr_from m s1 s2 (int (length xs)) (int (length ys)) =
    (if \<exists>k. occurs_at ys xs k then s1 + of_nat (LEAST k. occurs_at ys xs k) else NULL)"
  using assms
proof (induction xs arbitrary: s1)
  case Nil
  show ?case
  proof (cases "ys = []")
    case True
    then have "(LEAST k. occurs_at ys [] k) = 0" "occurs_at ys [] 0" by (simp_all add: occurs_at_def)
    then show ?thesis using True by (subst strstr_from.simps) (auto simp: memcmp_zero)
  next
    case False
    then have "\<not> occurs_at ys [] k" for k by (simp add: occurs_at_def)
    then show ?thesis using False by (subst strstr_from.simps) auto
  qed
next
  case (Cons x xs)
  have hit: "rt_memcmp m s1 s2 (word_of_int (int (length ys))) = 0 \<longleftrightarrow> occurs_at ys (x # xs) 0" if "length ys \<le> length (x # xs)"
    using that cstr_bytes [OF Cons.prems(1) that] cstr_bytes [OF Cons.prems(2) order.refl] Cons.prems(4)
    by (simp add: memcmp_zero occurs_at_def)
  have shift: "occurs_at ys (x # xs) (Suc k) \<longleftrightarrow> occurs_at ys xs k" for k by (simp add: occurs_at_def)
  have ih: "strstr_from m (s1 + 1) s2 (int (length xs)) (int (length ys)) =
      (if \<exists>k. occurs_at ys xs k then s1 + 1 + of_nat (LEAST k. occurs_at ys xs k) else NULL)"
    using Cons.IH [of "s1 + 1"] Cons.prems by (simp add: cstr_Cons)
  show ?case
  proof (cases "length ys \<le> length (x # xs)")
    case long: True
    show ?thesis
    proof (cases "occurs_at ys (x # xs) 0")
      case True
      then have "(LEAST k. occurs_at ys (x # xs) k) = 0" by (simp add: Least_eq_0)
      then show ?thesis using True long hit by (subst strstr_from.simps) auto
    next
      case False
      have ex: "(\<exists>k. occurs_at ys (x # xs) k) \<longleftrightarrow> (\<exists>k. occurs_at ys xs k)" using False shift by (metis not0_implies_Suc)
      moreover have "(LEAST k. occurs_at ys (x # xs) k) = Suc (LEAST k. occurs_at ys xs k)" if "\<exists>k. occurs_at ys xs k"
        using that Least_Suc [of "occurs_at ys (x # xs)"] False shift ex by auto
      ultimately show ?thesis using False long hit ih by (subst strstr_from.simps) (auto simp: add.assoc)
    qed
  next
    case False
    then have "\<not> occurs_at ys (x # xs) k" for k by (auto simp: occurs_at_def)
    then show ?thesis using False by (subst strstr_from.simps) auto
  qed
qed

text \<open>
  \<open>rt_strstr\<close> finds the first occurrence of one string in another, and the null pointer when there is none.
\<close>
theorem rt_strstr_first:
  assumes "cstr m s1 xs" "cstr m s2 ys" "length xs < 2 ^ 31" "length ys < 2 ^ 31"
  shows "rt_strstr m s1 s2 = Some (if \<exists>k. occurs_at ys xs k then s1 + of_nat (LEAST k. occurs_at ys xs k) else NULL)"
proof -
  have l: "rt_strlen m s1 = Some (of_nat (length xs))" "rt_strlen m s2 = Some (of_nat (length ys))"
    using strlen_cstr assms(1,2) strlen_from_iff [of m s1 0] strlen_from_iff [of m s2 0] by (simp_all add: rt_strlen_def strlen_def)
  have i: "sint (of_nat (length xs) :: u32) = int (length xs)" "sint (of_nat (length ys) :: u32) = int (length ys)"
    using assms(3,4) by (simp_all add: signed_of_nat signed_take_bit_int_eq_self)
  show ?thesis
  proof (cases "ys = []")
    case True
    then have "(LEAST k. occurs_at ys xs k) = 0" by (simp add: occurs_at_def)
    then show ?thesis using True l i by (auto simp: rt_strstr_def occurs_at_def intro: exI [of _ 0])
  next
    case False
    then show ?thesis using l i strstr_from_spec [OF assms] by (simp add: rt_strstr_def)
  qed
qed

subsection \<open>Witnesses\<close>

theorem rt_memcpy_exact_witness:
  "rt_memcpy (mem_at 64 [1, 2, 3, 4, 5]) 128 64 20 = (copied (mem_at 64 [1, 2, 3, 4, 5]) 128 64 20, 128)"
  by (rule rt_memcpy_exact) (simp add: fwd_safe_def)

theorem rt_memmove_exact_witness:
  "rt_memmove (mem_at 64 [1, 2, 3, 4, 5]) 66 64 5 = (copied (mem_at 64 [1, 2, 3, 4, 5]) 66 64 5, 66)"
  using rt_memmove_exact [of 64 5 66 "mem_at 64 [1, 2, 3, 4, 5]"] by simp

theorem rt_strstr_first_witness:
  "rt_strstr (mem_at 0 [97, 98, 99, 0, 98, 99, 0]) 0 4 = Some 1"
proof -
  let ?m = "mem_at 0 [97, 98, 99, 0, 98, 99, 0]"
  have c: "cstr ?m 0 [97, 98, 99]" "cstr ?m 4 [98, 99]" by (simp_all add: cstr_Cons mem_at_def)
  have o: "occurs_at [98, 99] [97, 98, 99] 1" "\<not> occurs_at [98, 99] [97, 98, 99] 0" by (simp_all add: occurs_at_def)
  then have "(LEAST k. occurs_at [98, 99] [97, 98, 99] k) = 1" by (intro Least_equality) (auto simp: Suc_le_eq intro: gr0I)
  then show ?thesis using rt_strstr_first [OF c] o(1) by auto
qed

end
