(* ===== verification/KHeap.thy ===== *)
theory KHeap
  imports SmallHeap KService
begin

text \<open>
  The kernel's dynamic memory: \<open>rt_smem_realloc\<close> (\<open>src/mem.c\<close>) and the front end of the system heap
  (\<open>src/kservice.c\<close>).  The state is the heap and the bytes of the memory; the front end runs with the heap lock held, so
  that each call is one step.
\<close>

type_synonym heap = "small_mem \<times> mem"

subsection \<open>The code\<close>

text \<open>The block at \<open>ptr\<close> is cut to \<open>newsize\<close> bytes.\<close>

definition smem_shrink :: "nat \<Rightarrow> nat \<Rightarrow> nat \<Rightarrow> small_mem \<Rightarrow> small_mem option" where
  "smem_shrink ptr sz newsize m =
     (let m = m\<lparr>mem_used := mem_used m - (sz - newsize)\<rparr>;
          ptr2 = ptr + SIZEOF_STRUCT_MEM + newsize;
          m = smem_split ptr ptr2 m;
          m = (if ptr2 < lfree m then m\<lparr>lfree := ptr2\<rparr> else m)
      in plug_holes ptr2 m)"

definition rt_smem_realloc :: "string option \<Rightarrow> addr \<Rightarrow> u32 \<Rightarrow> heap \<Rightarrow> (heap \<times> addr) option" where
  "rt_smem_realloc name rmem newsize h =
     (let (m, d) = h in do {
        rt_assert (attached m);
        let newsize = unat (RT_ALIGN newsize RT_ALIGN_SIZE);
        if newsize > mem_size_aligned m then Some ((m, d), NULL)
        else if newsize = 0 then do { m \<leftarrow> rt_smem_free rmem m; Some ((m, d), NULL) }
        else if rmem = NULL then do { (m, p) \<leftarrow> rt_smem_alloc name (of_nat newsize) m; Some ((m, d), p) }
        else do {
          rt_assert (rmem AND (RT_ALIGN_SIZE - 1) = 0);
          rt_assert (rmem \<ge> heap_ptr m);
          rt_assert (rmem < heap_at m (heap_end m));
          let ptr = unat (rmem - of_nat SIZEOF_STRUCT_MEM - heap_ptr m);
          let sz = item_next (items m ptr) - ptr - SIZEOF_STRUCT_MEM;
          if sz = newsize then Some ((m, d), rmem)
          else if newsize + SIZEOF_STRUCT_MEM + MIN_SIZE < sz
          then do { m \<leftarrow> smem_shrink ptr sz newsize m; Some ((m, d), rmem) }
          else do {
            (m, nmem) \<leftarrow> rt_smem_alloc name (of_nat newsize) m;
            if nmem \<noteq> NULL
            then do {
              let d = fst (rt_memcpy d nmem rmem (of_nat (if sz < newsize then sz else newsize)));
              m \<leftarrow> rt_smem_free rmem m;
              Some ((m, d), nmem)
            }
            else Some ((m, d), nmem)
          }
        }
      })"

definition rt_system_heap_init :: "(nat \<Rightarrow> smem_item) \<Rightarrow> addr \<Rightarrow> addr \<Rightarrow> small_mem option option" where
  "rt_system_heap_init garbage begin_addr end_addr =
     (let begin_align = RT_ALIGN begin_addr RT_ALIGN_SIZE;
          end_align = RT_ALIGN_DOWN end_addr RT_ALIGN_SIZE
      in do {
        rt_assert (end_align > begin_align);
        Some (rt_smem_init garbage begin_addr (end_align - begin_align))
      })"

definition rt_malloc :: "string option \<Rightarrow> u32 \<Rightarrow> heap \<Rightarrow> (heap \<times> addr) option" where
  "rt_malloc name sz h = do { (m, p) \<leftarrow> rt_smem_alloc name sz (fst h); Some ((m, snd h), p) }"

definition rt_realloc :: "string option \<Rightarrow> addr \<Rightarrow> u32 \<Rightarrow> heap \<Rightarrow> (heap \<times> addr) option" where
  "rt_realloc name ptr newsize h = rt_smem_realloc name ptr newsize h"

definition rt_calloc :: "string option \<Rightarrow> u32 \<Rightarrow> u32 \<Rightarrow> heap \<Rightarrow> (heap \<times> addr) option" where
  "rt_calloc name count sz h =
     do {
       (h, p) \<leftarrow> rt_malloc name (count * sz) h;
       let h = (if p \<noteq> NULL then (fst h, fst (rt_memset (snd h) p 0 (count * sz))) else h);
       Some (h, p)
     }"

definition rt_free :: "addr \<Rightarrow> heap \<Rightarrow> heap option" where
  "rt_free ptr h = (if ptr = NULL then Some h else do { m \<leftarrow> rt_smem_free ptr (fst h); Some (m, snd h) })"

definition rt_memory_info :: "heap \<Rightarrow> nat \<times> nat \<times> nat" where
  "rt_memory_info h = (mem_total (fst h), mem_used (fst h), mem_max (fst h))"

text \<open>A pointer in memory: its bytes, lowest first.\<close>

definition long_of_ptr :: "addr \<Rightarrow> u8 list" where
  "long_of_ptr p = [ucast p, ucast (drop_bit 8 p), ucast (drop_bit 16 p), ucast (drop_bit 24 p)]"

definition ptr_of_long :: "u8 list \<Rightarrow> addr" where
  "ptr_of_long l = ucast (l ! 0) OR push_bit 8 (ucast (l ! 1)) OR push_bit 16 (ucast (l ! 2)) OR push_bit 24 (ucast (l ! 3))"

definition rt_malloc_align :: "string option \<Rightarrow> u32 \<Rightarrow> u32 \<Rightarrow> heap \<Rightarrow> (heap \<times> addr) option" where
  "rt_malloc_align name sz align h =
     (let uintptr_size = (4 :: u32) - 1;
          align = (align + uintptr_size) AND NOT uintptr_size;
          align_size = ((sz + uintptr_size) AND NOT uintptr_size) + align
      in do {
        (h, ptr) \<leftarrow> rt_malloc name align_size h;
        if ptr \<noteq> NULL
        then do {
          let align_ptr = (if ptr AND (align - 1) = 0 then ptr + align else (ptr + (align - 1)) AND NOT (align - 1));
          Some ((fst h, store_long (snd h) (align_ptr - 4) (long_of_ptr ptr)), align_ptr)
        }
        else Some (h, ptr)
      })"

definition rt_free_align :: "addr \<Rightarrow> heap \<Rightarrow> heap option" where
  "rt_free_align ptr h = (if ptr = NULL then Some h else rt_free (ptr_of_long (load_long (snd h) (ptr - 4))) h)"

definition rt_strdup :: "string option \<Rightarrow> addr \<Rightarrow> heap \<Rightarrow> (heap \<times> addr) option" where
  "rt_strdup name s h =
     do {
       n \<leftarrow> rt_strlen (snd h) s;
       let len = n + 1;
       (h, tmp) \<leftarrow> rt_malloc name len h;
       if tmp = NULL then Some (h, NULL)
       else Some ((fst h, fst (rt_memcpy (snd h) tmp s len)), tmp)
     }"


subsection \<open>Shrinking a block\<close>

lemma smem_shrink_spec:
  assumes i: "smem_inv m (xs @ (n, True) # ys)" and k: "24 \<le> k" "8 dvd k" "k + 16 \<le> n" and p: "p = seg_total xs"
  shows "\<exists>m'. smem_shrink p (n - 16) (k - 16) m = Some m' \<and> smem_inv m' (xs @ (k, True) # join (n - k, False) ys) \<and>
    heap_ptr m' = heap_ptr m \<and> heap_end m' = heap_end m"
proof -
  note w = smem_invD(1) [OF i]
  note l = smem_wfD(8) [OF w] and e = smem_wfD(6,7) [OF w]
  have n: "item_next (items m p) = p + n" "p + n + seg_total ys = heap_end m" using l e p by auto
  have ys: "p + n = mem_size_aligned m + 16 \<longleftrightarrow> ys = []" using lay_pos [OF l] n(2) e(1) by (cases ys) auto
  let ?m0 = "smem_split p (p + k) (m\<lparr>mem_used := mem_used m - (n - k)\<rparr>)"
  let ?m1 = "if p + k < lfree ?m0 then ?m0\<lparr>lfree := p + k\<rparr> else ?m0"
  have lay1: "lay (items ?m1) (smem_self m) 0 0 (xs @ (k, True) # (n - k, False) # ys)"
    by (rule lay_split [OF l _, where r = p])
      (use k p n ys l smem_wfD(3) [OF w] in \<open>auto simp: smem_split_def Let_def add.commute add.left_commute\<close>)
  have he: "MEM_ISUSED (items ?m1 (heap_end m))" "MEM_POOL (items ?m1 (heap_end m)) = smem_self m"
    using smem_wfD(9,10) [OF w] k n by (auto simp: smem_split_def Let_def)
  have lf: "lfree ?m1 = first_free 0 (xs @ (k, True) # (n - k, False) # ys)"
  proof (cases "\<forall>s\<in>set xs. snd s")
    case True
    then have "lfree m = first_free (p + n) ys" using smem_wfD(11) [OF w] p by (simp add: first_free_append)
    then show ?thesis using True k(3) first_free_bounds(1) [of "p + n" ys] p by (simp add: first_free_append)
  next
    case False
    moreover have "first_free 0 xs \<le> p" using first_free_bounds(2) [of 0 xs] p by simp
    ultimately show ?thesis using smem_wfD(11) [OF w] k(1) by (auto simp: first_free_append)
  qed
  have w1: "smem_wf ?m1 ((xs @ [(k, True)]) @ (n - k, False) # ys)"
    using smem_wfD(1-7,12,13) [OF w] lay1 he lf k(3) unfolding smem_wf_def by (simp split: if_splits)
  have p2: "p + k = seg_total (xs @ [(k, True)])" using p by simp
  let ?m' = "plug_backward (p + k) (plug_forward (p + k) ?m1)"
  have "plug_holes (p + k) ?m1 = Some ?m'"
    using unat_heap_at [OF w1] n(2) k by (simp add: plug_holes_def word_le_nat_alt word_less_nat_alt)
  moreover have "smem_shrink p (n - 16) (k - 16) m = plug_holes (p + k) ?m1"
    using k by (simp add: smem_shrink_def Let_def add.commute add.left_commute)
  moreover obtain n' ys' where j: "join (n - k, False) ys = (n', False) # ys'" by (cases "ys \<noteq> [] \<and> \<not> snd (hd ys)") (auto simp: join_free)
  have "smem_wf ?m' (xs @ (k, True) # join (n - k, False) ys)"
    using plug_backward_spec [OF plug_forward_spec [OF w1 p2, unfolded j] p2] by (simp add: j)
  moreover have "coalesced (xs @ (k, True) # join (n - k, False) ys)"
    using smem_invD(2) [OF i] by (cases ys) (auto simp: join_free coalesced_append coalesced_Cons)
  ultimately show ?thesis by (simp add: smem_inv_def plug_fields)
qed

lemma used_blocks_shrink:
  assumes l: "lay its a 0 0 (xs @ (n, True) # ys)" and p: "p = seg_total xs" and that: "k \<le> n"
  shows "used_blocks 0 (xs @ (k, True) # join (n - k, False) ys) = insert (p + 16, k - 16) (used_blocks 0 (xs @ (n, True) # ys) - {(p + 16, n - 16)})"
proof -
  have "(p + 16, n - 16) \<notin> used_blocks 0 xs" using used_blocks_range [of "p + 16" "n - 16" 0 xs its a 0 0] l p by auto
  moreover have "(p + 16, n - 16) \<notin> used_blocks (p + n) ys" using used_blocks_range [of "p + 16" "n - 16" "p + n" ys its a "p + n" p] l p by auto
  ultimately show ?thesis using p that by (auto simp: used_blocks_join)
qed

subsection \<open>Changing the size of a block\<close>

lemma disjoint_fwd_safe:
  assumes "block (unat dst, a) \<inter> block (unat src, b) = {}" "unat n \<le> a" "unat n \<le> b" "unat src + b \<le> 2 ^ 32" "0 < a" "0 < b"
  shows "fwd_safe dst src n"
proof (cases "unat src + b \<le> unat dst")
  case True
  then show ?thesis using assms(3) by (auto simp: fwd_safe_def word_le_nat_alt unat_sub)
next
  case False
  have "unat src \<notin> block (unat dst, a)" "unat dst \<notin> block (unat src, b)" using assms(1,5,6) by (auto simp: block_def)
  then have "unat dst + a \<le> unat src" using False by (auto simp: block_def)
  then have "unat (dst - src) = 2 ^ 32 + unat dst - unat src"
    using unat_sub_if_size [of dst src] assms(5) by (simp add: word_size)
  then show ?thesis using assms(3,4) unfolding fwd_safe_def word_le_nat_alt by linarith
qed

text \<open>What a successful change of size of the block \<open>(a, c)\<close> to \<open>n\<close> bytes at \<open>p\<close> means: the new block replaces the old one, the
  contents are kept, and no byte outside the new block is changed.\<close>

definition resized :: "heap \<Rightarrow> addr \<Rightarrow> nat \<Rightarrow> nat \<Rightarrow> addr \<Rightarrow> heap \<Rightarrow> bool" where
  "resized h a c n p h' \<longleftrightarrow> (\<exists>c'\<ge>n. smem_live (fst h') = insert (unat p, c') (smem_live (fst h) - {(unat a, c)}) \<and>
     (\<forall>i<min c n. snd h' (p + of_nat i) = snd h (a + of_nat i)) \<and>
     (\<forall>x. unat x \<notin> block (unat p, c') \<longrightarrow> snd h' x = snd h x))"

lemma live_facts:
  assumes ok: "smem_ok m" and l: "(unat a, c) \<in> smem_live m"
  obtains xs ys where "segs m = xs @ (c + 16, True) # ys" "a = heap_at m (seg_total xs + 16)" "unat (a - 16 - heap_ptr m) = seg_total xs"
    "item_next (items m (seg_total xs)) = seg_total xs + (c + 16)" "a \<noteq> NULL" "a AND 7 = 0" "heap_ptr m \<le> a" "a < heap_at m (heap_end m)" "8 dvd c" "8 \<le> c"
    "unat a + c < 2 ^ 32"
proof -
  note w = smem_okD(2) [OF ok]
  obtain xs ys where x: "segs m = xs @ (c + 16, True) # ys" "unat a = unat (heap_at m (seg_total xs + 16))"
    "seg_total xs + 16 + c \<le> heap_end m" "8 dvd unat a" "8 \<le> c"
    by (rule smem_live_block [OF ok l]) (rule that)
  have a: "a = heap_at m (seg_total xs + 16)" using x(2) by (simp add: word_unat_eq_iff)
  have u: "unat a = unat (heap_ptr m) + (seg_total xs + 16)" using unat_heap_at [OF w] x(3) unfolding a by simp
  have "a - 16 - heap_ptr m = of_nat (seg_total xs)" by (simp add: a heap_at_def)
  then have of: "unat (a - 16 - heap_ptr m) = seg_total xs" using smem_wfD(5) [OF w] x(3) by simp
  have l: "item_next (items m (seg_total xs)) = seg_total xs + (c + 16)" "8 dvd c + 16" using smem_wfD(8) [OF w] x(1) by simp_all
  then have "8 dvd c" using dvd_diff_nat [of 8 "c + 16" 16] by simp
  moreover have "a AND 7 = 0" using heap_at_aligned(2) [OF w, of "seg_total xs + 16"] x(3) lay_dvd [of "items m" "smem_self m" 0 0 xs] smem_wfD(8) [OF w]
    unfolding a x(1) by simp
  moreover have "a \<noteq> 0" "heap_ptr m \<le> a" "a < heap_at m (heap_end m)" "unat a + c < 2 ^ 32"
    using u x(3,5) unat_heap_at [OF w, of "heap_end m"] smem_wfD(5) [OF w] by (auto simp: word_le_nat_alt word_less_nat_alt)
  ultimately show thesis using that x(1,5) a of l(1) by blast
qed

lemma alloc_null:
  assumes ok: "smem_ok m" and a: "rt_smem_alloc nm sz m = Some (m', NULL)"
  shows "m' = m"
proof (cases "sz = 0")
  case False
  note w = smem_okD(2) [OF ok]
  show ?thesis
  proof (cases "first_fit (block_size sz) 0 (segs m)")
    case None
    then show ?thesis using smem_alloc_refines [OF smem_okD(1) [OF ok] False, of nm] a by simp
  next
    case (Some r)
    obtain p ss' where r: "r = (p, ss')" by fastforce
    have "p + 16 \<le> heap_end m" using fit_fresh(2) [OF Some [unfolded r] smem_wfD(8) [OF w]] smem_wfD(7) [OF w] by simp
    then have "heap_at m (p + 16) \<noteq> 0" using unat_heap_at [OF w, of "p + 16"] by auto
    then show ?thesis using smem_alloc_refines [OF smem_okD(1) [OF ok] False, of nm] a Some r by auto
  qed
qed (use a in \<open>simp add: rt_smem_alloc_def\<close>)

lemma outside_range:
  assumes "unat p + c \<le> 2 ^ 32" "unat n \<le> c" "unat x \<notin> block (unat p, c)"
  shows "\<not> x - p < (n :: addr)"
proof
  assume "x - p < n"
  then have "unat (x - p) < c" using assms(2) by (simp add: word_less_nat_alt)
  moreover have "unat x = unat p + unat (x - p)"
    using unat_add_lem [of p "x - p"] assms(1) calculation by simp
  ultimately show False using assms(3) by (simp add: block_def)
qed

text \<open>The branch that moves the block.\<close>

lemma realloc_moves:
  assumes ok: "smem_ok m" and l: "(unat a, c) \<in> smem_live m" and N: "N + 32 \<le> 2 ^ 32" "n \<le> N"
  obtains m1 p where "rt_smem_alloc nm (of_nat N) m = Some (m1, p)" "p = NULL \<Longrightarrow> m1 = m"
    "p \<noteq> NULL \<Longrightarrow> \<exists>m2. rt_smem_free a m1 = Some m2 \<and> smem_ok m2 \<and> resized (m, d) a c n p (m2, fst (rt_memcpy d p a (of_nat (min c N))))"
proof -
  have sz: "smem_size N" using N by (simp add: smem_size_def)
  obtain m1 r where al: "smem_alloc_op nm m N = Some (m1, r)" "smem_ok m1"
    and lv: "case r of None \<Rightarrow> smem_live m1 = smem_live m | Some p \<Rightarrow> \<exists>c'\<ge>N. (p, c') \<notin> smem_live m \<and> smem_live m1 = insert (p, c') (smem_live m)"
    using smem_alloc_contract [OF ok sz] by blast
  obtain p where p: "rt_smem_alloc nm (of_nat N) m = Some (m1, p)" "r = (if p = NULL then None else Some (unat p))"
    using al(1) by (auto simp: smem_alloc_op_def)
  show thesis
  proof (rule that [OF p(1)])
    show "m1 = m" if "p = NULL" using alloc_null [OF ok] p(1) that by simp
    assume "p \<noteq> NULL"
    then obtain c' where c': "N \<le> c'" "(unat p, c') \<notin> smem_live m" "smem_live m1 = insert (unat p, c') (smem_live m)" using lv p(2) by auto
    have la: "(unat a, c) \<in> smem_live m1" "(unat p, c') \<in> smem_live m1" using l c'(3) by simp_all
    have ne: "(unat a, c) \<noteq> (unat p, c')" using l c'(2) by auto
    have fa: "unat a + c < 2 ^ 32" "8 \<le> c" by (rule live_facts [OF al(2) la(1)], simp)+
    have fp: "unat p + c' < 2 ^ 32" "8 \<le> c'" by (rule live_facts [OF al(2) la(2)], simp)+
    obtain m2 where m2: "smem_free_op m1 (unat a) = Some m2" "smem_ok m2" "smem_live m2 = smem_live m1 - {(unat a, c)}"
      using smem_free_contract [OF al(2) la(1)] by blast
    let ?k = "of_nat (min c N) :: u32"
    have k: "unat ?k = min c N" using N by (simp add: min_def)
    have "fwd_safe p a ?k"
      by (rule disjoint_fwd_safe [of _ c' _ c]) (use smem_live_disjoint [OF al(2) la(2,1)] ne k c'(1) fa fp in auto)
    then have cp: "fst (rt_memcpy d p a ?k) = copied d p a ?k"
      using rt_memcpy_fwd by simp
    have "resized (m, d) a c n p (m2, copied d p a ?k)" unfolding resized_def
    proof (intro exI [of _ c'] conjI)
      show "smem_live (fst (m2, copied d p a ?k)) = insert (unat p, c') (smem_live (fst (m, d)) - {(unat a, c)})"
        using m2(3) c'(3) ne by auto
      show "\<forall>i<min c n. snd (m2, copied d p a ?k) (p + of_nat i) = snd (m, d) (a + of_nat i)"
        using k N by (auto simp: copied_def word_less_nat_alt)
      show "\<forall>x. unat x \<notin> block (unat p, c') \<longrightarrow> snd (m2, copied d p a ?k) x = snd (m, d) x"
        using outside_range [OF less_imp_le [OF fp(1)]] k c'(1) by (simp add: copied_def)
    qed (use c'(1) N(2) in simp)
    then show "\<exists>m2. rt_smem_free a m1 = Some m2 \<and> smem_ok m2 \<and> resized (m, d) a c n p (m2, fst (rt_memcpy d p a ?k))"
      using m2 cp by (auto simp: smem_free_op_def)
  qed
qed

lemma realloc_size:
  fixes ns :: u32
  assumes "ns \<noteq> 0" "unat ns + 7 < 2 ^ 32"
  shows "unat ns \<le> unat (RT_ALIGN ns 8)" "8 dvd unat (RT_ALIGN ns 8)" "8 \<le> unat (RT_ALIGN ns 8)"
proof -
  show le: "unat ns \<le> unat (RT_ALIGN ns 8)" using unat_align(1) [OF assms(2)] by simp
  show d: "8 dvd unat (RT_ALIGN ns 8)" by (rule align8_dvd)
  have "0 < unat ns" using assms(1) by (simp add: unat_gt_0)
  then show "8 \<le> unat (RT_ALIGN ns 8)" using le d by (auto simp: dvd_def)
qed

text \<open>The branch that shrinks the block in place.\<close>

lemma realloc_shrinks:
  assumes ok: "smem_ok m" and x: "segs m = xs @ (c + 16, True) # ys" and a: "a = heap_at m (seg_total xs + 16)"
    and k: "8 \<le> N" "8 dvd N" "N + 28 < c" "n \<le> N"
  obtains m' where "smem_shrink (seg_total xs) c N m = Some m'" "smem_ok m'" "resized (m, d) a c n a (m', d)"
proof -
  note w = smem_okD(2) [OF ok]
  obtain m' where m': "smem_shrink (seg_total xs) c N m = Some m'" "smem_inv m' (xs @ (N + 16, True) # join (c - N, False) ys)"
    "heap_ptr m' = heap_ptr m"
    using smem_shrink_spec [OF smem_okD(1) [OF ok, unfolded x], of "N + 16"] k by auto
  have u: "unat a = unat (heap_ptr m) + (seg_total xs + 16)"
    using unat_heap_at [OF w, of "seg_total xs + 16"] smem_wfD(7) [OF w] unfolding a x by simp
  have "used_blocks 0 (segs m') = insert (seg_total xs + 16, N) (used_blocks 0 (segs m) - {(seg_total xs + 16, c)})"
    using used_blocks_shrink [of "items m" "smem_self m" xs "c + 16" ys "seg_total xs" "N + 16"] smem_wfD(8) [OF w] k
    unfolding segs_inv [OF m'(2)] x by simp
  moreover have "shift_block (unat (heap_ptr m)) (seg_total xs + 16, z) = (unat a, z)" for z by (simp add: shift_block_def u)
  ultimately have "smem_live m' = insert (unat a, N) (smem_live m - {(unat a, c)})"
    unfolding smem_live_def m'(3) by (simp add: image_set_diff [OF shift_block(1)])
  then have "resized (m, d) a c n a (m', d)" using k(4) unfolding resized_def by (intro exI [of _ N]) auto
  then show thesis using that m'(1) smem_okI [OF m'(2)] by blast
qed

text \<open>
  C10: Changing the size of a block passes every check of the code, and it either fails and changes nothing, or yields a block of at
  least the new size that starts with the old contents; the old block is given back, and no byte of any other block
  changes.
\<close>
theorem realloc_keeps_contents:
  assumes ok: "smem_ok m" and l: "(unat a, c) \<in> smem_live m" and n: "ns \<noteq> 0" "unat ns + 7 < 2 ^ 32"
  shows "\<exists>m' d' p. rt_realloc nm a ns (m, d) = Some ((m', d'), p) \<and> smem_ok m' \<and>
    (if p = NULL then m' = m \<and> d' = d else resized (m, d) a c (unat ns) p (m', d'))"
proof -
  note w = smem_okD(2) [OF ok]
  let ?N = "unat (RT_ALIGN ns 8)"
  note N = realloc_size [OF n]
  obtain xs ys where x: "segs m = xs @ (c + 16, True) # ys" "a = heap_at m (seg_total xs + 16)" "unat (a - 16 - heap_ptr m) = seg_total xs"
    "item_next (items m (seg_total xs)) = seg_total xs + (c + 16)" "a \<noteq> NULL" "a AND 7 = 0" "heap_ptr m \<le> a" "a < heap_at m (heap_end m)"
    by (rule live_facts [OF ok l]) (rule that)
  note r = rt_realloc_def rt_smem_realloc_def Let_def
  consider "?N > mem_size_aligned m" | "?N \<le> mem_size_aligned m" "c = ?N" | "?N \<le> mem_size_aligned m" "?N + 28 < c"
    | "?N \<le> mem_size_aligned m" "c \<noteq> ?N" "\<not> ?N + 28 < c" by linarith
  then show ?thesis
  proof cases
    case 1
    then show ?thesis using smem_wfD(1) [OF w] ok by (simp add: r)
  next
    case 2
    then have "rt_realloc nm a ns (m, d) = Some ((m, d), a)" using smem_wfD(1) [OF w] x N(3) by (simp add: r)
    moreover have "resized (m, d) a c (unat ns) a (m, d)" using l N(1) 2(2) unfolding resized_def by (intro exI [of _ c]) auto
    ultimately show ?thesis using ok x(5) by auto
  next
    case 3
    obtain m' where m': "smem_shrink (seg_total xs) c ?N m = Some m'" "smem_ok m'" "resized (m, d) a c (unat ns) a (m', d)"
      by (rule realloc_shrinks [OF ok x(1,2) N(3,2) 3(2) N(1)])
    have "rt_realloc nm a ns (m, d) = Some ((m', d), a)" using smem_wfD(1) [OF w] x N(3) 3 m'(1) by (simp add: r)
    then show ?thesis using m' x(5) by auto
  next
    case 4
    have N32: "?N + 32 \<le> 2 ^ 32" using smem_wfD(5,6) [OF w] 4(1) by simp
    obtain m1 p where p: "rt_smem_alloc nm (of_nat ?N) m = Some (m1, p)" "p = NULL \<Longrightarrow> m1 = m"
      "p \<noteq> NULL \<Longrightarrow> \<exists>m2. rt_smem_free a m1 = Some m2 \<and> smem_ok m2 \<and> resized (m, d) a c (unat ns) p (m2, fst (rt_memcpy d p a (of_nat (min c ?N))))"
      by (rule realloc_moves [OF ok l N32 N(1), of nm d]) (rule that; blast)
    have mn: "(if c < ?N then c else ?N) = min c ?N" by simp
    show ?thesis
    proof (cases "p = NULL")
      case True
      then have "rt_realloc nm a ns (m, d) = Some ((m, d), NULL)" using smem_wfD(1) [OF w] x N(3) 4 p(1,2) by (simp add: r)
      then show ?thesis using ok by simp
    next
      case False
      then obtain m2 where m2: "rt_smem_free a m1 = Some m2" "smem_ok m2"
        "resized (m, d) a c (unat ns) p (m2, fst (rt_memcpy d p a (of_nat (min c ?N))))" using p(3) by blast
      have "rt_realloc nm a ns (m, d) = Some ((m2, fst (rt_memcpy d p a (of_nat (min c ?N)))), p)"
        using smem_wfD(1) [OF w] x N(3) 4 p(1) m2(1) False by (simp add: r mn)
      then show ?thesis using m2 False by auto
    qed
  qed
qed

subsection \<open>The front end\<close>

text \<open>What every allocation delivers: nothing, or a block of at least \<open>n\<close> bytes that was free before.\<close>

definition granted :: "small_mem \<Rightarrow> nat \<Rightarrow> small_mem \<Rightarrow> addr \<Rightarrow> bool" where
  "granted m n m' p \<longleftrightarrow> smem_ok m' \<and> (if p = NULL then m' = m
     else \<exists>c\<ge>n. (unat p, c) \<notin> smem_live m \<and> smem_live m' = insert (unat p, c) (smem_live m) \<and> unat p + c < 2 ^ 32 \<and> 8 dvd unat p)"

lemma malloc_granted:
  assumes ok: "smem_ok m" and n: "unat sz + 7 < 2 ^ 32"
  obtains m' p where "rt_malloc nm sz (m, d) = Some ((m', d), p)" "granted m (unat sz) m' p"
proof -
  obtain m' r where al: "smem_alloc_op nm m (unat sz) = Some (m', r)" "smem_ok m'"
    and lv: "case r of None \<Rightarrow> smem_live m' = smem_live m | Some p \<Rightarrow> \<exists>c\<ge>unat sz. (p, c) \<notin> smem_live m \<and> smem_live m' = insert (p, c) (smem_live m)"
    using smem_alloc_contract [OF ok, of "unat sz" nm] n unfolding smem_size_def by blast
  obtain p where p: "rt_smem_alloc nm sz m = Some (m', p)" "r = (if p = NULL then None else Some (unat p))"
    using al(1) by (auto simp: smem_alloc_op_def)
  have "granted m (unat sz) m' p"
  proof (cases "p = NULL")
    case True
    then show ?thesis using al(2) alloc_null [OF ok] p(1) by (simp add: granted_def)
  next
    case False
    then obtain c where c: "unat sz \<le> c" "(unat p, c) \<notin> smem_live m" "smem_live m' = insert (unat p, c) (smem_live m)" using lv p(2) by auto
    have "(unat p, c) \<in> smem_live m'" using c(3) by simp
    then have "unat p + c < 2 ^ 32" "8 dvd unat p" by (rule live_facts [OF al(2)], simp, rule smem_live_block [OF al(2)], simp)
    then show ?thesis using c al(2) False by (auto simp: granted_def)
  qed
  then show thesis using that [of m' p] p(1) by (simp add: rt_malloc_def)
qed

text \<open>
  \<open>rt_calloc\<close> hands out a fresh block of \<open>count * size\<close> bytes that are all zero and changes no byte outside it, as long as the product
  fits into 32 bits; the code multiplies without a check.
\<close>
theorem calloc_zeroed:
  assumes ok: "smem_ok m" and n: "unat count * unat sz + 7 < 2 ^ 32"
  shows "\<exists>m' d' p. rt_calloc nm count sz (m, d) = Some ((m', d'), p) \<and> granted m (unat count * unat sz) m' p \<and>
    (p \<noteq> NULL \<longrightarrow> (\<forall>i<unat count * unat sz. d' (p + of_nat i) = 0)) \<and>
    (\<forall>x. unat x \<notin> block (unat p, unat count * unat sz) \<longrightarrow> d' x = d x)"
proof -
  have u: "unat (count * sz) = unat count * unat sz" using n by (simp add: unat_word_ariths)
  obtain m' p where p: "rt_malloc nm (count * sz) (m, d) = Some ((m', d), p)" "granted m (unat count * unat sz) m' p"
    using malloc_granted [OF ok, of "count * sz" nm d] n u by metis
  show ?thesis
  proof (cases "p = NULL")
    case True
    then show ?thesis using p by (auto simp: rt_calloc_def)
  next
    case False
    let ?d = "filled d p 0 (count * sz)"
    have "rt_calloc nm count sz (m, d) = Some ((m', ?d), p)" using p(1) False by (simp add: rt_calloc_def rt_memset_filled)
    moreover have "?d (p + of_nat i) = 0" if "i < unat count * unat sz" for i
      using that n u by (simp add: filled_def word_less_nat_alt)
    moreover have "?d x = d x" if "unat x \<notin> block (unat p, unat count * unat sz)" for x
    proof -
      have "unat p + unat count * unat sz \<le> 2 ^ 32" using p(2) False by (auto simp: granted_def)
      from outside_range [OF this _ that] show ?thesis using u by (simp add: filled_def)
    qed
    ultimately show ?thesis using p(2) False by blast
  qed
qed

text \<open>The product of \<open>rt_calloc\<close> wraps: 65536 objects of 65537 bytes are granted 65536 bytes in all.\<close>

lemma calloc_wraps: "rt_calloc nm 65536 65537 h = rt_calloc nm 1 65536 h"
proof -
  have "65536 * 65537 = (1 * 65536 :: u32)" by (simp add: word_unat_eq_iff)
  then show ?thesis by (simp only: rt_calloc_def)
qed

lemma ptr_roundtrip: "ptr_of_long (long_of_ptr p) = p"
proof (rule bit_word_eqI)
  fix i assume "i < LENGTH(32)"
  then show "bit (ptr_of_long (long_of_ptr p)) i \<longleftrightarrow> bit p i"
    by (cases "i < 24"; cases "i < 16"; cases "i < 8") (auto simp: ptr_of_long_def long_of_ptr_def bit_simps)
qed

lemma load_store_long: "length l = 4 \<Longrightarrow> load_long (store_long d a l) a = l"
proof -
  assume "length l = 4"
  then obtain w x y z where "l = [w, x, y, z]" by (auto simp: numeral_eq_Suc length_Suc_conv)
  then show ?thesis by (simp add: load_long_def store_long_def)
qed

lemma power2_masks:
  fixes p :: addr
  assumes "k < 32"
  shows "unat (p AND (2 ^ k - 1)) = unat p mod 2 ^ k" "unat (p AND NOT (2 ^ k - 1)) = unat p div 2 ^ k * 2 ^ k"
proof -
  have "p AND (2 ^ k - 1) = take_bit k p" by (simp add: take_bit_eq_mask mask_eq_exp_minus_1)
  then show "unat (p AND (2 ^ k - 1)) = unat p mod 2 ^ k" by (simp only: unsigned_take_bit_eq) (simp add: take_bit_eq_mod)
  show "unat (p AND NOT (2 ^ k - 1)) = unat p div 2 ^ k * 2 ^ k"
    using round_up_mask [of p k] unat_push_drop [of k p] assms by (simp add: mask_eq_exp_minus_1)
qed

lemma round_up_nat:
  fixes x a :: nat
  assumes "x mod a \<noteq> 0" "0 < a"
  shows "(x + a - 1) div a = x div a + 1"
proof (rule div_nat_eqI)
  have e: "a * (x div a) + x mod a = x" and l: "x mod a < a" using assms(2) by simp_all
  then show "a * (x div a + 1) \<le> x + a - 1" using assms(1) unfolding add_mult_distrib2 by linarith
  show "x + a - 1 < a * Suc (x div a + 1)" using e l assms(1) unfolding mult_Suc_right add_mult_distrib2 by linarith
qed

text \<open>The aligned pointer lies in the block, behind room for the saved pointer.\<close>

definition align_up :: "addr \<Rightarrow> u32 \<Rightarrow> addr" where
  "align_up ptr align = (if ptr AND (align - 1) = 0 then ptr + align else (ptr + (align - 1)) AND NOT (align - 1))"

lemma align_up_bounds:
  assumes k: "2 \<le> k" "k < 31" and p: "8 dvd unat ptr" "unat ptr + 2 ^ k < 2 ^ 32"
  shows "2 ^ k dvd unat (align_up ptr (2 ^ k))" "unat ptr + 4 \<le> unat (align_up ptr (2 ^ k))" "unat (align_up ptr (2 ^ k)) \<le> unat ptr + 2 ^ k"
proof -
  let ?P = "unat ptr" and ?A = "2 ^ k :: nat" and ?Q = "unat (align_up ptr (2 ^ k))"
  have "unat (of_nat ?A :: u32) = ?A" using k power_strict_increasing [of k 32 "2 :: nat"] by (intro unat_of_nat_small) simp
  then have a: "unat (2 ^ k :: u32) = ?A" "4 \<le> ?A" using k power_increasing [of 2 k "2 :: nat"] by simp_all
  have z: "ptr AND (2 ^ k - 1) = 0 \<longleftrightarrow> ?P mod ?A = 0" using power2_masks(1) [of k ptr] k by (simp add: word_unat_eq_iff)
  show "?A dvd ?Q" "?P + 4 \<le> ?Q" "?Q \<le> ?P + ?A"
  proof (atomize (full), cases "?P mod ?A = 0")
    case True
    then have "?Q = ?P + ?A" using z p(2) a by (simp add: align_up_def unat_word_ariths)
    then show "?A dvd ?Q \<and> ?P + 4 \<le> ?Q \<and> ?Q \<le> ?P + ?A" using True a(2) by (simp add: dvd_eq_mod_eq_0)
  next
    case False
    have "8 dvd ?A"
    proof (cases "k = 2")
      case True
      then show ?thesis using False p(1) by (auto simp: dvd_def)
    next
      case False
      then show ?thesis using k(1) le_imp_power_dvd [of 3 k "2 :: nat"] by simp
    qed
    then have r: "8 dvd ?P mod ?A" using p(1) by (simp add: dvd_mod)
    have "(2 ^ k :: u32) \<noteq> 0" using a by (auto simp: word_unat_eq_iff)
    then have "unat ((2 ^ k :: u32) - 1) = ?A - 1" using a(1) by (simp add: unat_minus_one)
    then have u: "unat (ptr + (2 ^ k - 1)) = ?P + ?A - 1" using p(2) a(2) by (simp add: unat_word_ariths)
    have "(?P + ?A - 1) div ?A = ?P div ?A + 1" by (rule round_up_nat) (use False in simp_all)
    then have q: "?Q = ?P div ?A * ?A + ?A" using False z u power2_masks(2) [of k] k by (simp add: align_up_def)
    have "?P = ?P div ?A * ?A + ?P mod ?A" by (rule div_mult_mod_eq [symmetric])
    moreover have "8 dvd ?A - ?P mod ?A" using r \<open>8 dvd ?A\<close> by (rule dvd_diff_nat [rotated])
    then have "?P mod ?A + 8 \<le> ?A" using mod_less_divisor [of ?A ?P] a(2) by (auto dest!: dvd_imp_le)
    moreover have "?A dvd ?Q" unfolding q by simp
    ultimately show "?A dvd ?Q \<and> ?P + 4 \<le> ?Q \<and> ?Q \<le> ?P + ?A" using q by linarith
  qed
qed

text \<open>
  \<open>rt_malloc_align\<close> for a power of two hands out an aligned address with room for \<open>size\<close> bytes inside a fresh block, and
  \<open>rt_free_align\<close> gives exactly this block back, whatever the client did to the memory, as long as it left the four
  bytes before its block alone.
\<close>
theorem malloc_align_roundtrip:
  assumes ok: "smem_ok m" and k: "2 \<le> k" "k < 31" and n: "unat sz + 2 ^ k + 16 < 2 ^ 32"
  shows "\<exists>m' d' p. rt_malloc_align nm sz (2 ^ k) (m, d) = Some ((m', d'), p) \<and> smem_ok m' \<and>
    (if p = NULL then m' = m \<and> d' = d
     else 2 ^ k dvd unat p \<and>
       (\<exists>q c. (q, c) \<notin> smem_live m \<and> smem_live m' = insert (q, c) (smem_live m) \<and> block (unat p, unat sz) \<subseteq> block (q, c)) \<and>
       (\<forall>d''. load_long d'' (p - 4) = load_long d' (p - 4) \<longrightarrow>
          (\<exists>m''. rt_free_align p (m', d'') = Some (m'', d'') \<and> smem_ok m'' \<and> smem_live m'' = smem_live m)))"
proof -
  let ?A = "2 ^ k :: u32" and ?S = "((sz + 3) AND NOT 3) :: u32"
  have "unat (of_nat (2 ^ k) :: u32) = 2 ^ k" using k power_strict_increasing [of k 32 "2 :: nat"] by (intro unat_of_nat_small) simp
  then have a: "unat ?A = 2 ^ k" by simp
  have "4 dvd (2 ^ k :: nat)" using k(1) le_imp_power_dvd [of 2 k "2 :: nat"] by simp
  then have "unat ((?A + 3) AND NOT 3) = unat ?A"
    using power2_masks(2) [of 2 "?A + 3"] a n by (simp add: unat_word_ariths) (auto simp: dvd_def)
  then have al: "(?A + 3) AND NOT 3 = ?A" by (simp add: word_unat_eq_iff)
  have S: "unat sz \<le> unat ?S" "unat ?S \<le> unat sz + 3" using power2_masks(2) [of 2 "sz + 3"] n by (simp_all add: unat_word_ariths)
  have sz: "unat (?S + ?A) = unat ?S + 2 ^ k" "unat (?S + ?A) + 7 < 2 ^ 32" using n a S(2) by (simp_all add: unat_word_ariths)
  obtain m' q where q: "rt_malloc nm (?S + ?A) (m, d) = Some ((m', d), q)" "granted m (unat (?S + ?A)) m' q"
    by (rule malloc_granted [OF ok sz(2), of nm d])
  show ?thesis
  proof (cases "q = NULL")
    case True
    then have "rt_malloc_align nm sz ?A (m, d) = Some ((m', d), NULL)" using q(1) al by (simp add: rt_malloc_align_def Let_def)
    then show ?thesis using q(2) True by (auto simp: granted_def)
  next
    case False
    obtain c where c: "unat (?S + ?A) \<le> c" "(unat q, c) \<notin> smem_live m" "smem_live m' = insert (unat q, c) (smem_live m)"
      "unat q + c < 2 ^ 32" "8 dvd unat q" "smem_ok m'" using q(2) False by (auto simp: granted_def)
    let ?p = "align_up q ?A"
    let ?d = "store_long d (?p - 4) (long_of_ptr q)"
    have r: "rt_malloc_align nm sz ?A (m, d) = Some ((m', ?d), ?p)"
      using q(1) al False by (simp add: rt_malloc_align_def Let_def align_up_def)
    have pb: "2 ^ k dvd unat ?p" "unat q + 4 \<le> unat ?p" "unat ?p \<le> unat q + 2 ^ k"
      using align_up_bounds [OF k c(5)] c(1,4) sz(1) by simp_all
    have pn: "?p \<noteq> NULL" using pb(2) by auto
    have "block (unat ?p, unat sz) \<subseteq> block (unat q, c)" using pb c(1) sz(1) S(1) by (auto simp: block_def)
    moreover have "\<exists>m''. rt_free_align ?p (m', d'') = Some (m'', d'') \<and> smem_ok m'' \<and> smem_live m'' = smem_live m"
      if "load_long d'' (?p - 4) = load_long ?d (?p - 4)" for d''
    proof -
      have "ptr_of_long (load_long d'' (?p - 4)) = q" using that ptr_roundtrip by (simp add: load_store_long long_of_ptr_def)
      moreover have "(unat q, c) \<in> smem_live m'" using c(3) by simp
      then obtain m'' where "smem_free_op m' (unat q) = Some m''" "smem_ok m''" "smem_live m'' = smem_live m' - {(unat q, c)}"
        using smem_free_contract [OF c(6)] by blast
      ultimately show ?thesis using pn False c(2,3) by (auto simp: rt_free_align_def rt_free_def smem_free_op_def)
    qed
    ultimately show ?thesis using r pb(1) pn c(2,3,6) by auto
  qed
qed

subsection \<open>Duplicating a string\<close>

text \<open>A string in the heap is copied to a fresh block, provided it lies in no free memory.\<close>

lemma strdup_copies:
  fixes a :: addr
  assumes ok: "smem_ok m" and s: "cstr d s xs" "length xs + 8 < 2 ^ 32" and l: "(unat a, c) \<in> smem_live m" "block (unat s, Suc (length xs)) \<subseteq> block (unat a, c)"
  shows "\<exists>m' d' p. rt_strdup nm s (m, d) = Some ((m', d'), p) \<and> granted m (Suc (length xs)) m' p \<and> (p \<noteq> NULL \<longrightarrow> cstr d' p xs)"
proof -
  let ?n = "of_nat (length xs) + 1 :: u32"
  have e: "?n = of_nat (Suc (length xs))" by simp
  have n: "unat ?n = Suc (length xs)" unfolding e using s(2) by (intro unat_of_nat_small) simp
  have "rt_strlen d s = Some (of_nat (length xs))" using strlen_cstr [OF s(1)] strlen_from_iff [of d s 0] by (simp add: rt_strlen_def strlen_def)
  moreover obtain m' p where p: "rt_malloc nm ?n (m, d) = Some ((m', d), p)" "granted m (Suc (length xs)) m' p"
    by (rule malloc_granted [OF ok, of ?n nm d]) (use n s(2) that in auto)
  ultimately have r: "rt_strdup nm s (m, d) = (if p = NULL then Some ((m', d), NULL) else Some ((m', fst (rt_memcpy d p s ?n)), p))"
    by (simp add: rt_strdup_def)
  show ?thesis
  proof (cases "p = NULL")
    case True
    then show ?thesis using r p(2) by auto
  next
    case False
    obtain c' where c': "Suc (length xs) \<le> c'" "(unat p, c') \<notin> smem_live m" "smem_live m' = insert (unat p, c') (smem_live m)" "smem_ok m'"
      using p(2) False by (auto simp: granted_def)
    have "block (unat p, c') \<inter> block (unat a, c) = {}"
      by (rule smem_live_disjoint [OF c'(4)]) (use c'(2,3) l(1) in auto)
    then have dis: "block (unat p, c') \<inter> block (unat s, Suc (length xs)) = {}" using l(2) by blast
    have "unat a + c < 2 ^ 32" by (rule live_facts [OF ok l(1)])
    moreover have "unat s + length xs \<in> block (unat a, c)" using l(2) by (auto simp: block_def)
    ultimately have "unat s + Suc (length xs) \<le> 2 ^ 32" by (simp add: block_def)
    then have "fwd_safe p s ?n" using disjoint_fwd_safe [OF dis, of ?n] n c'(1) by simp
    then have "fst (rt_memcpy d p s ?n) = copied d p s ?n" using rt_memcpy_fwd by simp
    moreover have "cstr (copied d p s ?n) p xs" unfolding e by (rule cstr_copied [OF s(1)]) (use s(2) in simp)
    ultimately show ?thesis using r p(2) False by auto
  qed
qed

text \<open>Giving back a block of the heap.\<close>

lemma free_live:
  assumes ok: "smem_ok h" and l: "(unat p, c) \<in> smem_live h" and p: "p \<noteq> NULL"
  obtains h' where "rt_free p (h, d) = Some (h', d)" "smem_ok h'" "smem_live h' = smem_live h - {(unat p, c)}"
  using smem_free_contract [OF ok l] p that by (auto simp: smem_free_op_def rt_free_def)

subsection \<open>Witnesses\<close>

lemma demo_live:
  obtains m a where "rt_smem_alloc None 100 demo_heap = Some (m, a)" "smem_ok m" "(unat a, 104) \<in> smem_live m"
proof -
  obtain m where m: "rt_smem_alloc None 100 demo_heap = Some (m, heap_at demo_heap 16)" "smem_ok m" "segs m = [(120, True), (816, False)]"
    "heap_at m 16 = heap_at demo_heap 16"
    by (rule demo_taken) (rule that)
  have "unat (heap_at m 16) = unat (heap_ptr m) + 16" using unat_heap_at [OF smem_okD(2) [OF m(2)], of 16] smem_wfD(6) [OF smem_okD(2) [OF m(2)]] by simp
  then have "(unat (heap_at demo_heap 16), 104) \<in> smem_live m" using m(3,4) by (simp add: smem_live_def shift_block_def)
  then show thesis using that m(1,2) by blast
qed

theorem realloc_keeps_contents_witness:
  "\<exists>m a m' d' p. rt_smem_alloc None 100 demo_heap = Some (m, a) \<and> rt_realloc None a 200 (m, \<lambda>_. 7) = Some ((m', d'), p) \<and>
    (p \<noteq> NULL \<longrightarrow> d' p = 7)"
proof -
  obtain m a where m: "rt_smem_alloc None 100 demo_heap = Some (m, a)" "smem_ok m" "(unat a, 104) \<in> smem_live m" by (rule demo_live)
  obtain m' d' p where r: "rt_realloc None a 200 (m, \<lambda>_. 7) = Some ((m', d'), p)"
    "if p = NULL then m' = m \<and> d' = (\<lambda>_. 7) else resized (m, \<lambda>_. 7) a 104 (unat (200 :: u32)) p (m', d')"
    using realloc_keeps_contents [OF m(2,3), of 200 None "\<lambda>_. 7"] by auto
  then have "p \<noteq> NULL \<longrightarrow> d' (p + of_nat 0) = 7" unfolding resized_def by (auto split: if_splits dest!: spec [of _ 0])
  then show ?thesis using m(1) r(1) by auto
qed

theorem calloc_zeroed_witness:
  "\<exists>m' d' p. rt_calloc None 3 8 (demo_heap, \<lambda>_. 7) = Some ((m', d'), p) \<and> (p \<noteq> NULL \<longrightarrow> (\<forall>i<24. d' (p + of_nat i) = 0))"
  using calloc_zeroed [OF demo_heap(2), of 3 8 None "\<lambda>_. 7"] by auto

theorem malloc_align_roundtrip_witness:
  "\<exists>m' d' p. rt_malloc_align None 10 (2 ^ 6) (demo_heap, \<lambda>_. 7) = Some ((m', d'), p) \<and>
    (p \<noteq> NULL \<longrightarrow> 2 ^ 6 dvd unat p \<and> (\<exists>m''. rt_free_align p (m', d') = Some (m'', d') \<and> smem_live m'' = smem_live demo_heap))"
proof -
  obtain m' d' p where r: "rt_malloc_align None 10 (2 ^ 6) (demo_heap, \<lambda>_. 7) = Some ((m', d'), p)"
    "p \<noteq> NULL \<Longrightarrow> 2 ^ 6 dvd unat p" "p \<noteq> NULL \<Longrightarrow> \<exists>m''. rt_free_align p (m', d') = Some (m'', d') \<and> smem_live m'' = smem_live demo_heap"
    using malloc_align_roundtrip [OF demo_heap(2), of 6 10 None "\<lambda>_. 7"] by (fastforce split: if_splits)
  then show ?thesis by blast
qed

end
