(* ===== verification/KSched.thy ===== *)
theory KSched
  imports KState
begin

text \<open>
  The scheduler of \<open>src/scheduler_up.c\<close> with the bit search \<open>__rt_ffs\<close> of \<open>src/kservice.c\<close>: the ready
  queues, the priority bitmap, the choice of the next thread and the scheduler lock.
\<close>

subsection \<open>Finding the lowest set bit\<close>

definition lowest_bit_row :: "nat \<Rightarrow> nat list" where
  "lowest_bit_row h = [h, 0, 1, 0, 2, 0, 1, 0, 3, 0, 1, 0, 2, 0, 1, 0]"

definition lowest_bit_bitmap :: "nat list" where
  "lowest_bit_bitmap = concat (map lowest_bit_row [0, 4, 5, 4, 6, 4, 5, 4, 7, 4, 5, 4, 6, 4, 5, 4])"

definition rt_ffs :: "u32 \<Rightarrow> nat" where
  "rt_ffs v =
     (if v = 0 then 0
      else if v AND 0xff \<noteq> 0 then lowest_bit_bitmap ! unat (v AND 0xff) + 1
      else if v AND 0xff00 \<noteq> 0 then lowest_bit_bitmap ! unat (drop_bit 8 (v AND 0xff00)) + 9
      else if v AND 0xff0000 \<noteq> 0 then lowest_bit_bitmap ! unat (drop_bit 16 (v AND 0xff0000)) + 17
      else lowest_bit_bitmap ! unat (drop_bit 24 (v AND 0xff000000)) + 25)"

definition lowest_bit :: "nat \<Rightarrow> nat \<Rightarrow> bool" where
  "lowest_bit n i \<longleftrightarrow> odd (n div 2 ^ i) \<and> n mod 2 ^ i = 0"

lemma length_bitmap [simp]: "length lowest_bit_bitmap = 256"
  by (simp add: lowest_bit_bitmap_def lowest_bit_row_def)

lemma bitmap_table: "list_all2 (\<lambda>n i. n = 0 \<or> lowest_bit n i) [0..<256] lowest_bit_bitmap"
  unfolding lowest_bit_def lowest_bit_bitmap_def lowest_bit_row_def
  by (simp add: upt_rec)

lemma bitmap_lowest: "0 < n \<Longrightarrow> n < 256 \<Longrightarrow> lowest_bit n (lowest_bit_bitmap ! n)"
  using list_all2_nthD [OF bitmap_table, of n] by simp

lemma lowest_bit_bit: "lowest_bit n i \<Longrightarrow> bit n i \<and> (\<forall>j<i. \<not> bit n j)"
proof -
  assume l: "lowest_bit n i"
  then have "take_bit i n = 0" by (simp add: lowest_bit_def take_bit_eq_mod)
  then have "\<not> bit (take_bit i n) j" for j by simp
  then have "\<forall>j<i. \<not> bit n j" by (simp add: bit_take_bit_iff)
  with l show ?thesis by (simp add: lowest_bit_def bit_iff_odd)
qed

text \<open>One step of the search: the byte at bit \<open>s\<close>.\<close>

lemma byte_bits:
  "bit (unat (drop_bit s (v AND push_bit s (mask 8)))) j \<longleftrightarrow> j < 8 \<and> bit (v :: u32) (s + j)"
  by (auto simp: bit_simps dest: bit_imp_le_length)

lemma ffs_byte:
  fixes v :: u32
  assumes nz: "v AND push_bit s (mask 8) \<noteq> 0" and low: "\<And>j. j < s \<Longrightarrow> \<not> bit v j"
    and r: "r = lowest_bit_bitmap ! unat (drop_bit s (v AND push_bit s (mask 8))) + (s + 1)"
  shows "bit v (r - 1) \<and> (\<forall>j. j < r - 1 \<longrightarrow> \<not> bit v j)"
proof -
  define b where "b = unat (drop_bit s (v AND push_bit s (mask 8)))"
  define i where "i = lowest_bit_bitmap ! b"
  have bb: "bit b j \<longleftrightarrow> j < 8 \<and> bit v (s + j)" for j unfolding b_def by (rule byte_bits)
  obtain j where j: "bit v j" "s \<le> j" "j < s + 8"
    using nz by (auto simp: bit_eq_iff bit_simps)
  then have "bit b (j - s)" by (simp add: bb)
  then have "0 < b" by (intro notI gr0I) simp
  moreover have "take_bit 8 b = b"
    by (rule bit_eqI) (auto simp: bit_take_bit_iff bb)
  then have "b < 256" using take_bit_nat_less_exp [of 8 b] by simp
  ultimately have l: "bit b i" "\<forall>j<i. \<not> bit b j"
    using lowest_bit_bit [OF bitmap_lowest [of b]] by (simp_all add: i_def)
  then have i: "bit v (s + i)" "i < 8" by (simp_all add: bb)
  have "\<not> bit v j" if "j < s + i" for j
  proof (cases "j < s")
    case False
    then show ?thesis using l(2) [rule_format, of "j - s"] that i(2) by (simp add: bb)
  qed (rule low)
  moreover have "r - 1 = s + i" using r by (simp add: i_def b_def)
  ultimately show ?thesis using i by simp
qed

lemma mask_bits_clear:
  assumes "v AND push_bit s (mask 8) = 0" "\<And>j. j < s \<Longrightarrow> \<not> bit v j" "j < s + 8"
  shows "\<not> bit (v :: u32) j"
proof
  assume j: "bit v j"
  then have "j < 32" by (auto dest: bit_imp_le_length)
  with j assms show False by (cases "j < s") (auto simp: bit_eq_iff bit_simps)
qed

lemma ffs_masks:
  "(0xff :: u32) = push_bit 0 (mask 8)" "(0xff00 :: u32) = push_bit 8 (mask 8)"
  "(0xff0000 :: u32) = push_bit 16 (mask 8)" "(0xff000000 :: u32) = push_bit 24 (mask 8)"
  by (simp_all add: mask_eq_exp_minus_1 push_bit_eq_mult)

text \<open>\<open>__rt_ffs\<close> returns one more than the index of the lowest set bit.\<close>

lemma rt_ffs_lowest:
  assumes "v \<noteq> 0"
  shows "bit v (rt_ffs v - 1) \<and> (\<forall>j. j < rt_ffs v - 1 \<longrightarrow> \<not> bit v j)"
proof -
  let ?z = "\<lambda>s. v AND push_bit s (mask 8) = 0"
  have c0: "\<not> bit v j" if "?z 0" "j < 8" for j
    by (rule mask_bits_clear [OF that(1)]) (use that in auto)
  have c8: "\<not> bit v j" if "?z 0" "?z 8" "j < 16" for j
    by (rule mask_bits_clear [OF that(2)]) (use that c0 in auto)
  have c16: "\<not> bit v j" if "?z 0" "?z 8" "?z 16" "j < 24" for j
    by (rule mask_bits_clear [OF that(3)]) (use that c8 in auto)
  have c24: "\<not> ?z 24" if "?z 0" "?z 8" "?z 16"
  proof
    assume "?z 24"
    then have "\<not> bit v j" if "j < 32" for j
      by (rule mask_bits_clear) (use that c16 \<open>?z 0\<close> \<open>?z 8\<close> \<open>?z 16\<close> in auto)
    then show False using assms by (auto simp: bit_eq_iff dest: bit_imp_le_length)
  qed
  have e: "rt_ffs v = (if \<not> ?z 0 then lowest_bit_bitmap ! unat (drop_bit 0 (v AND push_bit 0 (mask 8))) + (0 + 1)
    else if \<not> ?z 8 then lowest_bit_bitmap ! unat (drop_bit 8 (v AND push_bit 8 (mask 8))) + (8 + 1)
    else if \<not> ?z 16 then lowest_bit_bitmap ! unat (drop_bit 16 (v AND push_bit 16 (mask 8))) + (16 + 1)
    else lowest_bit_bitmap ! unat (drop_bit 24 (v AND push_bit 24 (mask 8))) + (24 + 1))"
    unfolding rt_ffs_def ffs_masks drop_bit_0 id_apply using assms by (simp del: drop_bit_and)
  consider "\<not> ?z 0" | "?z 0" "\<not> ?z 8" | "?z 0" "?z 8" "\<not> ?z 16" | "?z 0" "?z 8" "?z 16"
    by blast
  then show ?thesis
  proof cases
    case 1
    show ?thesis by (rule ffs_byte [where s = 0, OF 1], simp) (use 1 e in \<open>simp only: not_False_eq_True if_True\<close>)
  next
    case 2
    show ?thesis by (rule ffs_byte [where s = 8, OF 2(2)]) (use 2 e c0 in \<open>simp_all only: simp_thms if_False if_True\<close>)
  next
    case 3
    show ?thesis by (rule ffs_byte [where s = 16, OF 3(3)]) (use 3 e c8 in \<open>simp_all only: simp_thms if_False if_True\<close>)
  next
    case 4
    show ?thesis by (rule ffs_byte [where s = 24, OF c24 [OF 4]]) (use 4 e c16 in \<open>simp_all only: simp_thms if_False if_True\<close>)
  qed
qed


lemma rt_ffs_pos: "v \<noteq> 0 \<Longrightarrow> 0 < rt_ffs v"
  by (simp add: rt_ffs_def)


subsection \<open>The scheduler\<close>

definition get_highest_priority_thread :: "kernel \<Rightarrow> tid \<times> nat" where
  "get_highest_priority_thread k =
     (let highest_ready_priority = rt_ffs (ready_group k) - 1
      in (hd (lists k (Ready highest_ready_priority)), highest_ready_priority))"

definition rt_system_scheduler_init :: "kernel \<Rightarrow> kernel" where
  "rt_system_scheduler_init k =
     k\<lparr>lock_nest := 0,
       lists := (\<lambda>q. case q of Ready p \<Rightarrow> if p < 32 then [] else lists k q | _ \<Rightarrow> lists k q),
       ready_group := 0\<rparr>"

definition rt_schedule_insert_thread :: "tid \<Rightarrow> kernel \<Rightarrow> kernel" where
  "rt_schedule_insert_thread t k =
     (if current k = Some t then upd_thread t (\<lambda>th. th\<lparr>stat := TH_RUNNING\<rparr>) k
      else
        let k = upd_thread t (\<lambda>th. th\<lparr>stat := TH_READY\<rparr>) k;
            q = Ready (current_priority (threads k t));
            k = (if yield (threads k t) then tlist_insert_before q t k else tlist_insert_after q t k)
        in k\<lparr>ready_group := ready_group k OR number_mask (threads k t)\<rparr>)"

definition rt_schedule_remove_thread :: "tid \<Rightarrow> kernel \<Rightarrow> kernel" where
  "rt_schedule_remove_thread t k =
     (let k = tlist_remove t k in
      if rt_list_isempty (Ready (current_priority (threads k t))) k
      then k\<lparr>ready_group := ready_group k AND NOT (number_mask (threads k t))\<rparr>
      else k)"

text \<open>With no ready thread the priority table would be read out of bounds.\<close>

definition rt_system_scheduler_start :: "kernel \<Rightarrow> kernel option" where
  "rt_system_scheduler_start k =
     (if ready_group k = 0 then None
      else
        let to = fst (get_highest_priority_thread k);
            k = k\<lparr>current := Some to\<rparr>;
            k = rt_schedule_remove_thread to k
        in Some (upd_thread to (\<lambda>th. th\<lparr>stat := TH_RUNNING, yield := False\<rparr>) k))"

definition rt_schedule :: "kernel \<Rightarrow> kernel option" where
  "rt_schedule k =
     (if lock_nest k = 0 \<and> ready_group k \<noteq> 0 then
        case current k of
          None \<Rightarrow> None
        | Some cur \<Rightarrow>
            let (hi, hp) = get_highest_priority_thread k;
                running = (stat (threads k cur) = TH_RUNNING);
                stay = (running \<and> (current_priority (threads k cur) < hp \<or>
                  current_priority (threads k cur) = hp \<and> \<not> yield (threads k cur)));
                to = (if stay then cur else hi);
                need_insert = (running \<and> \<not> stay);
                k = (if running then upd_thread cur (\<lambda>th. th\<lparr>yield := False\<rparr>) k else k)
            in Some
              (if to \<noteq> cur then
                 let k = k\<lparr>running_priority := hp, current := Some to\<rparr>;
                     k = (if need_insert then rt_schedule_insert_thread cur k else k);
                     k = rt_schedule_remove_thread to k
                 in upd_thread to (\<lambda>th. th\<lparr>stat := TH_RUNNING\<rparr>) k
               else
                 upd_thread cur (\<lambda>th. th\<lparr>stat := TH_RUNNING\<rparr>) (rt_schedule_remove_thread cur k))
      else Some k)"

definition rt_enter_critical :: "kernel \<Rightarrow> kernel" where
  "rt_enter_critical k = k\<lparr>lock_nest := lock_nest k + 1\<rparr>"

definition rt_exit_critical :: "kernel \<Rightarrow> kernel option" where
  "rt_exit_critical k =
     (let k = k\<lparr>lock_nest := lock_nest k - 1\<rparr> in
      if sint (lock_nest k) \<le> 0 then
        let k = k\<lparr>lock_nest := 0\<rparr> in
        if current k \<noteq> None then rt_schedule k else Some k
      else Some k)"

definition rt_critical_level :: "kernel \<Rightarrow> 16 word" where
  "rt_critical_level k = lock_nest k"

text \<open>The context checks of \<open>rtdebug.h\<close>.\<close>

definition not_in_interrupt :: "kernel \<Rightarrow> unit option" where
  "not_in_interrupt k = rt_assert (interrupt_nest k = 0)"

definition in_thread_context :: "kernel \<Rightarrow> unit option" where
  "in_thread_context k = do { rt_assert (current k \<noteq> None); not_in_interrupt k }"

definition scheduler_available :: "bool \<Rightarrow> kernel \<Rightarrow> unit option" where
  "scheduler_available need_check k =
     (if need_check then do { rt_assert (rt_critical_level k = 0); in_thread_context k } else Some ())"



subsection \<open>The invariant of the ready queues\<close>

text \<open>
  \<open>list_ok\<close>: a thread on a list has the state the list stands for.  \<open>thread_ok\<close>: a thread has a valid
  priority and, once started, its mask; a ready thread is queued at its priority; only the current thread
  runs, and it is on no ready queue.
\<close>

fun list_ok :: "qid \<Rightarrow> rt_thread \<Rightarrow> bool" where
  "list_ok (Ready p) th \<longleftrightarrow> stat th = TH_READY \<and> current_priority th = p"
| "list_ok (Wait _) th \<longleftrightarrow> suspended th"
| "list_ok (WaitSend _) th \<longleftrightarrow> suspended th"
| "list_ok Defunct th \<longleftrightarrow> stat th = TH_CLOSE"

definition started :: "rt_thread \<Rightarrow> bool" where
  "started th \<longleftrightarrow> stat th \<noteq> TH_INIT \<and> stat th \<noteq> TH_CLOSE"

definition thread_ok :: "kernel \<Rightarrow> tid \<Rightarrow> bool" where
  "thread_ok k t \<longleftrightarrow>
     current_priority (threads k t) < 32 \<and>
     (started (threads k t) \<longrightarrow> number_mask (threads k t) = push_bit (current_priority (threads k t)) 1) \<and>
     (stat (threads k t) = TH_READY \<longrightarrow>
        t \<in> set (lists k (Ready (current_priority (threads k t)))) \<and> current k \<noteq> Some t) \<and>
     (stat (threads k t) = TH_RUNNING \<longrightarrow> current k = Some t) \<and>
     (current k = Some t \<longrightarrow> stat (threads k t) \<noteq> TH_INIT)"

text \<open>
  The invariant except for the threads in \<open>S\<close>, which an operation is just moving; the invariant itself
  leaves no thread out.
\<close>

definition sched_but :: "tid set \<Rightarrow> kernel \<Rightarrow> bool" where
  "sched_but S k \<longleftrightarrow>
     (\<forall>p. bit (ready_group k) p \<longleftrightarrow> lists k (Ready p) \<noteq> []) \<and>
     (\<forall>q. distinct (lists k q)) \<and>
     (\<forall>q t. t \<in> set (lists k q) \<longrightarrow> list_ok q (threads k t)) \<and>
     (\<forall>q q' t. t \<in> set (lists k q) \<longrightarrow> t \<in> set (lists k q') \<longrightarrow> q = q') \<and>
     (\<forall>t. t \<notin> S \<longrightarrow> thread_ok k t)"

abbreviation sched_inv :: "kernel \<Rightarrow> bool" where
  "sched_inv k \<equiv> sched_but {} k"

definition unlisted :: "kernel \<Rightarrow> tid \<Rightarrow> bool" where
  "unlisted k t \<longleftrightarrow> (\<forall>q. t \<notin> set (lists k q))"

named_theorems kstate \<open>unfolding of the primitive updates of the kernel state\<close>

lemmas [kstate] = upd_thread_def upd_timer_def tlist_remove_def tlist_insert_after_def
  tlist_insert_before_def rt_list_isempty_def

lemma removeAll_notin [simp]: "t \<notin> set xs \<Longrightarrow> removeAll t xs = xs"
  by (induction xs) auto

lemma sched_butD:
  assumes "sched_but S k"
  shows "bit (ready_group k) p \<longleftrightarrow> lists k (Ready p) \<noteq> []" "distinct (lists k q)"
    "t \<in> set (lists k q) \<Longrightarrow> list_ok q (threads k t)"
    "t \<in> set (lists k q) \<Longrightarrow> t \<in> set (lists k q') \<Longrightarrow> q = q'"
    "t \<notin> S \<Longrightarrow> thread_ok k t"
  using assms unfolding sched_but_def by blast+

lemma sched_butI:
  assumes "\<And>p. bit (ready_group k) p \<longleftrightarrow> lists k (Ready p) \<noteq> []" "\<And>q. distinct (lists k q)"
    "\<And>q t. t \<in> set (lists k q) \<Longrightarrow> list_ok q (threads k t)"
    "\<And>q q' t. t \<in> set (lists k q) \<Longrightarrow> t \<in> set (lists k q') \<Longrightarrow> q = q'"
    "\<And>t. t \<notin> S \<Longrightarrow> thread_ok k t"
  shows "sched_but S k"
  using assms unfolding sched_but_def by blast

lemma sched_but_mono: "sched_but S k \<Longrightarrow> S \<subseteq> T \<Longrightarrow> sched_but T k"
  by (auto simp: sched_but_def)

lemma sched_but_drop: "sched_but (insert t S) k \<Longrightarrow> thread_ok k t \<Longrightarrow> sched_but S k"
  by (auto simp: sched_but_def)

lemma bit_mask1: "bit (push_bit p 1 :: u32) n \<longleftrightarrow> n = p \<and> p < 32"
  by (auto simp: bit_simps)

lemma running_not_listed:
  "sched_but S k \<Longrightarrow> stat (threads k t) = TH_RUNNING \<Longrightarrow> unlisted k t"
  unfolding unlisted_def
proof
  fix q assume "sched_but S k" "stat (threads k t) = TH_RUNNING"
  then show "t \<notin> set (lists k q)" using sched_butD(3) [of S k t q] by (cases q) auto
qed

lemma not_ready_listed:
  "sched_but S k \<Longrightarrow> stat (threads k t) \<noteq> TH_READY \<Longrightarrow> t \<notin> set (lists k (Ready p))"
  using sched_butD(3) [of S k t "Ready p"] by auto

text \<open>The highest-priority ready thread.\<close>

lemma highest_ready:
  assumes i: "sched_inv k" and g: "ready_group k \<noteq> 0" and h: "get_highest_priority_thread k = (t, p)"
  shows "t \<in> set (lists k (Ready p))" "p < 32" "\<And>q. q < p \<Longrightarrow> lists k (Ready q) = []"
    "lists k (Ready p) = t # tl (lists k (Ready p))"
proof -
  have p: "p = rt_ffs (ready_group k) - 1" "t = hd (lists k (Ready p))"
    using h by (auto simp: get_highest_priority_thread_def Let_def)
  note f = rt_ffs_lowest [OF g]
  then have ne: "lists k (Ready p) \<noteq> []" using sched_butD(1) [OF i, of p] p(1) by simp
  then show "t \<in> set (lists k (Ready p))" using p(2) by simp
  show "lists k (Ready p) = t # tl (lists k (Ready p))" using ne p(2) by simp
  show "p < 32" using f p(1) by (auto dest!: bit_imp_le_length)
  show "lists k (Ready q) = []" if "q < p" for q
    using f that p(1) sched_butD(1) [OF i, of q] by auto
qed



subsection \<open>What the updates do to the invariant\<close>

text \<open>The invariant looks only at the threads, their lists, the bitmap and the current thread.\<close>

lemma sched_but_cong:
  assumes "ready_group k' = ready_group k" "lists k' = lists k" "current k' = current k"
    "\<And>t. stat (threads k' t) = stat (threads k t) \<and> current_priority (threads k' t) = current_priority (threads k t) \<and>
      number_mask (threads k' t) = number_mask (threads k t)"
  shows "sched_but S k' = sched_but S k"
proof -
  have "list_ok q (threads k' t) = list_ok q (threads k t)" for q t
    using assms(4) [of t] by (cases q) simp_all
  moreover have "thread_ok k' t = thread_ok k t" for t
    using assms by (simp add: thread_ok_def started_def)
  ultimately show ?thesis by (simp add: sched_but_def assms)
qed

lemma sched_frame [simp]:
  "sched_but S (k\<lparr>lock_nest := a\<rparr>) = sched_but S k"
  "sched_but S (k\<lparr>running_priority := b\<rparr>) = sched_but S k"
  "sched_but S (k\<lparr>interrupt_nest := c\<rparr>) = sched_but S k"
  "sched_but S (k\<lparr>tick := d\<rparr>) = sched_but S k"
  "sched_but S (k\<lparr>timers := e\<rparr>) = sched_but S k"
  "sched_but S (k\<lparr>timer_list := f\<rparr>) = sched_but S k"
  "sched_but S (k\<lparr>soft_timer_list := f\<rparr>) = sched_but S k"
  "sched_but S (k\<lparr>firing := f\<rparr>) = sched_but S k"
  "sched_but S (k\<lparr>soft_firing := f\<rparr>) = sched_but S k"
  "sched_but S (k\<lparr>soft_timer_busy := g\<rparr>) = sched_but S k"
  "sched_but S (k\<lparr>taken := h\<rparr>) = sched_but S k"
  "sched_but S (k\<lparr>sems := i\<rparr>) = sched_but S k"
  "sched_but S (k\<lparr>mutexes := j\<rparr>) = sched_but S k"
  "sched_but S (k\<lparr>events := l\<rparr>) = sched_but S k"
  "sched_but S (k\<lparr>mailboxes := m\<rparr>) = sched_but S k"
  "sched_but S (k\<lparr>mqs := n\<rparr>) = sched_but S k"
  "sched_but S (k\<lparr>objects := oo\<rparr>) = sched_but S k"
  "sched_but S (k\<lparr>containers := pp\<rparr>) = sched_but S k"
  by (rule sched_but_cong; simp)+

lemma sched_upd_same:
  assumes "\<And>th. stat (f th) = stat th \<and> current_priority (f th) = current_priority th \<and> number_mask (f th) = number_mask th"
  shows "sched_but S (upd_thread t f k) = sched_but S k"
  by (rule sched_but_cong) (use assms in \<open>simp_all add: upd_thread_def\<close>)

lemma sched_upd_fields [simp]:
  "sched_but S (upd_thread t (\<lambda>th. th\<lparr>yield := a\<rparr>) k) = sched_but S k"
  "sched_but S (upd_thread t (\<lambda>th. th\<lparr>error := b\<rparr>) k) = sched_but S k"
  "sched_but S (upd_thread t (\<lambda>th. th\<lparr>pending_object := c\<rparr>) k) = sched_but S k"
  "sched_but S (upd_thread t (\<lambda>th. th\<lparr>remaining_tick := d\<rparr>) k) = sched_but S k"
  by (rule sched_upd_same; simp)+

lemma upd_thread_simps [simp]:
  "ready_group (upd_thread t f k) = ready_group k" "lists (upd_thread t f k) = lists k"
  "current (upd_thread t f k) = current k" "lock_nest (upd_thread t f k) = lock_nest k"
  "threads (upd_thread t f k) = (threads k)(t := f (threads k t))"
  "unlisted (upd_thread t f k) = unlisted k"
  by (simp_all add: upd_thread_def unlisted_def fun_eq_iff)

lemma thread_ok_other:
  "u \<noteq> t \<Longrightarrow> thread_ok (upd_thread t f k) u = thread_ok k u"
  by (simp add: thread_ok_def)

lemma list_ok_unlisted:
  assumes "sched_but S k" "unlisted k t" "u \<in> set (lists k q)"
  shows "u \<noteq> t" "list_ok q (threads k u)"
  using assms sched_butD(3) by (auto simp: unlisted_def)

lemma sched_upd_unlisted:
  assumes "sched_but S k" "unlisted k t"
  shows "sched_but (insert t S) (upd_thread t f k)"
proof (rule sched_butI)
  fix q u assume "u \<in> set (lists (upd_thread t f k) q)"
  then show "list_ok q (threads (upd_thread t f k) u)"
    using list_ok_unlisted [OF assms] by simp
qed (use sched_butD [OF assms(1)] in \<open>auto simp: thread_ok_other\<close>)

lemma sched_current:
  assumes "sched_but S k"
  shows "sched_but (S \<union> set_option (current k) \<union> set_option c) (k\<lparr>current := c\<rparr>)"
proof (rule sched_butI)
  fix t assume "t \<notin> S \<union> set_option (current k) \<union> set_option c"
  then show "thread_ok (k\<lparr>current := c\<rparr>) t"
    using sched_butD(5) [OF assms, of t] by (auto simp: thread_ok_def)
qed (use sched_butD [OF assms] in auto)

definition mask_ok :: "rt_thread \<Rightarrow> bool" where
  "mask_ok th \<longleftrightarrow> current_priority th < 32 \<and> number_mask th = push_bit (current_priority th) 1"

lemma thread_ok_mask: "thread_ok k t \<Longrightarrow> started (threads k t) \<Longrightarrow> mask_ok (threads k t)"
  by (simp add: thread_ok_def mask_ok_def)

lemma sched_remove:
  assumes b: "sched_but S k" and m: "mask_ok (threads k t)"
  shows "sched_but (insert t S) (rt_schedule_remove_thread t k)" "unlisted (rt_schedule_remove_thread t k) t"
proof -
  let ?k = "rt_schedule_remove_thread t k"
  have k: "lists ?k = (\<lambda>q. removeAll t (lists k q))" "threads ?k = threads k" "current ?k = current k"
    by (auto simp: rt_schedule_remove_thread_def Let_def kstate)
  then show "unlisted ?k t" by (simp add: unlisted_def)
  have g: "bit (ready_group ?k) p \<longleftrightarrow> bit (ready_group k) p \<and>
      (p = current_priority (threads k t) \<longrightarrow> removeAll t (lists k (Ready p)) \<noteq> [])" for p
    using m sched_butD(1) [OF b, of p]
    by (auto simp: rt_schedule_remove_thread_def Let_def kstate mask_ok_def bit_simps dest: bit_imp_le_length)
  show "sched_but (insert t S) ?k"
  proof (rule sched_butI)
    fix p
    have "t \<in> set (lists k (Ready p)) \<Longrightarrow> p = current_priority (threads k t)"
      using sched_butD(3) [OF b, of t "Ready p"] by simp
    then show "bit (ready_group ?k) p \<longleftrightarrow> lists ?k (Ready p) \<noteq> []"
      unfolding g using sched_butD(1) [OF b, of p] by (cases "t \<in> set (lists k (Ready p))") (auto simp: k)
  next
    fix u assume "u \<notin> insert t S"
    then show "thread_ok ?k u" using sched_butD(5) [OF b, of u] by (auto simp: thread_ok_def k)
  qed (use sched_butD [OF b] in \<open>auto simp: k distinct_removeAll\<close>)
qed

lemma sched_insert:
  assumes b: "sched_but S k" and u: "unlisted k t" and m: "mask_ok (threads k t)"
  shows "sched_but (S - {t}) (rt_schedule_insert_thread t k)"
proof (cases "current k = Some t")
  case True
  let ?k = "upd_thread t (\<lambda>th. th\<lparr>stat := TH_RUNNING\<rparr>) k"
  have "sched_but (insert t (S - {t})) ?k"
    using sched_upd_unlisted [OF b u] by (rule sched_but_mono) auto
  moreover have "thread_ok ?k t" using True m by (simp add: thread_ok_def mask_ok_def)
  ultimately have "sched_but (S - {t}) ?k" by (rule sched_but_drop)
  then show ?thesis using True by (simp add: rt_schedule_insert_thread_def)
next
  case False
  let ?k = "rt_schedule_insert_thread t k"
  define p where "p = current_priority (threads k t)"
  have th: "threads ?k = (threads k)(t := (threads k t)\<lparr>stat := TH_READY\<rparr>)" "current ?k = current k"
    "ready_group ?k = ready_group k OR push_bit p 1"
    and li: "\<And>q. q \<noteq> Ready p \<Longrightarrow> lists ?k q = lists k q" "set (lists ?k (Ready p)) = insert t (set (lists k (Ready p)))"
      "distinct (lists ?k (Ready p)) = distinct (lists k (Ready p))" "lists ?k (Ready p) \<noteq> []"
    using False m u by (auto simp: rt_schedule_insert_thread_def Let_def kstate mask_ok_def p_def unlisted_def)
  have ls: "set (lists ?k q) = (if q = Ready p then insert t (set (lists k q)) else set (lists k q))" for q
    using li by simp
  show ?thesis
  proof (rule sched_butI)
    fix r show "bit (ready_group ?k) r \<longleftrightarrow> lists ?k (Ready r) \<noteq> []"
      using sched_butD(1) [OF b, of r] li m by (cases "r = p") (auto simp: th bit_simps mask_ok_def p_def)
  next
    fix q show "distinct (lists ?k q)"
      using sched_butD(2) [OF b, of q] li by (cases "q = Ready p") auto
  next
    fix q v assume v: "v \<in> set (lists ?k q)"
    then show "list_ok q (threads ?k v)"
      using sched_butD(3) [OF b, of v q] u by (cases "v = t") (auto simp: th ls unlisted_def p_def split: if_splits)
  next
    fix q q' v assume "v \<in> set (lists ?k q)" "v \<in> set (lists ?k q')"
    then show "q = q'"
      using sched_butD(4) [OF b, of v q q'] u by (auto simp: ls unlisted_def split: if_splits)
  next
    fix v assume v: "v \<notin> S - {t}"
    show "thread_ok ?k v"
    proof (cases "v = t")
      case True
      then show ?thesis using m False by (simp add: thread_ok_def th mask_ok_def ls p_def)
    next
      case ne: False
      then show ?thesis using sched_butD(5) [OF b, of v] v by (auto simp: thread_ok_def th ls)
    qed
  qed
qed


lemma sched_insert_thread_simps [simp]:
  "current (rt_schedule_insert_thread t k) = current k"
  "lock_nest (rt_schedule_insert_thread t k) = lock_nest k"
  by (simp_all add: rt_schedule_insert_thread_def Let_def kstate)

lemma sched_remove_thread_simps [simp]:
  "current (rt_schedule_remove_thread t k) = current k"
  "lock_nest (rt_schedule_remove_thread t k) = lock_nest k"
  "threads (rt_schedule_remove_thread t k) = threads k"
  "lists (rt_schedule_remove_thread t k) q = removeAll t (lists k q)"
  by (simp_all add: rt_schedule_remove_thread_def Let_def kstate)

lemma threads_insert_thread:
  "threads (rt_schedule_insert_thread t k) =
     (threads k)(t := (threads k t)\<lparr>stat := (if current k = Some t then TH_RUNNING else TH_READY)\<rparr>)"
  by (simp add: rt_schedule_insert_thread_def Let_def kstate)

text \<open>Making a detached thread the running one.\<close>

lemma sched_run:
  assumes "sched_but (insert t S) k" "unlisted k t" "mask_ok (threads k t)" "current k = Some t"
  shows "sched_but S (upd_thread t (\<lambda>th. th\<lparr>stat := TH_RUNNING\<rparr>) k)"
proof (rule sched_but_drop)
  show "sched_but (insert t S) (upd_thread t (\<lambda>th. th\<lparr>stat := TH_RUNNING\<rparr>) k)"
    using sched_upd_unlisted [OF assms(1,2)] by simp
  show "thread_ok (upd_thread t (\<lambda>th. th\<lparr>stat := TH_RUNNING\<rparr>) k) t"
    using assms by (simp add: thread_ok_def mask_ok_def)
qed

text \<open>The scheduler changes nothing but threads, lists, bitmap and current thread.\<close>

definition only_sched :: "kernel \<Rightarrow> kernel \<Rightarrow> bool" where
  "only_sched k k' \<longleftrightarrow> k' = k\<lparr>threads := threads k', lists := lists k', ready_group := ready_group k',
     current := current k', running_priority := running_priority k'\<rparr>"

lemma only_schedD:
  assumes "only_sched k k'"
  shows "objects k' = objects k"
    "containers k' = containers k"
    "lock_nest k' = lock_nest k"
    "interrupt_nest k' = interrupt_nest k"
    "tick k' = tick k"
    "timers k' = timers k"
    "timer_list k' = timer_list k"
    "soft_timer_list k' = soft_timer_list k"
    "firing k' = firing k"
    "soft_firing k' = soft_firing k"
    "soft_timer_busy k' = soft_timer_busy k"
    "timer_thread k' = timer_thread k"
    "taken k' = taken k"
    "sems k' = sems k"
    "mutexes k' = mutexes k"
    "events k' = events k"
    "mailboxes k' = mailboxes k"
    "mqs k' = mqs k"
  using assms by (cases k; cases k'; simp add: only_sched_def)+

lemma only_sched_trans: "only_sched k k' \<Longrightarrow> only_sched k' k'' \<Longrightarrow> only_sched k k''"
  by (cases k; cases k'; cases k''; simp add: only_sched_def)

lemma only_sched_intros [intro, simp]:
  "only_sched k k" "only_sched k (upd_thread t f k)" "only_sched k (tlist_remove t k)"
  "only_sched k (tlist_insert_after q t k)" "only_sched k (tlist_insert_before q t k)"
  "only_sched k (rt_schedule_insert_thread t k)" "only_sched k (rt_schedule_remove_thread t k)"
  "only_sched k (k\<lparr>running_priority := p, current := c\<rparr>)"
  by (simp_all add: only_sched_def rt_schedule_insert_thread_def rt_schedule_remove_thread_def Let_def kstate)

lemma only_sched_steps:
  assumes "only_sched k k1"
  shows "only_sched k (upd_thread t f k1)" "only_sched k (tlist_remove t k1)"
    "only_sched k (tlist_insert_after q t k1)" "only_sched k (tlist_insert_before q t k1)"
    "only_sched k (rt_schedule_insert_thread t k1)" "only_sched k (rt_schedule_remove_thread t k1)"
    "only_sched k (k1\<lparr>running_priority := p, current := c\<rparr>)"
  by (rule only_sched_trans [OF assms]; simp)+

lemma only_sched_schedule: "rt_schedule k = Some k' \<Longrightarrow> only_sched k k'"
  unfolding rt_schedule_def Let_def
  by (auto split: if_splits option.splits prod.splits intro!: only_sched_steps)

text \<open>The three outcomes of \<open>rt_schedule\<close>: nothing to do, the current thread stays, or a switch.\<close>

definition stays :: "kernel \<Rightarrow> tid \<Rightarrow> bool" where
  "stays k cur \<longleftrightarrow> stat (threads k cur) = TH_RUNNING \<and>
     (current_priority (threads k cur) < snd (get_highest_priority_thread k) \<or>
      current_priority (threads k cur) = snd (get_highest_priority_thread k) \<and> \<not> yield (threads k cur))"

definition switch_to :: "tid \<Rightarrow> tid \<Rightarrow> nat \<Rightarrow> kernel \<Rightarrow> kernel" where
  "switch_to cur to hp k =
     (let k1 = (if stat (threads k cur) = TH_RUNNING then upd_thread cur (\<lambda>th. th\<lparr>yield := False\<rparr>) k else k);
          k2 = k1\<lparr>running_priority := hp, current := Some to\<rparr>;
          k3 = (if stat (threads k cur) = TH_RUNNING then rt_schedule_insert_thread cur k2 else k2);
          k4 = rt_schedule_remove_thread to k3
      in upd_thread to (\<lambda>th. th\<lparr>stat := TH_RUNNING\<rparr>) k4)"

lemma rt_schedule_cases:
  assumes i: "sched_inv k" and r: "rt_schedule k = Some k'"
  obtains (idle) "lock_nest k \<noteq> 0 \<or> ready_group k = 0" "k' = k"
  | (stay) cur where "lock_nest k = 0" "ready_group k \<noteq> 0" "current k = Some cur" "stays k cur"
      "k' = upd_thread cur (\<lambda>th. th\<lparr>stat := TH_RUNNING\<rparr>)
         (rt_schedule_remove_thread cur (upd_thread cur (\<lambda>th. th\<lparr>yield := False\<rparr>) k))"
  | (switch) cur to hp where "lock_nest k = 0" "ready_group k \<noteq> 0" "current k = Some cur" "\<not> stays k cur"
      "get_highest_priority_thread k = (to, hp)" "to \<noteq> cur" "k' = switch_to cur to hp k"
proof (cases "lock_nest k = 0 \<and> ready_group k \<noteq> 0")
  case False
  then show ?thesis using r idle by (auto simp: rt_schedule_def split: if_splits)
next
  case go: True
  then obtain cur where c: "current k = Some cur" using r by (auto simp: rt_schedule_def split: option.splits)
  obtain to hp where h: "get_highest_priority_thread k = (to, hp)" by fastforce
  have ne: "to \<noteq> cur"
    using highest_ready(1) [OF i _ h] sched_butD(3) [OF i, of to "Ready hp"] sched_butD(5) [OF i, of to] go c
    by (auto simp: thread_ok_def)
  show ?thesis
  proof (cases "stays k cur")
    case True
    then show ?thesis using r go c h
      by (intro stay [OF _ _ c True]) (auto simp: rt_schedule_def Let_def stays_def)
  next
    case False
    then have "k' = switch_to cur to hp k"
      using r go c h ne by (auto simp: rt_schedule_def Let_def stays_def switch_to_def)
    then show ?thesis using go c h ne False by (intro switch [OF _ _ c False h ne]) auto
  qed
qed

lemma sched_switch_to:
  assumes i: "sched_inv k" and g: "ready_group k \<noteq> 0" and c: "current k = Some cur"
    and h: "get_highest_priority_thread k = (to, hp)" and ne: "to \<noteq> cur"
  shows "sched_inv (switch_to cur to hp k)"
proof -
  define k1 where "k1 = (if stat (threads k cur) = TH_RUNNING then upd_thread cur (\<lambda>th. th\<lparr>yield := False\<rparr>) k else k)"
  define k2 where "k2 = k1\<lparr>running_priority := hp, current := Some to\<rparr>"
  define k3 where "k3 = (if stat (threads k cur) = TH_RUNNING then rt_schedule_insert_thread cur k2 else k2)"
  have k1: "sched_inv k1" "current k1 = Some cur" "lists k1 = lists k" "\<And>t. stat (threads k1 t) = stat (threads k t)"
    "\<And>t. mask_ok (threads k1 t) = mask_ok (threads k t)"
    using i c by (simp_all add: k1_def mask_ok_def)
  have to: "to \<in> set (lists k (Ready hp))" "stat (threads k to) = TH_READY"
    using highest_ready(1) [OF i g h] sched_butD(3) [OF i, of to "Ready hp"] by auto
  have mt: "mask_ok (threads k to)" using sched_butD(5) [OF i, of to] to by (intro thread_ok_mask) (auto simp: started_def)
  have "sched_but (insert cur {to}) (k1\<lparr>current := Some to\<rparr>)"
    using sched_current [OF k1(1), of "Some to"] k1(2) by (simp add: insert_commute)
  then have b2: "sched_but (insert cur {to}) k2"
    by (subst sched_but_cong [of k2 "k1\<lparr>current := Some to\<rparr>"]) (simp_all add: k2_def)
  have b3: "sched_but {to} k3 \<and> mask_ok (threads k3 to) \<and> current k3 = Some to"
  proof (cases "stat (threads k cur) = TH_RUNNING")
    case True
    have "unlisted k2 cur" using running_not_listed [OF i True] by (simp add: unlisted_def k2_def k1(3))
    moreover have "mask_ok (threads k2 cur)"
      using sched_butD(5) [OF i, of cur] True by (auto simp: k2_def k1 started_def intro: thread_ok_mask)
    ultimately have "sched_but ({cur, to} - {cur}) (rt_schedule_insert_thread cur k2)"
      by (rule sched_insert [OF b2])
    then have "sched_but ({cur, to} - {cur}) k3" using True by (simp only: k3_def simp_thms if_True)
    moreover have "threads k3 to = threads k1 to" "current k3 = Some to"
      using ne True by (simp_all add: k3_def threads_insert_thread k2_def)
    ultimately show ?thesis using ne mt k1(5) [of to] by (auto elim: sched_but_mono)
  next
    case False
    have "thread_ok k2 cur"
      using sched_butD(5) [OF i, of cur] False c ne by (auto simp: thread_ok_def k2_def k1_def)
    then have "sched_but {to} k2" by (rule sched_but_drop [OF b2])
    then show ?thesis using False mt k1(5) [of to] by (simp add: k3_def k2_def)
  qed
  let ?k4 = "rt_schedule_remove_thread to k3"
  have "sched_but {to} ?k4" "unlisted ?k4 to"
    using sched_remove [of "{to}" k3 to] b3 by simp_all
  then have "sched_inv (upd_thread to (\<lambda>th. th\<lparr>stat := TH_RUNNING\<rparr>) ?k4)"
    using b3 by (intro sched_run) simp_all
  then show ?thesis unfolding switch_to_def Let_def k3_def k2_def k1_def .
qed

lemma sched_schedule:
  assumes i: "sched_inv k" and r: "rt_schedule k = Some k'"
  shows "sched_inv k'"
  using i r
proof (cases rule: rt_schedule_cases)
  case (stay cur)
  let ?k = "upd_thread cur (\<lambda>th. th\<lparr>yield := False\<rparr>) k"
  have "started (threads k cur)" using stay(4) by (simp add: stays_def started_def)
  then have "mask_ok (threads k cur)" using sched_butD(5) [OF i, of cur] by (intro thread_ok_mask) auto
  then have m: "mask_ok (threads ?k cur)" by (simp add: mask_ok_def)
  then show "sched_inv k'"
    unfolding stay(5) using sched_remove [of "{}" ?k cur, OF _ m] i stay(3) by (intro sched_run) simp_all
qed (use i in \<open>auto intro: sched_switch_to\<close>)


lemma rt_schedule_total: "current k \<noteq> None \<Longrightarrow> \<exists>k'. rt_schedule k = Some k'"
  by (auto simp: rt_schedule_def Let_def split: prod.splits)

lemma rt_schedule_locked: "lock_nest k \<noteq> 0 \<Longrightarrow> rt_schedule k = Some k"
  by (simp add: rt_schedule_def)

lemma rt_schedule_lock_nest: "rt_schedule k = Some k' \<Longrightarrow> lock_nest k' = lock_nest k"
  by (auto simp: rt_schedule_def Let_def split: if_splits option.splits prod.splits)

lemma sched_enter: "sched_inv (rt_enter_critical k) = sched_inv k"
  by (simp add: rt_enter_critical_def)

lemma sched_exit: "sched_inv k \<Longrightarrow> rt_exit_critical k = Some k' \<Longrightarrow> sched_inv k'"
  by (auto simp: rt_exit_critical_def Let_def split: if_splits intro: sched_schedule [rotated])

lemma ready_prio_ge:
  assumes i: "sched_inv k" and g: "ready_group k \<noteq> 0" and h: "get_highest_priority_thread k = (to, hp)"
    and u: "u \<in> set (lists k (Ready p))"
  shows "hp \<le> p"
  using highest_ready(3) [OF i g h, of p] u by (cases "p < hp") auto

lemma switch_to_lists:
  assumes "u \<in> set (lists (switch_to cur to hp k) (Ready p))" "to \<noteq> cur"
  shows "u \<in> set (lists k (Ready p)) \<or>
    u = cur \<and> p = current_priority (threads k cur) \<and> stat (threads k cur) = TH_RUNNING"
  using assms
  by (auto simp: switch_to_def Let_def rt_schedule_insert_thread_def kstate split: if_splits)

lemma switch_to_run:
  "to \<noteq> cur \<Longrightarrow> current (switch_to cur to hp k) = Some to \<and> stat (threads (switch_to cur to hp k) to) = TH_RUNNING \<and>
     current_priority (threads (switch_to cur to hp k) to) = current_priority (threads k to)"
  by (simp add: switch_to_def Let_def threads_insert_thread)


lemma sched_start:
  assumes i: "sched_inv k" and r: "rt_system_scheduler_start k = Some k'" and c: "current k = None"
  shows "sched_inv k'"
proof -
  obtain to hp where h: "get_highest_priority_thread k = (to, hp)" by fastforce
  have g: "ready_group k \<noteq> 0" using r by (auto simp: rt_system_scheduler_start_def split: if_splits)
  have rd: "stat (threads k to) = TH_READY"
    using highest_ready(1) [OF i g h] sched_butD(3) [OF i, of to "Ready hp"] by auto
  then have m: "mask_ok (threads k to)"
    using sched_butD(5) [OF i, of to] by (intro thread_ok_mask) (auto simp: started_def)
  let ?k = "k\<lparr>current := Some to\<rparr>"
  have "sched_but {to} ?k" using sched_current [OF i, of "Some to"] c by simp
  from sched_remove [OF this, of to] m
  have b: "sched_but {to} (rt_schedule_remove_thread to ?k)" "unlisted (rt_schedule_remove_thread to ?k) to"
    by simp_all
  let ?r = "upd_thread to (\<lambda>th. th\<lparr>stat := TH_RUNNING\<rparr>) (rt_schedule_remove_thread to ?k)"
  have "sched_inv ?r" by (rule sched_run) (use b m in simp_all)
  moreover have "k' = upd_thread to (\<lambda>th. th\<lparr>yield := False\<rparr>) ?r"
    using r g h by (simp add: rt_system_scheduler_start_def Let_def upd_thread_def)
  ultimately show ?thesis by simp
qed

lemma sched_kernel0: "sched_inv kernel0"
  by (rule sched_butI) (simp_all add: kernel0_def thread0_def thread_ok_def started_def)

text \<open>A small running system: thread 1 at priority 5 runs, threads 2 and 3 are ready at 5 and 7.\<close>

definition prio_thread :: "nat \<Rightarrow> rt_thread" where
  "prio_thread p = thread0\<lparr>init_priority := p, current_priority := p, number_mask := push_bit p 1,
     slice_tick := 10, remaining_tick := 10\<rparr>"

definition add_ready :: "tid \<Rightarrow> nat \<Rightarrow> kernel \<Rightarrow> kernel" where
  "add_ready t p k = rt_schedule_insert_thread t (upd_thread t (\<lambda>_. prio_thread p) k)"

definition demo_kernel :: kernel where
  "demo_kernel = the (rt_system_scheduler_start (add_ready 1 5 (add_ready 2 5 (add_ready 3 7 kernel0))))"

lemma sched_add_ready:
  assumes "sched_inv k" "p < 32" "unlisted k t"
  shows "sched_inv (add_ready t p k)"
proof -
  have "sched_but {t} (upd_thread t (\<lambda>_. prio_thread p) k)" using sched_upd_unlisted [OF assms(1,3)] by simp
  then have "sched_but ({t} - {t}) (add_ready t p k)"
    unfolding add_ready_def by (rule sched_insert) (use assms in \<open>simp_all add: mask_ok_def prio_thread_def\<close>)
  then show ?thesis by simp
qed

lemmas demo_eval = demo_kernel_def add_ready_def prio_thread_def kernel0_def thread0_def
  rt_schedule_insert_thread_def rt_schedule_remove_thread_def rt_system_scheduler_start_def
  get_highest_priority_thread_def kstate Let_def

lemma demo_ffs: "rt_ffs 160 = 6" "rt_ffs 128 = 8" "rt_ffs 32 = 6"
  by (simp_all add: rt_ffs_def lowest_bit_bitmap_def lowest_bit_row_def)

lemma demo_kernel:
  "sched_inv demo_kernel" "current demo_kernel = Some 1" "lock_nest demo_kernel = 0"
  "ready_group demo_kernel = 160" "stat (threads demo_kernel 1) = TH_RUNNING"
  "lists demo_kernel (Ready 5) = [2]" "lists demo_kernel (Ready 7) = [3]"
proof -
  let ?k = "add_ready 1 5 (add_ready 2 5 (add_ready 3 7 kernel0))"
  have i: "sched_inv ?k"
    by (intro sched_add_ready sched_kernel0)
      (simp_all add: unlisted_def add_ready_def rt_schedule_insert_thread_def kernel0_def kstate prio_thread_def thread0_def Let_def)
  have "\<exists>k'. rt_system_scheduler_start ?k = Some k'"
    by (simp add: demo_eval)
  then have s: "rt_system_scheduler_start ?k = Some demo_kernel"
    by (auto simp: demo_kernel_def)
  have c: "current ?k = None" by (simp add: demo_eval)
  show "sched_inv demo_kernel" by (rule sched_start [OF i s c])
  show "current demo_kernel = Some 1" "lock_nest demo_kernel = 0"
    "ready_group demo_kernel = 160" "stat (threads demo_kernel 1) = TH_RUNNING"
    "lists demo_kernel (Ready 5) = [2]" "lists demo_kernel (Ready 7) = [3]"
    by (simp_all add: demo_eval demo_ffs)
qed


subsection \<open>Properties\<close>

text \<open>
  C2: \<open>rt_schedule\<close> with the scheduler unlocked leaves the processor to a thread of the highest
  priority: from a consistent state in which some thread can run it returns, the new current thread
  is the one that is RUNNING, and no READY thread has a higher priority (a smaller number) than it.
\<close>
theorem rt_schedule_runs_highest:
  assumes i: "sched_inv k" and l: "lock_nest k = 0" and c: "current k = Some cur"
    and some: "ready_group k \<noteq> 0 \<or> stat (threads k cur) = TH_RUNNING"
  shows "\<exists>k' t. rt_schedule k = Some k' \<and> sched_inv k' \<and> current k' = Some t \<and>
    stat (threads k' t) = TH_RUNNING \<and>
    (\<forall>u. stat (threads k' u) = TH_READY \<longrightarrow>
       current_priority (threads k' t) \<le> current_priority (threads k' u))"
proof -
  obtain k' where r: "rt_schedule k = Some k'" using rt_schedule_total [of k] c by auto
  have i': "sched_inv k'" by (rule sched_schedule [OF i r])
  have ready: "u \<in> set (lists k' (Ready (current_priority (threads k' u))))" if "stat (threads k' u) = TH_READY" for u
    using sched_butD(5) [OF i', of u] that by (simp add: thread_ok_def)
  show ?thesis using i r
  proof (cases rule: rt_schedule_cases)
    case idle
    then have "\<And>u. stat (threads k' u) \<noteq> TH_READY"
      using ready sched_butD(1) [OF i'] l by fastforce
    then show ?thesis using idle some l r c i' by auto
  next
    case (stay t)
    obtain to hp where h: "get_highest_priority_thread k = (to, hp)" by fastforce
    have "hp \<le> current_priority (threads k' u)" if "stat (threads k' u) = TH_READY" for u
      using ready [OF that] ready_prio_ge [OF i stay(2) h] unfolding stay(5) by (auto split: if_splits)
    moreover have "current k' = Some t \<and> stat (threads k' t) = TH_RUNNING \<and> current_priority (threads k' t) \<le> hp"
      using stay h by (auto simp: stays_def)
    ultimately show ?thesis using r i' by (meson order_trans)
  next
    case (switch t to hp)
    have tp: "current_priority (threads k to) = hp"
      using highest_ready(1) [OF i switch(2,5)] sched_butD(3) [OF i, of to "Ready hp"] by simp
    have "hp \<le> current_priority (threads k' u)" if "stat (threads k' u) = TH_READY" for u
      using ready [OF that] ready_prio_ge [OF i switch(2,5)] switch(4,5,6,7) switch_to_lists
      by (fastforce simp: stays_def)
    then show ?thesis using switch_to_run [OF switch(6)] switch r i' tp by auto
  qed
qed

theorem rt_schedule_runs_highest_witness:
  "\<exists>k' t. rt_schedule demo_kernel = Some k' \<and> current k' = Some t \<and> stat (threads k' t) = TH_RUNNING"
  using rt_schedule_runs_highest [OF demo_kernel(1,3,2)] demo_kernel(5) by blast

lemma enter_pow: "(rt_enter_critical ^^ n) k = k\<lparr>lock_nest := lock_nest k + of_nat n\<rparr>"
proof (induction n)
  case 0
  show ?case by simp
next
  case (Suc n)
  then show ?case by (simp add: rt_enter_critical_def)
qed

lemma sint_of_nat_16: "n < 2 ^ 15 \<Longrightarrow> sint (of_nat n :: 16 word) = int n"
  by (subst sint_small) (simp_all add: uint_nat take_bit_nat_eq_self)

lemma exit_nested:
  assumes "1 < n" "n < 2 ^ 15"
  shows "rt_exit_critical (k\<lparr>lock_nest := of_nat n\<rparr>) = Some (k\<lparr>lock_nest := of_nat (n - 1)\<rparr>)"
proof -
  have "(of_nat n - 1 :: 16 word) = of_nat (n - 1)" using assms by simp
  then show ?thesis using assms sint_of_nat_16 [of "n - 1"]
    by (simp add: rt_exit_critical_def Let_def del: of_nat_diff)
qed

text \<open>
  The scheduler lock nests: after \<open>n\<close> calls of \<open>rt_enter_critical\<close> (below 32768) the next
  \<open>n - 1\<close> calls of \<open>rt_exit_critical\<close> return with the scheduler still locked and nothing else
  changed, and \<open>rt_schedule\<close> does nothing at any of these levels.
\<close>
theorem critical_section_nests:
  assumes "lock_nest k = 0" "n < 2 ^ 15" "m < n"
  shows "((\<lambda>r. r \<bind> rt_exit_critical) ^^ m) (Some ((rt_enter_critical ^^ n) k)) =
      Some (k\<lparr>lock_nest := of_nat (n - m)\<rparr>) \<and>
    rt_schedule (k\<lparr>lock_nest := of_nat (n - m)\<rparr>) = Some (k\<lparr>lock_nest := of_nat (n - m)\<rparr>)"
proof
  show "((\<lambda>r. r \<bind> rt_exit_critical) ^^ m) (Some ((rt_enter_critical ^^ n) k)) =
      Some (k\<lparr>lock_nest := of_nat (n - m)\<rparr>)"
    using assms(3)
  proof (induction m)
    case 0
    show ?case using assms(1) by (simp add: enter_pow)
  next
    case (Suc m)
    then show ?case using exit_nested [of "n - m" k] assms(2) by (simp add: Suc_diff_Suc del: of_nat_diff)
  qed
  have "(of_nat (n - m) :: 16 word) \<noteq> 0"
  proof
    assume "(of_nat (n - m) :: 16 word) = 0"
    then have "sint (of_nat (n - m) :: 16 word) = 0" by (simp only: signed_0)
    moreover have "n - m < 2 ^ 15" using assms(2) by simp
    ultimately show False using sint_of_nat_16 [of "n - m"] assms(3) by (simp del: of_nat_diff)
  qed
  then show "rt_schedule (k\<lparr>lock_nest := of_nat (n - m)\<rparr>) = Some (k\<lparr>lock_nest := of_nat (n - m)\<rparr>)"
    by (intro rt_schedule_locked) simp
qed

theorem critical_section_nests_witness:
  "((\<lambda>r. r \<bind> rt_exit_critical) ^^ 1) (Some ((rt_enter_critical ^^ 2) demo_kernel)) = Some (demo_kernel\<lparr>lock_nest := 1\<rparr>)"
  using critical_section_nests [of demo_kernel 2 1] demo_kernel(3) by simp

text \<open>
  The nesting counter is a signed 16-bit integer, although a comment gives 65535 as its range:
  after 32769 nested calls of \<open>rt_enter_critical\<close> a single \<open>rt_exit_critical\<close> finds the count negative
  and releases the lock completely, and before the scheduler is started that is all it does.
\<close>
theorem critical_nest_wraps:
  "lock_nest k = 0 \<Longrightarrow> current k = None \<Longrightarrow> rt_exit_critical ((rt_enter_critical ^^ 32769) k) = Some (k\<lparr>lock_nest := 0\<rparr>)"
  by (simp add: enter_pow rt_exit_critical_def Let_def)


theorem critical_nest_wraps_witness:
  "rt_exit_critical ((rt_enter_critical ^^ 32769) kernel0) = Some (kernel0\<lparr>lock_nest := 0\<rparr>)"
  by (rule critical_nest_wraps) (simp_all add: kernel0_def)

end
