(* ===== verification/KObject.thy ===== *)
theory KObject
  imports KSched
begin

text \<open>
  Kernel objects (\<open>src/object.c\<close>): registration of objects by class, their names and types.  In the
  debug configuration \<open>rt_object_init\<close> searches the container under the scheduler lock, so leaving
  that lock may reschedule.  The memory of an object that \<open>rt_object_allocate\<close> obtains is an argument:
  \<open>None\<close> when the kernel allocator returned a null pointer.
\<close>

definition RT_NAME_MAX :: nat where
  "RT_NAME_MAX = 24"

definition rt_object_get_length :: "obj_class \<Rightarrow> kernel \<Rightarrow> nat" where
  "rt_object_get_length cls k = length (containers k cls)"

definition rt_object_get_pointers :: "obj_class \<Rightarrow> int \<Rightarrow> kernel \<Rightarrow> obj list" where
  "rt_object_get_pointers cls maxlen k = (if maxlen \<le> 0 then [] else take (nat maxlen) (containers k cls))"

definition rt_object_init :: "obj \<Rightarrow> obj_class \<Rightarrow> string \<Rightarrow> kernel \<Rightarrow> kernel option" where
  "rt_object_init ob cls name k =
     do {
       rt_assert (cls \<noteq> Class_Null);
       let k = rt_enter_critical k;
       rt_assert (ob \<notin> set (containers k cls));
       k \<leftarrow> rt_exit_critical k;
       Some (k\<lparr>objects := (objects k)(ob := \<lparr>obj_type = cls, obj_static = True, obj_name = take RT_NAME_MAX name\<rparr>),
               containers := (containers k)(cls := ob # containers k cls)\<rparr>)
     }"

definition rt_object_remove :: "obj \<Rightarrow> kernel \<Rightarrow> kernel" where
  "rt_object_remove ob k =
     k\<lparr>objects := (objects k)(ob := (objects k ob)\<lparr>obj_type := Class_Null, obj_static := False\<rparr>),
       containers := (\<lambda>cls. removeAll ob (containers k cls))\<rparr>"

definition rt_object_detach :: "obj \<Rightarrow> kernel \<Rightarrow> kernel" where
  "rt_object_detach ob k = rt_object_remove ob k"

definition rt_object_allocate :: "obj option \<Rightarrow> obj_class \<Rightarrow> string \<Rightarrow> kernel \<Rightarrow> (kernel \<times> obj option) option" where
  "rt_object_allocate block cls name k =
     do {
       not_in_interrupt k;
       rt_assert (cls \<noteq> Class_Null);
       Some (case block of
               None \<Rightarrow> (k, None)
             | Some ob \<Rightarrow>
                 (k\<lparr>objects := (objects k)(ob := \<lparr>obj_type = cls, obj_static = False, obj_name = take RT_NAME_MAX name\<rparr>),
                    containers := (containers k)(cls := ob # containers k cls)\<rparr>, Some ob))
     }"

definition rt_object_is_systemobject :: "obj \<Rightarrow> kernel \<Rightarrow> bool" where
  "rt_object_is_systemobject ob k = obj_static (objects k ob)"

definition rt_object_get_type :: "obj \<Rightarrow> kernel \<Rightarrow> obj_class" where
  "rt_object_get_type ob k = obj_type (objects k ob)"

definition rt_object_delete :: "obj \<Rightarrow> kernel \<Rightarrow> kernel option" where
  "rt_object_delete ob k = do { rt_assert (\<not> obj_static (objects k ob)); Some (rt_object_remove ob k) }"

primrec find_name :: "string \<Rightarrow> kernel \<Rightarrow> obj list \<Rightarrow> obj option" where
  "find_name name k [] = None"
| "find_name name k (ob # obs) =
     (if take RT_NAME_MAX (obj_name (objects k ob)) = take RT_NAME_MAX name then Some ob else find_name name k obs)"

definition rt_object_find :: "string option \<Rightarrow> obj_class \<Rightarrow> kernel \<Rightarrow> (kernel \<times> obj option) option" where
  "rt_object_find name cls k =
     (case name of
        None \<Rightarrow> Some (k, None)
      | Some name \<Rightarrow>
          if cls = Class_Null then Some (k, None)
          else do {
            not_in_interrupt k;
            let k = rt_enter_critical k;
            let r = find_name name k (containers k cls);
            k \<leftarrow> rt_exit_critical k;
            Some (k, r)
          })"

definition rt_object_get_name :: "obj option \<Rightarrow> nat \<Rightarrow> kernel \<Rightarrow> err \<times> string" where
  "rt_object_get_name ob name_size k =
     (case ob of
        None \<Rightarrow> (RT_EINVAL, [])
      | Some ob \<Rightarrow> if name_size = 0 then (RT_EINVAL, []) else (RT_EOK, take name_size (obj_name (objects k ob))))"


subsection \<open>The object containers\<close>

text \<open>A container of a class holds exactly the objects of that class, each once.\<close>

definition objects_ok :: "kernel \<Rightarrow> bool" where
  "objects_ok k \<longleftrightarrow> (\<forall>cls. distinct (containers k cls)) \<and> containers k Class_Null = [] \<and>
     (\<forall>cls ob. cls \<noteq> Class_Null \<longrightarrow> ob \<in> set (containers k cls) \<longleftrightarrow> obj_type (objects k ob) = cls)"


lemma exit_critical_frame:
  "rt_exit_critical k = Some k' \<Longrightarrow> \<exists>n. only_sched (k\<lparr>lock_nest := n\<rparr>) k'"
  by (auto simp: rt_exit_critical_def Let_def split: if_splits dest!: only_sched_schedule)

lemma exit_critical_objects:
  assumes "rt_exit_critical k = Some k'"
  shows "objects k' = objects k" "containers k' = containers k"
  using exit_critical_frame [OF assms] only_schedD(1,2) by fastforce+

lemma sched_object_init: "sched_inv k \<Longrightarrow> rt_object_init ob cls name k = Some k' \<Longrightarrow> sched_inv k'"
  by (auto simp: rt_object_init_def Let_def sched_enter bind_eq_Some_conv split: if_splits dest: sched_exit [rotated])

lemma sched_object_remove [simp]: "sched_but S (rt_object_remove ob k) = sched_but S k"
  by (simp add: rt_object_remove_def)

lemma object_init_ok:
  assumes "objects_ok k" "rt_object_init ob cls name k = Some k'" "rt_object_get_type ob k = Class_Null"
  shows "objects_ok k' \<and> rt_object_get_type ob k' = cls \<and> rt_object_is_systemobject ob k'"
proof -
  obtain k1 where k1: "rt_exit_critical (rt_enter_critical k) = Some k1" "cls \<noteq> Class_Null"
      "ob \<notin> set (containers k cls)"
    and k': "k' = k1\<lparr>objects := (objects k1)(ob := \<lparr>obj_type = cls, obj_static = True, obj_name = take RT_NAME_MAX name\<rparr>),
       containers := (containers k1)(cls := ob # containers k1 cls)\<rparr>"
    using assms(2) by (auto simp: rt_object_init_def Let_def rt_enter_critical_def bind_eq_Some_conv split: if_splits)
  have "objects k1 = objects k" "containers k1 = containers k"
    using exit_critical_objects [OF k1(1)] by (simp_all add: rt_enter_critical_def)
  then show ?thesis
    using assms(1,3) k1 by (auto simp: objects_ok_def k' rt_object_get_type_def rt_object_is_systemobject_def)
qed

lemma object_remove_ok:
  "objects_ok k \<Longrightarrow> objects_ok (rt_object_remove ob k) \<and> rt_object_get_type ob (rt_object_remove ob k) = Class_Null"
  by (auto simp: objects_ok_def rt_object_remove_def rt_object_get_type_def distinct_removeAll)

lemma find_name_Some:
  "find_name name k obs = Some ob \<Longrightarrow> ob \<in> set obs \<and> take RT_NAME_MAX (obj_name (objects k ob)) = take RT_NAME_MAX name"
  by (induction obs) (auto split: if_splits)

lemma find_name_None:
  "find_name name k obs = None \<longleftrightarrow> (\<forall>ob\<in>set obs. take RT_NAME_MAX (obj_name (objects k ob)) \<noteq> take RT_NAME_MAX name)"
  by (induction obs) auto

text \<open>
  \<open>rt_object_init\<close> registers an unused object and \<open>rt_object_find\<close> then finds an object of that
  class with that name; every container keeps holding exactly the objects of its class, each once,
  and a second initialisation of the registered object stops at the assertion.
\<close>
theorem object_init_then_find:
  assumes "objects_ok k" "rt_object_init ob cls name k = Some k'" "rt_object_get_type ob k = Class_Null"
    "rt_object_find (Some name) cls k' = Some (k'', r)"
  shows "objects_ok k' \<and> rt_object_init ob cls name k' = None \<and>
    (\<exists>ob'. r = Some ob' \<and> rt_object_get_type ob' k'' = cls \<and>
       take RT_NAME_MAX (obj_name (objects k'' ob')) = take RT_NAME_MAX name)"
proof -
  have i: "objects_ok k'" "rt_object_get_type ob k' = cls"
    using object_init_ok [OF assms(1,2,3)] by simp_all
  have nm: "obj_name (objects k' ob) = take RT_NAME_MAX name" and nn: "cls \<noteq> Class_Null"
    using assms(2) by (auto simp: rt_object_init_def Let_def bind_eq_Some_conv split: if_splits)
  have ob: "ob \<in> set (containers k' cls)"
    using i nn by (simp add: objects_ok_def rt_object_get_type_def)
  then have init: "rt_object_init ob cls name k' = None"
    using nn by (simp add: rt_object_init_def rt_enter_critical_def Let_def)
  have r: "r = find_name name (rt_enter_critical k') (containers k' cls)"
    and x: "rt_exit_critical (rt_enter_critical k') = Some k''"
    using assms(4) nn by (auto simp: rt_object_find_def Let_def rt_enter_critical_def bind_eq_Some_conv not_in_interrupt_def split: if_splits)
  have e: "objects k'' = objects k'" "objects (rt_enter_critical k') = objects k'"
    using exit_critical_objects(1) [OF x] by (simp_all add: rt_enter_critical_def)
  have "r \<noteq> None" unfolding r find_name_None e using ob nm by (auto intro!: bexI [of _ ob])
  then obtain ob' where ob': "r = Some ob'" by auto
  then have "ob' \<in> set (containers k' cls)" "take RT_NAME_MAX (obj_name (objects k' ob')) = take RT_NAME_MAX name"
    using find_name_Some [of name "rt_enter_critical k'" "containers k' cls" ob'] by (simp_all add: r e)
  then show ?thesis using i init ob' nn by (simp add: objects_ok_def rt_object_get_type_def e)
qed

theorem object_init_then_find_witness:
  "\<exists>k' k'' r. rt_object_init (OSem 3) Class_Semaphore ''sem'' kernel0 = Some k' \<and>
     rt_object_find (Some ''sem'') Class_Semaphore k' = Some (k'', r) \<and> objects_ok k' \<and> r \<noteq> None"
proof -
  have o: "objects_ok kernel0" "rt_object_get_type (OSem 3) kernel0 = Class_Null"
    by (auto simp: objects_ok_def kernel0_def rt_object_get_type_def)
  obtain k' where k': "rt_object_init (OSem 3) Class_Semaphore ''sem'' kernel0 = Some k'" "current k' = None" "interrupt_nest k' = 0"
    by (simp add: rt_object_init_def rt_enter_critical_def rt_exit_critical_def kernel0_def Let_def)
  then obtain k'' r where f: "rt_object_find (Some ''sem'') Class_Semaphore k' = Some (k'', r)"
    by (cases "sint (lock_nest k') \<le> 0")
      (simp_all add: rt_object_find_def rt_enter_critical_def rt_exit_critical_def not_in_interrupt_def Let_def)
  show ?thesis using object_init_then_find [OF o(1) k'(1) o(2) f] k'(1) f by blast
qed

end
