(* ===== verification/KTimer.thy ===== *)
theory KTimer
  imports KObject
begin

text \<open>
  Timers (\<open>src/timer.c\<close>) with the default skip-list level 1: the two timer lists ordered by timeout,
  starting, stopping and controlling a timer, and \<open>rt_thread_resume\<close> of \<open>src/thread.c\<close>, which stops
  the thread's timer and which starting a soft timer calls.  The list nodes of a timer are in at most
  one of the lists: hard timers, soft timers, or the local list of a running timer check.
\<close>

subsection \<open>The code\<close>

definition RT_TICK_MAX2 :: u32 where
  "RT_TICK_MAX2 = 0x7fffffff"

definition timer_init :: "timer_id \<Rightarrow> timeout_func \<Rightarrow> nat \<Rightarrow> u32 \<Rightarrow> bool \<Rightarrow> bool \<Rightarrow> kernel \<Rightarrow> kernel" where
  "timer_init tm fn parm time per sft k =
     upd_timer tm (\<lambda>_. \<lparr>activated = False, periodic = per, soft = sft, timeout_fn = fn, timer_parm = parm,
       init_tick = time, timeout_tick = 0\<rparr>) k"

definition timer_list_next_timeout :: "timer_id list \<Rightarrow> kernel \<Rightarrow> u32 option" where
  "timer_list_next_timeout ts k = (case ts of [] \<Rightarrow> None | tm # _ \<Rightarrow> Some (timeout_tick (timers k tm)))"

definition timer_remove :: "timer_id \<Rightarrow> kernel \<Rightarrow> kernel" where
  "timer_remove tm k = k\<lparr>timer_list := removeAll tm (timer_list k), soft_timer_list := removeAll tm (soft_timer_list k),
     firing := removeAll tm (firing k), soft_firing := removeAll tm (soft_firing k)\<rparr>"

definition rt_timer_init ::
  "timer_id \<Rightarrow> string \<Rightarrow> timeout_func \<Rightarrow> nat \<Rightarrow> u32 \<Rightarrow> bool \<Rightarrow> bool \<Rightarrow> kernel \<Rightarrow> kernel option" where
  "rt_timer_init tm name fn parm time per sft k =
     do {
       rt_assert (time < RT_TICK_MAX2);
       k \<leftarrow> rt_object_init (OTimer tm) Class_Timer name k;
       Some (timer_init tm fn parm time per sft k)
     }"

definition deactivate :: "timer_id \<Rightarrow> kernel \<Rightarrow> kernel" where
  "deactivate tm k = upd_timer tm (\<lambda>t. t\<lparr>activated := False\<rparr>) k"

definition rt_timer_detach :: "timer_id \<Rightarrow> kernel \<Rightarrow> kernel option" where
  "rt_timer_detach tm k =
     do {
       rt_assert (rt_object_get_type (OTimer tm) k = Class_Timer);
       rt_assert (rt_object_is_systemobject (OTimer tm) k);
       Some (rt_object_detach (OTimer tm) (deactivate tm (timer_remove tm k)))
     }"

definition rt_timer_create ::
  "oid option \<Rightarrow> string \<Rightarrow> timeout_func \<Rightarrow> nat \<Rightarrow> u32 \<Rightarrow> bool \<Rightarrow> bool \<Rightarrow> kernel \<Rightarrow> (kernel \<times> oid option) option" where
  "rt_timer_create block name fn parm time per sft k =
     do {
       rt_assert (time < RT_TICK_MAX2);
       (k, r) \<leftarrow> rt_object_allocate (map_option (\<lambda>p. OTimer (Timer p)) block) Class_Timer name k;
       Some (case block of
               None \<Rightarrow> (k, None)
             | Some p \<Rightarrow> (timer_init (Timer p) fn parm time per sft k, Some p))
     }"

definition rt_timer_delete :: "timer_id \<Rightarrow> kernel \<Rightarrow> kernel option" where
  "rt_timer_delete tm k =
     do {
       rt_assert (rt_object_get_type (OTimer tm) k = Class_Timer);
       rt_assert (\<not> rt_object_is_systemobject (OTimer tm) k);
       rt_object_delete (OTimer tm) (deactivate tm (timer_remove tm k))
     }"

definition rt_timer_stop :: "timer_id \<Rightarrow> kernel \<Rightarrow> (kernel \<times> err) option" where
  "rt_timer_stop tm k =
     do {
       rt_assert (rt_object_get_type (OTimer tm) k = Class_Timer);
       Some (if \<not> activated (timers k tm) then (k, RT_ERROR)
             else (deactivate tm (timer_remove tm k), RT_EOK))
     }"

datatype timer_cmd = CTRL_SET_TIME u32 | CTRL_GET_TIME | CTRL_SET_ONESHOT | CTRL_SET_PERIODIC
  | CTRL_GET_STATE | CTRL_GET_REMAIN_TIME | CTRL_GET_FUNC | CTRL_SET_FUNC timeout_func
  | CTRL_GET_PARM | CTRL_SET_PARM nat | CTRL_OTHER nat

datatype timer_reply = NoReply | TickReply u32 | StateReply bool | FuncReply timeout_func | ParmReply nat

definition rt_timer_control :: "timer_id \<Rightarrow> timer_cmd \<Rightarrow> kernel \<Rightarrow> (kernel \<times> timer_reply) option" where
  "rt_timer_control tm cmd k =
     do {
       rt_assert (rt_object_get_type (OTimer tm) k = Class_Timer);
       case cmd of
         CTRL_GET_TIME \<Rightarrow> Some (k, TickReply (init_tick (timers k tm)))
       | CTRL_SET_TIME n \<Rightarrow>
           do { rt_assert (n < RT_TICK_MAX2); Some (upd_timer tm (\<lambda>t. t\<lparr>init_tick := n\<rparr>) k, NoReply) }
       | CTRL_SET_ONESHOT \<Rightarrow> Some (upd_timer tm (\<lambda>t. t\<lparr>periodic := False\<rparr>) k, NoReply)
       | CTRL_SET_PERIODIC \<Rightarrow> Some (upd_timer tm (\<lambda>t. t\<lparr>periodic := True\<rparr>) k, NoReply)
       | CTRL_GET_STATE \<Rightarrow> Some (k, StateReply (activated (timers k tm)))
       | CTRL_GET_REMAIN_TIME \<Rightarrow> Some (k, TickReply (timeout_tick (timers k tm)))
       | CTRL_GET_FUNC \<Rightarrow> Some (k, FuncReply (timeout_fn (timers k tm)))
       | CTRL_SET_FUNC f \<Rightarrow> Some (upd_timer tm (\<lambda>t. t\<lparr>timeout_fn := f\<rparr>) k, NoReply)
       | CTRL_GET_PARM \<Rightarrow> Some (k, ParmReply (timer_parm (timers k tm)))
       | CTRL_SET_PARM p \<Rightarrow> Some (upd_timer tm (\<lambda>t. t\<lparr>timer_parm := p\<rparr>) k, NoReply)
       | CTRL_OTHER _ \<Rightarrow> Some (k, NoReply)
     }"

definition rt_timer_next_timeout_tick :: "kernel \<Rightarrow> u32" where
  "rt_timer_next_timeout_tick k =
     (case timer_list_next_timeout (timer_list k) k of None \<Rightarrow> 0xffffffff | Some n \<Rightarrow> n)"

definition rt_system_timer_init :: "kernel \<Rightarrow> kernel" where
  "rt_system_timer_init k = k\<lparr>timer_list := []\<rparr>"

text \<open>\<open>rt_thread_resume\<close>.\<close>

definition rt_thread_resume :: "tid \<Rightarrow> kernel \<Rightarrow> (kernel \<times> err) option" where
  "rt_thread_resume t k =
     do {
       rt_assert (rt_object_get_type (OThread t) k = Class_Thread);
       if \<not> suspended (threads k t) then Some (k, RT_ERROR)
       else do {
         let k = tlist_remove t k;
         (k, _) \<leftarrow> rt_timer_stop (ThreadTimer t) k;
         Some (rt_schedule_insert_thread t k, RT_EOK)
       }
     }"

text \<open>The search for the place of a timer in its list: behind every timer that is not due later.\<close>

primrec timer_insert :: "(timer_id \<Rightarrow> u32) \<Rightarrow> timer_id \<Rightarrow> timer_id list \<Rightarrow> timer_id list" where
  "timer_insert tt tm [] = [tm]"
| "timer_insert tt tm (x # xs) =
     (if tt x - tt tm = 0 then x # timer_insert tt tm xs
      else if tt x - tt tm < RT_TICK_MAX2 then tm # x # xs
      else x # timer_insert tt tm xs)"

definition timer_enqueue :: "timer_id \<Rightarrow> kernel \<Rightarrow> kernel" where
  "timer_enqueue tm k =
     (let tt = (\<lambda>x. timeout_tick (timers k x)) in
      if soft (timers k tm) then k\<lparr>soft_timer_list := timer_insert tt tm (soft_timer_list k)\<rparr>
      else k\<lparr>timer_list := timer_insert tt tm (timer_list k)\<rparr>)"

definition rt_timer_start :: "timer_id \<Rightarrow> kernel \<Rightarrow> kernel option" where
  "rt_timer_start tm k =
     do {
       rt_assert (rt_object_get_type (OTimer tm) k = Class_Timer);
       let k = deactivate tm (timer_remove tm k);
       let k = upd_timer tm (\<lambda>t. t\<lparr>timeout_tick := tick k + init_tick t\<rparr>) k;
       let k = timer_enqueue tm k;
       let k = upd_timer tm (\<lambda>t. t\<lparr>activated := True\<rparr>) k;
       if soft (timers k tm) \<and> \<not> soft_timer_busy k \<and> suspended (threads k (timer_thread k))
       then do {
         (k, _) \<leftarrow> rt_thread_resume (timer_thread k) k;
         rt_schedule k
       }
       else Some k
     }"



subsection \<open>Timers and the scheduler's invariant\<close>

lemma sched_timer_frame [simp]:
  "sched_but S (upd_timer tm f k) = sched_but S k" "sched_but S (timer_remove tm k) = sched_but S k"
  "sched_but S (deactivate tm k) = sched_but S k" "sched_but S (timer_enqueue tm k) = sched_but S k"
  "sched_but S (timer_init tm fn parm time per sft k) = sched_but S k"
  by (simp_all add: upd_timer_def timer_remove_def deactivate_def timer_enqueue_def timer_init_def Let_def)

lemma timer_thread_frame [simp]:
  "threads (upd_timer tm f k) = threads k" "lists (upd_timer tm f k) = lists k"
  "current (upd_timer tm f k) = current k" "objects (upd_timer tm f k) = objects k"
  "threads (timer_remove tm k) = threads k" "lists (timer_remove tm k) = lists k"
  "current (timer_remove tm k) = current k" "objects (timer_remove tm k) = objects k"
  "threads (deactivate tm k) = threads k" "lists (deactivate tm k) = lists k"
  "current (deactivate tm k) = current k" "objects (deactivate tm k) = objects k"
  "threads (timer_enqueue tm k) = threads k" "lists (timer_enqueue tm k) = lists k"
  "current (timer_enqueue tm k) = current k" "objects (timer_enqueue tm k) = objects k"
  by (simp_all add: upd_timer_def timer_remove_def deactivate_def timer_enqueue_def Let_def)

lemma timer_field_simps [simp]:
  "timers (upd_timer tm f k) = (timers k)(tm := f (timers k tm))" "timer_list (upd_timer tm f k) = timer_list k"
  "tick (upd_timer tm f k) = tick k" "timers (timer_remove tm k) = timers k" "tick (timer_remove tm k) = tick k"
  "timer_list (timer_remove tm k) = removeAll tm (timer_list k)"
  "timers (deactivate tm k) = (timers k)(tm := (timers k tm)\<lparr>activated := False\<rparr>)"
  "timer_list (deactivate tm k) = timer_list k" "tick (deactivate tm k) = tick k"
  "timers (timer_enqueue tm k) = timers k" "tick (timer_enqueue tm k) = tick k"
  "\<not> soft (timers k tm) \<Longrightarrow> timer_list (timer_enqueue tm k) =
     timer_insert (\<lambda>x. timeout_tick (timers k x)) tm (timer_list k)"
  by (simp_all add: upd_timer_def timer_remove_def deactivate_def timer_enqueue_def Let_def)

lemma timer_stop_frame:
  assumes "rt_timer_stop tm k = Some (k', e)"
  shows "threads k' = threads k" "lists k' = lists k" "current k' = current k" "objects k' = objects k"
    "sched_but S k' = sched_but S k" "lock_nest k' = lock_nest k" "ready_group k' = ready_group k"
  using assms by (auto simp: rt_timer_stop_def timer_remove_def deactivate_def upd_timer_def split: if_splits)

lemma sched_tlist_remove:
  assumes "sched_but S k" "stat (threads k t) \<noteq> TH_READY"
  shows "sched_but S (tlist_remove t k)" "unlisted (tlist_remove t k) t"
proof -
  have r: "removeAll t (lists k (Ready p)) = lists k (Ready p)" for p
    using not_ready_listed [OF assms] by simp
  show "sched_but S (tlist_remove t k)"
  proof (rule sched_butI)
    fix u assume "u \<notin> S"
    then show "thread_ok (tlist_remove t k) u"
      using sched_butD(5) [OF assms(1), of u] by (auto simp: thread_ok_def tlist_remove_def r)
  qed (use sched_butD [OF assms(1)] r in \<open>auto simp: tlist_remove_def distinct_removeAll\<close>)
  show "unlisted (tlist_remove t k) t" by (simp add: unlisted_def tlist_remove_def)
qed

lemma suspended_started: "suspended th \<Longrightarrow> started th \<and> stat th \<noteq> TH_READY \<and> stat th \<noteq> TH_RUNNING"
  by (auto simp: started_def split: thread_stat.splits)

text \<open>Waking a suspended thread: off its list, then into the ready queue.\<close>

lemma sched_wake:
  assumes i: "sched_inv k" and s: "suspended (threads k t)" and k1: "k1 = tlist_remove t k"
    and th: "threads k2 = threads k1" "lists k2 = lists k1" "\<And>S. sched_but S k2 = sched_but S k1"
  shows "sched_inv (rt_schedule_insert_thread t k2)"
proof -
  have r: "sched_inv k1" "unlisted k1 t" using sched_tlist_remove [OF i] suspended_started [OF s] k1 by auto
  have "mask_ok (threads k t)" using sched_butD(5) [OF i, of t] suspended_started [OF s] by (auto intro: thread_ok_mask)
  then have "mask_ok (threads k2 t)" by (simp add: th k1 tlist_remove_def)
  moreover have "unlisted k2 t" using r(2) by (simp add: unlisted_def th)
  ultimately show ?thesis using sched_insert [of "{}" k2 t] r(1) th(3) by simp
qed

lemma sched_resume:
  assumes i: "sched_inv k" and r: "rt_thread_resume t k = Some (k', e)"
  shows "sched_inv k'"
proof (cases "suspended (threads k t)")
  case False
  then show ?thesis using assms by (auto simp: rt_thread_resume_def split: if_splits)
next
  case True
  then obtain k2 e2 where s: "rt_timer_stop (ThreadTimer t) (tlist_remove t k) = Some (k2, e2)"
    and k': "k' = rt_schedule_insert_thread t k2"
    using r by (auto simp: rt_thread_resume_def Let_def bind_eq_Some_conv split: if_splits thread_stat.splits)
  show ?thesis unfolding k' by (rule sched_wake [OF i True refl]) (use timer_stop_frame [OF s] in simp_all)
qed

lemma sched_timer_start:
  "sched_inv k \<Longrightarrow> rt_timer_start tm k = Some k' \<Longrightarrow> sched_inv k'"
  by (auto simp: rt_timer_start_def Let_def bind_eq_Some_conv split: if_splits dest!: sched_resume [rotated]
      intro: sched_schedule)

lemma sched_timer_control: "rt_timer_control tm cmd k = Some (k', r) \<Longrightarrow> sched_but S k' = sched_but S k"
  by (auto simp: rt_timer_control_def split: if_splits timer_cmd.splits)


subsection \<open>The order of the timer lists\<close>

definition remaining :: "kernel \<Rightarrow> timer_id \<Rightarrow> u32" where
  "remaining k tm = timeout_tick (timers k tm) - tick k"

definition timers_sorted :: "kernel \<Rightarrow> timer_id list \<Rightarrow> bool" where
  "timers_sorted k ts \<longleftrightarrow> distinct ts \<and> sorted_wrt (\<lambda>a b. remaining k a \<le> remaining k b) ts \<and>
     (\<forall>a\<in>set ts. remaining k a < RT_TICK_MAX2)"

lemma tick_order:
  fixes a b :: u32
  assumes "a < RT_TICK_MAX2" "b < RT_TICK_MAX2"
  shows "a - b \<noteq> 0 \<and> a - b < RT_TICK_MAX2 \<longleftrightarrow> b < a"
  using assms by (auto simp: RT_TICK_MAX2_def word_less_nat_alt word_unat_eq_iff unat_sub_if')

lemma timer_insert_Cons:
  assumes "tt x - now < RT_TICK_MAX2" "tt tm - now < RT_TICK_MAX2"
  shows "timer_insert tt tm (x # xs) =
    (if tt tm - now < tt x - now then tm # x # xs else x # timer_insert tt tm xs)"
  using tick_order [OF assms] by auto

lemma set_timer_insert [simp]: "set (timer_insert tt tm xs) = insert tm (set xs)"
  by (induction xs) auto

lemma distinct_timer_insert: "distinct xs \<Longrightarrow> tm \<notin> set xs \<Longrightarrow> distinct (timer_insert tt tm xs)"
  by (induction xs) auto

lemma timer_insert_sorted:
  assumes "sorted_wrt (\<lambda>a b. tt a - now \<le> tt b - now) xs" "\<forall>a\<in>set xs. tt a - now < RT_TICK_MAX2"
    "tt tm - now < RT_TICK_MAX2"
  shows "sorted_wrt (\<lambda>a b. tt a - now \<le> tt b - now) (timer_insert tt tm xs)"
  using assms
proof (induction xs)
  case (Cons x xs)
  have e: "timer_insert tt tm (x # xs) = (if tt tm - now < tt x - now then tm # x # xs else x # timer_insert tt tm xs)"
    using Cons.prems by (intro timer_insert_Cons) auto
  show ?case
  proof (cases "tt tm - now < tt x - now")
    case True
    moreover have "\<forall>b\<in>set xs. tt tm - now \<le> tt b - now" using Cons.prems(1) True by fastforce
    ultimately show ?thesis using Cons.prems(1) unfolding e by simp
  next
    case False
    then show ?thesis using Cons unfolding e by (auto simp del: timer_insert.simps)
  qed
qed simp

text \<open>
  C15: \<open>rt_timer_start\<close> keeps the timer lists in order of their timeouts, also across the wrap of the
  32-bit tick counter: if the timers of the list a hard timer goes to are ordered by their remaining
  ticks, all less than half the counter's range, then so they are with the started timer among them,
  due after its initial ticks and activated.
\<close>
theorem timer_start_ordered:
  assumes "rt_timer_start tm k = Some k'" "\<not> soft (timers k tm)" "init_tick (timers k tm) < RT_TICK_MAX2"
    "timers_sorted k (timer_list k)"
  shows "timers_sorted k' (timer_list k') \<and> set (timer_list k') = insert tm (set (timer_list k)) \<and>
    remaining k' tm = init_tick (timers k tm) \<and> activated (timers k' tm)"
proof -
  let ?tt = "\<lambda>x. if x = tm then tick k + init_tick (timers k tm) else timeout_tick (timers k x)"
  let ?xs = "removeAll tm (timer_list k)"
  have k': "timer_list k' = timer_insert ?tt tm ?xs" "tick k' = tick k" "\<And>x. timeout_tick (timers k' x) = ?tt x"
      "activated (timers k' tm)"
    using assms(1,2) by (auto simp: rt_timer_start_def Let_def if_distrib [of timeout_tick] cong: if_cong split: if_splits)
  have e: "?tt x - tick k = remaining k x" if "x \<noteq> tm" for x using that by (simp add: remaining_def)
  have s: "sorted_wrt (\<lambda>a b. remaining k a \<le> remaining k b) ?xs" "\<forall>a\<in>set ?xs. remaining k a < RT_TICK_MAX2" "distinct ?xs"
    using assms(4) by (auto simp: timers_sorted_def sorted_wrt_filter removeAll_filter_not_eq)
  have "sorted_wrt (\<lambda>a b. ?tt a - tick k \<le> ?tt b - tick k) (timer_insert ?tt tm ?xs)"
  proof (rule timer_insert_sorted)
    show "sorted_wrt (\<lambda>a b. ?tt a - tick k \<le> ?tt b - tick k) ?xs"
      using s(1) by (rule sorted_wrt_mono_rel [rotated]) (use e in auto)
    show "\<forall>a\<in>set ?xs. ?tt a - tick k < RT_TICK_MAX2" using s(2) e by auto
  qed (use assms(3) in simp)
  moreover have "distinct (timer_insert ?tt tm ?xs)" using s(3) by (simp add: distinct_timer_insert)
  ultimately show ?thesis
    using s(2) e assms(3) k'(4) by (auto simp: timers_sorted_def remaining_def k')
qed


theorem timer_start_ordered_witness:
  "\<exists>k'. rt_timer_start (Timer 1) (kernel0\<lparr>objects := (\<lambda>_. \<lparr>obj_type = Class_Timer, obj_static = True, obj_name = []\<rparr>)\<rparr>) = Some k' \<and>
     timers_sorted k' (timer_list k') \<and> set (timer_list k') = {Timer 1}"
proof -
  let ?k = "kernel0\<lparr>objects := (\<lambda>_. \<lparr>obj_type = Class_Timer, obj_static = True, obj_name = []\<rparr>)\<rparr>"
  have a: "\<not> soft (timers ?k (Timer 1))" "init_tick (timers ?k (Timer 1)) < RT_TICK_MAX2" "timer_list ?k = []"
    "rt_object_get_type (OTimer (Timer 1)) ?k = Class_Timer"
    by (simp_all add: kernel0_def RT_TICK_MAX2_def rt_object_get_type_def)
  then have "\<exists>k'. rt_timer_start (Timer 1) ?k = Some k'" by (simp add: rt_timer_start_def)
  then obtain k' where k': "rt_timer_start (Timer 1) ?k = Some k'" ..
  have s: "timers_sorted ?k (timer_list ?k)" by (simp add: timers_sorted_def a(3))
  show ?thesis using timer_start_ordered [OF k' a(1,2) s] a(3) k' by simp
qed

text \<open>\<open>RT_TIMER_CTRL_GET_REMAIN_TIME\<close> reports the tick of the timeout, not the ticks that remain.\<close>

lemma control_remain_time:
  "rt_timer_control tm CTRL_GET_REMAIN_TIME k = Some (k', TickReply n) \<Longrightarrow> n = tick k + remaining k tm"
  by (auto simp: rt_timer_control_def remaining_def split: if_splits)

end
