(* ===== verification/KThread.thy ===== *)
theory KThread
  imports KTimer
begin

text \<open>
  Threads (\<open>src/thread.c\<close>), the tick (\<open>src/clock.c\<close>), the expiry of timers (\<open>src/timer.c\<close>) and the
  defunct list (\<open>src/idle.c\<close>).  The stack, entry and machine context of a thread are not modelled.  A
  call that gives up the processor is split at its \<open>rt_schedule\<close>: it ends with \<open>Blocked\<close> there, and
  a function named \<open>..._resume\<close> is what the thread executes when it runs again.
\<close>

datatype 'a outcome = Ret 'a | Blocked

subsection \<open>The code\<close>

definition thread_timeout :: "tid \<Rightarrow> kernel \<Rightarrow> kernel option" where
  "thread_timeout t k =
     do {
       rt_assert (suspended (threads k t));
       rt_assert (rt_object_get_type (OThread t) k = Class_Thread);
       let k = upd_thread t (\<lambda>th. th\<lparr>error := RT_ETIMEOUT\<rparr>) k;
       let k = tlist_remove t k;
       let k = rt_schedule_insert_thread t k;
       rt_schedule k
     }"

definition thread_init :: "tid \<Rightarrow> nat \<Rightarrow> u32 \<Rightarrow> kernel \<Rightarrow> kernel option" where
  "thread_init t prio ticks k =
     do {
       rt_assert (prio < 32);
       let k = upd_thread t (\<lambda>_. \<lparr>stat = TH_INIT, yield = False, error = RT_EOK, init_priority = prio,
                 current_priority = prio, number_mask = 0, pending_object = None, event_set = 0, event_info = 0,
                 slice_tick = ticks, remaining_tick = ticks\<rparr>) k;
       let k = k\<lparr>taken := (taken k)(t := [])\<rparr>;
       rt_timer_init (ThreadTimer t) (obj_name (objects k (OThread t))) Thread_Timeout t 0 False False k
     }"

definition rt_thread_init :: "tid \<Rightarrow> string \<Rightarrow> nat \<Rightarrow> u32 \<Rightarrow> kernel \<Rightarrow> kernel option" where
  "rt_thread_init t name prio ticks k =
     do { k \<leftarrow> rt_object_init (OThread t) Class_Thread name k; thread_init t prio ticks k }"

definition rt_thread_create :: "tid option \<Rightarrow> bool \<Rightarrow> string \<Rightarrow> nat \<Rightarrow> u32 \<Rightarrow> kernel \<Rightarrow> (kernel \<times> tid option) option" where
  "rt_thread_create block stack_ok name prio ticks k =
     do {
       (k, _) \<leftarrow> rt_object_allocate (map_option OThread block) Class_Thread name k;
       case block of
         None \<Rightarrow> Some (k, None)
       | Some t \<Rightarrow>
           if \<not> stack_ok then do { k \<leftarrow> rt_object_delete (OThread t) k; Some (k, None) }
           else do { k \<leftarrow> thread_init t prio ticks k; Some (k, Some t) }
     }"

definition rt_thread_startup :: "tid \<Rightarrow> kernel \<Rightarrow> kernel option" where
  "rt_thread_startup t k =
     do {
       rt_assert (stat (threads k t) = TH_INIT);
       rt_assert (rt_object_get_type (OThread t) k = Class_Thread);
       let k = upd_thread t (\<lambda>th. th\<lparr>number_mask := push_bit (current_priority th) 1\<rparr>) k;
       let k = upd_thread t (\<lambda>th. th\<lparr>stat := TH_SUSPEND RT_INTERRUPTIBLE, yield := False\<rparr>) k;
       (k, _) \<leftarrow> rt_thread_resume t k;
       if current k \<noteq> None then rt_schedule k else Some k
     }"

definition rt_thread_suspend_with_flag :: "tid \<Rightarrow> suspend_flag \<Rightarrow> kernel \<Rightarrow> (kernel \<times> err) option" where
  "rt_thread_suspend_with_flag t flag k =
     do {
       rt_assert (rt_object_get_type (OThread t) k = Class_Thread);
       rt_assert (current k = Some t);
       if stat (threads k t) \<noteq> TH_READY \<and> stat (threads k t) \<noteq> TH_RUNNING then Some (k, RT_ERROR)
       else do {
         let k = rt_schedule_remove_thread t k;
         let k = upd_thread t (\<lambda>th. th\<lparr>stat := TH_SUSPEND flag\<rparr>) k;
         (k, _) \<leftarrow> rt_timer_stop (ThreadTimer t) k;
         Some (k, RT_EOK)
       }
     }"

definition rt_thread_suspend :: "tid \<Rightarrow> kernel \<Rightarrow> (kernel \<times> err) option" where
  "rt_thread_suspend t k = rt_thread_suspend_with_flag t RT_UNINTERRUPTIBLE k"

definition rt_thread_yield :: "kernel \<Rightarrow> kernel option" where
  "rt_thread_yield k =
     (case current k of
        None \<Rightarrow> None
      | Some t \<Rightarrow> rt_schedule (upd_thread t (\<lambda>th. th\<lparr>remaining_tick := slice_tick th, yield := True\<rparr>) k))"

text \<open>Setting the thread timer and starting it, as every timed wait does.\<close>

definition start_thread_timer :: "tid \<Rightarrow> u32 \<Rightarrow> kernel \<Rightarrow> kernel option" where
  "start_thread_timer t n k =
     do {
       (k, _) \<leftarrow> rt_timer_control (ThreadTimer t) (CTRL_SET_TIME n) k;
       rt_timer_start (ThreadTimer t) k
     }"

definition rt_thread_sleep :: "u32 \<Rightarrow> kernel \<Rightarrow> (kernel \<times> err outcome) option" where
  "rt_thread_sleep n k =
     (if n = 0 then Some (k, Ret RT_EINVAL)
      else case current k of
        None \<Rightarrow> None
      | Some t \<Rightarrow> do {
          rt_assert (rt_object_get_type (OThread t) k = Class_Thread);
          scheduler_available True k;
          let k = upd_thread t (\<lambda>th. th\<lparr>error := RT_EOK\<rparr>) k;
          (k, e) \<leftarrow> rt_thread_suspend_with_flag t RT_INTERRUPTIBLE k;
          if e = RT_EOK then do {
            k \<leftarrow> start_thread_timer t n k;
            let k = upd_thread t (\<lambda>th. th\<lparr>error := RT_EINTR\<rparr>) k;
            k \<leftarrow> rt_schedule k;
            Some (k, Blocked)
          }
          else Some (k, Ret e)
        })"

definition rt_thread_sleep_resume :: "tid \<Rightarrow> kernel \<Rightarrow> kernel \<times> err" where
  "rt_thread_sleep_resume t k =
     (upd_thread t (\<lambda>th. if error th = RT_ETIMEOUT then th\<lparr>error := RT_EOK\<rparr> else th) k, RT_EOK)"

definition rt_thread_delay :: "u32 \<Rightarrow> kernel \<Rightarrow> (kernel \<times> err outcome) option" where
  "rt_thread_delay n k = rt_thread_sleep n k"

definition rt_thread_delay_until :: "u32 \<Rightarrow> u32 \<Rightarrow> kernel \<Rightarrow> (kernel \<times> u32 \<times> err outcome) option" where
  "rt_thread_delay_until prev inc k =
     (case current k of
        None \<Rightarrow> None
      | Some t \<Rightarrow> do {
          rt_assert (rt_object_get_type (OThread t) k = Class_Thread);
          let k = upd_thread t (\<lambda>th. th\<lparr>error := RT_EOK\<rparr>) k;
          let cur_tick = tick k;
          if cur_tick - prev < inc then do {
            let next = prev + inc;
            (k, _) \<leftarrow> rt_thread_suspend_with_flag t RT_UNINTERRUPTIBLE k;
            k \<leftarrow> start_thread_timer t (next - cur_tick) k;
            k \<leftarrow> rt_schedule k;
            Some (k, next, Blocked)
          }
          else Some (k, cur_tick, Ret (error (threads k t)))
        })"

definition rt_thread_delay_until_resume :: "tid \<Rightarrow> kernel \<Rightarrow> kernel \<times> err" where
  "rt_thread_delay_until_resume t k =
     (let k = upd_thread t (\<lambda>th. if error th = RT_ETIMEOUT then th\<lparr>error := RT_EOK\<rparr> else th) k
      in (k, error (threads k t)))"

definition RT_TICK_PER_SECOND :: int where
  "RT_TICK_PER_SECOND = 100"

definition rt_tick_from_millisecond :: "cint \<Rightarrow> u32" where
  "rt_tick_from_millisecond ms =
     (if sint ms < 0 then 0xffffffff
      else of_int (RT_TICK_PER_SECOND * (sint ms div 1000)) +
        of_int ((RT_TICK_PER_SECOND * (sint ms mod 1000) + 999) div 1000))"

definition rt_thread_mdelay :: "cint \<Rightarrow> kernel \<Rightarrow> (kernel \<times> err outcome) option" where
  "rt_thread_mdelay ms k = rt_thread_sleep (rt_tick_from_millisecond ms) k"

text \<open>The defunct list.\<close>

definition rt_thread_defunct_enqueue :: "tid \<Rightarrow> kernel \<Rightarrow> kernel" where
  "rt_thread_defunct_enqueue t k = tlist_insert_after Defunct t k"

definition rt_thread_defunct_dequeue :: "kernel \<Rightarrow> kernel \<times> tid option" where
  "rt_thread_defunct_dequeue k =
     (case lists k Defunct of [] \<Rightarrow> (k, None) | t # _ \<Rightarrow> (tlist_remove t k, Some t))"

definition thread_exit :: "kernel \<Rightarrow> kernel option" where
  "thread_exit k =
     (case current k of
        None \<Rightarrow> None
      | Some t \<Rightarrow> do {
          let k = rt_schedule_remove_thread t k;
          k \<leftarrow> rt_timer_detach (ThreadTimer t) k;
          let k = upd_thread t (\<lambda>th. th\<lparr>stat := TH_CLOSE, yield := False\<rparr>) k;
          let k = rt_thread_defunct_enqueue t k;
          rt_schedule k
        })"

text \<open>Changing the priority of a thread (\<open>RT_THREAD_CTRL_CHANGE_PRIORITY\<close>).\<close>

definition set_priority :: "tid \<Rightarrow> nat \<Rightarrow> kernel \<Rightarrow> kernel" where
  "set_priority t p k = upd_thread t (\<lambda>th. th\<lparr>current_priority := p, number_mask := push_bit p 1\<rparr>) k"

definition change_priority :: "tid \<Rightarrow> nat \<Rightarrow> kernel \<Rightarrow> kernel option" where
  "change_priority t p k =
     do {
       rt_assert (rt_object_get_type (OThread t) k = Class_Thread);
       Some (if stat (threads k t) = TH_READY
             then rt_schedule_insert_thread t (set_priority t p (rt_schedule_remove_thread t k))
             else set_priority t p k)
     }"

subsection \<open>Expiry of timers and the tick\<close>

text \<open>
  The timeout functions other than the thread timeout belong to the application: \<open>app f p k\<close> runs the
  one at address \<open>f\<close> with parameter \<open>p\<close>.
\<close>

type_synonym app = "nat \<Rightarrow> nat \<Rightarrow> kernel \<Rightarrow> kernel option"

fun call_timeout :: "app \<Rightarrow> timeout_func \<Rightarrow> nat \<Rightarrow> kernel \<Rightarrow> kernel option" where
  "call_timeout app Thread_Timeout p k = thread_timeout p k"
| "call_timeout app (App_Timeout f) p k = app f p k"

definition due :: "u32 \<Rightarrow> timer_id \<Rightarrow> kernel \<Rightarrow> bool" where
  "due now tm k \<longleftrightarrow> now - timeout_tick (timers k tm) < RT_TICK_MAX2"

text \<open>One round of \<open>rt_timer_check\<close> for the timer \<open>tm\<close> at the head of the list.\<close>

definition fire_timer :: "app \<Rightarrow> timer_id \<Rightarrow> kernel \<Rightarrow> kernel option" where
  "fire_timer app tm k =
     do {
       let k = timer_remove tm k;
       let k = (if periodic (timers k tm) then k else deactivate tm k);
       let k = k\<lparr>firing := tm # firing k\<rparr>;
       k \<leftarrow> call_timeout app (timeout_fn (timers k tm)) (timer_parm (timers k tm)) k;
       if firing k = [] then Some k
       else do {
         let k = timer_remove tm k;
         if periodic (timers k tm) \<and> activated (timers k tm)
         then rt_timer_start tm (deactivate tm k)
         else Some k
       }
     }"

partial_function (option) timer_check_loop :: "app \<Rightarrow> u32 \<Rightarrow> kernel \<Rightarrow> kernel option" where
  "timer_check_loop app now k =
     (case timer_list k of
        [] \<Rightarrow> Some k
      | tm # _ \<Rightarrow>
          if due now tm k
          then do { k \<leftarrow> fire_timer app tm k; timer_check_loop app (tick k) k }
          else Some k)"

definition rt_timer_check :: "app \<Rightarrow> kernel \<Rightarrow> kernel option" where
  "rt_timer_check app k = timer_check_loop app (tick k) (k\<lparr>firing := []\<rparr>)"

definition fire_soft_timer :: "app \<Rightarrow> timer_id \<Rightarrow> kernel \<Rightarrow> kernel option" where
  "fire_soft_timer app tm k =
     do {
       let k = timer_remove tm k;
       let k = (if periodic (timers k tm) then k else deactivate tm k);
       let k = k\<lparr>soft_firing := tm # soft_firing k\<rparr>;
       let k = k\<lparr>soft_timer_busy := True\<rparr>;
       k \<leftarrow> call_timeout app (timeout_fn (timers k tm)) (timer_parm (timers k tm)) k;
       let k = k\<lparr>soft_timer_busy := False\<rparr>;
       if soft_firing k = [] then Some k
       else do {
         let k = timer_remove tm k;
         if periodic (timers k tm) \<and> activated (timers k tm)
         then rt_timer_start tm (deactivate tm k)
         else Some k
       }
     }"

partial_function (option) soft_timer_check_loop :: "app \<Rightarrow> kernel \<Rightarrow> kernel option" where
  "soft_timer_check_loop app k =
     (case soft_timer_list k of
        [] \<Rightarrow> Some k
      | tm # _ \<Rightarrow>
          if due (tick k) tm k
          then do { k \<leftarrow> fire_soft_timer app tm k; soft_timer_check_loop app k }
          else Some k)"

definition rt_soft_timer_check :: "app \<Rightarrow> kernel \<Rightarrow> kernel option" where
  "rt_soft_timer_check app k = soft_timer_check_loop app (k\<lparr>soft_firing := []\<rparr>)"

definition rt_tick_get :: "kernel \<Rightarrow> u32" where
  "rt_tick_get k = tick k"

definition rt_tick_set :: "u32 \<Rightarrow> kernel \<Rightarrow> kernel" where
  "rt_tick_set n k = k\<lparr>tick := n\<rparr>"

definition rt_tick_increase :: "app \<Rightarrow> kernel \<Rightarrow> kernel option" where
  "rt_tick_increase app k =
     do {
       let k = k\<lparr>tick := tick k + 1\<rparr>;
       t \<leftarrow> current k;
       let k = upd_thread t (\<lambda>th. th\<lparr>remaining_tick := remaining_tick th - 1\<rparr>) k;
       k \<leftarrow> (if remaining_tick (threads k t) = 0
            then rt_schedule (upd_thread t (\<lambda>th. th\<lparr>remaining_tick := slice_tick th, yield := True\<rparr>) k)
            else Some k);
       rt_timer_check app k
     }"



subsection \<open>The scheduler's invariant\<close>

text \<open>An unlisted thread may be given any state that fits the invariant.\<close>

lemma sched_set_thread:
  assumes "sched_but (insert t S) k" "unlisted k t" "thread_ok (upd_thread t f k) t"
  shows "sched_but S (upd_thread t f k)"
  using sched_but_drop [OF _ assms(3)] sched_upd_unlisted [OF assms(1,2), of f] by simp

lemma sched_timeout:
  assumes i: "sched_inv k" and r: "thread_timeout t k = Some k'"
  shows "sched_inv k'"
proof -
  let ?k = "upd_thread t (\<lambda>th. th\<lparr>error := RT_ETIMEOUT\<rparr>) k"
  have s: "suspended (threads ?k t)" and k': "rt_schedule (rt_schedule_insert_thread t (tlist_remove t ?k)) = Some k'"
    using r by (auto simp: thread_timeout_def Let_def split: if_splits)
  have "sched_inv (rt_schedule_insert_thread t (tlist_remove t ?k))"
    by (rule sched_wake [OF _ s refl]) (use i in simp_all)
  then show ?thesis using k' by (rule sched_schedule)
qed

lemma sched_suspend:
  assumes i: "sched_inv k" and r: "rt_thread_suspend_with_flag t fl k = Some (k', e)"
  shows "sched_inv k'" "current k = Some t" "e = RT_EOK \<Longrightarrow> stat (threads k' t) = TH_SUSPEND fl \<and> unlisted k' t"
    "current k' = current k" "e = RT_EOK \<or> e = RT_ERROR"
proof -
  let ?k = "rt_schedule_remove_thread t k" let ?s = "upd_thread t (\<lambda>th. th\<lparr>stat := TH_SUSPEND fl\<rparr>) ?k"
  show c: "current k = Some t" using r by (auto simp: rt_thread_suspend_with_flag_def split: if_splits)
  have "sched_inv k' \<and> (e = RT_EOK \<longrightarrow> stat (threads k' t) = TH_SUSPEND fl \<and> unlisted k' t) \<and>
    current k' = current k \<and> (e = RT_EOK \<or> e = RT_ERROR)"
  proof (cases "stat (threads k t) = TH_READY \<or> stat (threads k t) = TH_RUNNING")
    case False
    then show ?thesis using i r c by (auto simp: rt_thread_suspend_with_flag_def split: if_splits)
  next
    case True
    then obtain e2 where s: "rt_timer_stop (ThreadTimer t) ?s = Some (k', e2)" and e: "e = RT_EOK"
      using r by (auto simp: rt_thread_suspend_with_flag_def Let_def bind_eq_Some_conv split: if_splits)
    have m: "mask_ok (threads k t)" using sched_butD(5) [OF i, of t] True by (intro thread_ok_mask) (auto simp: started_def)
    note rm = sched_remove [OF i m]
    have "sched_inv ?s"
      by (rule sched_set_thread [OF rm]) (use m c in \<open>simp add: thread_ok_def mask_ok_def\<close>)
    then show ?thesis using timer_stop_frame [OF s] rm(2) c e by (simp add: unlisted_def)
  qed
  then show "sched_inv k'" "e = RT_EOK \<Longrightarrow> stat (threads k' t) = TH_SUSPEND fl \<and> unlisted k' t"
    "current k' = current k" "e = RT_EOK \<or> e = RT_ERROR" by auto
qed

lemma sched_start_thread_timer: "sched_inv k \<Longrightarrow> start_thread_timer t n k = Some k' \<Longrightarrow> sched_inv k'"
  unfolding start_thread_timer_def bind_eq_Some_conv
  by (auto dest!: sched_timer_control [where S = "{}"] intro: sched_timer_start)

lemma sched_reload [simp]:
  "sched_but S (upd_thread t (\<lambda>th. th\<lparr>remaining_tick := f th, yield := b\<rparr>) k) = sched_but S k"
  by (rule sched_upd_same) simp

lemma sched_yield:
  assumes i: "sched_inv k" and r: "rt_thread_yield k = Some k'"
  shows "sched_inv k'"
proof -
  obtain t where "rt_schedule (upd_thread t (\<lambda>th. th\<lparr>remaining_tick := slice_tick th, yield := True\<rparr>) k) = Some k'"
    using r by (auto simp: rt_thread_yield_def split: option.splits)
  from sched_schedule [OF _ this] show ?thesis using i by simp
qed

lemma sched_sleep:
  assumes i: "sched_inv k" and r: "rt_thread_sleep n k = Some (k', x)"
  shows "sched_inv k'"
proof (cases "n = 0")
  case False
  then obtain t k1 e where t: "current k = Some t"
    and s: "rt_thread_suspend_with_flag t RT_INTERRUPTIBLE (upd_thread t (\<lambda>th. th\<lparr>error := RT_EOK\<rparr>) k) = Some (k1, e)"
    and rest: "if e = RT_EOK then \<exists>k2. start_thread_timer t n k1 = Some k2 \<and>
        rt_schedule (upd_thread t (\<lambda>th. th\<lparr>error := RT_EINTR\<rparr>) k2) = Some k' else k' = k1"
    using r by (auto simp: rt_thread_sleep_def Let_def bind_eq_Some_conv split: if_splits option.splits)
  have i1: "sched_inv k1" by (rule sched_suspend(1) [OF _ s]) (use i in simp)
  show ?thesis
  proof (cases "e = RT_EOK")
    case True
    then obtain k2 where "start_thread_timer t n k1 = Some k2"
      and k': "rt_schedule (upd_thread t (\<lambda>th. th\<lparr>error := RT_EINTR\<rparr>) k2) = Some k'" using rest by auto
    then have "sched_inv k2" using sched_start_thread_timer [OF i1] by blast
    then show ?thesis using k' by (intro sched_schedule [OF _ k']) simp
  qed (use rest i1 in simp)
qed (use assms in \<open>simp add: rt_thread_sleep_def\<close>)

lemma sched_delay_until:
  assumes i: "sched_inv k" and r: "rt_thread_delay_until prev inc k = Some (k', n, x)"
  shows "sched_inv k'"
proof -
  obtain t where t: "current k = Some t" using r by (auto simp: rt_thread_delay_until_def split: option.splits)
  let ?k = "upd_thread t (\<lambda>th. th\<lparr>error := RT_EOK\<rparr>) k"
  show ?thesis
  proof (cases "tick ?k - prev < inc")
    case True
    then obtain k1 e k2 where s: "rt_thread_suspend_with_flag t RT_UNINTERRUPTIBLE ?k = Some (k1, e)"
      and s2: "start_thread_timer t (prev + inc - tick ?k) k1 = Some k2" and k': "rt_schedule k2 = Some k'"
      using r t by (auto simp: rt_thread_delay_until_def Let_def bind_eq_Some_conv split: if_splits)
    have "sched_inv k1" by (rule sched_suspend(1) [OF _ s]) (use i in simp)
    then have "sched_inv k2" using s2 by (rule sched_start_thread_timer)
    then show ?thesis using k' by (rule sched_schedule)
  next
    case False
    then show ?thesis using r t i by (auto simp: rt_thread_delay_until_def Let_def split: if_splits)
  qed
qed

text \<open>Putting an unlisted thread on a waiting or defunct list.\<close>

lemma sched_enlist:
  assumes b: "sched_but S k" and u: "unlisted k t" and q: "\<And>p. q \<noteq> Ready p" and l: "list_ok q (threads k t)"
    and k': "k' = k\<lparr>lists := (lists k)(q := ys @ t # zs)\<rparr>" and ls: "lists k q = ys @ zs"
  shows "sched_but S k'"
proof (rule sched_butI)
  have st: "set (lists k' r) = (if r = q then insert t (set (lists k r)) else set (lists k r))" for r
    using ls by (auto simp: k')
  have "t \<notin> set (ys @ zs)" using u ls by (metis unlisted_def)
  then show "distinct (lists k' r)" for r
    using sched_butD(2) [OF b, of r] ls by (auto simp: k')
  fix r
  fix v assume v: "v \<in> set (lists k' r)"
  have th: "threads k' = threads k" by (simp add: k')
  show "list_ok r (threads k' v)" using v sched_butD(3) [OF b, of v r] l unfolding st th by (auto split: if_splits)
  fix r' assume "v \<in> set (lists k' r')"
  then show "r = r'" using v sched_butD(4) [OF b, of v r r'] u by (auto simp: st unlisted_def split: if_splits)
next
  fix v assume "v \<notin> S"
  then show "thread_ok k' v" using sched_butD(5) [OF b, of v] q by (auto simp: thread_ok_def k')
qed (use sched_butD(1) [OF b] q in \<open>auto simp: k'\<close>)

lemma sched_insert_after:
  "sched_but S k \<Longrightarrow> unlisted k t \<Longrightarrow> (\<And>p. q \<noteq> Ready p) \<Longrightarrow> list_ok q (threads k t) \<Longrightarrow>
     sched_but S (tlist_insert_after q t k)"
  by (erule sched_enlist [where ys = "[]"]) (simp_all add: tlist_insert_after_def)

lemma sched_insert_before:
  "sched_but S k \<Longrightarrow> unlisted k t \<Longrightarrow> (\<And>p. q \<noteq> Ready p) \<Longrightarrow> list_ok q (threads k t) \<Longrightarrow>
     sched_but S (tlist_insert_before q t k)"
  by (erule sched_enlist [where zs = "[]"]) (simp_all add: tlist_insert_before_def)

text \<open>A started thread leaves the scheduler for the defunct list.\<close>

lemma sched_close:
  assumes i: "sched_inv k" and m: "mask_ok (threads k t)"
    and k1: "k1 = rt_schedule_remove_thread t k" and d: "rt_timer_detach tm k1 = Some k2"
  shows "sched_inv (upd_thread t (\<lambda>th. th\<lparr>stat := TH_CLOSE, yield := False\<rparr>) k2)"
    "unlisted (upd_thread t (\<lambda>th. th\<lparr>stat := TH_CLOSE, yield := False\<rparr>) k2) t"
proof -
  have k2: "threads k2 = threads k1" "lists k2 = lists k1" "current k2 = current k1" "\<And>S. sched_but S k2 = sched_but S k1"
    using d by (auto simp: rt_timer_detach_def rt_object_detach_def rt_object_remove_def split: if_splits)
  note rm = sched_remove [OF i m, folded k1]
  then show "unlisted (upd_thread t (\<lambda>th. th\<lparr>stat := TH_CLOSE, yield := False\<rparr>) k2) t" by (simp add: unlisted_def k2)
  show "sched_inv (upd_thread t (\<lambda>th. th\<lparr>stat := TH_CLOSE, yield := False\<rparr>) k2)"
    by (rule sched_set_thread) (use rm m in \<open>simp_all add: unlisted_def k2 k1 thread_ok_def started_def mask_ok_def\<close>)
qed

lemma sched_defunct_enqueue:
  "sched_but S k \<Longrightarrow> unlisted k t \<Longrightarrow> stat (threads k t) = TH_CLOSE \<Longrightarrow> sched_but S (rt_thread_defunct_enqueue t k)"
  unfolding rt_thread_defunct_enqueue_def by (rule sched_insert_after) simp_all

lemma sched_defunct_dequeue:
  "sched_inv k \<Longrightarrow> rt_thread_defunct_dequeue k = (k', r) \<Longrightarrow> sched_inv k'"
  using sched_butD(3) [of "{}" k "hd (lists k Defunct)" Defunct]
  by (auto simp: rt_thread_defunct_dequeue_def split: list.splits intro: sched_tlist_remove)

lemma sched_exit_thread:
  assumes i: "sched_inv k" and c: "current k = Some t" "stat (threads k t) = TH_RUNNING" and r: "thread_exit k = Some k'"
  shows "sched_inv k'"
proof -
  obtain k2 where d: "rt_timer_detach (ThreadTimer t) (rt_schedule_remove_thread t k) = Some k2"
    and k': "rt_schedule (rt_thread_defunct_enqueue t (upd_thread t (\<lambda>th. th\<lparr>stat := TH_CLOSE, yield := False\<rparr>) k2)) = Some k'"
    using r c by (auto simp: thread_exit_def Let_def bind_eq_Some_conv)
  have m: "mask_ok (threads k t)" using sched_butD(5) [OF i, of t] c by (intro thread_ok_mask) (auto simp: started_def)
  show ?thesis by (rule sched_schedule [OF sched_defunct_enqueue [OF sched_close [OF i m refl d]] k']) simp
qed

lemma sched_change_priority:
  assumes i: "sched_inv k" and p: "p < 32" and r: "change_priority t p k = Some k'"
  shows "sched_inv k'"
proof (cases "stat (threads k t) = TH_READY")
  case True
  have m: "mask_ok (threads k t)" using sched_butD(5) [OF i, of t] True by (intro thread_ok_mask) (auto simp: started_def)
  note rm = sched_remove [OF i m]
  have "sched_but (insert t {}) (set_priority t p (rt_schedule_remove_thread t k))"
    using sched_upd_unlisted [OF rm] unfolding set_priority_def by simp
  then have "sched_but ({t} - {t}) (rt_schedule_insert_thread t (set_priority t p (rt_schedule_remove_thread t k)))"
    by (rule sched_insert) (use rm(2) p in \<open>simp_all add: set_priority_def mask_ok_def\<close>)
  then show ?thesis using r True by (auto simp: change_priority_def split: if_splits)
next
  case False
  have "sched_inv (set_priority t p k)"
  proof (rule sched_butI)
    fix q v assume "v \<in> set (lists (set_priority t p k) q)"
    then have v: "list_ok q (threads k v)" using sched_butD(3) [OF i] by (simp add: set_priority_def)
    then show "list_ok q (threads (set_priority t p k) v)"
      using False by (cases q) (auto simp: set_priority_def)
  next
    fix v show "thread_ok (set_priority t p k) v"
      using sched_butD(5) [OF i, of v] False p by (auto simp: thread_ok_def set_priority_def started_def)
  qed (use sched_butD [OF i] in \<open>auto simp: set_priority_def\<close>)
  then show ?thesis using r False by (auto simp: change_priority_def split: if_splits)
qed


subsection \<open>Rescheduling\<close>

text \<open>What \<open>rt_schedule\<close> may do to a thread: switch it between READY and RUNNING.\<close>

definition runnable :: "rt_thread \<Rightarrow> bool" where
  "runnable th \<longleftrightarrow> stat th = TH_READY \<or> stat th = TH_RUNNING"

definition rescheduled :: "rt_thread \<Rightarrow> rt_thread \<Rightarrow> bool" where
  "rescheduled th th' \<longleftrightarrow> th' = th \<or> runnable th \<and> runnable th' \<and> (\<exists>s b. th' = th\<lparr>stat := s, yield := b\<rparr>)"

lemma rescheduled_refl [simp]: "rescheduled th th"
  by (simp add: rescheduled_def)

lemma rescheduled_upd:
  assumes "runnable th" "s = TH_READY \<or> s = TH_RUNNING"
  shows "rescheduled th (th\<lparr>stat := s\<rparr>)" "rescheduled th (th\<lparr>yield := b, stat := s\<rparr>)"
proof -
  have "th\<lparr>stat := s\<rparr> = th\<lparr>stat := s, yield := yield th\<rparr>" "th\<lparr>yield := b, stat := s\<rparr> = th\<lparr>stat := s, yield := b\<rparr>"
    by (cases th; simp)+
  moreover have "runnable (th\<lparr>stat := s\<rparr>)" "runnable (th\<lparr>yield := b, stat := s\<rparr>)"
    using assms(2) by (simp_all add: runnable_def)
  ultimately show "rescheduled th (th\<lparr>stat := s\<rparr>)" "rescheduled th (th\<lparr>yield := b, stat := s\<rparr>)"
    using assms(1) unfolding rescheduled_def by blast+
qed

lemma rt_schedule_threads:
  assumes i: "sched_inv k" and r: "rt_schedule k = Some k'"
  shows "rescheduled (threads k u) (threads k' u)"
  using i r
proof (cases rule: rt_schedule_cases)
  case (stay cur)
  then show ?thesis by (auto simp: runnable_def stays_def intro!: rescheduled_upd)
next
  case (switch cur to hp)
  have "stat (threads k to) = TH_READY"
    using highest_ready(1) [OF i switch(2,5)] sched_butD(3) [OF i, of to "Ready hp"] by auto
  then show ?thesis using switch(6)
    by (auto simp: switch(7) switch_to_def Let_def threads_insert_thread runnable_def intro!: rescheduled_upd)
qed simp

lemma rescheduledD:
  assumes "rescheduled th th'"
  shows "suspended th \<Longrightarrow> th' = th" "runnable th \<Longrightarrow> runnable th'" "error th' = error th"
    "current_priority th' = current_priority th" "suspended th' = suspended th" "init_priority th' = init_priority th"
    "pending_object th' = pending_object th" "event_set th' = event_set th"
  using assms by (auto simp: rescheduled_def runnable_def split: thread_stat.splits)

lemma rt_schedule_current: "rt_schedule k = Some k' \<Longrightarrow> current k \<noteq> None \<Longrightarrow> current k' \<noteq> None"
  by (auto simp: rt_schedule_def Let_def split: if_splits option.splits prod.splits)

text \<open>Waiting lists are not touched by the scheduler.\<close>

lemma rt_schedule_lists:
  assumes i: "sched_inv k" and r: "rt_schedule k = Some k'" and q: "\<And>p. q \<noteq> Ready p"
  shows "lists k' q = lists k q"
  using i r
proof (cases rule: rt_schedule_cases)
  case (stay cur)
  have "unlisted k cur" using running_not_listed [OF i, of cur] stay(4) by (simp add: stays_def)
  then show ?thesis by (simp add: stay(5) unlisted_def)
next
  case (switch cur to hp)
  have "to \<in> set (lists k (Ready hp))" using highest_ready(1) [OF i switch(2,5)] .
  then have "to \<notin> set (lists k q)" using sched_butD(4) [OF i, of to q "Ready hp"] q by auto
  then show ?thesis using q
    by (auto simp: switch(7) switch_to_def Let_def rt_schedule_insert_thread_def kstate)
qed simp



subsection \<open>Timeouts\<close>

lemma thread_timeout_spec:
  assumes i: "sched_inv k" and s: "suspended (threads k t)" and o: "rt_object_get_type (OThread t) k = Class_Thread"
    and c: "current k \<noteq> None"
  obtains k' where "thread_timeout t k = Some k'" "sched_inv k'" "only_sched k k'" "current k' \<noteq> None"
    "runnable (threads k' t)" "error (threads k' t) = RT_ETIMEOUT"
    "\<And>u. u \<noteq> t \<Longrightarrow> rescheduled (threads k u) (threads k' u)"
    "\<And>q. (\<And>p. q \<noteq> Ready p) \<Longrightarrow> lists k' q = removeAll t (lists k q)"
proof -
  let ?k = "upd_thread t (\<lambda>th. th\<lparr>error := RT_ETIMEOUT\<rparr>) k"
  let ?r = "rt_schedule_insert_thread t (tlist_remove t ?k)"
  obtain k' where k': "rt_schedule ?r = Some k'"
    using rt_schedule_total [of ?r] c by (auto simp: tlist_remove_def)
  have r: "thread_timeout t k = Some k'" using k' s o by (simp add: thread_timeout_def Let_def)
  have ir: "sched_inv ?r" by (rule sched_wake [of ?k]) (use i s in simp_all)
  have th: "rescheduled (threads ?r u) (threads k' u)" for u by (rule rt_schedule_threads [OF ir k'])
  have thr: "threads ?r = (threads k)(t := (threads k t)\<lparr>error := RT_ETIMEOUT, stat := (if current k = Some t then TH_RUNNING else TH_READY)\<rparr>)"
    by (simp add: threads_insert_thread tlist_remove_def)
  show thesis
  proof
    show "thread_timeout t k = Some k'" by (rule r)
    show "sched_inv k'" by (rule sched_schedule [OF ir k'])
    show "only_sched k k'" by (rule only_sched_trans [OF _ only_sched_schedule [OF k']]) (intro only_sched_steps, simp)
    show "current k' \<noteq> None" using rt_schedule_current [OF k'] c by (simp add: tlist_remove_def)
    show "runnable (threads k' t)" using rescheduledD(2) [OF th [of t]] by (simp add: thr runnable_def)
    show "error (threads k' t) = RT_ETIMEOUT" using rescheduledD(3) [OF th [of t]] by (simp add: thr)
    show "rescheduled (threads k u) (threads k' u)" if "u \<noteq> t" for u using th [of u] that by (simp add: thr)
    show "lists k' q = removeAll t (lists k q)" if "\<And>p. q \<noteq> Ready p" for q
      using rt_schedule_lists [OF ir k' that] that
      by (auto simp: rt_schedule_insert_thread_def kstate Let_def)
  qed
qed

text \<open>The hard timers are those of waiting threads.\<close>

definition wait_timer :: "kernel \<Rightarrow> timer_id \<Rightarrow> bool" where
  "wait_timer k tm \<longleftrightarrow> (\<exists>t. tm = ThreadTimer t \<and> timeout_fn (timers k tm) = Thread_Timeout \<and>
     timer_parm (timers k tm) = t \<and> \<not> periodic (timers k tm) \<and> suspended (threads k t) \<and>
     rt_object_get_type (OThread t) k = Class_Thread)"

definition wait_timers :: "kernel \<Rightarrow> bool" where
  "wait_timers k \<longleftrightarrow> distinct (timer_list k) \<and> (\<forall>tm\<in>set (timer_list k). wait_timer k tm)"

lemma firing_simps [simp]:
  "firing (timer_remove tm k) = removeAll tm (firing k)" "firing (deactivate tm k) = firing k"
  by (simp_all add: timer_remove_def deactivate_def upd_timer_def)

lemma fire_wait_timer:
  assumes i: "sched_inv k" and c: "current k \<noteq> None" and f: "firing k = []" and w: "wait_timers k"
    and l: "timer_list k = ThreadTimer t # xs"
  obtains k' where "fire_timer app (ThreadTimer t) k = Some k'" "sched_inv k'" "current k' \<noteq> None" "firing k' = []"
    "wait_timers k'" "timer_list k' = xs" "tick k' = tick k"
    "\<And>tm. tm \<noteq> ThreadTimer t \<Longrightarrow> timers k' tm = timers k tm"
    "runnable (threads k' t)" "error (threads k' t) = RT_ETIMEOUT"
    "\<And>u. u \<noteq> t \<Longrightarrow> rescheduled (threads k u) (threads k' u)"
proof -
  let ?tm = "ThreadTimer t"
  let ?k = "(deactivate ?tm (timer_remove ?tm k))\<lparr>firing := [?tm]\<rparr>"
  have wt: "timeout_fn (timers k ?tm) = Thread_Timeout" "timer_parm (timers k ?tm) = t" "\<not> periodic (timers k ?tm)"
    "suspended (threads k t)" "rt_object_get_type (OThread t) k = Class_Thread" "?tm \<notin> set xs" "distinct xs"
    using w l by (auto simp: wait_timers_def wait_timer_def)
  obtain k1 where k1: "thread_timeout t ?k = Some k1" "sched_inv k1" "only_sched ?k k1" "current k1 \<noteq> None"
    "runnable (threads k1 t)" "error (threads k1 t) = RT_ETIMEOUT"
    "\<And>u. u \<noteq> t \<Longrightarrow> rescheduled (threads ?k u) (threads k1 u)"
    by (rule thread_timeout_spec [of ?k t]) (use i c wt in \<open>auto simp: rt_object_get_type_def\<close>)
  note fr = only_schedD [OF k1(3)]
  have fs: "firing (timer_remove ?tm k1) = []" by (simp add: timer_remove_def fr)
  have r: "fire_timer app ?tm k = Some (timer_remove ?tm k1)"
    using wt(1-3) f k1(1) by (simp add: fire_timer_def Let_def fr(6,9))
  have tl: "timer_list (timer_remove ?tm k1) = xs" using l wt by (simp add: fr)
  show thesis
  proof
    show "fire_timer app ?tm k = Some (timer_remove ?tm k1)" by (rule r)
    show "wait_timers (timer_remove ?tm k1)"
      unfolding wait_timers_def tl
    proof (intro conjI ballI)
      fix tm assume tm: "tm \<in> set xs"
      then have "wait_timer k tm" "tm \<noteq> ?tm" using w l wt by (auto simp: wait_timers_def)
      then show "wait_timer (timer_remove ?tm k1) tm"
        using rescheduledD(5) [OF k1(7)] by (fastforce simp: wait_timer_def fr rt_object_get_type_def)
    qed (rule wt)
    show "firing (timer_remove ?tm k1) = []" by (rule fs)
    show "timer_list (timer_remove ?tm k1) = xs" by (rule tl)
    show "rescheduled (threads k u) (threads (timer_remove ?tm k1) u)" if "u \<noteq> t" for u using k1(7) [OF that] by simp
  qed (use k1 fr in simp_all)
qed

lemma due_head: "timer_check_loop app now k =
    (case timer_list k of [] \<Rightarrow> Some k | tm # _ \<Rightarrow>
       if due now tm k then fire_timer app tm k \<bind> (\<lambda>k. timer_check_loop app (tick k) k) else Some k)"
  by (subst timer_check_loop.simps) (simp split: list.splits)

lemma timer_check_wait:
  assumes "sched_inv k" "current k \<noteq> None" "firing k = []" "wait_timers k" "timer_list k = xs"
  shows "\<exists>k'. timer_check_loop app (tick k) k = Some k' \<and> sched_inv k' \<and> tick k' = tick k \<and>
    timer_list k' = dropWhile (\<lambda>tm. due (tick k) tm k) xs \<and>
    (\<forall>t. ThreadTimer t \<in> set (takeWhile (\<lambda>tm. due (tick k) tm k) xs) \<longrightarrow>
       runnable (threads k' t) \<and> error (threads k' t) = RT_ETIMEOUT) \<and>
    (\<forall>t. ThreadTimer t \<notin> set (takeWhile (\<lambda>tm. due (tick k) tm k) xs) \<longrightarrow>
       error (threads k' t) = error (threads k t) \<and> (runnable (threads k t) \<longrightarrow> runnable (threads k' t)))"
  using assms
proof (induction xs arbitrary: k)
  case Nil
  then show ?case by (subst due_head) simp
next
  case (Cons tm xs)
  obtain t where tm: "tm = ThreadTimer t" using Cons.prems by (auto simp: wait_timers_def wait_timer_def)
  show ?case
  proof (cases "due (tick k) tm k")
    case False
    then show ?thesis using Cons.prems by (subst due_head) simp
  next
    case True
    obtain k1 where k1: "fire_timer app (ThreadTimer t) k = Some k1" "sched_inv k1" "current k1 \<noteq> None" "firing k1 = []"
      "wait_timers k1" "timer_list k1 = xs" "tick k1 = tick k"
      "\<And>tm. tm \<noteq> ThreadTimer t \<Longrightarrow> timers k1 tm = timers k tm"
      "runnable (threads k1 t)" "error (threads k1 t) = RT_ETIMEOUT"
      "\<And>u. u \<noteq> t \<Longrightarrow> rescheduled (threads k u) (threads k1 u)"
      using fire_wait_timer [of k t xs app] Cons.prems tm by (metis (no_types))
    have ni: "tm \<notin> set xs" using Cons.prems by (auto simp: wait_timers_def)
    have d: "due (tick k1) x k1 = due (tick k) x k" if "x \<in> set xs" for x
    proof -
      have "x \<noteq> ThreadTimer t" using that ni tm by auto
      then show ?thesis using k1(8) by (simp add: due_def k1(7))
    qed
    have e: "dropWhile (\<lambda>tm. due (tick k1) tm k1) xs = dropWhile (\<lambda>tm. due (tick k) tm k) xs"
      "takeWhile (\<lambda>tm. due (tick k1) tm k1) xs = takeWhile (\<lambda>tm. due (tick k) tm k) xs"
      using d by (auto intro!: dropWhile_cong takeWhile_cong)
    have nt: "ThreadTimer t \<notin> set (takeWhile (\<lambda>tm. due (tick k) tm k) xs)"
      using ni tm by (auto dest: set_takeWhileD)
    obtain k' where k': "timer_check_loop app (tick k1) k1 = Some k'" "sched_inv k'" "tick k' = tick k1"
      "timer_list k' = dropWhile (\<lambda>tm. due (tick k) tm k) xs"
      "\<forall>t. ThreadTimer t \<in> set (takeWhile (\<lambda>tm. due (tick k) tm k) xs) \<longrightarrow>
         runnable (threads k' t) \<and> error (threads k' t) = RT_ETIMEOUT"
      "\<forall>t. ThreadTimer t \<notin> set (takeWhile (\<lambda>tm. due (tick k) tm k) xs) \<longrightarrow>
         error (threads k' t) = error (threads k1 t) \<and> (runnable (threads k1 t) \<longrightarrow> runnable (threads k' t))"
      using Cons.IH [OF k1(2-6)] unfolding e by blast
    have "timer_check_loop app (tick k) k = Some k'"
      using True Cons.prems(5) k1(1) k'(1) tm by (subst due_head) simp
    moreover have "error (threads k' u) = error (threads k u) \<and> (runnable (threads k u) \<longrightarrow> runnable (threads k' u))"
      if "ThreadTimer u \<notin> set (takeWhile (\<lambda>tm. due (tick k) tm k) (tm # xs))" for u
    proof -
      have u: "u \<noteq> t" "ThreadTimer u \<notin> set (takeWhile (\<lambda>tm. due (tick k) tm k) xs)" using that True tm by auto
      show ?thesis using k'(6) u(2) rescheduledD(2,3) [OF k1(11) [OF u(1)]] by auto
    qed
    moreover have "runnable (threads k' u) \<and> error (threads k' u) = RT_ETIMEOUT"
      if "ThreadTimer u \<in> set (takeWhile (\<lambda>tm. due (tick k) tm k) (tm # xs))" for u
      using that k'(5,6) k1(9,10) nt True tm by (cases "u = t") auto
    ultimately show ?thesis using k' True k1(7) by simp
  qed
qed



subsection \<open>Starting a thread\<close>

lemma init_unlisted: "sched_but S k \<Longrightarrow> stat (threads k t) = TH_INIT \<Longrightarrow> unlisted k t"
  unfolding unlisted_def
proof
  fix q assume "sched_but S k" "stat (threads k t) = TH_INIT"
  then show "t \<notin> set (lists k q)" using sched_butD(3) [of S k t q] by (cases q) auto
qed

lemma sched_startup:
  assumes i: "sched_inv k" and r: "rt_thread_startup t k = Some k'"
  shows "sched_inv k'"
proof -
  let ?k = "upd_thread t (\<lambda>th. th\<lparr>stat := TH_SUSPEND RT_INTERRUPTIBLE, yield := False\<rparr>)
    (upd_thread t (\<lambda>th. th\<lparr>number_mask := push_bit (current_priority th) 1\<rparr>) k)"
  obtain k1 e where s: "stat (threads k t) = TH_INIT" and k1: "rt_thread_resume t ?k = Some (k1, e)"
    and k': "(if current k1 \<noteq> None then rt_schedule k1 else Some k1) = Some k'"
    using r by (auto simp: rt_thread_startup_def Let_def bind_eq_Some_conv split: if_splits)
  have u: "unlisted k t" by (rule init_unlisted [OF i s])
  let ?m = "upd_thread t (\<lambda>th. th\<lparr>number_mask := push_bit (current_priority th) 1\<rparr>) k"
  have "sched_but (insert t {}) ?m" by (rule sched_upd_unlisted [OF i u])
  then have "sched_inv ?k"
    by (rule sched_set_thread) (use u sched_butD(5) [OF i, of t] in \<open>simp_all add: thread_ok_def\<close>)
  then have "sched_inv k1" using k1 by (rule sched_resume)
  then show ?thesis using k' by (auto split: if_splits intro: sched_schedule)
qed

lemma sched_thread_init:
  assumes i: "sched_inv k" and u: "unlisted k t" and c: "current k \<noteq> Some t" and r: "thread_init t prio ticks k = Some k'"
  shows "sched_inv k'"
proof -
  let ?f = "\<lambda>_. \<lparr>stat = TH_INIT, yield = False, error = RT_EOK, init_priority = prio,
                 current_priority = prio, number_mask = 0, pending_object = None, event_set = 0, event_info = 0,
                 slice_tick = ticks, remaining_tick = ticks\<rparr>"
  let ?k = "(upd_thread t ?f k)\<lparr>taken := (taken (upd_thread t ?f k))(t := [])\<rparr>"
  obtain k1 nm where k1: "rt_object_init (OTimer (ThreadTimer t)) Class_Timer nm ?k = Some k1" and p: "prio < 32"
    and k': "k' = timer_init (ThreadTimer t) Thread_Timeout t 0 False False k1"
    using r by (auto simp: thread_init_def rt_timer_init_def Let_def bind_eq_Some_conv split: if_splits)
  have "sched_inv (upd_thread t ?f k)"
    by (rule sched_set_thread [of t "{}"]) (use i u c p in \<open>auto simp: thread_ok_def started_def elim: sched_but_mono\<close>)
  then have "sched_inv k1" by (intro sched_object_init [OF _ k1]) simp
  then show ?thesis by (simp add: k')
qed


subsection \<open>Ticks and milliseconds\<close>

lemma tick_from_ms:
  assumes "0 \<le> sint ms"
  shows "uint (rt_tick_from_millisecond ms) = (sint ms * 100 + 999) div 1000"
proof -
  have b: "sint ms < 2 ^ 31" using sint_lt [of ms] by simp
  have "100 * (sint ms div 1000) + (100 * (sint ms mod 1000) + 999) div 1000 = (sint ms * 100 + 999) div 1000"
  proof -
    have "sint ms * 100 + 999 = (100 * (sint ms mod 1000) + 999) + 100 * (sint ms div 1000) * 1000"
      using div_mult_mod_eq [of "sint ms" 1000] by linarith
    then show ?thesis by simp
  qed
  moreover have "0 \<le> (sint ms * 100 + 999) div 1000" "(sint ms * 100 + 999) div 1000 < 2 ^ 32" using assms b by auto
  moreover have "rt_tick_from_millisecond ms =
      of_int (100 * (sint ms div 1000) + (100 * (sint ms mod 1000) + 999) div 1000)"
    using assms by (simp only: rt_tick_from_millisecond_def RT_TICK_PER_SECOND_def of_int_add) simp
  ultimately show ?thesis by (simp only: uint_word_of_int_eq) (simp add: take_bit_int_eq_self)
qed


subsection \<open>Properties\<close>

text \<open>
  C13: When the hard timers are the timers of waiting threads, \<open>rt_timer_check\<close> terminates; it takes
  exactly the leading timers that are due off the list, every thread of such a timer becomes runnable
  with the error \<open>-RT_ETIMEOUT\<close>, no other thread's error changes and no runnable thread is stopped.
\<close>
theorem timer_check_wakes:
  assumes "sched_inv k" "current k \<noteq> None" "wait_timers k"
  shows "\<exists>k'. rt_timer_check app k = Some k' \<and> sched_inv k' \<and>
    timer_list k' = dropWhile (\<lambda>tm. due (tick k) tm k) (timer_list k) \<and>
    (\<forall>t. ThreadTimer t \<in> set (takeWhile (\<lambda>tm. due (tick k) tm k) (timer_list k)) \<longrightarrow>
       runnable (threads k' t) \<and> error (threads k' t) = RT_ETIMEOUT) \<and>
    (\<forall>t. ThreadTimer t \<notin> set (takeWhile (\<lambda>tm. due (tick k) tm k) (timer_list k)) \<longrightarrow>
       error (threads k' t) = error (threads k t) \<and> (runnable (threads k t) \<longrightarrow> runnable (threads k' t)))"
proof -
  have "wait_timers (k\<lparr>firing := []\<rparr>)"
    using assms(3) by (simp add: wait_timers_def wait_timer_def rt_object_get_type_def)
  from timer_check_wait [OF _ _ _ this refl, of app] show ?thesis
    using assms(1,2) by (simp add: rt_timer_check_def due_def) blast
qed

text \<open>The threads that share the processor by yielding: \<open>a\<close> runs, \<open>b\<close> is first in the queue.\<close>

definition yielding :: "kernel \<Rightarrow> tid \<Rightarrow> tid \<Rightarrow> tid list \<Rightarrow> nat \<Rightarrow> bool" where
  "yielding k a b rest p \<longleftrightarrow> sched_inv k \<and> lock_nest k = 0 \<and> current k = Some a \<and> stat (threads k a) = TH_RUNNING \<and>
     current_priority (threads k a) = p \<and> lists k (Ready p) = b # rest \<and> (\<forall>q. q < p \<longrightarrow> lists k (Ready q) = [])"

lemma yielding_step:
  assumes y: "yielding k a b rest p"
  shows "\<exists>k'. rt_thread_yield k = Some k' \<and> yielding k' b a rest p"
proof -
  note y' = y [unfolded yielding_def]
  let ?k = "upd_thread a (\<lambda>th. th\<lparr>remaining_tick := slice_tick th, yield := True\<rparr>) k"
  have i: "sched_inv ?k" using y' by simp
  have g: "ready_group ?k \<noteq> 0"
  proof
    assume "ready_group ?k = 0"
    then have "lists k (Ready p) = []" using sched_butD(1) [OF i, of p] by simp
    then show False using y' by simp
  qed
  obtain to hp where h: "get_highest_priority_thread ?k = (to, hp)" by fastforce
  note hr = highest_ready [OF i g h]
  have "hp = p" using hr(1) hr(3) [of p] y' by (cases hp p rule: linorder_cases) auto
  then have to: "hp = p" "to = b" using hr(4) y' by simp_all
  have bl: "b \<in> set (lists k (Ready p))" using y' by simp
  have ul: "unlisted k a" using running_not_listed [of "{}" k a] y' by blast
  have ne: "b \<noteq> a" using ul bl unfolding unlisted_def by blast
  have bp: "current_priority (threads k b) = p" using sched_butD(3) [of "{}" k b "Ready p"] y' bl by simp
  have d: "distinct (b # rest)" using sched_butD(2) [of "{}" k "Ready p"] y' by simp
  have na: "a \<notin> set rest" using ul y' by (metis unlisted_def list.set_intros(2))
  have r: "rt_thread_yield k = Some (switch_to a b p ?k)"
    using y' g h to ne by (auto simp: rt_thread_yield_def rt_schedule_def switch_to_def Let_def)
  let ?s = "switch_to a b p ?k"
  have si: "sched_inv ?s" by (rule sched_switch_to [OF i g _ h [unfolded to] ne]) (use y' in simp)
  have li: "lists ?s (Ready q) = (if q = p then a # rest else removeAll b (lists k (Ready q)))" for q
    using y' d ne na by (auto simp: switch_to_def Let_def rt_schedule_insert_thread_def kstate)
  have "current ?s = Some b" "stat (threads ?s b) = TH_RUNNING" "current_priority (threads ?s b) = p"
    using switch_to_run [of b a p ?k] ne bp by simp_all
  moreover have "lock_nest ?s = 0" using y' by (simp add: switch_to_def Let_def)
  ultimately have "yielding ?s b a rest p" using si li y' by (auto simp: yielding_def)
  then show ?thesis using r by blast
qed

text \<open>
  Round-robin by \<open>rt_thread_yield\<close> does not reach a third thread: the scheduler clears the yield
  bit before it requeues the yielding thread, which is therefore put at the front of its queue.  With
  two threads yielding to each other at the highest ready priority, after any number of yields one of
  these two runs, and the other threads waiting at that priority are still in the queue in the same
  order.
\<close>
theorem yield_starves_third:
  assumes "yielding k a b rest p"
  shows "\<exists>k'. ((\<lambda>r. r \<bind> rt_thread_yield) ^^ n) (Some k) = Some k' \<and>
    (yielding k' a b rest p \<or> yielding k' b a rest p)"
proof (induction n)
  case 0
  then show ?case using assms by simp
next
  case (Suc n)
  then obtain k1 where k1: "((\<lambda>r. r \<bind> rt_thread_yield) ^^ n) (Some k) = Some k1"
    "yielding k1 a b rest p \<or> yielding k1 b a rest p" by blast
  then obtain k' where "rt_thread_yield k1 = Some k'" "yielding k' a b rest p \<or> yielding k' b a rest p"
    using yielding_step [of k1 a b rest p] yielding_step [of k1 b a rest p] by blast
  then show ?case using k1(1) by simp
qed


lemma demo_yielding: "yielding (add_ready 4 5 demo_kernel) 1 4 [2] 5"
proof -
  have l: "lists demo_kernel q = (case q of Ready p \<Rightarrow> if p = 5 then [2] else if p = 7 then [3] else [] | _ \<Rightarrow> [])" for q
    by (auto simp: demo_eval demo_ffs split: qid.splits)
  have p: "current_priority (threads demo_kernel 1) = 5" by (simp add: demo_eval demo_ffs)
  have "unlisted demo_kernel 4" by (auto simp: unlisted_def l split: qid.splits if_splits)
  then have i: "sched_inv (add_ready 4 5 demo_kernel)" by (intro sched_add_ready demo_kernel) simp_all
  show ?thesis using i demo_kernel p
    by (auto simp: yielding_def add_ready_def rt_schedule_insert_thread_def kstate prio_thread_def thread0_def Let_def l)
qed

theorem yield_starves_third_witness:
  "\<exists>k'. ((\<lambda>r. r \<bind> rt_thread_yield) ^^ 7) (Some (add_ready 4 5 demo_kernel)) = Some k' \<and>
    (yielding k' 1 4 [2] 5 \<or> yielding k' 4 1 [2] 5)"
  by (rule yield_starves_third [OF demo_yielding])

text \<open>A waiting thread whose timer is due, for the witness of the timer check.\<close>

definition demo_wait :: kernel where
  "demo_wait = (upd_thread 4 (\<lambda>_. (prio_thread 6)\<lparr>stat := TH_SUSPEND RT_UNINTERRUPTIBLE\<rparr>) demo_kernel)
     \<lparr>objects := (\<lambda>_. \<lparr>obj_type = Class_Thread, obj_static = True, obj_name = []\<rparr>),
      timer_list := [ThreadTimer 4],
      timers := (timers demo_kernel)(ThreadTimer 4 := \<lparr>activated = True, periodic = False, soft = False,
        timeout_fn = Thread_Timeout, timer_parm = 4, init_tick = 0, timeout_tick = 0\<rparr>)\<rparr>"

lemma demo_wait:
  "sched_inv demo_wait" "current demo_wait \<noteq> None" "wait_timers demo_wait" "timer_list demo_wait = [ThreadTimer 4]"
  "due (tick demo_wait) (ThreadTimer 4) demo_wait"
proof -
  have l: "lists demo_kernel q = (case q of Ready p \<Rightarrow> if p = 5 then [2] else if p = 7 then [3] else [] | _ \<Rightarrow> [])" for q
    by (auto simp: demo_eval demo_ffs split: qid.splits)
  have u: "unlisted demo_kernel 4" by (auto simp: unlisted_def l split: qid.splits if_splits)
  have "sched_inv (upd_thread 4 (\<lambda>_. (prio_thread 6)\<lparr>stat := TH_SUSPEND RT_UNINTERRUPTIBLE\<rparr>) demo_kernel)"
    by (rule sched_set_thread [OF sched_but_mono [OF demo_kernel(1)] u])
      (auto simp: thread_ok_def prio_thread_def thread0_def demo_kernel)
  then show "sched_inv demo_wait" by (simp add: demo_wait_def)
  show "current demo_wait \<noteq> None" by (simp add: demo_wait_def demo_kernel)
  show "wait_timers demo_wait" by (simp add: wait_timers_def wait_timer_def demo_wait_def rt_object_get_type_def)
  show "timer_list demo_wait = [ThreadTimer 4]" by (simp add: demo_wait_def)
  show "due (tick demo_wait) (ThreadTimer 4) demo_wait"
    by (simp add: due_def demo_wait_def RT_TICK_MAX2_def demo_eval demo_ffs)
qed

theorem timer_check_wakes_witness:
  "\<exists>k'. rt_timer_check (\<lambda>_ _ _. None) demo_wait = Some k' \<and> timer_list k' = [] \<and>
     runnable (threads k' 4) \<and> error (threads k' 4) = RT_ETIMEOUT"
  using timer_check_wakes [OF demo_wait(1-3), of "\<lambda>_ _ _. None"] demo_wait(4,5) by auto

end
