(* ===== verification/KIpc.thy ===== *)
theory KIpc
  imports KThread
begin

text \<open>
  The part of \<open>src/ipc.c\<close> that every IPC object shares: suspending the current thread on a waiting
  list, in arrival or priority order, and waking the first or all of its threads.
\<close>

subsection \<open>The code\<close>

primrec prio_insert :: "(tid \<Rightarrow> nat) \<Rightarrow> tid \<Rightarrow> tid list \<Rightarrow> tid list" where
  "prio_insert pr t [] = [t]"
| "prio_insert pr t (s # ss) = (if pr t < pr s then t # s # ss else s # prio_insert pr t ss)"

definition ipc_list_insert :: "qid \<Rightarrow> tid \<Rightarrow> ipc_flag \<Rightarrow> kernel \<Rightarrow> kernel" where
  "ipc_list_insert q t flag k =
     (case flag of
        RT_IPC_FLAG_FIFO \<Rightarrow> tlist_insert_before q t k
      | RT_IPC_FLAG_PRIO \<Rightarrow>
          k\<lparr>lists := (lists k)(q := prio_insert (\<lambda>u. current_priority (threads k u)) t (lists k q))\<rparr>)"

definition ipc_list_suspend :: "qid \<Rightarrow> tid \<Rightarrow> ipc_flag \<Rightarrow> suspend_flag \<Rightarrow> kernel \<Rightarrow> (kernel \<times> err) option" where
  "ipc_list_suspend q t flag sflag k =
     do {
       (k, ret) \<leftarrow> (if \<not> suspended (threads k t) then rt_thread_suspend_with_flag t sflag k else Some (k, RT_EOK));
       Some (if ret \<noteq> RT_EOK then (k, ret) else (ipc_list_insert q t flag k, RT_EOK))
     }"

definition ipc_list_resume :: "qid \<Rightarrow> kernel \<Rightarrow> kernel option" where
  "ipc_list_resume q k =
     do {
       let t = hd (lists k q);
       let k = upd_thread t (\<lambda>th. th\<lparr>error := RT_EOK\<rparr>) k;
       (k, _) \<leftarrow> rt_thread_resume t k;
       Some k
     }"

partial_function (option) ipc_list_resume_all :: "qid \<Rightarrow> kernel \<Rightarrow> kernel option" where
  "ipc_list_resume_all q k =
     (case lists k q of
        [] \<Rightarrow> Some k
      | t # _ \<Rightarrow> do {
          let k = upd_thread t (\<lambda>th. th\<lparr>error := RT_ERROR\<rparr>) k;
          (k, _) \<leftarrow> rt_thread_resume t k;
          ipc_list_resume_all q k
        })"


text \<open>\<open>_ipc_object_init\<close>: an empty list of waiting threads.\<close>

definition ipc_object_init :: "oid \<Rightarrow> kernel \<Rightarrow> kernel" where
  "ipc_object_init x k = k\<lparr>lists := (lists k)(Wait x := [])\<rparr>"

text \<open>A timed or unlimited wait of the current thread on a list, up to the point where it gives up the
  processor; \<open>sint timeout\<close> is positive for a timed wait.\<close>

definition ipc_wait :: "qid \<Rightarrow> tid \<Rightarrow> ipc_flag \<Rightarrow> suspend_flag \<Rightarrow> cint \<Rightarrow> kernel \<Rightarrow> (kernel \<times> err outcome) option" where
  "ipc_wait q t flag sflag timeout k =
     do {
       (k, ret) \<leftarrow> ipc_list_suspend q t flag sflag k;
       if ret \<noteq> RT_EOK then Some (k, Ret ret)
       else do {
         k \<leftarrow> (if sint timeout > 0 then start_thread_timer t timeout k else Some k);
         k \<leftarrow> rt_schedule k;
         Some (k, Blocked)
       }
     }"

datatype ipc_cmd = RT_IPC_CMD_RESET u32 | RT_IPC_CMD_OTHER nat

text \<open>Waking a thread of the other side after the ring has changed.\<close>

definition wake_other :: "qid \<Rightarrow> 'a \<Rightarrow> kernel \<Rightarrow> (kernel \<times> 'a outcome) option" where
  "wake_other q r k =
     (if \<not> rt_list_isempty q k then do { k \<leftarrow> ipc_list_resume q k; k \<leftarrow> rt_schedule k; Some (k, Ret r) }
      else Some (k, Ret r))"

text \<open>The time left of a timed wait that began at tick \<open>start\<close>.\<close>

definition time_left :: "cint \<Rightarrow> u32 \<Rightarrow> kernel \<Rightarrow> cint" where
  "time_left timeout start k =
     (if sint timeout > 0 then
        let timeout = timeout - (tick k - start) in if sint timeout < 0 then 0 else timeout
      else timeout)"

text \<open>A receive returns the error code and, on success, the value stored through the caller's pointer.\<close>

fun failed :: "kernel \<times> err outcome \<Rightarrow> kernel \<times> (err \<times> 'v option) outcome" where
  "failed (k, Ret e) = (k, Ret (e, None))"
| "failed (k, Blocked) = (k, Blocked)"

subsection \<open>The order of a waiting list\<close>

lemma set_prio_insert [simp]: "set (prio_insert pr t xs) = insert t (set xs)"
  by (induction xs) auto

lemma prio_insert_split: "\<exists>ys zs. prio_insert pr t xs = ys @ t # zs \<and> xs = ys @ zs \<and>
    (\<forall>y\<in>set ys. pr y \<le> pr t)"
proof (induction xs)
  case (Cons s ss)
  then obtain ys zs where "prio_insert pr t ss = ys @ t # zs" "ss = ys @ zs" "\<forall>y\<in>set ys. pr y \<le> pr t" by auto
  then show ?case
    by (cases "pr t < pr s") (auto intro: exI [of _ "[]"] exI [of _ "s # ys"])
qed simp

lemma prio_insert_sorted:
  "sorted_wrt (\<lambda>a b. pr a \<le> pr b) xs \<Longrightarrow> sorted_wrt (\<lambda>a b. pr a \<le> pr b) (prio_insert pr t xs)"
  by (induction xs) (auto simp: not_less intro: order_trans)


subsection \<open>Suspending and waking\<close>

lemma sched_ipc_insert:
  assumes b: "sched_inv k" and u: "unlisted k t" and s: "suspended (threads k t)" and q: "q = Wait x \<or> q = WaitSend x"
  shows "sched_inv (ipc_list_insert q t flag k)"
proof -
  have l: "list_ok q (threads k t)" using s q by auto
  obtain ys zs where p: "prio_insert (\<lambda>u. current_priority (threads k u)) t (lists k q) = ys @ t # zs" "lists k q = ys @ zs"
    using prio_insert_split by blast
  have "sched_inv (k\<lparr>lists := (lists k)(q := ys @ t # zs)\<rparr>)"
    by (rule sched_enlist [OF b u _ l refl p(2)]) (use q in auto)
  moreover have "sched_inv (tlist_insert_before q t k)" by (rule sched_insert_before [OF b u _ l]) (use q in auto)
  ultimately show ?thesis by (simp add: ipc_list_insert_def p(1) split: ipc_flag.splits)
qed

text \<open>A started thread and its built-in timer are registered objects.\<close>

definition registered :: "kernel \<Rightarrow> tid \<Rightarrow> bool" where
  "registered k t \<longleftrightarrow> rt_object_get_type (OThread t) k = Class_Thread \<and>
     rt_object_get_type (OTimer (ThreadTimer t)) k = Class_Timer"

lemma registered_cong: "objects k' = objects k \<Longrightarrow> registered k' t = registered k t"
  by (simp add: registered_def rt_object_get_type_def)

lemma upd_thread_objects [simp]:
  "objects (upd_thread t f k) = objects k" "containers (upd_thread t f k) = containers k" "sems (upd_thread t f k) = sems k"
  "mutexes (upd_thread t f k) = mutexes k" "events (upd_thread t f k) = events k" "mailboxes (upd_thread t f k) = mailboxes k"
  "mqs (upd_thread t f k) = mqs k" "taken (upd_thread t f k) = taken k" "tick (upd_thread t f k) = tick k"
  "timers (upd_thread t f k) = timers k"
  by (simp_all add: upd_thread_def)

text \<open>Suspending, waking and timing out change threads, lists and timers, and no IPC object.\<close>

definition only_core :: "kernel \<Rightarrow> kernel \<Rightarrow> bool" where
  "only_core k k' \<longleftrightarrow> k' = k\<lparr>threads := threads k', lists := lists k', ready_group := ready_group k',
     current := current k', running_priority := running_priority k', timers := timers k', timer_list := timer_list k',
     soft_timer_list := soft_timer_list k', firing := firing k', soft_firing := soft_firing k'\<rparr>"

lemma only_coreD:
  assumes "only_core k k'"
  shows "objects k' = objects k"
    "containers k' = containers k"
    "lock_nest k' = lock_nest k"
    "interrupt_nest k' = interrupt_nest k"
    "tick k' = tick k"
    "soft_timer_busy k' = soft_timer_busy k"
    "timer_thread k' = timer_thread k"
    "taken k' = taken k"
    "sems k' = sems k"
    "mutexes k' = mutexes k"
    "events k' = events k"
    "mailboxes k' = mailboxes k"
    "mqs k' = mqs k"
  using assms by (cases k; cases k'; simp add: only_core_def)+

lemma only_core_trans: "only_core k k' \<Longrightarrow> only_core k' k'' \<Longrightarrow> only_core k k''"
  by (cases k; cases k'; cases k''; simp add: only_core_def)

lemma only_core_refl [simp]: "only_core k k"
  by (simp add: only_core_def)

lemma only_sched_core: "only_sched k k' \<Longrightarrow> only_core k k'"
  by (cases k; cases k'; simp add: only_sched_def only_core_def)

lemma only_core_intros [simp]:
  "only_core k (upd_timer tm f k)" "only_core k (timer_remove tm k)" "only_core k (deactivate tm k)"
  "only_core k (timer_enqueue tm k)" "only_core k (ipc_list_insert q t flag k)"
  by (simp_all add: only_core_def upd_timer_def timer_remove_def deactivate_def timer_enqueue_def ipc_list_insert_def
      tlist_insert_before_def Let_def split: ipc_flag.splits)

lemmas only_core_sched = only_sched_intros [THEN only_sched_core]

lemma only_core_steps:
  assumes "only_core k k1"
  shows "only_core k (upd_timer tm f k1)" "only_core k (timer_remove tm k1)" "only_core k (deactivate tm k1)"
    "only_core k (timer_enqueue tm k1)" "only_core k (ipc_list_insert q t flag k1)" "only_core k (upd_thread t g k1)"
    "only_core k (tlist_remove t k1)" "only_core k (rt_schedule_insert_thread t k1)" "only_core k (rt_schedule_remove_thread t k1)"
  by (rule only_core_trans [OF assms]; simp add: only_sched_core)+

lemma only_core_stop: "rt_timer_stop tm k = Some (k', e) \<Longrightarrow> only_core k k'"
  by (auto simp: rt_timer_stop_def split: if_splits intro!: only_core_steps)

lemma only_core_schedule: "rt_schedule k = Some k' \<Longrightarrow> only_core k k'"
  by (rule only_sched_core [OF only_sched_schedule])

lemma only_core_resume: "rt_thread_resume t k = Some (k', e) \<Longrightarrow> only_core k k'"
  by (auto simp: rt_thread_resume_def Let_def bind_eq_Some_conv split: if_splits
      intro!: only_core_steps dest!: only_core_stop intro: only_core_trans [OF only_sched_core, OF only_sched_intros(3)])

lemma only_core_suspend: "rt_thread_suspend_with_flag t fl k = Some (k', e) \<Longrightarrow> only_core k k'"
  by (auto simp: rt_thread_suspend_with_flag_def Let_def bind_eq_Some_conv split: if_splits
      dest!: only_core_stop intro: only_core_trans [rotated] intro!: only_core_steps)

lemma only_core_timer_start: "rt_timer_start tm k = Some k' \<Longrightarrow> only_core k k'"
  by (auto simp: rt_timer_start_def Let_def bind_eq_Some_conv split: if_splits
      dest!: only_core_resume only_core_schedule intro: only_core_trans [rotated] intro!: only_core_steps)

lemma only_core_control: "rt_timer_control tm cmd k = Some (k', r) \<Longrightarrow> only_core k k'"
  by (auto simp: rt_timer_control_def split: if_splits timer_cmd.splits)

lemma only_core_start_timer: "start_thread_timer t n k = Some k' \<Longrightarrow> only_core k k'"
  by (auto simp: start_thread_timer_def bind_eq_Some_conv dest!: only_core_timer_start only_core_control intro: only_core_trans)


fun is_ready :: "qid \<Rightarrow> bool" where
  "is_ready (Ready _) = True"
| "is_ready _ = False"

lemma not_is_ready: "\<not> is_ready q \<Longrightarrow> q \<noteq> Ready p"
  by auto

lemma suspend_threads:
  assumes "rt_thread_suspend_with_flag t fl k = Some (k', e)"
  shows "u \<noteq> t \<Longrightarrow> threads k' u = threads k u"
    "e = RT_EOK \<Longrightarrow> threads k' t = (threads k t)\<lparr>stat := TH_SUSPEND fl\<rparr>"
    "e = RT_EOK \<Longrightarrow> lists k' q = removeAll t (lists k q)"
    "e \<noteq> RT_EOK \<Longrightarrow> k' = k"
proof -
  consider "k' = k" "e = RT_ERROR" | e2 where "e = RT_EOK" "rt_timer_stop (ThreadTimer t)
      (upd_thread t (\<lambda>th. th\<lparr>stat := TH_SUSPEND fl\<rparr>) (rt_schedule_remove_thread t k)) = Some (k', e2)"
    using assms by (auto simp: rt_thread_suspend_with_flag_def Let_def bind_eq_Some_conv split: if_splits)
  then show "u \<noteq> t \<Longrightarrow> threads k' u = threads k u"
    "e = RT_EOK \<Longrightarrow> threads k' t = (threads k t)\<lparr>stat := TH_SUSPEND fl\<rparr>"
    "e = RT_EOK \<Longrightarrow> lists k' q = removeAll t (lists k q)" "e \<noteq> RT_EOK \<Longrightarrow> k' = k"
    by (cases; auto simp: timer_stop_frame(1,2))+
qed

lemma resume_spec:
  assumes i: "sched_inv k" and s: "suspended (threads k t)" and g: "registered k t"
  obtains k' where "rt_thread_resume t k = Some (k', RT_EOK)" "sched_inv k'" "only_core k k'" "current k' = current k"
    "threads k' = (threads k)(t := (threads k t)\<lparr>stat := (if current k = Some t then TH_RUNNING else TH_READY)\<rparr>)"
    "\<And>q. \<not> is_ready q \<Longrightarrow> lists k' q = removeAll t (lists k q)"
proof -
  have "rt_object_get_type (OTimer (ThreadTimer t)) (tlist_remove t k) = Class_Timer"
    using g by (simp add: registered_def rt_object_get_type_def tlist_remove_def)
  then obtain k1 e where k1: "rt_timer_stop (ThreadTimer t) (tlist_remove t k) = Some (k1, e)"
    using that by (cases "activated (timers (tlist_remove t k) (ThreadTimer t))") (auto simp: rt_timer_stop_def)
  note f = timer_stop_frame [OF k1]
  have r: "rt_thread_resume t k = Some (rt_schedule_insert_thread t k1, RT_EOK)"
    using g s k1 by (auto simp: rt_thread_resume_def registered_def split: thread_stat.splits)
  show thesis
  proof
    show "rt_thread_resume t k = Some (rt_schedule_insert_thread t k1, RT_EOK)" by (rule r)
    show "sched_inv (rt_schedule_insert_thread t k1)" by (rule sched_resume [OF i r])
    show "only_core k (rt_schedule_insert_thread t k1)" by (rule only_core_resume [OF r])
    show "lists (rt_schedule_insert_thread t k1) q = removeAll t (lists k q)" if "\<not> is_ready q" for q
      using not_is_ready [OF that] by (simp add: rt_schedule_insert_thread_def kstate Let_def f(2))
  qed (use f in \<open>simp_all add: threads_insert_thread tlist_remove_def\<close>)
qed

text \<open>Setting and starting the timer of a suspended thread leaves threads and lists as they are.\<close>

lemma start_timer_spec:
  assumes "registered k t" "n < RT_TICK_MAX2" "\<not> soft (timers k (ThreadTimer t))"
  obtains k' where "start_thread_timer t n k = Some k'" "threads k' = threads k" "lists k' = lists k"
    "current k' = current k" "ready_group k' = ready_group k" "only_core k k'"
    "\<And>S. sched_but S k' = sched_but S k"
    "ThreadTimer t \<in> set (timer_list k')" "remaining k' (ThreadTimer t) = n" "activated (timers k' (ThreadTimer t))"
proof -
  let ?k = "upd_timer (ThreadTimer t) (\<lambda>tm. tm\<lparr>init_tick := n\<rparr>) k"
  let ?tm = "ThreadTimer t"
  let ?k1 = "upd_timer ?tm (\<lambda>t. t\<lparr>timeout_tick := tick k + init_tick t\<rparr>) (deactivate ?tm (timer_remove ?tm ?k))"
  let ?k' = "upd_timer ?tm (\<lambda>t. t\<lparr>activated := True\<rparr>) (timer_enqueue ?tm ?k1)"
  have r: "start_thread_timer t n k = Some ?k'"
    using assms by (simp add: start_thread_timer_def rt_timer_control_def rt_timer_start_def registered_def
        rt_object_get_type_def Let_def)
  have rg: "ready_group ?k' = ready_group k"
    by (simp add: upd_timer_def timer_enqueue_def deactivate_def timer_remove_def Let_def)
  show thesis
    by (rule that [OF r]) (use assms rg in \<open>simp_all add: remaining_def only_core_start_timer [OF r]\<close>)
qed

lemma ipc_resume_spec:
  assumes i: "sched_inv k" and q: "q = Wait x \<or> q = WaitSend x" and l: "lists k q = t # rest" and g: "registered k t"
  obtains k' where "ipc_list_resume q k = Some k'" "sched_inv k'" "only_core k k'" "current k' = current k"
    "threads k' = (threads k)(t := (threads k t)\<lparr>error := RT_EOK, stat := (if current k = Some t then TH_RUNNING else TH_READY)\<rparr>)"
    "lists k' q = rest" "\<And>q'. \<not> is_ready q' \<Longrightarrow> q' \<noteq> q \<Longrightarrow> lists k' q' = lists k q'"
proof -
  let ?k = "upd_thread t (\<lambda>th. th\<lparr>error := RT_EOK\<rparr>) k"
  have s: "suspended (threads ?k t)" using sched_butD(3) [OF i, of t q] q l by auto
  have d: "t \<notin> set rest" using sched_butD(2) [OF i, of q] l by simp
  have o: "t \<notin> set (lists k q')" if "q' \<noteq> q" for q'
    using sched_butD(4) [OF i, of t q q'] l that by auto
  have iu: "sched_inv ?k" using i by simp
  have gu: "registered ?k t" using g by (simp add: registered_def rt_object_get_type_def upd_thread_def)
  obtain k' where k': "rt_thread_resume t ?k = Some (k', RT_EOK)" "sched_inv k'" "only_core ?k k'" "current k' = current ?k"
    "threads k' = (threads ?k)(t := (threads ?k t)\<lparr>stat := (if current ?k = Some t then TH_RUNNING else TH_READY)\<rparr>)"
    "\<And>q. \<not> is_ready q \<Longrightarrow> lists k' q = removeAll t (lists ?k q)"
    by (rule resume_spec [OF iu s gu]) (rule that)
  show thesis
  proof
    show "ipc_list_resume q k = Some k'" using k'(1) l by (simp add: ipc_list_resume_def)
    show "only_core k k'" by (rule only_core_trans [OF only_core_steps(6) [OF only_core_refl] k'(3)])
    show "lists k' q = rest" using k'(6) [of q] q l d by auto
    show "lists k' q' = lists k q'" if "\<not> is_ready q'" "q' \<noteq> q" for q'
      using k'(6) [of q'] that o by simp
  qed (use k' in simp_all)
qed

text \<open>\<open>_ipc_list_resume_all\<close> terminates and empties the list: every thread on it becomes runnable
  with the error \<open>-RT_ERROR\<close>.\<close>

lemma resume_all_unfold: "ipc_list_resume_all q k =
    (case lists k q of [] \<Rightarrow> Some k | t # _ \<Rightarrow>
       rt_thread_resume t (upd_thread t (\<lambda>th. th\<lparr>error := RT_ERROR\<rparr>) k) \<bind> (\<lambda>(k, _). ipc_list_resume_all q k))"
  by (subst ipc_list_resume_all.simps) (simp split: list.splits)

lemma resume_all_spec:
  assumes "sched_inv k" "q = Wait x \<or> q = WaitSend x" "lists k q = xs" "\<And>t. t \<in> set xs \<Longrightarrow> registered k t"
  shows "\<exists>k'. ipc_list_resume_all q k = Some k' \<and> sched_inv k' \<and> only_core k k' \<and> current k' = current k \<and> lists k' q = [] \<and>
    (\<forall>q'. \<not> is_ready q' \<longrightarrow> q' \<noteq> q \<longrightarrow> lists k' q' = lists k q') \<and>
    (\<forall>t\<in>set xs. runnable (threads k' t) \<and> error (threads k' t) = RT_ERROR) \<and>
    (\<forall>t. t \<notin> set xs \<longrightarrow> threads k' t = threads k t)"
  using assms
proof (induction xs arbitrary: k)
  case Nil
  then show ?case by (subst resume_all_unfold) simp
next
  case (Cons t xs)
  let ?k = "upd_thread t (\<lambda>th. th\<lparr>error := RT_ERROR\<rparr>) k"
  have d: "t \<notin> set xs" using sched_butD(2) [OF Cons.prems(1), of q] Cons.prems(3) by simp
  have o: "t \<notin> set (lists k q')" if "q' \<noteq> q" for q'
    using sched_butD(4) [OF Cons.prems(1), of t q q'] Cons.prems(3) that by auto
  have s: "suspended (threads ?k t)" using sched_butD(3) [OF Cons.prems(1), of t q] Cons.prems(2,3) by auto
  have iu: "sched_inv ?k" using Cons.prems(1) by simp
  have gu: "registered ?k t" using Cons.prems(4) by (simp add: registered_def rt_object_get_type_def upd_thread_def)
  obtain k1 where k1: "rt_thread_resume t ?k = Some (k1, RT_EOK)" "sched_inv k1" "only_core ?k k1" "current k1 = current ?k"
    "threads k1 = (threads ?k)(t := (threads ?k t)\<lparr>stat := (if current ?k = Some t then TH_RUNNING else TH_READY)\<rparr>)"
    "\<And>q. \<not> is_ready q \<Longrightarrow> lists k1 q = removeAll t (lists ?k q)"
    by (rule resume_spec [OF iu s gu]) (rule that)
  have l1: "lists k1 q = xs" using k1(6) [of q] Cons.prems(2,3) d by auto
  have c1: "only_core k k1" by (rule only_core_trans [OF only_core_steps(6) [OF only_core_refl] k1(3)])
  have "\<And>u. u \<in> set xs \<Longrightarrow> registered k1 u" using Cons.prems(4) registered_cong [OF only_coreD(1) [OF c1]] by simp
  from Cons.IH [OF k1(2) Cons.prems(2) l1 this] obtain k' where k': "ipc_list_resume_all q k1 = Some k'" "sched_inv k'"
    "only_core k1 k'" "current k' = current k1" "lists k' q = []"
    "\<forall>q'. \<not> is_ready q' \<longrightarrow> q' \<noteq> q \<longrightarrow> lists k' q' = lists k1 q'"
    "\<forall>t\<in>set xs. runnable (threads k' t) \<and> error (threads k' t) = RT_ERROR"
    "\<forall>t. t \<notin> set xs \<longrightarrow> threads k' t = threads k1 t" by blast
  have "ipc_list_resume_all q k = Some k'" using k1(1) k'(1) Cons.prems(3) by (subst resume_all_unfold) simp
  moreover have "runnable (threads k' t) \<and> error (threads k' t) = RT_ERROR" using k'(8) d k1(5) by (simp add: runnable_def)
  moreover have "lists k' q' = lists k q'" if "\<not> is_ready q'" "q' \<noteq> q" for q'
    using k'(6) k1(6) [of q'] that o by simp
  ultimately show ?case using k' k1(4,5) only_core_trans [OF c1 k'(3)] by auto
qed


subsection \<open>The calling thread\<close>

text \<open>The state in which a thread \<open>t\<close> may call a blocking operation: it runs, with the scheduler
  unlocked and outside an interrupt.  A timed wait is shorter than half the range of ticks.\<close>

definition in_thread :: "kernel \<Rightarrow> tid \<Rightarrow> bool" where
  "in_thread k t \<longleftrightarrow> sched_inv k \<and> current k = Some t \<and> stat (threads k t) = TH_RUNNING \<and> registered k t \<and>
     \<not> soft (timers k (ThreadTimer t)) \<and> lock_nest k = 0 \<and> interrupt_nest k = 0"

definition wait_time :: "cint \<Rightarrow> bool" where
  "wait_time timeout \<longleftrightarrow> (sint timeout > 0 \<longrightarrow> timeout < RT_TICK_MAX2)"

definition waiters_ok :: "kernel \<Rightarrow> qid \<Rightarrow> bool" where
  "waiters_ok k q \<longleftrightarrow> (\<forall>t\<in>set (lists k q). registered k t)"

definition enqueue_waiter :: "kernel \<Rightarrow> ipc_flag \<Rightarrow> tid \<Rightarrow> tid list \<Rightarrow> tid list" where
  "enqueue_waiter k flag t ts = (case flag of RT_IPC_FLAG_FIFO \<Rightarrow> ts @ [t]
     | RT_IPC_FLAG_PRIO \<Rightarrow> prio_insert (\<lambda>u. current_priority (threads k u)) t ts)"

lemma set_enqueue_waiter [simp]: "set (enqueue_waiter k flag t ts) = insert t (set ts)"
  using prio_insert_split [of "\<lambda>u. current_priority (threads k u)" t ts] by (auto simp: enqueue_waiter_def split: ipc_flag.splits)

lemma in_thread_available [simp]: "in_thread k t \<Longrightarrow> scheduler_available b k = Some ()"
  by (simp add: in_thread_def scheduler_available_def rt_critical_level_def in_thread_context_def not_in_interrupt_def rt_assert_def)

lemma in_thread_error [simp]: "in_thread (upd_thread t (\<lambda>th. th\<lparr>error := e\<rparr>) k) u = in_thread k u"
  by (cases "u = t") (simp_all add: in_thread_def upd_thread_def registered_def rt_object_get_type_def sched_upd_same [unfolded upd_thread_def])

text \<open>The running thread suspends itself.\<close>

lemma suspend_self_spec:
  assumes it: "in_thread k t"
  obtains k' where "rt_thread_suspend_with_flag t sflag k = Some (k', RT_EOK)" "sched_inv k'" "only_core k k'" "current k' = Some t"
    "threads k' = (threads k)(t := (threads k t)\<lparr>stat := TH_SUSPEND sflag\<rparr>)" "lists k' = lists k" "unlisted k' t"
    "\<And>tm. soft (timers k' tm) = soft (timers k tm)"
proof -
  have i: "sched_inv k" and c: "current k = Some t" "stat (threads k t) = TH_RUNNING" and g: "registered k t"
    using it by (simp_all add: in_thread_def)
  have ul: "t \<notin> set (lists k r)" for r using running_not_listed [OF i c(2)] by (simp add: unlisted_def)
  have "\<exists>k1. rt_thread_suspend_with_flag t sflag k = Some (k1, RT_EOK)"
  proof -
    have "rt_object_get_type (OTimer (ThreadTimer t))
        (upd_thread t (\<lambda>th. th\<lparr>stat := TH_SUSPEND sflag\<rparr>) (rt_schedule_remove_thread t k)) = Class_Timer" (is "rt_object_get_type _ ?k = _")
      using g by (simp add: registered_def rt_object_get_type_def upd_thread_def rt_schedule_remove_thread_def Let_def kstate)
    then have "\<exists>k1 e. rt_timer_stop (ThreadTimer t) ?k = Some (k1, e)" by (simp add: rt_timer_stop_def)
    then show ?thesis using g c by (auto simp: rt_thread_suspend_with_flag_def registered_def)
  qed
  then obtain k1 where k1: "rt_thread_suspend_with_flag t sflag k = Some (k1, RT_EOK)" ..
  note s1 = sched_suspend [OF i k1] and t1 = suspend_threads [OF k1]
  show thesis
  proof (rule that [OF k1 s1(1) only_core_suspend [OF k1]])
    show "current k1 = Some t" "unlisted k1 t" using s1 c by simp_all
    show "threads k1 = (threads k)(t := (threads k t)\<lparr>stat := TH_SUSPEND sflag\<rparr>)" using t1(1,2) by auto
    show "lists k1 = lists k" using t1(3) ul by auto
    show "soft (timers k1 tm) = soft (timers k tm)" for tm
      using k1 by (auto simp: rt_thread_suspend_with_flag_def Let_def bind_eq_Some_conv rt_timer_stop_def
          rt_schedule_remove_thread_def kstate timer_remove_def deactivate_def split: if_splits)
  qed
qed

text \<open>The running thread suspends itself on a list.\<close>

lemma suspend_on_spec:
  assumes it: "in_thread k t" and q: "q = Wait x \<or> q = WaitSend x"
  obtains k' where "ipc_list_suspend q t flag sflag k = Some (k', RT_EOK)" "sched_inv k'" "only_core k k'" "current k' = Some t"
    "threads k' = (threads k)(t := (threads k t)\<lparr>stat := TH_SUSPEND sflag\<rparr>)"
    "lists k' = (lists k)(q := enqueue_waiter k flag t (lists k q))" "\<And>tm. soft (timers k' tm) = soft (timers k tm)"
proof -
  have c: "stat (threads k t) = TH_RUNNING" using it by (simp add: in_thread_def)
  obtain k1 where k1: "rt_thread_suspend_with_flag t sflag k = Some (k1, RT_EOK)" "sched_inv k1" "only_core k k1" "current k1 = Some t"
    "threads k1 = (threads k)(t := (threads k t)\<lparr>stat := TH_SUSPEND sflag\<rparr>)" "lists k1 = lists k" "unlisted k1 t"
    "\<And>tm. soft (timers k1 tm) = soft (timers k tm)"
    by (rule suspend_self_spec [OF it, where sflag = sflag]) (rule that)
  let ?k2 = "ipc_list_insert q t flag k1"
  have p: "(\<lambda>u. current_priority (threads k1 u)) = (\<lambda>u. current_priority (threads k u))" by (auto simp: k1(5))
  show thesis
  proof
    show "ipc_list_suspend q t flag sflag k = Some (?k2, RT_EOK)" using c k1(1) by (simp add: ipc_list_suspend_def)
    show "sched_inv ?k2" by (rule sched_ipc_insert [OF k1(2,7)]) (use k1(5) q in auto)
    show "only_core k ?k2" by (rule only_core_steps(5) [OF k1(3)])
    show "current ?k2 = Some t" "threads ?k2 = (threads k)(t := (threads k t)\<lparr>stat := TH_SUSPEND sflag\<rparr>)"
      "lists ?k2 = (lists k)(q := enqueue_waiter k flag t (lists k q))" "soft (timers ?k2 tm) = soft (timers k tm)" for tm
      using k1(4,5,6,8) p by (simp_all add: ipc_list_insert_def tlist_insert_before_def enqueue_waiter_def split: ipc_flag.splits)
  qed
qed

text \<open>It then sets its timer for a timed wait and gives up the processor.\<close>

lemma wait_finish_spec:
  assumes i: "sched_inv k" and c: "current k \<noteq> None" and g: "registered k t" and so: "\<not> soft (timers k (ThreadTimer t))"
    and wt: "wait_time timeout"
  obtains k3 k' where "(if sint timeout > 0 then start_thread_timer t timeout k else Some k) = Some k3" "rt_schedule k3 = Some k'"
    "sched_inv k'" "only_core k k'" "\<And>u. rescheduled (threads k u) (threads k' u)" "\<And>q'. \<not> is_ready q' \<Longrightarrow> lists k' q' = lists k q'"
    "sint timeout > 0 \<Longrightarrow> ThreadTimer t \<in> set (timer_list k') \<and> remaining k' (ThreadTimer t) = timeout" "current k' \<noteq> None"
proof -
  obtain k3 where k3: "(if sint timeout > 0 then start_thread_timer t timeout k else Some k) = Some k3"
    "threads k3 = threads k" "lists k3 = lists k" "current k3 = current k" "sched_inv k3" "only_core k k3"
    "sint timeout > 0 \<Longrightarrow> ThreadTimer t \<in> set (timer_list k3) \<and> remaining k3 (ThreadTimer t) = timeout"
  proof (cases "sint timeout > 0")
    case True
    show ?thesis
      by (rule start_timer_spec [OF g, of timeout]) (use True wt so i that in \<open>auto simp: wait_time_def\<close>)
  next
    case False
    then show ?thesis using that i by simp
  qed
  obtain k4 where k4: "rt_schedule k3 = Some k4" using rt_schedule_total [of k3] k3(4) c by auto
  note fr4 = only_schedD [OF only_sched_schedule [OF k4]]
  show thesis
  proof (rule that [OF k3(1) k4 sched_schedule [OF k3(5) k4]])
    show "only_core k k4" by (rule only_core_trans [OF k3(6) only_core_schedule [OF k4]])
    show "rescheduled (threads k u) (threads k4 u)" for u using rt_schedule_threads [OF k3(5) k4, of u] by (simp add: k3(2))
    show "lists k4 q' = lists k q'" if "\<not> is_ready q'" for q'
      using rt_schedule_lists [OF k3(5) k4 not_is_ready [OF that]] k3(3) by simp
    show "sint timeout > 0 \<Longrightarrow> ThreadTimer t \<in> set (timer_list k4) \<and> remaining k4 (ThreadTimer t) = timeout"
      using k3(7) by (simp add: remaining_def fr4)
    show "current k4 \<noteq> None" using rt_schedule_current [OF k4] k3(4) c by simp
  qed
qed

text \<open>What a wait leaves behind: the caller is suspended on the list in its place, with the timer set
  for a timed wait, and the scheduler has run.\<close>

lemma ipc_wait_spec:
  assumes it: "in_thread k t" and q: "q = Wait x \<or> q = WaitSend x" and wt: "wait_time timeout"
  obtains k' where "ipc_wait q t flag sflag timeout k = Some (k', Blocked)" "sched_inv k'" "only_core k k'"
    "threads k' t = (threads k t)\<lparr>stat := TH_SUSPEND sflag\<rparr>"
    "lists k' q = enqueue_waiter k flag t (lists k q)"
    "\<And>u. u \<noteq> t \<Longrightarrow> rescheduled (threads k u) (threads k' u)"
    "\<And>q'. \<not> is_ready q' \<Longrightarrow> q' \<noteq> q \<Longrightarrow> lists k' q' = lists k q'"
    "sint timeout > 0 \<Longrightarrow> ThreadTimer t \<in> set (timer_list k') \<and> remaining k' (ThreadTimer t) = timeout"
    "current k' \<noteq> None"
proof -
  obtain k1 where k1: "ipc_list_suspend q t flag sflag k = Some (k1, RT_EOK)" "sched_inv k1" "only_core k k1" "current k1 = Some t"
    "threads k1 = (threads k)(t := (threads k t)\<lparr>stat := TH_SUSPEND sflag\<rparr>)"
    "lists k1 = (lists k)(q := enqueue_waiter k flag t (lists k q))" "\<And>tm. soft (timers k1 tm) = soft (timers k tm)"
    by (rule suspend_on_spec [OF it q, where flag = flag and sflag = sflag]) (rule that)
  have h: "current k1 \<noteq> None" "registered k1 t" "\<not> soft (timers k1 (ThreadTimer t))"
    using it k1(4,7) registered_cong [OF only_coreD(1) [OF k1(3)]] by (simp_all add: in_thread_def)
  obtain k3 k' where k': "(if sint timeout > 0 then start_thread_timer t timeout k1 else Some k1) = Some k3" "rt_schedule k3 = Some k'"
    "sched_inv k'" "only_core k1 k'" "\<And>u. rescheduled (threads k1 u) (threads k' u)" "\<And>q'. \<not> is_ready q' \<Longrightarrow> lists k' q' = lists k1 q'"
    "sint timeout > 0 \<Longrightarrow> ThreadTimer t \<in> set (timer_list k') \<and> remaining k' (ThreadTimer t) = timeout" "current k' \<noteq> None"
    by (rule wait_finish_spec [OF k1(2) h wt]) (rule that)
  show thesis
  proof (rule that [of k'])
    show "ipc_wait q t flag sflag timeout k = Some (k', Blocked)" using k1(1) k'(1,2) by (simp add: ipc_wait_def)
    show "only_core k k'" by (rule only_core_trans [OF k1(3) k'(4)])
    show "threads k' t = (threads k t)\<lparr>stat := TH_SUSPEND sflag\<rparr>" using rescheduledD(1) [OF k'(5) [of t]] by (simp add: k1(5))
    show "lists k' q = enqueue_waiter k flag t (lists k q)" using k'(6) [of q] q by (auto simp: k1(6))
    show "rescheduled (threads k u) (threads k' u)" if "u \<noteq> t" for u using k'(5) [of u] that by (simp add: k1(5))
    show "lists k' q' = lists k q'" if "\<not> is_ready q'" "q' \<noteq> q" for q' using k'(6) [OF that(1)] that(2) by (simp add: k1(6))
  qed (use k' in simp_all)
qed

text \<open>Waking the first waiter and rescheduling.\<close>

lemma wake_first_spec:
  assumes i: "sched_inv k" and c: "current k \<noteq> None" and q: "q = Wait x \<or> q = WaitSend x"
    and l: "lists k q = t # rest" and w: "waiters_ok k q"
  obtains k1 k' where "ipc_list_resume q k = Some k1" "rt_schedule k1 = Some k'" "sched_inv k1" "sched_inv k'" "only_core k k1" "only_core k k'"
    "current k1 = current k"
    "threads k1 = (threads k)(t := (threads k t)\<lparr>error := RT_EOK, stat := (if current k = Some t then TH_RUNNING else TH_READY)\<rparr>)"
    "runnable (threads k' t)" "error (threads k' t) = RT_EOK" "lists k1 q = rest" "lists k' q = rest"
    "\<And>u. u \<noteq> t \<Longrightarrow> rescheduled (threads k u) (threads k' u)"
    "\<And>q'. \<not> is_ready q' \<Longrightarrow> q' \<noteq> q \<Longrightarrow> lists k1 q' = lists k q'"
    "\<And>q'. \<not> is_ready q' \<Longrightarrow> q' \<noteq> q \<Longrightarrow> lists k' q' = lists k q'"
proof -
  have g: "registered k t" using w l by (simp add: waiters_ok_def)
  obtain k1 where k1: "ipc_list_resume q k = Some k1" "sched_inv k1" "only_core k k1" "current k1 = current k"
    "threads k1 = (threads k)(t := (threads k t)\<lparr>error := RT_EOK, stat := (if current k = Some t then TH_RUNNING else TH_READY)\<rparr>)"
    "lists k1 q = rest" "\<And>q'. \<not> is_ready q' \<Longrightarrow> q' \<noteq> q \<Longrightarrow> lists k1 q' = lists k q'"
    by (rule ipc_resume_spec [OF i q l g]) (rule that)
  obtain k2 where k2: "rt_schedule k1 = Some k2" using rt_schedule_total [of k1] k1(4) c by auto
  have rs: "rescheduled (threads k1 u) (threads k2 u)" for u by (rule rt_schedule_threads [OF k1(2) k2])
  have rt: "runnable (threads k1 t)" "error (threads k1 t) = RT_EOK" by (simp_all add: k1(5) runnable_def)
  have nq: "q \<noteq> Ready p" for p using q by auto
  show thesis
  proof (rule that [OF k1(1) k2])
    show "sched_inv k2" by (rule sched_schedule [OF k1(2) k2])
    show "only_core k k2" by (rule only_core_trans [OF k1(3) only_core_schedule [OF k2]])
    show "runnable (threads k2 t)" "error (threads k2 t) = RT_EOK" using rescheduledD(2,3) [OF rs [of t]] rt by simp_all
    show "lists k2 q = rest" using rt_schedule_lists [OF k1(2) k2 nq] k1(6) by simp
    show "rescheduled (threads k u) (threads k2 u)" if "u \<noteq> t" for u using rs [of u] k1(5) that by simp
    show "lists k2 q' = lists k q'" if "\<not> is_ready q'" "q' \<noteq> q" for q'
      using rt_schedule_lists [OF k1(2) k2 not_is_ready [OF that(1)]] k1(7) [OF that] by simp
  qed (use k1 in simp_all)
qed

text \<open>Operations that add no thread to a waiting list.\<close>

definition shrinks :: "kernel \<Rightarrow> kernel \<Rightarrow> bool" where
  "shrinks k k' \<longleftrightarrow> (\<forall>q. \<not> is_ready q \<longrightarrow> q \<noteq> Defunct \<longrightarrow> set (lists k' q) \<subseteq> set (lists k q))"

lemma shrinks_refl [simp]: "shrinks k k"
  by (simp add: shrinks_def)

lemma shrinks_trans: "shrinks k k' \<Longrightarrow> shrinks k' k'' \<Longrightarrow> shrinks k k''"
  by (fastforce simp: shrinks_def)

lemma shrinks_lists: "(\<And>q. \<not> is_ready q \<Longrightarrow> lists k' q = removeAll t (lists k q)) \<Longrightarrow> shrinks k k'"
  by (auto simp: shrinks_def)

lemma shrinks_cong: "lists k' = lists k \<Longrightarrow> shrinks k k'"
  by (simp add: shrinks_def)

lemma shrinks_schedule: "sched_inv k \<Longrightarrow> rt_schedule k = Some k' \<Longrightarrow> shrinks k k'"
  using rt_schedule_lists [of k k'] not_is_ready by (metis shrinks_def order_refl)

lemma shrinks_insert_thread [simp]: "shrinks k (rt_schedule_insert_thread t k)"
  by (auto simp: shrinks_def rt_schedule_insert_thread_def kstate Let_def)

lemma shrinks_remove [simp]: "shrinks k (tlist_remove t k)"
  by (auto simp: shrinks_def tlist_remove_def)

lemma shrinks_suspend:
  assumes "rt_thread_suspend_with_flag t fl k = Some (k', e)"
  shows "shrinks k k'"
proof (cases "e = RT_EOK")
  case True
  then show ?thesis using suspend_threads(3) [OF assms] by (auto simp: shrinks_def)
next
  case False
  then show ?thesis using suspend_threads(4) [OF assms] by simp
qed

lemma shrinks_resume:
  assumes "rt_thread_resume t k = Some (k', e)"
  shows "shrinks k k'"
proof -
  consider "k' = k" | k1 e1 where "rt_timer_stop (ThreadTimer t) (tlist_remove t k) = Some (k1, e1)" "k' = rt_schedule_insert_thread t k1"
    using assms by (auto simp: rt_thread_resume_def Let_def bind_eq_Some_conv split: if_splits)
  then show ?thesis
  proof cases
    case 2
    then have "shrinks (tlist_remove t k) k1" using timer_stop_frame(2) [OF 2(1)] by (intro shrinks_cong)
    then show ?thesis unfolding 2(2) by (rule shrinks_trans [OF shrinks_trans [OF shrinks_remove] shrinks_insert_thread])
  qed simp
qed

lemma shrinks_timer_start:
  assumes i: "sched_inv k" and r: "rt_timer_start tm k = Some k'"
  shows "shrinks k k'"
proof -
  let ?k1 = "upd_timer tm (\<lambda>t. t\<lparr>timeout_tick := tick k + init_tick t\<rparr>) (deactivate tm (timer_remove tm k))"
  let ?k = "upd_timer tm (\<lambda>t. t\<lparr>activated := True\<rparr>) (timer_enqueue tm ?k1)"
  have i1: "sched_inv ?k" using i by simp
  have s1: "shrinks k ?k" by (rule shrinks_cong) simp
  consider "k' = ?k" | k2 e where "rt_thread_resume (timer_thread ?k) ?k = Some (k2, e)" "rt_schedule k2 = Some k'"
    using r by (auto simp: rt_timer_start_def Let_def bind_eq_Some_conv split: if_splits)
  then show ?thesis
  proof cases
    case 2
    show ?thesis
      by (rule shrinks_trans [OF s1 shrinks_trans [OF shrinks_resume [OF 2(1)] shrinks_schedule [OF sched_resume [OF i1 2(1)] 2(2)]]])
  qed (use s1 in simp)
qed

lemma shrinks_start_timer:
  assumes i: "sched_inv k" and r: "start_thread_timer t n k = Some k'"
  shows "shrinks k k'"
proof -
  obtain k1 x where k1: "rt_timer_control (ThreadTimer t) (CTRL_SET_TIME n) k = Some (k1, x)" "rt_timer_start (ThreadTimer t) k1 = Some k'"
    using r by (auto simp: start_thread_timer_def bind_eq_Some_conv)
  have "lists k1 = lists k" using k1(1) by (auto simp: rt_timer_control_def split: if_splits)
  then have "shrinks k k1" by (rule shrinks_cong)
  moreover have "sched_inv k1" using sched_timer_control [OF k1(1), of "{}"] i by simp
  ultimately show ?thesis using shrinks_timer_start [OF _ k1(2)] shrinks_trans by blast
qed

lemma shrinks_timeout:
  assumes i: "sched_inv k" and r: "thread_timeout t k = Some k'"
  shows "shrinks k k'"
proof -
  let ?k = "upd_thread t (\<lambda>th. th\<lparr>error := RT_ETIMEOUT\<rparr>) k"
  have s: "suspended (threads ?k t)" and k': "rt_schedule (rt_schedule_insert_thread t (tlist_remove t ?k)) = Some k'"
    using r by (auto simp: thread_timeout_def Let_def split: if_splits)
  have "sched_inv (rt_schedule_insert_thread t (tlist_remove t ?k))"
    by (rule sched_wake [OF _ s refl]) (use i in simp_all)
  note this [THEN shrinks_schedule, OF k']
  moreover have "shrinks k ?k" by (rule shrinks_cong) simp
  ultimately show ?thesis by (meson shrinks_trans shrinks_remove shrinks_insert_thread)
qed

lemma shrinks_yield:
  assumes i: "sched_inv k" and r: "rt_thread_yield k = Some k'"
  shows "shrinks k k'"
proof -
  obtain t where t: "rt_schedule (upd_thread t (\<lambda>th. th\<lparr>remaining_tick := slice_tick th, yield := True\<rparr>) k) = Some k'"
    using r by (auto simp: rt_thread_yield_def split: option.splits)
  from shrinks_schedule [OF _ t] i show ?thesis by (simp add: shrinks_def)
qed

lemma shrinks_sleep:
  assumes i: "sched_inv k" and r: "rt_thread_sleep n k = Some (k', x)"
  shows "shrinks k k'"
proof (cases "n = 0")
  case True
  then show ?thesis using r by (simp add: rt_thread_sleep_def)
next
  case False
  then obtain t k1 e where t: "current k = Some t"
    and s: "rt_thread_suspend_with_flag t RT_INTERRUPTIBLE (upd_thread t (\<lambda>th. th\<lparr>error := RT_EOK\<rparr>) k) = Some (k1, e)"
    and c: "if e = RT_EOK then \<exists>k2. start_thread_timer t n k1 = Some k2 \<and>
        rt_schedule (upd_thread t (\<lambda>th. th\<lparr>error := RT_EINTR\<rparr>) k2) = Some k' else k' = k1"
    using r by (auto simp: rt_thread_sleep_def bind_eq_Some_conv Let_def split: option.splits if_splits)
  have i1: "sched_inv k1" by (rule sched_suspend(1) [OF _ s]) (use i in simp)
  have s1: "shrinks k k1" using shrinks_suspend [OF s] by (simp add: shrinks_def)
  show ?thesis
  proof (cases "e = RT_EOK")
    case True
    then obtain k2 where k2: "start_thread_timer t n k1 = Some k2"
      "rt_schedule (upd_thread t (\<lambda>th. th\<lparr>error := RT_EINTR\<rparr>) k2) = Some k'" using c by auto
    have "sched_inv (upd_thread t (\<lambda>th. th\<lparr>error := RT_EINTR\<rparr>) k2)" using sched_start_thread_timer [OF i1 k2(1)] by simp
    from shrinks_schedule [OF this k2(2)] have "shrinks k2 k'" by (simp add: shrinks_def)
    then show ?thesis by (rule shrinks_trans [OF s1 shrinks_trans [OF shrinks_start_timer [OF i1 k2(1)]]])
  qed (use c s1 in simp)
qed

lemmas only_core_timed = only_core_trans [OF only_core_steps(6) [OF only_core_refl]]

lemma only_core_timeout: "thread_timeout t k = Some k' \<Longrightarrow> only_core k k'"
  by (auto simp: thread_timeout_def Let_def split: if_splits dest!: only_core_schedule intro!: only_core_steps
      intro: only_core_trans [rotated])

lemma only_core_yield: "rt_thread_yield k = Some k' \<Longrightarrow> only_core k k'"
  by (auto simp: rt_thread_yield_def split: option.splits dest!: only_core_schedule intro: only_core_timed)

lemma only_core_sleep:
  assumes "rt_thread_sleep n k = Some (k', x)"
  shows "only_core k k'"
proof (cases "n = 0")
  case True
  then show ?thesis using assms by (simp add: rt_thread_sleep_def)
next
  case False
  then obtain t k1 e
    where s: "rt_thread_suspend_with_flag t RT_INTERRUPTIBLE (upd_thread t (\<lambda>th. th\<lparr>error := RT_EOK\<rparr>) k) = Some (k1, e)"
    and c: "if e = RT_EOK then \<exists>k2. start_thread_timer t n k1 = Some k2 \<and>
        rt_schedule (upd_thread t (\<lambda>th. th\<lparr>error := RT_EINTR\<rparr>) k2) = Some k' else k' = k1"
    using assms by (auto simp: rt_thread_sleep_def bind_eq_Some_conv Let_def split: option.splits if_splits)
  note s1 = only_core_timed [OF only_core_suspend [OF s]]
  show ?thesis
    using c s1 by (auto split: if_splits dest!: only_core_schedule only_core_start_timer intro: only_core_timed only_core_trans)
qed

lemma wake_other_spec:
  assumes i: "sched_inv k" and c: "current k \<noteq> None" and q: "q = Wait x \<or> q = WaitSend x" and w: "waiters_ok k q"
  obtains k' where "wake_other q r k = Some (k', Ret r)" "sched_inv k'" "current k' \<noteq> None" "only_core k k'"
    "lists k' q = tl (lists k q)" "\<And>q'. \<not> is_ready q' \<Longrightarrow> q' \<noteq> q \<Longrightarrow> lists k' q' = lists k q'"
    "lists k q \<noteq> [] \<Longrightarrow> runnable (threads k' (hd (lists k q))) \<and> error (threads k' (hd (lists k q))) = RT_EOK"
proof (cases "lists k q")
  case Nil
  then show thesis using that [of k] i c by (simp add: wake_other_def rt_list_isempty_def)
next
  case (Cons t rest)
  obtain k1 k' where k': "ipc_list_resume q k = Some k1" "rt_schedule k1 = Some k'" "sched_inv k1" "sched_inv k'" "only_core k k1" "only_core k k'"
    "current k1 = current k"
    "threads k1 = (threads k)(t := (threads k t)\<lparr>error := RT_EOK, stat := (if current k = Some t then TH_RUNNING else TH_READY)\<rparr>)"
    "runnable (threads k' t)" "error (threads k' t) = RT_EOK" "lists k1 q = rest" "lists k' q = rest"
    "\<And>u. u \<noteq> t \<Longrightarrow> rescheduled (threads k u) (threads k' u)"
    "\<And>q'. \<not> is_ready q' \<Longrightarrow> q' \<noteq> q \<Longrightarrow> lists k1 q' = lists k q'"
    "\<And>q'. \<not> is_ready q' \<Longrightarrow> q' \<noteq> q \<Longrightarrow> lists k' q' = lists k q'"
    by (rule wake_first_spec [OF i c q Cons w]) (rule that)
  have "wake_other q r k = Some (k', Ret r)" using Cons k'(1,2) by (simp add: wake_other_def rt_list_isempty_def)
  then show thesis
    by (rule that) (use k' Cons c rt_schedule_current [OF k'(2)] in simp_all)
qed

lemma set_tl: "set (tl xs) \<subseteq> set xs"
  by (cases xs) auto

lemma enqueue_waiter_error: "enqueue_waiter (upd_thread t (\<lambda>th. th\<lparr>error := e\<rparr>) k) = enqueue_waiter k"
proof -
  have "(\<lambda>u. current_priority (threads (upd_thread t (\<lambda>th. th\<lparr>error := e\<rparr>) k) u)) = (\<lambda>u. current_priority (threads k u))" by auto
  then show ?thesis unfolding enqueue_waiter_def by presburger
qed

text \<open>An object with waiting receivers and waiting senders: all registered.\<close>

definition endpoints_ok :: "oid \<Rightarrow> kernel \<Rightarrow> bool" where
  "endpoints_ok x k \<longleftrightarrow> sched_inv k \<and> current k \<noteq> None \<and> waiters_ok k (Wait x) \<and> waiters_ok k (WaitSend x)"

lemma endpoints_wake:
  assumes e: "endpoints_ok x k" and q: "q = Wait x \<or> q = WaitSend x"
  obtains k' where "wake_other q r k = Some (k', Ret r)" "endpoints_ok x k'" "only_core k k'"
    "lists k' q = tl (lists k q)" "\<And>q'. \<not> is_ready q' \<Longrightarrow> q' \<noteq> q \<Longrightarrow> lists k' q' = lists k q'"
    "lists k q \<noteq> [] \<Longrightarrow> runnable (threads k' (hd (lists k q))) \<and> error (threads k' (hd (lists k q))) = RT_EOK"
proof -
  have h: "sched_inv k" "current k \<noteq> None" "waiters_ok k q" using e q by (auto simp: endpoints_ok_def)
  obtain k' where k': "wake_other q r k = Some (k', Ret r)" "sched_inv k'" "current k' \<noteq> None" "only_core k k'"
    "lists k' q = tl (lists k q)" "\<And>q'. \<not> is_ready q' \<Longrightarrow> q' \<noteq> q \<Longrightarrow> lists k' q' = lists k q'"
    "lists k q \<noteq> [] \<Longrightarrow> runnable (threads k' (hd (lists k q))) \<and> error (threads k' (hd (lists k q))) = RT_EOK"
    by (rule wake_other_spec [OF h(1,2) q h(3), where r = r]) (rule that)
  have s: "set (lists k' p) \<subseteq> set (lists k p)" if "p = Wait x \<or> p = WaitSend x" for p
    using k'(5) k'(6) [of p] that set_tl [of "lists k q"] by (cases "p = q") auto
  have "waiters_ok k' p" if "p = Wait x \<or> p = WaitSend x" for p
    using s [OF that] e that registered_cong [OF only_coreD(1) [OF k'(4)]] by (auto simp: endpoints_ok_def waiters_ok_def)
  then have "endpoints_ok x k'" using k'(2,3) by (simp add: endpoints_ok_def)
  then show thesis by (rule that [OF k'(1)]) (use k' in simp_all)
qed

lemma endpoints_wait:
  assumes e: "endpoints_ok x k" and it: "in_thread k t" and wt: "wait_time timeout" and q: "q = Wait x \<or> q = WaitSend x"
  obtains k' where "ipc_wait q t flag fl timeout (upd_thread t (\<lambda>th. th\<lparr>error := RT_EINTR\<rparr>) k) = Some (k', Blocked)" "endpoints_ok x k'"
    "only_core k k'" "lists k' q = enqueue_waiter k flag t (lists k q)"
    "\<And>q'. \<not> is_ready q' \<Longrightarrow> q' \<noteq> q \<Longrightarrow> lists k' q' = lists k q'" "stat (threads k' t) = TH_SUSPEND fl"
    "sint timeout > 0 \<Longrightarrow> ThreadTimer t \<in> set (timer_list k') \<and> remaining k' (ThreadTimer t) = timeout"
proof -
  let ?k = "upd_thread t (\<lambda>th. th\<lparr>error := RT_EINTR\<rparr>) k"
  have it': "in_thread ?k t" using it by simp
  obtain k' where k': "ipc_wait q t flag fl timeout ?k = Some (k', Blocked)" "sched_inv k'" "only_core ?k k'"
    "threads k' t = (threads ?k t)\<lparr>stat := TH_SUSPEND fl\<rparr>"
    "lists k' q = enqueue_waiter ?k flag t (lists ?k q)"
    "\<And>u. u \<noteq> t \<Longrightarrow> rescheduled (threads ?k u) (threads k' u)"
    "\<And>q'. \<not> is_ready q' \<Longrightarrow> q' \<noteq> q \<Longrightarrow> lists k' q' = lists ?k q'"
    "sint timeout > 0 \<Longrightarrow> ThreadTimer t \<in> set (timer_list k') \<and> remaining k' (ThreadTimer t) = timeout"
    "current k' \<noteq> None"
    by (rule ipc_wait_spec [OF it' q wt, where flag = flag and sflag = fl]) (rule that)
  have oc: "only_core k k'" by (rule only_core_timed [OF k'(3)])
  have l: "lists k' q = enqueue_waiter k flag t (lists k q)"
    using k'(5) by (simp add: enqueue_waiter_error)
  have lo: "lists k' q' = lists k q'" if "\<not> is_ready q'" "q' \<noteq> q" for q' using k'(7) [OF that] by simp
  have "set (lists k' p) \<subseteq> insert t (set (lists k p))" if "p = Wait x \<or> p = WaitSend x" for p
    using l lo [of p] that by (cases "p = q") auto
  moreover have "registered k t" using it by (simp add: in_thread_def)
  ultimately have w: "waiters_ok k' p" if "p = Wait x \<or> p = WaitSend x" for p
    using e that registered_cong [OF only_coreD(1) [OF oc]] by (fastforce simp: endpoints_ok_def waiters_ok_def)
  then have "endpoints_ok x k'" using k'(2,9) by (simp add: endpoints_ok_def)
  then show thesis using that [OF k'(1) _ oc l lo] k'(4,8) by simp
qed

text \<open>A kernel with one running and two ready threads in which every object is registered.\<close>

fun class_of :: "obj \<Rightarrow> obj_class" where
  "class_of (OThread _) = Class_Thread"
| "class_of (OSem _) = Class_Semaphore"
| "class_of (OMutex _) = Class_Mutex"
| "class_of (OEvent _) = Class_Event"
| "class_of (OMailBox _) = Class_MailBox"
| "class_of (OMq _) = Class_MessageQueue"
| "class_of (OTimer _) = Class_Timer"
| "class_of (OMemPool _) = Class_MemPool"

definition demo_ipc :: kernel where
  "demo_ipc = demo_kernel\<lparr>objects := (\<lambda>x. \<lparr>obj_type = class_of x, obj_static = True, obj_name = []\<rparr>)\<rparr>"

lemma demo_ipc_type [simp]: "rt_object_get_type x demo_ipc = class_of x"
  by (simp add: demo_ipc_def rt_object_get_type_def)

lemma demo_ipc_thread: "in_thread demo_ipc 1" "lists demo_ipc (Wait x) = []" "lists demo_ipc (WaitSend x) = []"
proof -
  show "in_thread demo_ipc 1"
  proof -
    have "timers demo_kernel (ThreadTimer 1) = timers kernel0 (ThreadTimer 1)" "interrupt_nest demo_kernel = 0"
      by (simp_all add: demo_eval demo_ffs)
    then show ?thesis
      using demo_kernel by (simp add: in_thread_def registered_def) (simp add: demo_ipc_def kernel0_def)
  qed
  show "lists demo_ipc (Wait x) = []" "lists demo_ipc (WaitSend x) = []" by (simp_all add: demo_ipc_def demo_eval demo_ffs)
qed

text \<open>The same kernel with a fourth thread waiting on object \<open>x\<close>.\<close>

definition demo_waiting :: "qid \<Rightarrow> kernel" where
  "demo_waiting q = tlist_insert_before q 4 (upd_thread 4 (\<lambda>_. (prio_thread 6)\<lparr>stat := TH_SUSPEND RT_UNINTERRUPTIBLE\<rparr>) demo_ipc)"

lemma demo_waiting:
  assumes "q = Wait x \<or> q = WaitSend x"
  shows "sched_inv (demo_waiting q)" "current (demo_waiting q) = Some 1" "lists (demo_waiting q) q = [4]" "waiters_ok (demo_waiting q) q"
    "rt_object_get_type y (demo_waiting q) = class_of y" "in_thread (demo_waiting q) 1"
proof -
  have l: "lists demo_ipc q' = (case q' of Ready p \<Rightarrow> if p = 5 then [2] else if p = 7 then [3] else [] | _ \<Rightarrow> [])" for q'
    by (auto simp: demo_ipc_def demo_eval demo_ffs split: qid.splits)
  have u: "unlisted demo_ipc 4" by (auto simp: unlisted_def l split: qid.splits if_splits)
  have i: "sched_inv demo_ipc" "current demo_ipc = Some 1" using demo_ipc_thread(1) by (simp_all add: in_thread_def)
  let ?k = "upd_thread 4 (\<lambda>_. (prio_thread 6)\<lparr>stat := TH_SUSPEND RT_UNINTERRUPTIBLE\<rparr>) demo_ipc"
  have "sched_inv ?k"
    by (rule sched_set_thread [OF sched_but_mono [OF i(1)] u]) (auto simp: thread_ok_def prio_thread_def thread0_def i)
  then show s: "sched_inv (demo_waiting q)"
    unfolding demo_waiting_def by (rule sched_insert_before) (use u assms in \<open>auto simp: unlisted_def\<close>)
  show ty: "rt_object_get_type y (demo_waiting q) = class_of y" for y
    by (simp add: demo_waiting_def tlist_insert_before_def rt_object_get_type_def upd_thread_def demo_ipc_def)
  have g: "registered (demo_waiting q) t" for t by (simp add: registered_def ty)
  show c: "current (demo_waiting q) = Some 1" and lq: "lists (demo_waiting q) q = [4]"
    using assms i by (auto simp: demo_waiting_def tlist_insert_before_def l)
  show "waiters_ok (demo_waiting q) q" by (simp add: waiters_ok_def g)
  show "in_thread (demo_waiting q) 1" using s g c demo_ipc_thread(1)
    by (simp add: in_thread_def) (simp add: demo_waiting_def tlist_insert_before_def upd_thread_def)
qed

end
