(* ===== verification/KMutex.thy ===== *)
theory KMutex
  imports KIpc
begin

text \<open>
  Mutexes with priority inheritance and priority ceilings (\<open>src/ipc.c\<close>).  The owner of a mutex runs at
  least at the priority of the first waiting thread; when the owner itself waits for a mutex the change is
  passed on.  \<open>taken k t\<close> is the list of the mutexes thread \<open>t\<close> holds.
\<close>

subsection \<open>The code\<close>

definition upd_mutex :: "oid \<Rightarrow> (rt_mutex \<Rightarrow> rt_mutex) \<Rightarrow> kernel \<Rightarrow> kernel" where
  "upd_mutex m f k = k\<lparr>mutexes := (mutexes k)(m := f (mutexes k m))\<rparr>"

text \<open>The list node of a mutex in the list of its owner.\<close>

definition taken_insert :: "tid \<Rightarrow> oid \<Rightarrow> kernel \<Rightarrow> kernel" where
  "taken_insert t m k = k\<lparr>taken := (taken k)(t := m # taken k t)\<rparr>"

definition taken_remove :: "oid \<Rightarrow> kernel \<Rightarrow> kernel" where
  "taken_remove m k = k\<lparr>taken := (\<lambda>t. removeAll m (taken k t))\<rparr>"

definition mutex_update_priority :: "oid \<Rightarrow> kernel \<Rightarrow> kernel" where
  "mutex_update_priority m k =
     upd_mutex m (\<lambda>mx. mx\<lparr>mutex_priority :=
       (case lists k (Wait m) of [] \<Rightarrow> 0xff | t # _ \<Rightarrow> current_priority (threads k t))\<rparr>) k"

definition thread_get_mutex_priority :: "tid \<Rightarrow> kernel \<Rightarrow> nat" where
  "thread_get_mutex_priority t k =
     foldl (\<lambda>priority m.
         let p = mutex_priority (mutexes k m); c = ceiling_priority (mutexes k m); p = (if p < c then p else c)
         in if priority > p then p else priority)
       (init_priority (threads k t)) (taken k t)"

partial_function (option) thread_update_priority :: "tid \<Rightarrow> nat \<Rightarrow> suspend_flag \<Rightarrow> kernel \<Rightarrow> kernel option" where
  "thread_update_priority t priority sflag k =
     do {
       k \<leftarrow> change_priority t priority k;
       if suspended (threads k t) then
         (case pending_object (threads k t) of
            None \<Rightarrow> Some k
          | Some m \<Rightarrow>
              if rt_object_get_type (OMutex m) k = Class_Mutex then do {
                (k, ret) \<leftarrow> ipc_list_suspend (Wait m) t (mutex_flag (mutexes k m)) sflag (tlist_remove t k);
                if ret \<noteq> RT_EOK then Some k
                else do {
                  let k = mutex_update_priority m k;
                  own \<leftarrow> owner (mutexes k m);
                  let mutex_priority = thread_get_mutex_priority own k;
                  if mutex_priority \<noteq> current_priority (threads k own)
                  then thread_update_priority own mutex_priority sflag k
                  else Some k
                }
              }
              else Some k)
       else Some k
     }"

text \<open>Bringing the priority of a mutex's owner in line with what it holds.\<close>

definition owner_update_priority :: "tid \<Rightarrow> kernel \<Rightarrow> kernel option" where
  "owner_update_priority own k =
     (let priority = thread_get_mutex_priority own k in
      if priority \<noteq> current_priority (threads k own) then thread_update_priority own priority RT_UNINTERRUPTIBLE k
      else Some k)"

definition mutex_fresh :: rt_mutex where
  "mutex_fresh = \<lparr>mutex_flag = RT_IPC_FLAG_PRIO, ceiling_priority = 0xff, mutex_priority = 0xff, mutex_hold = 0, owner = None\<rparr>"

definition rt_mutex_init :: "oid \<Rightarrow> string \<Rightarrow> ipc_flag \<Rightarrow> kernel \<Rightarrow> kernel option" where
  "rt_mutex_init m name flag k =
     do {
       k \<leftarrow> rt_object_init (OMutex m) Class_Mutex name k;
       Some (upd_mutex m (\<lambda>_. mutex_fresh) (ipc_object_init m k))
     }"

definition rt_mutex_detach :: "oid \<Rightarrow> kernel \<Rightarrow> kernel option" where
  "rt_mutex_detach m k =
     do {
       rt_assert (rt_object_get_type (OMutex m) k = Class_Mutex);
       rt_assert (rt_object_is_systemobject (OMutex m) k);
       k \<leftarrow> ipc_list_resume_all (Wait m) k;
       Some (rt_object_detach (OMutex m) (taken_remove m k))
     }"

definition rt_mutex_drop_thread :: "oid \<Rightarrow> tid \<Rightarrow> kernel \<Rightarrow> kernel option" where
  "rt_mutex_drop_thread m t k =
     do {
       let k = tlist_remove t k;
       own \<leftarrow> owner (mutexes k m);
       let need_update = (current_priority (threads k own) = current_priority (threads k t));
       let k = mutex_update_priority m k;
       if need_update then owner_update_priority own k else Some k
     }"

text \<open>The error number of the running thread, or the global one in an interrupt and before the first thread.\<close>

definition rt_set_errno :: "err \<Rightarrow> kernel \<Rightarrow> kernel" where
  "rt_set_errno e k =
     (if interrupt_nest k \<noteq> 0 then k\<lparr>rt_errno := e\<rparr>
      else case current k of None \<Rightarrow> k\<lparr>rt_errno := e\<rparr> | Some t \<Rightarrow> upd_thread t (\<lambda>th. th\<lparr>error := e\<rparr>) k)"

text \<open>The result is the previous ceiling, or 0xff with the error number set for a bad argument.\<close>

definition rt_mutex_setprioceiling :: "oid option \<Rightarrow> nat \<Rightarrow> kernel \<Rightarrow> (kernel \<times> nat) option" where
  "rt_mutex_setprioceiling mutex priority k =
     (case mutex of
        Some m \<Rightarrow>
          if priority < 32 then do {
            let ret = ceiling_priority (mutexes k m);
            let k = upd_mutex m (\<lambda>mx. mx\<lparr>ceiling_priority := priority\<rparr>) k;
            k \<leftarrow> (case owner (mutexes k m) of None \<Rightarrow> Some k | Some own \<Rightarrow> owner_update_priority own k);
            Some (k, ret)
          }
          else Some (rt_set_errno RT_EINVAL k, 0xff)
      | None \<Rightarrow> Some (rt_set_errno RT_EINVAL k, 0xff))"

definition rt_mutex_getprioceiling :: "oid option \<Rightarrow> kernel \<Rightarrow> nat" where
  "rt_mutex_getprioceiling mutex k = (case mutex of None \<Rightarrow> 0xff | Some m \<Rightarrow> ceiling_priority (mutexes k m))"

definition rt_mutex_create :: "oid option \<Rightarrow> string \<Rightarrow> ipc_flag \<Rightarrow> kernel \<Rightarrow> (kernel \<times> oid option) option" where
  "rt_mutex_create block name flag k =
     do {
       not_in_interrupt k;
       (k, _) \<leftarrow> rt_object_allocate (map_option OMutex block) Class_Mutex name k;
       Some (case block of
               None \<Rightarrow> (k, None)
             | Some m \<Rightarrow> (upd_mutex m (\<lambda>_. mutex_fresh) (ipc_object_init m k), Some m))
     }"

definition rt_mutex_delete :: "oid \<Rightarrow> kernel \<Rightarrow> kernel option" where
  "rt_mutex_delete m k =
     do {
       rt_assert (rt_object_get_type (OMutex m) k = Class_Mutex);
       rt_assert (\<not> rt_object_is_systemobject (OMutex m) k);
       not_in_interrupt k;
       k \<leftarrow> ipc_list_resume_all (Wait m) k;
       rt_object_delete (OMutex m) (taken_remove m k)
     }"

definition mutex_take :: "oid \<Rightarrow> cint \<Rightarrow> suspend_flag \<Rightarrow> kernel \<Rightarrow> (kernel \<times> err outcome) option" where
  "mutex_take m timeout sflag k =
     do {
       scheduler_available True k;
       rt_assert (rt_object_get_type (OMutex m) k = Class_Mutex);
       t \<leftarrow> current k;
       let k = upd_thread t (\<lambda>th. th\<lparr>error := RT_EOK\<rparr>) k;
       if owner (mutexes k m) = Some t then
         Some (if mutex_hold (mutexes k m) < 0xff
               then (upd_mutex m (\<lambda>mx. mx\<lparr>mutex_hold := mutex_hold mx + 1\<rparr>) k, Ret RT_EOK)
               else (k, Ret RT_EFULL))
       else (case owner (mutexes k m) of
         None \<Rightarrow> do {
           let k = upd_mutex m (\<lambda>mx. mx\<lparr>owner := Some t, mutex_priority := 0xff, mutex_hold := 1\<rparr>) k;
           let c = ceiling_priority (mutexes k m);
           k \<leftarrow> (if c \<noteq> 0xff \<and> c < current_priority (threads k t) then thread_update_priority t c sflag k else Some k);
           Some (taken_insert t m k, Ret RT_EOK)
         }
       | Some own \<Rightarrow>
           if timeout = 0 then Some (upd_thread t (\<lambda>th. th\<lparr>error := RT_ETIMEOUT\<rparr>) k, Ret RT_ETIMEOUT)
           else do {
             let priority = current_priority (threads k t);
             (k, ret) \<leftarrow> ipc_list_suspend (Wait m) t (mutex_flag (mutexes k m)) sflag k;
             if ret \<noteq> RT_EOK then Some (k, Ret ret)
             else do {
               let k = upd_thread t (\<lambda>th. th\<lparr>pending_object := Some m\<rparr>) k;
               k \<leftarrow> (if priority < mutex_priority (mutexes k m) then
                       let k = upd_mutex m (\<lambda>mx. mx\<lparr>mutex_priority := priority\<rparr>) k in
                       if priority < current_priority (threads k own)
                       then thread_update_priority own priority RT_UNINTERRUPTIBLE k else Some k
                     else Some k);
               k \<leftarrow> (if sint timeout > 0 then start_thread_timer t timeout k else Some k);
               k \<leftarrow> rt_schedule k;
               Some (k, Blocked)
             }
           })
     }"

text \<open>What a thread that waited for the mutex does when it runs again.\<close>

definition mutex_take_resume :: "oid \<Rightarrow> tid \<Rightarrow> kernel \<Rightarrow> (kernel \<times> err) option" where
  "mutex_take_resume m t k =
     (if error (threads k t) = RT_EOK then Some (k, RT_EOK)
      else do {
        own \<leftarrow> owner (mutexes k m);
        let need_update = (current_priority (threads k own) = current_priority (threads k t));
        let k = mutex_update_priority m k;
        k \<leftarrow> (if need_update then owner_update_priority own k else Some k);
        Some (k, error (threads k t))
      })"

definition rt_mutex_take :: "oid \<Rightarrow> cint \<Rightarrow> kernel \<Rightarrow> (kernel \<times> err outcome) option" where
  "rt_mutex_take m time k = mutex_take m time RT_UNINTERRUPTIBLE k"

definition rt_mutex_take_interruptible :: "oid \<Rightarrow> cint \<Rightarrow> kernel \<Rightarrow> (kernel \<times> err outcome) option" where
  "rt_mutex_take_interruptible m time k = mutex_take m time RT_INTERRUPTIBLE k"

definition rt_mutex_take_killable :: "oid \<Rightarrow> cint \<Rightarrow> kernel \<Rightarrow> (kernel \<times> err outcome) option" where
  "rt_mutex_take_killable m time k = mutex_take m time RT_KILLABLE k"

definition rt_mutex_trytake :: "oid \<Rightarrow> kernel \<Rightarrow> (kernel \<times> err outcome) option" where
  "rt_mutex_trytake m k = rt_mutex_take m 0 k"

text \<open>The last release: the priority is restored and the mutex handed to the first waiting thread.  The
  result tells whether to reschedule.\<close>

definition mutex_restore :: "oid \<Rightarrow> tid \<Rightarrow> kernel \<Rightarrow> (kernel \<times> bool) option" where
  "mutex_restore m t k =
     (if ceiling_priority (mutexes k m) \<noteq> 0xff \<or> current_priority (threads k t) = mutex_priority (mutexes k m)
      then do { k \<leftarrow> change_priority t (thread_get_mutex_priority t k) k; Some (k, True) }
      else Some (k, False))"

definition mutex_hand_over :: "oid \<Rightarrow> kernel \<Rightarrow> (kernel \<times> bool) option" where
  "mutex_hand_over m k =
     (case lists k (Wait m) of
        [] \<Rightarrow> Some (upd_mutex m (\<lambda>mx. mx\<lparr>owner := None, mutex_priority := 0xff\<rparr>) k, False)
      | n # _ \<Rightarrow> do {
          let k = tlist_remove n k;
          let k = upd_mutex m (\<lambda>mx. mx\<lparr>owner := Some n, mutex_hold := 1\<rparr>) k;
          let k = taken_insert n m k;
          let k = upd_thread n (\<lambda>th. th\<lparr>pending_object := None\<rparr>) k;
          (k, _) \<leftarrow> rt_thread_resume n k;
          Some (mutex_update_priority m k, True)
        })"

definition rt_mutex_release :: "oid \<Rightarrow> kernel \<Rightarrow> (kernel \<times> err) option" where
  "rt_mutex_release m k =
     do {
       rt_assert (rt_object_get_type (OMutex m) k = Class_Mutex);
       in_thread_context k;
       t \<leftarrow> current k;
       if owner (mutexes k m) \<noteq> Some t then Some (upd_thread t (\<lambda>th. th\<lparr>error := RT_ERROR\<rparr>) k, RT_ERROR)
       else do {
         let k = upd_mutex m (\<lambda>mx. mx\<lparr>mutex_hold := (mutex_hold mx + 0xff) mod 0x100\<rparr>) k;
         if mutex_hold (mutexes k m) = 0 then do {
           (k, need1) \<leftarrow> mutex_restore m t (taken_remove m k);
           (k, need2) \<leftarrow> mutex_hand_over m k;
           k \<leftarrow> (if need1 \<or> need2 then rt_schedule k else Some k);
           Some (k, RT_EOK)
         }
         else Some (k, RT_EOK)
       }
     }"

definition rt_mutex_control :: "oid \<Rightarrow> nat \<Rightarrow> kernel \<Rightarrow> (kernel \<times> err) option" where
  "rt_mutex_control m cmd k =
     do {
       rt_assert (rt_object_get_type (OMutex m) k = Class_Mutex);
       Some (k, RT_ERROR)
     }"


subsection \<open>The invariant of priority inheritance\<close>

text \<open>A thread runs at least at the priority of a thread exactly when its own priority and every mutex it holds allow.\<close>

lemma le_mutex_priority:
  "p \<le> thread_get_mutex_priority t k \<longleftrightarrow> p \<le> init_priority (threads k t) \<and>
     (\<forall>m\<in>set (taken k t). p \<le> mutex_priority (mutexes k m) \<and> p \<le> ceiling_priority (mutexes k m))"
proof -
  have "p \<le> foldl (\<lambda>priority m.
         let p = mutex_priority (mutexes k m); c = ceiling_priority (mutexes k m); p = (if p < c then p else c)
         in if priority > p then p else priority) i ms \<longleftrightarrow> p \<le> i \<and>
     (\<forall>m\<in>set ms. p \<le> mutex_priority (mutexes k m) \<and> p \<le> ceiling_priority (mutexes k m))" for i ms
    by (induction ms arbitrary: i) (auto simp: Let_def)
  then show ?thesis by (simp add: thread_get_mutex_priority_def)
qed

lemma mutex_priority_eqI:
  assumes "\<And>p. p \<le> x \<longleftrightarrow> p \<le> init_priority (threads k t) \<and>
     (\<forall>m\<in>set (taken k t). p \<le> mutex_priority (mutexes k m) \<and> p \<le> ceiling_priority (mutexes k m))"
  shows "thread_get_mutex_priority t k = x"
  using assms le_mutex_priority [of _ t k] by (meson order_antisym order_refl)

lemma mutex_priority_cong:
  assumes "init_priority (threads k' t) = init_priority (threads k t)" "taken k' t = taken k t"
    "\<And>m. m \<in> set (taken k t) \<Longrightarrow> mutex_priority (mutexes k' m) = mutex_priority (mutexes k m) \<and>
       ceiling_priority (mutexes k' m) = ceiling_priority (mutexes k m)"
  shows "thread_get_mutex_priority t k' = thread_get_mutex_priority t k"
  by (rule mutex_priority_eqI) (auto simp: le_mutex_priority assms)

abbreviation is_mutex :: "kernel \<Rightarrow> oid \<Rightarrow> bool" where
  "is_mutex k m \<equiv> rt_object_get_type (OMutex m) k = Class_Mutex"

abbreviation prio :: "kernel \<Rightarrow> tid \<Rightarrow> nat" where
  "prio k t \<equiv> current_priority (threads k t)"

definition front_priority :: "(tid \<Rightarrow> nat) \<Rightarrow> tid list \<Rightarrow> nat" where
  "front_priority pr ts = (case ts of [] \<Rightarrow> 0xff | t # _ \<Rightarrow> pr t)"

definition mutex_ok :: "kernel \<Rightarrow> oid \<Rightarrow> bool" where
  "mutex_ok k m \<longleftrightarrow> mutex_flag (mutexes k m) = RT_IPC_FLAG_PRIO \<and> ceiling_priority (mutexes k m) = 0xff \<and>
     sorted_wrt (\<lambda>a b. prio k a \<le> prio k b) (lists k (Wait m)) \<and>
     mutex_priority (mutexes k m) = front_priority (prio k) (lists k (Wait m)) \<and>
     (case owner (mutexes k m) of None \<Rightarrow> lists k (Wait m) = []
      | Some own \<Rightarrow> started (threads k own) \<and> 0 < mutex_hold (mutexes k m) \<and> mutex_hold (mutexes k m) \<le> 0xff)"

text \<open>
  The invariant, except for the priorities of the threads in \<open>S\<close>: a thread is in the list of a mutex
  exactly when that mutex is its pending object, the list of held mutexes agrees with the owners, the
  waiting lists are in priority order, and every thread runs at the priority that its own and those of the
  mutexes it holds give.
\<close>

definition pi_but :: "tid set \<Rightarrow> kernel \<Rightarrow> bool" where
  "pi_but S k \<longleftrightarrow> sched_inv k \<and> finite {t. suspended (threads k t)} \<and>
     (\<forall>t. started (threads k t) \<longrightarrow> registered k t) \<and>
     (\<forall>t m. m \<in> set (taken k t) \<longleftrightarrow> is_mutex k m \<and> owner (mutexes k m) = Some t) \<and>
     (\<forall>t m. pending_object (threads k t) = Some m \<longleftrightarrow> is_mutex k m \<and> t \<in> set (lists k (Wait m))) \<and>
     (\<forall>m. is_mutex k m \<longrightarrow> mutex_ok k m) \<and>
     (\<forall>t. t \<notin> S \<longrightarrow> thread_get_mutex_priority t k = prio k t) \<and> (\<forall>t. init_priority (threads k t) < 32)"

abbreviation pi_inv :: "kernel \<Rightarrow> bool" where
  "pi_inv k \<equiv> pi_but {} k"

lemma pi_butD:
  assumes "pi_but S k"
  shows "sched_inv k" "finite {t. suspended (threads k t)}" "started (threads k t) \<Longrightarrow> registered k t"
    "m \<in> set (taken k t) \<longleftrightarrow> is_mutex k m \<and> owner (mutexes k m) = Some t"
    "pending_object (threads k t) = Some m \<longleftrightarrow> is_mutex k m \<and> t \<in> set (lists k (Wait m))"
    "is_mutex k m \<Longrightarrow> mutex_ok k m" "t \<notin> S \<Longrightarrow> thread_get_mutex_priority t k = prio k t" "init_priority (threads k t) < 32"
  using assms unfolding pi_but_def by blast+

lemma pi_butI:
  assumes "sched_inv k" "finite {t. suspended (threads k t)}" "\<And>t. started (threads k t) \<Longrightarrow> registered k t"
    "\<And>t m. m \<in> set (taken k t) \<longleftrightarrow> is_mutex k m \<and> owner (mutexes k m) = Some t"
    "\<And>t m. pending_object (threads k t) = Some m \<longleftrightarrow> is_mutex k m \<and> t \<in> set (lists k (Wait m))"
    "\<And>m. is_mutex k m \<Longrightarrow> mutex_ok k m" "\<And>t. t \<notin> S \<Longrightarrow> thread_get_mutex_priority t k = prio k t"
    "\<And>t. init_priority (threads k t) < 32"
  shows "pi_but S k"
  using assms unfolding pi_but_def by blast

lemma mutex_okD:
  assumes "mutex_ok k m"
  shows "mutex_flag (mutexes k m) = RT_IPC_FLAG_PRIO" "ceiling_priority (mutexes k m) = 0xff"
    "sorted_wrt (\<lambda>a b. prio k a \<le> prio k b) (lists k (Wait m))"
    "mutex_priority (mutexes k m) = front_priority (prio k) (lists k (Wait m))"
    "lists k (Wait m) \<noteq> [] \<Longrightarrow> owner (mutexes k m) \<noteq> None"
    "owner (mutexes k m) = Some own \<Longrightarrow> started (threads k own) \<and> 0 < mutex_hold (mutexes k m) \<and> mutex_hold (mutexes k m) \<le> 0xff"
  using assms unfolding mutex_ok_def by (auto split: option.splits)

text \<open>Steps that keep what the invariant speaks of.\<close>

lemma front_priority_cong:
  "(\<And>t. t \<in> set ts \<Longrightarrow> f t = g t) \<Longrightarrow> front_priority f ts = front_priority g ts"
  by (cases ts) (simp_all add: front_priority_def)

lemma mutex_ok_cong:
  assumes "mutex_ok k m" "mutexes k' m = mutexes k m" "lists k' (Wait m) = lists k (Wait m)"
    "\<And>t. t \<in> set (lists k (Wait m)) \<Longrightarrow> prio k' t = prio k t" "\<And>t. started (threads k t) \<Longrightarrow> started (threads k' t)"
  shows "mutex_ok k' m"
proof -
  have "sorted_wrt (\<lambda>a b. prio k' a \<le> prio k' b) (lists k (Wait m))"
    by (rule sorted_wrt_mono_rel [OF _ mutex_okD(3) [OF assms(1)]]) (simp add: assms(4))
  moreover have "front_priority (prio k') (lists k (Wait m)) = front_priority (prio k) (lists k (Wait m))"
    by (rule front_priority_cong) (rule assms(4))
  ultimately show ?thesis using assms(1-3,5) by (auto simp: mutex_ok_def split: option.splits)
qed

lemma pi_cong:
  assumes i: "pi_but S k" and s: "sched_inv k'" and o: "objects k' = objects k" "taken k' = taken k" "mutexes k' = mutexes k"
    and th: "\<And>t. prio k' t = prio k t \<and> init_priority (threads k' t) = init_priority (threads k t) \<and>
      pending_object (threads k' t) = pending_object (threads k t) \<and> started (threads k' t) = started (threads k t)"
    and f: "finite {t. suspended (threads k' t)}" and l: "\<And>m. is_mutex k m \<Longrightarrow> lists k' (Wait m) = lists k (Wait m)"
  shows "pi_but S k'"
proof (rule pi_butI)
  have ty: "rt_object_get_type x k' = rt_object_get_type x k" for x by (simp add: rt_object_get_type_def o)
  show "started (threads k' t) \<Longrightarrow> registered k' t" for t using pi_butD(3) [OF i, of t] th registered_cong [OF o(1)] by simp
  show "m \<in> set (taken k' t) \<longleftrightarrow> is_mutex k' m \<and> owner (mutexes k' m) = Some t" for t m using pi_butD(4) [OF i] by (simp add: ty o)
  show "pending_object (threads k' t) = Some m \<longleftrightarrow> is_mutex k' m \<and> t \<in> set (lists k' (Wait m))" for t m
    using pi_butD(5) [OF i, of t m] th [of t] l [of m] by (auto simp: ty)
  show "mutex_ok k' m" if "is_mutex k' m" for m
    using pi_butD(6) [OF i, of m] that by - (rule mutex_ok_cong [of k]; simp add: ty l o th)
  show "thread_get_mutex_priority t k' = prio k' t" if "t \<notin> S" for t
    using pi_butD(7) [OF i that] mutex_priority_cong [of k' t k] th [of t] by (simp add: o)
  show "init_priority (threads k' t) < 32" for t using pi_butD(8) [OF i, of t] th [of t] by simp
qed (use s f in simp_all)


subsection \<open>Passing a priority on\<close>

lemma change_priority_spec:
  assumes i: "sched_inv k" and p: "p < 32" and g: "registered k t"
  obtains k' where "change_priority t p k = Some k'" "sched_inv k'" "only_sched k k'" "current k' = current k"
    "threads k' = (threads k)(t := (threads k t)\<lparr>current_priority := p, number_mask := push_bit p 1\<rparr>)"
    "\<And>q. \<not> is_ready q \<Longrightarrow> lists k' q = lists k q"
proof (cases "stat (threads k t) = TH_READY")
  case True
  let ?k = "set_priority t p (rt_schedule_remove_thread t k)"
  have c: "current k \<noteq> Some t" using sched_butD(5) [OF i, of t] True by (simp add: thread_ok_def)
  have r: "change_priority t p k = Some (rt_schedule_insert_thread t ?k)" using g True by (simp add: change_priority_def registered_def)
  have "only_sched k (rt_schedule_insert_thread t ?k)"
    unfolding set_priority_def by (intro only_sched_steps) simp
  moreover have "threads (rt_schedule_insert_thread t ?k) = (threads k)(t := (threads k t)\<lparr>current_priority := p, number_mask := push_bit p 1\<rparr>)"
    using True c by (simp add: threads_insert_thread set_priority_def) (cases "threads k t"; simp)
  moreover have "lists (rt_schedule_insert_thread t ?k) q = lists k q" if "\<not> is_ready q" for q
  proof -
    have "t \<notin> set (lists k q)" using sched_butD(3) [OF i, of t q] that True by (cases q) auto
    then show ?thesis using that by (cases q) (auto simp: rt_schedule_insert_thread_def kstate Let_def set_priority_def)
  qed
  ultimately show thesis using that [OF r sched_change_priority [OF i p r]] by (simp add: set_priority_def)
next
  case False
  then have r: "change_priority t p k = Some (set_priority t p k)" using g by (simp add: change_priority_def registered_def)
  show thesis by (rule that [OF r sched_change_priority [OF i p r]]) (simp_all add: set_priority_def)
qed

text \<open>What passing a priority \<open>p\<close> on may change: threads are raised to \<open>p\<close>, and mutex priorities, the order of
  waiting threads and the ready queues follow.\<close>

definition boosted :: "nat \<Rightarrow> kernel \<Rightarrow> kernel \<Rightarrow> bool" where
  "boosted p k k' \<longleftrightarrow>
     k' = k\<lparr>threads := threads k', lists := lists k', ready_group := ready_group k', running_priority := running_priority k', mutexes := mutexes k'\<rparr> \<and>
     (\<forall>u. threads k' u = (threads k u)\<lparr>current_priority := prio k' u, number_mask := number_mask (threads k' u)\<rparr> \<and>
        (prio k' u = prio k u \<or> prio k' u = p \<and> p < prio k u)) \<and>
     (\<forall>q. \<not> is_ready q \<longrightarrow> set (lists k' q) = set (lists k q)) \<and>
     (\<forall>m. mutexes k' m = (mutexes k m)\<lparr>mutex_priority := mutex_priority (mutexes k' m)\<rparr>)"

lemma boosted_refl: "boosted p k k"
  by (simp add: boosted_def)

lemma boosted_trans:
  assumes "boosted p k k1" "boosted p k1 k2"
  shows "boosted p k k2"
proof -
  have t: "threads k2 u = (threads k u)\<lparr>current_priority := prio k2 u, number_mask := number_mask (threads k2 u)\<rparr> \<and>
      (prio k2 u = prio k u \<or> prio k2 u = p \<and> p < prio k u)" for u
  proof -
    let ?n = "number_mask (threads k2 u)"
    have e: "threads k2 u = (threads k1 u)\<lparr>current_priority := prio k2 u, number_mask := ?n\<rparr>"
      "threads k1 u = (threads k u)\<lparr>current_priority := prio k1 u, number_mask := number_mask (threads k1 u)\<rparr>"
      and p: "prio k2 u = prio k1 u \<or> prio k2 u = p \<and> p < prio k1 u" "prio k1 u = prio k u \<or> prio k1 u = p \<and> p < prio k u"
      using assms unfolding boosted_def by blast+
    have "threads k2 u = (threads k u)\<lparr>current_priority := prio k2 u, number_mask := ?n\<rparr>"
      using e by (cases "threads k u"; cases "threads k1 u"; cases "threads k2 u") simp
    then show ?thesis using p by auto
  qed
  have m: "mutexes k2 m = (mutexes k m)\<lparr>mutex_priority := mutex_priority (mutexes k2 m)\<rparr>" for m
  proof -
    have "mutexes k2 m = (mutexes k1 m)\<lparr>mutex_priority := mutex_priority (mutexes k2 m)\<rparr>"
      "mutexes k1 m = (mutexes k m)\<lparr>mutex_priority := mutex_priority (mutexes k1 m)\<rparr>"
      using assms unfolding boosted_def by blast+
    then show ?thesis by (cases "mutexes k m"; cases "mutexes k1 m"; cases "mutexes k2 m") simp
  qed
  have "k2 = k\<lparr>threads := threads k2, lists := lists k2, ready_group := ready_group k2, running_priority := running_priority k2, mutexes := mutexes k2\<rparr>"
    using assms unfolding boosted_def by (cases k; cases k1; cases k2) simp
  then show ?thesis using assms t m unfolding boosted_def by simp
qed

lemma boostedD:
  assumes "boosted p k k'"
  shows "objects k' = objects k" "taken k' = taken k" "current k' = current k" "timers k' = timers k" "lock_nest k' = lock_nest k"
    "interrupt_nest k' = interrupt_nest k" "set (lists k' (Wait m)) = set (lists k (Wait m))"
    "prio k' u = prio k u \<or> prio k' u = p \<and> p < prio k u" "prio k' u \<le> prio k u"
    "stat (threads k' u) = stat (threads k u)" "pending_object (threads k' u) = pending_object (threads k u)"
    "init_priority (threads k' u) = init_priority (threads k u)" "owner (mutexes k' m) = owner (mutexes k m)"
    "mutex_hold (mutexes k' m) = mutex_hold (mutexes k m)" "error (threads k' u) = error (threads k u)"
proof -
  have b: "k' = k\<lparr>threads := threads k', lists := lists k', ready_group := ready_group k', running_priority := running_priority k', mutexes := mutexes k'\<rparr>"
    using assms unfolding boosted_def by blast
  show "objects k' = objects k" "taken k' = taken k" "current k' = current k" "timers k' = timers k" "lock_nest k' = lock_nest k"
    "interrupt_nest k' = interrupt_nest k" by (subst b, simp)+
  have t: "threads k' u = (threads k u)\<lparr>current_priority := prio k' u, number_mask := number_mask (threads k' u)\<rparr>"
    and m: "mutexes k' m = (mutexes k m)\<lparr>mutex_priority := mutex_priority (mutexes k' m)\<rparr>"
    using assms unfolding boosted_def by blast+
  show "stat (threads k' u) = stat (threads k u)" "pending_object (threads k' u) = pending_object (threads k u)"
    "init_priority (threads k' u) = init_priority (threads k u)" "error (threads k' u) = error (threads k u)" by (subst t, simp)+
  show "owner (mutexes k' m) = owner (mutexes k m)" "mutex_hold (mutexes k' m) = mutex_hold (mutexes k m)" by (subst m, simp)+
  show p: "prio k' u = prio k u \<or> prio k' u = p \<and> p < prio k u" using assms unfolding boosted_def by blast
  then show "prio k' u \<le> prio k u" by auto
qed (use assms in \<open>simp add: boosted_def\<close>)


text \<open>A waiting thread that was raised moves forward in its list.\<close>

lemma requeue_front:
  assumes s: "sorted_wrt (\<lambda>a b. pr a \<le> pr b) l" and t: "t \<in> set l" and p: "p < pr t"
  defines "l' \<equiv> prio_insert (pr(t := p)) t (removeAll t l)"
  shows "sorted_wrt (\<lambda>a b. (pr(t := p)) a \<le> (pr(t := p)) b) l'" "set l' = set l"
    "front_priority (pr(t := p)) l' = front_priority pr l \<or> front_priority (pr(t := p)) l' = p \<and> p < front_priority pr l"
proof -
  have "sorted_wrt (\<lambda>a b. pr a \<le> pr b) (removeAll t l)" using s by (simp add: removeAll_filter_not_eq sorted_wrt_filter)
  then have "sorted_wrt (\<lambda>a b. (pr(t := p)) a \<le> (pr(t := p)) b) (removeAll t l)"
    by (rule sorted_wrt_mono_rel [rotated]) auto
  then show "sorted_wrt (\<lambda>a b. (pr(t := p)) a \<le> (pr(t := p)) b) l'" unfolding l'_def by (rule prio_insert_sorted)
  show "set l' = set l" using t by (auto simp: l'_def)
  show "front_priority (pr(t := p)) l' = front_priority pr l \<or> front_priority (pr(t := p)) l' = p \<and> p < front_priority pr l"
  proof (cases "removeAll t l")
    case (Cons h r)
    then have "h \<in> set (removeAll t l)" by simp
    then have h: "h \<in> set l" "h \<noteq> t" by simp_all
    obtain a l1 where l: "l = a # l1" using t by (cases l) auto
    have "a = h" if "\<not> p < pr h"
    proof (rule ccontr)
      assume n: "a \<noteq> h"
      then have "a = t" using Cons l by (auto split: if_splits)
      then have "pr t \<le> pr h" using s l h by auto
      then show False using that p by simp
    qed
    moreover have "p < pr a" if "p < pr h" using Cons l p that by (auto split: if_splits)
    ultimately show ?thesis using Cons h l by (auto simp: l'_def front_priority_def)
  next
    case Nil
    then have "set l \<subseteq> {t}" by (auto simp: filter_empty_conv removeAll_filter_not_eq)
    then show ?thesis using Nil p t by (cases l) (auto simp: l'_def front_priority_def)
  qed
qed

lemma boosted_change:
  assumes "only_sched k k'" "current k' = current k" "\<And>q. \<not> is_ready q \<Longrightarrow> lists k' q = lists k q" "p < prio k t"
    "threads k' = (threads k)(t := (threads k t)\<lparr>current_priority := p, number_mask := b\<rparr>)"
  shows "boosted p k k'"
proof -
  have "k' = k\<lparr>threads := threads k', lists := lists k', ready_group := ready_group k', running_priority := running_priority k', mutexes := mutexes k'\<rparr>"
    using assms(1,2) by (cases k; cases k') (simp add: only_sched_def)
  moreover have "mutexes k' = mutexes k" using assms(1) by (cases k; cases k') (simp add: only_sched_def)
  ultimately show ?thesis using assms(3-5) unfolding boosted_def by simp
qed

text \<open>One link of the chain: thread \<open>t\<close> gets priority \<open>p\<close> and does not wait for a mutex.\<close>

lemma boost_free:
  assumes i: "pi_but {t} k" and g: "thread_get_mutex_priority t k = p" and p: "p < prio k t" and st: "started (threads k t)"
    and n: "pending_object (threads k t) = None"
  shows "\<exists>k'. change_priority t p k = Some k' \<and> pi_inv k' \<and> boosted p k k' \<and> prio k' t = p"
proof -
  have p32: "p < 32" using p sched_butD(5) [OF pi_butD(1) [OF i], of t] by (simp add: thread_ok_def)
  obtain k' where k': "change_priority t p k = Some k'" "sched_inv k'" "only_sched k k'" "current k' = current k"
    "threads k' = (threads k)(t := (threads k t)\<lparr>current_priority := p, number_mask := push_bit p 1\<rparr>)"
    "\<And>q. \<not> is_ready q \<Longrightarrow> lists k' q = lists k q"
    by (rule change_priority_spec [OF pi_butD(1) [OF i] p32 pi_butD(3) [OF i st]]) (rule that)
  have b: "boosted p k k'" by (rule boosted_change [OF k'(3,4,6) p k'(5)])
  note o = boostedD(1,2) [OF b]
  have mx: "mutexes k' = mutexes k" using k'(3) by (cases k; cases k') (simp add: only_sched_def)
  have ty: "rt_object_get_type x k' = rt_object_get_type x k" for x by (simp add: rt_object_get_type_def o)
  have tw: "t \<notin> set (lists k (Wait m))" if "is_mutex k m" for m using pi_butD(5) [OF i, of t m] that n by auto
  have "pi_inv k'"
  proof (rule pi_butI)
    show "finite {u. suspended (threads k' u)}" using pi_butD(2) [OF i] by (simp add: boostedD(10) [OF b])
    show "registered k' u" if "started (threads k' u)" for u
      using pi_butD(3) [OF i, of u] that registered_cong [OF o(1)] by (simp add: started_def boostedD(10) [OF b])
    show "m \<in> set (taken k' u) \<longleftrightarrow> is_mutex k' m \<and> owner (mutexes k' m) = Some u" for u m using pi_butD(4) [OF i] by (simp add: ty o mx)
    show "pending_object (threads k' u) = Some m \<longleftrightarrow> is_mutex k' m \<and> u \<in> set (lists k' (Wait m))" for u m
      using pi_butD(5) [OF i, of u m] by (simp add: ty k'(6) boostedD(11) [OF b])
    show "mutex_ok k' m" if "is_mutex k' m" for m
      using pi_butD(6) [OF i, of m] that tw [of m]
      by - (rule mutex_ok_cong [of k]; auto simp: ty k'(5,6) mx started_def)
    have "thread_get_mutex_priority u k' = thread_get_mutex_priority u k" for u
      by (rule mutex_priority_cong) (simp_all add: o mx boostedD(12) [OF b])
    then show "thread_get_mutex_priority u k' = prio k' u" for u using pi_butD(7) [OF i, of u] g by (auto simp: k'(5))
    show "init_priority (threads k' u) < 32" for u using pi_butD(8) [OF i, of u] by (simp add: boostedD(12) [OF b])
  qed (rule k'(2))
  then show ?thesis using k'(1) b by (auto simp: k'(5))
qed


text \<open>The waiting thread \<open>t\<close> is raised, moves forward in the list of the mutex \<open>m\<close> and leaves it to the
  owner of \<open>m\<close> to follow.\<close>

definition requeue :: "oid \<Rightarrow> tid \<Rightarrow> kernel \<Rightarrow> kernel" where
  "requeue m t k = mutex_update_priority m (ipc_list_insert (Wait m) t (mutex_flag (mutexes k m)) (tlist_remove t k))"

lemma requeue_simps [simp]:
  "objects (requeue m t k) = objects k" "taken (requeue m t k) = taken k" "current (requeue m t k) = current k"
  "threads (requeue m t k) = threads k" "ready_group (requeue m t k) = ready_group k"
  by (simp_all add: requeue_def mutex_update_priority_def upd_mutex_def ipc_list_insert_def tlist_remove_def tlist_insert_before_def
      split: ipc_flag.splits)

lemma requeue_effect:
  assumes i: "sched_inv k" and t: "t \<in> set (lists k (Wait m))" and f: "mutex_flag (mutexes k m) = RT_IPC_FLAG_PRIO"
  defines "l \<equiv> prio_insert (prio k) t (removeAll t (lists k (Wait m)))"
  shows "sched_inv (requeue m t k)" "lists (requeue m t k) = (lists k)(Wait m := l)"
    "mutexes (requeue m t k) = (mutexes k)(m := (mutexes k m)\<lparr>mutex_priority := front_priority (prio k) l\<rparr>)"
proof -
  have o: "t \<notin> set (lists k q)" if "q \<noteq> Wait m" for q using sched_butD(4) [OF i t, of q] that by auto
  have s: "suspended (threads k t)" using sched_butD(3) [OF i t] by simp
  have r: "sched_inv (tlist_remove t k)" "unlisted (tlist_remove t k) t"
    using sched_tlist_remove [OF i] suspended_started [OF s] by auto
  have "sched_inv (ipc_list_insert (Wait m) t RT_IPC_FLAG_PRIO (tlist_remove t k))"
    by (rule sched_ipc_insert [OF r]) (use s in \<open>simp_all add: tlist_remove_def\<close>)
  then show "sched_inv (requeue m t k)"
    by (simp add: requeue_def f mutex_update_priority_def upd_mutex_def cong: sched_but_cong)
  show "lists (requeue m t k) = (lists k)(Wait m := l)"
    using o by (auto simp: requeue_def f mutex_update_priority_def upd_mutex_def ipc_list_insert_def tlist_remove_def l_def)
  show "mutexes (requeue m t k) = (mutexes k)(m := (mutexes k m)\<lparr>mutex_priority := front_priority (prio k) l\<rparr>)"
    by (simp add: requeue_def f mutex_update_priority_def upd_mutex_def ipc_list_insert_def tlist_remove_def l_def front_priority_def
        split: list.splits)
qed

lemma boosted_requeue:
  assumes "sched_inv k" "t \<in> set (lists k (Wait m))" "mutex_flag (mutexes k m) = RT_IPC_FLAG_PRIO"
  shows "boosted p k (requeue m t k)"
proof -
  have "set (lists (requeue m t k) q) = set (lists k q)" for q
    using assms(2) by (auto simp: requeue_effect(2) [OF assms])
  moreover have "requeue m t k = k\<lparr>threads := threads (requeue m t k), lists := lists (requeue m t k), ready_group := ready_group (requeue m t k),
      running_priority := running_priority (requeue m t k), mutexes := mutexes (requeue m t k)\<rparr>"
    by (cases k) (simp add: requeue_def mutex_update_priority_def upd_mutex_def ipc_list_insert_def tlist_remove_def tlist_insert_before_def
        split: ipc_flag.splits)
  ultimately show ?thesis by (simp add: boosted_def requeue_effect(3) [OF assms])
qed

text \<open>When a held mutex gets a higher priority, so does its owner.\<close>

lemma mutex_priority_lower:
  assumes m: "m \<in> set (taken k t)" and th: "init_priority (threads k' t) = init_priority (threads k t)" "taken k' t = taken k t"
    and mx: "mutexes k' = (mutexes k)(m := (mutexes k m)\<lparr>mutex_priority := f\<rparr>)" and f: "f \<le> mutex_priority (mutexes k m)"
  shows "thread_get_mutex_priority t k' = min (thread_get_mutex_priority t k) f"
proof (rule mutex_priority_eqI)
  fix p
  have "p \<le> mutex_priority (mutexes k' x) \<and> p \<le> ceiling_priority (mutexes k' x) \<longleftrightarrow>
      (p \<le> mutex_priority (mutexes k x) \<and> p \<le> ceiling_priority (mutexes k x)) \<and> (x = m \<longrightarrow> p \<le> f)" for x
    using f by (auto simp: mx)
  then show "p \<le> min (thread_get_mutex_priority t k) f \<longleftrightarrow> p \<le> init_priority (threads k' t) \<and>
      (\<forall>x\<in>set (taken k' t). p \<le> mutex_priority (mutexes k' x) \<and> p \<le> ceiling_priority (mutexes k' x))"
    unfolding min.bounded_iff le_mutex_priority th using m by auto
qed

text \<open>The invariant after the move, but for the owner of the mutex.\<close>

lemma pi_requeue:
  assumes i: "pi_but {t} k" and g: "thread_get_mutex_priority t k = p" and p: "p < prio k t" and t: "t \<in> set (lists k (Wait m))"
    and m: "is_mutex k m" and own: "owner (mutexes k m) = Some own"
    and th: "threads k1 = (threads k)(t := (threads k t)\<lparr>current_priority := p, number_mask := n\<rparr>)" and s: "sched_inv k1"
    and o: "only_sched k k1" and l: "\<And>q. \<not> is_ready q \<Longrightarrow> lists k1 q = lists k q"
  shows "pi_but {own} (requeue m t k1)"
    and "thread_get_mutex_priority own (requeue m t k1) \<noteq> prio (requeue m t k1) own \<longrightarrow>
       thread_get_mutex_priority own (requeue m t k1) = p \<and> p < prio (requeue m t k1) own"
proof -
  have mx: "mutexes k1 = mutexes k" "objects k1 = objects k" "taken k1 = taken k"
    using o by (cases k; cases k1; simp add: only_sched_def)+
  have pr: "prio k1 = (prio k)(t := p)" by (auto simp: th)
  let ?k = "requeue m t k1" let ?l = "prio_insert (prio k1) t (removeAll t (lists k (Wait m)))"
  note ok = mutex_okD [OF pi_butD(6) [OF i m]]
  have rq: "sched_inv ?k" "lists ?k = (lists k1)(Wait m := ?l)"
    "mutexes ?k = (mutexes k)(m := (mutexes k m)\<lparr>mutex_priority := front_priority (prio k1) ?l\<rparr>)"
    using requeue_effect [OF s, of t m] t ok(1) by (simp_all add: l mx)
  note fr = requeue_front [OF ok(3) t p, folded pr]
  have ty: "rt_object_get_type x ?k = rt_object_get_type x k" for x by (simp add: rt_object_get_type_def mx)
  have tw: "t \<notin> set (lists k (Wait m'))" if "m' \<noteq> m" for m' using sched_butD(4) [OF pi_butD(1) [OF i] t, of "Wait m'"] that by auto
  have tk: "m \<in> set (taken k u) \<longleftrightarrow> u = own" for u using pi_butD(4) [OF i, of m u] m own by auto
  have gu: "thread_get_mutex_priority u ?k = prio ?k u" if "u \<noteq> own" for u
  proof -
    have "thread_get_mutex_priority u ?k = thread_get_mutex_priority u k"
      by (rule mutex_priority_cong) (use tk [of u] that in \<open>auto simp: mx th rq(3)\<close>)
    then show ?thesis using pi_butD(7) [OF i, of u] g by (simp add: pr th)
  qed
  show "pi_but {own} ?k"
  proof (rule pi_butI)
    show "finite {u. suspended (threads ?k u)}" by (rule finite_subset [OF _ pi_butD(2) [OF i]]) (auto simp: th split: if_splits)
    show "registered ?k u" if "started (threads ?k u)" for u
      using pi_butD(3) [OF i, of u] that registered_cong [of ?k k] by (auto simp: started_def th mx split: if_splits)
    show "m' \<in> set (taken ?k u) \<longleftrightarrow> is_mutex ?k m' \<and> owner (mutexes ?k m') = Some u" for u m'
      using pi_butD(4) [OF i, of m' u] by (simp add: ty mx rq)
    show "pending_object (threads ?k u) = Some m' \<longleftrightarrow> is_mutex ?k m' \<and> u \<in> set (lists ?k (Wait m'))" for u m'
      using pi_butD(5) [OF i, of u m'] fr(2) by (auto simp: ty th rq l)
    show "mutex_ok ?k m'" if m': "is_mutex ?k m'" for m'
    proof (cases "m' = m")
      case True
      then show ?thesis using ok(1,2,6) own fr(1) by (auto simp: mutex_ok_def rq pr [symmetric] th started_def)
    next
      case False
      then show ?thesis using pi_butD(6) [OF i, of m'] m' tw [OF False]
        by - (rule mutex_ok_cong [of k]; auto simp: ty rq l th started_def)
    qed
    show "init_priority (threads ?k u) < 32" for u using pi_butD(8) [OF i, of u] by (auto simp: th)
  qed (use gu rq(1) in simp_all)
  let ?f = "front_priority (prio k1) ?l"
  have f: "?f = mutex_priority (mutexes k m) \<or> ?f = p \<and> p < mutex_priority (mutexes k m)" using fr(3) ok(4) by simp
  then have "thread_get_mutex_priority own ?k = min (thread_get_mutex_priority own k) ?f"
    by (intro mutex_priority_lower [of m]) (use tk [of own] in \<open>auto simp: mx th rq(3)\<close>)
  moreover have "thread_get_mutex_priority own k \<le> mutex_priority (mutexes k m)"
    using le_mutex_priority [of "thread_get_mutex_priority own k" own k] tk [of own] by simp
  ultimately show "thread_get_mutex_priority own ?k \<noteq> prio ?k own \<longrightarrow> thread_get_mutex_priority own ?k = p \<and> p < prio ?k own"
    using f g pi_butD(7) [OF i, of own] by (cases "own = t") (auto simp: th min_def)
qed

lemma boost_waiting:
  assumes i: "pi_but {t} k" and g: "thread_get_mutex_priority t k = p" and p: "p < prio k t"
    and m: "pending_object (threads k t) = Some m"
  shows "\<exists>k1 own. change_priority t p k = Some k1 \<and> is_mutex k1 m \<and> suspended (threads k1 t) \<and> pending_object (threads k1 t) = Some m \<and>
    mutex_flag (mutexes k1 m) = RT_IPC_FLAG_PRIO \<and>
    owner (mutexes (requeue m t k1) m) = Some own \<and> pi_but {own} (requeue m t k1) \<and> boosted p k (requeue m t k1) \<and>
    prio (requeue m t k1) t = p \<and> suspended (threads k t) \<and>
    (thread_get_mutex_priority own (requeue m t k1) \<noteq> prio (requeue m t k1) own \<longrightarrow>
       thread_get_mutex_priority own (requeue m t k1) = p \<and> p < prio (requeue m t k1) own)"
proof -
  note s = pi_butD(1) [OF i]
  have mm: "is_mutex k m" and tl: "t \<in> set (lists k (Wait m))" using pi_butD(5) [OF i, of t m] m by auto
  have su: "suspended (threads k t)" using sched_butD(3) [OF s tl] by simp
  have p32: "p < 32" using p sched_butD(5) [OF s, of t] by (simp add: thread_ok_def)
  obtain k1 where k1: "change_priority t p k = Some k1" "sched_inv k1" "only_sched k k1" "current k1 = current k"
    "threads k1 = (threads k)(t := (threads k t)\<lparr>current_priority := p, number_mask := push_bit p 1\<rparr>)"
    "\<And>q. \<not> is_ready q \<Longrightarrow> lists k1 q = lists k q"
    by (rule change_priority_spec [OF s p32 pi_butD(3) [OF i]]) (use su suspended_started in auto)
  have mx: "mutexes k1 = mutexes k" "objects k1 = objects k" using k1(3) by (cases k; cases k1; simp add: only_sched_def)+
  note ok = mutex_okD [OF pi_butD(6) [OF i mm]]
  obtain own where own: "owner (mutexes k m) = Some own" using ok(5) tl by (cases "lists k (Wait m)") auto
  have tl1: "t \<in> set (lists k1 (Wait m))" and f1: "mutex_flag (mutexes k1 m) = RT_IPC_FLAG_PRIO" using tl ok(1) by (simp_all add: k1(6) mx)
  have "boosted p k (requeue m t k1)"
    by (rule boosted_trans [OF boosted_change [OF k1(3,4,6) p k1(5)] boosted_requeue [OF k1(2) tl1 f1]])
  moreover have "owner (mutexes (requeue m t k1) m) = Some own" by (simp add: requeue_effect(3) [OF k1(2) tl1 f1] mx own)
  moreover have "is_mutex k1 m" using mm by (simp add: rt_object_get_type_def mx)
  moreover have "prio (requeue m t k1) t = p" "suspended (threads k1 t)" "pending_object (threads k1 t) = Some m" using su m by (simp_all add: k1(5))
  ultimately show ?thesis using pi_requeue [OF i g p tl mm own k1(5,2,3,6)] su k1(1) f1 by blast
qed


text \<open>The code of the update at a waiting thread, and the threads that are still below the priority.\<close>

lemma update_waiting:
  assumes "change_priority t p k = Some k1" "is_mutex k1 m" "suspended (threads k1 t)" "pending_object (threads k1 t) = Some m"
    "owner (mutexes (requeue m t k1) m) = Some own"
  shows "thread_update_priority t p sf k =
    (if thread_get_mutex_priority own (requeue m t k1) \<noteq> prio (requeue m t k1) own
     then thread_update_priority own (thread_get_mutex_priority own (requeue m t k1)) sf (requeue m t k1) else Some (requeue m t k1))"
proof -
  have s: "suspended (threads (tlist_remove t k1) t)" using assms(3) by (simp add: tlist_remove_def)
  have "mutex_update_priority m (ipc_list_insert (Wait m) t (mutex_flag (mutexes k1 m)) (tlist_remove t k1)) = requeue m t k1"
    by (simp add: requeue_def)
  then show ?thesis using assms s
    by (subst thread_update_priority.simps) (simp add: ipc_list_suspend_def Let_def tlist_remove_def)
qed

definition below :: "nat \<Rightarrow> kernel \<Rightarrow> tid set" where
  "below p k = {u. suspended (threads k u) \<and> p < prio k u}"

lemma below_decreases:
  assumes b: "boosted p k k'" and t: "prio k' t = p" "suspended (threads k t)" "p < prio k t" and f: "finite {u. suspended (threads k u)}"
  shows "card (below p k') < card (below p k)"
proof (rule psubset_card_mono)
  show "finite (below p k)" using f by (rule rev_finite_subset) (auto simp: below_def)
  have "u \<in> below p k" if "u \<in> below p k'" for u using that boostedD(9,10) [OF b, of u] by (auto simp: below_def)
  moreover have "t \<in> below p k" "t \<notin> below p k'" using t by (auto simp: below_def)
  ultimately show "below p k' \<subset> below p k" by blast
qed

text \<open>
  The whole chain: the update ends, every thread on the way gets the priority, and the invariant holds
  again.  Each step takes a suspended thread out of those below the priority \<open>p\<close>, so the recursion ends
  even when the threads wait for each other in a circle.
\<close>

lemma update_priority_spec:
  assumes "pi_but {t} k" "thread_get_mutex_priority t k = p" "p < prio k t" "started (threads k t)"
  shows "\<exists>k'. thread_update_priority t p sf k = Some k' \<and> pi_inv k' \<and> boosted p k k' \<and> prio k' t = p"
  using assms
proof (induction "card (below p k)" arbitrary: k t rule: less_induct)
  case less
  show ?case
  proof (cases "pending_object (threads k t)")
    case None
    obtain k' where k': "change_priority t p k = Some k'" "pi_inv k'" "boosted p k k'" "prio k' t = p"
      using boost_free [OF less.prems None] by blast
    have "pending_object (threads k' t) = None" using None by (simp add: boostedD(11) [OF k'(3)])
    then have "thread_update_priority t p sf k = Some k'" by (subst thread_update_priority.simps) (simp add: k'(1))
    then show ?thesis using k' by blast
  next
    case (Some m)
    from boost_waiting [OF less.prems(1-3) Some] obtain k1 own where k1: "change_priority t p k = Some k1" "is_mutex k1 m"
      "suspended (threads k1 t)" "pending_object (threads k1 t) = Some m"
      and k2: "owner (mutexes (requeue m t k1) m) = Some own" "pi_but {own} (requeue m t k1)" "boosted p k (requeue m t k1)"
      "prio (requeue m t k1) t = p" "suspended (threads k t)"
      and g: "thread_get_mutex_priority own (requeue m t k1) \<noteq> prio (requeue m t k1) own \<longrightarrow>
         thread_get_mutex_priority own (requeue m t k1) = p \<and> p < prio (requeue m t k1) own"
      by (elim exE conjE) (rule that)
    let ?k = "requeue m t k1"
    note u = update_waiting [OF k1 k2(1), of sf]
    show ?thesis
    proof (cases "thread_get_mutex_priority own ?k = prio ?k own")
      case True
      then have "pi_inv ?k" using k2(2) by (auto simp: pi_but_def)
      then show ?thesis using u True k2(3,4) by auto
    next
      case False
      then have g': "thread_get_mutex_priority own ?k = p" "p < prio ?k own" using g by blast+
      have "started (threads ?k own)"
        using mutex_okD(6) [OF pi_butD(6) [OF k2(2), of m] k2(1)] k1(2) by (simp add: rt_object_get_type_def)
      then obtain k' where k': "thread_update_priority own p sf ?k = Some k'" "pi_inv k'" "boosted p ?k k'"
        using less.hyps [of ?k own, OF _ k2(2) g'] below_decreases [OF k2(3-5) less.prems(3) pi_butD(2) [OF less.prems(1)]] by blast
      have "prio k' t = p" using boostedD(8) [OF k'(3), of t] k2(4) by auto
      then show ?thesis using k' u False g' boosted_trans [OF k2(3) k'(3)] by auto
    qed
  qed
qed

end
