(* ===== verification/KPool.thy ===== *)
theory KPool
  imports KHeap KMutex
begin

text \<open>
  Memory pools (\<open>src/mempool.c\<close>): blocks of one size, each behind a pointer that links the free blocks or, in a
  block that has been handed out, names the pool it goes back to.  A pool is known by the address of its control
  block; \<open>mp_mem\<close> are the pointers in memory, by their address.  \<open>rt_mp_alloc\<close> is split at its \<open>rt_schedule\<close>: what
  the thread does when it runs again is \<open>rt_mp_alloc_resume\<close>, which is the rest of the loop.
\<close>

subsection \<open>The code\<close>

record rt_mempool =
  start_address :: addr
  pool_size :: u32
  pool_block_size :: u32
  block_list :: addr
  block_total_count :: u32
  block_free_count :: u32

record mp_state =
  mempools :: "addr \<Rightarrow> rt_mempool"
  mp_mem :: "addr \<Rightarrow> addr"

abbreviation (input) OPool :: "addr \<Rightarrow> obj" where "OPool mp \<equiv> OMemPool (unat mp)"
abbreviation (input) suspend_thread :: "addr \<Rightarrow> qid" where "suspend_thread mp \<equiv> Wait (unat mp)"

definition upd_pool :: "addr \<Rightarrow> (rt_mempool \<Rightarrow> rt_mempool) \<Rightarrow> mp_state \<Rightarrow> mp_state" where
  "upd_pool mp f m = m\<lparr>mempools := (mempools m)(mp := f (mempools m mp))\<rparr>"

definition store_ptr :: "addr \<Rightarrow> addr \<Rightarrow> mp_state \<Rightarrow> mp_state" where
  "store_ptr a p m = m\<lparr>mp_mem := (mp_mem m)(a := p)\<rparr>"

text \<open>The loop that links the \<open>n\<close> blocks of a new pool, and the store behind it that ends the list.\<close>

definition link_blocks :: "addr \<Rightarrow> u32 \<Rightarrow> nat \<Rightarrow> mp_state \<Rightarrow> mp_state" where
  "link_blocks block_ptr stride n m =
     store_ptr (block_ptr + (of_nat n - 1) * stride) NULL
       (fold (\<lambda>offset. store_ptr (block_ptr + of_nat offset * stride) (block_ptr + (of_nat offset + 1) * stride)) [0..<n] m)"

text \<open>The end of \<open>rt_mp_init\<close> and of \<open>rt_mp_create\<close>.\<close>

definition mp_setup :: "addr \<Rightarrow> addr \<Rightarrow> u32 \<Rightarrow> u32 \<Rightarrow> u32 \<Rightarrow> kernel \<times> mp_state \<Rightarrow> kernel \<times> mp_state" where
  "mp_setup mp start sz bsize n = (\<lambda>(k, m).
     let k = ipc_object_init (unat mp) k;
         m = link_blocks start (bsize + 4) (unat n) m;
         m = upd_pool mp (\<lambda>_. \<lparr>start_address = start, pool_size = sz, pool_block_size = bsize, block_list = start,
               block_total_count = n, block_free_count = n\<rparr>) m
     in (k, m))"

definition rt_mp_init :: "addr \<Rightarrow> string \<Rightarrow> addr \<Rightarrow> u32 \<Rightarrow> u32 \<Rightarrow> kernel \<times> mp_state \<Rightarrow> ((kernel \<times> mp_state) \<times> err) option" where
  "rt_mp_init mp name start sz bsize = (\<lambda>(k, m).
     do {
       rt_assert (mp \<noteq> NULL);
       rt_assert (start \<noteq> NULL);
       rt_assert (sz > 0 \<and> bsize > 0);
       k \<leftarrow> rt_object_init (OPool mp) Class_MemPool name k;
       let sz = RT_ALIGN_DOWN sz RT_ALIGN_SIZE;
       let bsize = RT_ALIGN bsize RT_ALIGN_SIZE;
       Some (mp_setup mp start sz bsize (sz div (bsize + 4)) (k, m), RT_EOK)
     })"

definition rt_mp_detach :: "addr \<Rightarrow> kernel \<times> mp_state \<Rightarrow> ((kernel \<times> mp_state) \<times> err) option" where
  "rt_mp_detach mp = (\<lambda>(k, m).
     do {
       rt_assert (mp \<noteq> NULL);
       rt_assert (rt_object_get_type (OPool mp) k = Class_MemPool);
       rt_assert (rt_object_is_systemobject (OPool mp) k);
       k \<leftarrow> ipc_list_resume_all (suspend_thread mp) k;
       Some ((rt_object_detach (OPool mp) k, m), RT_EOK)
     })"

text \<open>The room for the blocks comes from the kernel's heap.  The memory of the control block is an argument, as in the
  other objects: \<open>None\<close> when \<open>rt_object_allocate\<close> got none.\<close>

definition rt_mp_create :: "addr option \<Rightarrow> string option \<Rightarrow> string \<Rightarrow> u32 \<Rightarrow> u32 \<Rightarrow> (kernel \<times> mp_state) \<times> heap \<Rightarrow>
    (((kernel \<times> mp_state) \<times> heap) \<times> addr) option" where
  "rt_mp_create control thread_name name block_count bsize = (\<lambda>((k, m), h).
     do {
       not_in_interrupt k;
       rt_assert (block_count > 0 \<and> bsize > 0);
       (k, _) \<leftarrow> rt_object_allocate (map_option OPool control) Class_MemPool name k;
       case control of
         None \<Rightarrow> Some (((k, m), h), NULL)
       | Some mp \<Rightarrow> do {
           let bsize = RT_ALIGN bsize RT_ALIGN_SIZE;
           let m = upd_pool mp (\<lambda>p. p\<lparr>pool_block_size := bsize, pool_size := (bsize + 4) * block_count\<rparr>) m;
           (h, start) \<leftarrow> rt_malloc thread_name ((bsize + 4) * block_count) h;
           let m = upd_pool mp (\<lambda>p. p\<lparr>start_address := start\<rparr>) m;
           if start = NULL then do {
             k \<leftarrow> rt_object_delete (OPool mp) k;
             Some (((k, m), h), NULL)
           }
           else Some ((mp_setup mp start ((bsize + 4) * block_count) bsize block_count (k, m), h), mp)
         }
     })"

definition rt_mp_delete :: "addr \<Rightarrow> (kernel \<times> mp_state) \<times> heap \<Rightarrow> (((kernel \<times> mp_state) \<times> heap) \<times> err) option" where
  "rt_mp_delete mp = (\<lambda>((k, m), h).
     do {
       not_in_interrupt k;
       rt_assert (mp \<noteq> NULL);
       rt_assert (rt_object_get_type (OPool mp) k = Class_MemPool);
       rt_assert (\<not> rt_object_is_systemobject (OPool mp) k);
       k \<leftarrow> ipc_list_resume_all (suspend_thread mp) k;
       h \<leftarrow> rt_free (start_address (mempools m mp)) h;
       k \<leftarrow> rt_object_delete (OPool mp) k;
       Some (((k, m), h), RT_EOK)
     })"

text \<open>The caller waits: the newest waiting thread comes first.\<close>

definition mp_wait :: "addr \<Rightarrow> cint \<Rightarrow> kernel \<Rightarrow> kernel option" where
  "mp_wait mp time k =
     do {
       not_in_interrupt k;
       t \<leftarrow> current k;
       let k = upd_thread t (\<lambda>th. th\<lparr>error := RT_EOK\<rparr>) k;
       (k, _) \<leftarrow> rt_thread_suspend t k;
       let k = tlist_insert_after (suspend_thread mp) t k;
       k \<leftarrow> (if sint time > 0 then start_thread_timer t time k else Some k);
       rt_schedule k
     }"

text \<open>A block is available.\<close>

definition mp_take :: "addr \<Rightarrow> mp_state \<Rightarrow> (mp_state \<times> addr) option" where
  "mp_take mp m =
     do {
       let block_ptr = block_list (mempools m mp);
       let m = upd_pool mp (\<lambda>p. p\<lparr>block_free_count := block_free_count p - 1\<rparr>) m;
       rt_assert (block_ptr \<noteq> NULL);
       let m = upd_pool mp (\<lambda>p. p\<lparr>block_list := mp_mem m block_ptr\<rparr>) m;
       Some (store_ptr block_ptr mp m, block_ptr + 4)
     }"

definition rt_mp_alloc :: "addr \<Rightarrow> cint \<Rightarrow> kernel \<times> mp_state \<Rightarrow> ((kernel \<times> mp_state) \<times> addr outcome) option" where
  "rt_mp_alloc mp time = (\<lambda>(k, m).
     do {
       rt_assert (mp \<noteq> NULL);
       if block_free_count (mempools m mp) = 0
       then if time = 0 then Some ((rt_set_errno RT_ETIMEOUT k, m), Ret NULL)
            else do { k \<leftarrow> mp_wait mp time k; Some ((k, m), Blocked) }
       else do { (m, b) \<leftarrow> mp_take mp m; Some ((k, m), Ret b) }
     })"

definition rt_mp_alloc_resume :: "addr \<Rightarrow> cint \<Rightarrow> u32 \<Rightarrow> tid \<Rightarrow> kernel \<times> mp_state \<Rightarrow> ((kernel \<times> mp_state) \<times> addr outcome) option" where
  "rt_mp_alloc_resume mp time before_sleep t = (\<lambda>(k, m).
     if error (threads k t) \<noteq> RT_EOK then Some ((k, m), Ret NULL)
     else rt_mp_alloc mp (time_left time before_sleep k) (k, m))"

definition rt_mp_free :: "addr \<Rightarrow> kernel \<times> mp_state \<Rightarrow> (kernel \<times> mp_state) option" where
  "rt_mp_free block' = (\<lambda>(k, m).
     if block' = NULL then Some (k, m)
     else do {
       let block_ptr = block' - 4;
       let mp = mp_mem m block_ptr;
       let m = upd_pool mp (\<lambda>p. p\<lparr>block_free_count := block_free_count p + 1\<rparr>) m;
       let m = store_ptr block_ptr (block_list (mempools m mp)) m;
       let m = upd_pool mp (\<lambda>p. p\<lparr>block_list := block_ptr\<rparr>) m;
       if \<not> rt_list_isempty (suspend_thread mp) k then do {
         k \<leftarrow> ipc_list_resume (suspend_thread mp) k;
         k \<leftarrow> rt_schedule k;
         Some (k, m)
       }
       else Some (k, m)
     })"


subsection \<open>The free blocks\<close>

text \<open>The first \<open>n\<close> blocks of a list of free blocks.\<close>

primrec walk :: "nat \<Rightarrow> (addr \<Rightarrow> addr) \<Rightarrow> addr \<Rightarrow> addr list" where
  "walk 0 mem p = []"
| "walk (Suc n) mem p = p # walk n mem (mem p)"

lemma length_walk [simp]: "length (walk n mem p) = n"
  by (induction n arbitrary: p) auto

lemma walk_upd: "a \<notin> set (walk n mem p) \<Longrightarrow> walk n (mem(a := v)) p = walk n mem p"
  by (induction n arbitrary: p) auto

definition mp_block :: "rt_mempool \<Rightarrow> nat \<Rightarrow> addr" where
  "mp_block p i = start_address p + of_nat i * (pool_block_size p + 4)"

definition mp_blocks :: "rt_mempool \<Rightarrow> addr set" where
  "mp_blocks p = mp_block p ` {..<unat (block_total_count p)}"

definition mp_free_blocks :: "addr \<Rightarrow> mp_state \<Rightarrow> addr list" where
  "mp_free_blocks mp m = walk (unat (block_free_count (mempools m mp))) (mp_mem m) (block_list (mempools m mp))"

text \<open>The blocks lie behind each other in memory that ends where the address space does.\<close>

definition pool_fits :: "rt_mempool \<Rightarrow> bool" where
  "pool_fits p \<longleftrightarrow> start_address p \<noteq> NULL \<and> 0 < pool_block_size p \<and>
     unat (start_address p) + unat (block_total_count p) * (unat (pool_block_size p) + 4) < 2 ^ 32"

text \<open>The list of free blocks has the length the counter says and holds each block at most once; every other block
  has been handed out and points to the pool.\<close>

definition mp_ok :: "addr \<Rightarrow> mp_state \<Rightarrow> bool" where
  "mp_ok mp m \<longleftrightarrow> mp \<noteq> NULL \<and> pool_fits (mempools m mp) \<and> distinct (mp_free_blocks mp m) \<and>
     set (mp_free_blocks mp m) \<subseteq> mp_blocks (mempools m mp) \<and>
     (\<forall>b\<in>mp_blocks (mempools m mp) - set (mp_free_blocks mp m). mp_mem m b = mp)"

definition mp_taken :: "addr \<Rightarrow> mp_state \<Rightarrow> addr set" where
  "mp_taken mp m = mp_blocks (mempools m mp) - set (mp_free_blocks mp m)"

lemma mp_okD:
  assumes "mp_ok mp m"
  shows "mp \<noteq> NULL" "pool_fits (mempools m mp)" "distinct (mp_free_blocks mp m)"
    "set (mp_free_blocks mp m) \<subseteq> mp_blocks (mempools m mp)" "b \<in> mp_taken mp m \<Longrightarrow> mp_mem m b = mp"
    "b \<in> mp_taken mp m \<Longrightarrow> b \<in> mp_blocks (mempools m mp)"
  using assms by (auto simp: mp_ok_def mp_taken_def)

lemma unat_mp_block:
  assumes p: "pool_fits p" and i: "i < unat (block_total_count p)"
  shows "unat (mp_block p i) = unat (start_address p) + i * (unat (pool_block_size p) + 4)"
    "unat (mp_block p i) + unat (pool_block_size p) + 4 \<le>
       unat (start_address p) + unat (block_total_count p) * (unat (pool_block_size p) + 4)"
proof -
  let ?s = "unat (pool_block_size p) + 4" and ?n = "unat (block_total_count p)"
  have f: "unat (start_address p) + ?n * ?s < 2 ^ 32" using p by (simp add: pool_fits_def)
  have "Suc i * ?s \<le> ?n * ?s" using i by (intro mult_le_mono1) simp
  then have le: "i * ?s + ?s \<le> ?n * ?s" by simp
  have "mp_block p i = of_nat (unat (start_address p) + i * ?s)" by (simp add: mp_block_def)
  moreover have "unat (start_address p) + i * ?s < 2 ^ 32" using f le by linarith
  ultimately show u: "unat (mp_block p i) = unat (start_address p) + i * ?s"
    using unat_of_nat_small [of "unat (start_address p) + i * ?s", where 'a = 32] by (simp del: of_nat_add of_nat_mult)
  show "unat (mp_block p i) + unat (pool_block_size p) + 4 \<le> unat (start_address p) + ?n * ?s" using u le by simp
qed

lemma mp_block_room:
  assumes p: "pool_fits p" and b: "b \<in> mp_blocks p"
  shows "b \<noteq> NULL" "unat (b + 4) = unat b + 4" "unat (start_address p) \<le> unat b"
    "unat b + unat (pool_block_size p) + 4 \<le> unat (start_address p) + unat (block_total_count p) * (unat (pool_block_size p) + 4)"
proof -
  obtain i where i: "i < unat (block_total_count p)" "b = mp_block p i" using b by (auto simp: mp_blocks_def)
  note u = unat_mp_block [OF p i(1), folded i(2)]
  show s: "unat (start_address p) \<le> unat b" and "unat b + unat (pool_block_size p) + 4 \<le>
      unat (start_address p) + unat (block_total_count p) * (unat (pool_block_size p) + 4)" using u by simp_all
  have f: "unat (start_address p) > 0" "unat b + 4 < 2 ^ 32" using p u(2) by (auto simp: pool_fits_def unat_gt_0)
  show "b \<noteq> NULL" using f(1) s by auto
  show "unat (b + 4) = unat b + 4" using f(2) by (subst unat_add_lem [THEN iffD1]) simp_all
qed

lemma mp_blocks_apart:
  assumes p: "pool_fits p" and b: "b \<in> mp_blocks p" "b' \<in> mp_blocks p" "b \<noteq> b'"
  shows "block (unat b, unat (pool_block_size p) + 4) \<inter> block (unat b', unat (pool_block_size p) + 4) = {}"
proof -
  let ?s = "unat (pool_block_size p) + 4"
  obtain i j where i: "i < unat (block_total_count p)" "b = mp_block p i" and j: "j < unat (block_total_count p)" "b' = mp_block p j"
    using b by (auto simp: mp_blocks_def)
  note u = unat_mp_block(1) [OF p i(1)] unat_mp_block(1) [OF p j(1)]
  have "i < j \<or> j < i" using b(3) i(2) j(2) linorder_neq_iff by blast
  then have "Suc i * ?s \<le> j * ?s \<or> Suc j * ?s \<le> i * ?s" using mult_le_mono1 [of "Suc i" j ?s] mult_le_mono1 [of "Suc j" i ?s] by auto
  then show ?thesis using u i(2) j(2) by (auto simp: block_def)
qed

lemma mp_block_inj: "pool_fits p \<Longrightarrow> inj_on (mp_block p) {..<unat (block_total_count p)}"
proof (rule inj_onI)
  fix i j assume p: "pool_fits p"
    and ij: "i \<in> {..<unat (block_total_count p)}" "j \<in> {..<unat (block_total_count p)}" "mp_block p i = mp_block p j"
  then have "i * (unat (pool_block_size p) + 4) = j * (unat (pool_block_size p) + 4)"
    using unat_mp_block(1) [OF p, of i] unat_mp_block(1) [OF p, of j] by (simp only: lessThan_iff add_left_cancel)
  then show "i = j" by (simp only: mult_cancel2) simp
qed

lemma card_mp_blocks: "pool_fits p \<Longrightarrow> card (mp_blocks p) = unat (block_total_count p)"
  using card_image [OF mp_block_inj] by (simp add: mp_blocks_def)

lemma free_count_card:
  assumes "mp_ok mp m"
  shows "unat (block_free_count (mempools m mp)) + card (mp_taken mp m) = unat (block_total_count (mempools m mp))"
proof -
  note d = mp_okD(3,4) [OF assms]
  have "card (mp_blocks (mempools m mp)) = card (set (mp_free_blocks mp m)) + card (mp_taken mp m)"
    unfolding mp_taken_def card_Diff_subset [OF finite_set d(2)]
    using card_mono [OF _ d(2)] by (simp add: mp_blocks_def)
  moreover have "card (set (mp_free_blocks mp m)) = unat (block_free_count (mempools m mp))"
    using distinct_card [OF d(1)] by (simp add: mp_free_blocks_def)
  ultimately show ?thesis using card_mp_blocks [OF mp_okD(2) [OF assms]] by simp
qed


subsection \<open>Taking and giving back\<close>

lemma upd_pool_simps [simp]:
  "mempools (upd_pool mp f m) = (mempools m)(mp := f (mempools m mp))" "mp_mem (upd_pool mp f m) = mp_mem m"
  "mempools (store_ptr a v m) = mempools m" "mp_mem (store_ptr a v m) = (mp_mem m)(a := v)"
  by (simp_all add: upd_pool_def store_ptr_def)

lemma mp_take_spec:
  assumes ok: "mp_ok mp m" and n: "block_free_count (mempools m mp) \<noteq> 0"
  obtains m' b where "mp_take mp m = Some (m', b + 4)" "mp_ok mp m'" "mp_free_blocks mp m = b # mp_free_blocks mp m'"
    "mp_taken mp m' = insert b (mp_taken mp m)" "b \<notin> mp_taken mp m" "\<And>q. q \<noteq> mp \<Longrightarrow> mempools m' q = mempools m q"
    "mempools m' mp = (mempools m mp)\<lparr>block_free_count := block_free_count (mempools m mp) - 1, block_list := block_list (mempools m' mp)\<rparr>"
proof -
  let ?p = "mempools m mp"
  let ?b = "block_list ?p"
  let ?m = "store_ptr ?b mp (upd_pool mp (\<lambda>p. p\<lparr>block_free_count := block_free_count p - 1, block_list := mp_mem m ?b\<rparr>) m)"
  have c: "unat (block_free_count ?p) = Suc (unat (block_free_count ?p - 1))" using unat_minus_one [OF n] n [folded unat_gt_0] by linarith
  have w: "mp_free_blocks mp m = ?b # walk (unat (block_free_count ?p - 1)) (mp_mem m) (mp_mem m ?b)"
    unfolding mp_free_blocks_def c by simp
  note d = mp_okD(3,4) [OF ok]
  have f: "mp_free_blocks mp ?m = walk (unat (block_free_count ?p - 1)) (mp_mem m) (mp_mem m ?b)"
    using d(1) unfolding w by (simp add: mp_free_blocks_def walk_upd)
  have b: "?b \<in> mp_blocks ?p" using d(2) unfolding w by simp
  have bl: "mp_blocks (mempools ?m mp) = mp_blocks ?p" by (simp add: mp_blocks_def mp_block_def)
  have pf: "pool_fits (mempools ?m mp)" using mp_okD(2) [OF ok] by (simp add: pool_fits_def)
  have tk: "mp_taken mp ?m = insert ?b (mp_taken mp m)" "?b \<notin> mp_taken mp m"
    using d(1) b unfolding mp_taken_def bl w f by auto
  have "mp_take mp m = Some (?m, ?b + 4)" using mp_block_room(1) [OF mp_okD(2) [OF ok] b]
    by (simp add: mp_take_def upd_pool_def store_ptr_def Let_def)
  moreover have "mp_ok mp ?m" unfolding mp_ok_def
    using mp_okD(1) [OF ok] pf d mp_okD(5) [OF ok] tk(1) unfolding bl f w mp_taken_def by auto
  ultimately show thesis using that [of ?m ?b] w f tk by simp
qed

text \<open>What \<open>rt_mp_free\<close> does to the pool.\<close>

definition mp_put :: "addr \<Rightarrow> addr \<Rightarrow> mp_state \<Rightarrow> mp_state" where
  "mp_put mp b m = upd_pool mp (\<lambda>p. p\<lparr>block_free_count := block_free_count p + 1, block_list := b\<rparr>)
     (store_ptr b (block_list (mempools m mp)) m)"

lemma mp_put_spec:
  assumes ok: "mp_ok mp m" and b: "b \<in> mp_taken mp m"
  shows "mp_ok mp (mp_put mp b m)" "mp_free_blocks mp (mp_put mp b m) = b # mp_free_blocks mp m"
    "mp_taken mp (mp_put mp b m) = mp_taken mp m - {b}"
    "block_free_count (mempools (mp_put mp b m) mp) = block_free_count (mempools m mp) + 1"
    "block_free_count (mempools (mp_put mp b m) mp) \<noteq> 0"
proof -
  let ?m = "mp_put mp b m" and ?p = "mempools m mp"
  have "finite (mp_taken mp m)" by (simp add: mp_taken_def mp_blocks_def)
  then have "0 < card (mp_taken mp m)" using b card_gt_0_iff by blast
  then have "unat (block_free_count ?p) < unat (block_total_count ?p)" using free_count_card [OF ok] by linarith
  then have lt: "block_free_count ?p < block_total_count ?p" by (simp add: word_less_nat_alt)
  then have c: "unat (block_free_count ?p + 1) = Suc (unat (block_free_count ?p))" by (rule unat_plus_one)
  show "block_free_count (mempools ?m mp) = block_free_count ?p + 1" by (simp add: mp_put_def)
  then show "block_free_count (mempools ?m mp) \<noteq> 0" using c by (metis unat_0 nat.distinct(1))
  have nf: "b \<notin> set (mp_free_blocks mp m)" using b by (simp add: mp_taken_def)
  show f: "mp_free_blocks mp ?m = b # mp_free_blocks mp m"
    using walk_upd [OF nf [unfolded mp_free_blocks_def]] c by (simp add: mp_free_blocks_def mp_put_def)
  have bl: "mp_blocks (mempools ?m mp) = mp_blocks ?p" by (simp add: mp_blocks_def mp_block_def mp_put_def)
  have pf: "pool_fits (mempools ?m mp)" using mp_okD(2) [OF ok] by (simp add: pool_fits_def mp_put_def)
  show "mp_taken mp ?m = mp_taken mp m - {b}" unfolding mp_taken_def bl f by auto
  have "mp_mem ?m x = mp_mem m x" if "x \<noteq> b" for x using that by (simp add: mp_put_def)
  then show "mp_ok mp ?m" unfolding mp_ok_def
    using mp_okD(1) [OF ok] pf mp_okD(3,4) [OF ok] mp_okD(5,6) [OF ok] nf b unfolding bl f mp_taken_def by auto
qed


subsection \<open>A new pool\<close>

lemma walk_range:
  assumes "\<And>i. j \<le> i \<Longrightarrow> Suc i < j + k \<Longrightarrow> mem (f i) = f (Suc i)"
  shows "walk k mem (f j) = map f [j..<j + k]"
  using assms
proof (induction k arbitrary: j)
  case (Suc k)
  show ?case
  proof (cases k)
    case (Suc k')
    have "mem (f j) = f (Suc j)" using Suc.prems [of j] Suc by simp
    moreover have "walk k mem (f (Suc j)) = map f [Suc j..<Suc j + k]" by (rule Suc.IH) (use Suc.prems in simp)
    ultimately show ?thesis by (simp add: upt_conv_Cons del: upt_Suc)
  qed simp
qed simp

lemma link_fold:
  assumes "inj_on f {..<n}" "k \<le> n"
  shows "mempools (fold (\<lambda>i. store_ptr (f i) (g i)) [0..<k] m) = mempools m"
    "i < k \<Longrightarrow> mp_mem (fold (\<lambda>i. store_ptr (f i) (g i)) [0..<k] m) (f i) = g i"
    "a \<notin> f ` {..<k} \<Longrightarrow> mp_mem (fold (\<lambda>i. store_ptr (f i) (g i)) [0..<k] m) a = mp_mem m a"
  using assms
proof (induction k)
  case (Suc k)
  { case 1 then show ?case using Suc by simp }
  { case 2
    have "f i \<noteq> f k" if "i \<noteq> k" using inj_onD [OF 2(2), of i k] 2(1,3) that by auto
    then show ?case using Suc(2) 2 by (cases "i = k") simp_all }
  { case 3 then show ?case using Suc by (simp add: lessThan_Suc) }
qed simp_all

lemma mp_setup_ok:
  assumes p: "pool_fits \<lparr>start_address = start, pool_size = sz, pool_block_size = bs, block_list = start,
      block_total_count = n, block_free_count = n\<rparr>" (is "pool_fits ?p") and mp: "mp \<noteq> NULL" and r: "mp_setup mp start sz bs n (k, m) = (k', m')"
  shows "mp_ok mp m'" "mp_taken mp m' = {}" "mempools m' mp = ?p" "k' = ipc_object_init (unat mp) k"
    "\<And>q. q \<noteq> mp \<Longrightarrow> mempools m' q = mempools m q" "n \<noteq> 0 \<Longrightarrow> a \<notin> mp_blocks ?p \<Longrightarrow> mp_mem m' a = mp_mem m a"
proof -
  let ?n = "unat n" and ?f = "mp_block ?p"
  let ?g = "\<lambda>i. start + (of_nat i + 1) * (bs + 4)"
  let ?m = "fold (\<lambda>i. store_ptr (?f i) (?g i)) [0..<?n] m"
  have inj: "inj_on ?f {..<?n}" using mp_block_inj [OF p] by simp
  note l = link_fold [OF inj order_refl]
  have fb: "?f = (\<lambda>i. start + of_nat i * (bs + 4))" by (rule ext) (simp add: mp_block_def)
  have m': "m' = upd_pool mp (\<lambda>_. ?p) (store_ptr (start + (n - 1) * (bs + 4)) NULL ?m)" and k': "k' = ipc_object_init (unat mp) k"
    using r by (simp_all add: mp_setup_def link_blocks_def fb Let_def)
  show "k' = ipc_object_init (unat mp) k" by (rule k')
  show e: "mempools m' mp = ?p" by (simp add: m')
  show "mempools m' q = mempools m q" if "q \<noteq> mp" for q using that by (simp add: m' l(1))
  have z: "start + (n - 1) * (bs + 4) = ?f (?n - 1)" if "n \<noteq> 0"
  proof -
    have "of_nat (?n - 1) = (of_nat (unat (n - 1)) :: u32)" by (simp only: unat_minus_one [OF that])
    then show ?thesis by (simp add: fb)
  qed
  have mm: "mp_mem m' x = (if x = ?f (?n - 1) then NULL else mp_mem ?m x)" if "n \<noteq> 0" for x by (simp only: m' z [OF that] upd_pool_simps fun_upd_apply)
  have gs: "?g i = ?f (Suc i)" for i by (simp add: fb add.commute)
  have st: "mp_mem m' (?f i) = ?f (Suc i)" if "Suc i < ?n" for i
  proof -
    have n: "n \<noteq> 0" using that by auto
    have "?f i \<noteq> ?f (?n - 1)" using inj_onD [OF inj, of i "?n - 1"] that by auto
    then show ?thesis unfolding mm [OF n] using l(2) [OF Suc_lessD [OF that], of ?g m] gs by (simp only: if_False)
  qed
  have fr: "mp_free_blocks mp m' = map ?f [0..<?n]"
    using walk_range [of 0 ?n "mp_mem m'" ?f] st by (simp add: mp_free_blocks_def e) (simp add: fb)
  have sf: "set (mp_free_blocks mp m') = mp_blocks ?p" by (simp add: fr mp_blocks_def lessThan_atLeast0)
  then show "mp_taken mp m' = {}" by (simp add: mp_taken_def e)
  have "distinct (mp_free_blocks mp m')" using inj by (simp add: fr distinct_map lessThan_atLeast0)
  then show "mp_ok mp m'" using p mp sf by (simp add: mp_ok_def e)
  show "mp_mem m' a = mp_mem m a" if n: "n \<noteq> 0" and a: "a \<notin> mp_blocks ?p"
  proof -
    have "a \<notin> ?f ` {..<?n}" using a by (simp add: mp_blocks_def)
    moreover have "a \<noteq> ?f (?n - 1)" using a n by (auto simp: mp_blocks_def unat_gt_0)
    ultimately show ?thesis using l(3) [of a ?g m] by (simp only: mm [OF n] if_False simp_thms)
  qed
qed


subsection \<open>The pool and its waiting threads\<close>

text \<open>A pool of blocks of size \<open>bs\<close> in a running system.\<close>

definition pool_inv :: "addr \<Rightarrow> u32 \<Rightarrow> kernel \<times> mp_state \<Rightarrow> bool" where
  "pool_inv mp bs = (\<lambda>(k, m). sched_inv k \<and> current k \<noteq> None \<and> waiters_ok k (suspend_thread mp) \<and>
     mp_ok mp m \<and> pool_block_size (mempools m mp) = bs)"

lemma pool_invD:
  assumes "pool_inv mp bs (k, m)"
  shows "sched_inv k" "current k \<noteq> None" "waiters_ok k (suspend_thread mp)" "mp_ok mp m" "pool_block_size (mempools m mp) = bs"
  using assms by (simp_all add: pool_inv_def)

lemma set_errno_frame:
  "sched_but S (rt_set_errno e k) = sched_but S k" "current (rt_set_errno e k) = current k" "lists (rt_set_errno e k) = lists k"
  "objects (rt_set_errno e k) = objects k" "waiters_ok (rt_set_errno e k) q = waiters_ok k q"
proof -
  have "sched_but S (k\<lparr>rt_errno := e\<rparr>) = sched_but S k" by (simp add: sched_but_def thread_ok_def)
  then show "sched_but S (rt_set_errno e k) = sched_but S k" by (simp add: rt_set_errno_def split: option.splits)
qed (simp_all add: rt_set_errno_def waiters_ok_def registered_def rt_object_get_type_def split: option.splits)

lemma waiters_ok_shrink: "waiters_ok k q \<Longrightarrow> only_core k k' \<Longrightarrow> set (lists k' q) \<subseteq> set (lists k q) \<Longrightarrow> waiters_ok k' q"
  using registered_cong [OF only_coreD(1)] by (auto simp: waiters_ok_def)

lemma mp_free_spec:
  assumes i: "pool_inv mp bs (k, m)" and b: "b \<in> mp_taken mp m"
  obtains k' where "rt_mp_free (b + 4) (k, m) = Some (k', mp_put mp b m)" "pool_inv mp bs (k', mp_put mp b m)" "only_core k k'"
    "lists k' (suspend_thread mp) = tl (lists k (suspend_thread mp))"
    "lists k (suspend_thread mp) \<noteq> [] \<Longrightarrow> runnable (threads k' (hd (lists k (suspend_thread mp)))) \<and>
       error (threads k' (hd (lists k (suspend_thread mp)))) = RT_EOK"
proof -
  let ?q = "suspend_thread mp"
  note d = pool_invD [OF i]
  obtain k' where k': "wake_other ?q () k = Some (k', Ret ())" "sched_inv k'" "current k' \<noteq> None" "only_core k k'"
    "lists k' ?q = tl (lists k ?q)" "\<And>q'. \<not> is_ready q' \<Longrightarrow> q' \<noteq> ?q \<Longrightarrow> lists k' q' = lists k q'"
    "lists k ?q \<noteq> [] \<Longrightarrow> runnable (threads k' (hd (lists k ?q))) \<and> error (threads k' (hd (lists k ?q))) = RT_EOK"
    by (rule wake_other_spec [OF d(1,2) disjI1 [OF refl] d(3), where r = "()"]) (rule that)
  have bb: "b \<in> mp_blocks (mempools m mp)" "mp_mem m b = mp" using mp_okD(5,6) [OF d(4) b] by simp_all
  have nz: "b + 4 \<noteq> NULL" using mp_block_room(2) [OF mp_okD(2) [OF d(4)] bb(1)] by auto
  have "rt_mp_free (b + 4) (k, m) = Some (k', mp_put mp b m)"
    using k'(1) nz bb(2) by (auto simp: rt_mp_free_def wake_other_def mp_put_def upd_pool_def store_ptr_def Let_def bind_eq_Some_conv split: if_splits)
  moreover have "waiters_ok k' ?q" by (rule waiters_ok_shrink [OF d(3) k'(4)]) (simp add: k'(5) set_tl)
  then have "pool_inv mp bs (k', mp_put mp b m)"
    using k'(2,3) mp_put_spec(1) [OF d(4) b] d(5) by (simp add: pool_inv_def) (simp add: mp_put_def)
  ultimately show thesis by (rule that) (use k' in simp_all)
qed

subsection \<open>A pool is a heap with blocks of one size\<close>

definition pool_live :: "addr \<Rightarrow> kernel \<times> mp_state \<Rightarrow> (nat \<times> nat) set" where
  "pool_live mp = (\<lambda>(k, m). (\<lambda>b. (unat (b + 4), unat (pool_block_size (mempools m mp)))) ` mp_taken mp m)"

definition pool_area :: "addr \<Rightarrow> kernel \<times> mp_state \<Rightarrow> nat set" where
  "pool_area mp = (\<lambda>(k, m). let p = mempools m mp
     in {unat (start_address p) ..< unat (start_address p) + unat (block_total_count p) * (unat (pool_block_size p) + 4)})"

definition pool_alloc_op :: "addr \<Rightarrow> kernel \<times> mp_state \<Rightarrow> nat \<Rightarrow> ((kernel \<times> mp_state) \<times> nat option) option" where
  "pool_alloc_op mp s _ =
     (case rt_mp_alloc mp 0 s of
        Some (s, Ret b) \<Rightarrow> Some (s, if b = NULL then None else Some (unat b))
      | _ \<Rightarrow> None)"

definition pool_free_op :: "kernel \<times> mp_state \<Rightarrow> nat \<Rightarrow> (kernel \<times> mp_state) option" where
  "pool_free_op s p = rt_mp_free (of_nat p) s"

lemma pool_alloc_contract:
  assumes i: "pool_inv mp bs s" and n: "n \<le> unat bs"
  shows "\<exists>s' r. pool_alloc_op mp s n = Some (s', r) \<and> pool_inv mp bs s' \<and> pool_area mp s' = pool_area mp s \<and>
    (case r of None \<Rightarrow> pool_live mp s' = pool_live mp s
     | Some p \<Rightarrow> \<exists>c\<ge>n. (p, c) \<notin> pool_live mp s \<and> pool_live mp s' = insert (p, c) (pool_live mp s))"
proof -
  obtain k m where s: "s = (k, m)" by fastforce
  note d = pool_invD [OF i [unfolded s]]
  have nz: "mp \<noteq> NULL" by (rule mp_okD(1) [OF d(4)])
  show ?thesis
  proof (cases "block_free_count (mempools m mp) = 0")
    case True
    then have "pool_alloc_op mp s n = Some ((rt_set_errno RT_ETIMEOUT k, m), None)"
      using nz by (simp add: pool_alloc_op_def rt_mp_alloc_def s)
    then show ?thesis using d by (simp add: s pool_inv_def pool_area_def pool_live_def set_errno_frame)
  next
    case False
    obtain m' b where m': "mp_take mp m = Some (m', b + 4)" "mp_ok mp m'" "mp_free_blocks mp m = b # mp_free_blocks mp m'"
      "mp_taken mp m' = insert b (mp_taken mp m)" "b \<notin> mp_taken mp m"
      "mempools m' mp = (mempools m mp)\<lparr>block_free_count := block_free_count (mempools m mp) - 1, block_list := block_list (mempools m' mp)\<rparr>"
      by (rule mp_take_spec [OF d(4) False]) (rule that)
    have p: "pool_block_size (mempools m' mp) = bs" "start_address (mempools m' mp) = start_address (mempools m mp)"
      "block_total_count (mempools m' mp) = block_total_count (mempools m mp)" by (subst m'(6), simp add: d(5))+
    have bb: "b \<in> mp_blocks (mempools m mp)" using mp_okD(4) [OF d(4)] m'(3) by simp
    have "b + 4 \<noteq> NULL" using mp_block_room(2) [OF mp_okD(2) [OF d(4)] bb] by auto
    then have r: "pool_alloc_op mp s n = Some ((k, m'), Some (unat (b + 4)))"
      using nz False m'(1) by (simp add: pool_alloc_op_def rt_mp_alloc_def s)
    moreover have "pool_live mp (k, m') = insert (unat (b + 4), unat bs) (pool_live mp s)"
      by (simp add: pool_live_def s p(1) d(5) m'(4))
    moreover have "(unat (b + 4), unat bs) \<notin> pool_live mp s" using m'(5) by (auto simp: pool_live_def s word_unat_eq_iff [symmetric])
    moreover have "pool_inv mp bs (k, m')" using d m'(2) p(1) by (simp add: pool_inv_def)
    moreover have "pool_area mp (k, m') = pool_area mp s" using p d(5) by (simp add: pool_area_def s Let_def)
    ultimately show ?thesis using n by auto
  qed
qed

lemma pool_free_contract:
  assumes i: "pool_inv mp bs s" and l: "(p, c) \<in> pool_live mp s"
  shows "\<exists>s'. pool_free_op s p = Some s' \<and> pool_inv mp bs s' \<and> pool_area mp s' = pool_area mp s \<and> pool_live mp s' = pool_live mp s - {(p, c)}"
proof -
  obtain k m where s: "s = (k, m)" by fastforce
  obtain b where b: "b \<in> mp_taken mp m" "p = unat (b + 4)" "c = unat (pool_block_size (mempools m mp))"
    using l by (auto simp: pool_live_def s)
  obtain k' where k': "rt_mp_free (b + 4) (k, m) = Some (k', mp_put mp b m)" "pool_inv mp bs (k', mp_put mp b m)"
    by (rule mp_free_spec [OF i [unfolded s] b(1)]) (rule that)
  have "pool_block_size (mempools (mp_put mp b m) mp) = pool_block_size (mempools m mp)" by (simp add: mp_put_def)
  moreover have "inj (\<lambda>b. (unat (b + 4 :: addr), c))" by (rule injI) (simp add: word_unat_eq_iff [symmetric])
  ultimately have "pool_live mp (k', mp_put mp b m) = pool_live mp s - {(p, c)}"
    using mp_put_spec(3) [OF pool_invD(4) [OF i [unfolded s]] b(1)] b(2,3) by (simp add: pool_live_def s image_set_diff)
  moreover have "pool_area mp (k', mp_put mp b m) = pool_area mp s" by (simp add: pool_area_def s mp_put_def Let_def)
  ultimately show ?thesis using k' b(2) by (simp add: pool_free_op_def s)
qed

interpretation mpool: heap_allocator "pool_inv mp bs" "pool_live mp" "pool_area mp" "\<lambda>n. n \<le> unat bs" "pool_alloc_op mp" pool_free_op for mp bs
proof
  fix s b assume i: "pool_inv mp bs s" and b: "b \<in> pool_live mp s"
  obtain k m where s: "s = (k, m)" by fastforce
  note d = pool_invD [OF i [unfolded s]]
  obtain x where x: "x \<in> mp_blocks (mempools m mp)" "b = (unat (x + 4), unat bs)"
    using b mp_okD(6) [OF d(4)] d(5) by (auto simp: pool_live_def s)
  note r = mp_block_room [OF mp_okD(2) [OF d(4)] x(1)]
  have "0 < unat bs" using mp_okD(2) [OF d(4)] d(5) by (auto simp: pool_fits_def word_less_nat_alt)
  then show "block b \<subseteq> pool_area mp s \<and> 0 < snd b" using r(2,3,4) d(5) x(2) by (auto simp: block_def pool_area_def s Let_def)
next
  fix s b b' assume i: "pool_inv mp bs s" and b: "b \<in> pool_live mp s" "b' \<in> pool_live mp s" "b \<noteq> b'"
  obtain k m where s: "s = (k, m)" by fastforce
  note d = pool_invD [OF i [unfolded s]]
  note f = mp_okD(2) [OF d(4)]
  obtain x y where x: "x \<in> mp_blocks (mempools m mp)" "b = (unat (x + 4), unat bs)" and y: "y \<in> mp_blocks (mempools m mp)" "b' = (unat (y + 4), unat bs)"
    using b mp_okD(6) [OF d(4)] d(5) by (auto simp: pool_live_def s)
  have "x \<noteq> y" using b(3) x(2) y(2) by auto
  from mp_blocks_apart [OF f x(1) y(1) this] show "block b \<inter> block b' = {}"
    using mp_block_room(2) [OF f x(1)] mp_block_room(2) [OF f y(1)] x(2) y(2) d(5) by (auto simp: block_def)
qed (rule pool_alloc_contract pool_free_contract; assumption)+

subsection \<open>The theorems\<close>

lemma mp_wait_spec:
  assumes it: "in_thread k t" and wt: "wait_time time"
  obtains k' where "mp_wait mp time k = Some k'" "sched_inv k'" "only_core k k'" "stat (threads k' t) = TH_SUSPEND RT_UNINTERRUPTIBLE"
    "lists k' (suspend_thread mp) = t # lists k (suspend_thread mp)" "current k' \<noteq> None"
    "sint time > 0 \<Longrightarrow> ThreadTimer t \<in> set (timer_list k') \<and> remaining k' (ThreadTimer t) = time"
proof -
  let ?k = "upd_thread t (\<lambda>th. th\<lparr>error := RT_EOK\<rparr>) k" and ?q = "suspend_thread mp"
  have it': "in_thread ?k t" using it by simp
  obtain k1 where k1: "rt_thread_suspend_with_flag t RT_UNINTERRUPTIBLE ?k = Some (k1, RT_EOK)" "sched_inv k1" "only_core ?k k1" "current k1 = Some t"
    "threads k1 = (threads ?k)(t := (threads ?k t)\<lparr>stat := TH_SUSPEND RT_UNINTERRUPTIBLE\<rparr>)" "lists k1 = lists ?k" "unlisted k1 t"
    "\<And>tm. soft (timers k1 tm) = soft (timers ?k tm)"
    by (rule suspend_self_spec [OF it', where sflag = RT_UNINTERRUPTIBLE]) (rule that)
  let ?k2 = "tlist_insert_after ?q t k1"
  have o2: "only_core k ?k2" using only_core_timed [OF k1(3)] by (rule only_core_trans) (simp add: only_core_def tlist_insert_after_def)
  have i2: "sched_inv ?k2" by (rule sched_insert_after [OF k1(2,7)]) (simp_all add: k1(5))
  have h: "current ?k2 \<noteq> None" "registered ?k2 t" "\<not> soft (timers ?k2 (ThreadTimer t))"
    using it k1(4,8) registered_cong [OF only_coreD(1) [OF o2]] by (simp_all add: in_thread_def tlist_insert_after_def)
  obtain k3 k' where k': "(if sint time > 0 then start_thread_timer t time ?k2 else Some ?k2) = Some k3" "rt_schedule k3 = Some k'"
    "sched_inv k'" "only_core ?k2 k'" "\<And>u. rescheduled (threads ?k2 u) (threads k' u)" "\<And>q'. \<not> is_ready q' \<Longrightarrow> lists k' q' = lists ?k2 q'"
    "sint time > 0 \<Longrightarrow> ThreadTimer t \<in> set (timer_list k') \<and> remaining k' (ThreadTimer t) = time" "current k' \<noteq> None"
    by (rule wait_finish_spec [OF i2 h wt]) (rule that)
  have "mp_wait mp time k = Some k'" using it k1(1) k'(1,2)
    by (simp add: mp_wait_def in_thread_def not_in_interrupt_def rt_assert_def rt_thread_suspend_def)
  then show thesis
  proof (rule that [OF _ k'(3) only_core_trans [OF o2 k'(4)]])
    have s: "threads ?k2 t = (threads ?k t)\<lparr>stat := TH_SUSPEND RT_UNINTERRUPTIBLE\<rparr>" by (simp add: tlist_insert_after_def k1(5))
    then have "threads k' t = threads ?k2 t" using rescheduledD(1) [OF k'(5) [of t]] by simp
    then show "stat (threads k' t) = TH_SUSPEND RT_UNINTERRUPTIBLE" by (simp add: s)
    show "lists k' ?q = t # lists k ?q" using k'(6) [of ?q] by (simp add: tlist_insert_after_def k1(6))
  qed (use k' in simp_all)
qed

text \<open>
  C26: \<open>rt_mp_alloc\<close> in a thread.  While the pool has a free block the caller gets one that nobody holds, and the
  kernel is left alone; an empty pool answers a call without waiting time with a null pointer and sets the error of
  the caller; otherwise the caller is suspended in front of the other waiting threads, with its timer set for a
  timed wait.
\<close>
theorem mp_alloc_spec:
  assumes i: "pool_inv mp bs (k, m)" and it: "in_thread k t" and wt: "wait_time time"
  shows "if block_free_count (mempools m mp) \<noteq> 0
    then \<exists>m' b. rt_mp_alloc mp time (k, m) = Some ((k, m'), Ret (b + 4)) \<and> pool_inv mp bs (k, m') \<and>
      b \<in> mp_blocks (mempools m mp) - mp_taken mp m \<and> mp_taken mp m' = insert b (mp_taken mp m)
    else if time = 0 then rt_mp_alloc mp time (k, m) = Some ((upd_thread t (\<lambda>th. th\<lparr>error := RT_ETIMEOUT\<rparr>) k, m), Ret NULL)
    else \<exists>k'. rt_mp_alloc mp time (k, m) = Some ((k', m), Blocked) \<and> pool_inv mp bs (k', m) \<and>
      stat (threads k' t) = TH_SUSPEND RT_UNINTERRUPTIBLE \<and> lists k' (suspend_thread mp) = t # lists k (suspend_thread mp) \<and>
      (sint time > 0 \<longrightarrow> ThreadTimer t \<in> set (timer_list k') \<and> remaining k' (ThreadTimer t) = time)"
proof -
  note d = pool_invD [OF i] and nz = mp_okD(1) [OF pool_invD(4) [OF i]]
  consider "block_free_count (mempools m mp) \<noteq> 0" | "block_free_count (mempools m mp) = 0" "time = 0"
    | "block_free_count (mempools m mp) = 0" "time \<noteq> 0" by blast
  then show ?thesis
  proof cases
    case 1
    obtain m' b where m': "mp_take mp m = Some (m', b + 4)" "mp_ok mp m'" "mp_free_blocks mp m = b # mp_free_blocks mp m'"
      "mp_taken mp m' = insert b (mp_taken mp m)" "b \<notin> mp_taken mp m"
      "mempools m' mp = (mempools m mp)\<lparr>block_free_count := block_free_count (mempools m mp) - 1, block_list := block_list (mempools m' mp)\<rparr>"
      by (rule mp_take_spec [OF d(4) 1]) (rule that)
    have "pool_block_size (mempools m' mp) = bs" by (subst m'(6)) (simp add: d(5))
    then show ?thesis using 1 m' d nz mp_okD(4) [OF d(4)] by (auto simp: rt_mp_alloc_def pool_inv_def)
  next
    case 2
    then show ?thesis using nz it by (simp add: rt_mp_alloc_def rt_set_errno_def in_thread_def)
  next
    case 3
    obtain k' where k': "mp_wait mp time k = Some k'" "sched_inv k'" "only_core k k'" "stat (threads k' t) = TH_SUSPEND RT_UNINTERRUPTIBLE"
      "lists k' (suspend_thread mp) = t # lists k (suspend_thread mp)" "current k' \<noteq> None"
      "sint time > 0 \<Longrightarrow> ThreadTimer t \<in> set (timer_list k') \<and> remaining k' (ThreadTimer t) = time"
      by (rule mp_wait_spec [OF it wt]) (rule that)
    have "waiters_ok k' (suspend_thread mp)" using d(3) it registered_cong [OF only_coreD(1) [OF k'(3)]]
      by (simp add: waiters_ok_def k'(5) in_thread_def)
    then show ?thesis using 3 nz d k' by (simp add: rt_mp_alloc_def pool_inv_def)
  qed
qed

text \<open>
  C21: A block that is given back while threads wait goes to the first of them: it becomes runnable, and when it runs
  before anybody else has taken a block its \<open>rt_mp_alloc\<close> returns this very block.
\<close>
theorem mp_waiter_served:
  assumes i: "pool_inv mp bs (k, m)" and b: "b \<in> mp_taken mp m" and l: "lists k (suspend_thread mp) = t # rest"
  shows "\<exists>k' m'. rt_mp_free (b + 4) (k, m) = Some (k', m') \<and> pool_inv mp bs (k', m') \<and> lists k' (suspend_thread mp) = rest \<and>
    runnable (threads k' t) \<and> error (threads k' t) = RT_EOK \<and>
    (\<forall>k2 time before_sleep. error (threads k2 t) = RT_EOK \<longrightarrow>
       (\<exists>m2. rt_mp_alloc_resume mp time before_sleep t (k2, m') = Some ((k2, m2), Ret (b + 4)) \<and> mp_taken mp m2 = mp_taken mp m))"
proof -
  note d = pool_invD [OF i]
  let ?m = "mp_put mp b m"
  obtain k' where k': "rt_mp_free (b + 4) (k, m) = Some (k', ?m)" "pool_inv mp bs (k', ?m)" "only_core k k'"
    "lists k' (suspend_thread mp) = tl (lists k (suspend_thread mp))"
    "lists k (suspend_thread mp) \<noteq> [] \<Longrightarrow> runnable (threads k' (hd (lists k (suspend_thread mp)))) \<and>
       error (threads k' (hd (lists k (suspend_thread mp)))) = RT_EOK"
    by (rule mp_free_spec [OF i b]) (rule that)
  note p = mp_put_spec [OF d(4) b]
  obtain m2 c where m2: "mp_take mp ?m = Some (m2, c + 4)" "mp_free_blocks mp ?m = c # mp_free_blocks mp m2" "mp_taken mp m2 = insert c (mp_taken mp ?m)"
    by (rule mp_take_spec [OF p(1,5)]) (rule that)
  have c: "c = b" using m2(2) p(2) by simp
  then have "mp_taken mp m2 = mp_taken mp m" using m2(3) p(3) b by auto
  then have "rt_mp_alloc_resume mp time before_sleep t (k2, ?m) = Some ((k2, m2), Ret (b + 4)) \<and> mp_taken mp m2 = mp_taken mp m"
    if "error (threads k2 t) = RT_EOK" for k2 time before_sleep
    using that m2(1) p(5) mp_okD(1) [OF d(4)] c by (simp add: rt_mp_alloc_resume_def rt_mp_alloc_def)
  then show ?thesis using k' l by auto
qed


lemma sched_ipc_object_init: "sched_inv k \<Longrightarrow> sched_inv (ipc_object_init x k)"
  by (auto simp: sched_but_def thread_ok_def ipc_object_init_def)

lemma object_init_total:
  assumes "sched_inv k" "current k \<noteq> None" "ob \<notin> set (containers k cls)" "cls \<noteq> Class_Null"
  obtains k' where "rt_object_init ob cls name k = Some k'" "sched_inv k'" "current k' \<noteq> None"
proof -
  let ?k = "\<lambda>n. k\<lparr>lock_nest := n\<rparr>"
  have "\<exists>k1. rt_exit_critical (rt_enter_critical k) = Some k1 \<and> current k1 \<noteq> None"
  proof (cases "sint (lock_nest k) \<le> 0")
    case True
    obtain k1 where k1: "rt_schedule (?k 0) = Some k1" using rt_schedule_total [of "?k 0"] assms(2) by auto
    then show ?thesis using True assms(2) rt_schedule_current [OF k1] by (simp add: rt_exit_critical_def rt_enter_critical_def)
  qed (use assms(2) in \<open>simp add: rt_exit_critical_def rt_enter_critical_def\<close>)
  then obtain k1 where k1: "rt_exit_critical (rt_enter_critical k) = Some k1" "current k1 \<noteq> None" by blast
  have "\<exists>k'. rt_object_init ob cls name k = Some k' \<and> current k' = current k1"
    using k1 assms(3,4) by (simp add: rt_object_init_def Let_def) (simp add: rt_enter_critical_def)
  then show thesis using that sched_object_init [OF assms(1)] k1(2) by metis
qed

lemma align_block:
  fixes bs :: u32
  assumes "0 < bs" "unat bs + 7 < 2 ^ 32"
  shows "unat bs \<le> unat (RT_ALIGN bs 8)" "0 < RT_ALIGN bs 8"
proof -
  have b: "bs \<noteq> 0" using assms(1) by auto
  show "unat bs \<le> unat (RT_ALIGN bs 8)" "0 < RT_ALIGN bs 8" using realloc_size(1,3) [OF b assms(2)] by (simp_all add: word_less_nat_alt)
qed

text \<open>The blocks of a new pool fit into its memory.\<close>

lemma init_fits:
  fixes start sz bs :: u32
  assumes st: "start \<noteq> NULL" "unat start + unat sz < 2 ^ 32" and bs: "0 < bs" "unat bs + 11 < 2 ^ 32"
  defines "B \<equiv> RT_ALIGN bs 8"
  defines "N \<equiv> RT_ALIGN_DOWN sz 8 div (B + 4)"
  shows "unat N * (unat B + 4) \<le> unat sz" "0 < B" "unat bs \<le> unat B"
    "pool_fits \<lparr>start_address = start, pool_size = sz', pool_block_size = B, block_list = p, block_total_count = N, block_free_count = n\<rparr>"
proof -
  have b: "unat bs + 7 < 2 ^ 32" using bs(2) by simp
  show z: "0 < B" and "unat bs \<le> unat B" unfolding B_def by (rule align_block [OF bs(1) b])+
  have "unat B \<le> unat bs + 7" unfolding B_def unat_align(1) [OF b] by simp
  then have "unat (B + 4) = unat B + 4" using bs(2) by (subst unat_add_lem [THEN iffD1]) simp_all
  then have "unat N * (unat B + 4) = unat (RT_ALIGN_DOWN sz 8) div (unat B + 4) * (unat B + 4)" by (simp add: N_def unat_div)
  also have "\<dots> \<le> unat (RT_ALIGN_DOWN sz 8)" by (rule div_times_less_eq_dividend)
  also have "\<dots> \<le> unat sz" unfolding unat_align(2) by (rule div_times_less_eq_dividend)
  finally show le: "unat N * (unat B + 4) \<le> unat sz" .
  then show "pool_fits \<lparr>start_address = start, pool_size = sz', pool_block_size = B, block_list = p, block_total_count = N, block_free_count = n\<rparr>"
    using st z by (simp add: pool_fits_def)
qed

text \<open>What \<open>rt_mp_init\<close> and \<open>rt_mp_create\<close> leave behind.\<close>

lemma mp_setup_inv:
  assumes k: "sched_inv k" "current k \<noteq> None" and mp: "mp \<noteq> NULL" and p: "pool_fits \<lparr>start_address = start, pool_size = sz, pool_block_size = bs, block_list = start,
      block_total_count = n, block_free_count = n\<rparr>" (is "pool_fits ?p")
  obtains m' where "mp_setup mp start sz bs n (k, m) = (ipc_object_init (unat mp) k, m')" "pool_inv mp bs (ipc_object_init (unat mp) k, m')" "mp_taken mp m' = {}"
    "mempools m' mp = ?p" "n \<noteq> 0 \<Longrightarrow> \<forall>a. a \<notin> mp_blocks ?p \<longrightarrow> mp_mem m' a = mp_mem m a"
proof -
  obtain k' m' where r: "mp_setup mp start sz bs n (k, m) = (k', m')" by fastforce
  note s = mp_setup_ok [OF p mp r]
  have "waiters_ok k' (suspend_thread mp)" by (simp add: s(4) waiters_ok_def ipc_object_init_def)
  moreover have "current k' = current k" by (simp add: s(4) ipc_object_init_def)
  ultimately have "pool_inv mp bs (k', m')" using k sched_ipc_object_init s(1,3,4) by (simp add: pool_inv_def)
  then show thesis using that [of m'] r s by blast
qed

definition pool_ops_ok :: "u32 \<Rightarrow> heap_op list \<Rightarrow> bool" where
  "pool_ops_ok bs xs \<longleftrightarrow> (\<forall>x\<in>set xs. case x of Alloc n \<Rightarrow> n \<le> unat bs | Free _ \<Rightarrow> True)"

lemma live_length:
  assumes "pool_inv mp bs (k, m)" "holds (pool_live mp) (k, m) held"
  shows "length held = card (mp_taken mp m)"
proof -
  have "length held = card (fst ` set held)" using assms(2) distinct_card [of "map fst held"] by (simp add: holds_def)
  also have "\<dots> = card (fst ` pool_live mp (k, m))" using assms(2) by (simp add: holds_def)
  also have "fst ` pool_live mp (k, m) = (\<lambda>b. unat (b + 4)) ` mp_taken mp m" by (simp add: pool_live_def image_image)
  also have "card \<dots> = card (mp_taken mp m)" by (rule card_image) (rule inj_onI, simp add: word_unat_eq_iff [symmetric])
  finally show ?thesis .
qed

text \<open>
  C11: A pool set up by \<open>rt_mp_init\<close> serves its clients whatever they take and give back: no check of the code fails, no
  two blocks in use overlap, every block lies in the memory of the pool and holds as many bytes as were asked for when the
  pool was made, and the counter of free blocks is exact, so that a client is refused only when all the blocks are in use.
\<close>
theorem mp_run_safe:
  assumes k: "sched_inv k" "current k \<noteq> None" "OPool mp \<notin> set (containers k Class_MemPool)" and mp: "mp \<noteq> NULL"
    and st: "start \<noteq> NULL" "0 < sz" "unat start + unat sz < 2 ^ 32" and bs: "0 < bs" "unat bs + 11 < 2 ^ 32"
    and xs: "pool_ops_ok bs xs"
  shows "\<exists>s0 k' m' held. rt_mp_init mp name start sz bs (k, m) = Some (s0, RT_EOK) \<and>
    heap_run (pool_alloc_op mp) pool_free_op xs (s0, []) = Some ((k', m'), held) \<and> sched_inv k' \<and>
    sorted_wrt (\<lambda>x y. block x \<inter> block y = {}) held \<and>
    (\<forall>(p, n)\<in>set held. unat start + 4 \<le> p \<and> p + n \<le> unat start + unat sz) \<and>
    unat (block_free_count (mempools m' mp)) + length held = unat (RT_ALIGN_DOWN sz 8) div unat (RT_ALIGN bs 8 + 4)"
proof -
  let ?B = "RT_ALIGN bs 8" and ?N = "RT_ALIGN_DOWN sz 8 div (RT_ALIGN bs 8 + 4)"
  note f = init_fits [OF st(1,3) bs]
  obtain k1 where k1: "rt_object_init (OPool mp) Class_MemPool name k = Some k1" "sched_inv k1" "current k1 \<noteq> None"
    by (rule object_init_total [OF k]) (simp, rule that)
  obtain m1 where m1: "mp_setup mp start (RT_ALIGN_DOWN sz 8) ?B ?N (k1, m) = (ipc_object_init (unat mp) k1, m1)"
    "pool_inv mp ?B (ipc_object_init (unat mp) k1, m1)" "mp_taken mp m1 = {}"
    "mempools m1 mp = \<lparr>start_address = start, pool_size = RT_ALIGN_DOWN sz 8, pool_block_size = ?B, block_list = start,
      block_total_count = ?N, block_free_count = ?N\<rparr>"
    by (rule mp_setup_inv [OF k1(2,3) mp f(4), where m = m]) (rule that)
  let ?s = "(ipc_object_init (unat mp) k1, m1)"
  have r: "rt_mp_init mp name start sz bs (k, m) = Some (?s, RT_EOK)"
    using mp st bs k1(1) m1(1) by (simp add: rt_mp_init_def Let_def)
  have "holds (pool_live mp) ?s []" by (simp add: holds_def pool_live_def m1(3))
  moreover have "\<forall>x\<in>set xs. case x of Alloc n \<Rightarrow> n \<le> unat ?B | _ \<Rightarrow> True"
    using xs f(3) by (auto simp: pool_ops_ok_def split: heap_op.splits intro: order_trans)
  ultimately obtain s' held where run: "heap_run (pool_alloc_op mp) pool_free_op xs (?s, []) = Some (s', held)" and i: "pool_inv mp ?B s'"
    and h: "holds (pool_live mp) s' held" and pa: "pool_area mp s' = pool_area mp ?s" using mpool.run_holds [OF m1(2)] by blast
  obtain k' m' where s': "s' = (k', m')" by fastforce
  note d = pool_invD [OF i [unfolded s']]
  let ?p = "mempools m' mp" and ?S = "unat ?B + 4"
  have N: "unat (block_total_count ?p) = unat ?N"
  proof -
    have "unat (block_total_count ?p) * ?S = unat ?N * ?S" using arg_cong [OF pa, of card] d(5) by (simp add: s' pool_area_def m1(4) Let_def)
    then show ?thesis by (simp only: mult_cancel2) simp
  qed
  have "unat start + 4 \<le> p \<and> p + n \<le> unat start + unat sz" if pn: "(p, n) \<in> set held" for p n
  proof -
    obtain b where b: "b \<in> mp_blocks ?p" "p = unat (b + 4)" "n \<le> unat ?B"
      using h pn mp_okD(6) [OF d(4)] d(5) by (fastforce simp: holds_def pool_live_def s')
    note room = mp_block_room [OF mp_okD(2) [OF d(4)] b(1)]
    have "0 < unat ?N" using b(1) N by (auto simp: mp_blocks_def)
    then have "unat (start_address ?p) = unat start" using pa d(5) N by (simp add: s' pool_area_def m1(4) Let_def atLeastLessThan_eq_iff)
    then show ?thesis using room(2-4) b(2,3) d(5) N f(1) by simp
  qed
  moreover have "unat ?N = unat (RT_ALIGN_DOWN sz 8) div unat (?B + 4)" by (simp add: unat_div)
  then have "unat (block_free_count ?p) + length held = unat (RT_ALIGN_DOWN sz 8) div unat (?B + 4)"
    using free_count_card [OF d(4)] live_length [OF i [unfolded s'] h [unfolded s']] N by simp
  ultimately show ?thesis using r run s' d(1) mpool.holds_disjoint(1) [OF i h] by blast
qed


text \<open>With less memory than one block takes, the list is ended by a store in front of the memory of the pool.\<close>

lemma mp_init_underflow:
  assumes "unat sz < unat (RT_ALIGN bs 8 + 4)" "rt_mp_init mp name start sz bs (k, m) = Some ((k', m'), e)"
  shows "mp_mem m' = (mp_mem m)(start - (RT_ALIGN bs 8 + 4) := NULL)"
proof -
  have "unat (RT_ALIGN_DOWN sz 8) \<le> unat sz" unfolding unat_align(2) by (rule div_times_less_eq_dividend)
  then have "RT_ALIGN_DOWN sz 8 div (RT_ALIGN bs 8 + 4) = 0" using assms(1) by (simp add: word_unat_eq_iff unat_div)
  then show ?thesis using assms(2) by (auto simp: rt_mp_init_def Let_def bind_eq_Some_conv mp_setup_def link_blocks_def split: if_splits)
qed

text \<open>
  \<open>rt_mp_create\<close> takes the memory of the pool from the kernel's heap, and \<open>rt_mp_delete\<close> gives it back.  When the heap has
  no room the call returns a null pointer, the heap is as before and the object is gone; otherwise all the blocks lie in one block of the
  heap that was free before, none of them is in use, and deleting the pool leaves the blocks of the heap as they were.
\<close>
theorem mp_create_delete:
  assumes k: "sched_inv k" "current k \<noteq> None" "interrupt_nest k = 0" and h: "smem_ok h" and mp: "mp \<noteq> NULL"
    and bs: "0 < bs" "unat bs + 7 < 2 ^ 32" and n: "0 < n" "(unat (RT_ALIGN bs 8) + 4) * unat n + 7 < 2 ^ 32"
  shows "\<exists>k' m' h' r. rt_mp_create (Some mp) nm name n bs ((k, m), (h, d)) = Some (((k', m'), (h', d)), r) \<and> smem_ok h' \<and>
    (if r = NULL then h' = h \<and> rt_object_get_type (OPool mp) k' = Class_Null
     else r = mp \<and> pool_inv mp (RT_ALIGN bs 8) (k', m') \<and> block_free_count (mempools m' mp) = n \<and> mp_taken mp m' = {} \<and>
       (\<exists>b\<in>smem_live h' - smem_live h. pool_area mp (k', m') \<subseteq> block b) \<and>
       (\<exists>k'' h''. rt_mp_delete mp ((k', m'), (h', d)) = Some (((k'', m'), (h'', d)), RT_EOK) \<and> smem_ok h'' \<and> smem_live h'' = smem_live h \<and>
          rt_object_get_type (OPool mp) k'' = Class_Null))"
proof -
  let ?B = "RT_ALIGN bs 8" and ?o = "OPool mp"
  let ?T = "(?B + 4) * n"
  let ?k = "k\<lparr>objects := (objects k)(?o := \<lparr>obj_type = Class_MemPool, obj_static = False, obj_name = take RT_NAME_MAX name\<rparr>),
      containers := (containers k)(Class_MemPool := ?o # containers k Class_MemPool)\<rparr>"
  let ?m = "\<lambda>p. upd_pool mp (\<lambda>q. q\<lparr>start_address := p\<rparr>) (upd_pool mp (\<lambda>q. q\<lparr>pool_block_size := ?B, pool_size := ?T\<rparr>) m)"
  note al = align_block [OF bs]
  have "?T = of_nat ((unat ?B + 4) * unat n)" by simp
  then have T: "unat ?T = (unat ?B + 4) * unat n" using n(2) unat_of_nat_small [of "(unat ?B + 4) * unat n", where 'a = 32] by (simp del: of_nat_add of_nat_mult)
  obtain h' p where h': "rt_malloc nm ?T (h, d) = Some ((h', d), p)" "granted h (unat ?T) h' p"
    by (rule malloc_granted [OF h, of ?T nm d]) (use n(2) T in simp, rule that)
  have ik: "sched_inv ?k" "current ?k \<noteq> None" using k by (simp_all add: sched_but_def thread_ok_def)
  have cr: "rt_mp_create (Some mp) nm name n bs ((k, m), (h, d)) =
      (if p = NULL then Some (((rt_object_remove ?o ?k, ?m p), (h', d)), NULL) else Some ((mp_setup mp p ?T ?B n (?k, ?m p), (h', d)), mp))"
    using k(3) bs(1) n(1) h'(1)
    by (simp add: rt_mp_create_def not_in_interrupt_def rt_assert_def rt_object_allocate_def rt_object_delete_def Let_def)
  show ?thesis
  proof (cases "p = NULL")
    case True
    have "h' = h \<and> smem_ok h'" using h'(2) True by (auto simp: granted_def)
    then show ?thesis using cr True h by (simp add: rt_object_get_type_def rt_object_remove_def)
  next
    case False
    then obtain c where c: "(unat ?B + 4) * unat n \<le> c" "(unat p, c) \<notin> smem_live h" "smem_live h' = insert (unat p, c) (smem_live h)" "unat p + c < 2 ^ 32"
      and ok': "smem_ok h'" using h'(2) T by (auto simp: granted_def)
    have "pool_fits \<lparr>start_address = p, pool_size = ?T, pool_block_size = ?B, block_list = p, block_total_count = n, block_free_count = n\<rparr>"
      using False al(2) c(1,4) by (simp add: pool_fits_def mult.commute)
    then obtain m' where m': "mp_setup mp p ?T ?B n (?k, ?m p) = (ipc_object_init (unat mp) ?k, m')" "pool_inv mp ?B (ipc_object_init (unat mp) ?k, m')"
      "mp_taken mp m' = {}" "mempools m' mp = \<lparr>start_address = p, pool_size = ?T, pool_block_size = ?B, block_list = p, block_total_count = n, block_free_count = n\<rparr>"
      by (rule mp_setup_inv [OF ik mp, where m = "?m p"]) (rule that)
    let ?k' = "ipc_object_init (unat mp) ?k"
    have "(unat p, c) \<in> smem_live h'" by (simp add: c(3))
    from smem_free_contract [OF ok' this] obtain h'' where h'': "rt_smem_free p h' = Some h''" "smem_ok h''" "smem_live h'' = smem_live h' - {(unat p, c)}"
      by (auto simp: smem_free_op_def)
    have "rt_mp_delete mp ((?k', m'), (h', d)) = Some (((rt_object_remove ?o ?k', m'), (h'', d)), RT_EOK)"
      using k(3) mp False h''(1) m'(4) resume_all_unfold [of "suspend_thread mp" ?k']
      by (simp add: rt_mp_delete_def not_in_interrupt_def rt_assert_def rt_object_get_type_def rt_object_is_systemobject_def
          ipc_object_init_def rt_free_def rt_object_delete_def)
    moreover have "rt_object_get_type ?o (rt_object_remove ?o ?k') = Class_Null" by (simp add: rt_object_get_type_def rt_object_remove_def)
    moreover have "smem_live h'' = smem_live h" using h''(3) c(2,3) by simp
    moreover have "pool_area mp (?k', m') \<subseteq> block (unat p, c)" using c(1) by (auto simp: pool_area_def m'(4) block_def mult.commute)
    moreover have "(unat p, c) \<in> smem_live h' - smem_live h" using c(2,3) by simp
    ultimately show ?thesis using cr False m' mp ok' h''(2) by auto
  qed
qed


subsection \<open>Witnesses\<close>

text \<open>A pool of one block, which is in use.\<close>

definition demo_pool :: mp_state where
  "demo_pool = \<lparr>mempools = (\<lambda>_. \<lparr>start_address = 4096, pool_size = 24, pool_block_size = 16, block_list = NULL,
     block_total_count = 1, block_free_count = 0\<rparr>), mp_mem = (\<lambda>_. 100)\<rparr>"

lemma demo_pool: "mp_ok 100 demo_pool" "mp_taken 100 demo_pool = {4096}" "pool_block_size (mempools demo_pool 100) = 16"
  "block_free_count (mempools demo_pool 100) = 0"
  by (auto simp: demo_pool_def mp_ok_def mp_taken_def mp_blocks_def mp_block_def mp_free_blocks_def pool_fits_def)

lemma demo_pool_inv: "pool_inv 100 16 (demo_ipc, demo_pool)" "pool_inv 100 16 (demo_waiting (Wait 100), demo_pool)"
  using demo_ipc_thread demo_waiting(1-4) [of "Wait 100" 100] by (simp_all add: pool_inv_def demo_pool in_thread_def waiters_ok_def)

theorem mp_alloc_spec_witness:
  "\<exists>k'. rt_mp_alloc 100 5 (demo_ipc, demo_pool) = Some ((k', demo_pool), Blocked) \<and> lists k' (Wait 100) = [1]"
proof -
  have "wait_time 5" by (simp add: wait_time_def RT_TICK_MAX2_def)
  from mp_alloc_spec [OF demo_pool_inv(1) demo_ipc_thread(1) this] show ?thesis by (auto simp: demo_pool(4) demo_ipc_thread(2))
qed

theorem mp_waiter_served_witness:
  "\<exists>k' m'. rt_mp_free 4100 (demo_waiting (Wait 100), demo_pool) = Some (k', m') \<and> runnable (threads k' 4) \<and>
    (\<exists>m2. rt_mp_alloc_resume 100 5 0 4 (k', m') = Some ((k', m2), Ret 4100))"
proof -
  have "lists (demo_waiting (Wait 100)) (suspend_thread 100) = [4]" using demo_waiting(3) [of "Wait 100" 100] by simp
  from mp_waiter_served [OF demo_pool_inv(2) _ this, of 4096] show ?thesis by (fastforce simp: demo_pool(2))
qed

theorem mp_run_safe_witness:
  "\<exists>s0 k' m' held. rt_mp_init 100 ''pool'' 4096 64 10 (demo_ipc, demo_pool) = Some (s0, RT_EOK) \<and>
    heap_run (pool_alloc_op 100) pool_free_op [Alloc 10, Alloc 3, Free 0, Alloc 7] (s0, []) = Some ((k', m'), held) \<and>
    unat (block_free_count (mempools m' 100)) + length held = 3"
proof -
  have c: "containers demo_ipc Class_MemPool = []" by (simp add: demo_ipc_def demo_eval demo_ffs kernel0_def)
  have k: "sched_inv demo_ipc" "current demo_ipc \<noteq> None" using demo_ipc_thread(1) by (simp_all add: in_thread_def)
  have "pool_ops_ok 10 [Alloc 10, Alloc 3, Free 0, Alloc 7]" by (simp add: pool_ops_ok_def)
  from mp_run_safe [OF k _ _ _ _ _ _ _ this, of 100 4096 64 "''pool''" demo_pool] show ?thesis
    by (simp add: c RT_ALIGN8 del: heap_run.simps) blast
qed

theorem mp_create_delete_witness:
  "\<exists>k' m' h' r. rt_mp_create (Some 100) None ''pool'' 3 10 ((demo_ipc, demo_pool), (demo_heap, \<lambda>_. 0)) = Some (((k', m'), (h', \<lambda>_. 0)), r) \<and>
    (r \<noteq> NULL \<longrightarrow> block_free_count (mempools m' 100) = 3 \<and>
       (\<exists>k'' h''. rt_mp_delete 100 ((k', m'), (h', \<lambda>_. 0)) = Some (((k'', m'), (h'', \<lambda>_. 0)), RT_EOK) \<and> smem_live h'' = smem_live demo_heap))"
proof -
  have k: "sched_inv demo_ipc" "current demo_ipc \<noteq> None" "interrupt_nest demo_ipc = 0" using demo_ipc_thread(1) by (simp_all add: in_thread_def)
  show ?thesis using mp_create_delete [OF k demo_heap(2), of 100 10 3 None "''pool''" demo_pool "\<lambda>_. 0"]
    by (simp add: RT_ALIGN8) (metis (no_types, lifting))
qed

end
