(* ===== verification/KCompletion.thy ===== *)
theory KCompletion
  imports KIpc
begin

text \<open>
  Completions (\<open>components/drivers/ipc/completion.c\<close>): a flag and at most one thread that waits for it.  The state
  is the kernel and the flag of one completion, whose list of waiting threads is \<open>Wait x\<close>.  What a waiting thread does
  when it runs again is \<open>rt_completion_wait_resume\<close>.
\<close>

subsection \<open>The code\<close>

text \<open>The wait of the driver support: without a time to wait for ever, without the interruptible states of the IPC objects.\<close>

definition wait_on :: "qid \<Rightarrow> tid \<Rightarrow> cint \<Rightarrow> kernel \<Rightarrow> kernel option" where
  "wait_on q t timeout k =
     do {
       let k = upd_thread t (\<lambda>th. th\<lparr>error := RT_EOK\<rparr>) k;
       (k, _) \<leftarrow> rt_thread_suspend_with_flag t RT_UNINTERRUPTIBLE k;
       let k = tlist_insert_before q t k;
       k \<leftarrow> (if sint timeout > 0 then start_thread_timer t timeout k else Some k);
       rt_schedule k
     }"

text \<open>The wake-up of the driver support leaves the error of the thread alone.\<close>

definition wake_on :: "qid \<Rightarrow> kernel \<Rightarrow> kernel option" where
  "wake_on q k =
     do {
       (k, _) \<leftarrow> rt_thread_resume (hd (lists k q)) k;
       rt_schedule k
     }"

datatype completion_flag = RT_UNCOMPLETED | RT_COMPLETED

definition rt_completion_init :: "oid \<Rightarrow> kernel \<Rightarrow> kernel \<times> completion_flag" where
  "rt_completion_init x k = (k\<lparr>lists := (lists k)(Wait x := [])\<rparr>, RT_UNCOMPLETED)"

definition rt_completion_wait :: "oid \<Rightarrow> cint \<Rightarrow> kernel \<times> completion_flag \<Rightarrow> ((kernel \<times> completion_flag) \<times> err outcome) option" where
  "rt_completion_wait x timeout = (\<lambda>(k, flag).
     do {
       scheduler_available (timeout \<noteq> 0) k;
       if flag \<noteq> RT_COMPLETED
       then do {
         rt_assert (rt_list_isempty (Wait x) k);
         if timeout = 0 then Some ((k, flag), Ret RT_ETIMEOUT)
         else do {
           t \<leftarrow> current k;
           not_in_interrupt k;
           k \<leftarrow> wait_on (Wait x) t timeout k;
           Some ((k, flag), Blocked)
         }
       }
       else Some ((k, RT_UNCOMPLETED), Ret RT_EOK)
     })"

definition rt_completion_wait_resume :: "tid \<Rightarrow> kernel \<times> completion_flag \<Rightarrow> (kernel \<times> completion_flag) \<times> err" where
  "rt_completion_wait_resume t = (\<lambda>(k, flag). ((k, RT_UNCOMPLETED), error (threads k t)))"

definition rt_completion_done :: "oid \<Rightarrow> kernel \<times> completion_flag \<Rightarrow> (kernel \<times> completion_flag) option" where
  "rt_completion_done x = (\<lambda>(k, flag).
     if flag = RT_COMPLETED then Some (k, flag)
     else if \<not> rt_list_isempty (Wait x) k then do { k \<leftarrow> wake_on (Wait x) k; Some (k, RT_COMPLETED) }
     else Some (k, RT_COMPLETED))"

subsection \<open>Waiting and waking\<close>

lemma wait_on_spec:
  assumes it: "in_thread k t" and q: "q = Wait x \<or> q = WaitSend x" and wt: "wait_time timeout"
  obtains k' where "wait_on q t timeout k = Some k'" "sched_inv k'" "only_core k k'" "lists k' q = lists k q @ [t]"
    "\<And>q'. \<not> is_ready q' \<Longrightarrow> q' \<noteq> q \<Longrightarrow> lists k' q' = lists k q'" "current k' \<noteq> None"
    "threads k' t = (threads k t)\<lparr>error := RT_EOK, stat := TH_SUSPEND RT_UNINTERRUPTIBLE\<rparr>"
    "\<And>u. u \<noteq> t \<Longrightarrow> rescheduled (threads k u) (threads k' u)"
    "sint timeout > 0 \<Longrightarrow> ThreadTimer t \<in> set (timer_list k') \<and> remaining k' (ThreadTimer t) = timeout"
proof -
  let ?k = "upd_thread t (\<lambda>th. th\<lparr>error := RT_EOK\<rparr>) k"
  have it': "in_thread ?k t" using it by simp
  obtain k' where k': "ipc_wait q t RT_IPC_FLAG_FIFO RT_UNINTERRUPTIBLE timeout ?k = Some (k', Blocked)" "sched_inv k'" "only_core ?k k'"
    "threads k' t = (threads ?k t)\<lparr>stat := TH_SUSPEND RT_UNINTERRUPTIBLE\<rparr>" "lists k' q = enqueue_waiter ?k RT_IPC_FLAG_FIFO t (lists ?k q)"
    "\<And>u. u \<noteq> t \<Longrightarrow> rescheduled (threads ?k u) (threads k' u)"
    "\<And>q'. \<not> is_ready q' \<Longrightarrow> q' \<noteq> q \<Longrightarrow> lists k' q' = lists ?k q'"
    "sint timeout > 0 \<Longrightarrow> ThreadTimer t \<in> set (timer_list k') \<and> remaining k' (ThreadTimer t) = timeout" "current k' \<noteq> None"
    by (rule ipc_wait_spec [OF it' q wt, where flag = RT_IPC_FLAG_FIFO and sflag = RT_UNINTERRUPTIBLE]) (rule that)
  obtain k1 where k1: "rt_thread_suspend_with_flag t RT_UNINTERRUPTIBLE ?k = Some (k1, RT_EOK)"
    by (rule suspend_self_spec [OF it', where sflag = RT_UNINTERRUPTIBLE]) (rule that)
  have st: "stat (threads k t) = TH_RUNNING" using it by (simp add: in_thread_def)
  have "wait_on q t timeout k = Some k'" using k'(1) k1 st
    by (simp add: ipc_wait_def ipc_list_suspend_def wait_on_def ipc_list_insert_def bind_eq_Some_conv split: if_splits)
  then show thesis
    by (rule that [OF _ k'(2) only_core_timed [OF k'(3)]]) (use k' in \<open>simp_all add: enqueue_waiter_def\<close>)
qed

lemma wake_on_spec:
  assumes i: "sched_inv k" and c: "current k \<noteq> None" and q: "q = Wait x \<or> q = WaitSend x" and l: "lists k q = t # rest" and g: "registered k t"
  obtains k' where "wake_on q k = Some k'" "sched_inv k'" "only_core k k'" "current k' \<noteq> None" "lists k' q = rest"
    "\<And>q'. \<not> is_ready q' \<Longrightarrow> q' \<noteq> q \<Longrightarrow> lists k' q' = lists k q'" "runnable (threads k' t)" "error (threads k' t) = error (threads k t)"
    "\<And>u. u \<noteq> t \<Longrightarrow> rescheduled (threads k u) (threads k' u)"
proof -
  have s: "suspended (threads k t)" using sched_butD(3) [OF i, of t q] q l by auto
  have d: "t \<notin> set rest" using sched_butD(2) [OF i, of q] l by simp
  have o: "t \<notin> set (lists k q')" if "q' \<noteq> q" for q' using sched_butD(4) [OF i, of t q q'] l that by auto
  obtain k1 where k1: "rt_thread_resume t k = Some (k1, RT_EOK)" "sched_inv k1" "only_core k k1" "current k1 = current k"
    "threads k1 = (threads k)(t := (threads k t)\<lparr>stat := (if current k = Some t then TH_RUNNING else TH_READY)\<rparr>)"
    "\<And>q. \<not> is_ready q \<Longrightarrow> lists k1 q = removeAll t (lists k q)"
    by (rule resume_spec [OF i s g]) (rule that)
  obtain k2 where k2: "rt_schedule k1 = Some k2" using rt_schedule_total [of k1] k1(4) c by auto
  have rs: "rescheduled (threads k1 u) (threads k2 u)" for u by (rule rt_schedule_threads [OF k1(2) k2])
  have ru: "runnable (threads k1 t)" by (simp add: k1(5) runnable_def)
  have l2: "lists k2 q' = lists k1 q'" if "\<not> is_ready q'" for q' by (rule rt_schedule_lists [OF k1(2) k2 not_is_ready [OF that]])
  show thesis
  proof (rule that [of k2])
    show "wake_on q k = Some k2" using k1(1) k2 l by (simp add: wake_on_def)
    show "sched_inv k2" by (rule sched_schedule [OF k1(2) k2])
    show "only_core k k2" by (rule only_core_trans [OF k1(3) only_core_schedule [OF k2]])
    show "current k2 \<noteq> None" using rt_schedule_current [OF k2] k1(4) c by simp
    show "runnable (threads k2 t)" "error (threads k2 t) = error (threads k t)" using rescheduledD(2,3) [OF rs [of t]] ru by (simp_all add: k1(5))
    show "lists k2 q = rest" using l2 [of q] k1(6) [of q] q l d by auto
    show "lists k2 q' = lists k q'" if "\<not> is_ready q'" "q' \<noteq> q" for q' using l2 [OF that(1)] k1(6) [OF that(1)] o [OF that(2)] by simp
    show "rescheduled (threads k u) (threads k2 u)" if "u \<noteq> t" for u using rs [of u] k1(5) that by simp
  qed
qed

subsection \<open>The theorems\<close>

text \<open>
  C27: A thread that waits for a completion and the one that completes it meet.  If the flag is set the wait returns at once and
  takes it; otherwise the thread is suspended, \<open>rt_completion_done\<close> makes it runnable, and when it runs again its call returns \<open>RT_EOK\<close>
  and the completion can be used again.
\<close>
theorem completion_rendezvous:
  assumes it: "in_thread k t" and l: "lists k (Wait x) = []" and wt: "wait_time timeout" "timeout \<noteq> 0"
  shows "rt_completion_wait x timeout (k, RT_COMPLETED) = Some ((k, RT_UNCOMPLETED), Ret RT_EOK) \<and>
    (\<exists>k1 k2. rt_completion_wait x timeout (k, RT_UNCOMPLETED) = Some ((k1, RT_UNCOMPLETED), Blocked) \<and> sched_inv k1 \<and>
      stat (threads k1 t) = TH_SUSPEND RT_UNINTERRUPTIBLE \<and> lists k1 (Wait x) = [t] \<and>
      rt_completion_done x (k1, RT_UNCOMPLETED) = Some (k2, RT_COMPLETED) \<and> sched_inv k2 \<and> runnable (threads k2 t) \<and> lists k2 (Wait x) = [] \<and>
      rt_completion_wait_resume t (k2, RT_COMPLETED) = ((k2, RT_UNCOMPLETED), RT_EOK))"
proof -
  have c: "rt_completion_wait x timeout (k, RT_COMPLETED) = Some ((k, RT_UNCOMPLETED), Ret RT_EOK)" using it by (simp add: rt_completion_wait_def)
  obtain k1 where k1: "wait_on (Wait x) t timeout k = Some k1" "sched_inv k1" "only_core k k1" "lists k1 (Wait x) = lists k (Wait x) @ [t]"
    "\<And>q'. \<not> is_ready q' \<Longrightarrow> q' \<noteq> Wait x \<Longrightarrow> lists k1 q' = lists k q'" "current k1 \<noteq> None"
    "threads k1 t = (threads k t)\<lparr>error := RT_EOK, stat := TH_SUSPEND RT_UNINTERRUPTIBLE\<rparr>"
    by (rule wait_on_spec [OF it disjI1 [OF refl] wt(1)]) (rule that)
  have r: "rt_completion_wait x timeout (k, RT_UNCOMPLETED) = Some ((k1, RT_UNCOMPLETED), Blocked)"
    using it l wt(2) k1(1) by (simp add: rt_completion_wait_def rt_list_isempty_def) (simp add: in_thread_def not_in_interrupt_def rt_assert_def)
  have l1: "lists k1 (Wait x) = [t]" using k1(4) l by simp
  have g: "registered k1 t" using it registered_cong [OF only_coreD(1) [OF k1(3)]] by (simp add: in_thread_def)
  obtain k2 where k2: "wake_on (Wait x) k1 = Some k2" "sched_inv k2" "lists k2 (Wait x) = []" "runnable (threads k2 t)" "error (threads k2 t) = error (threads k1 t)"
    by (rule wake_on_spec [OF k1(2,6) disjI1 [OF refl] l1 g]) (rule that)
  have "rt_completion_done x (k1, RT_UNCOMPLETED) = Some (k2, RT_COMPLETED)"
    using l1 k2(1) by (simp add: rt_completion_done_def rt_list_isempty_def)
  then show ?thesis
    using c r k1(2,7) l1 k2 by (auto simp: rt_completion_wait_resume_def)
qed

text \<open>
  C31: A completion is lost when its waiting thread has timed out but has not run yet: \<open>rt_completion_done\<close> sets the flag, and the
  thread then clears it and reports the timeout, so that neither this wait nor the next one sees the completion.
\<close>
theorem completion_lost:
  assumes i: "sched_inv k" and l: "lists k (Wait x) = [t]" and c: "current k \<noteq> None" and g: "registered k t"
  shows "\<exists>k1. thread_timeout t k = Some k1 \<and> rt_completion_done x (k1, RT_UNCOMPLETED) = Some (k1, RT_COMPLETED) \<and>
    rt_completion_wait_resume t (k1, RT_COMPLETED) = ((k1, RT_UNCOMPLETED), RT_ETIMEOUT) \<and>
    rt_completion_wait x 0 (k1, RT_UNCOMPLETED) = Some ((k1, RT_UNCOMPLETED), Ret RT_ETIMEOUT)"
proof -
  let ?k = "upd_thread t (\<lambda>th. th\<lparr>error := RT_ETIMEOUT\<rparr>) k"
  let ?k1 = "rt_schedule_insert_thread t (tlist_remove t ?k)"
  have s: "suspended (threads ?k t)" using sched_butD(3) [OF i, of t "Wait x"] l by simp
  have i1: "sched_inv ?k1" by (rule sched_wake [OF _ s refl]) (use i in simp_all)
  have "current ?k1 \<noteq> None" using c by (simp add: tlist_remove_def)
  then obtain k1 where k1: "rt_schedule ?k1 = Some k1" using rt_schedule_total by blast
  have tt: "thread_timeout t k = Some k1" using k1 s g by (simp add: thread_timeout_def registered_def rt_object_get_type_def upd_thread_def)
  have "error (threads k1 t) = error (threads ?k1 t)" using rescheduledD(3) [OF rt_schedule_threads [OF i1 k1, of t]] by simp
  then have e: "error (threads k1 t) = RT_ETIMEOUT" by (simp add: threads_insert_thread tlist_remove_def)
  have "lists ?k1 (Wait x) = []" using l by (simp add: rt_schedule_insert_thread_def kstate Let_def)
  then have "lists k1 (Wait x) = []" using rt_schedule_lists [OF i1 k1, of "Wait x"] by simp
  then show ?thesis using tt e
    by (simp add: rt_completion_done_def rt_completion_wait_resume_def rt_completion_wait_def rt_list_isempty_def scheduler_available_def)
qed

subsection \<open>Witnesses\<close>

theorem completion_rendezvous_witness:
  "\<exists>k1 k2. rt_completion_wait 9 25 (demo_ipc, RT_UNCOMPLETED) = Some ((k1, RT_UNCOMPLETED), Blocked) \<and>
    rt_completion_done 9 (k1, RT_UNCOMPLETED) = Some (k2, RT_COMPLETED) \<and> rt_completion_wait_resume 1 (k2, RT_COMPLETED) = ((k2, RT_UNCOMPLETED), RT_EOK)"
proof -
  have "wait_time 25" "(25 :: cint) \<noteq> 0" by (simp_all add: wait_time_def RT_TICK_MAX2_def)
  from completion_rendezvous [OF demo_ipc_thread(1,2) this, of 9] show ?thesis by blast
qed

theorem completion_lost_witness:
  "\<exists>k1. thread_timeout 4 (demo_waiting (Wait 9)) = Some k1 \<and> rt_completion_done 9 (k1, RT_UNCOMPLETED) = Some (k1, RT_COMPLETED) \<and>
    rt_completion_wait_resume 4 (k1, RT_COMPLETED) = ((k1, RT_UNCOMPLETED), RT_ETIMEOUT)"
proof -
  note d = demo_waiting [OF disjI1 [OF refl], where x = 9]
  have "registered (demo_waiting (Wait 9)) 4" using d(3,4) by (simp add: waiters_ok_def)
  from completion_lost [OF d(1,3) _ this] d(2) show ?thesis by auto
qed

end
