(* ===== verification/Fifo.thy ===== *)
theory Fifo
  imports Main
begin

text \<open>
  The contract of a bounded first-in first-out queue, shared by the byte ring buffer, the mailbox
  and the message queue.  A provider gives an invariant, the queued items as a list, a capacity and
  the two operations; \<open>ok\<close> says which items may be sent.  From the laws the locale derives what any interleaving of senders and
  receivers observes: nothing is lost, duplicated or reordered, and the bound is never exceeded.
\<close>

text \<open>The index arithmetic of a ring.\<close>

lemma mod_wrap: "x < 2 * n \<Longrightarrow> x mod n = (if x < n then x else x - n)" for x n :: nat
  by (auto simp: mod_if)

datatype 'a fifo_op = Enq 'a | Deq

primrec fifo_run :: "('s \<Rightarrow> 'a \<Rightarrow> 's \<times> bool) \<Rightarrow> ('s \<Rightarrow> 's \<times> 'a option) \<Rightarrow> 's \<Rightarrow> 'a fifo_op list \<Rightarrow>
    's \<times> 'a list \<times> 'a list" where
  "fifo_run put get s [] = (s, [], [])"
| "fifo_run put get s (c # cs) =
     (case c of
        Enq x \<Rightarrow> (case put s x of (s', ok) \<Rightarrow> case fifo_run put get s' cs of (t, acc, del) \<Rightarrow>
                   (t, (if ok then x # acc else acc), del))
      | Deq \<Rightarrow> (case get s of (s', r) \<Rightarrow> case fifo_run put get s' cs of (t, acc, del) \<Rightarrow>
                   (t, acc, (case r of None \<Rightarrow> del | Some x \<Rightarrow> x # del))))"

locale fifo =
  fixes ok :: "'a \<Rightarrow> bool" and inv :: "'s \<Rightarrow> bool" and contents :: "'s \<Rightarrow> 'a list" and cap :: "'s \<Rightarrow> nat"
    and put :: "'s \<Rightarrow> 'a \<Rightarrow> 's \<times> bool" and get :: "'s \<Rightarrow> 's \<times> 'a option"
  assumes bounded: "inv s \<Longrightarrow> length (contents s) \<le> cap s"
    and put_inv: "inv s \<Longrightarrow> ok x \<Longrightarrow> put s x = (s', b) \<Longrightarrow> inv s' \<and> cap s' = cap s"
    and put_full: "inv s \<Longrightarrow> ok x \<Longrightarrow> put s x = (s', b) \<Longrightarrow> b \<longleftrightarrow> length (contents s) < cap s"
    and put_contents: "inv s \<Longrightarrow> ok x \<Longrightarrow> put s x = (s', b) \<Longrightarrow> contents s' = contents s @ (if b then [x] else [])"
    and get_inv: "inv s \<Longrightarrow> get s = (s', r) \<Longrightarrow> inv s' \<and> cap s' = cap s"
    and get_contents: "inv s \<Longrightarrow> get s = (s', r) \<Longrightarrow>
          contents s = (case r of None \<Rightarrow> [] | Some x \<Rightarrow> [x]) @ contents s'"
    and get_empty: "inv s \<Longrightarrow> get s = (s', r) \<Longrightarrow> r = None \<longleftrightarrow> contents s = []"

context fifo
begin

lemma run_inv: "inv s \<Longrightarrow> (\<And>x. Enq x \<in> set cs \<Longrightarrow> ok x) \<Longrightarrow> fifo_run put get s cs = (t, acc, del) \<Longrightarrow> inv t \<and> cap t = cap s"
proof (induction cs arbitrary: s acc del)
  case (Cons c cs)
  show ?case
  proof (cases c)
    case (Enq x)
    obtain s' b where p: "put s x = (s', b)" by fastforce
    obtain acc' where "fifo_run put get s' cs = (t, acc', del)"
      using Cons.prems Enq p by (auto split: prod.splits)
    then show ?thesis using Cons.IH [of s'] put_inv [OF Cons.prems(1) _ p] Cons.prems(2) Enq by simp
  next
    case Deq
    obtain s' q where g: "get s = (s', q)" by fastforce
    obtain del' where "fifo_run put get s' cs = (t, acc, del')"
      using Cons.prems Deq g by (auto split: prod.splits)
    then show ?thesis using Cons.IH [of s'] get_inv [OF Cons.prems(1) g] Cons.prems(2) by simp
  qed
qed simp

lemma run_order:
  "inv s \<Longrightarrow> (\<And>x. Enq x \<in> set cs \<Longrightarrow> ok x) \<Longrightarrow> fifo_run put get s cs = (t, acc, del) \<Longrightarrow> contents s @ acc = del @ contents t"
proof (induction cs arbitrary: s acc del)
  case (Cons c cs)
  show ?case
  proof (cases c)
    case (Enq x)
    obtain s' b where p: "put s x = (s', b)" by fastforce
    obtain acc' where r: "fifo_run put get s' cs = (t, acc', del)" "acc = (if b then x # acc' else acc')"
      using Cons.prems Enq p by (auto split: prod.splits)
    have x: "ok x" using Cons.prems(2) Enq by simp
    have "inv s'" using put_inv [OF Cons.prems(1) x p] by simp
    from Cons.IH [OF this _ r(1)] show ?thesis
      using put_contents [OF Cons.prems(1) x p] r(2) Cons.prems(2) by auto
  next
    case Deq
    obtain s' q where g: "get s = (s', q)" by fastforce
    obtain del' where r: "fifo_run put get s' cs = (t, acc, del')"
      "del = (case q of None \<Rightarrow> del' | Some x \<Rightarrow> x # del')"
      using Cons.prems Deq g by (auto split: prod.splits)
    have "inv s'" using get_inv [OF Cons.prems(1) g] by simp
    from Cons.IH [OF this _ r(1)] show ?thesis
      using get_contents [OF Cons.prems(1) g] r(2) Cons.prems(2) by (auto split: option.splits)
  qed
qed simp

lemma run_bounded:
  assumes "inv s" "\<And>x. Enq x \<in> set cs \<Longrightarrow> ok x" "fifo_run put get s cs = (t, acc, del)"
  shows "length (contents t) \<le> cap s"
  using run_inv [OF assms] bounded [of t] by simp

end

end
