(* ===== verification/KDataQueue.thy ===== *)
theory KDataQueue
  imports KHeap KCompletion Fifo
begin

text \<open>
  Data queues (\<open>components/drivers/ipc/dataqueue.c\<close>): a ring of pointers with sizes between drivers and threads, with threads that wait
  for room (\<open>WaitSend x\<close>) and threads that wait for data (\<open>Wait x\<close>).  The state is the kernel and one queue.  The
  call-back of the queue is the last thing an operation does; the operations return the events it is called with.  What a waiting
  thread does when it runs again is the rest of the loop (\<open>..._resume\<close>).
\<close>

subsection \<open>The code\<close>

type_synonym data_item = "addr \<times> u32"

record rt_data_queue =
  dq_magic :: u32
  dq_size :: "16 word"
  dq_lwm :: "16 word"
  get_index :: "15 word"
  is_empty :: bool
  put_index :: "15 word"
  is_full :: bool
  dq_queue :: addr
  dq_items :: "nat \<Rightarrow> data_item"
  evt_notify :: bool

datatype dq_event = EVENT_POP | EVENT_PUSH | EVENT_LWM

abbreviation (input) DATAQUEUE_MAGIC :: u32 where "DATAQUEUE_MAGIC \<equiv> 0xbead0e0e"

definition notify :: "dq_event \<Rightarrow> rt_data_queue \<Rightarrow> dq_event list" where
  "notify e q = (if evt_notify q then [e] else [])"

definition rt_data_queue_init :: "oid \<Rightarrow> string option \<Rightarrow> 16 word \<Rightarrow> 16 word \<Rightarrow> bool \<Rightarrow> (kernel \<times> rt_data_queue) \<times> heap \<Rightarrow>
    (((kernel \<times> rt_data_queue) \<times> heap) \<times> err) option" where
  "rt_data_queue_init x name sz lwm evt = (\<lambda>((k, q), h).
     do {
       rt_assert (sz > 0);
       let q = q\<lparr>evt_notify := evt, dq_magic := DATAQUEUE_MAGIC, dq_size := sz, dq_lwm := lwm, get_index := 0, put_index := 0,
         is_empty := True, is_full := False\<rparr>;
       let k = k\<lparr>lists := (lists k)(WaitSend x := [], Wait x := [])\<rparr>;
       (h, p) \<leftarrow> rt_malloc name (8 * ucast sz) h;
       let q = q\<lparr>dq_queue := p\<rparr>;
       Some (((k, q), h), if p = NULL then RT_ENOMEM else RT_EOK)
     })"

text \<open>An index is kept in 15 bits.\<close>

definition next_index :: "15 word \<Rightarrow> rt_data_queue \<Rightarrow> 15 word" where
  "next_index i q = (if unat (i + 1) = unat (dq_size q) then 0 else i + 1)"

definition dq_store :: "data_item \<Rightarrow> rt_data_queue \<Rightarrow> rt_data_queue" where
  "dq_store item q =
     (let q = q\<lparr>dq_items := (dq_items q)(unat (put_index q) := item), put_index := next_index (put_index q) q, is_empty := False\<rparr>
      in if put_index q = get_index q then q\<lparr>is_full := True\<rparr> else q)"

definition dq_fetch :: "rt_data_queue \<Rightarrow> rt_data_queue \<times> data_item" where
  "dq_fetch q =
     (let item = dq_items q (unat (get_index q));
          q = q\<lparr>get_index := next_index (get_index q) q, is_full := False\<rparr>
      in (if put_index q = get_index q then q\<lparr>is_empty := True\<rparr> else q, item))"

definition rt_data_queue_len :: "rt_data_queue \<Rightarrow> 16 word option" where
  "rt_data_queue_len q =
     do {
       rt_assert (dq_magic q = DATAQUEUE_MAGIC);
       let pi = int (unat (put_index q));
       let gi = int (unat (get_index q));
       Some (if is_empty q then 0
             else if pi > gi then of_int (pi - gi)
             else of_int (int (unat (dq_size q)) + pi - gi))
     }"

definition dq_push_loop :: "oid \<Rightarrow> data_item \<Rightarrow> cint \<Rightarrow> kernel \<times> rt_data_queue \<Rightarrow> ((kernel \<times> rt_data_queue) \<times> (err \<times> dq_event list) outcome) option" where
  "dq_push_loop x item timeout = (\<lambda>(k, q).
     if is_full q
     then if timeout = 0 then Some ((k, q), Ret (RT_ETIMEOUT, []))
          else do { t \<leftarrow> current k; k \<leftarrow> wait_on (WaitSend x) t timeout k; Some ((k, q), Blocked) }
     else let q = dq_store item q
          in if \<not> rt_list_isempty (Wait x) k then do { k \<leftarrow> wake_on (Wait x) k; Some ((k, q), Ret (RT_EOK, [])) }
             else Some ((k, q), Ret (RT_EOK, notify EVENT_PUSH q)))"

definition rt_data_queue_push :: "oid \<Rightarrow> data_item \<Rightarrow> cint \<Rightarrow> kernel \<times> rt_data_queue \<Rightarrow> ((kernel \<times> rt_data_queue) \<times> (err \<times> dq_event list) outcome) option" where
  "rt_data_queue_push x item timeout s =
     do {
       rt_assert (dq_magic (snd s) = DATAQUEUE_MAGIC);
       scheduler_available (timeout \<noteq> 0) (fst s);
       dq_push_loop x item timeout s
     }"

definition dq_push_resume :: "oid \<Rightarrow> data_item \<Rightarrow> cint \<Rightarrow> tid \<Rightarrow> kernel \<times> rt_data_queue \<Rightarrow> ((kernel \<times> rt_data_queue) \<times> (err \<times> dq_event list) outcome) option" where
  "dq_push_resume x item timeout t s =
     (if error (threads (fst s) t) \<noteq> RT_EOK then Some (s, Ret (error (threads (fst s) t), [])) else dq_push_loop x item timeout s)"

definition dq_pop_loop :: "oid \<Rightarrow> cint \<Rightarrow> kernel \<times> rt_data_queue \<Rightarrow> ((kernel \<times> rt_data_queue) \<times> (err \<times> data_item option \<times> dq_event list) outcome) option" where
  "dq_pop_loop x timeout = (\<lambda>(k, q).
     if is_empty q
     then if timeout = 0 then Some ((k, q), Ret (RT_ETIMEOUT, None, []))
          else do { t \<leftarrow> current k; k \<leftarrow> wait_on (Wait x) t timeout k; Some ((k, q), Blocked) }
     else do {
       let (q, item) = dq_fetch q;
       len \<leftarrow> rt_data_queue_len q;
       if len \<le> dq_lwm q
       then do {
         k \<leftarrow> (if \<not> rt_list_isempty (WaitSend x) k then wake_on (WaitSend x) k else Some k);
         Some ((k, q), Ret (RT_EOK, Some item, notify EVENT_LWM q))
       }
       else Some ((k, q), Ret (RT_EOK, Some item, notify EVENT_POP q))
     })"

definition rt_data_queue_pop :: "oid \<Rightarrow> cint \<Rightarrow> kernel \<times> rt_data_queue \<Rightarrow> ((kernel \<times> rt_data_queue) \<times> (err \<times> data_item option \<times> dq_event list) outcome) option" where
  "rt_data_queue_pop x timeout s =
     do {
       rt_assert (dq_magic (snd s) = DATAQUEUE_MAGIC);
       scheduler_available (timeout \<noteq> 0) (fst s);
       dq_pop_loop x timeout s
     }"

definition dq_pop_resume :: "oid \<Rightarrow> cint \<Rightarrow> tid \<Rightarrow> kernel \<times> rt_data_queue \<Rightarrow> ((kernel \<times> rt_data_queue) \<times> (err \<times> data_item option \<times> dq_event list) outcome) option" where
  "dq_pop_resume x timeout t s =
     (if error (threads (fst s) t) \<noteq> RT_EOK then Some (s, Ret (error (threads (fst s) t), None, [])) else dq_pop_loop x timeout s)"

definition rt_data_queue_peek :: "rt_data_queue \<Rightarrow> (err \<times> data_item option) option" where
  "rt_data_queue_peek q =
     do {
       rt_assert (dq_magic q = DATAQUEUE_MAGIC);
       Some (if is_empty q then (RT_EEMPTY, None) else (RT_EOK, Some (dq_items q (unat (get_index q)))))
     }"

definition rt_data_queue_reset :: "oid \<Rightarrow> kernel \<times> rt_data_queue \<Rightarrow> (kernel \<times> rt_data_queue) option" where
  "rt_data_queue_reset x = (\<lambda>(k, q).
     do {
       rt_assert (dq_magic q = DATAQUEUE_MAGIC);
       let q = q\<lparr>get_index := 0, put_index := 0, is_empty := True, is_full := False\<rparr>;
       let k = rt_enter_critical k;
       k \<leftarrow> ipc_list_resume_all (Wait x) k;
       k \<leftarrow> ipc_list_resume_all (WaitSend x) k;
       k \<leftarrow> rt_exit_critical k;
       k \<leftarrow> rt_schedule k;
       Some (k, q)
     })"

definition rt_data_queue_deinit :: "oid \<Rightarrow> (kernel \<times> rt_data_queue) \<times> heap \<Rightarrow> (((kernel \<times> rt_data_queue) \<times> heap) \<times> err) option" where
  "rt_data_queue_deinit x = (\<lambda>(s, h).
     do {
       rt_assert (dq_magic (snd s) = DATAQUEUE_MAGIC);
       (k, q) \<leftarrow> rt_data_queue_reset x s;
       let q = q\<lparr>dq_magic := 0\<rparr>;
       h \<leftarrow> rt_free (dq_queue q) h;
       Some (((k, q), h), RT_EOK)
     })"


subsection \<open>The ring\<close>

text \<open>How many items a queue holds, and which: the ring is read from the get index on.\<close>

definition dq_count :: "rt_data_queue \<Rightarrow> nat" where
  "dq_count q = (if is_empty q then 0
     else if put_index q > get_index q then unat (put_index q) - unat (get_index q)
     else unat (dq_size q) + unat (put_index q) - unat (get_index q))"

definition dq_contents :: "rt_data_queue \<Rightarrow> data_item list" where
  "dq_contents q = map (\<lambda>i. dq_items q ((unat (get_index q) + i) mod unat (dq_size q))) [0..<dq_count q]"

text \<open>The indices are inside the ring, which is no larger than an index of 15 bits can tell, and they meet exactly when it is empty or full.\<close>

definition dq_ok :: "rt_data_queue \<Rightarrow> bool" where
  "dq_ok q \<longleftrightarrow> dq_magic q = DATAQUEUE_MAGIC \<and> unat (dq_size q) \<le> 2 ^ 15 \<and>
     unat (get_index q) < unat (dq_size q) \<and> unat (put_index q) < unat (dq_size q) \<and>
     \<not> (is_empty q \<and> is_full q) \<and> (put_index q = get_index q \<longleftrightarrow> is_empty q \<or> is_full q)"

lemma length_dq_contents [simp]: "length (dq_contents q) = dq_count q"
  by (simp add: dq_contents_def)

lemma unat_next_index:
  assumes "unat i < unat (dq_size q)" "unat (dq_size q) \<le> 2 ^ 15"
  shows "unat (next_index i q) = Suc (unat i) mod unat (dq_size q)"
proof -
  have u: "unat (i + 1) = Suc (unat i) mod 2 ^ 15" by (simp add: unat_word_ariths)
  have n: "unat (next_index i q) = (if unat (i + 1) = unat (dq_size q) then 0 else unat (i + 1))" by (simp add: next_index_def)
  consider "Suc (unat i) < unat (dq_size q)" | "Suc (unat i) = unat (dq_size q)" using assms(1) by linarith
  then show ?thesis
  proof cases
    case 1
    then have "Suc (unat i) mod 2 ^ 15 = Suc (unat i)" using assms(2) by (intro mod_less) linarith
    then show ?thesis using 1 by (simp only: n u) simp
  next
    case 2
    have "Suc (unat i) mod 2 ^ 15 = 0 \<or> Suc (unat i) mod 2 ^ 15 = unat (dq_size q)"
      using assms(2) 2 by (cases "Suc (unat i) = 2 ^ 15") simp_all
    then show ?thesis using 2 by (simp only: n u) auto
  qed
qed

lemma dq_count_bounds:
  assumes "dq_ok q"
  shows "dq_count q \<le> unat (dq_size q)" "is_full q \<longleftrightarrow> dq_count q = unat (dq_size q)" "is_empty q \<longleftrightarrow> dq_count q = 0"
    "unat (put_index q) = (unat (get_index q) + dq_count q) mod unat (dq_size q)"
proof -
  define g p s where n: "g = unat (get_index q)" "p = unat (put_index q)" "s = unat (dq_size q)"
  have b: "g < s" "p < s" "\<not> (is_empty q \<and> is_full q)" "p = g \<longleftrightarrow> is_empty q \<or> is_full q"
    using assms by (auto simp: dq_ok_def n word_unat_eq_iff)
  have c: "dq_count q = (if is_empty q then 0 else if p > g then p - g else s + p - g)"
    by (simp add: dq_count_def n word_less_nat_alt)
  show "dq_count q \<le> unat (dq_size q)" "is_full q \<longleftrightarrow> dq_count q = unat (dq_size q)" "is_empty q \<longleftrightarrow> dq_count q = 0"
    using b unfolding c n(3) [symmetric] by auto
  have "g + dq_count q < 2 * s" using b unfolding c by auto
  then show "unat (put_index q) = (unat (get_index q) + dq_count q) mod unat (dq_size q)"
    unfolding n [symmetric] mod_wrap [OF \<open>g + dq_count q < 2 * s\<close>] using b c by (auto split: if_splits)
qed

lemma ring_apart: "i < n \<Longrightarrow> n < s \<Longrightarrow> g < s \<Longrightarrow> (g + i) mod s \<noteq> (g + n) mod s" for g i n s :: nat
  by (auto simp: mod_wrap)

lemma dq_store_spec:
  assumes ok: "dq_ok q" and f: "\<not> is_full q"
  shows "dq_ok (dq_store item q)" "dq_count (dq_store item q) = Suc (dq_count q)" "dq_contents (dq_store item q) = dq_contents q @ [item]"
    "dq_size (dq_store item q) = dq_size q" "get_index (dq_store item q) = get_index q" "\<not> is_empty (dq_store item q)"
    "dq_lwm (dq_store item q) = dq_lwm q"
proof -
  let ?q = "dq_store item q" and ?s = "unat (dq_size q)" and ?g = "unat (get_index q)" and ?n = "dq_count q"
  have d: "dq_magic q = DATAQUEUE_MAGIC" "?s \<le> 2 ^ 15" "?g < ?s" "unat (put_index q) < ?s" using ok by (simp_all add: dq_ok_def)
  note b = dq_count_bounds [OF ok]
  have n: "?n < ?s" using b(1,2) f by simp
  have e: "dq_size ?q = dq_size q" "get_index ?q = get_index q" "dq_magic ?q = dq_magic q" "\<not> is_empty ?q" "dq_lwm ?q = dq_lwm q"
    "put_index ?q = next_index (put_index q) q" "is_full ?q \<longleftrightarrow> put_index ?q = get_index q" "dq_items ?q = (dq_items q)(unat (put_index q) := item)"
    using f by (simp_all add: dq_store_def Let_def)
  then show "dq_size ?q = dq_size q" "get_index ?q = get_index q" "\<not> is_empty ?q" "dq_lwm ?q = dq_lwm q" by simp_all
  have p: "unat (put_index ?q) = Suc (?g + ?n) mod ?s" using unat_next_index [OF d(4,2)] b(4) by (simp add: e(6) mod_Suc_eq)
  then have pl: "unat (put_index ?q) < ?s" using d(3) by simp
  show ok': "dq_ok ?q" using d pl e(7) by (simp add: dq_ok_def e(1-4))
  have "unat (put_index ?q) = (?g + dq_count ?q) mod ?s" using dq_count_bounds(4) [OF ok'] by (simp add: e(1,2))
  moreover have "0 < dq_count ?q" "dq_count ?q \<le> ?s" using dq_count_bounds(1,3) [OF ok'] e(1,4) by auto
  moreover have "unat (put_index ?q) = (?g + Suc ?n) mod ?s" using p by simp
  ultimately show c: "dq_count ?q = Suc ?n"
    using n d(3) ring_apart [of "dq_count ?q" "Suc ?n" ?s ?g] ring_apart [of "Suc ?n" "dq_count ?q" ?s ?g]
    by (cases "Suc ?n = ?s"; cases "dq_count ?q = ?s") (auto simp: mod_wrap split: if_splits)
  have "(?g + i) mod ?s \<noteq> unat (put_index q)" if "i < ?n" for i using ring_apart [OF that n d(3)] b(4) by simp
  then show "dq_contents ?q = dq_contents q @ [item]" using b(4) by (simp add: dq_contents_def c e)
qed

lemma dq_fetch_spec:
  assumes ok: "dq_ok q" and f: "\<not> is_empty q" and r: "dq_fetch q = (q', item)"
  shows "dq_ok q'" "dq_contents q = item # dq_contents q'" "dq_count q = Suc (dq_count q')" "dq_size q' = dq_size q" "\<not> is_full q'"
    "dq_lwm q' = dq_lwm q" "evt_notify q' = evt_notify q"
proof -
  let ?s = "unat (dq_size q)" and ?g = "unat (get_index q)" and ?n = "dq_count q"
  have d: "dq_magic q = DATAQUEUE_MAGIC" "?s \<le> 2 ^ 15" "?g < ?s" "unat (put_index q) < ?s" using ok by (simp_all add: dq_ok_def)
  note b = dq_count_bounds [OF ok]
  have n: "0 < ?n" using b(3) f by simp
  have e: "dq_size q' = dq_size q" "put_index q' = put_index q" "dq_magic q' = dq_magic q" "\<not> is_full q'" "dq_items q' = dq_items q"
    "get_index q' = next_index (get_index q) q" "is_empty q' \<longleftrightarrow> put_index q = get_index q'" "item = dq_items q ?g" "dq_lwm q' = dq_lwm q" "evt_notify q' = evt_notify q"
    using r f by (auto simp: dq_fetch_def Let_def split: if_splits)
  then show "dq_size q' = dq_size q" "\<not> is_full q'" "dq_lwm q' = dq_lwm q" "evt_notify q' = evt_notify q" by simp_all
  have g: "unat (get_index q') = Suc ?g mod ?s" using unat_next_index [OF d(3,2)] by (simp add: e(6))
  then have gl: "unat (get_index q') < ?s" using d(3) by simp
  show ok': "dq_ok q'" using d gl e(7) by (simp add: dq_ok_def e(1-4))
  have "unat (put_index q) = (Suc ?g mod ?s + dq_count q') mod ?s" using dq_count_bounds(4) [OF ok'] by (simp add: e(1,2) g)
  then have "(?g + Suc (dq_count q')) mod ?s = (?g + ?n) mod ?s" using b(4) by (simp add: mod_simps)
  moreover have "dq_count q' < ?s" using dq_count_bounds(1,2) [OF ok'] e(1,4) by simp
  ultimately show c: "?n = Suc (dq_count q')"
    using n b(1) d(3) ring_apart [of ?n "Suc (dq_count q')" ?s ?g] ring_apart [of "Suc (dq_count q')" ?n ?s ?g]
    by (cases "Suc (dq_count q') = ?s"; cases "?n = ?s") (auto simp: mod_wrap split: if_splits)
  have "(Suc ?g mod ?s + i) mod ?s = (?g + Suc i) mod ?s" for i by (simp add: mod_simps)
  then show "dq_contents q = item # dq_contents q'"
    using d(3) by (simp add: dq_contents_def c e(1,5,8) g upt_conv_Cons map_Suc_upt [symmetric] del: upt_Suc)
qed

lemma dq_len:
  assumes ok: "dq_ok q"
  shows "rt_data_queue_len q = Some (of_nat (dq_count q))"
proof -
  have gs: "unat (get_index q) < unat (dq_size q)" and mg: "dq_magic q = DATAQUEUE_MAGIC" using ok by (simp_all add: dq_ok_def)
  have "unat (get_index q) < unat (put_index q) \<longleftrightarrow> put_index q > get_index q" by (simp add: word_less_nat_alt)
  moreover have "of_int (int (unat (put_index q)) - int (unat (get_index q))) = (of_nat (unat (put_index q) - unat (get_index q)) :: 16 word)"
    if "unat (get_index q) < unat (put_index q)" using that by (simp add: of_nat_diff)
  moreover have "of_int (int (unat (dq_size q)) + int (unat (put_index q)) - int (unat (get_index q))) =
      (of_nat (unat (dq_size q) + unat (put_index q) - unat (get_index q)) :: 16 word)" using gs by (simp add: of_nat_diff)
  ultimately show ?thesis by (simp add: rt_data_queue_len_def mg dq_count_def Let_def word_less_def)
qed

subsection \<open>The queue and its waiting threads\<close>

definition dq_inv :: "oid \<Rightarrow> kernel \<times> rt_data_queue \<Rightarrow> bool" where
  "dq_inv x = (\<lambda>(k, q). endpoints_ok x k \<and> dq_ok q)"

lemma dq_wake:
  assumes e: "endpoints_ok x k" and q: "q = Wait x \<or> q = WaitSend x"
  obtains k' where "(if \<not> rt_list_isempty q k then wake_on q k else Some k) = Some k'" "endpoints_ok x k'" "only_core k k'"
    "lists k' q = tl (lists k q)" "\<And>q'. \<not> is_ready q' \<Longrightarrow> q' \<noteq> q \<Longrightarrow> lists k' q' = lists k q'"
    "lists k q = t # rest \<Longrightarrow> wake_on q k = Some k' \<and> runnable (threads k' t) \<and> error (threads k' t) = error (threads k t)"
proof (cases "lists k q")
  case Nil
  then show thesis using that [of k] e by (simp add: rt_list_isempty_def)
next
  case (Cons u us)
  have h: "sched_inv k" "current k \<noteq> None" "registered k u" using e q Cons by (auto simp: endpoints_ok_def waiters_ok_def)
  obtain k' where k': "wake_on q k = Some k'" "sched_inv k'" "only_core k k'" "current k' \<noteq> None" "lists k' q = us"
    "\<And>q'. \<not> is_ready q' \<Longrightarrow> q' \<noteq> q \<Longrightarrow> lists k' q' = lists k q'" "runnable (threads k' u)" "error (threads k' u) = error (threads k u)"
    by (rule wake_on_spec [OF h(1,2) q Cons h(3)]) (rule that)
  have "set (lists k' p) \<subseteq> set (lists k p)" if "p = Wait x \<or> p = WaitSend x" for p
    using k'(5) k'(6) [of p] that Cons by (cases "p = q") auto
  then have "endpoints_ok x k'" using k'(2,4) e registered_cong [OF only_coreD(1) [OF k'(3)]] by (fastforce simp: endpoints_ok_def waiters_ok_def)
  then show thesis by (rule that [of k', rotated]) (use k' Cons in \<open>auto simp: rt_list_isempty_def\<close>)
qed

lemma dq_push_room:
  assumes i: "dq_inv x (k, q)" and f: "\<not> is_full q"
  obtains k' ev where "dq_push_loop x item timeout (k, q) = Some ((k', dq_store item q), Ret (RT_EOK, ev))" "dq_inv x (k', dq_store item q)" "only_core k k'"
    "lists k' (Wait x) = tl (lists k (Wait x))" "lists k' (WaitSend x) = lists k (WaitSend x)"
    "lists k (Wait x) = t # rest \<Longrightarrow> runnable (threads k' t) \<and> error (threads k' t) = error (threads k t)"
proof -
  have e: "endpoints_ok x k" and ok: "dq_ok q" using i by (simp_all add: dq_inv_def)
  obtain k' where k': "(if \<not> rt_list_isempty (Wait x) k then wake_on (Wait x) k else Some k) = Some k'" "endpoints_ok x k'" "only_core k k'"
    "lists k' (Wait x) = tl (lists k (Wait x))" "\<And>q'. \<not> is_ready q' \<Longrightarrow> q' \<noteq> Wait x \<Longrightarrow> lists k' q' = lists k q'"
    "lists k (Wait x) = t # rest \<Longrightarrow> wake_on (Wait x) k = Some k' \<and> runnable (threads k' t) \<and> error (threads k' t) = error (threads k t)"
    by (rule dq_wake [OF e disjI1 [OF refl], where t = t and rest = rest]) (rule that)
  have "dq_push_loop x item timeout (k, q) = Some ((k', dq_store item q), Ret (RT_EOK, if rt_list_isempty (Wait x) k then notify EVENT_PUSH (dq_store item q) else []))"
    using k'(1) f by (auto simp: dq_push_loop_def Let_def split: if_splits)
  then show thesis by (rule that) (use k' dq_store_spec(1) [OF ok f] in \<open>simp_all add: dq_inv_def\<close>)
qed

lemma dq_pop_some:
  assumes i: "dq_inv x (k, q)" and f: "\<not> is_empty q"
  obtains k' q' item ev where "dq_pop_loop x timeout (k, q) = Some ((k', q'), Ret (RT_EOK, Some item, ev))" "dq_inv x (k', q')" "only_core k k'"
    "dq_contents q = item # dq_contents q'" "dq_size q' = dq_size q" "\<not> is_full q'" "lists k' (Wait x) = lists k (Wait x)"
    "lists k' (WaitSend x) = (if of_nat (dq_count q') \<le> dq_lwm q then tl (lists k (WaitSend x)) else lists k (WaitSend x))"
    "lists k (WaitSend x) = t # rest \<Longrightarrow> of_nat (dq_count q') \<le> dq_lwm q \<Longrightarrow> runnable (threads k' t) \<and> error (threads k' t) = error (threads k t)"
proof -
  have e: "endpoints_ok x k" and ok: "dq_ok q" using i by (simp_all add: dq_inv_def)
  obtain q' item where r: "dq_fetch q = (q', item)" by (cases "dq_fetch q") (rule that)
  note s = dq_fetch_spec [OF ok f r]
  obtain k' where k': "(if \<not> rt_list_isempty (WaitSend x) k then wake_on (WaitSend x) k else Some k) = Some k'" "endpoints_ok x k'" "only_core k k'"
    "lists k' (WaitSend x) = tl (lists k (WaitSend x))" "\<And>q'. \<not> is_ready q' \<Longrightarrow> q' \<noteq> WaitSend x \<Longrightarrow> lists k' q' = lists k q'"
    "lists k (WaitSend x) = t # rest \<Longrightarrow> wake_on (WaitSend x) k = Some k' \<and> runnable (threads k' t) \<and> error (threads k' t) = error (threads k t)"
    by (rule dq_wake [OF e disjI2 [OF refl], where t = t and rest = rest]) (rule that)
  have l: "dq_pop_loop x timeout (k, q) = (if of_nat (dq_count q') \<le> dq_lwm q' then Some ((k', q'), Ret (RT_EOK, Some item, notify EVENT_LWM q'))
      else Some ((k, q'), Ret (RT_EOK, Some item, notify EVENT_POP q')))"
    using f k'(1) by (simp add: dq_pop_loop_def r dq_len [OF s(1)])
  show thesis
  proof (cases "of_nat (dq_count q') \<le> dq_lwm q'")
    case True
    show thesis by (rule that [of k' q' item "notify EVENT_LWM q'"]) (use True l k' s e in \<open>simp_all add: dq_inv_def\<close>)
  next
    case False
    show thesis by (rule that [of k q' item "notify EVENT_POP q'"]) (use False l s e in \<open>simp_all add: dq_inv_def\<close>)
  qed
qed

subsection \<open>A bounded queue\<close>







subsection \<open>The theorems\<close>


text \<open>Waiting keeps the invariant.\<close>

lemma dq_wait:
  assumes i: "dq_inv x (k, q)" and it: "in_thread k t" and p: "p = Wait x \<or> p = WaitSend x" and wt: "wait_time timeout"
  obtains k' where "wait_on p t timeout k = Some k'" "dq_inv x (k', q)" "only_core k k'" "lists k' p = lists k p @ [t]"
    "\<And>q'. \<not> is_ready q' \<Longrightarrow> q' \<noteq> p \<Longrightarrow> lists k' q' = lists k q'"
    "threads k' t = (threads k t)\<lparr>error := RT_EOK, stat := TH_SUSPEND RT_UNINTERRUPTIBLE\<rparr>"
    "sint timeout > 0 \<Longrightarrow> ThreadTimer t \<in> set (timer_list k') \<and> remaining k' (ThreadTimer t) = timeout"
proof -
  obtain k' where k': "wait_on p t timeout k = Some k'" "sched_inv k'" "only_core k k'" "lists k' p = lists k p @ [t]"
    "\<And>q'. \<not> is_ready q' \<Longrightarrow> q' \<noteq> p \<Longrightarrow> lists k' q' = lists k q'" "current k' \<noteq> None"
    "threads k' t = (threads k t)\<lparr>error := RT_EOK, stat := TH_SUSPEND RT_UNINTERRUPTIBLE\<rparr>"
    "\<And>u. u \<noteq> t \<Longrightarrow> rescheduled (threads k u) (threads k' u)"
    "sint timeout > 0 \<Longrightarrow> ThreadTimer t \<in> set (timer_list k') \<and> remaining k' (ThreadTimer t) = timeout"
    by (rule wait_on_spec [OF it p wt]) (rule that)
  have "set (lists k' p') \<subseteq> insert t (set (lists k p'))" if "p' = Wait x \<or> p' = WaitSend x" for p'
    using k'(4) k'(5) [of p'] that by (cases "p' = p") auto
  moreover have "registered k t" using it by (simp add: in_thread_def)
  ultimately have "endpoints_ok x k'"
    using i k'(2,6) registered_cong [OF only_coreD(1) [OF k'(3)]] by (fastforce simp: dq_inv_def endpoints_ok_def waiters_ok_def)
  then have "dq_inv x (k', q)" using i by (simp add: dq_inv_def)
  then show thesis using that k' by blast
qed

text \<open>
  A thread that pops from an empty data queue and may wait is suspended; a push makes it runnable, and when it runs again its call
  returns \<open>RT_EOK\<close> and the item pushed.
\<close>
theorem dq_blocked_pop:
  assumes i: "dq_inv x (k, q)" and it: "in_thread k t" and wt: "wait_time timeout" "timeout \<noteq> 0" and e: "is_empty q" and l: "lists k (Wait x) = []"
  shows "\<exists>k1 s2 s3 ev ev'. rt_data_queue_pop x timeout (k, q) = Some ((k1, q), Blocked) \<and> stat (threads k1 t) = TH_SUSPEND RT_UNINTERRUPTIBLE \<and>
    rt_data_queue_push x item 0 (k1, q) = Some (s2, Ret (RT_EOK, ev)) \<and> runnable (threads (fst s2) t) \<and>
    dq_pop_resume x timeout t s2 = Some (s3, Ret (RT_EOK, Some item, ev')) \<and> dq_inv x s3 \<and> dq_contents (snd s3) = []"
proof -
  have ok: "dq_ok q" and mg: "dq_magic q = DATAQUEUE_MAGIC" using i by (simp_all add: dq_inv_def dq_ok_def)
  obtain k1 where k1: "wait_on (Wait x) t timeout k = Some k1" "dq_inv x (k1, q)" "only_core k k1" "lists k1 (Wait x) = lists k (Wait x) @ [t]"
    "threads k1 t = (threads k t)\<lparr>error := RT_EOK, stat := TH_SUSPEND RT_UNINTERRUPTIBLE\<rparr>"
    by (rule dq_wait [OF i it disjI1 [OF refl] wt(1)]) (rule that)
  have p: "rt_data_queue_pop x timeout (k, q) = Some ((k1, q), Blocked)"
    using it e wt(2) mg k1(1) by (simp add: rt_data_queue_pop_def dq_pop_loop_def) (simp add: in_thread_def)
  have f: "\<not> is_full q" and c: "dq_contents q = []" using ok e dq_count_bounds(3) [OF ok] by (auto simp: dq_ok_def dq_contents_def)
  have l1: "lists k1 (Wait x) = [t]" using k1(4) l by simp
  let ?q = "dq_store item q"
  obtain k2 ev where k2: "dq_push_loop x item 0 (k1, q) = Some ((k2, ?q), Ret (RT_EOK, ev))" "dq_inv x (k2, ?q)"
    "lists k1 (Wait x) = [t] \<Longrightarrow> runnable (threads k2 t) \<and> error (threads k2 t) = error (threads k1 t)"
    by (rule dq_push_room [OF k1(2) f, where t = t and rest = "[]"]) (rule that)
  have push: "rt_data_queue_push x item 0 (k1, q) = Some ((k2, ?q), Ret (RT_EOK, ev))" using k2(1) mg by (simp add: rt_data_queue_push_def scheduler_available_def)
  note st = dq_store_spec [OF ok f, of item]
  obtain k3 q3 item' ev' where k3: "dq_pop_loop x timeout (k2, ?q) = Some ((k3, q3), Ret (RT_EOK, Some item', ev'))" "dq_inv x (k3, q3)"
    "dq_contents ?q = item' # dq_contents q3"
    by (rule dq_pop_some [OF k2(2) st(6), where timeout = timeout]) (rule that)
  have "item' = item" "dq_contents q3 = []" using k3(3) st(3) c by simp_all
  then have "dq_pop_resume x timeout t (k2, ?q) = Some ((k3, q3), Ret (RT_EOK, Some item, ev'))" "dq_contents q3 = []"
    using k3(1) k2(3) [OF l1] k1(5) by (simp_all add: dq_pop_resume_def)
  then show ?thesis using p push k1(5) k2(3) [OF l1] k3(2)
    by (intro exI [of _ k1] exI [of _ "(k2, ?q)"] exI [of _ "(k3, q3)"] exI [of _ ev] exI [of _ ev']) simp
qed

text \<open>
  C22: A thread that pushes to a full data queue and may wait is suspended.  The pop that brings the queue down to its low
  water mark or below makes it runnable, and when it runs again its call returns \<open>RT_EOK\<close> with the item behind the others; a pop that leaves more
  items wakes nobody.  The comments of \<open>rt_data_queue_init\<close> and \<open>rt_data_queue_pop\<close> ask for fewer items than the mark, where the code
  compares with \<open>\<le>\<close>: the wake-up at equality is what makes a mark of 0 work.
\<close>
theorem dq_blocked_push:
  assumes i: "dq_inv x (k, q)" and it: "in_thread k t" and wt: "wait_time timeout" "timeout \<noteq> 0" and f: "is_full q" and l: "lists k (WaitSend x) = []"
  shows "\<exists>k1 s2 s3 ev ev'. rt_data_queue_push x item timeout (k, q) = Some ((k1, q), Blocked) \<and> stat (threads k1 t) = TH_SUSPEND RT_UNINTERRUPTIBLE \<and>
    rt_data_queue_pop x 0 (k1, q) = Some (s2, Ret (RT_EOK, Some (hd (dq_contents q)), ev)) \<and>
    (if dq_size q - 1 \<le> dq_lwm q
     then runnable (threads (fst s2) t) \<and> dq_push_resume x item timeout t s2 = Some (s3, Ret (RT_EOK, ev')) \<and> dq_inv x s3 \<and>
       dq_contents (snd s3) = tl (dq_contents q) @ [item]
     else lists (fst s2) (WaitSend x) = [t])"
proof -
  have ok: "dq_ok q" and mg: "dq_magic q = DATAQUEUE_MAGIC" using i by (simp_all add: dq_inv_def dq_ok_def)
  obtain k1 where k1: "wait_on (WaitSend x) t timeout k = Some k1" "dq_inv x (k1, q)" "only_core k k1" "lists k1 (WaitSend x) = lists k (WaitSend x) @ [t]"
    "threads k1 t = (threads k t)\<lparr>error := RT_EOK, stat := TH_SUSPEND RT_UNINTERRUPTIBLE\<rparr>"
    by (rule dq_wait [OF i it disjI2 [OF refl] wt(1)]) (rule that)
  have p: "rt_data_queue_push x item timeout (k, q) = Some ((k1, q), Blocked)"
    using it f wt(2) mg k1(1) by (simp add: rt_data_queue_push_def dq_push_loop_def) (simp add: in_thread_def)
  have e: "\<not> is_empty q" using ok f by (simp add: dq_ok_def)
  have l1: "lists k1 (WaitSend x) = [t]" using k1(4) l by simp
  obtain k2 q2 y ev where k2: "dq_pop_loop x 0 (k1, q) = Some ((k2, q2), Ret (RT_EOK, Some y, ev))" "dq_inv x (k2, q2)" "dq_contents q = y # dq_contents q2" "\<not> is_full q2"
    "lists k2 (WaitSend x) = (if of_nat (dq_count q2) \<le> dq_lwm q then tl (lists k1 (WaitSend x)) else lists k1 (WaitSend x))"
    "lists k1 (WaitSend x) = [t] \<Longrightarrow> of_nat (dq_count q2) \<le> dq_lwm q \<Longrightarrow> runnable (threads k2 t) \<and> error (threads k2 t) = error (threads k1 t)"
    by (rule dq_pop_some [OF k1(2) e, where timeout = 0 and t = t and rest = "[]"]) (rule that)
  have pop: "rt_data_queue_pop x 0 (k1, q) = Some ((k2, q2), Ret (RT_EOK, Some y, ev))" using k2(1) mg by (simp add: rt_data_queue_pop_def scheduler_available_def)
  have "unat (dq_size q) = Suc (dq_count q2)" using dq_count_bounds(2) [OF ok] f arg_cong [OF k2(3), of length] by simp
  then have "of_nat (unat (dq_size q)) = (of_nat (Suc (dq_count q2)) :: 16 word)" by (simp only:)
  then have n: "dq_size q - 1 = of_nat (dq_count q2)" by simp
  have ok2: "dq_ok q2" using k2(2) by (simp add: dq_inv_def)
  obtain k3 ev' where k3: "dq_push_loop x item timeout (k2, q2) = Some ((k3, dq_store item q2), Ret (RT_EOK, ev'))" "dq_inv x (k3, dq_store item q2)"
    by (rule dq_push_room [OF k2(2,4)]) (rule that)
  have "dq_push_resume x item timeout t (k2, q2) = Some ((k3, dq_store item q2), Ret (RT_EOK, ev'))" if "dq_size q - 1 \<le> dq_lwm q"
    using k3(1) k2(6) [OF l1] that k1(5) by (simp add: dq_push_resume_def n)
  then show ?thesis using p pop k1(5) k2(3,5,6) l1 k3(2) dq_store_spec(3) [OF ok2 k2(4), of item] n
    by (intro exI [of _ k1] exI [of _ "(k2, q2)"] exI [of _ "(k3, dq_store item q2)"] exI [of _ ev] exI [of _ ev']) simp
qed


text \<open>
  A woken thread that finds the queue empty again waits for the whole time from the beginning, not for what is left of it.
\<close>

lemma dq_wait_restarts:
  assumes i: "dq_inv x (k, q)" and it: "in_thread k t" and wt: "wait_time timeout" "sint timeout > 0" and e: "is_empty q" "error (threads k t) = RT_EOK"
  shows "\<exists>k'. dq_pop_resume x timeout t (k, q) = Some ((k', q), Blocked) \<and> remaining k' (ThreadTimer t) = timeout"
proof -
  obtain k' where k': "wait_on (Wait x) t timeout k = Some k'" "sint timeout > 0 \<Longrightarrow> ThreadTimer t \<in> set (timer_list k') \<and> remaining k' (ThreadTimer t) = timeout"
    by (rule dq_wait [OF i it disjI1 [OF refl] wt(1)]) (rule that)
  have "timeout \<noteq> 0" using wt(2) by auto
  then show ?thesis using e k' it wt(2) by (auto simp: dq_pop_resume_def dq_pop_loop_def in_thread_def)
qed

text \<open>In a queue of more than 32768 places the indices meet after 32768 items, and the length is reported as the size.\<close>

lemma dq_len_oversize:
  assumes "dq_magic q = DATAQUEUE_MAGIC" "dq_size q = 40000" "put_index q = 0x7fff" "get_index q = 0"
  shows "is_full (dq_store item q)" "rt_data_queue_len (dq_store item q) = Some 40000"
proof -
  have n: "next_index 0x7fff q = 0" by (simp add: next_index_def assms)
  then show "is_full (dq_store item q)" "rt_data_queue_len (dq_store item q) = Some 40000"
    by (simp_all add: dq_store_def Let_def rt_data_queue_len_def assms)
qed

lemma exit_critical_spec:
  assumes i: "sched_inv k" and c: "current k \<noteq> None"
  obtains k' where "rt_exit_critical k = Some k'" "sched_inv k'" "current k' \<noteq> None" "\<And>u. rescheduled (threads k u) (threads k' u)"
    "\<And>q. \<not> is_ready q \<Longrightarrow> lists k' q = lists k q"
proof (cases "sint (lock_nest k - 1) \<le> 0")
  case True
  let ?k = "k\<lparr>lock_nest := 0\<rparr>"
  obtain k' where k': "rt_schedule ?k = Some k'" using rt_schedule_total [of ?k] c by auto
  have i': "sched_inv ?k" using i by simp
  show thesis
  proof (rule that [of k'])
    show "rt_exit_critical k = Some k'" using True c k' by (simp add: rt_exit_critical_def)
    show "sched_inv k'" by (rule sched_schedule [OF i' k'])
    show "current k' \<noteq> None" using rt_schedule_current [OF k'] c by simp
    show "rescheduled (threads k u) (threads k' u)" for u using rt_schedule_threads [OF i' k', of u] by simp
    show "lists k' q = lists k q" if "\<not> is_ready q" for q using rt_schedule_lists [OF i' k' not_is_ready [OF that]] by simp
  qed
next
  case False
  then show thesis using that [of "k\<lparr>lock_nest := lock_nest k - 1\<rparr>"] i c by (simp add: rt_exit_critical_def)
qed

lemma dq_reset_spec:
  assumes i: "dq_inv x (k, q)"
  obtains k' where "rt_data_queue_reset x (k, q) = Some (k', q\<lparr>get_index := 0, put_index := 0, is_empty := True, is_full := False\<rparr>)"
    "endpoints_ok x k'" "lists k' (Wait x) = []" "lists k' (WaitSend x) = []"
    "\<And>t. t \<in> set (lists k (Wait x)) \<or> t \<in> set (lists k (WaitSend x)) \<Longrightarrow> runnable (threads k' t) \<and> error (threads k' t) = RT_ERROR"
proof -
  have e: "endpoints_ok x k" and mg: "dq_magic q = DATAQUEUE_MAGIC" using i by (simp_all add: dq_inv_def dq_ok_def)
  let ?k = "rt_enter_critical k" and ?q = "q\<lparr>get_index := 0, put_index := 0, is_empty := True, is_full := False\<rparr>"
  have h: "sched_inv ?k" "current ?k \<noteq> None" "lists ?k = lists k" "registered ?k t = registered k t" for t
    using e by (simp_all add: endpoints_ok_def rt_enter_critical_def registered_def rt_object_get_type_def)
  have reg: "t \<in> set (lists k (Wait x)) \<or> t \<in> set (lists k (WaitSend x)) \<Longrightarrow> registered k t" for t using e by (auto simp: endpoints_ok_def waiters_ok_def)
  obtain k1 where k1: "ipc_list_resume_all (Wait x) ?k = Some k1" "sched_inv k1" "only_core ?k k1" "current k1 = current ?k" "lists k1 (Wait x) = []"
    "lists k1 (WaitSend x) = lists k (WaitSend x)" "\<forall>t\<in>set (lists k (Wait x)). runnable (threads k1 t) \<and> error (threads k1 t) = RT_ERROR"
    using resume_all_spec [OF h(1), of "Wait x" x "lists k (Wait x)"] h(3,4) reg by auto
  have r1: "registered k1 t" if "t \<in> set (lists k (WaitSend x))" for t using registered_cong [OF only_coreD(1) [OF k1(3)]] reg that h(4) by simp
  obtain k2 where k2: "ipc_list_resume_all (WaitSend x) k1 = Some k2" "sched_inv k2" "current k2 = current k1" "lists k2 (WaitSend x) = []"
    "lists k2 (Wait x) = []" "\<forall>t\<in>set (lists k (WaitSend x)). runnable (threads k2 t) \<and> error (threads k2 t) = RT_ERROR"
    "\<forall>t. t \<notin> set (lists k (WaitSend x)) \<longrightarrow> threads k2 t = threads k1 t"
    using resume_all_spec [OF k1(2), of "WaitSend x" x "lists k (WaitSend x)"] k1(5,6) r1 by auto
  have c2: "current k2 \<noteq> None" using k2(3) k1(4) h(2) by simp
  obtain k3 where k3: "rt_exit_critical k2 = Some k3" "sched_inv k3" "current k3 \<noteq> None" "\<And>u. rescheduled (threads k2 u) (threads k3 u)"
    "\<And>q. \<not> is_ready q \<Longrightarrow> lists k3 q = lists k2 q" by (rule exit_critical_spec [OF k2(2) c2]) (rule that)
  obtain k4 where k4: "rt_schedule k3 = Some k4" using rt_schedule_total k3(3) by blast
  have l4: "lists k4 (Wait x) = []" "lists k4 (WaitSend x) = []"
    using rt_schedule_lists [OF k3(2) k4] k3(5) k2(4,5) by simp_all
  have r4: "runnable (threads k4 t) \<and> error (threads k4 t) = RT_ERROR" if "t \<in> set (lists k (Wait x)) \<or> t \<in> set (lists k (WaitSend x))" for t
  proof -
    have "runnable (threads k2 t) \<and> error (threads k2 t) = RT_ERROR" using that k1(7) k2(6,7) by metis
    then show ?thesis using rescheduledD(2,3) [OF k3(4) [of t]] rescheduledD(2,3) [OF rt_schedule_threads [OF k3(2) k4, of t]] by simp
  qed
  have "endpoints_ok x k4" using sched_schedule [OF k3(2) k4] rt_schedule_current [OF k4] k3(3) by (simp add: endpoints_ok_def waiters_ok_def l4)
  moreover have "rt_data_queue_reset x (k, q) = Some (k4, ?q)" using mg k1(1) k2(1) k3(1) k4 by (simp add: rt_data_queue_reset_def)
  ultimately show thesis using that l4 r4 by blast
qed

text \<open>
  \<open>rt_data_queue_reset\<close> returns however many threads wait: the queue is empty, nobody waits for it any more, and every thread that waited is
  runnable with the error \<open>-RT_ERROR\<close>, which its call returns.
\<close>
theorem dq_reset_wakes:
  assumes i: "dq_inv x (k, q)"
  shows "\<exists>k' q'. rt_data_queue_reset x (k, q) = Some (k', q') \<and> dq_inv x (k', q') \<and> dq_contents q' = [] \<and> lists k' (Wait x) = [] \<and> lists k' (WaitSend x) = [] \<and>
    (\<forall>t\<in>set (lists k (Wait x)). runnable (threads k' t) \<and> dq_pop_resume x timeout t (k', q') = Some ((k', q'), Ret (RT_ERROR, None, []))) \<and>
    (\<forall>t\<in>set (lists k (WaitSend x)). runnable (threads k' t) \<and> dq_push_resume x item timeout t (k', q') = Some ((k', q'), Ret (RT_ERROR, [])))"
proof -
  let ?q = "q\<lparr>get_index := 0, put_index := 0, is_empty := True, is_full := False\<rparr>"
  obtain k' where k': "rt_data_queue_reset x (k, q) = Some (k', ?q)" "endpoints_ok x k'" "lists k' (Wait x) = []" "lists k' (WaitSend x) = []"
    "\<And>t. t \<in> set (lists k (Wait x)) \<or> t \<in> set (lists k (WaitSend x)) \<Longrightarrow> runnable (threads k' t) \<and> error (threads k' t) = RT_ERROR"
    by (rule dq_reset_spec [OF i]) (rule that)
  have "dq_ok ?q" using i by (auto simp: dq_inv_def dq_ok_def)
  moreover have "dq_contents ?q = []" by (simp add: dq_contents_def dq_count_def)
  ultimately show ?thesis using k' by (intro exI [of _ k'] exI [of _ ?q]) (simp add: dq_inv_def dq_pop_resume_def dq_push_resume_def)
qed

text \<open>
  \<open>rt_data_queue_init\<close> takes the ring from the kernel's heap and \<open>rt_data_queue_deinit\<close> gives it back.  A queue that was set up is empty and
  has a fresh block with room for all its items; without memory the call returns \<open>-RT_ENOMEM\<close> and the heap is as before.
\<close>
theorem dq_init_deinit:
  assumes k: "sched_inv k" "current k \<noteq> None" and h: "smem_ok h" and sz: "0 < sz" "unat sz \<le> 2 ^ 15"
  shows "\<exists>k' q' h' e. rt_data_queue_init x nm sz lwm evt ((k, q), (h, d)) = Some (((k', q'), (h', d)), e) \<and>
    (if e = RT_EOK
     then dq_inv x (k', q') \<and> dq_contents q' = [] \<and> dq_size q' = sz \<and> (\<exists>c\<ge>8 * unat sz. (unat (dq_queue q'), c) \<in> smem_live h' - smem_live h) \<and>
       (\<exists>s'' h''. rt_data_queue_deinit x ((k', q'), (h', d)) = Some ((s'', (h'', d)), RT_EOK) \<and> smem_ok h'' \<and> smem_live h'' = smem_live h)
     else e = RT_ENOMEM \<and> h' = h)"
proof -
  let ?k = "k\<lparr>lists := (lists k)(WaitSend x := [], Wait x := [])\<rparr>" and ?T = "8 * ucast sz :: u32"
  let ?q = "\<lambda>p. q\<lparr>evt_notify := evt, dq_magic := DATAQUEUE_MAGIC, dq_size := sz, dq_lwm := lwm, get_index := 0, put_index := 0,
         is_empty := True, is_full := False, dq_queue := p\<rparr>"
  have T: "unat ?T = 8 * unat sz"
  proof -
    have "?T = of_nat (8 * unat sz)" by simp
    moreover have "8 * unat sz < 2 ^ 32" using sz(2) by simp
    ultimately show ?thesis using unat_of_nat_small [of "8 * unat sz", where 'a = 32] by (simp del: of_nat_mult)
  qed
  obtain h' p where h': "rt_malloc nm ?T (h, d) = Some ((h', d), p)" "granted h (unat ?T) h' p"
    by (rule malloc_granted [OF h, of ?T nm d]) (use sz(2) T in simp, rule that)
  have r: "rt_data_queue_init x nm sz lwm evt ((k, q), (h, d)) = Some (((?k, ?q p), (h', d)), if p = NULL then RT_ENOMEM else RT_EOK)"
    using sz(1) h'(1) by (simp add: rt_data_queue_init_def Let_def)
  show ?thesis
  proof (cases "p = NULL")
    case True
    then show ?thesis using r h'(2) by (simp add: granted_def)
  next
    case False
    then obtain c where c: "8 * unat sz \<le> c" "(unat p, c) \<notin> smem_live h" "smem_live h' = insert (unat p, c) (smem_live h)" and ok': "smem_ok h'"
      using h'(2) T by (auto simp: granted_def)
    have "sched_inv ?k" using k(1) by (auto simp: sched_but_def thread_ok_def)
    then have "endpoints_ok x ?k" using k(2) by (simp add: endpoints_ok_def waiters_ok_def)
    moreover have "dq_ok (?q p)" using sz by (simp add: dq_ok_def word_less_nat_alt)
    ultimately have i: "dq_inv x (?k, ?q p)" by (simp add: dq_inv_def)
    obtain k'' q'' where re: "rt_data_queue_reset x (?k, ?q p) = Some (k'', q'')" and "dq_queue q'' = p"
      by (rule dq_reset_spec [OF i]) (erule that, simp)
    moreover obtain h'' where h'': "rt_smem_free p h' = Some h''" "smem_ok h''" "smem_live h'' = smem_live h' - {(unat p, c)}"
      using smem_free_contract [OF ok', of "unat p" c] c(3) by (auto simp: smem_free_op_def)
    ultimately have "rt_data_queue_deinit x ((?k, ?q p), (h', d)) = Some (((k'', q''\<lparr>dq_magic := 0\<rparr>), (h'', d)), RT_EOK)"
      using re False by (simp add: rt_data_queue_deinit_def rt_free_def)
    moreover have "smem_live h'' = smem_live h" using h''(3) c(2,3) by simp
    moreover have "dq_contents (?q p) = []" by (simp add: dq_contents_def dq_count_def)
    ultimately show ?thesis using r i False c h''(2) by auto
  qed
qed

subsection \<open>Witnesses\<close>

text \<open>A queue of one place, empty or full.\<close>

definition demo_dq :: "bool \<Rightarrow> rt_data_queue" where
  "demo_dq f = \<lparr>dq_magic = DATAQUEUE_MAGIC, dq_size = 1, dq_lwm = 0, get_index = 0, is_empty = (\<not> f), put_index = 0, is_full = f, dq_queue = 4096,
     dq_items = (\<lambda>_. (5, 6)), evt_notify = True\<rparr>"

lemma demo_dq: "dq_inv 9 (demo_ipc, demo_dq f)" "dq_contents (demo_dq True) = [(5, 6)]" "dq_contents (demo_dq False) = []"
  "is_empty (demo_dq False)" "is_full (demo_dq True)" "dq_size (demo_dq f) = 1" "dq_lwm (demo_dq f) = 0"
proof -
  have "endpoints_ok 9 demo_ipc" using demo_ipc_thread by (simp add: endpoints_ok_def in_thread_def waiters_ok_def)
  then show "dq_inv 9 (demo_ipc, demo_dq f)" by (simp add: dq_inv_def dq_ok_def demo_dq_def)
qed (simp_all add: dq_contents_def dq_count_def demo_dq_def)

lemma demo_dq_wait: "wait_time 25" "(25 :: cint) \<noteq> 0"
  by (simp_all add: wait_time_def RT_TICK_MAX2_def)


theorem dq_blocked_pop_witness:
  "\<exists>k1 s2 s3 ev ev'. rt_data_queue_pop 9 25 (demo_ipc, demo_dq False) = Some ((k1, demo_dq False), Blocked) \<and>
    rt_data_queue_push 9 (1, 2) 0 (k1, demo_dq False) = Some (s2, Ret (RT_EOK, ev)) \<and> dq_pop_resume 9 25 1 s2 = Some (s3, Ret (RT_EOK, Some (1, 2), ev'))"
  using dq_blocked_pop [OF demo_dq(1) demo_ipc_thread(1) demo_dq_wait demo_dq(4) demo_ipc_thread(2), of "(1, 2)"] by blast

theorem dq_blocked_push_witness:
  "\<exists>k1 s2 s3 ev ev'. rt_data_queue_push 9 (1, 2) 25 (demo_ipc, demo_dq True) = Some ((k1, demo_dq True), Blocked) \<and>
    rt_data_queue_pop 9 0 (k1, demo_dq True) = Some (s2, Ret (RT_EOK, Some (5, 6), ev)) \<and> dq_push_resume 9 (1, 2) 25 1 s2 = Some (s3, Ret (RT_EOK, ev'))"
  using dq_blocked_push [OF demo_dq(1) demo_ipc_thread(1) demo_dq_wait demo_dq(5) demo_ipc_thread(3), of "(1, 2)"] by (simp add: demo_dq) blast

theorem dq_reset_wakes_witness:
  "\<exists>k' q'. rt_data_queue_reset 9 (demo_waiting (Wait 9), demo_dq False) = Some (k', q') \<and> lists k' (Wait 9) = [] \<and> runnable (threads k' 4)"
proof -
  note d = demo_waiting [OF disjI1 [OF refl], where x = 9]
  have "set (lists (demo_waiting (Wait 9)) (WaitSend 9)) = {}"
    using demo_ipc_thread(3) [of 9] by (simp add: demo_waiting_def tlist_insert_before_def)
  then have "dq_inv 9 (demo_waiting (Wait 9), demo_dq False)"
    using d(1-4) demo_dq(1) by (simp add: dq_inv_def endpoints_ok_def waiters_ok_def)
  from dq_reset_wakes [OF this, where timeout = 0 and item = "(1, 2)"] show ?thesis by (auto simp: d(3))
qed

theorem dq_init_deinit_witness:
  "\<exists>k' q' h' e. rt_data_queue_init 9 None 3 1 True ((demo_ipc, demo_dq True), (demo_heap, \<lambda>_. 0)) = Some (((k', q'), (h', \<lambda>_. 0)), e) \<and>
    (e = RT_EOK \<longrightarrow> dq_contents q' = [] \<and>
      (\<exists>s'' h''. rt_data_queue_deinit 9 ((k', q'), (h', \<lambda>_. 0)) = Some ((s'', (h'', \<lambda>_. 0)), RT_EOK) \<and> smem_live h'' = smem_live demo_heap))"
proof -
  have k: "sched_inv demo_ipc" "current demo_ipc \<noteq> None" using demo_ipc_thread(1) by (simp_all add: in_thread_def)
  from dq_init_deinit [OF k demo_heap(2), of 3 9 None 1 True "demo_dq True" "\<lambda>_. 0"] show ?thesis by (simp split: if_splits) blast
qed

end
