(* ===== verification/KWaitq.thy ===== *)
theory KWaitq
  imports KIpc
begin

text \<open>
  Wait queues (\<open>components/drivers/ipc/waitqueue.c\<close>): a flag that remembers a wake-up and the nodes of the threads that wait.  The node of
  \<open>_rt_wqueue_wait\<close> is a local variable of the waiting thread; other nodes belong to drivers, which give them a thread and a wake-up
  function.  The kernel keeps a thread that waits here on no list of its own.
\<close>

subsection \<open>The code\<close>

datatype wq_node = Own tid | Other nat

datatype wqueue_flag = RT_WQ_FLAG_CLEAN | RT_WQ_FLAG_WAKEUP

record rt_wqueue =
  wq_flag :: wqueue_flag
  waiting_list :: "wq_node list"

definition rt_wqueue_init :: rt_wqueue where
  "rt_wqueue_init = \<lparr>wq_flag = RT_WQ_FLAG_CLEAN, waiting_list = []\<rparr>"

definition rt_wqueue_add :: "wq_node \<Rightarrow> rt_wqueue \<Rightarrow> rt_wqueue" where
  "rt_wqueue_add nd q = q\<lparr>waiting_list := waiting_list q @ [nd]\<rparr>"

definition rt_wqueue_remove :: "wq_node \<Rightarrow> rt_wqueue \<Rightarrow> rt_wqueue" where
  "rt_wqueue_remove nd q = q\<lparr>waiting_list := removeAll nd (waiting_list q)\<rparr>"

definition wqueue_default_wake :: "tid \<Rightarrow> 'key \<Rightarrow> int" where
  "wqueue_default_wake t key = 0"

text \<open>The thread of a node, and what its wake-up function returns; those of the drivers are arguments; what a driver's function does to the
  driver's own data is outside this state.\<close>

fun polling_thread :: "(nat \<Rightarrow> tid) \<Rightarrow> wq_node \<Rightarrow> tid" where
  "polling_thread thr (Own t) = t"
| "polling_thread thr (Other n) = thr n"

fun node_wakeup :: "(nat \<Rightarrow> 'key \<Rightarrow> int) \<Rightarrow> 'key \<Rightarrow> wq_node \<Rightarrow> int" where
  "node_wakeup fn key (Own t) = wqueue_default_wake t key"
| "node_wakeup fn key (Other n) = fn n key"

definition rt_wqueue_wakeup :: "(nat \<Rightarrow> tid) \<Rightarrow> (nat \<Rightarrow> 'key \<Rightarrow> int) \<Rightarrow> 'key \<Rightarrow> kernel \<times> rt_wqueue \<Rightarrow> (kernel \<times> rt_wqueue) option" where
  "rt_wqueue_wakeup thr fn key = (\<lambda>(k, q).
     let q = q\<lparr>wq_flag := RT_WQ_FLAG_WAKEUP\<rparr>
     in case find (\<lambda>nd. node_wakeup fn key nd = 0) (waiting_list q) of
          None \<Rightarrow> Some (k, q)
        | Some entry \<Rightarrow> do {
            (k, _) \<leftarrow> rt_thread_resume (polling_thread thr entry) k;
            let q = rt_wqueue_remove entry q;
            k \<leftarrow> rt_schedule k;
            Some (k, q)
          })"

definition wqueue_wait :: "cint \<Rightarrow> cint \<Rightarrow> suspend_flag \<Rightarrow> kernel \<times> rt_wqueue \<Rightarrow> ((kernel \<times> rt_wqueue) \<times> err outcome) option" where
  "wqueue_wait condition msec sflag = (\<lambda>(k, q).
     do {
       scheduler_available True k;
       t \<leftarrow> current k;
       let tick' = rt_tick_from_millisecond msec;
       if condition \<noteq> 0 \<or> tick' = 0 then Some ((k, q), Ret RT_EOK)
       else do {
         let k = upd_thread t (\<lambda>th. th\<lparr>error := RT_EOK\<rparr>) k;
         if wq_flag q = RT_WQ_FLAG_WAKEUP
         then Some ((k, rt_wqueue_remove (Own t) (q\<lparr>wq_flag := RT_WQ_FLAG_CLEAN\<rparr>)), Ret (error (threads k t)))
         else do {
           (k, ret) \<leftarrow> rt_thread_suspend_with_flag t sflag k;
           if ret \<noteq> RT_EOK then Some ((k, q), Ret RT_EINTR)
           else do {
             let q = rt_wqueue_add (Own t) q;
             k \<leftarrow> (if tick' \<noteq> 0xffffffff then start_thread_timer t tick' k else Some k);
             k \<leftarrow> rt_schedule k;
             Some ((k, q), Blocked)
           }
         }
       }
     })"

definition wqueue_wait_resume :: "tid \<Rightarrow> kernel \<times> rt_wqueue \<Rightarrow> (kernel \<times> rt_wqueue) \<times> err" where
  "wqueue_wait_resume t = (\<lambda>(k, q). ((k, rt_wqueue_remove (Own t) (q\<lparr>wq_flag := RT_WQ_FLAG_CLEAN\<rparr>)), error (threads k t)))"

definition rt_wqueue_wait :: "cint \<Rightarrow> cint \<Rightarrow> kernel \<times> rt_wqueue \<Rightarrow> ((kernel \<times> rt_wqueue) \<times> err outcome) option" where
  "rt_wqueue_wait condition msec = wqueue_wait condition msec RT_UNINTERRUPTIBLE"

definition rt_wqueue_wait_killable :: "cint \<Rightarrow> cint \<Rightarrow> kernel \<times> rt_wqueue \<Rightarrow> ((kernel \<times> rt_wqueue) \<times> err outcome) option" where
  "rt_wqueue_wait_killable condition msec = wqueue_wait condition msec RT_KILLABLE"

definition rt_wqueue_wait_interruptible :: "cint \<Rightarrow> cint \<Rightarrow> kernel \<times> rt_wqueue \<Rightarrow> ((kernel \<times> rt_wqueue) \<times> err outcome) option" where
  "rt_wqueue_wait_interruptible condition msec = wqueue_wait condition msec RT_INTERRUPTIBLE"

subsection \<open>The theorems\<close>

text \<open>
  C28: A thread that waits on a wait queue is suspended with its node in the queue, whatever other nodes refuse the wake-up; \<open>rt_wqueue_wakeup\<close> makes it runnable, and
  when it runs again its call returns \<open>RT_EOK\<close>.  A wake-up that finds nobody is remembered: the next wait returns at once.
\<close>
theorem wqueue_rendezvous:
  assumes it: "in_thread k t" and w: "\<forall>nd\<in>set ns. node_wakeup fn key nd \<noteq> 0"
    and tm: "rt_tick_from_millisecond msec = 0xffffffff \<or> 0 < rt_tick_from_millisecond msec \<and> rt_tick_from_millisecond msec < RT_TICK_MAX2"
  shows "(\<exists>k1 k2. wqueue_wait 0 msec sflag (k, \<lparr>wq_flag = RT_WQ_FLAG_CLEAN, waiting_list = ns\<rparr>) =
      Some ((k1, \<lparr>wq_flag = RT_WQ_FLAG_CLEAN, waiting_list = ns @ [Own t]\<rparr>), Blocked) \<and> stat (threads k1 t) = TH_SUSPEND sflag \<and>
    rt_wqueue_wakeup thr fn key (k1, \<lparr>wq_flag = RT_WQ_FLAG_CLEAN, waiting_list = ns @ [Own t]\<rparr>) =
      Some (k2, \<lparr>wq_flag = RT_WQ_FLAG_WAKEUP, waiting_list = ns\<rparr>) \<and> sched_inv k2 \<and> runnable (threads k2 t) \<and>
    wqueue_wait_resume t (k2, \<lparr>wq_flag = RT_WQ_FLAG_WAKEUP, waiting_list = ns\<rparr>) = ((k2, \<lparr>wq_flag = RT_WQ_FLAG_CLEAN, waiting_list = ns\<rparr>), RT_EOK)) \<and>
    rt_wqueue_wakeup thr fn key (k, \<lparr>wq_flag = RT_WQ_FLAG_CLEAN, waiting_list = ns\<rparr>) = Some (k, \<lparr>wq_flag = RT_WQ_FLAG_WAKEUP, waiting_list = ns\<rparr>) \<and>
    wqueue_wait 0 msec sflag (k, \<lparr>wq_flag = RT_WQ_FLAG_WAKEUP, waiting_list = ns\<rparr>) =
      Some ((upd_thread t (\<lambda>th. th\<lparr>error := RT_EOK\<rparr>) k, \<lparr>wq_flag = RT_WQ_FLAG_CLEAN, waiting_list = ns\<rparr>), Ret RT_EOK)"
proof -
  let ?tick = "rt_tick_from_millisecond msec" and ?k = "upd_thread t (\<lambda>th. th\<lparr>error := RT_EOK\<rparr>) k"
  have nz: "?tick \<noteq> 0" using tm by auto
  have no: "Own t \<notin> set ns" using w by (auto simp: wqueue_default_wake_def)
  have fn: "find (\<lambda>nd. node_wakeup fn key nd = 0) ns = None" using w by (auto simp: find_None_iff)
  have fo: "find (\<lambda>nd. node_wakeup fn key nd = 0) (ns @ [Own t]) = Some (Own t)" using w by (induction ns) (auto simp: wqueue_default_wake_def)
  have cur: "current k = Some t" and reg: "registered k t" and so: "\<not> soft (timers k (ThreadTimer t))" using it by (simp_all add: in_thread_def)
  have it': "in_thread ?k t" using it by simp
  obtain k1 where k1: "rt_thread_suspend_with_flag t sflag ?k = Some (k1, RT_EOK)" "sched_inv k1" "only_core ?k k1" "current k1 = Some t"
    "threads k1 = (threads ?k)(t := (threads ?k t)\<lparr>stat := TH_SUSPEND sflag\<rparr>)" "\<And>tm. soft (timers k1 tm) = soft (timers ?k tm)"
    by (rule suspend_self_spec [OF it', where sflag = sflag]) (rule that)
  have g1: "registered k1 t" using reg registered_cong [OF only_coreD(1) [OF k1(3)]] by (simp add: registered_cong [OF upd_thread_objects(1)])
  obtain k2 where k2: "(if ?tick \<noteq> 0xffffffff then start_thread_timer t ?tick k1 else Some k1) = Some k2" "threads k2 = threads k1" "current k2 = current k1" "sched_inv k2" "only_core k1 k2"
  proof (cases "?tick = 0xffffffff")
    case True
    then show thesis using that k1(2) by simp
  next
    case False
    then have n: "?tick < RT_TICK_MAX2" using tm by simp
    have so1: "\<not> soft (timers k1 (ThreadTimer t))" using so k1(6) by simp
    obtain k2 where t2: "start_thread_timer t ?tick k1 = Some k2" "threads k2 = threads k1" "current k2 = current k1" "only_core k1 k2" "sched_inv k2 = sched_inv k1"
      by (rule start_timer_spec [OF g1 n so1]) (rule that)
    show thesis by (rule that [OF _ t2(2,3) _ t2(4)]) (simp_all add: False t2(1,5) k1(2))
  qed
  obtain k3 where k3: "rt_schedule k2 = Some k3" using rt_schedule_total [of k2] k2(3) k1(4) by auto
  have w1: "wqueue_wait 0 msec sflag (k, \<lparr>wq_flag = RT_WQ_FLAG_CLEAN, waiting_list = ns\<rparr>) =
      Some ((k3, \<lparr>wq_flag = RT_WQ_FLAG_CLEAN, waiting_list = ns @ [Own t]\<rparr>), Blocked)"
    using it cur nz k1(1) k2(1) k3 by (simp add: wqueue_wait_def rt_wqueue_add_def)
  have i3: "sched_inv k3" by (rule sched_schedule [OF k2(4) k3])
  have "threads k3 t = threads k2 t" using rescheduledD(1) [OF rt_schedule_threads [OF k2(4) k3, of t]] by (simp add: k2(2) k1(5))
  then have t3: "threads k3 t = (threads k t)\<lparr>error := RT_EOK, stat := TH_SUSPEND sflag\<rparr>" by (simp add: k2(2) k1(5))
  have g3: "registered k3 t" using g1 registered_cong [OF only_coreD(1) [OF k2(5)]] registered_cong [OF only_coreD(1) [OF only_core_schedule [OF k3]]] by simp
  have s3: "suspended (threads k3 t)" by (simp add: t3)
  obtain k4 where k4: "rt_thread_resume t k3 = Some (k4, RT_EOK)" "sched_inv k4" "current k4 = current k3"
    "threads k4 = (threads k3)(t := (threads k3 t)\<lparr>stat := (if current k3 = Some t then TH_RUNNING else TH_READY)\<rparr>)"
    by (rule resume_spec [OF i3 s3 g3]) (rule that)
  have c4: "current k4 \<noteq> None" using rt_schedule_current [OF k3] k2(3) k1(4) k4(3) by simp
  then obtain k5 where k5: "rt_schedule k4 = Some k5" using rt_schedule_total by blast
  have "runnable (threads k4 t)" "error (threads k4 t) = RT_EOK" by (simp_all add: k4(4) runnable_def t3)
  then have t5: "runnable (threads k5 t)" "error (threads k5 t) = RT_EOK" using rescheduledD(2,3) [OF rt_schedule_threads [OF k4(2) k5, of t]] by simp_all
  have "rt_wqueue_wakeup thr fn key (k3, \<lparr>wq_flag = RT_WQ_FLAG_CLEAN, waiting_list = ns @ [Own t]\<rparr>) = Some (k5, \<lparr>wq_flag = RT_WQ_FLAG_WAKEUP, waiting_list = ns\<rparr>)"
    using fo k4(1) k5 no by (simp add: rt_wqueue_wakeup_def Let_def rt_wqueue_remove_def)
  moreover have "wqueue_wait_resume t (k5, \<lparr>wq_flag = RT_WQ_FLAG_WAKEUP, waiting_list = ns\<rparr>) = ((k5, \<lparr>wq_flag = RT_WQ_FLAG_CLEAN, waiting_list = ns\<rparr>), RT_EOK)"
    using t5(2) no by (simp add: wqueue_wait_resume_def rt_wqueue_remove_def)
  moreover have "rt_wqueue_wakeup thr fn key (k, \<lparr>wq_flag = RT_WQ_FLAG_CLEAN, waiting_list = ns\<rparr>) = Some (k, \<lparr>wq_flag = RT_WQ_FLAG_WAKEUP, waiting_list = ns\<rparr>)"
    using fn by (simp add: rt_wqueue_wakeup_def)
  moreover have "wqueue_wait 0 msec sflag (k, \<lparr>wq_flag = RT_WQ_FLAG_WAKEUP, waiting_list = ns\<rparr>) = Some ((?k, \<lparr>wq_flag = RT_WQ_FLAG_CLEAN, waiting_list = ns\<rparr>), Ret RT_EOK)"
    using it cur nz no by (simp add: wqueue_wait_def rt_wqueue_remove_def)
  moreover have "stat (threads k3 t) = TH_SUSPEND sflag" by (simp add: t3)
  ultimately show ?thesis using w1 t5(1) sched_schedule [OF k4(2) k5] by blast
qed

text \<open>
  A wake-up is lost when the first thread of the queue has timed out but has not run yet: the wake-up is spent on this thread, which is no longer suspended and whose
  call returns the timeout, the flag is cleared, and the thread behind it goes on waiting.
\<close>
theorem wqueue_wakeup_lost:
  assumes i: "sched_inv k" and c: "current k \<noteq> None" and t1: "registered k t1" "stat (threads k t1) = TH_READY" "error (threads k t1) = RT_ETIMEOUT"
    and t2: "suspended (threads k t2)"
  shows "\<exists>k'. rt_wqueue_wakeup thr fn key (k, \<lparr>wq_flag = RT_WQ_FLAG_CLEAN, waiting_list = [Own t1, Own t2]\<rparr>) =
      Some (k', \<lparr>wq_flag = RT_WQ_FLAG_WAKEUP, waiting_list = [Own t2]\<rparr>) \<and> sched_inv k' \<and>
    wqueue_wait_resume t1 (k', \<lparr>wq_flag = RT_WQ_FLAG_WAKEUP, waiting_list = [Own t2]\<rparr>) =
      ((k', \<lparr>wq_flag = RT_WQ_FLAG_CLEAN, waiting_list = [Own t2]\<rparr>), RT_ETIMEOUT) \<and> threads k' t2 = threads k t2"
proof -
  obtain k' where k': "rt_schedule k = Some k'" using rt_schedule_total c by blast
  have r: "rt_thread_resume t1 k = Some (k, RT_ERROR)" using t1(1,2) by (simp add: rt_thread_resume_def registered_def)
  have n: "t1 \<noteq> t2" using t1(2) t2 by auto
  have "threads k' t2 = threads k t2" "error (threads k' t1) = RT_ETIMEOUT"
    using rescheduledD(1) [OF rt_schedule_threads [OF i k', of t2] t2] rescheduledD(3) [OF rt_schedule_threads [OF i k', of t1]] t1(3) by simp_all
  then show ?thesis using r k' n sched_schedule [OF i k']
    by (simp add: rt_wqueue_wakeup_def wqueue_default_wake_def rt_wqueue_remove_def wqueue_wait_resume_def)
qed

subsection \<open>Witnesses\<close>

theorem wqueue_rendezvous_witness:
  "\<exists>k1 k2. wqueue_wait 0 100 RT_KILLABLE (demo_ipc, \<lparr>wq_flag = RT_WQ_FLAG_CLEAN, waiting_list = [Other 3]\<rparr>) =
      Some ((k1, \<lparr>wq_flag = RT_WQ_FLAG_CLEAN, waiting_list = [Other 3, Own 1]\<rparr>), Blocked) \<and>
    rt_wqueue_wakeup (\<lambda>n. n) (\<lambda>n (key :: nat). -1) 0 (k1, \<lparr>wq_flag = RT_WQ_FLAG_CLEAN, waiting_list = [Other 3, Own 1]\<rparr>) =
      Some (k2, \<lparr>wq_flag = RT_WQ_FLAG_WAKEUP, waiting_list = [Other 3]\<rparr>) \<and> runnable (threads k2 1)"
proof -
  have "rt_tick_from_millisecond 100 = 10" by (simp add: rt_tick_from_millisecond_def RT_TICK_PER_SECOND_def)
  then have "rt_tick_from_millisecond 100 = 0xffffffff \<or> 0 < rt_tick_from_millisecond 100 \<and> rt_tick_from_millisecond 100 < RT_TICK_MAX2"
    by (simp add: RT_TICK_MAX2_def)
  from wqueue_rendezvous [OF demo_ipc_thread(1) _ this, where ns = "[Other 3]" and fn = "\<lambda>n (key :: nat). -1" and key = 0 and sflag = RT_KILLABLE and thr = "\<lambda>n. n"]
  show ?thesis by (auto simp del: One_nat_def)
qed

theorem wqueue_wakeup_lost_witness:
  "\<exists>k'. rt_wqueue_wakeup (\<lambda>n. n) (\<lambda>n (key :: nat). 0) 0
      (upd_thread 2 (\<lambda>th. th\<lparr>error := RT_ETIMEOUT\<rparr>) (demo_waiting (Wait 9)), \<lparr>wq_flag = RT_WQ_FLAG_CLEAN, waiting_list = [Own 2, Own 4]\<rparr>) =
      Some (k', \<lparr>wq_flag = RT_WQ_FLAG_WAKEUP, waiting_list = [Own 4]\<rparr>) \<and> suspended (threads k' 4)"
proof -
  note d = demo_waiting [OF disjI1 [OF refl], where x = 9]
  let ?k = "upd_thread 2 (\<lambda>th. th\<lparr>error := RT_ETIMEOUT\<rparr>) (demo_waiting (Wait 9))"
  have s: "suspended (threads ?k 4)" using sched_butD(3) [OF d(1), of 4 "Wait 9"] d(3) by simp
  have r: "stat (threads ?k 2) = TH_READY" by (simp add: demo_waiting_def demo_ipc_def demo_eval demo_ffs)
  have "registered (demo_waiting (Wait 9)) 2" using d(5) by (simp add: registered_def)
  then have g: "registered ?k 2" by (simp add: registered_cong [OF upd_thread_objects(1)])
  have "sched_inv ?k" "current ?k \<noteq> None" "error (threads ?k 2) = RT_ETIMEOUT" using d(1,2) by simp_all
  from wqueue_wakeup_lost [OF this(1,2) g r this(3) s, where thr = "\<lambda>n. n" and fn = "\<lambda>n (key :: nat). 0" and key = 0] s
  show ?thesis by auto
qed

end
