(* ===== verification/Ringblk.thy ===== *)
theory Ringblk
  imports KHeap
begin

text \<open>
  The ring block buffer (\<open>components/drivers/ipc/ringblk_buf.c\<close>): a buffer from which blocks are allocated behind each other, filled, taken out
  in order and freed.  The descriptors of the blocks are numbered; a singly linked list is the list of its nodes, and \<open>rbb_tail\<close> is
  \<open>None\<close> when the tail pointer points to the head of the list.
\<close>

subsection \<open>The code\<close>

datatype rbb_status = RT_RBB_BLK_UNUSED | RT_RBB_BLK_INITED | RT_RBB_BLK_PUT | RT_RBB_BLK_GET

record rbb_blk =
  blk_status :: rbb_status
  blk_size :: u32
  blk_buf :: addr

record rt_rbb =
  rbb_self :: addr
  rbb_buf :: addr
  rbb_buf_size :: u32
  blk_set_ptr :: addr
  blk_set :: "nat \<Rightarrow> rbb_blk"
  blk_max_num :: u32
  blk_list :: "nat list"
  rbb_tail :: "nat option"
  free_list :: "nat list"

definition upd_blk :: "nat \<Rightarrow> (rbb_blk \<Rightarrow> rbb_blk) \<Rightarrow> rt_rbb \<Rightarrow> rt_rbb" where
  "upd_blk b f r = r\<lparr>blk_set := (blk_set r)(b := f (blk_set r b))\<rparr>"

definition rt_rbb_init :: "addr \<Rightarrow> u32 \<Rightarrow> addr \<Rightarrow> u32 \<Rightarrow> rt_rbb \<Rightarrow> rt_rbb option" where
  "rt_rbb_init buf buf_size block_set n r =
     do {
       rt_assert (buf \<noteq> NULL);
       rt_assert (block_set \<noteq> NULL);
       let r = r\<lparr>rbb_buf := buf, rbb_buf_size := buf_size, blk_set_ptr := block_set, blk_max_num := n, rbb_tail := None, blk_list := [], free_list := []\<rparr>;
       Some (fold (\<lambda>i r. (upd_blk i (\<lambda>b. b\<lparr>blk_status := RT_RBB_BLK_UNUSED\<rparr>) r)\<lparr>free_list := i # free_list r\<rparr>) [0..<unat n] r)
     }"

text \<open>The buffer, its descriptors and the control block come from the kernel's heap.\<close>

definition rt_rbb_create :: "string option \<Rightarrow> u32 \<Rightarrow> u32 \<Rightarrow> rt_rbb \<Rightarrow> heap \<Rightarrow> (heap \<times> rt_rbb option) option" where
  "rt_rbb_create name buf_size n r h =
     do {
       (h, rbb) \<leftarrow> rt_malloc name 28 h;
       if rbb = NULL then Some (h, None)
       else do {
         (h, buf) \<leftarrow> rt_malloc name buf_size h;
         if buf = NULL then do { h \<leftarrow> rt_free rbb h; Some (h, None) }
         else do {
           (h, set') \<leftarrow> rt_malloc name (12 * n) h;
           if set' = NULL then do { h \<leftarrow> rt_free buf h; h \<leftarrow> rt_free rbb h; Some (h, None) }
           else do { r \<leftarrow> rt_rbb_init buf buf_size set' n (r\<lparr>rbb_self := rbb\<rparr>); Some (h, Some r) }
         }
       }
     }"

definition rt_rbb_destroy :: "rt_rbb \<Rightarrow> heap \<Rightarrow> heap option" where
  "rt_rbb_destroy r h = do { h \<leftarrow> rt_free (rbb_buf r) h; h \<leftarrow> rt_free (blk_set_ptr r) h; rt_free (rbb_self r) h }"

definition find_empty_blk_in_set :: "rt_rbb \<Rightarrow> (rt_rbb \<times> nat option) option" where
  "find_empty_blk_in_set r =
     (case free_list r of
        [] \<Rightarrow> Some (r, None)
      | b # bs \<Rightarrow> do { rt_assert (blk_status (blk_set r b) = RT_RBB_BLK_UNUSED); Some (r\<lparr>free_list := bs\<rparr>, Some b) })"

definition list_append :: "nat \<Rightarrow> rt_rbb \<Rightarrow> rt_rbb" where
  "list_append b r =
     r\<lparr>blk_list := (case rbb_tail r of
          None \<Rightarrow> [b]
        | Some t \<Rightarrow> if t \<in> set (blk_list r) then takeWhile (\<lambda>c. c \<noteq> t) (blk_list r) @ [t, b] else blk_list r),
       rbb_tail := Some b\<rparr>"

definition list_remove :: "nat \<Rightarrow> rt_rbb \<Rightarrow> rt_rbb" where
  "list_remove b r =
     (if b \<in> set (blk_list r)
      then let before = takeWhile (\<lambda>c. c \<noteq> b) (blk_list r)
           in r\<lparr>blk_list := remove1 b (blk_list r),
                rbb_tail := (if rbb_tail r = Some b then if before = [] then None else Some (last before) else rbb_tail r)\<rparr>
      else r)"

definition rbb_place :: "nat \<Rightarrow> addr \<Rightarrow> u32 \<Rightarrow> rt_rbb \<Rightarrow> rt_rbb" where
  "rbb_place b a sz r = upd_blk b (\<lambda>_. \<lparr>blk_status = RT_RBB_BLK_INITED, blk_size = sz, blk_buf = a\<rparr>) (list_append b r)"

definition rt_rbb_blk_alloc :: "u32 \<Rightarrow> rt_rbb \<Rightarrow> (rt_rbb \<times> nat option) option" where
  "rt_rbb_blk_alloc sz r =
     do {
       rt_assert (sz < 2 ^ 24);
       (r, found) \<leftarrow> find_empty_blk_in_set r;
       case found of
         None \<Rightarrow> Some (r, None)
       | Some b \<Rightarrow>
           if blk_list r \<noteq> [] then do {
             t \<leftarrow> rbb_tail r;
             let head = blk_set r (hd (blk_list r));
             let tail = blk_set r t;
             let behind = blk_buf tail + blk_size tail;
             if blk_buf head \<le> blk_buf tail
             then let empty1 = rbb_buf r + rbb_buf_size r - behind;
                      empty2 = blk_buf head - rbb_buf r
                  in if empty1 \<ge> sz then Some (rbb_place b behind sz r, Some b)
                     else if empty2 \<ge> sz then Some (rbb_place b (rbb_buf r) sz r, Some b)
                     else Some (r, None)
             else let empty1 = blk_buf head - behind
                  in if empty1 \<ge> sz then Some (rbb_place b behind sz r, Some b) else Some (r, None)
           }
           else Some (rbb_place b (rbb_buf r) sz r, Some b)
     }"

definition set_status :: "rbb_status \<Rightarrow> nat \<Rightarrow> rt_rbb \<Rightarrow> rt_rbb" where
  "set_status s b r = upd_blk b (\<lambda>x. x\<lparr>blk_status := s\<rparr>) r"

definition rt_rbb_blk_put :: "nat \<Rightarrow> rt_rbb \<Rightarrow> rt_rbb option" where
  "rt_rbb_blk_put b r = do { rt_assert (blk_status (blk_set r b) = RT_RBB_BLK_INITED); Some (set_status RT_RBB_BLK_PUT b r) }"

definition rt_rbb_blk_get :: "rt_rbb \<Rightarrow> rt_rbb \<times> nat option" where
  "rt_rbb_blk_get r =
     (case find (\<lambda>b. blk_status (blk_set r b) = RT_RBB_BLK_PUT) (blk_list r) of
        None \<Rightarrow> (r, None)
      | Some b \<Rightarrow> (set_status RT_RBB_BLK_GET b r, Some b))"

definition rt_rbb_blk_size :: "nat \<Rightarrow> rt_rbb \<Rightarrow> u32" where
  "rt_rbb_blk_size b r = blk_size (blk_set r b)"

definition rt_rbb_blk_buf :: "nat \<Rightarrow> rt_rbb \<Rightarrow> addr" where
  "rt_rbb_blk_buf b r = blk_buf (blk_set r b)"

definition rt_rbb_get_buf_size :: "rt_rbb \<Rightarrow> u32" where
  "rt_rbb_get_buf_size r = rbb_buf_size r"

definition rt_rbb_blk_free :: "nat \<Rightarrow> rt_rbb \<Rightarrow> rt_rbb option" where
  "rt_rbb_blk_free b r =
     do {
       rt_assert (blk_status (blk_set r b) \<noteq> RT_RBB_BLK_UNUSED);
       let r = set_status RT_RBB_BLK_UNUSED b (list_remove b r);
       Some (r\<lparr>free_list := b # free_list r\<rparr>)
     }"

text \<open>A queue of blocks: its first block and their number.  The loop of \<open>rt_rbb_blk_queue_get\<close> looks one node ahead: at the end of the list the
  next node is null, and its successor is read through it.\<close>

type_synonym blk_queue = "nat \<times> nat"

fun queue_take :: "u32 \<Rightarrow> nat list \<Rightarrow> nat option \<Rightarrow> u32 \<Rightarrow> blk_queue \<Rightarrow> rt_rbb \<Rightarrow> (rt_rbb \<times> blk_queue \<times> u32) option" where
  "queue_take len [] prev data q r = None"
| "queue_take len (b # bs) None data q r =
     (if blk_status (blk_set r b) = RT_RBB_BLK_PUT
      then queue_take len bs (Some b) (data + blk_size (blk_set r b)) (b, 1) (set_status RT_RBB_BLK_GET b r)
      else queue_take len bs None data q r)"
| "queue_take len (b # bs) (Some p) data q r =
     (if blk_status (blk_set r b) \<noteq> RT_RBB_BLK_PUT \<or> blk_buf (blk_set r p) > blk_buf (blk_set r b) \<or> data + blk_size (blk_set r b) > len
      then Some (r, q, data)
      else queue_take len bs (Some b) (data + blk_size (blk_set r b)) (fst q, Suc (snd q)) (set_status RT_RBB_BLK_GET b r))"

definition rt_rbb_blk_queue_get :: "u32 \<Rightarrow> blk_queue \<Rightarrow> rt_rbb \<Rightarrow> (rt_rbb \<times> blk_queue \<times> u32) option" where
  "rt_rbb_blk_queue_get len q r = (if blk_list r = [] then Some (r, q, 0) else queue_take len (blk_list r) None 0 q r)"

text \<open>The nodes from a given one on.\<close>

definition nodes_from :: "nat \<Rightarrow> rt_rbb \<Rightarrow> nat list" where
  "nodes_from b r = dropWhile (\<lambda>c. c \<noteq> b) (blk_list r)"

fun queue_sum :: "nat \<Rightarrow> nat list \<Rightarrow> u32 \<Rightarrow> rt_rbb \<Rightarrow> u32 option" where
  "queue_sum 0 bs data r = Some data"
| "queue_sum (Suc n) [] data r = None"
| "queue_sum (Suc n) (b # bs) data r = queue_sum n bs (data + blk_size (blk_set r b)) r"

definition rt_rbb_blk_queue_len :: "blk_queue \<Rightarrow> rt_rbb \<Rightarrow> u32 option" where
  "rt_rbb_blk_queue_len q r = queue_sum (snd q) (nodes_from (fst q) r) 0 r"

definition rt_rbb_blk_queue_buf :: "blk_queue \<Rightarrow> rt_rbb \<Rightarrow> addr" where
  "rt_rbb_blk_queue_buf q r = blk_buf (blk_set r (fst q))"

fun queue_free :: "nat \<Rightarrow> nat option \<Rightarrow> rt_rbb \<Rightarrow> rt_rbb option" where
  "queue_free 0 b r = Some r"
| "queue_free (Suc n) None r = None"
| "queue_free (Suc n) (Some b) r =
     do {
       let next_blk = (case nodes_from b r of _ # c # _ \<Rightarrow> Some c | _ \<Rightarrow> None);
       r \<leftarrow> rt_rbb_blk_free b r;
       queue_free n next_blk r
     }"

definition rt_rbb_blk_queue_free :: "blk_queue \<Rightarrow> rt_rbb \<Rightarrow> rt_rbb option" where
  "rt_rbb_blk_queue_free q r = queue_free (snd q) (Some (fst q)) r"

fun next_len :: "nat list \<Rightarrow> nat option \<Rightarrow> u32 \<Rightarrow> rt_rbb \<Rightarrow> u32" where
  "next_len [] prev data r = data"
| "next_len (b # bs) None data r =
     (if blk_status (blk_set r b) \<noteq> RT_RBB_BLK_PUT then next_len bs None data r
      else next_len bs (Some b) (data + blk_size (blk_set r b)) r)"
| "next_len (b # bs) (Some p) data r =
     (if blk_status (blk_set r b) \<noteq> RT_RBB_BLK_PUT \<or> blk_buf (blk_set r p) > blk_buf (blk_set r b) then data
      else next_len bs (Some b) (data + blk_size (blk_set r b)) r)"

definition rt_rbb_next_blk_queue_len :: "rt_rbb \<Rightarrow> u32" where
  "rt_rbb_next_blk_queue_len r = next_len (blk_list r) None 0 r"


subsection \<open>The order of the blocks\<close>

definition blk_start :: "rt_rbb \<Rightarrow> nat \<Rightarrow> nat" where
  "blk_start r b = unat (blk_buf (blk_set r b))"

definition blk_end :: "rt_rbb \<Rightarrow> nat \<Rightarrow> nat" where
  "blk_end r b = unat (blk_buf (blk_set r b)) + unat (blk_size (blk_set r b))"

definition rises :: "rt_rbb \<Rightarrow> nat list \<Rightarrow> bool" where
  "rises r = sorted_wrt (\<lambda>b c. blk_end r b \<le> blk_start r c)"

text \<open>The blocks rise from the head of the list and, after at most one jump back to the start of the buffer, from there up to the head.\<close>

definition ring_order :: "rt_rbb \<Rightarrow> nat list \<Rightarrow> bool" where
  "ring_order r bs \<longleftrightarrow> (\<exists>ys zs. bs = ys @ zs \<and> rises r (zs @ ys))"

definition blk_ok :: "rt_rbb \<Rightarrow> nat \<Rightarrow> bool" where
  "blk_ok r b \<longleftrightarrow> blk_status (blk_set r b) \<noteq> RT_RBB_BLK_UNUSED \<and> blk_start r b < blk_end r b \<and>
     unat (rbb_buf r) \<le> blk_start r b \<and> blk_end r b \<le> unat (rbb_buf r) + unat (rbb_buf_size r)"

definition rbb_ok :: "rt_rbb \<Rightarrow> bool" where
  "rbb_ok r \<longleftrightarrow> unat (rbb_buf r) + unat (rbb_buf_size r) < 2 ^ 32 \<and> distinct (blk_list r @ free_list r) \<and>
     rbb_tail r = (if blk_list r = [] then None else Some (last (blk_list r))) \<and>
     (\<forall>b\<in>set (free_list r). blk_status (blk_set r b) = RT_RBB_BLK_UNUSED) \<and> (\<forall>b\<in>set (blk_list r). blk_ok r b) \<and> ring_order r (blk_list r)"

lemma rbb_okD:
  assumes "rbb_ok r"
  shows "unat (rbb_buf r) + unat (rbb_buf_size r) < 2 ^ 32" "distinct (blk_list r)" "distinct (free_list r)" "set (blk_list r) \<inter> set (free_list r) = {}"
    "blk_list r \<noteq> [] \<Longrightarrow> rbb_tail r = Some (last (blk_list r))" "blk_list r = [] \<Longrightarrow> rbb_tail r = None"
    "b \<in> set (free_list r) \<Longrightarrow> blk_status (blk_set r b) = RT_RBB_BLK_UNUSED" "b \<in> set (blk_list r) \<Longrightarrow> blk_ok r b" "ring_order r (blk_list r)"
  using assms by (simp_all add: rbb_ok_def)

lemma rises_append: "rises r (xs @ ys) \<longleftrightarrow> rises r xs \<and> rises r ys \<and> (\<forall>x\<in>set xs. \<forall>y\<in>set ys. blk_end r x \<le> blk_start r y)"
  by (simp add: rises_def sorted_wrt_append)

lemma rises_simps [simp]: "rises r []" "rises r (b # bs) \<longleftrightarrow> (\<forall>c\<in>set bs. blk_end r b \<le> blk_start r c) \<and> rises r bs"
  by (simp_all add: rises_def)

lemma rises_cong: "(\<And>b. b \<in> set bs \<Longrightarrow> blk_start r' b = blk_start r b \<and> blk_end r' b = blk_end r b) \<Longrightarrow> rises r' bs = rises r bs"
  by (induction bs) auto

lemma ring_order_cong: "(\<And>b. b \<in> set bs \<Longrightarrow> blk_start r' b = blk_start r b \<and> blk_end r' b = blk_end r b) \<Longrightarrow> ring_order r' bs = ring_order r bs"
  unfolding ring_order_def using rises_cong [where r = r and r' = r'] by (metis (no_types, lifting) Un_iff set_append)

lemma ring_order_remove: "ring_order r bs \<Longrightarrow> ring_order r (filter P bs)"
proof -
  assume "ring_order r bs"
  then obtain ys zs where "bs = ys @ zs" "rises r (zs @ ys)" by (auto simp: ring_order_def)
  moreover have "rises r (filter P (zs @ ys))" if "rises r (zs @ ys)" using that unfolding rises_def by (rule sorted_wrt_filter)
  ultimately show ?thesis by (auto simp: ring_order_def intro: exI [of _ "filter P ys"])
qed

text \<open>Blocks of a ring do not overlap.\<close>

lemma ring_disjoint:
  assumes "rbb_ok r" "b \<in> set (blk_list r)" "c \<in> set (blk_list r)" "b \<noteq> c"
  shows "blk_end r b \<le> blk_start r c \<or> blk_end r c \<le> blk_start r b"
proof -
  obtain ys zs where yz: "blk_list r = ys @ zs" "rises r (zs @ ys)" using rbb_okD(9) [OF assms(1)] by (auto simp: ring_order_def)
  have "b \<in> set (zs @ ys)" "c \<in> set (zs @ ys)" using assms(2,3) yz(1) by auto
  then obtain i j where "i < length (zs @ ys)" "j < length (zs @ ys)" "(zs @ ys) ! i = b" "(zs @ ys) ! j = c" by (auto simp only: in_set_conv_nth)
  moreover from this have "i < j \<or> j < i" using assms(4) by (metis linorder_neqE_nat)
  ultimately show ?thesis using yz(2) unfolding rises_def sorted_wrt_iff_nth_less by blast
qed

text \<open>The order of head and tail tells whether the blocks have jumped back.\<close>

lemma ring_head_tail:
  assumes ok: "rbb_ok r" and ne: "blk_list r \<noteq> []"
  obtains (line) "rises r (blk_list r)" "blk_start r (hd (blk_list r)) \<le> blk_start r (last (blk_list r))"
    | (jump) ys zs where "blk_list r = ys @ zs" "ys \<noteq> []" "zs \<noteq> []" "rises r (zs @ ys)" "blk_start r (last (blk_list r)) < blk_start r (hd (blk_list r))"
proof -
  obtain ys zs where yz: "blk_list r = ys @ zs" "rises r (zs @ ys)" using rbb_okD(9) [OF ok] by (auto simp: ring_order_def)
  have pos: "blk_start r b < blk_end r b" if "b \<in> set (blk_list r)" for b using rbb_okD(8) [OF ok that] by (simp add: blk_ok_def)
  show thesis
  proof (cases "ys = [] \<or> zs = []")
    case True
    then have rs: "rises r (blk_list r)" using yz by auto
    moreover have "blk_start r (hd (blk_list r)) \<le> blk_start r (last (blk_list r))"
    proof (cases "blk_list r")
      case (Cons b bs)
      then have "blk_end r b \<le> blk_start r (last bs)" if "bs \<noteq> []" using rs that by simp
      then show ?thesis using pos [of b] Cons by (cases "bs = []") simp_all
    qed (use ne in simp)
    ultimately show thesis by (rule line)
  next
    case False
    then have "last zs \<in> set zs" "hd ys \<in> set ys" by auto
    then have "blk_end r (last zs) \<le> blk_start r (hd ys)" "blk_start r (last zs) < blk_end r (last zs)" using yz pos [of "last zs"] by (auto simp: rises_append)
    then show thesis using jump [of ys zs] False yz by simp
  qed
qed


subsection \<open>The operations keep the ring\<close>

lemma upd_blk_simps [simp]:
  "blk_set (upd_blk b f r) = (blk_set r)(b := f (blk_set r b))" "blk_list (upd_blk b f r) = blk_list r" "free_list (upd_blk b f r) = free_list r"
  "rbb_tail (upd_blk b f r) = rbb_tail r" "rbb_buf (upd_blk b f r) = rbb_buf r" "rbb_buf_size (upd_blk b f r) = rbb_buf_size r"
  by (simp_all add: upd_blk_def)

lemma take_to_last: "distinct xs \<Longrightarrow> xs \<noteq> [] \<Longrightarrow> takeWhile (\<lambda>c. c \<noteq> last xs) xs @ [last xs] = xs"
proof -
  assume "distinct xs" "xs \<noteq> []"
  then obtain ys y where x: "xs = ys @ [y]" "y \<notin> set ys" by (metis append_butlast_last_id distinct_butlast not_distinct_conv_prefix)
  then have "takeWhile (\<lambda>c. c \<noteq> y) (ys @ [y]) = ys" by (subst takeWhile_append2) auto
  then show ?thesis using x by simp
qed

lemma append_list:
  assumes "distinct (blk_list r)" "rbb_tail r = (if blk_list r = [] then None else Some (last (blk_list r)))"
  shows "list_append b r = r\<lparr>blk_list := blk_list r @ [b], rbb_tail := Some b\<rparr>"
proof (cases "blk_list r = []")
  case False
  then have "takeWhile (\<lambda>c. c \<noteq> last (blk_list r)) (blk_list r) @ [last (blk_list r), b] = blk_list r @ [b]"
    using arg_cong [OF take_to_last [OF assms(1) False], of "\<lambda>xs. xs @ [b]"] by simp
  then show ?thesis using False assms(2) by (simp add: list_append_def)
qed (use assms in \<open>simp add: list_append_def\<close>)

lemma rises_last: "rises r bs \<Longrightarrow> c \<in> set bs \<Longrightarrow> (\<And>b. b \<in> set bs \<Longrightarrow> blk_start r b < blk_end r b) \<Longrightarrow> blk_end r c \<le> blk_end r (last bs)"
proof (induction bs)
  case (Cons b bs)
  show ?case
  proof (cases "bs = []")
    case False
    then have "blk_end r b \<le> blk_start r (last bs)" "blk_start r (last bs) < blk_end r (last bs)" using Cons.prems by simp_all
    then have "blk_end r b \<le> blk_end r (last bs)" by simp
    moreover have "blk_end r c \<le> blk_end r (last bs)" if "c \<in> set bs" using Cons.IH Cons.prems that by simp
    ultimately show ?thesis using Cons.prems(2) False by auto
  qed (use Cons.prems in simp)
qed simp

lemma rises_hd: "rises r bs \<Longrightarrow> c \<in> set bs \<Longrightarrow> (\<And>b. b \<in> set bs \<Longrightarrow> blk_start r b < blk_end r b) \<Longrightarrow> blk_start r (hd bs) \<le> blk_start r c"
  by (cases bs) (fastforce simp: less_imp_le)+

text \<open>A descriptor is taken from the free list and placed where there is room.\<close>

definition placed :: "nat \<Rightarrow> addr \<Rightarrow> u32 \<Rightarrow> rt_rbb \<Rightarrow> rt_rbb" where
  "placed b a sz r = r\<lparr>blk_set := (blk_set r)(b := \<lparr>blk_status = RT_RBB_BLK_INITED, blk_size = sz, blk_buf = a\<rparr>),
     blk_list := blk_list r @ [b], rbb_tail := Some b, free_list := tl (free_list r)\<rparr>"

lemma placed_ok:
  assumes ok: "rbb_ok r" and f: "free_list r = b # bs" and sz: "0 < sz"
    and a: "unat (rbb_buf r) \<le> unat a" "unat a + unat sz \<le> unat (rbb_buf r) + unat (rbb_buf_size r)"
    and o: "ring_order (placed b a sz r) (blk_list r @ [b])"
  shows "rbb_ok (placed b a sz r)"
proof -
  let ?r = "placed b a sz r"
  note d = rbb_okD [OF ok]
  have nb: "b \<notin> set (blk_list r)" "b \<notin> set bs" using d(3,4) f by auto
  have e: "blk_start ?r c = blk_start r c" "blk_end ?r c = blk_end r c" "blk_ok ?r c = blk_ok r c" if "c \<noteq> b" for c
    using that by (simp_all add: placed_def blk_start_def blk_end_def blk_ok_def)
  have "blk_ok ?r b" using a sz by (simp add: placed_def blk_ok_def blk_start_def blk_end_def word_less_nat_alt)
  moreover have bl: "blk_list ?r = blk_list r @ [b]" by (simp add: placed_def)
  moreover have "blk_ok ?r c" if "c \<in> set (blk_list r)" for c using e(3) [of c] d(8) [OF that] nb(1) that by metis
  ultimately have "\<forall>c\<in>set (blk_list ?r). blk_ok ?r c" unfolding bl by auto
  moreover have "\<forall>c\<in>set (free_list ?r). blk_status (blk_set ?r c) = RT_RBB_BLK_UNUSED" using d(7) f nb(2) by (auto simp: placed_def)
  moreover have "distinct (blk_list ?r @ free_list ?r)" using d(2,3,4) f nb by (auto simp: placed_def)
  ultimately show ?thesis using d(1) o bl by (simp add: rbb_ok_def) (simp add: placed_def)
qed

lemma place_eq:
  assumes "rbb_ok r" "free_list r = b # bs"
  shows "rbb_place b a sz (r\<lparr>free_list := bs\<rparr>) = placed b a sz r"
proof -
  have "list_append b (r\<lparr>free_list := bs\<rparr>) = r\<lparr>free_list := bs, blk_list := blk_list r @ [b], rbb_tail := Some b\<rparr>"
    using append_list [of "r\<lparr>free_list := bs\<rparr>" b] assms(1) by (simp add: rbb_ok_def)
  then show ?thesis by (simp add: rbb_place_def placed_def upd_blk_def assms(2))
qed

text \<open>\<open>rt_rbb_blk_alloc\<close> places a block behind the last one, at the start of the buffer, or refuses.\<close>

lemma alloc_cases:
  assumes ok: "rbb_ok r" and sz: "0 < sz" "sz < 2 ^ 24" "blk_list r = [] \<longrightarrow> sz \<le> rbb_buf_size r"
  obtains (none) "free_list r = []" "rt_rbb_blk_alloc sz r = Some (r, None)"
    | (refused) b bs where "free_list r = b # bs" "rt_rbb_blk_alloc sz r = Some (r\<lparr>free_list := bs\<rparr>, None)" "blk_list r \<noteq> []"
    | (taken) b bs a where "free_list r = b # bs" "rt_rbb_blk_alloc sz r = Some (placed b a sz r, Some b)" "rbb_ok (placed b a sz r)"
proof (cases "free_list r")
  case Nil
  then show thesis using none sz by (simp add: rt_rbb_blk_alloc_def find_empty_blk_in_set_def)
next
  case (Cons b bs)
  note d = rbb_okD [OF ok]
  have nb: "b \<notin> set (blk_list r)" using d(4) Cons by auto
  have st: "blk_status (blk_set r b) = RT_RBB_BLK_UNUSED" using d(7) Cons by simp
  note pe = place_eq [OF ok Cons]
  let ?B = "unat (rbb_buf r)" and ?N = "unat (rbb_buf_size r)"
  have e: "blk_start (placed b a sz r) c = blk_start r c \<and> blk_end (placed b a sz r) c = blk_end r c" if "c \<in> set (blk_list r)" for a c
    using that nb by (auto simp: placed_def blk_start_def blk_end_def)
  have eb: "blk_start (placed b a sz r) b = unat a" "blk_end (placed b a sz r) b = unat a + unat sz" for a
    by (simp_all add: placed_def blk_start_def blk_end_def)
  have rs: "rises (placed b a sz r) cs = rises r cs" if "set cs \<subseteq> set (blk_list r)" for a cs by (rule rises_cong) (use e that in blast)
  show thesis
  proof (cases "blk_list r = []")
    case True
    have szn: "unat sz \<le> ?N" using sz(3) True by (simp add: word_le_nat_alt)
    have "rbb_ok (placed b (rbb_buf r) sz r)"
      by (rule placed_ok [OF ok Cons sz(1)]) (use szn True in \<open>auto simp: ring_order_def intro: exI [of _ "[b]"]\<close>)
    then show thesis using taken [OF Cons] True st sz(2) pe by (simp add: rt_rbb_blk_alloc_def find_empty_blk_in_set_def Cons)
  next
    case False
    let ?h = "hd (blk_list r)" and ?t = "last (blk_list r)"
    let ?e = "blk_buf (blk_set r ?t) + blk_size (blk_set r ?t)"
    have ht: "?h \<in> set (blk_list r)" "?t \<in> set (blk_list r)" using False by simp_all
    have bt: "?B \<le> blk_start r ?t" "blk_start r ?t < blk_end r ?t" "blk_end r ?t \<le> ?B + ?N" "?B \<le> blk_start r ?h"
      using d(8) [OF ht(1)] d(8) [OF ht(2)] by (simp_all add: blk_ok_def)
    have ue: "unat ?e = blk_end r ?t" using bt(3) d(1) unfolding blk_end_def by (subst unat_add_lem [THEN iffD1]) simp_all
    have tl: "rbb_tail r = Some ?t" using d(5) False by simp
    have al: "rt_rbb_blk_alloc sz r =
      (if blk_start r ?h \<le> blk_start r ?t
       then if rbb_buf r + rbb_buf_size r - ?e \<ge> sz then Some (placed b ?e sz r, Some b)
            else if blk_buf (blk_set r ?h) - rbb_buf r \<ge> sz then Some (placed b (rbb_buf r) sz r, Some b) else Some (r\<lparr>free_list := bs\<rparr>, None)
       else if blk_buf (blk_set r ?h) - ?e \<ge> sz then Some (placed b ?e sz r, Some b) else Some (r\<lparr>free_list := bs\<rparr>, None))"
      using st sz(2) False tl pe by (simp add: rt_rbb_blk_alloc_def find_empty_blk_in_set_def Cons blk_start_def Let_def word_le_nat_alt)
    have pos: "blk_start r c < blk_end r c" if "c \<in> set (blk_list r)" for c using d(8) [OF that] by (simp add: blk_ok_def)
    have hb: "blk_start r ?h \<le> ?B + ?N" using d(8) [OF ht(1)] by (simp add: blk_ok_def)
    from ok False show thesis
    proof (cases rule: ring_head_tail)
      case line
      have "unat (rbb_buf r + rbb_buf_size r) = ?B + ?N" using d(1) by (subst unat_add_lem [THEN iffD1]) simp_all
      then have e1: "unat (rbb_buf r + rbb_buf_size r - ?e) = ?B + ?N - blk_end r ?t" using ue bt(3) by (subst unat_sub) (simp_all add: word_le_nat_alt)
      have e2: "unat (blk_buf (blk_set r ?h) - rbb_buf r) = blk_start r ?h - ?B" using bt(4) by (subst unat_sub) (simp_all add: word_le_nat_alt blk_start_def)
      consider "sz \<le> rbb_buf r + rbb_buf_size r - ?e" | "\<not> sz \<le> rbb_buf r + rbb_buf_size r - ?e" "sz \<le> blk_buf (blk_set r ?h) - rbb_buf r"
        | "\<not> sz \<le> rbb_buf r + rbb_buf_size r - ?e" "\<not> sz \<le> blk_buf (blk_set r ?h) - rbb_buf r" by blast
      then show thesis
      proof cases
        case 1
        then have room: "blk_end r ?t + unat sz \<le> ?B + ?N" using e1 bt(3) by (simp add: word_le_nat_alt)
        have "rises (placed b ?e sz r) (blk_list r @ [b])"
          using line(1) rises_last [OF line(1)] pos e by (auto simp: rises_append rs eb ue)
        then have "rbb_ok (placed b ?e sz r)"
          using room ue bt by (intro placed_ok [OF ok Cons sz(1)]) (auto simp: ring_order_def intro: exI [of _ "blk_list r @ [b]"])
        then show thesis using taken [OF Cons] al line(2) 1 by simp
      next
        case 2
        then have room: "?B + unat sz \<le> blk_start r ?h" using e2 bt(4) by (simp add: word_le_nat_alt)
        have "rises (placed b (rbb_buf r) sz r) ([b] @ blk_list r)"
          using line(1) rises_hd [OF line(1)] pos e room by (fastforce simp: rises_append rs eb)
        then have "rbb_ok (placed b (rbb_buf r) sz r)"
          using room hb by (intro placed_ok [OF ok Cons sz(1)]) (auto simp: ring_order_def intro: exI [of _ "blk_list r"])
        then show thesis using taken [OF Cons] al line(2) 2 by simp
      next
        case 3
        then show thesis using refused [OF Cons _ False] al line(2) by simp
      qed
    next
      case (jump ys zs)
      have lt: "?t = last zs" "?h = hd ys" using jump by simp_all
      have yz: "rises r zs" "rises r ys" "blk_end r ?t \<le> blk_start r ?h" using jump(2-4) by (auto simp: rises_append lt)
      have sub: "set ys \<subseteq> set (blk_list r)" "set zs \<subseteq> set (blk_list r)" using jump(1) by auto
      have e1: "unat (blk_buf (blk_set r ?h) - ?e) = blk_start r ?h - blk_end r ?t" using ue yz(3) by (subst unat_sub) (simp_all add: word_le_nat_alt blk_start_def)
      show thesis
      proof (cases "sz \<le> blk_buf (blk_set r ?h) - ?e")
        case True
        then have room: "blk_end r ?t + unat sz \<le> blk_start r ?h" using e1 yz(3) by (simp add: word_le_nat_alt)
        have "blk_end r c \<le> blk_end r ?t" if "c \<in> set zs" for c using rises_last [OF yz(1) that] pos sub lt by auto
        moreover have "blk_start r ?h \<le> blk_start r c" if "c \<in> set ys" for c using rises_hd [OF yz(2) that] pos sub lt by auto
        ultimately have "rises (placed b ?e sz r) ((zs @ [b]) @ ys)"
          using jump(4) sub e room by (fastforce simp: rises_append rs eb ue)
        then have "ring_order (placed b ?e sz r) (blk_list r @ [b])" unfolding ring_order_def jump(1) by (intro exI [of _ ys] exI [of _ "zs @ [b]"]) simp
        then have "rbb_ok (placed b ?e sz r)" using room ue bt hb by (intro placed_ok [OF ok Cons sz(1)]) simp_all
        then show thesis using taken [OF Cons] al jump(5) True by simp
      next
        case 2: False
        then show thesis using refused [OF Cons _ False] al jump(5) by simp
      qed
    qed
  qed
qed


lemma drop_free_ok: "rbb_ok r \<Longrightarrow> free_list r = b # bs \<Longrightarrow> rbb_ok (r\<lparr>free_list := bs\<rparr>)"
proof -
  assume ok: "rbb_ok r" and f: "free_list r = b # bs"
  have e: "blk_start (r\<lparr>free_list := bs\<rparr>) = blk_start r" "blk_end (r\<lparr>free_list := bs\<rparr>) = blk_end r" "blk_ok (r\<lparr>free_list := bs\<rparr>) = blk_ok r"
    by (simp_all add: fun_eq_iff blk_start_def blk_end_def blk_ok_def)
  show ?thesis using ok f ring_order_cong [of "blk_list r" "r\<lparr>free_list := bs\<rparr>" r] by (simp add: rbb_ok_def e)
qed

lemma set_status_ok:
  assumes ok: "rbb_ok r" and b: "b \<in> set (blk_list r)" and s: "st \<noteq> RT_RBB_BLK_UNUSED"
  shows "rbb_ok (set_status st b r)"
proof -
  let ?r = "set_status st b r"
  note d = rbb_okD [OF ok]
  have e: "blk_start ?r c = blk_start r c" "blk_end ?r c = blk_end r c" for c by (simp_all add: set_status_def blk_start_def blk_end_def)
  have "blk_ok ?r c" if "c \<in> set (blk_list r)" for c
    using d(8) [OF that] s unfolding blk_ok_def e by (auto simp: set_status_def)
  moreover have "blk_status (blk_set ?r c) = RT_RBB_BLK_UNUSED" if "c \<in> set (free_list r)" for c using d(4,7) that b by (auto simp: set_status_def)
  moreover have fl: "blk_list ?r = blk_list r" "free_list ?r = free_list r" "rbb_tail ?r = rbb_tail r" "rbb_buf ?r = rbb_buf r" "rbb_buf_size ?r = rbb_buf_size r"
    by (simp_all add: set_status_def)
  moreover have "ring_order ?r (blk_list r)" using d(9) ring_order_cong [of "blk_list r" ?r r] e by simp
  ultimately show ?thesis using ok unfolding rbb_ok_def fl by blast
qed

lemma list_remove_eq:
  assumes d: "distinct (blk_list r)" and t: "rbb_tail r = (if blk_list r = [] then None else Some (last (blk_list r)))" and b: "b \<in> set (blk_list r)"
  shows "list_remove b r = r\<lparr>blk_list := filter (\<lambda>c. c \<noteq> b) (blk_list r),
    rbb_tail := (if filter (\<lambda>c. c \<noteq> b) (blk_list r) = [] then None else Some (last (filter (\<lambda>c. c \<noteq> b) (blk_list r))))\<rparr>"
proof -
  obtain ys zs where x: "blk_list r = ys @ b # zs" using b by (auto simp: in_set_conv_decomp)
  have n: "b \<notin> set ys" "b \<notin> set zs" using d x by auto
  then have "filter (\<lambda>c. c \<noteq> b) ys = ys" "filter (\<lambda>c. c \<noteq> b) zs = zs" by (auto intro!: filter_True)
  then have f: "filter (\<lambda>c. c \<noteq> b) (ys @ b # zs) = ys @ zs" by simp
  have tw: "takeWhile (\<lambda>c. c \<noteq> b) (ys @ b # zs) = ys" using n by (subst takeWhile_append2) auto
  have "remove1 b (ys @ b # zs) = ys @ zs" using n by (simp add: remove1_append)
  then show ?thesis using t n tw f by (cases "zs = []") (auto simp: list_remove_def x Let_def)
qed

lemma free_ok:
  assumes ok: "rbb_ok r" and b: "b \<in> set (blk_list r)"
  obtains r' where "rt_rbb_blk_free b r = Some r'" "rbb_ok r'" "blk_list r' = filter (\<lambda>c. c \<noteq> b) (blk_list r)" "free_list r' = b # free_list r"
    "rbb_buf r' = rbb_buf r" "rbb_buf_size r' = rbb_buf_size r" "\<And>c. c \<noteq> b \<Longrightarrow> blk_set r' c = blk_set r c"
proof -
  let ?xs = "filter (\<lambda>c. c \<noteq> b) (blk_list r)"
  let ?r = "(set_status RT_RBB_BLK_UNUSED b (r\<lparr>blk_list := ?xs, rbb_tail := (if ?xs = [] then None else Some (last ?xs))\<rparr>))\<lparr>free_list := b # free_list r\<rparr>"
  note d = rbb_okD [OF ok]
  have st: "blk_status (blk_set r b) \<noteq> RT_RBB_BLK_UNUSED" using d(8) [OF b] by (simp add: blk_ok_def)
  have lr: "list_remove b r = r\<lparr>blk_list := ?xs, rbb_tail := (if ?xs = [] then None else Some (last ?xs))\<rparr>"
    by (rule list_remove_eq [OF d(2) _ b]) (use ok in \<open>simp add: rbb_ok_def\<close>)
  have r: "rt_rbb_blk_free b r = Some ?r" using st by (simp add: rt_rbb_blk_free_def lr Let_def) (simp add: set_status_def)
  have e: "blk_start ?r c = blk_start r c" "blk_end ?r c = blk_end r c" for c by (simp_all add: set_status_def blk_start_def blk_end_def)
  have "blk_ok ?r c" if "c \<in> set ?xs" for c
    using d(8) [of c] that unfolding blk_ok_def e by (auto simp: set_status_def)
  moreover have "ring_order ?r ?xs" using ring_order_remove [OF d(9)] ring_order_cong [of ?xs ?r r] e by simp
  moreover have "blk_status (blk_set ?r c) = RT_RBB_BLK_UNUSED" if "c \<in> set (b # free_list r)" for c using d(7) that by (auto simp: set_status_def)
  moreover have "b \<notin> set (free_list r)" using d(4) b by auto
  ultimately have "rbb_ok ?r" using d(1,2,3,4) unfolding rbb_ok_def by (auto simp: set_status_def)
  with r show thesis by (rule that) (simp_all add: set_status_def)
qed

lemma init_fold: "fold (\<lambda>i r. (upd_blk i (\<lambda>b. b\<lparr>blk_status := RT_RBB_BLK_UNUSED\<rparr>) r)\<lparr>free_list := i # free_list r\<rparr>) [0..<n] r =
    r\<lparr>blk_set := (\<lambda>i. if i < n then (blk_set r i)\<lparr>blk_status := RT_RBB_BLK_UNUSED\<rparr> else blk_set r i), free_list := rev [0..<n] @ free_list r\<rparr>"
  by (induction n) (auto simp: upd_blk_def fun_eq_iff)

lemma init_ok:
  assumes "buf \<noteq> NULL" "p \<noteq> NULL" "unat buf + unat sz < 2 ^ 32"
  obtains r' where "rt_rbb_init buf sz p n r = Some r'" "rbb_ok r'" "blk_list r' = []" "free_list r' = rev [0..<unat n]" "rbb_buf r' = buf" "rbb_buf_size r' = sz"
    "blk_set_ptr r' = p" "rbb_self r' = rbb_self r"
proof -
  let ?r = "r\<lparr>rbb_buf := buf, rbb_buf_size := sz, blk_set_ptr := p, blk_max_num := n, rbb_tail := None, blk_list := [], free_list := []\<rparr>"
  let ?r' = "?r\<lparr>blk_set := (\<lambda>i. if i < unat n then (blk_set r i)\<lparr>blk_status := RT_RBB_BLK_UNUSED\<rparr> else blk_set r i), free_list := rev [0..<unat n]\<rparr>"
  have "rt_rbb_init buf sz p n r = Some ?r'" using assms(1,2) by (simp add: rt_rbb_init_def init_fold Let_def cong: if_cong)
  then show thesis by (rule that) (use assms(3) in \<open>simp_all add: rbb_ok_def ring_order_def\<close>)
qed

lemma queue_take_ok:
  "queue_take len bs p data q r = Some (r', q', n) \<Longrightarrow> rbb_ok r \<Longrightarrow> set bs \<subseteq> set (blk_list r) \<Longrightarrow>
     rbb_ok r' \<and> blk_list r' = blk_list r \<and> free_list r' = free_list r \<and> rbb_buf r' = rbb_buf r \<and> rbb_buf_size r' = rbb_buf_size r"
proof (induction len bs p data q r rule: queue_take.induct)
  case (2 len b bs data q r)
  then show ?case using set_status_ok [of r b RT_RBB_BLK_GET] by (auto simp: set_status_def split: if_splits)
next
  case (3 len b bs p data q r)
  then show ?case using set_status_ok [of r b RT_RBB_BLK_GET] by (auto simp: set_status_def split: if_splits)
qed simp

lemma queue_free_ok:
  "queue_free n b r = Some r' \<Longrightarrow> rbb_ok r \<Longrightarrow> (\<And>c. b = Some c \<Longrightarrow> c \<in> set (blk_list r)) \<Longrightarrow>
     rbb_ok r' \<and> set (blk_list r') \<subseteq> set (blk_list r) \<and> rbb_buf r' = rbb_buf r \<and> rbb_buf_size r' = rbb_buf_size r"
proof (induction n b r rule: queue_free.induct)
  case (3 n b r)
  obtain r1 where r1: "rt_rbb_blk_free b r = Some r1" "rbb_ok r1" "blk_list r1 = filter (\<lambda>c. c \<noteq> b) (blk_list r)" "rbb_buf r1 = rbb_buf r" "rbb_buf_size r1 = rbb_buf_size r"
    by (rule free_ok [OF 3(3), of b]) (use 3(4) in simp, rule that)
  let ?nx = "case nodes_from b r of _ # c # _ \<Rightarrow> Some c | _ \<Rightarrow> None"
  have "c \<in> set (blk_list r1)" if c: "?nx = Some c" for c
  proof -
    obtain x zs where z: "nodes_from b r = x # c # zs" using c by (auto split: list.splits)
    then have "x = b" using hd_dropWhile [of "\<lambda>c. c \<noteq> b" "blk_list r"] by (simp add: nodes_from_def)
    moreover obtain ys where "blk_list r = ys @ nodes_from b r" unfolding nodes_from_def by (metis takeWhile_dropWhile_id)
    ultimately show ?thesis using rbb_okD(2) [OF 3(3)] z r1(3) by auto
  qed
  then have "rbb_ok r' \<and> set (blk_list r') \<subseteq> set (blk_list r1) \<and> rbb_buf r' = rbb_buf r1 \<and> rbb_buf_size r' = rbb_buf_size r1"
    using 3(1) [OF refl, of r1] 3(2) r1(1,2) by simp
  then show ?case using r1 by auto
qed simp_all


subsection \<open>The theorems\<close>

text \<open>What the users of a ring do to it, in any order: blocks are allocated, and blocks of the ring are put, taken and freed, one by one or as
  queues.  Two requests that the code does not refuse are left out: an empty block, and a block larger than the buffer when the ring has no block
  (\<open>rbb_zero_size_overlaps\<close> and \<open>rbb_alloc_overruns\<close> below show what they do).\<close>

inductive rbb_run :: "rt_rbb \<Rightarrow> rt_rbb \<Rightarrow> bool" for r where
  start: "rbb_run r r"
| alloc: "rbb_run r r1 \<Longrightarrow> 0 < sz \<Longrightarrow> (blk_list r1 = [] \<Longrightarrow> sz \<le> rbb_buf_size r1) \<Longrightarrow> rt_rbb_blk_alloc sz r1 = Some (r2, x) \<Longrightarrow> rbb_run r r2"
| put: "rbb_run r r1 \<Longrightarrow> b \<in> set (blk_list r1) \<Longrightarrow> rt_rbb_blk_put b r1 = Some r2 \<Longrightarrow> rbb_run r r2"
| get: "rbb_run r r1 \<Longrightarrow> rt_rbb_blk_get r1 = (r2, x) \<Longrightarrow> rbb_run r r2"
| free: "rbb_run r r1 \<Longrightarrow> b \<in> set (blk_list r1) \<Longrightarrow> rt_rbb_blk_free b r1 = Some r2 \<Longrightarrow> rbb_run r r2"
| queue_got: "rbb_run r r1 \<Longrightarrow> rt_rbb_blk_queue_get len q r1 = Some (r2, q', n) \<Longrightarrow> rbb_run r r2"
| queue_freed: "rbb_run r r1 \<Longrightarrow> fst q \<in> set (blk_list r1) \<Longrightarrow> rt_rbb_blk_queue_free q r1 = Some r2 \<Longrightarrow> rbb_run r r2"

lemma run_ok:
  assumes "rbb_run r r'" "rbb_ok r"
  shows "rbb_ok r' \<and> rbb_buf r' = rbb_buf r \<and> rbb_buf_size r' = rbb_buf_size r"
  using assms
proof induction
  case (alloc r1 sz r2 x)
  then have ok: "rbb_ok r1" and e: "rbb_buf r1 = rbb_buf r" "rbb_buf_size r1 = rbb_buf_size r" by simp_all
  have lt: "sz < 2 ^ 24" using alloc(4) by (simp add: rt_rbb_blk_alloc_def split: if_splits)
  have sz: "blk_list r1 = [] \<longrightarrow> sz \<le> rbb_buf_size r1" using alloc(3) by simp
  from ok alloc(2) lt sz show ?case
  proof (cases rule: alloc_cases)
    case none
    then show ?thesis using alloc ok e by simp
  next
    case (refused b bs)
    then show ?thesis using alloc drop_free_ok [OF ok] e by simp
  next
    case (taken b bs a)
    then show ?thesis using alloc e by (auto simp: placed_def)
  qed
next
  case (put r1 b r2)
  then show ?case using set_status_ok [of r1 b RT_RBB_BLK_PUT] by (auto simp: rt_rbb_blk_put_def set_status_def split: if_splits)
next
  case (get r1 r2 x)
  then show ?case using set_status_ok [of r1 _ RT_RBB_BLK_GET]
    by (auto simp: rt_rbb_blk_get_def find_Some_iff set_status_def split: option.splits)
next
  case (free r1 b r2)
  then have "rbb_ok r1" by simp
  then show ?case by (rule free_ok [OF _ free(2)]) (use free in simp)
next
  case (queue_got r1 len q r2 q' n)
  then show ?case using queue_take_ok [of len "blk_list r1" None 0 q r1 r2 q' n] by (auto simp: rt_rbb_blk_queue_get_def split: if_splits)
next
  case (queue_freed r1 q r2)
  then show ?case using queue_free_ok [of "snd q" "Some (fst q)" r1 r2] by (simp add: rt_rbb_blk_queue_free_def)
qed simp

text \<open>
  C12: From \<open>rt_rbb_init\<close> on, and as long as nobody asks for an empty block, or for more than the whole buffer while the ring is empty, the blocks of a
  ring lie inside the buffer and no two of them overlap, and no descriptor is in use twice, whatever else its users allocate, put, take and free.
\<close>
theorem rbb_run_disjoint:
  assumes i: "rt_rbb_init buf sz p n r0 = Some r" and b: "unat buf + unat sz < 2 ^ 32" and r: "rbb_run r r'"
  shows "distinct (blk_list r' @ free_list r') \<and>
    (\<forall>x\<in>set (blk_list r'). block (blk_start r' x, unat (blk_size (blk_set r' x))) \<subseteq> {unat buf ..< unat buf + unat sz} \<and>
       (\<forall>y\<in>set (blk_list r'). x \<noteq> y \<longrightarrow>
          block (blk_start r' x, unat (blk_size (blk_set r' x))) \<inter> block (blk_start r' y, unat (blk_size (blk_set r' y))) = {}))"
proof -
  have nz: "buf \<noteq> NULL" "p \<noteq> NULL" using i by (auto simp: rt_rbb_init_def split: if_splits)
  have ok0: "rbb_ok r" "rbb_buf r = buf" "rbb_buf_size r = sz"
    by (rule init_ok [OF nz b, of n r0]; use i in simp)+
  have ok: "rbb_ok r'" "rbb_buf r' = buf" "rbb_buf_size r' = sz" using run_ok [OF r ok0(1)] ok0 by simp_all
  have e: "blk_start r' x + unat (blk_size (blk_set r' x)) = blk_end r' x" for x by (simp add: blk_start_def blk_end_def)
  have "block (blk_start r' x, unat (blk_size (blk_set r' x))) \<subseteq> {unat buf ..< unat buf + unat sz}" if "x \<in> set (blk_list r')" for x
    using rbb_okD(8) [OF ok(1) that] ok(2,3) e [of x] by (auto simp: block_def blk_ok_def)
  moreover have "block (blk_start r' x, unat (blk_size (blk_set r' x))) \<inter> block (blk_start r' y, unat (blk_size (blk_set r' y))) = {}"
    if "x \<in> set (blk_list r')" "y \<in> set (blk_list r')" "x \<noteq> y" for x y
    using ring_disjoint [OF ok(1) that] e [of x] e [of y] by (auto simp: block_def)
  moreover have "distinct (blk_list r' @ free_list r')" using ok(1) by (simp add: rbb_ok_def)
  ultimately show ?thesis by blast
qed

text \<open>The same request several times.\<close>

primrec alloc_times :: "nat \<Rightarrow> u32 \<Rightarrow> rt_rbb \<Rightarrow> rt_rbb option" where
  "alloc_times 0 sz r = Some r"
| "alloc_times (Suc n) sz r = do { (r, _) \<leftarrow> rt_rbb_blk_alloc sz r; alloc_times n sz r }"

definition no_room :: "u32 \<Rightarrow> rt_rbb \<Rightarrow> bool" where
  "no_room sz r \<longleftrightarrow> (\<forall>b bs. (\<forall>c\<in>set (b # bs). blk_status (blk_set r c) = RT_RBB_BLK_UNUSED) \<longrightarrow>
     rt_rbb_blk_alloc sz (r\<lparr>free_list := b # bs\<rparr>) = Some (r\<lparr>free_list := bs\<rparr>, None))"

lemma refused_no_room:
  assumes "rt_rbb_blk_alloc sz r = Some (r', None)" "free_list r \<noteq> []"
  shows "no_room sz r"
  unfolding no_room_def
proof (intro allI impI)
  fix c cs assume c: "\<forall>x\<in>set (c # cs). blk_status (blk_set r x) = RT_RBB_BLK_UNUSED"
  obtain b bs where f: "free_list r = b # bs" using assms(2) by (cases "free_list r") auto
  show "rt_rbb_blk_alloc sz (r\<lparr>free_list := c # cs\<rparr>) = Some (r\<lparr>free_list := cs\<rparr>, None)"
    using assms(1) f c by (auto simp: rt_rbb_blk_alloc_def find_empty_blk_in_set_def Let_def bind_eq_Some_conv split: if_splits)
qed

lemma leak:
  assumes "no_room sz r" "\<forall>c\<in>set fs. blk_status (blk_set r c) = RT_RBB_BLK_UNUSED"
  shows "alloc_times (length fs) sz (r\<lparr>free_list := fs\<rparr>) = Some (r\<lparr>free_list := []\<rparr>)"
  using assms(2)
proof (induction fs)
  case (Cons f fs)
  then have "rt_rbb_blk_alloc sz (r\<lparr>free_list := f # fs\<rparr>) = Some (r\<lparr>free_list := fs\<rparr>, None)" using assms(1) by (simp add: no_room_def)
  then show ?case using Cons by simp
qed simp

text \<open>
  C32: A request that is refused for want of room loses its descriptor: repeated as often as there are free descriptors, it leaves a ring that
  refuses every request, although not a single block has been handed out in between.
\<close>
theorem rbb_alloc_leaks:
  assumes ok: "rbb_ok r" and a: "rt_rbb_blk_alloc sz r = Some (r1, None)" and f: "free_list r \<noteq> []"
  shows "r1 = r\<lparr>free_list := tl (free_list r)\<rparr> \<and>
    (\<exists>r'. alloc_times (length (free_list r)) sz r = Some r' \<and> blk_list r' = blk_list r \<and> free_list r' = [] \<and>
       (\<forall>sz'<2 ^ 24. rt_rbb_blk_alloc sz' r' = Some (r', None)))"
proof -
  have u: "\<forall>c\<in>set (free_list r). blk_status (blk_set r c) = RT_RBB_BLK_UNUSED" using rbb_okD(7) [OF ok] by blast
  note n = refused_no_room [OF a f]
  obtain b bs where c: "free_list r = b # bs" using f by (cases "free_list r") auto
  have e: "r\<lparr>free_list := free_list r\<rparr> = r" by simp
  have "rt_rbb_blk_alloc sz (r\<lparr>free_list := free_list r\<rparr>) = Some (r\<lparr>free_list := bs\<rparr>, None)" using n u unfolding no_room_def c by blast
  then have "r1 = r\<lparr>free_list := bs\<rparr>" unfolding e using a by simp
  then have "r1 = r\<lparr>free_list := tl (free_list r)\<rparr>" using c by simp
  moreover have "alloc_times (length (free_list r)) sz r = Some (r\<lparr>free_list := []\<rparr>)" using leak [OF n u] by (simp add: e)
  ultimately show ?thesis by (auto simp: rt_rbb_blk_alloc_def find_empty_blk_in_set_def)
qed

text \<open>The first block of an empty ring is not checked against the size of the buffer.\<close>

lemma rbb_alloc_overruns:
  assumes ok: "rbb_ok r" and l: "blk_list r = []" and f: "free_list r = b # bs" and sz: "sz < 2 ^ 24"
  shows "rt_rbb_blk_alloc sz r = Some (placed b (rbb_buf r) sz r, Some b)"
  using l sz rbb_okD(7) [OF ok] f place_eq [OF ok f] by (simp add: rt_rbb_blk_alloc_def find_empty_blk_in_set_def)


text \<open>A ring of 16 bytes whose first block is at 4100 and whose last one is right before it.  An empty block goes between them, and makes the
  ring look as if it had not jumped: the next block overlaps the first one.\<close>

definition full_ring :: rt_rbb where
  "full_ring = \<lparr>rbb_self = 2048, rbb_buf = 4096, rbb_buf_size = 16, blk_set_ptr = 8192,
     blk_set = (\<lambda>b. if b = 2 then \<lparr>blk_status = RT_RBB_BLK_PUT, blk_size = 12, blk_buf = 4100\<rparr>
       else if b = 1 then \<lparr>blk_status = RT_RBB_BLK_PUT, blk_size = 4, blk_buf = 4096\<rparr>
       else \<lparr>blk_status = RT_RBB_BLK_UNUSED, blk_size = 0, blk_buf = 4096\<rparr>),
     blk_max_num = 5, blk_list = [2, 1], rbb_tail = Some 1, free_list = [0, 3, 4]\<rparr>"

lemma rbb_zero_size_overlaps:
  "rbb_ok full_ring" "rt_rbb_blk_alloc 4 full_ring = Some (full_ring\<lparr>free_list := [3, 4]\<rparr>, None)"
  "\<exists>r1 r2. rt_rbb_blk_alloc 0 full_ring = Some (r1, Some 0) \<and> rt_rbb_blk_alloc 4 r1 = Some (r2, Some 3) \<and> blk_list r2 = [2, 1, 0, 3] \<and>
     blk_start r2 3 = blk_start r2 2 \<and> blk_end r2 3 = 4104"
proof -
  show "rbb_ok full_ring"
    by (auto simp: full_ring_def rbb_ok_def blk_ok_def blk_start_def blk_end_def ring_order_def intro: exI [of _ "[2]"])
  show "rt_rbb_blk_alloc 4 full_ring = Some (full_ring\<lparr>free_list := [3, 4]\<rparr>, None)"
    by (simp add: full_ring_def rt_rbb_blk_alloc_def find_empty_blk_in_set_def)
  let ?r1 = "placed 0 4100 0 full_ring"
  have r1: "rt_rbb_blk_alloc 0 full_ring = Some (?r1, Some 0)"
    by (simp add: full_ring_def rt_rbb_blk_alloc_def find_empty_blk_in_set_def rbb_place_def upd_blk_def list_append_def placed_def)
  have "rt_rbb_blk_alloc 4 ?r1 = Some (placed 3 4100 4 ?r1, Some 3)"
    by (simp add: full_ring_def rt_rbb_blk_alloc_def find_empty_blk_in_set_def rbb_place_def upd_blk_def list_append_def placed_def)
  with r1 show "\<exists>r1 r2. rt_rbb_blk_alloc 0 full_ring = Some (r1, Some 0) \<and> rt_rbb_blk_alloc 4 r1 = Some (r2, Some 3) \<and> blk_list r2 = [2, 1, 0, 3] \<and>
     blk_start r2 3 = blk_start r2 2 \<and> blk_end r2 3 = 4104"
    by (intro exI [of _ ?r1] exI [of _ "placed 3 4100 4 ?r1"] conjI) (simp_all add: placed_def full_ring_def blk_start_def blk_end_def)
qed


subsection \<open>Queues of blocks\<close>

definition size_sum :: "rt_rbb \<Rightarrow> nat list \<Rightarrow> u32" where
  "size_sum r bs = sum_list (map (\<lambda>b. blk_size (blk_set r b)) bs)"

definition all_put :: "rt_rbb \<Rightarrow> nat list \<Rightarrow> bool" where
  "all_put r bs \<longleftrightarrow> (\<forall>b\<in>set bs. blk_status (blk_set r b) = RT_RBB_BLK_PUT)"

definition mark_got :: "nat list \<Rightarrow> rt_rbb \<Rightarrow> rt_rbb" where
  "mark_got bs r = r\<lparr>blk_set := (\<lambda>b. if b \<in> set bs then (blk_set r b)\<lparr>blk_status := RT_RBB_BLK_GET\<rparr> else blk_set r b)\<rparr>"

lemma mark_got_Nil [simp]: "mark_got [] r = r"
  by (simp add: mark_got_def)

lemma mark_got_Cons: "mark_got bs (set_status RT_RBB_BLK_GET b r) = mark_got (b # bs) r"
  by (auto simp: mark_got_def set_status_def upd_blk_def fun_eq_iff)

lemma sizes_got [simp]: "blk_size (blk_set (mark_got bs r) b) = blk_size (blk_set r b)" "blk_buf (blk_set (mark_got bs r) b) = blk_buf (blk_set r b)"
  "blk_list (mark_got bs r) = blk_list r"
  by (simp_all add: mark_got_def)

lemma size_sum_got: "b \<notin> set bs \<Longrightarrow> size_sum (set_status st b r) bs = size_sum r bs"
  unfolding size_sum_def by (intro arg_cong [of _ _ sum_list] map_cong refl) (auto simp: set_status_def)

lemma all_put_other: "b \<notin> set bs \<Longrightarrow> all_put (set_status st b r) bs = all_put r bs"
  by (auto simp: all_put_def set_status_def)

text \<open>Where the loop stops: behind \<open>p\<close>, with \<open>data\<close> bytes taken, it does not take \<open>b\<close>.\<close>

definition queue_stop :: "u32 \<Rightarrow> rt_rbb \<Rightarrow> nat \<Rightarrow> u32 \<Rightarrow> nat \<Rightarrow> bool" where
  "queue_stop len r p data b \<longleftrightarrow>
     blk_status (blk_set r b) \<noteq> RT_RBB_BLK_PUT \<or> blk_buf (blk_set r p) > blk_buf (blk_set r b) \<or> data + blk_size (blk_set r b) > len"

text \<open>The blocks \<open>ys\<close> are taken one after the other and the next one is not.\<close>

fun queue_path :: "u32 \<Rightarrow> rt_rbb \<Rightarrow> nat \<Rightarrow> u32 \<Rightarrow> nat list \<Rightarrow> nat \<Rightarrow> bool" where
  "queue_path len r p data [] z \<longleftrightarrow> queue_stop len r p data z"
| "queue_path len r p data (y # ys) z \<longleftrightarrow> \<not> queue_stop len r p data y \<and> queue_path len r y (data + blk_size (blk_set r y)) ys z"

lemma queue_path_other: "b \<notin> set (ys @ [z]) \<Longrightarrow> queue_path len (set_status st b r) p data ys z = queue_path len r p data ys z"
  by (induction ys arbitrary: p data) (auto simp: queue_stop_def set_status_def)

text \<open>The loop after the first block.\<close>

lemma queue_take_more:
  assumes "queue_take len bs (Some p) data (c, k) r = Some (r', q', n)" "distinct bs"
  shows "\<exists>ys z zs. bs = ys @ z # zs \<and> queue_path len r p data ys z \<and> r' = mark_got ys r \<and> q' = (c, k + length ys) \<and> n = data + size_sum r ys"
  using assms
proof (induction bs arbitrary: p data k r)
  case (Cons b bs)
  show ?case
  proof (cases "queue_stop len r p data b")
    case True
    then show ?thesis using Cons.prems
      by (intro exI [of _ "[]"] exI [of _ b] exI [of _ bs]) (auto simp: queue_stop_def size_sum_def)
  next
    case False
    let ?r = "set_status RT_RBB_BLK_GET b r"
    have t: "queue_take len bs (Some b) (data + blk_size (blk_set r b)) (c, Suc k) ?r = Some (r', q', n)"
      using Cons.prems(1) False by (simp add: queue_stop_def)
    have d: "b \<notin> set bs" "distinct bs" using Cons.prems(2) by simp_all
    obtain ys z zs where y: "bs = ys @ z # zs" "queue_path len ?r b (data + blk_size (blk_set r b)) ys z" "r' = mark_got ys ?r"
      "q' = (c, Suc k + length ys)" "n = data + blk_size (blk_set r b) + size_sum ?r ys"
      using Cons.IH [OF t d(2)] by blast
    have ny: "b \<notin> set ys" "b \<notin> set (ys @ [z])" using d(1) y(1) by simp_all
    have "size_sum ?r ys = size_sum r ys" by (rule size_sum_got [OF ny(1)])
    moreover have "queue_path len r p data (b # ys) z" using False y(2) unfolding queue_path_other [OF ny(2)] by simp
    ultimately show ?thesis using y
      by (intro exI [of _ "b # ys"] exI [of _ z] exI [of _ zs]) (simp add: mark_got_Cons size_sum_def algebra_simps)
  qed
qed simp

lemma queue_take_first:
  assumes "queue_take len bs None data q r = Some (r', q', n)" "distinct bs"
  shows "\<exists>xs c ys z zs. bs = xs @ c # ys @ z # zs \<and> (\<forall>b\<in>set xs. blk_status (blk_set r b) \<noteq> RT_RBB_BLK_PUT) \<and>
    blk_status (blk_set r c) = RT_RBB_BLK_PUT \<and> queue_path len r c (data + blk_size (blk_set r c)) ys z \<and>
    r' = mark_got (c # ys) r \<and> q' = (c, Suc (length ys)) \<and> n = data + size_sum r (c # ys)"
  using assms
proof (induction bs)
  case (Cons b bs)
  show ?case
  proof (cases "blk_status (blk_set r b) = RT_RBB_BLK_PUT")
    case True
    let ?r = "set_status RT_RBB_BLK_GET b r"
    have "queue_take len bs (Some b) (data + blk_size (blk_set r b)) (b, 1) ?r = Some (r', q', n)" using Cons.prems(1) True by simp
    from queue_take_more [OF this] Cons.prems(2) obtain ys z zs where y: "bs = ys @ z # zs"
      "queue_path len ?r b (data + blk_size (blk_set r b)) ys z" "r' = mark_got ys ?r" "q' = (b, 1 + length ys)"
      "n = data + blk_size (blk_set r b) + size_sum ?r ys" by auto
    have ny: "b \<notin> set ys" "b \<notin> set (ys @ [z])" using Cons.prems(2) y(1) by simp_all
    have "size_sum ?r ys = size_sum r ys" by (rule size_sum_got [OF ny(1)])
    then show ?thesis using y True queue_path_other [OF ny(2)]
      by (intro exI [of _ "[]"] exI [of _ b] exI [of _ ys] exI [of _ z] exI [of _ zs]) (simp add: mark_got_Cons size_sum_def algebra_simps)
  next
    case False
    then obtain xs c ys z zs where "bs = xs @ c # ys @ z # zs" "\<forall>b\<in>set xs. blk_status (blk_set r b) \<noteq> RT_RBB_BLK_PUT"
      "blk_status (blk_set r c) = RT_RBB_BLK_PUT" "queue_path len r c (data + blk_size (blk_set r c)) ys z"
      "r' = mark_got (c # ys) r" "q' = (c, Suc (length ys))" "n = data + size_sum r (c # ys)"
      using Cons.IH Cons.prems by auto
    then show ?thesis using False by (intro exI [of _ "b # xs"] exI [of _ c] exI [of _ ys] exI [of _ z] exI [of _ zs]) simp
  qed
qed simp

text \<open>Conversely, such blocks are what the loop takes.\<close>

lemma queue_path_take:
  assumes "queue_path len r p data ys z" "distinct (ys @ z # zs)"
  shows "queue_take len (ys @ z # zs) (Some p) data (c, k) r = Some (mark_got ys r, (c, k + length ys), data + size_sum r ys)"
  using assms
proof (induction ys arbitrary: p data k r)
  case (Cons y ys)
  let ?r = "set_status RT_RBB_BLK_GET y r"
  have ny: "y \<notin> set (ys @ [z])" "y \<notin> set ys" using Cons.prems(2) by simp_all
  have "queue_path len ?r y (data + blk_size (blk_set r y)) ys z" using Cons.prems(1) queue_path_other [OF ny(1)] by simp
  from Cons.IH [OF this, of "Suc k"] Cons.prems show ?case
    using size_sum_got [OF ny(2)] by (simp add: queue_stop_def mark_got_Cons) (simp add: size_sum_def add.assoc)
qed (simp add: queue_stop_def size_sum_def)

lemma queue_take_skip: "\<forall>b\<in>set xs. blk_status (blk_set r b) \<noteq> RT_RBB_BLK_PUT \<Longrightarrow> queue_take len (xs @ bs) None data q r = queue_take len bs None data q r"
  by (induction xs) simp_all

lemma queue_path_first:
  assumes "\<forall>b\<in>set xs. blk_status (blk_set r b) \<noteq> RT_RBB_BLK_PUT" "blk_status (blk_set r c) = RT_RBB_BLK_PUT"
    and "queue_path len r c (blk_size (blk_set r c)) ys z" "distinct (xs @ c # ys @ z # zs)"
  shows "queue_take len (xs @ c # ys @ z # zs) None 0 q r = Some (mark_got (c # ys) r, (c, Suc (length ys)), size_sum r (c # ys))"
proof -
  let ?r = "set_status RT_RBB_BLK_GET c r"
  have nc: "c \<notin> set (ys @ [z])" "c \<notin> set ys" using assms(4) by simp_all
  have "queue_path len ?r c (blk_size (blk_set r c)) ys z" using assms(3) queue_path_other [OF nc(1)] by simp
  from queue_path_take [OF this, of zs c 1] assms(2,4) show ?thesis
    using size_sum_got [OF nc(2)] unfolding queue_take_skip [OF assms(1)] by (simp add: mark_got_Cons) (simp add: size_sum_def)
qed

lemma queue_sum_eq: "queue_sum (length ys) (ys @ zs) data r = Some (data + size_sum r ys)"
  by (induction ys arbitrary: data) (simp_all add: size_sum_def algebra_simps)

lemma queue_path_iff:
  "queue_path len r p data ys z \<longleftrightarrow>
     (\<forall>i<length ys. \<not> queue_stop len r ((p # ys) ! i) (data + size_sum r (take i ys)) (ys ! i)) \<and>
     queue_stop len r (last (p # ys)) (data + size_sum r ys) z"
proof (induction ys arbitrary: p data)
  case (Cons y ys)
  then show ?case by (simp add: size_sum_def All_less_Suc2 add.assoc)
qed (simp add: size_sum_def)

text \<open>The bytes of some blocks, as a number: blocks of a ring never have more than the buffer.\<close>

definition bytes_of :: "rt_rbb \<Rightarrow> nat list \<Rightarrow> nat" where
  "bytes_of r bs = (\<Sum>b\<leftarrow>bs. unat (blk_size (blk_set r b)))"

lemma bytes_of_le:
  assumes ok: "rbb_ok r" and bs: "distinct bs" "set bs \<subseteq> set (blk_list r)"
  shows "bytes_of r bs \<le> unat (rbb_buf_size r)"
proof -
  let ?B = "\<lambda>b. {blk_start r b ..< blk_end r b}" and ?N = "{unat (rbb_buf r) ..< unat (rbb_buf r) + unat (rbb_buf_size r)}"
  have "bytes_of r bs = (\<Sum>b\<in>set bs. card (?B b))"
    using bs(1) by (simp add: bytes_of_def sum_list_distinct_conv_sum_set blk_start_def blk_end_def)
  also have "\<dots> = card (\<Union>b\<in>set bs. ?B b)"
  proof (rule card_UN_disjoint [symmetric])
    show "\<forall>b\<in>set bs. \<forall>c\<in>set bs. b \<noteq> c \<longrightarrow> ?B b \<inter> ?B c = {}"
      using ring_disjoint [OF ok] bs(2) by (fastforce simp: disjoint_iff)
  qed simp_all
  also have "\<dots> \<le> card ?N"
    using rbb_okD(8) [OF ok] bs(2) by (intro card_mono) (fastforce simp: blk_ok_def)+
  finally show ?thesis by simp
qed

lemma unat_size_sum:
  assumes "rbb_ok r" "distinct bs" "set bs \<subseteq> set (blk_list r)"
  shows "unat (size_sum r bs) = bytes_of r bs"
  using assms(2,3)
proof (induction bs)
  case (Cons b bs)
  have "bytes_of r (b # bs) < 2 ^ 32" using bytes_of_le [OF assms(1) Cons.prems] unsigned_less [of "rbb_buf_size r", where 'a = nat] by simp
  then show ?case using Cons by (simp add: size_sum_def bytes_of_def unat_add_small)
qed (simp add: size_sum_def bytes_of_def)

text \<open>Blocks that follow each other in the list and in the order of addresses rise.\<close>

lemma rises_steps:
  assumes ok: "rbb_ok r" and bs: "set bs \<subseteq> set (blk_list r)" "distinct bs"
    and o: "\<And>i. Suc i < length bs \<Longrightarrow> blk_start r (bs ! i) \<le> blk_start r (bs ! Suc i)"
  shows "rises r bs"
  using bs o
proof (induction bs)
  case (Cons b bs)
  have pos: "blk_start r c < blk_end r c" if "c \<in> set (blk_list r)" for c using rbb_okD(8) [OF ok that] by (simp add: blk_ok_def)
  have rs: "rises r bs" using Cons.prems(1,2) Cons.prems(3) [of "Suc _"] by (intro Cons.IH) auto
  have "blk_end r b \<le> blk_start r c" if c: "c \<in> set bs" for c
  proof -
    have ne: "bs \<noteq> []" using c by auto
    then have m: "hd bs \<in> set (blk_list r)" "b \<in> set (blk_list r)" "b \<noteq> hd bs" using Cons.prems(1,2) by auto
    have "blk_start r b \<le> blk_start r (hd bs)" using Cons.prems(3) [of 0] ne by (simp add: hd_conv_nth)
    then have "blk_end r b \<le> blk_start r (hd bs)" using ring_disjoint [OF ok m(2,1,3)] pos [OF m(1)] by linarith
    also have "\<dots> \<le> blk_start r c" using rises_hd [OF rs c] pos Cons.prems(1) by auto
    finally show ?thesis .
  qed
  then show ?case using rs by simp
qed simp

text \<open>The limit and the order, from the sums in words to numbers and from single steps to the whole queue.\<close>

lemma queue_path_numbers:
  assumes ok: "rbb_ok r" and l: "blk_list r = xs @ c # ys @ z # zs" and c: "blk_status (blk_set r c) = RT_RBB_BLK_PUT"
  shows "queue_path len r c (blk_size (blk_set r c)) ys z \<longleftrightarrow>
    all_put r (c # ys) \<and> rises r (c # ys) \<and> (ys \<noteq> [] \<longrightarrow> bytes_of r (c # ys) \<le> unat len) \<and>
    (blk_status (blk_set r z) \<noteq> RT_RBB_BLK_PUT \<or> blk_start r z < blk_start r (last (c # ys)) \<or> unat len < bytes_of r (c # ys @ [z]))"
    (is "?path \<longleftrightarrow> ?put \<and> ?rises \<and> ?limit \<and> ?stop")
proof -
  have sub: "distinct bs \<and> set bs \<subseteq> set (blk_list r)" if "bs = c # take i ys \<or> bs = c # ys @ [z]" for bs i
    using that rbb_okD(2) [OF ok] l set_take_subset [of i ys] by (auto simp: distinct_take)
  have u: "unat (size_sum r bs) = bytes_of r bs" if "bs = c # take i ys \<or> bs = c # ys @ [z]" for bs i
    using unat_size_sum [OF ok, of bs] sub [OF that] by blast
  have sums: "size_sum r (c # take i ys) + blk_size (blk_set r (ys ! i)) = size_sum r (c # take (Suc i) ys)" if "i < length ys" for i
    using that by (simp add: size_sum_def take_Suc_conv_app_nth add.assoc)
  have steps: "?path \<longleftrightarrow> (\<forall>i<length ys. \<not> queue_stop len r ((c # ys) ! i) (size_sum r (c # take i ys)) (ys ! i)) \<and>
      queue_stop len r (last (c # ys)) (size_sum r (c # ys)) z"
    unfolding queue_path_iff by (simp add: size_sum_def)
  have "size_sum r (c # ys) + blk_size (blk_set r z) = size_sum r (c # ys @ [z])" by (simp add: size_sum_def add.assoc)
  then have stop: "queue_stop len r (last (c # ys)) (size_sum r (c # ys)) z \<longleftrightarrow> ?stop"
    using u [of "c # ys @ [z]"] by (simp add: queue_stop_def blk_start_def word_less_nat_alt del: last.simps)
  have step: "queue_stop len r ((c # ys) ! i) (size_sum r (c # take i ys)) (ys ! i) \<longleftrightarrow>
      blk_status (blk_set r (ys ! i)) \<noteq> RT_RBB_BLK_PUT \<or> blk_start r (ys ! i) < blk_start r ((c # ys) ! i) \<or> unat len < bytes_of r (c # take (Suc i) ys)"
    if "i < length ys" for i
    by (simp only: queue_stop_def sums [OF that] blk_start_def word_less_nat_alt u [OF disjI1 [OF refl]])
  show ?thesis
  proof
    assume p: ?path
    have take: "blk_status (blk_set r (ys ! i)) = RT_RBB_BLK_PUT \<and> blk_start r ((c # ys) ! i) \<le> blk_start r (ys ! i) \<and>
        bytes_of r (c # take (Suc i) ys) \<le> unat len" if "i < length ys" for i
      using p step [OF that] that unfolding steps by (simp add: not_less)
    have "?put" using take c by (auto simp: all_put_def in_set_conv_nth)
    moreover have "?rises" by (rule rises_steps [OF ok]) (use sub [of "c # ys" "length ys"] take in auto)
    moreover have "?limit" using take [of "length ys - 1"] by (cases ys) auto
    ultimately show "?put \<and> ?rises \<and> ?limit \<and> ?stop" using p stop unfolding steps by blast
  next
    assume a: "?put \<and> ?rises \<and> ?limit \<and> ?stop"
    have "\<not> queue_stop len r ((c # ys) ! i) (size_sum r (c # take i ys)) (ys ! i)" if i: "i < length ys" for i
    proof -
      have "blk_status (blk_set r (ys ! i)) = RT_RBB_BLK_PUT" using a i by (simp add: all_put_def)
      moreover have "rises r (c # ys)" using a by blast
      then have "blk_end r ((c # ys) ! i) \<le> blk_start r ((c # ys) ! Suc i)"
        using sorted_wrt_nth_less [of "\<lambda>b c. blk_end r b \<le> blk_start r c" "c # ys" i "Suc i"] i by (simp only: rises_def) simp
      then have "blk_start r ((c # ys) ! i) \<le> blk_start r (ys ! i)" by (simp add: blk_end_def blk_start_def)
      moreover have "bytes_of r (c # ys) = bytes_of r (c # take (Suc i) ys) + bytes_of r (drop (Suc i) ys)"
        unfolding bytes_of_def by (subst append_take_drop_id [of "Suc i" ys, symmetric]) (simp del: append_take_drop_id)
      then have "bytes_of r (c # take (Suc i) ys) \<le> unat len" using a i by auto
      ultimately show ?thesis using step [OF i] by simp
    qed
    then show ?path using a stop unfolding steps by blast
  qed
qed

text \<open>
  C29: Exactly when \<open>rt_rbb_blk_queue_get\<close> returns and what: it takes the first block that was put and, behind it in the list and in the order of
  addresses, as many put blocks as the limit allows, marks them as taken, and returns the sum of their sizes, which is also what
  \<open>rt_rbb_blk_queue_len\<close> reports.  The next block ends the search: it was not put, lies before the others, or is too large; when there is no such block the
  search runs into a null pointer.  Only a queue of a single block can be above the limit: the size of the first block is not compared with it
  (\<open>queue_first_oversize\<close> below), contrary to the comment of the function.
\<close>
theorem rbb_queue_get_spec:
  assumes ok: "rbb_ok r" and ne: "blk_list r \<noteq> []"
  shows "(rt_rbb_blk_queue_get len q r = Some (r', q', n) \<longleftrightarrow>
     (\<exists>xs c ys z zs. blk_list r = xs @ c # ys @ z # zs \<and> (\<forall>b\<in>set xs. blk_status (blk_set r b) \<noteq> RT_RBB_BLK_PUT) \<and>
        all_put r (c # ys) \<and> rises r (c # ys) \<and> (ys \<noteq> [] \<longrightarrow> bytes_of r (c # ys) \<le> unat len) \<and>
        (blk_status (blk_set r z) \<noteq> RT_RBB_BLK_PUT \<or> blk_start r z < blk_start r (last (c # ys)) \<or> unat len < bytes_of r (c # ys @ [z])) \<and>
        r' = mark_got (c # ys) r \<and> q' = (c, Suc (length ys)) \<and> unat n = bytes_of r (c # ys))) \<and>
    (rt_rbb_blk_queue_get len q r = Some (r', q', n) \<longrightarrow> rt_rbb_blk_queue_len q' r' = Some n)"
    (is "(?get \<longleftrightarrow> ?found) \<and> (_ \<longrightarrow> ?len)")
proof -
  have d: "distinct (blk_list r)" by (rule rbb_okD(2) [OF ok])
  have get: "rt_rbb_blk_queue_get len q r = queue_take len (blk_list r) None 0 q r" using ne by (simp add: rt_rbb_blk_queue_get_def)
  have u: "unat (size_sum r (c # ys)) = bytes_of r (c # ys)" if "blk_list r = xs @ c # ys @ z # zs" for xs c ys z zs
    by (rule unat_size_sum [OF ok]) (use that d in auto)
  show ?thesis
  proof (intro conjI iffI impI)
    assume ?get
    then obtain xs c ys z zs where x: "blk_list r = xs @ c # ys @ z # zs" "\<forall>b\<in>set xs. blk_status (blk_set r b) \<noteq> RT_RBB_BLK_PUT"
      "blk_status (blk_set r c) = RT_RBB_BLK_PUT" "queue_path len r c (blk_size (blk_set r c)) ys z"
      "r' = mark_got (c # ys) r" "q' = (c, Suc (length ys))" "n = size_sum r (c # ys)"
      using queue_take_first [OF _ d, of len 0 q r r' q' n] unfolding get by auto
    show ?found using x(1,2,5,6,7) x(4) u [OF x(1)] unfolding queue_path_numbers [OF ok x(1,3)] by blast
    have "nodes_from c r' = c # ys @ z # zs" using d x(1,5) by (simp add: nodes_from_def dropWhile_append2) (subst dropWhile_append2; auto)
    then have "rt_rbb_blk_queue_len q' r' = Some (size_sum r' (c # ys))" using queue_sum_eq [of "c # ys" "z # zs" 0 r'] x(6) by (simp add: rt_rbb_blk_queue_len_def)
    moreover have "size_sum r' (c # ys) = n" by (simp only: x(5,7) size_sum_def sizes_got)
    ultimately show ?len by simp
  next
    assume ?found
    then obtain xs c ys z zs where x: "blk_list r = xs @ c # ys @ z # zs" "\<forall>b\<in>set xs. blk_status (blk_set r b) \<noteq> RT_RBB_BLK_PUT"
      "all_put r (c # ys) \<and> rises r (c # ys) \<and> (ys \<noteq> [] \<longrightarrow> bytes_of r (c # ys) \<le> unat len) \<and>
        (blk_status (blk_set r z) \<noteq> RT_RBB_BLK_PUT \<or> blk_start r z < blk_start r (last (c # ys)) \<or> unat len < bytes_of r (c # ys @ [z]))"
      "r' = mark_got (c # ys) r" "q' = (c, Suc (length ys))" "unat n = bytes_of r (c # ys)" by blast
    have c: "blk_status (blk_set r c) = RT_RBB_BLK_PUT" using x(3) by (simp add: all_put_def)
    have "n = size_sum r (c # ys)" using x(6) u [OF x(1)] by (simp add: word_unat_eq_iff)
    then show ?get unfolding get x(1)
      using queue_path_first [OF x(2) c] x(3,4,5) d queue_path_numbers [OF ok x(1) c] by (simp add: x(1))
  qed
qed

lemma rises_status: "rises (set_status st b r) bs = rises r bs"
  by (rule rises_cong) (simp add: set_status_def blk_start_def blk_end_def)

lemma queue_take_all:
  assumes "all_put r bs" "rises r (p # bs)" "unat data + sum_list (map (\<lambda>b. unat (blk_size (blk_set r b))) bs) \<le> unat len" "distinct bs"
  shows "queue_take len bs (Some p) data q r = None"
  using assms
proof (induction bs arbitrary: p data q r)
  case (Cons b bs)
  let ?r = "set_status RT_RBB_BLK_GET b r" and ?s = "blk_size (blk_set r b)"
  have nb: "b \<notin> set bs" using Cons.prems(4) by simp
  have "blk_end r p \<le> blk_start r b" using Cons.prems(2) by simp
  then have o: "\<not> blk_buf (blk_set r p) > blk_buf (blk_set r b)" by (simp add: blk_end_def blk_start_def word_less_nat_alt)
  have le: "unat data + unat ?s \<le> unat len" using Cons.prems(3) by simp
  have u: "unat (data + ?s) = unat data + unat ?s"
    using le_less_trans [OF le unsigned_less [of len]] by (subst unat_add_lem [THEN iffD1]) simp_all
  have l: "\<not> data + ?s > len" using le u by (simp add: word_less_nat_alt)
  have m: "map (\<lambda>c. unat (blk_size (blk_set ?r c))) bs = map (\<lambda>c. unat (blk_size (blk_set r c))) bs" by (auto simp: set_status_def)
  have "queue_take len bs (Some b) (data + ?s) (fst q, Suc (snd q)) ?r = None"
  proof (rule Cons.IH)
    show "all_put ?r bs" using Cons.prems(1) all_put_other [OF nb] by (simp add: all_put_def)
    show "rises ?r (b # bs)" using Cons.prems(2) unfolding rises_status by simp
    show "unat (data + ?s) + sum_list (map (\<lambda>c. unat (blk_size (blk_set ?r c))) bs) \<le> unat len" unfolding m u using Cons.prems(3) by simp
    show "distinct bs" using Cons.prems(4) by simp
  qed
  moreover have "blk_status (blk_set r b) = RT_RBB_BLK_PUT" using Cons.prems(1) by (simp add: all_put_def)
  ultimately show ?case using o l by simp
qed simp

text \<open>
  When the search reaches the end of the list, \<open>rt_rbb_blk_queue_get\<close> reads through a null pointer: with no block to take at all, and with
  every block of a ring put and within the limit.
\<close>
theorem rbb_queue_get_null:
  assumes ok: "rbb_ok r" and ne: "blk_list r \<noteq> []"
    and e: "(\<forall>b\<in>set (blk_list r). blk_status (blk_set r b) \<noteq> RT_RBB_BLK_PUT) \<or>
      all_put r (blk_list r) \<and> rises r (blk_list r) \<and> sum_list (map (\<lambda>b. unat (blk_size (blk_set r b))) (blk_list r)) \<le> unat len"
  shows "rt_rbb_blk_queue_get len q r = None"
  using e
proof
  assume n: "\<forall>b\<in>set (blk_list r). blk_status (blk_set r b) \<noteq> RT_RBB_BLK_PUT"
  show ?thesis
  proof (cases "rt_rbb_blk_queue_get len q r")
    case (Some x)
    then show ?thesis using queue_take_first [OF _ rbb_okD(2) [OF ok], of len 0 q r "fst x" "fst (snd x)" "snd (snd x)"] n ne
      by (auto simp: rt_rbb_blk_queue_get_def all_put_def)
  qed
next
  assume a: "all_put r (blk_list r) \<and> rises r (blk_list r) \<and> sum_list (map (\<lambda>b. unat (blk_size (blk_set r b))) (blk_list r)) \<le> unat len"
  obtain b bs where l: "blk_list r = b # bs" using ne by (cases "blk_list r") auto
  have nb: "b \<notin> set bs" "distinct bs" using rbb_okD(2) [OF ok] l by simp_all
  have s: "sum_list (map (\<lambda>c. unat (blk_size (blk_set (set_status RT_RBB_BLK_GET b r) c))) bs) = sum_list (map (\<lambda>c. unat (blk_size (blk_set r c))) bs)"
    by (intro arg_cong [of _ _ sum_list] map_cong refl) (auto simp: set_status_def)
  have ap: "all_put (set_status RT_RBB_BLK_GET b r) bs" using a l all_put_other [OF nb(1)] by (simp add: all_put_def)
  have "rises (set_status RT_RBB_BLK_GET b r) (b # bs)" using a l unfolding rises_status by simp
  moreover have "unat (blk_size (blk_set r b)) + sum_list (map (\<lambda>c. unat (blk_size (blk_set r c))) bs) \<le> unat len" using a l by simp
  ultimately have "queue_take len bs (Some b) (blk_size (blk_set r b)) (b, 1) (set_status RT_RBB_BLK_GET b r) = None"
    by (intro queue_take_all [OF ap _ _ nb(2)]) (simp_all only: s)
  then show ?thesis using a l by (simp add: rt_rbb_blk_queue_get_def all_put_def)
qed


text \<open>Getting one: nothing happens, or the block is new.\<close>

lemma malloc_block:
  assumes ok: "smem_ok h" and n: "unat sz + 7 < 2 ^ 32"
  obtains (refused) "rt_malloc nm sz (h, d) = Some ((h, d), NULL)"
    | (got) h' p P where "rt_malloc nm sz (h, d) = Some ((h', d), p)" "p \<noteq> NULL" "smem_ok h'" "P = (unat p, snd P)" "unat sz \<le> snd P" "unat p + snd P < 2 ^ 32"
        "P \<notin> smem_live h" "smem_live h' = insert P (smem_live h)"
proof -
  obtain h' p where h': "rt_malloc nm sz (h, d) = Some ((h', d), p)" "granted h (unat sz) h' p" by (rule malloc_granted [OF ok n, of nm d]) (rule that)
  show thesis
  proof (cases "p = NULL")
    case True
    then show thesis using refused h' by (simp add: granted_def)
  next
    case False
    then obtain c where "unat sz \<le> c" "(unat p, c) \<notin> smem_live h" "smem_live h' = insert (unat p, c) (smem_live h)" "unat p + c < 2 ^ 32" "smem_ok h'"
      using h'(2) by (auto simp: granted_def)
    then show thesis using got [of h' p "(unat p, c)"] h'(1) False by simp
  qed
qed

lemma free_block:
  assumes ok: "smem_ok h" and p: "p \<noteq> NULL" "P = (unat p, snd P)" and l: "smem_live h = insert P L" "P \<notin> L"
  obtains h' where "rt_free p (h, d) = Some (h', d)" "smem_ok h'" "smem_live h' = L"
proof -
  have m: "(unat p, snd P) \<in> smem_live h" using l(1) p(2) by simp
  obtain h' where h': "rt_free p (h, d) = Some (h', d)" "smem_ok h'" "smem_live h' = smem_live h - {(unat p, snd P)}"
    by (rule free_live [OF ok m p(1), where d = d]) (rule that)
  then have "smem_live h' = L" using l p(2) by simp
  with h'(1,2) show thesis by (rule that)
qed

text \<open>
  \<open>rt_rbb_create\<close> takes three blocks of the heap and gives back what it got when one of them is refused; \<open>rt_rbb_destroy\<close> gives back all of them.
\<close>
theorem rbb_create_destroy:
  assumes h: "smem_ok h" and sz: "unat sz + 7 < 2 ^ 32" and n: "12 * unat n + 7 < 2 ^ 32"
  shows "\<exists>h' x. rt_rbb_create nm sz n r (h, d) = Some ((h', d), x) \<and> smem_ok h' \<and>
    (case x of None \<Rightarrow> smem_live h' = smem_live h
     | Some r' \<Rightarrow> rbb_ok r' \<and> blk_list r' = [] \<and> length (free_list r') = unat n \<and> rbb_buf_size r' = sz \<and>
         (\<exists>c\<ge>unat sz. (unat (rbb_buf r'), c) \<in> smem_live h' - smem_live h) \<and>
         (\<exists>h''. rt_rbb_destroy r' (h', d) = Some (h'', d) \<and> smem_ok h'' \<and> smem_live h'' = smem_live h))"
proof -
  have t: "unat (12 * n) + 7 < 2 ^ 32" using n unat_of_nat_small [of "12 * unat n", where 'a = 32] by simp
  have s28: "unat (28 :: u32) + 7 < 2 ^ 32" by simp
  from h s28 show ?thesis
  proof (cases rule: malloc_block [where nm = nm and d = d])
    case refused
    then show ?thesis using h by (intro exI [of _ h] exI [of _ None]) (simp add: rt_rbb_create_def)
  next
    case 1: (got h1 p1 P1)
    from 1(3) sz show ?thesis
    proof (cases rule: malloc_block [where nm = nm and d = d])
      case refused
      obtain h2 where "rt_free p1 (h1, d) = Some (h2, d)" "smem_ok h2" "smem_live h2 = smem_live h"
        by (rule free_block [OF 1(3,2,4,8,7), where d = d]) (rule that)
      then show ?thesis using 1(1,2) refused by (intro exI [of _ h2] exI [of _ None]) (simp add: rt_rbb_create_def)
    next
      case 2: (got h2 p2 P2)
      from 2(3) t show ?thesis
      proof (cases rule: malloc_block [where nm = nm and d = d])
        case refused
        obtain h3 where h3: "rt_free p2 (h2, d) = Some (h3, d)" "smem_ok h3" "smem_live h3 = smem_live h1"
          by (rule free_block [OF 2(3,2,4,8,7), where d = d]) (rule that)
        obtain h4 where "rt_free p1 (h3, d) = Some (h4, d)" "smem_ok h4" "smem_live h4 = smem_live h"
          by (rule free_block [OF h3(2) 1(2,4) _ 1(7), where d = d]) (simp add: h3(3) 1(8), rule that)
        then show ?thesis using 1(1,2) 2(1,2) refused h3(1) by (intro exI [of _ h4] exI [of _ None]) (simp add: rt_rbb_create_def)
      next
        case 3: (got h3 p3 P3)
        have fit: "unat p2 + unat sz < 2 ^ 32" using 2(5,6) by linarith
        obtain r' where r': "rt_rbb_init p2 sz p3 n (r\<lparr>rbb_self := p1\<rparr>) = Some r'" "rbb_ok r'" "blk_list r' = []" "free_list r' = rev [0..<unat n]"
          "rbb_buf r' = p2" "rbb_buf_size r' = sz" "blk_set_ptr r' = p3" "rbb_self r' = rbb_self (r\<lparr>rbb_self := p1\<rparr>)"
          by (rule init_ok [OF 2(2) 3(2) fit]) (rule that)
        have l: "smem_live h3 = insert P2 (insert P3 (smem_live h1))" "P2 \<notin> insert P3 (smem_live h1)" "P3 \<notin> smem_live h1" using 2(7,8) 3(7,8) by auto
        obtain h4 where h4: "rt_free p2 (h3, d) = Some (h4, d)" "smem_ok h4" "smem_live h4 = insert P3 (smem_live h1)"
          by (rule free_block [OF 3(3) 2(2,4) l(1,2), where d = d]) (rule that)
        obtain h5 where h5: "rt_free p3 (h4, d) = Some (h5, d)" "smem_ok h5" "smem_live h5 = smem_live h1"
          by (rule free_block [OF h4(2) 3(2,4) h4(3) l(3), where d = d]) (rule that)
        obtain h6 where h6: "rt_free p1 (h5, d) = Some (h6, d)" "smem_ok h6" "smem_live h6 = smem_live h"
          by (rule free_block [OF h5(2) 1(2,4) _ 1(7), where d = d]) (simp add: h5(3) 1(8), rule that)
        have "rt_rbb_destroy r' (h3, d) = Some (h6, d)" using h4(1) h5(1) h6(1) r'(5,7,8) by (simp add: rt_rbb_destroy_def)
        moreover have "P2 \<in> smem_live h3 - smem_live h" using l 1(8) by auto
        then have "\<exists>c\<ge>unat sz. (unat p2, c) \<in> smem_live h3 - smem_live h" using 2(4,5) by metis
        ultimately show ?thesis using 1(1,2) 2(1,2) 3(1,2,3) r' h6(2,3)
          by (intro exI [of _ h3] exI [of _ "Some r'"]) (simp add: rt_rbb_create_def)
      qed
    qed
  qed
qed


subsection \<open>Witnesses\<close>

text \<open>A buffer of 16 bytes with three descriptors and the given blocks.\<close>

definition demo_ring :: "nat list \<Rightarrow> nat list \<Rightarrow> (nat \<Rightarrow> rbb_blk) \<Rightarrow> rt_rbb" where
  "demo_ring bs fs f = \<lparr>rbb_self = 2048, rbb_buf = 4096, rbb_buf_size = 16, blk_set_ptr = 8192, blk_set = f, blk_max_num = 3, blk_list = bs,
     rbb_tail = (if bs = [] then None else Some (last bs)), free_list = fs\<rparr>"

definition demo_blk :: "rbb_status \<Rightarrow> rbb_blk" where
  "demo_blk s = \<lparr>blk_status = s, blk_size = 10, blk_buf = 4096\<rparr>"

definition one_put :: rt_rbb where
  "one_put = demo_ring [2] [1, 0] (\<lambda>b. demo_blk (if b = 2 then RT_RBB_BLK_PUT else RT_RBB_BLK_UNUSED))"

lemma one_put: "rbb_ok one_put" "blk_list one_put = [2]" "free_list one_put = [1, 0]" "blk_set one_put 2 = demo_blk RT_RBB_BLK_PUT"
  by (auto simp: one_put_def demo_ring_def demo_blk_def rbb_ok_def blk_ok_def blk_start_def blk_end_def ring_order_def intro: exI [of _ "[2]"])

text \<open>The block before the gap and the block behind it are returned as one queue, although they are not adjacent.\<close>

definition gap_ring :: rt_rbb where
  "gap_ring = demo_ring [0, 2, 1] [] (\<lambda>b. if b = 0 then \<lparr>blk_status = RT_RBB_BLK_PUT, blk_size = 4, blk_buf = 4096\<rparr>
     else if b = 2 then \<lparr>blk_status = RT_RBB_BLK_PUT, blk_size = 4, blk_buf = 4104\<rparr>
     else \<lparr>blk_status = RT_RBB_BLK_INITED, blk_size = 4, blk_buf = 4108\<rparr>)"

lemma gap_ring: "rbb_ok gap_ring" "blk_list gap_ring = [0, 2, 1]"
  by (auto simp: gap_ring_def demo_ring_def rbb_ok_def blk_ok_def blk_start_def blk_end_def ring_order_def intro: exI [of _ "[0, 2, 1]"])

lemma queue_not_contiguous:
  "rt_rbb_blk_queue_get 100 (7, 7) gap_ring = Some (mark_got [0, 2] gap_ring, (0, 2), 8)" "blk_end gap_ring 0 = 4100" "blk_start gap_ring 2 = 4104"
proof -
  have "queue_take 100 [0, 2, 1] None 0 (7, 7) gap_ring = Some (set_status RT_RBB_BLK_GET 2 (set_status RT_RBB_BLK_GET 0 gap_ring), (0, 2), 8)"
    by (simp add: set_status_def) (simp add: gap_ring_def demo_ring_def)
  then show "rt_rbb_blk_queue_get 100 (7, 7) gap_ring = Some (mark_got [0, 2] gap_ring, (0, 2), 8)"
    using mark_got_Cons [of "[]" 2 "set_status RT_RBB_BLK_GET 0 gap_ring"] mark_got_Cons [of "[2]" 0 gap_ring]
    by (simp add: rt_rbb_blk_queue_get_def gap_ring(2))
qed (simp_all add: gap_ring_def demo_ring_def blk_end_def blk_start_def)

text \<open>A single block is returned whatever the limit.\<close>

lemma queue_first_oversize: "rt_rbb_blk_queue_get 2 (7, 7) gap_ring = Some (mark_got [0] gap_ring, (0, 1), 4)"
proof -
  have "queue_take 2 [0, 2, 1] None 0 (7, 7) gap_ring = Some (set_status RT_RBB_BLK_GET 0 gap_ring, (0, 1), 4)"
    by (simp add: set_status_def) (simp add: gap_ring_def demo_ring_def)
  then show ?thesis using mark_got_Cons [of "[]" 0 gap_ring] by (simp add: rt_rbb_blk_queue_get_def gap_ring(2))
qed

theorem rbb_run_disjoint_witness:
  "\<exists>r r1 r2. rt_rbb_init 4096 16 8192 3 one_put = Some r \<and> rt_rbb_blk_alloc 4 r = Some (r1, Some 2) \<and> rt_rbb_blk_put 2 r1 = Some r2 \<and>
    block (blk_start r2 2, unat (blk_size (blk_set r2 2))) \<subseteq> {4096 ..< 4112}"
proof -
  obtain r where r: "rt_rbb_init 4096 16 8192 3 one_put = Some r" "rbb_ok r" "blk_list r = []" "free_list r = rev [0..<unat (3 :: u32)]" "rbb_buf r = 4096" "rbb_buf_size r = 16"
  proof -
    have "(4096 :: addr) \<noteq> NULL" "(8192 :: addr) \<noteq> NULL" "unat (4096 :: addr) + unat (16 :: u32) < 2 ^ 32" by simp_all
    then show thesis by (rule init_ok [where n = 3 and r = one_put]) (rule that)
  qed
  have f: "free_list r = 2 # [1, 0]" using r(4) by (simp add: upt_rec)
  let ?r1 = "placed 2 4096 4 r"
  have a: "rt_rbb_blk_alloc 4 r = Some (?r1, Some 2)" using rbb_alloc_overruns [OF r(2,3) f, of 4] r(5) by simp
  obtain r2 where p: "rt_rbb_blk_put 2 ?r1 = Some r2" "blk_list r2 = [2]"
    using r(3) by (simp add: rt_rbb_blk_put_def set_status_def) (simp add: placed_def)
  have "rbb_run r ?r1" by (rule rbb_run.alloc [OF rbb_run.start _ _ a]) (simp_all add: r(6))
  then have "rbb_run r r2" by (rule rbb_run.put [OF _ _ p(1)]) (simp add: placed_def)
  from rbb_run_disjoint [OF r(1) _ this] p(2) show ?thesis using r(1) a p(1) by auto
qed

theorem rbb_alloc_leaks_witness:
  "\<exists>r'. alloc_times 2 8 one_put = Some r' \<and> blk_list r' = [2] \<and> rt_rbb_blk_alloc 1 r' = Some (r', None)"
proof -
  have a: "rt_rbb_blk_alloc 8 one_put = Some (one_put\<lparr>free_list := [0]\<rparr>, None)"
    by (simp add: one_put_def demo_ring_def demo_blk_def rt_rbb_blk_alloc_def find_empty_blk_in_set_def)
  have "free_list one_put \<noteq> []" by (simp add: one_put(3))
  from rbb_alloc_leaks [OF one_put(1) a this] obtain r' where r': "alloc_times (length (free_list one_put)) 8 one_put = Some r'" "blk_list r' = [2]"
    "\<forall>sz'<2 ^ 24. rt_rbb_blk_alloc sz' r' = Some (r', None)" by (auto simp: one_put(2))
  have "length (free_list one_put) = 2" by (simp add: one_put(3))
  moreover have "rt_rbb_blk_alloc 1 r' = Some (r', None)" using r'(3) by simp
  ultimately show ?thesis using r'(1,2) by metis
qed

theorem rbb_queue_get_spec_witness:
  "\<exists>r' q' n. rt_rbb_blk_queue_get 100 (7, 7) gap_ring = Some (r', q', n) \<and> unat n = bytes_of gap_ring [0, 2] \<and> rt_rbb_blk_queue_len q' r' = Some n"
proof -
  have "blk_list gap_ring \<noteq> []" by (simp add: gap_ring(2))
  moreover have "bytes_of gap_ring [0, 2] = 8" by (simp add: bytes_of_def gap_ring_def demo_ring_def)
  ultimately show ?thesis
    using rbb_queue_get_spec [OF gap_ring(1), of 100 "(7, 7)" "mark_got [0, 2] gap_ring" "(0, 2)" 8] queue_not_contiguous(1) by auto
qed

theorem rbb_queue_get_null_witness: "rt_rbb_blk_queue_get 100 (7, 7) one_put = None"
proof -
  have "blk_list one_put \<noteq> []" "all_put one_put (blk_list one_put) \<and> rises one_put (blk_list one_put) \<and>
    sum_list (map (\<lambda>b. unat (blk_size (blk_set one_put b))) (blk_list one_put)) \<le> unat (100 :: u32)"
    by (simp_all add: one_put(2,4) all_put_def demo_blk_def)
  from rbb_queue_get_null [OF one_put(1) this(1) disjI2 [OF this(2)]] show ?thesis .
qed

theorem rbb_create_destroy_witness:
  "\<exists>h' x. rt_rbb_create None 16 3 one_put (demo_heap, \<lambda>_. 0) = Some ((h', \<lambda>_. 0), x) \<and>
    (\<forall>r'. x = Some r' \<longrightarrow> (\<exists>h''. rt_rbb_destroy r' (h', \<lambda>_. 0) = Some (h'', \<lambda>_. 0) \<and> smem_live h'' = smem_live demo_heap))"
  using rbb_create_destroy [OF demo_heap(2), of 16 3 None one_put "\<lambda>_. 0"] by (fastforce split: option.splits)

end
