(* ===== verification/Ringbuffer.thy ===== *)
theory Ringbuffer
  imports Prelude Fifo
begin

text \<open>
  The byte ring buffer of \<open>components/drivers/ipc/ringbuffer.c\<close>.  The pool behind \<open>buffer_ptr\<close> is
  a list of bytes; the 31-bit index fields are natural numbers stored modulo \<open>2 ^ 31\<close> and the mirror
  bits are booleans.  A caller's data block is the list of its bytes, so that its length is the
  \<open>length\<close> argument; reading returns the bytes copied to the caller.
\<close>

subsection \<open>The code\<close>

record ringbuffer =
  pool :: "u8 list"
  read_mirror :: bool
  read_index :: nat
  write_mirror :: bool
  write_index :: nat
  buffer_size :: nat

datatype ringbuffer_state = RB_EMPTY | RB_FULL | RB_HALFFULL

definition ringbuffer_status :: "ringbuffer \<Rightarrow> ringbuffer_state" where
  "ringbuffer_status rb =
     (if read_index rb = write_index rb
      then if read_mirror rb = write_mirror rb then RB_EMPTY else RB_FULL
      else RB_HALFFULL)"

definition ringbuffer_data_len :: "ringbuffer \<Rightarrow> nat" where
  "ringbuffer_data_len rb =
     (case ringbuffer_status rb of
        RB_EMPTY \<Rightarrow> 0
      | RB_FULL \<Rightarrow> buffer_size rb
      | RB_HALFFULL \<Rightarrow>
          let wi = write_index rb; ri = read_index rb in
          if wi > ri then wi - ri else buffer_size rb - (ri - wi))"

definition ringbuffer_space_len :: "ringbuffer \<Rightarrow> nat" where
  "ringbuffer_space_len rb = buffer_size rb - ringbuffer_data_len rb"

definition ringbuffer_get_size :: "ringbuffer \<Rightarrow> nat" where
  "ringbuffer_get_size rb = buffer_size rb"

definition idx :: "nat \<Rightarrow> nat" where
  "idx i = i mod 2 ^ 31"

definition store_at :: "u8 list \<Rightarrow> nat \<Rightarrow> u8 list \<Rightarrow> u8 list" where
  "store_at p i xs = take i p @ xs @ drop (i + length xs) p"

definition rb_fresh :: "u8 list \<Rightarrow> nat \<Rightarrow> ringbuffer" where
  "rb_fresh pl sz =
     \<lparr>pool = pl, read_mirror = False, read_index = 0, write_mirror = False, write_index = 0,
      buffer_size = sz div 8 * 8\<rparr>"

definition ringbuffer_init :: "u8 list \<Rightarrow> nat \<Rightarrow> ringbuffer option" where
  "ringbuffer_init pl sz = (if sz = 0 then None else Some (rb_fresh pl sz))"

definition ringbuffer_reset :: "ringbuffer \<Rightarrow> ringbuffer" where
  "ringbuffer_reset rb = rb\<lparr>read_mirror := False, read_index := 0, write_mirror := False, write_index := 0\<rparr>"

definition ringbuffer_put :: "ringbuffer \<Rightarrow> u8 list \<Rightarrow> ringbuffer \<times> nat" where
  "ringbuffer_put rb ptr =
     (let sz = ringbuffer_space_len rb in
      if sz = 0 then (rb, 0)
      else
        let len = (if sz < length ptr then sz else length ptr);
            head = buffer_size rb - write_index rb
        in
        if head > len then
          (rb\<lparr>pool := store_at (pool rb) (write_index rb) (take len ptr),
              write_index := idx (write_index rb + len)\<rparr>, len)
        else
          let p1 = store_at (pool rb) (write_index rb) (take head ptr);
              p2 = store_at p1 0 (take (len - head) (drop head ptr))
          in (rb\<lparr>pool := p2, write_mirror := \<not> write_mirror rb, write_index := idx (len - head)\<rparr>, len))"

definition ringbuffer_put_force :: "ringbuffer \<Rightarrow> u8 list \<Rightarrow> ringbuffer \<times> nat" where
  "ringbuffer_put_force rb ptr =
     (let space_length = ringbuffer_space_len rb;
          ptr = (if length ptr > buffer_size rb then drop (length ptr - buffer_size rb) ptr else ptr);
          len = length ptr;
          head = buffer_size rb - write_index rb
      in
      if head > len then
        let rb = rb\<lparr>pool := store_at (pool rb) (write_index rb) ptr, write_index := idx (write_index rb + len)\<rparr>;
            rb = (if len > space_length then rb\<lparr>read_index := write_index rb\<rparr> else rb)
        in (rb, len)
      else
        let p1 = store_at (pool rb) (write_index rb) (take head ptr);
            p2 = store_at p1 0 (drop head ptr);
            rb = rb\<lparr>pool := p2, write_mirror := \<not> write_mirror rb, write_index := idx (len - head)\<rparr>;
            rb = (if len > space_length then
                    let rb = (if write_index rb \<le> read_index rb
                              then rb\<lparr>read_mirror := \<not> read_mirror rb\<rparr> else rb)
                    in rb\<lparr>read_index := write_index rb\<rparr>
                  else rb)
        in (rb, len))"

definition ringbuffer_get :: "ringbuffer \<Rightarrow> nat \<Rightarrow> ringbuffer \<times> u8 list" where
  "ringbuffer_get rb len =
     (let sz = ringbuffer_data_len rb in
      if sz = 0 then (rb, [])
      else
        let len = (if sz < len then sz else len);
            tail = buffer_size rb - read_index rb
        in
        if tail > len then
          (rb\<lparr>read_index := idx (read_index rb + len)\<rparr>, take len (drop (read_index rb) (pool rb)))
        else
          (rb\<lparr>read_mirror := \<not> read_mirror rb, read_index := idx (len - tail)\<rparr>,
           take tail (drop (read_index rb) (pool rb)) @ take (len - tail) (pool rb)))"

definition ringbuffer_peek :: "ringbuffer \<Rightarrow> ringbuffer \<times> nat option \<times> nat" where
  "ringbuffer_peek rb =
     (let sz = ringbuffer_data_len rb in
      if sz = 0 then (rb, None, 0)
      else
        let ptr = Some (read_index rb) in
        if buffer_size rb - read_index rb > sz then
          (rb\<lparr>read_index := idx (read_index rb + sz)\<rparr>, ptr, sz)
        else
          (rb\<lparr>read_mirror := \<not> read_mirror rb, read_index := 0\<rparr>, ptr, buffer_size rb - read_index rb))"

definition ringbuffer_putchar :: "ringbuffer \<Rightarrow> u8 \<Rightarrow> ringbuffer \<times> nat" where
  "ringbuffer_putchar rb ch =
     (if ringbuffer_space_len rb = 0 then (rb, 0)
      else
        let rb = rb\<lparr>pool := (pool rb)[write_index rb := ch]\<rparr> in
        (if write_index rb = buffer_size rb - 1
         then rb\<lparr>write_mirror := \<not> write_mirror rb, write_index := 0\<rparr>
         else rb\<lparr>write_index := idx (write_index rb + 1)\<rparr>, 1))"

definition ringbuffer_putchar_force :: "ringbuffer \<Rightarrow> u8 \<Rightarrow> ringbuffer \<times> nat" where
  "ringbuffer_putchar_force rb ch =
     (let old_state = ringbuffer_status rb;
          rb = rb\<lparr>pool := (pool rb)[write_index rb := ch]\<rparr>
      in
      (if write_index rb = buffer_size rb - 1 then
         let rb = rb\<lparr>write_mirror := \<not> write_mirror rb, write_index := 0\<rparr> in
         if old_state = RB_FULL
         then rb\<lparr>read_mirror := \<not> read_mirror rb, read_index := write_index rb\<rparr> else rb
       else
         let rb = rb\<lparr>write_index := idx (write_index rb + 1)\<rparr> in
         if old_state = RB_FULL then rb\<lparr>read_index := write_index rb\<rparr> else rb, 1))"

definition ringbuffer_getchar :: "ringbuffer \<Rightarrow> ringbuffer \<times> u8 option" where
  "ringbuffer_getchar rb =
     (if ringbuffer_data_len rb = 0 then (rb, None)
      else
        let ch = pool rb ! read_index rb in
        (if read_index rb = buffer_size rb - 1
         then rb\<lparr>read_mirror := \<not> read_mirror rb, read_index := 0\<rparr>
         else rb\<lparr>read_index := idx (read_index rb + 1)\<rparr>, Some ch))"

text \<open>
  \<open>rt_ringbuffer_create\<close> and \<open>rt_ringbuffer_destroy\<close> over an allocator given by its two operations:
  \<open>rt_malloc\<close> returns the address and the bytes of a block, or \<open>None\<close> for a null pointer.  A size of
  0 stops at the assertion (\<open>None\<close>); a result \<open>Some (h, r)\<close> carries the heap and what the function
  returns: the addresses of the object and of its pool, with the buffer.
\<close>

definition ringbuffer_create ::
  "('h \<Rightarrow> nat \<Rightarrow> 'h \<times> (nat \<times> u8 list) option) \<Rightarrow> ('h \<Rightarrow> nat \<Rightarrow> 'h) \<Rightarrow> nat \<Rightarrow> 'h \<Rightarrow> nat \<Rightarrow>
    ('h \<times> (nat \<times> nat \<times> ringbuffer) option) option" where
  "ringbuffer_create rt_malloc rt_free sizeof_rb h sz =
     (if sz = 0 then None
      else
        let sz = sz div 8 * 8 in
        case rt_malloc h sizeof_rb of
          (h, None) \<Rightarrow> Some (h, None)
        | (h, Some (obj, _)) \<Rightarrow>
            (case rt_malloc h sz of
               (h, None) \<Rightarrow> Some (rt_free h obj, None)
             | (h, Some (buf, pl)) \<Rightarrow>
                 map_option (\<lambda>rb. (h, Some (obj, buf, rb))) (ringbuffer_init pl sz)))"

definition ringbuffer_destroy :: "('h \<Rightarrow> nat \<Rightarrow> 'h) \<Rightarrow> 'h \<Rightarrow> nat \<Rightarrow> nat \<Rightarrow> 'h" where
  "ringbuffer_destroy rt_free h obj buf = rt_free (rt_free h buf) obj"

subsection \<open>Contents\<close>

definition rb_inv :: "ringbuffer \<Rightarrow> bool" where
  "rb_inv rb \<longleftrightarrow> 0 < buffer_size rb \<and> buffer_size rb < 2 ^ 31 \<and> length (pool rb) = buffer_size rb \<and>
     read_index rb < buffer_size rb \<and> write_index rb < buffer_size rb \<and>
     (if read_mirror rb = write_mirror rb then read_index rb \<le> write_index rb
      else write_index rb \<le> read_index rb)"

definition rb_contents :: "ringbuffer \<Rightarrow> u8 list" where
  "rb_contents rb =
     map (\<lambda>k. pool rb ! ((read_index rb + k) mod buffer_size rb)) [0..<ringbuffer_data_len rb]"

lemma length_rb_contents [simp]: "length (rb_contents rb) = ringbuffer_data_len rb"
  by (simp add: rb_contents_def)

lemma nth_rb_contents: "k < ringbuffer_data_len rb \<Longrightarrow>
    rb_contents rb ! k = pool rb ! ((read_index rb + k) mod buffer_size rb)"
  by (simp add: rb_contents_def)

lemma length_store_at [simp]: "i + length xs \<le> length p \<Longrightarrow> length (store_at p i xs) = length p"
  by (simp add: store_at_def)

lemma nth_store_at:
  "i + length xs \<le> length p \<Longrightarrow> j < length p \<Longrightarrow>
     store_at p i xs ! j = (if i \<le> j \<and> j < i + length xs then xs ! (j - i) else p ! j)"
  by (auto simp: store_at_def nth_append min_def)

lemma idx_small [simp]: "i < 2 ^ 31 \<Longrightarrow> idx i = i"
  by (simp add: idx_def)

text \<open>The fields of a buffer that holds \<open>n\<close> bytes from its read index on.\<close>

definition rb_shape :: "ringbuffer \<Rightarrow> nat \<Rightarrow> bool" where
  "rb_shape rb n \<longleftrightarrow> 0 < buffer_size rb \<and> buffer_size rb < 2 ^ 31 \<and> length (pool rb) = buffer_size rb \<and>
     read_index rb < buffer_size rb \<and> n \<le> buffer_size rb \<and>
     write_index rb = (read_index rb + n) mod buffer_size rb \<and>
     (write_mirror rb = read_mirror rb \<longleftrightarrow> read_index rb + n < buffer_size rb)"

lemma rb_shape_inv: "rb_shape rb n \<Longrightarrow> rb_inv rb \<and> ringbuffer_data_len rb = n"
  by (cases "read_index rb + n < buffer_size rb")
    (auto simp: rb_shape_def rb_inv_def ringbuffer_data_len_def ringbuffer_status_def Let_def mod_wrap)

lemma rb_inv_shape: "rb_inv rb \<Longrightarrow> rb_shape rb (ringbuffer_data_len rb)"
  by (cases "read_mirror rb = write_mirror rb"; cases "read_index rb = write_index rb")
    (auto simp: rb_shape_def rb_inv_def ringbuffer_data_len_def ringbuffer_status_def Let_def mod_wrap split: if_splits)

lemma data_len_le: "rb_inv rb \<Longrightarrow> ringbuffer_data_len rb \<le> buffer_size rb"
  using rb_inv_shape by (auto simp: rb_shape_def)

lemma rb_contents_eqI:
  assumes "rb_inv rb" "ringbuffer_data_len rb = length xs"
    and "\<And>k. k < length xs \<Longrightarrow> pool rb ! ((read_index rb + k) mod buffer_size rb) = xs ! k"
  shows "rb_contents rb = xs"
  using assms by (intro nth_equalityI) (simp_all add: nth_rb_contents)

text \<open>Writing \<open>xs\<close> behind the contents, with room for all of it.\<close>

lemma rb_append:
  assumes inv: "rb_inv rb" and room: "ringbuffer_data_len rb + length xs \<le> buffer_size rb"
    and pl: "length (pool rb') = buffer_size rb"
      "\<And>j. j < buffer_size rb \<Longrightarrow> pool rb' ! j =
         (let k = (if write_index rb \<le> j then j - write_index rb else j + buffer_size rb - write_index rb)
          in if k < length xs then xs ! k else pool rb ! j)"
    and wi: "write_index rb' = (write_index rb + length xs) mod buffer_size rb"
    and wm: "write_mirror rb' = (if write_index rb + length xs < buffer_size rb then write_mirror rb else \<not> write_mirror rb)"
    and rest: "read_index rb' = read_index rb" "read_mirror rb' = read_mirror rb" "buffer_size rb' = buffer_size rb"
  shows "rb_inv rb' \<and> rb_contents rb' = rb_contents rb @ xs"
proof -
  define n where "n = ringbuffer_data_len rb"
  have sh: "rb_shape rb n" using rb_inv_shape [OF inv] by (simp add: n_def)
  note s = sh [unfolded rb_shape_def]
  have sh': "rb_shape rb' (n + length xs)"
    using s room pl(1) wi wm rest unfolding rb_shape_def n_def [symmetric]
    by (cases "read_index rb + n < buffer_size rb") (auto simp: mod_wrap mod_simps add.assoc)
  note i' = rb_shape_inv [OF sh']
  have "rb_contents rb' = rb_contents rb @ xs"
  proof (rule rb_contents_eqI)
    fix k assume "k < length (rb_contents rb @ xs)"
    then have k: "k < n + length xs" by (simp add: n_def)
    define j where "j = (read_index rb + k) mod buffer_size rb"
    have j: "j < buffer_size rb" using s by (simp add: j_def)
    have jw: "j = (if read_index rb + k < buffer_size rb then read_index rb + k else read_index rb + k - buffer_size rb)"
      using k s room by (simp add: j_def mod_wrap n_def)
    have ww: "write_index rb = (if read_index rb + n < buffer_size rb then read_index rb + n else read_index rb + n - buffer_size rb)"
      using s by (simp add: mod_wrap)
    have "pool rb' ! j = (rb_contents rb @ xs) ! k"
    proof (cases "k < n")
      case True
      then have "(rb_contents rb @ xs) ! k = pool rb ! j" by (simp add: nth_append nth_rb_contents n_def j_def)
      moreover have "\<not> (if write_index rb \<le> j then j - write_index rb else j + buffer_size rb - write_index rb) < length xs"
        using True jw ww s room by (auto simp: n_def split: if_splits)
      ultimately show ?thesis using pl(2) [OF j] by (simp add: Let_def)
    next
      case False
      then have "(rb_contents rb @ xs) ! k = xs ! (k - n)" by (simp add: nth_append n_def)
      moreover have "(if write_index rb \<le> j then j - write_index rb else j + buffer_size rb - write_index rb) = k - n"
        using False k jw ww s room by (auto simp: n_def split: if_splits)
      ultimately show ?thesis using pl(2) [OF j] False k by (auto simp: Let_def)
    qed
    then show "pool rb' ! ((read_index rb' + k) mod buffer_size rb') = (rb_contents rb @ xs) ! k"
      by (simp add: j_def rest)
  qed (use i' in \<open>simp_all add: n_def\<close>)
  with i' show ?thesis by simp
qed

text \<open>Dropping \<open>n\<close> bytes from the front.\<close>

lemma rb_drop:
  assumes inv: "rb_inv rb" and n: "n \<le> ringbuffer_data_len rb"
    and ri: "read_index rb' = (read_index rb + n) mod buffer_size rb"
    and rm: "read_mirror rb' = (if read_index rb + n < buffer_size rb then read_mirror rb else \<not> read_mirror rb)"
    and rest: "pool rb' = pool rb" "write_index rb' = write_index rb" "write_mirror rb' = write_mirror rb"
      "buffer_size rb' = buffer_size rb"
  shows "rb_inv rb' \<and> rb_contents rb' = drop n (rb_contents rb)"
proof -
  define l where "l = ringbuffer_data_len rb"
  have sh: "rb_shape rb l" using rb_inv_shape [OF inv] by (simp add: l_def)
  note s = sh [unfolded rb_shape_def]
  have sh': "rb_shape rb' (l - n)"
    using s n ri rm rest unfolding rb_shape_def l_def [symmetric]
    by (cases "read_index rb + n < buffer_size rb"; cases "read_index rb + l < buffer_size rb")
      (auto simp: mod_wrap)
  note i' = rb_shape_inv [OF sh']
  have "rb_contents rb' = drop n (rb_contents rb)"
  proof (rule rb_contents_eqI)
    fix k assume "k < length (drop n (rb_contents rb))"
    then have k: "n + k < l" by (simp add: l_def)
    have "(read_index rb' + k) mod buffer_size rb' = (read_index rb + (n + k)) mod buffer_size rb"
      by (simp add: ri rest mod_simps add.assoc)
    then show "pool rb' ! ((read_index rb' + k) mod buffer_size rb') = drop n (rb_contents rb) ! k"
      using k n by (simp add: nth_rb_contents l_def rest)
  qed (use i' in \<open>simp_all add: l_def\<close>)
  with i' show ?thesis by simp
qed


subsection \<open>The operations on contents\<close>

text \<open>The two stores of a write that wraps around the end of the pool.\<close>

lemma wrapped_store:
  assumes "length p = s" "w < s" "s - w \<le> length xs" "length xs \<le> s" "j < s"
  shows "store_at (store_at p w (take (s - w) xs)) 0 (drop (s - w) xs) ! j =
    (let k = (if w \<le> j then j - w else j + s - w) in if k < length xs then xs ! k else p ! j)"
    and "length (store_at (store_at p w (take (s - w) xs)) 0 (drop (s - w) xs)) = s"
  using assms by (auto simp: nth_store_at Let_def add.commute)

lemma ringbuffer_put_contents:
  assumes inv: "rb_inv rb" and r: "ringbuffer_put rb xs = (rb', n)"
  shows "n = min (length xs) (ringbuffer_space_len rb)" "rb_inv rb'"
    "rb_contents rb' = rb_contents rb @ take n xs" "buffer_size rb' = buffer_size rb"
proof -
  have s: "0 < buffer_size rb" "buffer_size rb < 2 ^ 31" "length (pool rb) = buffer_size rb"
    using inv by (simp_all add: rb_inv_def)
  define len where "len = min (length xs) (ringbuffer_space_len rb)"
  have room: "ringbuffer_data_len rb + length (take len xs) \<le> buffer_size rb"
    using data_len_le [OF inv] by (simp add: len_def ringbuffer_space_len_def)
  have wl: "write_index rb < buffer_size rb" using inv by (simp add: rb_inv_def)
  have "n = len \<and> (rb_inv rb' \<and> rb_contents rb' = rb_contents rb @ take len xs) \<and> buffer_size rb' = buffer_size rb"
  proof (cases "ringbuffer_space_len rb = 0")
    case True
    then show ?thesis using r inv by (simp add: ringbuffer_put_def len_def)
  next
    case False
    have len_if: "(if ringbuffer_space_len rb < length xs then ringbuffer_space_len rb else length xs) = len"
      by (simp add: len_def)
    have tl: "length (take len xs) = len" by (simp add: len_def)
    show ?thesis
    proof (cases "buffer_size rb - write_index rb > len")
      case True
      then have "idx (write_index rb + len) = write_index rb + len" using s by simp
      then have rb': "rb' = rb\<lparr>pool := store_at (pool rb) (write_index rb) (take len xs), write_index := write_index rb + len\<rparr>" "n = len"
        using r False True by (auto simp: ringbuffer_put_def len_if Let_def)
      have "rb_inv rb' \<and> rb_contents rb' = rb_contents rb @ take len xs"
        using True s tl by (intro rb_append [OF inv room]) (auto simp: rb' nth_store_at Let_def)
      then show ?thesis using rb' by simp
    next
      case ge: False
      define h where "h = buffer_size rb - write_index rb"
      have hl: "h \<le> len" using ge by (simp add: h_def)
      have t2: "take h xs = take h (take len xs)" "take (len - h) (drop h xs) = drop h (take len xs)"
        using hl by (simp_all add: min_def drop_take)
      have rb': "rb' = rb\<lparr>pool := store_at (store_at (pool rb) (write_index rb) (take h xs)) 0 (take (len - h) (drop h xs)),
          write_mirror := \<not> write_mirror rb, write_index := len - h\<rparr>" "n = len"
        using r False ge s room tl by (auto simp: ringbuffer_put_def len_if Let_def h_def [symmetric])
      note ws = wrapped_store [of "pool rb" "buffer_size rb" "write_index rb" "take len xs", folded h_def, folded t2]
      have "rb_inv rb' \<and> rb_contents rb' = rb_contents rb @ take len xs"
      proof (rule rb_append [OF inv room])
        show "write_index rb' = (write_index rb + length (take len xs)) mod buffer_size rb"
          using ge wl room tl by (auto simp: rb' mod_wrap h_def)
      qed (use s wl ge hl room tl ws in \<open>auto simp: rb' h_def\<close>)
      then show ?thesis using rb' by simp
    qed
  qed
  then show "n = min (length xs) (ringbuffer_space_len rb)" "rb_inv rb'"
    "rb_contents rb' = rb_contents rb @ take n xs" "buffer_size rb' = buffer_size rb"
    by (simp_all add: len_def)
qed


lemma ringbuffer_get_contents:
  assumes inv: "rb_inv rb" and r: "ringbuffer_get rb n = (rb', xs)"
  shows "xs = take n (rb_contents rb)" "rb_inv rb'" "rb_contents rb' = drop n (rb_contents rb)"
    "buffer_size rb' = buffer_size rb"
proof -
  have s: "0 < buffer_size rb" "buffer_size rb < 2 ^ 31" "length (pool rb) = buffer_size rb" "read_index rb < buffer_size rb"
    using inv by (simp_all add: rb_inv_def)
  define len where "len = min n (ringbuffer_data_len rb)"
  have le: "len \<le> ringbuffer_data_len rb" "ringbuffer_data_len rb \<le> buffer_size rb"
    using data_len_le [OF inv] by (simp_all add: len_def)
  have cut: "take n (rb_contents rb) = take len (rb_contents rb)" "drop n (rb_contents rb) = drop len (rb_contents rb)"
    by (simp_all add: len_def min_def)
  have "xs = take len (rb_contents rb) \<and> (rb_inv rb' \<and> rb_contents rb' = drop len (rb_contents rb)) \<and> buffer_size rb' = buffer_size rb"
  proof (cases "ringbuffer_data_len rb = 0")
    case True
    then have "rb_contents rb = []" by (simp flip: length_0_conv)
    then show ?thesis using True r inv by (simp add: ringbuffer_get_def)
  next
    case False
    have len_if: "(if ringbuffer_data_len rb < n then ringbuffer_data_len rb else n) = len" by (auto simp: len_def)
    show ?thesis
    proof (cases "buffer_size rb - read_index rb > len")
      case True
      then have "idx (read_index rb + len) = read_index rb + len" using s by simp
      then have rb': "rb' = rb\<lparr>read_index := read_index rb + len\<rparr>" "xs = take len (drop (read_index rb) (pool rb))"
        using r False True by (auto simp: ringbuffer_get_def len_if Let_def)
      have "xs = take len (rb_contents rb)"
        using True s le by (intro nth_equalityI) (auto simp: rb' nth_rb_contents)
      moreover have "rb_inv rb' \<and> rb_contents rb' = drop len (rb_contents rb)"
        using True by (intro rb_drop [OF inv le(1)]) (auto simp: rb')
      ultimately show ?thesis by (simp add: rb')
    next
      case ge: False
      define t where "t = buffer_size rb - read_index rb"
      have rb': "rb' = rb\<lparr>read_mirror := \<not> read_mirror rb, read_index := len - t\<rparr>"
        "xs = take t (drop (read_index rb) (pool rb)) @ take (len - t) (pool rb)"
        using r False ge s le by (auto simp: ringbuffer_get_def len_if Let_def t_def)
      have "xs = take len (rb_contents rb)"
      proof (rule nth_equalityI)
        show "length xs = length (take len (rb_contents rb))"
          using ge s le by (simp add: rb' t_def)
        fix i assume "i < length xs"
        then have i: "i < len" using ge s le by (simp add: rb' t_def)
        have "take len (rb_contents rb) ! i = pool rb ! (if i < t then read_index rb + i else i - t)"
          using i le s ge by (auto simp: nth_rb_contents mod_wrap t_def add.commute)
        then show "xs ! i = take len (rb_contents rb) ! i"
          using i le s ge by (auto simp: rb' nth_append t_def)
      qed
      moreover have "rb_inv rb' \<and> rb_contents rb' = drop len (rb_contents rb)"
        using ge s le by (intro rb_drop [OF inv le(1)]) (auto simp: rb' t_def mod_wrap)
      ultimately show ?thesis by (simp add: rb')
    qed
  qed
  then show "xs = take n (rb_contents rb)" "rb_inv rb'" "rb_contents rb' = drop n (rb_contents rb)"
    "buffer_size rb' = buffer_size rb"
    unfolding cut by simp_all
qed

lemma ringbuffer_peek_contents:
  assumes inv: "rb_inv rb" and r: "ringbuffer_peek rb = (rb', p, n)"
  shows "n \<le> ringbuffer_data_len rb" "rb_inv rb'" "rb_contents rb' = drop n (rb_contents rb)"
    "p = (if rb_contents rb = [] then None else Some (read_index rb))"
    "0 < n \<Longrightarrow> take n (drop (read_index rb) (pool rb)) = take n (rb_contents rb)"
proof -
  have s: "0 < buffer_size rb" "buffer_size rb < 2 ^ 31" "length (pool rb) = buffer_size rb" "read_index rb < buffer_size rb"
    using inv by (simp_all add: rb_inv_def)
  note le = data_len_le [OF inv]
  have c0: "rb_contents rb = [] \<longleftrightarrow> ringbuffer_data_len rb = 0" by (simp flip: length_0_conv)
  have nv: "n = min (ringbuffer_data_len rb) (buffer_size rb - read_index rb)"
    using r s by (auto simp: ringbuffer_peek_def Let_def split: if_splits)
  then show n: "n \<le> ringbuffer_data_len rb" by simp
  show "p = (if rb_contents rb = [] then None else Some (read_index rb))"
    using r by (auto simp: ringbuffer_peek_def Let_def c0 split: if_splits)
  have "rb_inv rb' \<and> rb_contents rb' = drop n (rb_contents rb)"
  proof (rule rb_drop [OF inv n])
    show "read_index rb' = (read_index rb + n) mod buffer_size rb"
      using r s le by (auto simp: ringbuffer_peek_def Let_def nv split: if_splits)
  qed (use r s nv in \<open>auto simp: ringbuffer_peek_def Let_def split: if_splits\<close>)
  then show "rb_inv rb'" "rb_contents rb' = drop n (rb_contents rb)" by simp_all
  show "take n (drop (read_index rb) (pool rb)) = take n (rb_contents rb)"
    using s le nv by (intro nth_equalityI) (auto simp: nth_rb_contents)
qed

lemma ringbuffer_putchar_contents:
  assumes inv: "rb_inv rb" and r: "ringbuffer_putchar rb ch = (rb', n)"
  shows "n = (if ringbuffer_space_len rb = 0 then 0 else 1)" "rb_inv rb'"
    "rb_contents rb' = rb_contents rb @ (if n = 0 then [] else [ch])" "buffer_size rb' = buffer_size rb"
proof -
  have s: "0 < buffer_size rb" "buffer_size rb < 2 ^ 31" "length (pool rb) = buffer_size rb" "write_index rb < buffer_size rb"
    using inv by (simp_all add: rb_inv_def)
  show n: "n = (if ringbuffer_space_len rb = 0 then 0 else 1)"
    using r by (auto simp: ringbuffer_putchar_def Let_def split: if_splits)
  show "buffer_size rb' = buffer_size rb" using r by (auto simp: ringbuffer_putchar_def Let_def split: if_splits)
  have "rb_inv rb' \<and> rb_contents rb' = rb_contents rb @ (if n = 0 then [] else [ch])"
  proof (cases "ringbuffer_space_len rb = 0")
    case True
    then show ?thesis using r inv n by (simp add: ringbuffer_putchar_def)
  next
    case False
    then have room: "ringbuffer_data_len rb + length [ch] \<le> buffer_size rb" by (simp add: ringbuffer_space_len_def)
    have "rb_inv rb' \<and> rb_contents rb' = rb_contents rb @ [ch]"
    proof (rule rb_append [OF inv room])
      show "write_index rb' = (write_index rb + length [ch]) mod buffer_size rb"
        using r s False by (auto simp: ringbuffer_putchar_def Let_def split: if_splits)
    qed (use r s False in \<open>auto simp: ringbuffer_putchar_def Let_def nth_list_update split: if_splits\<close>)
    then show ?thesis using n False by simp
  qed
  then show "rb_inv rb'" "rb_contents rb' = rb_contents rb @ (if n = 0 then [] else [ch])" by simp_all
qed

lemma ringbuffer_getchar_contents:
  assumes inv: "rb_inv rb" and r: "ringbuffer_getchar rb = (rb', c)"
  shows "rb_inv rb'" "rb_contents rb = (case c of None \<Rightarrow> [] | Some ch \<Rightarrow> [ch]) @ rb_contents rb'"
    "c = None \<longleftrightarrow> rb_contents rb = []"
proof -
  have s: "0 < buffer_size rb" "buffer_size rb < 2 ^ 31" "read_index rb < buffer_size rb" using inv by (simp_all add: rb_inv_def)
  have c0: "rb_contents rb = [] \<longleftrightarrow> ringbuffer_data_len rb = 0" by (simp flip: length_0_conv)
  show c: "c = None \<longleftrightarrow> rb_contents rb = []"
    using r by (auto simp: ringbuffer_getchar_def Let_def c0 split: if_splits)
  have "rb_inv rb' \<and> rb_contents rb = (case c of None \<Rightarrow> [] | Some ch \<Rightarrow> [ch]) @ rb_contents rb'"
  proof (cases "ringbuffer_data_len rb = 0")
    case True
    then show ?thesis using r inv c0 by (auto simp: ringbuffer_getchar_def)
  next
    case False
    then have "rb_contents rb ! 0 = pool rb ! read_index rb" using s by (simp add: nth_rb_contents)
    then have hd: "rb_contents rb = pool rb ! read_index rb # drop 1 (rb_contents rb)"
      using False c0 by (cases "rb_contents rb") auto
    have cv: "c = Some (pool rb ! read_index rb)" using r False by (auto simp: ringbuffer_getchar_def Let_def)
    have n1: "1 \<le> ringbuffer_data_len rb" using False by simp
    have "rb_inv rb' \<and> rb_contents rb' = drop 1 (rb_contents rb)"
    proof (rule rb_drop [OF inv n1])
      show "read_index rb' = (read_index rb + 1) mod buffer_size rb"
        using r s False by (auto simp: ringbuffer_getchar_def Let_def split: if_splits)
    qed (use r s False in \<open>auto simp: ringbuffer_getchar_def Let_def split: if_splits\<close>)
    then show ?thesis using hd cv by simp
  qed
  then show "rb_inv rb'" "rb_contents rb = (case c of None \<Rightarrow> [] | Some ch \<Rightarrow> [ch]) @ rb_contents rb'" by simp_all
qed


text \<open>Writing \<open>xs\<close> over the oldest bytes: as many are given up as the new ones need.\<close>

lemma rb_overwrite:
  fixes rb rb' xs
  defines "k \<equiv> ringbuffer_data_len rb + length xs - buffer_size rb"
  assumes inv: "rb_inv rb" and fits: "length xs \<le> buffer_size rb"
    and pl: "length (pool rb') = buffer_size rb"
      "\<And>j. j < buffer_size rb \<Longrightarrow> pool rb' ! j =
         (let k = (if write_index rb \<le> j then j - write_index rb else j + buffer_size rb - write_index rb)
          in if k < length xs then xs ! k else pool rb ! j)"
    and wi: "write_index rb' = (write_index rb + length xs) mod buffer_size rb"
    and wm: "write_mirror rb' = (if write_index rb + length xs < buffer_size rb then write_mirror rb else \<not> write_mirror rb)"
    and ri: "read_index rb' = (read_index rb + k) mod buffer_size rb"
    and rm: "read_mirror rb' = (if read_index rb + k < buffer_size rb then read_mirror rb else \<not> read_mirror rb)"
    and sz: "buffer_size rb' = buffer_size rb"
  shows "rb_inv rb' \<and> rb_contents rb' = drop k (rb_contents rb) @ xs"
proof -
  define g where "g = rb\<lparr>read_index := (read_index rb + k) mod buffer_size rb,
    read_mirror := (if read_index rb + k < buffer_size rb then read_mirror rb else \<not> read_mirror rb)\<rparr>"
  note le = data_len_le [OF inv]
  have k: "k \<le> ringbuffer_data_len rb" using fits by (simp add: k_def)
  have g: "rb_inv g \<and> rb_contents g = drop k (rb_contents rb)"
    by (rule rb_drop [OF inv k]) (simp_all add: g_def)
  then have "length (rb_contents g) = ringbuffer_data_len rb - k" by simp
  then have "ringbuffer_data_len g = ringbuffer_data_len rb - k" by simp
  then have room: "ringbuffer_data_len g + length xs \<le> buffer_size g"
    using le fits by (simp add: g_def k_def)
  have "rb_inv rb' \<and> rb_contents rb' = rb_contents g @ xs"
    by (rule rb_append [OF conjunct1 [OF g] room]) (use pl wi wm ri rm sz in \<open>simp_all add: g_def Let_def\<close>)
  then show ?thesis using g by simp
qed

text \<open>The read side after a forced write that ran into unread data.\<close>

lemma rb_force_read:
  assumes inv: "rb_inv rb" and fits: "n \<le> buffer_size rb" and over: "ringbuffer_space_len rb < n"
  shows "(read_index rb + (ringbuffer_data_len rb + n - buffer_size rb)) mod buffer_size rb =
      (write_index rb + n) mod buffer_size rb"
    and "(read_index rb + (ringbuffer_data_len rb + n - buffer_size rb) < buffer_size rb) \<longleftrightarrow>
      (if write_index rb + n < buffer_size rb then True else read_index rb < write_index rb + n - buffer_size rb)"
proof -
  note s = rb_inv_shape [OF inv, unfolded rb_shape_def]
  have "read_index rb + (ringbuffer_data_len rb + n - buffer_size rb) + buffer_size rb =
      read_index rb + ringbuffer_data_len rb + n"
    using s over by (simp add: ringbuffer_space_len_def)
  then have "(read_index rb + (ringbuffer_data_len rb + n - buffer_size rb)) mod buffer_size rb =
      (read_index rb + ringbuffer_data_len rb + n) mod buffer_size rb"
    by (metis mod_add_self2)
  then show "(read_index rb + (ringbuffer_data_len rb + n - buffer_size rb)) mod buffer_size rb =
      (write_index rb + n) mod buffer_size rb"
    using s by (simp add: mod_simps)
  show "(read_index rb + (ringbuffer_data_len rb + n - buffer_size rb) < buffer_size rb) \<longleftrightarrow>
      (if write_index rb + n < buffer_size rb then True else read_index rb < write_index rb + n - buffer_size rb)"
    using s over fits by (auto simp: ringbuffer_space_len_def mod_wrap split: if_splits)
qed


lemma ringbuffer_put_force_contents:
  assumes inv: "rb_inv rb" and r: "ringbuffer_put_force rb xs = (rb', n)"
  shows "rb_inv rb' \<and> n = min (length xs) (buffer_size rb) \<and> buffer_size rb' = buffer_size rb \<and>
    rb_contents rb' = drop (ringbuffer_data_len rb + length xs - buffer_size rb) (rb_contents rb @ xs)"
proof -
  define ys where "ys = (if length xs > buffer_size rb then drop (length xs - buffer_size rb) xs else xs)"
  have s: "0 < buffer_size rb" "buffer_size rb < 2 ^ 31" "length (pool rb) = buffer_size rb"
    "write_index rb < buffer_size rb" "read_index rb < buffer_size rb"
    using inv by (simp_all add: rb_inv_def)
  note le = data_len_le [OF inv]
  have ys: "length ys = min (length xs) (buffer_size rb)" "length ys \<le> buffer_size rb" by (auto simp: ys_def)
  note fr = rb_force_read [OF inv ys(2)]
  have nw: "read_index rb = (read_index rb + (ringbuffer_data_len rb + length ys - buffer_size rb)) mod buffer_size rb"
    "read_index rb + (ringbuffer_data_len rb + length ys - buffer_size rb) < buffer_size rb"
    if "\<not> ringbuffer_space_len rb < length ys"
    using that s le by (simp_all add: ringbuffer_space_len_def)
  have "n = length ys \<and> buffer_size rb' = buffer_size rb \<and> (rb_inv rb' \<and>
    rb_contents rb' = drop (ringbuffer_data_len rb + length ys - buffer_size rb) (rb_contents rb) @ ys)"
  proof (cases "buffer_size rb - write_index rb > length ys")
    case True
    then have "idx (write_index rb + length ys) = write_index rb + length ys" using s by simp
    then have rb': "n = length ys" "rb' = rb\<lparr>pool := store_at (pool rb) (write_index rb) ys,
        write_index := write_index rb + length ys,
        read_index := (if length ys > ringbuffer_space_len rb then write_index rb + length ys else read_index rb)\<rparr>"
      using r True by (auto simp: ringbuffer_put_force_def ys_def [symmetric] Let_def)
    have "rb_inv rb' \<and> rb_contents rb' = drop (ringbuffer_data_len rb + length ys - buffer_size rb) (rb_contents rb) @ ys"
    proof (rule rb_overwrite [OF inv ys(2)])
      have "read_index rb + (ringbuffer_data_len rb + length ys - buffer_size rb) < buffer_size rb"
        using fr(2) nw(2) True by (cases "ringbuffer_space_len rb < length ys") simp_all
      then show "read_mirror rb' = (if read_index rb + (ringbuffer_data_len rb + length ys - buffer_size rb) < buffer_size rb
          then read_mirror rb else \<not> read_mirror rb)"
        by (simp add: rb')
    qed (use True s fr nw in \<open>auto simp: rb' nth_store_at Let_def\<close>)
    then show ?thesis using rb' by simp
  next
    case ge: False
    define h where "h = buffer_size rb - write_index rb"
    have hl: "h \<le> length ys" using ge by (simp add: h_def)
    have wx: "write_index rb + length ys - buffer_size rb = length ys - h" "(write_index rb + length ys) mod buffer_size rb = length ys - h"
      using ge s ys(2) by (auto simp: h_def mod_wrap add.commute)
    have "idx (length ys - h) = length ys - h" using s ys(2) by simp
    then have rb': "n = length ys" "rb' = rb\<lparr>pool := store_at (store_at (pool rb) (write_index rb) (take h ys)) 0 (drop h ys),
        write_mirror := \<not> write_mirror rb, write_index := length ys - h,
        read_mirror := (if length ys > ringbuffer_space_len rb \<and> length ys - h \<le> read_index rb then \<not> read_mirror rb else read_mirror rb),
        read_index := (if length ys > ringbuffer_space_len rb then length ys - h else read_index rb)\<rparr>"
      using r ge by (auto simp: ringbuffer_put_force_def ys_def [symmetric] Let_def h_def [symmetric])
    note ws = wrapped_store [of "pool rb" "buffer_size rb" "write_index rb" ys, folded h_def]
    have "rb_inv rb' \<and> rb_contents rb' = drop (ringbuffer_data_len rb + length ys - buffer_size rb) (rb_contents rb) @ ys"
    proof (rule rb_overwrite [OF inv ys(2)])
      show "read_mirror rb' = (if read_index rb + (ringbuffer_data_len rb + length ys - buffer_size rb) < buffer_size rb
          then read_mirror rb else \<not> read_mirror rb)"
        using fr(2) nw(2) wx(1) ge s by (cases "ringbuffer_space_len rb < length ys") (auto simp: rb')
    qed (use ge s ys(2) hl ws fr(1) nw(1) wx in \<open>auto simp: rb'\<close>)
    then show ?thesis using rb' by simp
  qed
  moreover have "drop (ringbuffer_data_len rb + length ys - buffer_size rb) (rb_contents rb) @ ys =
      drop (ringbuffer_data_len rb + length xs - buffer_size rb) (rb_contents rb @ xs)"
    using le by (auto simp: ys_def)
  ultimately show ?thesis using ys(1) by simp
qed


lemma ringbuffer_putchar_force_contents:
  assumes inv: "rb_inv rb" and r: "ringbuffer_putchar_force rb ch = (rb', n)"
  shows "rb_inv rb' \<and> n = 1 \<and> buffer_size rb' = buffer_size rb \<and>
    rb_contents rb' = drop (ringbuffer_data_len rb + 1 - buffer_size rb) (rb_contents rb) @ [ch]"
proof -
  have s: "0 < buffer_size rb" "buffer_size rb < 2 ^ 31" "length (pool rb) = buffer_size rb"
    "write_index rb < buffer_size rb" "read_index rb < buffer_size rb"
    using inv by (simp_all add: rb_inv_def)
  note le = data_len_le [OF inv]
  have full: "ringbuffer_status rb = RB_FULL \<longleftrightarrow> ringbuffer_space_len rb < 1"
    using inv by (auto simp: rb_inv_def ringbuffer_status_def ringbuffer_space_len_def ringbuffer_data_len_def Let_def split: if_splits)
  have one: "length [ch] \<le> buffer_size rb" using s by simp
  have k: "ringbuffer_data_len rb + length [ch] - buffer_size rb = (if ringbuffer_space_len rb < 1 then 1 else 0)"
    using le by (auto simp: ringbuffer_space_len_def)
  then have k': "Suc (ringbuffer_data_len rb) - buffer_size rb = (if ringbuffer_space_len rb < 1 then 1 else 0)" by simp
  have eq: "ringbuffer_space_len rb < 1 \<Longrightarrow> read_index rb = write_index rb"
    using full by (auto simp: ringbuffer_status_def split: if_splits)
  have wi: "write_index rb' = (if write_index rb = buffer_size rb - 1 then 0 else write_index rb + 1)"
    and wm: "write_mirror rb' = (if write_index rb = buffer_size rb - 1 then \<not> write_mirror rb else write_mirror rb)"
    and rm: "read_mirror rb' = (if ringbuffer_space_len rb < 1 \<and> write_index rb = buffer_size rb - 1 then \<not> read_mirror rb else read_mirror rb)"
    and ri: "read_index rb' = (if ringbuffer_space_len rb < 1 then write_index rb' else read_index rb)"
    and pl: "pool rb' = (pool rb)[write_index rb := ch]" and bs: "buffer_size rb' = buffer_size rb" and n: "n = 1"
    using r s by (simp_all add: ringbuffer_putchar_force_def Let_def full split: if_splits) auto
  have w1: "(write_index rb + 1) mod buffer_size rb = write_index rb'" "(write_index rb + 1 < buffer_size rb) = (write_index rb \<noteq> buffer_size rb - 1)"
    using s by (auto simp: wi mod_wrap)
  have "rb_inv rb' \<and> rb_contents rb' = drop (ringbuffer_data_len rb + length [ch] - buffer_size rb) (rb_contents rb) @ [ch]"
    by (rule rb_overwrite [OF inv one]) (use s eq w1 in \<open>auto simp: k' pl ri wm rm bs nth_list_update Let_def\<close>)
  then show ?thesis using n bs by simp
qed


subsection \<open>A ring buffer is a bounded FIFO\<close>

definition rb_putc :: "ringbuffer \<Rightarrow> u8 \<Rightarrow> ringbuffer \<times> bool" where
  "rb_putc rb ch = (case ringbuffer_putchar rb ch of (rb', n) \<Rightarrow> (rb', n \<noteq> 0))"

interpretation rbq: fifo "\<lambda>_. True" rb_inv rb_contents buffer_size rb_putc ringbuffer_getchar
proof
  fix s x s' b r
  show "rb_inv s \<Longrightarrow> length (rb_contents s) \<le> buffer_size s" by (simp add: data_len_le)
  show "rb_inv s \<Longrightarrow> rb_putc s x = (s', b) \<Longrightarrow> rb_inv s' \<and> buffer_size s' = buffer_size s"
    by (auto simp: rb_putc_def split: prod.splits dest: ringbuffer_putchar_contents)
  show "rb_inv s \<Longrightarrow> rb_putc s x = (s', b) \<Longrightarrow> b = (length (rb_contents s) < buffer_size s)"
    by (auto simp: rb_putc_def ringbuffer_space_len_def split: prod.splits if_splits dest: ringbuffer_putchar_contents(1))
  show "rb_inv s \<Longrightarrow> rb_putc s x = (s', b) \<Longrightarrow> rb_contents s' = rb_contents s @ (if b then [x] else [])"
    by (auto simp: rb_putc_def split: prod.splits dest: ringbuffer_putchar_contents(3))
  show "rb_inv s \<Longrightarrow> ringbuffer_getchar s = (s', r) \<Longrightarrow> rb_inv s' \<and> buffer_size s' = buffer_size s"
    by (auto dest: ringbuffer_getchar_contents(1) simp: ringbuffer_getchar_def Let_def split: if_splits)
  show "rb_inv s \<Longrightarrow> ringbuffer_getchar s = (s', r) \<Longrightarrow>
      rb_contents s = (case r of None \<Rightarrow> [] | Some x \<Rightarrow> [x]) @ rb_contents s'"
    by (rule ringbuffer_getchar_contents(2))
  show "rb_inv s \<Longrightarrow> ringbuffer_getchar s = (s', r) \<Longrightarrow> (r = None) = (rb_contents s = [])"
    by (rule ringbuffer_getchar_contents(3))
qed


lemma rb_contents_Nil: "rb_contents rb = [] \<longleftrightarrow> ringbuffer_data_len rb = 0"
  by (simp flip: length_0_conv)

lemma rb_fresh_inv:
  assumes "8 \<le> sz" "sz < 2 ^ 31" "length pl = sz div 8 * 8"
  shows "rb_inv (rb_fresh pl sz)" "rb_contents (rb_fresh pl sz) = []"
proof -
  have "0 < sz div 8" "sz div 8 * 8 < 2 ^ 31" using assms by auto
  then show "rb_inv (rb_fresh pl sz)"
    using assms by (simp add: rb_inv_def rb_fresh_def)
  show "rb_contents (rb_fresh pl sz) = []"
    by (simp add: rb_contents_Nil rb_fresh_def ringbuffer_data_len_def ringbuffer_status_def)
qed

lemma ringbuffer_reset_inv:
  "rb_inv rb \<Longrightarrow> rb_inv (ringbuffer_reset rb) \<and> rb_contents (ringbuffer_reset rb) = []"
  by (auto simp: rb_inv_def ringbuffer_reset_def rb_contents_Nil ringbuffer_data_len_def ringbuffer_status_def)


subsection \<open>Properties\<close>

text \<open>
  C36: For any interleaving of \<open>rt_ringbuffer_putchar\<close> and \<open>rt_ringbuffer_getchar\<close> on a well-formed
  buffer, what was stored at the start followed by the accepted bytes is what was delivered followed
  by what is stored at the end: no byte is lost, repeated or reordered, and the buffer never holds
  more than its size.
\<close>
theorem ringbuffer_fifo:
  assumes "rb_inv rb" "fifo_run rb_putc ringbuffer_getchar rb ops = (rb', accepted, delivered)"
  shows "rb_contents rb @ accepted = delivered @ rb_contents rb' \<and> rb_inv rb' \<and>
    length (rb_contents rb') \<le> buffer_size rb"
  using rbq.run_order [OF assms(1) TrueI assms(2)] rbq.run_inv [OF assms(1) TrueI assms(2)] rbq.run_bounded [OF assms(1) TrueI assms(2)]
  by simp

theorem ringbuffer_fifo_witness:
  "\<exists>rb' acc del. fifo_run rb_putc ringbuffer_getchar (rb_fresh (replicate 8 0) 8)
      [Enq 5, Enq 6, Deq, Enq 7, Deq] = (rb', acc, del) \<and> acc = del @ rb_contents rb' \<and> length (rb_contents rb') \<le> 8"
proof -
  obtain rb' acc del where r: "fifo_run rb_putc ringbuffer_getchar (rb_fresh (replicate 8 0) 8)
      [Enq 5, Enq 6, Deq, Enq 7, Deq] = (rb', acc, del)" by (metis prod_cases3)
  have i: "rb_inv (rb_fresh (replicate 8 0) 8)" "rb_contents (rb_fresh (replicate 8 0) 8) = []"
    by (rule rb_fresh_inv; simp)+
  have "buffer_size (rb_fresh (replicate 8 0) 8) = 8" by (simp add: rb_fresh_def)
  then show ?thesis using ringbuffer_fifo [OF i(1) r] i(2) r by simp
qed

text \<open>
  \<open>rt_ringbuffer_put\<close> stores as many bytes as fit behind the contents and reports that number;
  \<open>rt_ringbuffer_get\<close> then returns the oldest bytes in order and removes them, across the wrap of
  the pool and its mirror bits.
\<close>
theorem ringbuffer_put_get:
  assumes "rb_inv rb" "ringbuffer_put rb xs = (rb1, n)" "ringbuffer_get rb1 m = (rb2, ys)"
  shows "n = min (length xs) (buffer_size rb - length (rb_contents rb)) \<and>
    ys = take m (rb_contents rb @ take n xs) \<and> rb_contents rb2 = drop m (rb_contents rb @ take n xs)"
  using ringbuffer_put_contents [OF assms(1,2)] ringbuffer_get_contents [OF _ assms(3)]
  by (simp add: ringbuffer_space_len_def)

theorem ringbuffer_put_get_witness:
  "\<exists>rb1 rb2 n ys. ringbuffer_put (rb_fresh (replicate 8 0) 8) [1, 2, 3] = (rb1, n) \<and>
     ringbuffer_get rb1 2 = (rb2, ys) \<and> ys = [1, 2] \<and> rb_contents rb2 = [3]"
proof -
  obtain rb1 n rb2 ys where r: "ringbuffer_put (rb_fresh (replicate 8 0) 8) [1, 2, 3] = (rb1, n)"
    "ringbuffer_get rb1 2 = (rb2, ys)" by (metis surj_pair)
  have i: "rb_inv (rb_fresh (replicate 8 0) 8)" "rb_contents (rb_fresh (replicate 8 0) 8) = []"
    by (rule rb_fresh_inv; simp)+
  have "buffer_size (rb_fresh (replicate 8 0) 8) = 8" by (simp add: rb_fresh_def)
  then show ?thesis using ringbuffer_put_get [OF i(1) r] i(2) r by simp
qed

text \<open>
  The forced writes \<open>rt_ringbuffer_put_force\<close> and \<open>rt_ringbuffer_putchar_force\<close> never refuse data:
  afterwards the buffer holds the newest bytes of its old contents followed by the written ones,
  as many as its size allows, and it is well formed.
\<close>
theorem ringbuffer_force_keeps_newest:
  assumes "rb_inv rb" "ringbuffer_put_force rb xs = (rb1, n)" "ringbuffer_putchar_force rb ch = (rb2, m)"
  shows "rb_inv rb1 \<and> rb_inv rb2 \<and>
    rb_contents rb1 = drop (length (rb_contents rb @ xs) - buffer_size rb) (rb_contents rb @ xs) \<and>
    rb_contents rb2 = drop (length (rb_contents rb @ [ch]) - buffer_size rb) (rb_contents rb @ [ch])"
  using ringbuffer_put_force_contents [OF assms(1,2)] ringbuffer_putchar_force_contents [OF assms(1,3)]
    data_len_le [OF assms(1)] assms(1)
  by (auto simp: rb_inv_def)

theorem ringbuffer_force_keeps_newest_witness:
  "\<exists>rb1 n rb2 m. ringbuffer_put_force (rb_fresh (replicate 8 0) 8) [1, 2, 3, 4, 5, 6, 7, 8, 9, 10] = (rb1, n) \<and>
     ringbuffer_putchar_force (rb_fresh (replicate 8 0) 8) 1 = (rb2, m) \<and>
     rb_contents rb1 = [3, 4, 5, 6, 7, 8, 9, 10] \<and> rb_contents rb2 = [1]"
proof -
  obtain rb1 n rb2 m where r:
    "ringbuffer_put_force (rb_fresh (replicate 8 0) 8) [1, 2, 3, 4, 5, 6, 7, 8, 9, 10] = (rb1, n)"
    "ringbuffer_putchar_force (rb_fresh (replicate 8 0) 8) 1 = (rb2, m)" by (metis surj_pair)
  have i: "rb_inv (rb_fresh (replicate 8 0) 8)" "rb_contents (rb_fresh (replicate 8 0) 8) = []"
    by (rule rb_fresh_inv; simp)+
  have "buffer_size (rb_fresh (replicate 8 0) 8) = 8" by (simp add: rb_fresh_def)
  then show ?thesis using ringbuffer_force_keeps_newest [OF i(1) r] i(2) r by simp
qed

end
