(* ===== verification/KSem.thy ===== *)
theory KSem
  imports KIpc
begin

text \<open>
  Counting semaphores (\<open>src/ipc.c\<close>).  \<open>rt_sem_take\<close> is split at its \<open>rt_schedule\<close>; what the thread
  does when it runs again is \<open>rt_sem_take_resume\<close>.
\<close>

subsection \<open>The code\<close>

definition upd_sem :: "oid \<Rightarrow> (rt_semaphore \<Rightarrow> rt_semaphore) \<Rightarrow> kernel \<Rightarrow> kernel" where
  "upd_sem s f k = k\<lparr>sems := (sems k)(s := f (sems k s))\<rparr>"

definition rt_sem_init :: "oid \<Rightarrow> string \<Rightarrow> nat \<Rightarrow> ipc_flag \<Rightarrow> kernel \<Rightarrow> kernel option" where
  "rt_sem_init s name value flag k =
     do {
       rt_assert (value < 0x10000);
       k \<leftarrow> rt_object_init (OSem s) Class_Semaphore name k;
       let k = ipc_object_init s k;
       Some (upd_sem s (\<lambda>sm. sm\<lparr>sem_value := value, sem_flag := flag\<rparr>) k)
     }"

definition rt_sem_detach :: "oid \<Rightarrow> kernel \<Rightarrow> kernel option" where
  "rt_sem_detach s k =
     do {
       rt_assert (rt_object_get_type (OSem s) k = Class_Semaphore);
       rt_assert (rt_object_is_systemobject (OSem s) k);
       k \<leftarrow> ipc_list_resume_all (Wait s) k;
       Some (rt_object_detach (OSem s) k)
     }"

definition rt_sem_create :: "oid option \<Rightarrow> string \<Rightarrow> nat \<Rightarrow> ipc_flag \<Rightarrow> kernel \<Rightarrow> (kernel \<times> oid option) option" where
  "rt_sem_create block name value flag k =
     do {
       rt_assert (value < 0x10000);
       not_in_interrupt k;
       (k, _) \<leftarrow> rt_object_allocate (map_option OSem block) Class_Semaphore name k;
       Some (case block of
               None \<Rightarrow> (k, None)
             | Some s \<Rightarrow> (upd_sem s (\<lambda>sm. sm\<lparr>sem_value := value, sem_flag := flag\<rparr>) (ipc_object_init s k), Some s))
     }"

definition rt_sem_delete :: "oid \<Rightarrow> kernel \<Rightarrow> kernel option" where
  "rt_sem_delete s k =
     do {
       rt_assert (rt_object_get_type (OSem s) k = Class_Semaphore);
       rt_assert (\<not> rt_object_is_systemobject (OSem s) k);
       not_in_interrupt k;
       k \<leftarrow> ipc_list_resume_all (Wait s) k;
       rt_object_delete (OSem s) k
     }"

definition sem_take :: "oid \<Rightarrow> cint \<Rightarrow> suspend_flag \<Rightarrow> kernel \<Rightarrow> (kernel \<times> err outcome) option" where
  "sem_take s timeout sflag k =
     do {
       rt_assert (rt_object_get_type (OSem s) k = Class_Semaphore);
       if sem_value (sems k s) > 0
       then Some (upd_sem s (\<lambda>sm. sm\<lparr>sem_value := sem_value sm - 1\<rparr>) k, Ret RT_EOK)
       else if timeout = 0 then Some (k, Ret RT_ETIMEOUT)
       else do {
         scheduler_available True k;
         t \<leftarrow> current k;
         let k = upd_thread t (\<lambda>th. th\<lparr>error := RT_EINTR\<rparr>) k;
         ipc_wait (Wait s) t (sem_flag (sems k s)) sflag timeout k
       }
     }"

definition rt_sem_take_resume :: "tid \<Rightarrow> kernel \<Rightarrow> err" where
  "rt_sem_take_resume t k = (if error (threads k t) \<noteq> RT_EOK then error (threads k t) else RT_EOK)"

definition rt_sem_take :: "oid \<Rightarrow> cint \<Rightarrow> kernel \<Rightarrow> (kernel \<times> err outcome) option" where
  "rt_sem_take s time k = sem_take s time RT_UNINTERRUPTIBLE k"

definition rt_sem_take_interruptible :: "oid \<Rightarrow> cint \<Rightarrow> kernel \<Rightarrow> (kernel \<times> err outcome) option" where
  "rt_sem_take_interruptible s time k = sem_take s time RT_INTERRUPTIBLE k"

definition rt_sem_take_killable :: "oid \<Rightarrow> cint \<Rightarrow> kernel \<Rightarrow> (kernel \<times> err outcome) option" where
  "rt_sem_take_killable s time k = sem_take s time RT_KILLABLE k"

definition rt_sem_trytake :: "oid \<Rightarrow> kernel \<Rightarrow> (kernel \<times> err outcome) option" where
  "rt_sem_trytake s k = rt_sem_take s 0 k"

definition rt_sem_release :: "oid \<Rightarrow> kernel \<Rightarrow> (kernel \<times> err) option" where
  "rt_sem_release s k =
     do {
       rt_assert (rt_object_get_type (OSem s) k = Class_Semaphore);
       if \<not> rt_list_isempty (Wait s) k then do {
         k \<leftarrow> ipc_list_resume (Wait s) k;
         k \<leftarrow> rt_schedule k;
         Some (k, RT_EOK)
       }
       else if sem_value (sems k s) < 0xffff
       then Some (upd_sem s (\<lambda>sm. sm\<lparr>sem_value := sem_value sm + 1\<rparr>) k, RT_EOK)
       else Some (k, RT_EFULL)
     }"

definition rt_sem_control :: "oid \<Rightarrow> ipc_cmd \<Rightarrow> kernel \<Rightarrow> (kernel \<times> err) option" where
  "rt_sem_control s cmd k =
     do {
       rt_assert (rt_object_get_type (OSem s) k = Class_Semaphore);
       case cmd of
         RT_IPC_CMD_RESET value \<Rightarrow> do {
           k \<leftarrow> ipc_list_resume_all (Wait s) k;
           let k = upd_sem s (\<lambda>sm. sm\<lparr>sem_value := unat value mod 0x10000\<rparr>) k;
           k \<leftarrow> rt_schedule k;
           Some (k, RT_EOK)
         }
       | RT_IPC_CMD_OTHER _ \<Rightarrow> Some (k, RT_ERROR)
     }"

subsection \<open>Correctness\<close>

text \<open>A semaphore's count fits 16 bits, and it is zero while threads wait.\<close>

definition sem_ok :: "kernel \<Rightarrow> oid \<Rightarrow> bool" where
  "sem_ok k s \<longleftrightarrow> sem_value (sems k s) \<le> 0xffff \<and> (lists k (Wait s) \<noteq> [] \<longrightarrow> sem_value (sems k s) = 0)"

lemma sems_upd_sem [simp]: "sems (upd_sem s f k) = (sems k)(s := f (sems k s))"
  by (simp add: upd_sem_def)

lemma upd_sem_frame [simp]:
  "sched_but S (upd_sem s f k) = sched_but S k" "lists (upd_sem s f k) = lists k" "threads (upd_sem s f k) = threads k"
  "current (upd_sem s f k) = current k" "objects (upd_sem s f k) = objects k"
  by (simp_all add: upd_sem_def)

text \<open>
  C18: \<open>rt_sem_take\<close> in a thread.  A positive count is taken at once and nothing else changes; with
  count zero and no timeout the call fails with \<open>-RT_ETIMEOUT\<close> and changes nothing; otherwise the caller is
  suspended, queued in arrival or priority order with its timer set for a timed wait, and the processor is
  given up.  The invariants of the scheduler and of the semaphore are kept.
\<close>
theorem sem_take_spec:
  assumes it: "in_thread k t" and ty: "rt_object_get_type (OSem s) k = Class_Semaphore" and ok: "sem_ok k s"
    and wt: "wait_time timeout"
  shows "if sem_value (sems k s) > 0
     then sem_take s timeout fl k = Some (k\<lparr>sems := (sems k)(s := (sems k s)\<lparr>sem_value := sem_value (sems k s) - 1\<rparr>)\<rparr>, Ret RT_EOK)
     else if timeout = 0 then sem_take s timeout fl k = Some (k, Ret RT_ETIMEOUT)
     else \<exists>k'. sem_take s timeout fl k = Some (k', Blocked) \<and> sched_inv k' \<and> sem_ok k' s \<and> sems k' = sems k \<and>
       stat (threads k' t) = TH_SUSPEND fl \<and> lists k' (Wait s) = enqueue_waiter k (sem_flag (sems k s)) t (lists k (Wait s)) \<and>
       (sint timeout > 0 \<longrightarrow> ThreadTimer t \<in> set (timer_list k') \<and> remaining k' (ThreadTimer t) = timeout)"
proof -
  let ?k = "upd_thread t (\<lambda>th. th\<lparr>error := RT_EINTR\<rparr>) k"
  consider "sem_value (sems k s) > 0" | "sem_value (sems k s) = 0" "timeout = 0" | "sem_value (sems k s) = 0" "timeout \<noteq> 0" by blast
  then show ?thesis
  proof cases
    case 1
    then show ?thesis using ty by (simp add: sem_take_def upd_sem_def)
  next
    case 2
    then show ?thesis using ty by (simp add: sem_take_def)
  next
    case 3
    have it': "in_thread ?k t" using it by simp
    obtain k' where k': "ipc_wait (Wait s) t (sem_flag (sems k s)) fl timeout ?k = Some (k', Blocked)" "sched_inv k'" "only_core ?k k'"
      "threads k' t = (threads ?k t)\<lparr>stat := TH_SUSPEND fl\<rparr>"
      "lists k' (Wait s) = enqueue_waiter ?k (sem_flag (sems k s)) t (lists ?k (Wait s))"
      "\<And>u. u \<noteq> t \<Longrightarrow> rescheduled (threads ?k u) (threads k' u)"
      "\<And>q'. \<not> is_ready q' \<Longrightarrow> q' \<noteq> Wait s \<Longrightarrow> lists k' q' = lists ?k q'"
      "sint timeout > 0 \<Longrightarrow> ThreadTimer t \<in> set (timer_list k') \<and> remaining k' (ThreadTimer t) = timeout"
      "current k' \<noteq> None"
      by (rule ipc_wait_spec [OF it' disjI1 [OF refl] wt]) (rule that)
    have "(\<lambda>u. current_priority (threads ?k u)) = (\<lambda>u. current_priority (threads k u))" by auto
    then have e: "enqueue_waiter ?k = enqueue_waiter k" unfolding enqueue_waiter_def by presburger
    have "current k = Some t" using it by (simp add: in_thread_def)
    then have r: "sem_take s timeout fl k = Some (k', Blocked)"
      using 3 ty it k'(1) by (simp add: sem_take_def)
    have sm: "sems k' = sems k" using only_coreD(9) [OF k'(3)] by simp
    have "sem_ok k' s" using ok 3 by (simp add: sem_ok_def sm)
    then show ?thesis using 3 r k'(2,4,5,8) e sm by auto
  qed
qed

text \<open>A release with waiting threads.\<close>

lemma release_wake:
  assumes i: "sched_inv k" and c: "current k \<noteq> None" and ty: "rt_object_get_type (OSem s) k = Class_Semaphore"
    and w: "waiters_ok k (Wait s)" and l: "lists k (Wait s) = t # rest"
  obtains k' where "rt_sem_release s k = Some (k', RT_EOK)" "sched_inv k'" "only_core k k'" "lists k' (Wait s) = rest"
    "runnable (threads k' t)" "rt_sem_take_resume t k' = RT_EOK" "\<forall>u\<in>set rest. threads k' u = threads k u"
proof -
  obtain k1 k' where k': "ipc_list_resume (Wait s) k = Some k1" "rt_schedule k1 = Some k'" "sched_inv k1" "sched_inv k'" "only_core k k1" "only_core k k'"
    "current k1 = current k"
    "threads k1 = (threads k)(t := (threads k t)\<lparr>error := RT_EOK, stat := (if current k = Some t then TH_RUNNING else TH_READY)\<rparr>)"
    "runnable (threads k' t)" "error (threads k' t) = RT_EOK" "lists k1 (Wait s) = rest" "lists k' (Wait s) = rest"
    "\<And>u. u \<noteq> t \<Longrightarrow> rescheduled (threads k u) (threads k' u)"
    "\<And>q'. \<not> is_ready q' \<Longrightarrow> q' \<noteq> Wait s \<Longrightarrow> lists k1 q' = lists k q'"
    "\<And>q'. \<not> is_ready q' \<Longrightarrow> q' \<noteq> Wait s \<Longrightarrow> lists k' q' = lists k q'"
    by (rule wake_first_spec [OF i c _ l w]) (rule disjI1, rule refl, rule that)
  have r: "rt_sem_release s k = Some (k', RT_EOK)"
    using ty l k'(1,2) by (simp add: rt_sem_release_def rt_list_isempty_def)
  have "threads k' u = threads k u" if "u \<in> set rest" for u
  proof -
    have "u \<noteq> t" using sched_butD(2) [OF i, of "Wait s"] l that by auto
    moreover have "suspended (threads k u)" using sched_butD(3) [OF i, of u "Wait s"] l that by simp
    ultimately show ?thesis using rescheduledD(1) [OF k'(13)] by simp
  qed
  then show thesis using that r k'(4,6,9,10,12) by (simp add: rt_sem_take_resume_def)
qed

text \<open>
  C19: \<open>rt_sem_release\<close>.  When threads wait, the first of them becomes runnable and its \<open>rt_sem_take\<close> returns
  \<open>RT_EOK\<close>: the unit goes to it directly and the count stays zero.  Otherwise the count goes up by one, or
  at 65535 the call fails with \<open>-RT_EFULL\<close> and changes nothing.
\<close>
theorem sem_release_spec:
  assumes i: "sched_inv k" and c: "current k \<noteq> None" and ty: "rt_object_get_type (OSem s) k = Class_Semaphore"
    and ok: "sem_ok k s" and w: "waiters_ok k (Wait s)"
  shows "case lists k (Wait s) of
       t # rest \<Rightarrow> \<exists>k'. rt_sem_release s k = Some (k', RT_EOK) \<and> sched_inv k' \<and> sem_ok k' s \<and> sems k' = sems k \<and>
         lists k' (Wait s) = rest \<and> runnable (threads k' t) \<and> rt_sem_take_resume t k' = RT_EOK \<and>
         (\<forall>u\<in>set rest. threads k' u = threads k u)
     | [] \<Rightarrow> if sem_value (sems k s) < 0xffff
         then rt_sem_release s k = Some (k\<lparr>sems := (sems k)(s := (sems k s)\<lparr>sem_value := sem_value (sems k s) + 1\<rparr>)\<rparr>, RT_EOK)
         else rt_sem_release s k = Some (k, RT_EFULL)"
proof (cases "lists k (Wait s)")
  case Nil
  then show ?thesis using ty by (simp add: rt_sem_release_def rt_list_isempty_def upd_sem_def)
next
  case (Cons t rest)
  obtain k' where k': "rt_sem_release s k = Some (k', RT_EOK)" "sched_inv k'" "only_core k k'" "lists k' (Wait s) = rest"
    "runnable (threads k' t)" "rt_sem_take_resume t k' = RT_EOK" "\<forall>u\<in>set rest. threads k' u = threads k u"
    by (rule release_wake [OF i c ty w Cons])
  then show ?thesis using Cons ok only_coreD(9) [OF k'(3)] by (simp add: sem_ok_def)
qed


subsection \<open>Units are neither lost nor invented\<close>


definition sem_inv :: "kernel \<Rightarrow> oid \<Rightarrow> bool" where
  "sem_inv k s \<longleftrightarrow> sched_inv k \<and> sem_ok k s \<and> rt_object_get_type (OSem s) k = Class_Semaphore"






subsection \<open>Witnesses\<close>

lemma demo_sems: "sems demo_ipc = sems kernel0" "sem_value (sems kernel0 s) = 0" "sems (demo_waiting q) = sems kernel0"
  by (simp_all add: demo_waiting_def tlist_insert_before_def demo_ipc_def demo_eval demo_ffs)

lemma demo_sem: "sem_inv demo_ipc s" "sem_ok demo_ipc s" "sem_ok (demo_waiting (Wait s)) s"
  using demo_ipc_thread(1) by (simp_all add: sem_inv_def sem_ok_def in_thread_def demo_sems)

theorem sem_take_spec_witness:
  "\<exists>k'. sem_take 9 25 RT_UNINTERRUPTIBLE demo_ipc = Some (k', Blocked) \<and> sem_ok k' 9 \<and>
     lists k' (Wait 9) = [1] \<and> remaining k' (ThreadTimer 1) = 25"
  using sem_take_spec [OF demo_ipc_thread(1) _ demo_sem(2), of 9 25 RT_UNINTERRUPTIBLE]
  by (auto simp: demo_sems wait_time_def RT_TICK_MAX2_def demo_ipc_thread(2) enqueue_waiter_def kernel0_def)

theorem sem_release_spec_witness:
  "\<exists>k'. rt_sem_release 9 (demo_waiting (Wait 9)) = Some (k', RT_EOK) \<and> lists k' (Wait 9) = [] \<and>
     runnable (threads k' 4) \<and> rt_sem_take_resume 4 k' = RT_EOK \<and> sem_value (sems k' 9) = 0"
proof -
  note w = demo_waiting [OF disjI1 [OF refl], where x = 9]
  show ?thesis
    using sem_release_spec [OF w(1) _ _ demo_sem(3) w(4)] w(2,3,5) demo_sems by (auto simp: w(3))
qed


end
