(* ===== verification/KMailbox.thy ===== *)
theory KMailbox
  imports KIpc Fifo
begin

text \<open>
  Mailboxes (\<open>src/ipc.c\<close>): a ring of machine words with threads waiting to receive and threads
  waiting to send.  A call that blocks is split at its \<open>rt_schedule\<close>; what the thread does when it runs
  again is the function named \<open>..._resume\<close>, which repeats the loop with the time that is left.
\<close>

subsection \<open>The code\<close>

definition upd_mb :: "oid \<Rightarrow> (rt_mailbox \<Rightarrow> rt_mailbox) \<Rightarrow> kernel \<Rightarrow> kernel" where
  "upd_mb m f k = k\<lparr>mailboxes := (mailboxes k)(m := f (mailboxes k m))\<rparr>"

text \<open>The initial values of the fields; the pool belongs to the caller or to the heap.\<close>

definition mb_setup :: "oid \<Rightarrow> u32 list \<Rightarrow> nat \<Rightarrow> ipc_flag \<Rightarrow> kernel \<Rightarrow> kernel" where
  "mb_setup m pool sz flag k =
     (let k = upd_mb m (\<lambda>_. \<lparr>mb_flag = flag, msg_pool = pool, mb_size = sz mod 0x10000, mb_entry = 0, in_offset = 0,
        out_offset = 0\<rparr>) (ipc_object_init m k)
      in k\<lparr>lists := (lists k)(WaitSend m := [])\<rparr>)"

definition rt_mb_init :: "oid \<Rightarrow> string \<Rightarrow> u32 list \<Rightarrow> nat \<Rightarrow> ipc_flag \<Rightarrow> kernel \<Rightarrow> kernel option" where
  "rt_mb_init m name pool sz flag k =
     do {
       k \<leftarrow> rt_object_init (OMailBox m) Class_MailBox name k;
       Some (mb_setup m pool sz flag k)
     }"

definition rt_mb_detach :: "oid \<Rightarrow> kernel \<Rightarrow> kernel option" where
  "rt_mb_detach m k =
     do {
       rt_assert (rt_object_get_type (OMailBox m) k = Class_MailBox);
       rt_assert (rt_object_is_systemobject (OMailBox m) k);
       k \<leftarrow> ipc_list_resume_all (Wait m) k;
       k \<leftarrow> ipc_list_resume_all (WaitSend m) k;
       Some (rt_object_detach (OMailBox m) k)
     }"

text \<open>\<open>block\<close> and \<open>pool\<close> are what the heap returns for the object and for the pool.\<close>

definition rt_mb_create ::
  "oid option \<Rightarrow> u32 list option \<Rightarrow> string \<Rightarrow> nat \<Rightarrow> ipc_flag \<Rightarrow> kernel \<Rightarrow> (kernel \<times> oid option) option" where
  "rt_mb_create block pool name sz flag k =
     do {
       not_in_interrupt k;
       (k, _) \<leftarrow> rt_object_allocate (map_option OMailBox block) Class_MailBox name k;
       case block of
         None \<Rightarrow> Some (k, None)
       | Some m \<Rightarrow>
           (case pool of
              None \<Rightarrow> do { k \<leftarrow> rt_object_delete (OMailBox m) (ipc_object_init m k); Some (k, None) }
            | Some p \<Rightarrow> Some (mb_setup m p sz flag k, Some m))
     }"

definition rt_mb_delete :: "oid \<Rightarrow> kernel \<Rightarrow> kernel option" where
  "rt_mb_delete m k =
     do {
       rt_assert (rt_object_get_type (OMailBox m) k = Class_MailBox);
       rt_assert (\<not> rt_object_is_systemobject (OMailBox m) k);
       not_in_interrupt k;
       k \<leftarrow> ipc_list_resume_all (Wait m) k;
       k \<leftarrow> ipc_list_resume_all (WaitSend m) k;
       rt_object_delete (OMailBox m) k
     }"

text \<open>Storing at the input offset, taking from the output offset, and storing in front of it; offsets
  and counts are 16 bits wide.\<close>

definition mb_store :: "u32 \<Rightarrow> rt_mailbox \<Rightarrow> rt_mailbox" where
  "mb_store v mb =
     (let i = (in_offset mb + 1) mod 0x10000
      in mb\<lparr>msg_pool := (msg_pool mb)[in_offset mb := v], in_offset := (if i \<ge> mb_size mb then 0 else i)\<rparr>)"

definition mb_fetch :: "rt_mailbox \<Rightarrow> rt_mailbox \<times> u32" where
  "mb_fetch mb =
     (let v = msg_pool mb ! out_offset mb;
          i = (out_offset mb + 1) mod 0x10000;
          mb = mb\<lparr>out_offset := (if i \<ge> mb_size mb then 0 else i)\<rparr>
      in (if mb_entry mb > 0 then mb\<lparr>mb_entry := mb_entry mb - 1\<rparr> else mb, v))"

definition mb_store_front :: "u32 \<Rightarrow> rt_mailbox \<Rightarrow> rt_mailbox" where
  "mb_store_front v mb =
     (let i = (if out_offset mb > 0 then out_offset mb - 1 else mb_size mb - 1)
      in mb\<lparr>out_offset := i, msg_pool := (msg_pool mb)[i := v], mb_entry := (mb_entry mb + 1) mod 0x10000\<rparr>)"

definition mb_send_loop :: "oid \<Rightarrow> u32 \<Rightarrow> cint \<Rightarrow> suspend_flag \<Rightarrow> tid option \<Rightarrow> kernel \<Rightarrow> (kernel \<times> err outcome) option" where
  "mb_send_loop m v timeout sflag thread k =
     (if mb_entry (mailboxes k m) = mb_size (mailboxes k m) then do {
        t \<leftarrow> thread;
        let k = upd_thread t (\<lambda>th. th\<lparr>error := RT_EINTR\<rparr>) k;
        if timeout = 0 then Some (k, Ret RT_EFULL)
        else ipc_wait (WaitSend m) t (mb_flag (mailboxes k m)) sflag timeout k
      }
      else do {
        let k = upd_mb m (mb_store v) k;
        if mb_entry (mailboxes k m) < 0xffff
        then wake_other (Wait m) RT_EOK (upd_mb m (\<lambda>mb. mb\<lparr>mb_entry := mb_entry mb + 1\<rparr>) k)
        else Some (k, Ret RT_EFULL)
      })"

definition mb_send_wait :: "oid \<Rightarrow> u32 \<Rightarrow> cint \<Rightarrow> suspend_flag \<Rightarrow> kernel \<Rightarrow> (kernel \<times> err outcome) option" where
  "mb_send_wait m v timeout sflag k =
     do {
       rt_assert (rt_object_get_type (OMailBox m) k = Class_MailBox);
       scheduler_available (timeout \<noteq> 0) k;
       if mb_entry (mailboxes k m) = mb_size (mailboxes k m) \<and> timeout = 0 then Some (k, Ret RT_EFULL)
       else mb_send_loop m v timeout sflag (current k) k
     }"

definition mb_send_resume ::
  "oid \<Rightarrow> u32 \<Rightarrow> cint \<Rightarrow> suspend_flag \<Rightarrow> tid \<Rightarrow> u32 \<Rightarrow> kernel \<Rightarrow> (kernel \<times> err outcome) option" where
  "mb_send_resume m v timeout sflag t start k =
     (if error (threads k t) \<noteq> RT_EOK then Some (k, Ret (error (threads k t)))
      else mb_send_loop m v (time_left timeout start k) sflag (Some t) k)"

definition rt_mb_send_wait :: "oid \<Rightarrow> u32 \<Rightarrow> cint \<Rightarrow> kernel \<Rightarrow> (kernel \<times> err outcome) option" where
  "rt_mb_send_wait m v timeout k = mb_send_wait m v timeout RT_UNINTERRUPTIBLE k"

definition rt_mb_send_wait_interruptible :: "oid \<Rightarrow> u32 \<Rightarrow> cint \<Rightarrow> kernel \<Rightarrow> (kernel \<times> err outcome) option" where
  "rt_mb_send_wait_interruptible m v timeout k = mb_send_wait m v timeout RT_INTERRUPTIBLE k"

definition rt_mb_send_wait_killable :: "oid \<Rightarrow> u32 \<Rightarrow> cint \<Rightarrow> kernel \<Rightarrow> (kernel \<times> err outcome) option" where
  "rt_mb_send_wait_killable m v timeout k = mb_send_wait m v timeout RT_KILLABLE k"

definition rt_mb_send :: "oid \<Rightarrow> u32 \<Rightarrow> kernel \<Rightarrow> (kernel \<times> err outcome) option" where
  "rt_mb_send m v k = rt_mb_send_wait m v 0 k"

definition rt_mb_send_interruptible :: "oid \<Rightarrow> u32 \<Rightarrow> kernel \<Rightarrow> (kernel \<times> err outcome) option" where
  "rt_mb_send_interruptible m v k = rt_mb_send_wait_interruptible m v 0 k"

definition rt_mb_send_killable :: "oid \<Rightarrow> u32 \<Rightarrow> kernel \<Rightarrow> (kernel \<times> err outcome) option" where
  "rt_mb_send_killable m v k = rt_mb_send_wait_killable m v 0 k"

definition rt_mb_urgent :: "oid \<Rightarrow> u32 \<Rightarrow> kernel \<Rightarrow> (kernel \<times> err outcome) option" where
  "rt_mb_urgent m v k =
     do {
       rt_assert (rt_object_get_type (OMailBox m) k = Class_MailBox);
       if mb_entry (mailboxes k m) = mb_size (mailboxes k m) then Some (k, Ret RT_EFULL)
       else wake_other (Wait m) RT_EOK (upd_mb m (mb_store_front v) k)
     }"

definition mb_recv_loop ::
  "oid \<Rightarrow> cint \<Rightarrow> suspend_flag \<Rightarrow> tid option \<Rightarrow> kernel \<Rightarrow> (kernel \<times> (err \<times> u32 option) outcome) option" where
  "mb_recv_loop m timeout sflag thread k =
     (if mb_entry (mailboxes k m) = 0 then do {
        t \<leftarrow> thread;
        let k = upd_thread t (\<lambda>th. th\<lparr>error := RT_EINTR\<rparr>) k;
        if timeout = 0 then Some (upd_thread t (\<lambda>th. th\<lparr>error := RT_ETIMEOUT\<rparr>) k, Ret (RT_ETIMEOUT, None))
        else map_option failed (ipc_wait (Wait m) t (mb_flag (mailboxes k m)) sflag timeout k)
      }
      else
        let (mb, v) = mb_fetch (mailboxes k m)
        in wake_other (WaitSend m) (RT_EOK, Some v) (upd_mb m (\<lambda>_. mb) k))"

definition mb_recv :: "oid \<Rightarrow> cint \<Rightarrow> suspend_flag \<Rightarrow> kernel \<Rightarrow> (kernel \<times> (err \<times> u32 option) outcome) option" where
  "mb_recv m timeout sflag k =
     do {
       rt_assert (rt_object_get_type (OMailBox m) k = Class_MailBox);
       scheduler_available (timeout \<noteq> 0) k;
       if mb_entry (mailboxes k m) = 0 \<and> timeout = 0 then Some (k, Ret (RT_ETIMEOUT, None))
       else mb_recv_loop m timeout sflag (current k) k
     }"

definition mb_recv_resume ::
  "oid \<Rightarrow> cint \<Rightarrow> suspend_flag \<Rightarrow> tid \<Rightarrow> u32 \<Rightarrow> kernel \<Rightarrow> (kernel \<times> (err \<times> u32 option) outcome) option" where
  "mb_recv_resume m timeout sflag t start k =
     (if error (threads k t) \<noteq> RT_EOK then Some (k, Ret (error (threads k t), None))
      else mb_recv_loop m (time_left timeout start k) sflag (Some t) k)"

definition rt_mb_recv :: "oid \<Rightarrow> cint \<Rightarrow> kernel \<Rightarrow> (kernel \<times> (err \<times> u32 option) outcome) option" where
  "rt_mb_recv m timeout k = mb_recv m timeout RT_UNINTERRUPTIBLE k"

definition rt_mb_recv_interruptibale :: "oid \<Rightarrow> cint \<Rightarrow> kernel \<Rightarrow> (kernel \<times> (err \<times> u32 option) outcome) option" where
  "rt_mb_recv_interruptibale m timeout k = mb_recv m timeout RT_INTERRUPTIBLE k"

definition rt_mb_recv_killable :: "oid \<Rightarrow> cint \<Rightarrow> kernel \<Rightarrow> (kernel \<times> (err \<times> u32 option) outcome) option" where
  "rt_mb_recv_killable m timeout k = mb_recv m timeout RT_KILLABLE k"

definition rt_mb_control :: "oid \<Rightarrow> ipc_cmd \<Rightarrow> kernel \<Rightarrow> (kernel \<times> err) option" where
  "rt_mb_control m cmd k =
     do {
       rt_assert (rt_object_get_type (OMailBox m) k = Class_MailBox);
       case cmd of
         RT_IPC_CMD_RESET _ \<Rightarrow> do {
           k \<leftarrow> ipc_list_resume_all (Wait m) k;
           k \<leftarrow> ipc_list_resume_all (WaitSend m) k;
           let k = upd_mb m (\<lambda>mb. mb\<lparr>mb_entry := 0, in_offset := 0, out_offset := 0\<rparr>) k;
           k \<leftarrow> rt_schedule k;
           Some (k, RT_EOK)
         }
       | RT_IPC_CMD_OTHER _ \<Rightarrow> Some (k, RT_ERROR)
     }"


subsection \<open>The ring\<close>

definition mb_inv :: "rt_mailbox \<Rightarrow> bool" where
  "mb_inv mb \<longleftrightarrow> mb_size mb \<le> 0xffff \<and> mb_size mb \<le> length (msg_pool mb) \<and> mb_entry mb \<le> mb_size mb \<and>
     (mb_size mb > 0 \<longrightarrow> in_offset mb < mb_size mb \<and> out_offset mb < mb_size mb \<and>
        in_offset mb = (out_offset mb + mb_entry mb) mod mb_size mb)"

definition mb_contents :: "rt_mailbox \<Rightarrow> u32 list" where
  "mb_contents mb = map (\<lambda>i. msg_pool mb ! ((out_offset mb + i) mod mb_size mb)) [0..<mb_entry mb]"

lemma length_mb_contents [simp]: "length (mb_contents mb) = mb_entry mb"
  by (simp add: mb_contents_def)

lemma offset_step:
  "i < n \<Longrightarrow> n \<le> 0xffff \<Longrightarrow> (if n \<le> (i + 1) mod 0x10000 then 0 else (i + 1) mod 0x10000) = (i + 1) mod n" for i n :: nat
  by (auto simp: mod_if)

lemma mb_store_inv:
  assumes "mb_inv mb" "mb_entry mb \<noteq> mb_size mb" and mb': "mb' = (mb_store v mb)\<lparr>mb_entry := mb_entry mb + 1\<rparr>"
  shows "mb_inv mb'" "mb_contents mb' = mb_contents mb @ [v]" "mb_size mb' = mb_size mb" "mb_entry mb < 0xffff"
proof -
  let ?n = "mb_size mb"
  have i: "?n \<le> 0xffff" "?n \<le> length (msg_pool mb)" "mb_entry mb < ?n" "in_offset mb < ?n" "out_offset mb < ?n"
    "in_offset mb = (out_offset mb + mb_entry mb) mod ?n"
    using assms by (auto simp: mb_inv_def)
  then have n: "0 < ?n" by simp
  have io: "in_offset mb' = (out_offset mb + (mb_entry mb + 1)) mod ?n"
  proof -
    have "in_offset mb' = (in_offset mb + 1) mod ?n" using offset_step [OF i(4,1)] by (auto simp: mb' mb_store_def Let_def split: if_splits)
    then show ?thesis by (simp add: i(6) mod_Suc_eq)
  qed
  then show "mb_inv mb'" using i n by (simp add: mb_inv_def) (simp add: mb' mb_store_def Let_def)
  have ne: "in_offset mb \<noteq> (out_offset mb + j) mod ?n" if "j < mb_entry mb" for j
    using that i(3,5) by (auto simp: i(6) mod_wrap split: if_splits)
  have "in_offset mb < length (msg_pool mb)" using i(2,4) by simp
  with ne show "mb_contents mb' = mb_contents mb @ [v]"
    by (simp add: mb_contents_def mb' mb_store_def Let_def i(6) [symmetric])
  show "mb_size mb' = mb_size mb" by (simp add: mb' mb_store_def Let_def)
  show "mb_entry mb < 0xffff" using i by simp
qed

lemma mb_fetch_inv:
  assumes "mb_inv mb" "mb_entry mb \<noteq> 0" "mb_fetch mb = (mb', v)"
  shows "mb_inv mb'" "mb_contents mb = v # mb_contents mb'" "mb_size mb' = mb_size mb"
proof -
  let ?n = "mb_size mb"
  have i: "?n \<le> 0xffff" "?n \<le> length (msg_pool mb)" "mb_entry mb \<le> ?n" "in_offset mb < ?n" "out_offset mb < ?n"
    "in_offset mb = (out_offset mb + mb_entry mb) mod ?n" "0 < mb_entry mb"
    using assms by (auto simp: mb_inv_def)
  have mb': "mb' = mb\<lparr>out_offset := (out_offset mb + 1) mod ?n, mb_entry := mb_entry mb - 1\<rparr>" "v = msg_pool mb ! out_offset mb"
    using assms(3) i(7) offset_step [OF i(5,1)] by (auto simp: mb_fetch_def Let_def)
  have s: "((out_offset mb + 1) mod ?n + j) mod ?n = (out_offset mb + Suc j) mod ?n" for j
    by (simp add: mod_simps)
  show "mb_size mb' = mb_size mb" by (simp add: mb')
  show "mb_inv mb'" using i s [of "mb_entry mb - 1"] by (simp add: mb_inv_def mb')
  have u: "[0..<mb_entry mb] = 0 # map Suc [0..<mb_entry mb - 1]"
    using i(7) by (simp add: map_Suc_upt upt_conv_Cons)
  show "mb_contents mb = v # mb_contents mb'"
    using i(5) s by (simp add: mb_contents_def u mb')
qed

lemma mb_store_front_inv:
  assumes "mb_inv mb" "mb_entry mb \<noteq> mb_size mb" and mb': "mb' = mb_store_front v mb"
  shows "mb_inv mb'" "mb_contents mb' = v # mb_contents mb" "mb_size mb' = mb_size mb"
proof -
  let ?n = "mb_size mb"
  have i: "?n \<le> 0xffff" "?n \<le> length (msg_pool mb)" "mb_entry mb < ?n" "in_offset mb < ?n" "out_offset mb < ?n"
    "in_offset mb = (out_offset mb + mb_entry mb) mod ?n"
    using assms by (auto simp: mb_inv_def)
  define o' where "o' = (if out_offset mb > 0 then out_offset mb - 1 else ?n - 1)"
  have o: "o' < ?n" "(o' + Suc j) mod ?n = (out_offset mb + j) mod ?n" for j
    using i(5) by (auto simp: o'_def)
  have e: "mb' = mb\<lparr>out_offset := o', msg_pool := (msg_pool mb)[o' := v], mb_entry := mb_entry mb + 1\<rparr>"
    using i(1,3) by (simp add: mb' mb_store_front_def Let_def o'_def)
  show "mb_size mb' = mb_size mb" by (simp add: e)
  show "mb_inv mb'" using i o by (simp add: mb_inv_def e)
  have u: "[0..<Suc (mb_entry mb)] = 0 # map Suc [0..<mb_entry mb]"
    by (simp only: map_Suc_upt upt_conv_Cons [of 0] zero_less_Suc)
  have d: "o' \<noteq> (out_offset mb + j) mod ?n" if "j < mb_entry mb" for j
  proof -
    have "(o' + Suc j) mod ?n \<noteq> o'" using that i(3) o(1) by (auto simp: mod_wrap split: if_splits)
    then show ?thesis using o(2) by auto
  qed
  have "mb_contents mb' = map (\<lambda>j. (msg_pool mb)[o' := v] ! ((o' + j) mod ?n)) [0..<Suc (mb_entry mb)]"
    by (simp add: mb_contents_def e)
  also have "\<dots> = v # map (\<lambda>j. (msg_pool mb)[o' := v] ! ((o' + Suc j) mod ?n)) [0..<mb_entry mb]"
    using o(1) i(2) by (simp add: u del: upt_Suc)
  also have "\<dots> = v # mb_contents mb" using d by (simp only: o(2)) (simp add: mb_contents_def)
  finally show "mb_contents mb' = v # mb_contents mb" .
qed


subsection \<open>Sending and receiving\<close>

lemma mailboxes_upd_mb [simp]: "mailboxes (upd_mb m f k) = (mailboxes k)(m := f (mailboxes k m))"
  by (simp add: upd_mb_def)

lemma upd_mb_frame [simp]:
  "sched_but S (upd_mb m f k) = sched_but S k" "lists (upd_mb m f k) = lists k" "threads (upd_mb m f k) = threads k"
  "current (upd_mb m f k) = current k" "objects (upd_mb m f k) = objects k" "waiters_ok (upd_mb m f k) q = waiters_ok k q"
  by (simp_all add: upd_mb_def waiters_ok_def registered_def rt_object_get_type_def)

text \<open>The invariant of a mailbox in the kernel.\<close>

definition mb_kinv :: "oid \<Rightarrow> kernel \<Rightarrow> bool" where
  "mb_kinv m k \<longleftrightarrow> endpoints_ok m k \<and> rt_object_get_type (OMailBox m) k = Class_MailBox \<and> mb_inv (mailboxes k m)"

text \<open>A state reached by changing the ring and waking a thread.\<close>

lemma mb_kinv_wake:
  assumes i: "mb_kinv m k" and mb: "mb_inv mb" and k1: "k1 = upd_mb m (\<lambda>_. mb) k" and q: "q = Wait m \<or> q = WaitSend m"
  obtains k' where "wake_other q r k1 = Some (k', Ret r)" "mb_kinv m k'" "mailboxes k' = (mailboxes k)(m := mb)"
    "lists k' q = tl (lists k q)" "\<And>q'. \<not> is_ready q' \<Longrightarrow> q' \<noteq> q \<Longrightarrow> lists k' q' = lists k q'"
    "lists k q \<noteq> [] \<Longrightarrow> runnable (threads k' (hd (lists k q))) \<and> error (threads k' (hd (lists k q))) = RT_EOK"
proof -
  have e: "endpoints_ok m k1" using i by (simp add: mb_kinv_def endpoints_ok_def k1)
  obtain k' where k': "wake_other q r k1 = Some (k', Ret r)" "endpoints_ok m k'" "only_core k1 k'"
    "lists k' q = tl (lists k1 q)" "\<And>q'. \<not> is_ready q' \<Longrightarrow> q' \<noteq> q \<Longrightarrow> lists k' q' = lists k1 q'"
    "lists k1 q \<noteq> [] \<Longrightarrow> runnable (threads k' (hd (lists k1 q))) \<and> error (threads k' (hd (lists k1 q))) = RT_EOK"
    by (rule endpoints_wake [OF e q, where r = r]) (rule that)
  note c = only_coreD [OF k'(3)]
  have "mb_kinv m k'" using k'(2) i mb c(1,12) by (simp add: mb_kinv_def rt_object_get_type_def k1)
  then show thesis by (rule that [OF k'(1)]) (use k' c(12) in \<open>simp_all add: k1\<close>)
qed

text \<open>A send that finds room stores its value and wakes the first receiver.\<close>

lemma mb_send_room:
  assumes i: "mb_kinv m k" and r: "mb_entry (mailboxes k m) \<noteq> mb_size (mailboxes k m)"
  obtains k' where "mb_send_loop m v timeout fl th k = Some (k', Ret RT_EOK)" "mb_kinv m k'"
    "mb_contents (mailboxes k' m) = mb_contents (mailboxes k m) @ [v]" "mb_size (mailboxes k' m) = mb_size (mailboxes k m)"
    "lists k' (Wait m) = tl (lists k (Wait m))" "lists k' (WaitSend m) = lists k (WaitSend m)"
    "lists k (Wait m) \<noteq> [] \<Longrightarrow> runnable (threads k' (hd (lists k (Wait m)))) \<and> error (threads k' (hd (lists k (Wait m)))) = RT_EOK"
proof -
  define mb where "mb = (mb_store v (mailboxes k m))\<lparr>mb_entry := mb_entry (mailboxes k m) + 1\<rparr>"
  note st = mb_store_inv [OF _ r mb_def]
  have bi: "mb_inv (mailboxes k m)" using i by (simp add: mb_kinv_def)
  let ?k = "upd_mb m (\<lambda>mb. mb\<lparr>mb_entry := mb_entry mb + 1\<rparr>) (upd_mb m (mb_store v) k)"
  have e: "mb_entry (mb_store v (mailboxes k m)) = mb_entry (mailboxes k m)" by (simp add: mb_store_def Let_def)
  have k1: "?k = upd_mb m (\<lambda>_. mb) k" by (simp add: upd_mb_def mb_def e)
  have s: "mb_send_loop m v timeout fl th k = wake_other (Wait m) RT_EOK ?k"
    using r st(4) [OF bi] by (simp add: mb_send_loop_def e)
  obtain k' where k': "wake_other (Wait m) RT_EOK ?k = Some (k', Ret RT_EOK)" "mb_kinv m k'" "mailboxes k' = (mailboxes k)(m := mb)"
    "lists k' (Wait m) = tl (lists k (Wait m))" "\<And>q'. \<not> is_ready q' \<Longrightarrow> q' \<noteq> Wait m \<Longrightarrow> lists k' q' = lists k q'"
    "lists k (Wait m) \<noteq> [] \<Longrightarrow> runnable (threads k' (hd (lists k (Wait m)))) \<and> error (threads k' (hd (lists k (Wait m)))) = RT_EOK"
    by (rule mb_kinv_wake [OF i st(1) [OF bi] k1 disjI1 [OF refl], where r = RT_EOK]) (rule that)
  show thesis
    by (rule that [of k']) (use s k' st(2,3) [OF bi] in simp_all)
qed

lemma mb_recv_some:
  assumes i: "mb_kinv m k" and r: "mb_entry (mailboxes k m) \<noteq> 0"
  obtains k' where "mb_recv_loop m timeout fl th k = Some (k', Ret (RT_EOK, Some (hd (mb_contents (mailboxes k m)))))" "mb_kinv m k'"
    "mb_contents (mailboxes k' m) = tl (mb_contents (mailboxes k m))" "mb_size (mailboxes k' m) = mb_size (mailboxes k m)"
    "lists k' (WaitSend m) = tl (lists k (WaitSend m))" "lists k' (Wait m) = lists k (Wait m)"
    "lists k (WaitSend m) \<noteq> [] \<Longrightarrow> runnable (threads k' (hd (lists k (WaitSend m)))) \<and> error (threads k' (hd (lists k (WaitSend m)))) = RT_EOK"
proof -
  obtain mb v where f: "mb_fetch (mailboxes k m) = (mb, v)" by fastforce
  have bi: "mb_inv (mailboxes k m)" using i by (simp add: mb_kinv_def)
  note st = mb_fetch_inv [OF bi r f]
  have s: "mb_recv_loop m timeout fl th k = wake_other (WaitSend m) (RT_EOK, Some v) (upd_mb m (\<lambda>_. mb) k)"
    using r f by (simp add: mb_recv_loop_def)
  obtain k' where k': "wake_other (WaitSend m) (RT_EOK, Some v) (upd_mb m (\<lambda>_. mb) k) = Some (k', Ret (RT_EOK, Some v))"
    "mb_kinv m k'" "mailboxes k' = (mailboxes k)(m := mb)"
    "lists k' (WaitSend m) = tl (lists k (WaitSend m))" "\<And>q'. \<not> is_ready q' \<Longrightarrow> q' \<noteq> WaitSend m \<Longrightarrow> lists k' q' = lists k q'"
    "lists k (WaitSend m) \<noteq> [] \<Longrightarrow> runnable (threads k' (hd (lists k (WaitSend m)))) \<and> error (threads k' (hd (lists k (WaitSend m)))) = RT_EOK"
    by (rule mb_kinv_wake [OF i st(1) refl disjI2 [OF refl], where r = "(RT_EOK, Some v)"]) (rule that)
  show thesis
    by (rule that [of k']) (use s k' st(2,3) in simp_all)
qed


subsection \<open>A mailbox is a bounded FIFO\<close>

text \<open>The non-blocking calls as queue operations on the kernel state.\<close>

definition mb_try_send :: "oid \<Rightarrow> kernel \<Rightarrow> u32 \<Rightarrow> kernel \<times> bool" where
  "mb_try_send m k v = (case rt_mb_send m v k of Some (k', Ret e) \<Rightarrow> (k', e = RT_EOK) | _ \<Rightarrow> (k, False))"

definition mb_try_recv :: "oid \<Rightarrow> kernel \<Rightarrow> kernel \<times> u32 option" where
  "mb_try_recv m k = (case rt_mb_recv m 0 k of Some (k', Ret (e, r)) \<Rightarrow> (k', r) | _ \<Rightarrow> (k, None))"

lemma mb_try_send_spec:
  assumes i: "mb_kinv m k" and r: "mb_try_send m k v = (k', b)"
  shows "mb_kinv m k'" "mb_size (mailboxes k' m) = mb_size (mailboxes k m)"
    "b \<longleftrightarrow> mb_entry (mailboxes k m) < mb_size (mailboxes k m)"
    "mb_contents (mailboxes k' m) = mb_contents (mailboxes k m) @ (if b then [v] else [])"
proof -
  have ty: "rt_object_get_type (OMailBox m) k = Class_MailBox" and le: "mb_entry (mailboxes k m) \<le> mb_size (mailboxes k m)"
    using i by (auto simp: mb_kinv_def mb_inv_def)
  have "mb_kinv m k' \<and> mb_size (mailboxes k' m) = mb_size (mailboxes k m) \<and>
    (b \<longleftrightarrow> mb_entry (mailboxes k m) < mb_size (mailboxes k m)) \<and>
    mb_contents (mailboxes k' m) = mb_contents (mailboxes k m) @ (if b then [v] else [])"
  proof (cases "mb_entry (mailboxes k m) = mb_size (mailboxes k m)")
    case True
    then show ?thesis
      using r i ty by (simp add: mb_try_send_def rt_mb_send_def rt_mb_send_wait_def mb_send_wait_def scheduler_available_def)
  next
    case False
    obtain k2 where k2: "mb_send_loop m v 0 RT_UNINTERRUPTIBLE (current k) k = Some (k2, Ret RT_EOK)" "mb_kinv m k2"
      "mb_contents (mailboxes k2 m) = mb_contents (mailboxes k m) @ [v]" "mb_size (mailboxes k2 m) = mb_size (mailboxes k m)"
      by (rule mb_send_room [OF i False, where v = v and timeout = 0 and fl = RT_UNINTERRUPTIBLE and th = "current k"])
    then show ?thesis
      using r ty False le by (simp add: mb_try_send_def rt_mb_send_def rt_mb_send_wait_def mb_send_wait_def scheduler_available_def)
  qed
  then show "mb_kinv m k'" "mb_size (mailboxes k' m) = mb_size (mailboxes k m)"
    "b \<longleftrightarrow> mb_entry (mailboxes k m) < mb_size (mailboxes k m)"
    "mb_contents (mailboxes k' m) = mb_contents (mailboxes k m) @ (if b then [v] else [])" by blast+
qed

lemma mb_try_recv_spec:
  assumes i: "mb_kinv m k" and r: "mb_try_recv m k = (k', x)"
  shows "mb_kinv m k'" "mb_size (mailboxes k' m) = mb_size (mailboxes k m)"
    "mb_contents (mailboxes k m) = (case x of None \<Rightarrow> [] | Some v \<Rightarrow> [v]) @ mb_contents (mailboxes k' m)"
    "x = None \<longleftrightarrow> mb_contents (mailboxes k m) = []"
proof -
  have ty: "rt_object_get_type (OMailBox m) k = Class_MailBox" using i by (auto simp: mb_kinv_def)
  have c: "mb_contents (mailboxes k m) = [] \<longleftrightarrow> mb_entry (mailboxes k m) = 0" by (simp flip: length_0_conv)
  have "mb_kinv m k' \<and> mb_size (mailboxes k' m) = mb_size (mailboxes k m) \<and>
    mb_contents (mailboxes k m) = (case x of None \<Rightarrow> [] | Some v \<Rightarrow> [v]) @ mb_contents (mailboxes k' m) \<and>
    (x = None \<longleftrightarrow> mb_contents (mailboxes k m) = [])"
  proof (cases "mb_entry (mailboxes k m) = 0")
    case True
    then show ?thesis using r i ty c by (simp add: mb_try_recv_def rt_mb_recv_def mb_recv_def scheduler_available_def)
  next
    case False
    obtain k2 where k2: "mb_recv_loop m 0 RT_UNINTERRUPTIBLE (current k) k = Some (k2, Ret (RT_EOK, Some (hd (mb_contents (mailboxes k m)))))" "mb_kinv m k2"
      "mb_contents (mailboxes k2 m) = tl (mb_contents (mailboxes k m))" "mb_size (mailboxes k2 m) = mb_size (mailboxes k m)"
      by (rule mb_recv_some [OF i False, where timeout = 0 and fl = RT_UNINTERRUPTIBLE and th = "current k"])
    then show ?thesis
      using r ty False c by (auto simp: mb_try_recv_def rt_mb_recv_def mb_recv_def scheduler_available_def)
  qed
  then show "mb_kinv m k'" "mb_size (mailboxes k' m) = mb_size (mailboxes k m)"
    "mb_contents (mailboxes k m) = (case x of None \<Rightarrow> [] | Some v \<Rightarrow> [v]) @ mb_contents (mailboxes k' m)"
    "x = None \<longleftrightarrow> mb_contents (mailboxes k m) = []" by blast+
qed

interpretation mbq: fifo "\<lambda>_. True" "mb_kinv m" "\<lambda>k. mb_contents (mailboxes k m)" "\<lambda>k. mb_size (mailboxes k m)" "mb_try_send m" "mb_try_recv m" for m
proof
  fix s x s' b r
  show "mb_kinv m s \<Longrightarrow> length (mb_contents (mailboxes s m)) \<le> mb_size (mailboxes s m)" by (simp add: mb_kinv_def mb_inv_def)
  show "mb_kinv m s \<Longrightarrow> mb_try_send m s x = (s', b) \<Longrightarrow> mb_kinv m s' \<and> mb_size (mailboxes s' m) = mb_size (mailboxes s m)"
    using mb_try_send_spec(1,2) by blast
  show "mb_kinv m s \<Longrightarrow> mb_try_send m s x = (s', b) \<Longrightarrow> b = (length (mb_contents (mailboxes s m)) < mb_size (mailboxes s m))"
    using mb_try_send_spec(3) by simp
  show "mb_kinv m s \<Longrightarrow> mb_try_send m s x = (s', b) \<Longrightarrow>
      mb_contents (mailboxes s' m) = mb_contents (mailboxes s m) @ (if b then [x] else [])"
    by (rule mb_try_send_spec(4))
  show "mb_kinv m s \<Longrightarrow> mb_try_recv m s = (s', r) \<Longrightarrow> mb_kinv m s' \<and> mb_size (mailboxes s' m) = mb_size (mailboxes s m)"
    using mb_try_recv_spec(1,2) by blast
  show "mb_kinv m s \<Longrightarrow> mb_try_recv m s = (s', r) \<Longrightarrow>
      mb_contents (mailboxes s m) = (case r of None \<Rightarrow> [] | Some x \<Rightarrow> [x]) @ mb_contents (mailboxes s' m)"
    by (rule mb_try_recv_spec(3))
  show "mb_kinv m s \<Longrightarrow> mb_try_recv m s = (s', r) \<Longrightarrow> (r = None) = (mb_contents (mailboxes s m) = [])"
    by (rule mb_try_recv_spec(4))
qed


subsection \<open>Blocking\<close>

lemma resume_current: "rt_thread_resume t k = Some (k', e) \<Longrightarrow> current k' = current k"
  by (auto simp: rt_thread_resume_def Let_def bind_eq_Some_conv rt_timer_stop_def timer_remove_def deactivate_def tlist_remove_def
      rt_schedule_insert_thread_def kstate upd_timer_def upd_thread_def split: if_splits)

lemma timer_start_current:
  assumes r: "start_thread_timer t n k = Some k'" and c: "current k \<noteq> None"
  shows "current k' \<noteq> None"
proof -
  obtain k1 x where k1: "rt_timer_control (ThreadTimer t) (CTRL_SET_TIME n) k = Some (k1, x)" "rt_timer_start (ThreadTimer t) k1 = Some k'"
    using r by (auto simp: start_thread_timer_def bind_eq_Some_conv)
  have "current k1 = current k" using k1(1) by (auto simp: rt_timer_control_def upd_timer_def split: if_splits)
  then show ?thesis using k1(2) c
    by (auto simp: rt_timer_start_def Let_def bind_eq_Some_conv split: if_splits dest!: resume_current rt_schedule_current)
qed

lemma sleep_current:
  assumes i: "sched_inv k" and r: "rt_thread_sleep n k = Some (k', x)" and c: "current k \<noteq> None"
  shows "current k' \<noteq> None"
proof (cases "n = 0")
  case False
  then obtain t k1 e where t: "current k = Some t"
    and s: "rt_thread_suspend_with_flag t RT_INTERRUPTIBLE (upd_thread t (\<lambda>th. th\<lparr>error := RT_EOK\<rparr>) k) = Some (k1, e)"
    and c1: "if e = RT_EOK then \<exists>k2. start_thread_timer t n k1 = Some k2 \<and>
        rt_schedule (upd_thread t (\<lambda>th. th\<lparr>error := RT_EINTR\<rparr>) k2) = Some k' else k' = k1"
    using r by (auto simp: rt_thread_sleep_def bind_eq_Some_conv Let_def split: option.splits if_splits)
  have k1: "current k1 \<noteq> None" using sched_suspend(4) [OF _ s] i c by simp
  show ?thesis
  proof (cases "e = RT_EOK")
    case True
    then obtain k2 where "start_thread_timer t n k1 = Some k2" "rt_schedule (upd_thread t (\<lambda>th. th\<lparr>error := RT_EINTR\<rparr>) k2) = Some k'" using c1 by auto
    then show ?thesis using timer_start_current [OF _ k1] rt_schedule_current by fastforce
  qed (use c1 k1 in simp)
qed (use r c in \<open>simp add: rt_thread_sleep_def\<close>)

lemma mb_kinv_wait:
  assumes i: "mb_kinv m k" and it: "in_thread k t" and wt: "wait_time timeout" and q: "q = Wait m \<or> q = WaitSend m"
  obtains k' where "ipc_wait q t flag fl timeout (upd_thread t (\<lambda>th. th\<lparr>error := RT_EINTR\<rparr>) k) = Some (k', Blocked)" "mb_kinv m k'"
    "mailboxes k' = mailboxes k" "lists k' q = enqueue_waiter k flag t (lists k q)" "stat (threads k' t) = TH_SUSPEND fl"
proof -
  have e: "endpoints_ok m k" using i by (simp add: mb_kinv_def)
  obtain k' where k': "ipc_wait q t flag fl timeout (upd_thread t (\<lambda>th. th\<lparr>error := RT_EINTR\<rparr>) k) = Some (k', Blocked)" "endpoints_ok m k'"
    "only_core k k'" "lists k' q = enqueue_waiter k flag t (lists k q)"
    "\<And>q'. \<not> is_ready q' \<Longrightarrow> q' \<noteq> q \<Longrightarrow> lists k' q' = lists k q'" "stat (threads k' t) = TH_SUSPEND fl"
    "sint timeout > 0 \<Longrightarrow> ThreadTimer t \<in> set (timer_list k') \<and> remaining k' (ThreadTimer t) = timeout"
    by (rule endpoints_wait [OF e it wt q, where flag = flag and fl = fl]) (rule that)
  have "mb_kinv m k'" using i k'(2) only_coreD(1,12) [OF k'(3)] by (simp add: mb_kinv_def rt_object_get_type_def)
  then show thesis using that k'(1,4,6) only_coreD(12) [OF k'(3)] by blast
qed

text \<open>
  C20: A sender that finds the mailbox full and may wait is suspended with its message undelivered.  When
  a receiver then takes the oldest message, the sender becomes runnable, and when it runs again its call
  returns \<open>RT_EOK\<close> with its message stored behind the others.
\<close>
theorem mb_blocked_sender:
  assumes i: "mb_kinv m k" and it: "in_thread k t" and wt: "wait_time timeout" "timeout \<noteq> 0"
    and full: "mb_entry (mailboxes k m) = mb_size (mailboxes k m)" "mb_size (mailboxes k m) > 0" and first: "lists k (WaitSend m) = []"
  shows "\<exists>k1 k2 k3. mb_send_wait m v timeout fl k = Some (k1, Blocked) \<and> stat (threads k1 t) = TH_SUSPEND fl \<and>
    mb_contents (mailboxes k1 m) = mb_contents (mailboxes k m) \<and>
    rt_mb_recv m 0 k1 = Some (k2, Ret (RT_EOK, Some (hd (mb_contents (mailboxes k m))))) \<and> runnable (threads k2 t) \<and>
    mb_send_resume m v timeout fl t (tick k) k2 = Some (k3, Ret RT_EOK) \<and> mb_kinv m k3 \<and>
    mb_contents (mailboxes k3 m) = tl (mb_contents (mailboxes k m)) @ [v]"
proof -
  have ty: "rt_object_get_type (OMailBox m) k = Class_MailBox" and cur: "current k = Some t"
    using i it by (simp_all add: mb_kinv_def in_thread_def)
  obtain k1 where k1: "ipc_wait (WaitSend m) t (mb_flag (mailboxes k m)) fl timeout (upd_thread t (\<lambda>th. th\<lparr>error := RT_EINTR\<rparr>) k) = Some (k1, Blocked)"
    "mb_kinv m k1" "mailboxes k1 = mailboxes k" "lists k1 (WaitSend m) = enqueue_waiter k (mb_flag (mailboxes k m)) t (lists k (WaitSend m))"
    "stat (threads k1 t) = TH_SUSPEND fl"
    by (rule mb_kinv_wait [OF i it wt(1) disjI2 [OF refl]]) (rule that)
  have l1: "lists k1 (WaitSend m) = [t]" using k1(4) first by (simp add: enqueue_waiter_def split: ipc_flag.splits)
  have s: "mb_send_wait m v timeout fl k = Some (k1, Blocked)"
    using ty cur it full wt(2) k1(1) by (simp add: mb_send_wait_def mb_send_loop_def upd_thread_def)
  have ne: "mb_entry (mailboxes k1 m) \<noteq> 0" using full k1(3) by simp
  have ty1: "rt_object_get_type (OMailBox m) k1 = Class_MailBox" using k1(2) by (simp add: mb_kinv_def)
  obtain k2 where k2: "mb_recv_loop m 0 RT_UNINTERRUPTIBLE (current k1) k1 = Some (k2, Ret (RT_EOK, Some (hd (mb_contents (mailboxes k1 m)))))" "mb_kinv m k2"
    "mb_contents (mailboxes k2 m) = tl (mb_contents (mailboxes k1 m))" "mb_size (mailboxes k2 m) = mb_size (mailboxes k1 m)"
    "lists k2 (WaitSend m) = tl (lists k1 (WaitSend m))" "lists k2 (Wait m) = lists k1 (Wait m)"
    "lists k1 (WaitSend m) \<noteq> [] \<Longrightarrow> runnable (threads k2 (hd (lists k1 (WaitSend m)))) \<and> error (threads k2 (hd (lists k1 (WaitSend m)))) = RT_EOK"
    by (rule mb_recv_some [OF k1(2) ne]) (rule that)
  have r: "rt_mb_recv m 0 k1 = Some (k2, Ret (RT_EOK, Some (hd (mb_contents (mailboxes k m)))))"
    using k2(1) ty1 ne k1(3) by (simp add: rt_mb_recv_def mb_recv_def scheduler_available_def)
  have t2: "runnable (threads k2 t)" "error (threads k2 t) = RT_EOK" using k2(7) l1 by simp_all
  have "mb_entry (mailboxes k2 m) \<noteq> mb_size (mailboxes k2 m)"
    using arg_cong [OF k2(3), of length] full k1(3) k2(4) by simp
  from k2(2) this obtain k3 where k3: "mb_send_loop m v (time_left timeout (tick k) k2) fl (Some t) k2 = Some (k3, Ret RT_EOK)" "mb_kinv m k3"
    "mb_contents (mailboxes k3 m) = mb_contents (mailboxes k2 m) @ [v]" by (rule mb_send_room)
  then show ?thesis using s k1(3,5) r t2 k2(3) by (auto simp: mb_send_resume_def)
qed

text \<open>
  A receiver that finds the mailbox empty and may wait is suspended; after a send it is runnable, and
  when it runs again its call returns \<open>RT_EOK\<close> and the value sent.
\<close>
theorem mb_blocked_receiver:
  assumes i: "mb_kinv m k" and it: "in_thread k t" and wt: "wait_time timeout" "timeout \<noteq> 0"
    and empty: "mb_entry (mailboxes k m) = 0" "mb_size (mailboxes k m) > 0" and first: "lists k (Wait m) = []"
  shows "\<exists>k1 k2 k3. mb_recv m timeout fl k = Some (k1, Blocked) \<and> stat (threads k1 t) = TH_SUSPEND fl \<and>
    rt_mb_send m v k1 = Some (k2, Ret RT_EOK) \<and> runnable (threads k2 t) \<and>
    mb_recv_resume m timeout fl t (tick k) k2 = Some (k3, Ret (RT_EOK, Some v)) \<and> mb_kinv m k3 \<and>
    mb_contents (mailboxes k3 m) = []"
proof -
  have ty: "rt_object_get_type (OMailBox m) k = Class_MailBox" and cur: "current k = Some t"
    using i it by (simp_all add: mb_kinv_def in_thread_def)
  obtain k1 where k1: "ipc_wait (Wait m) t (mb_flag (mailboxes k m)) fl timeout (upd_thread t (\<lambda>th. th\<lparr>error := RT_EINTR\<rparr>) k) = Some (k1, Blocked)"
    "mb_kinv m k1" "mailboxes k1 = mailboxes k" "lists k1 (Wait m) = enqueue_waiter k (mb_flag (mailboxes k m)) t (lists k (Wait m))"
    "stat (threads k1 t) = TH_SUSPEND fl"
    by (rule mb_kinv_wait [OF i it wt(1) disjI1 [OF refl]]) (rule that)
  have l1: "lists k1 (Wait m) = [t]" using k1(4) first by (simp add: enqueue_waiter_def split: ipc_flag.splits)
  have s: "mb_recv m timeout fl k = Some (k1, Blocked)"
    using ty cur it empty wt(2) k1(1) by (simp add: mb_recv_def mb_recv_loop_def upd_thread_def)
  have ne: "mb_entry (mailboxes k1 m) \<noteq> mb_size (mailboxes k1 m)" using empty k1(3) by simp
  have ty1: "rt_object_get_type (OMailBox m) k1 = Class_MailBox" using k1(2) by (simp add: mb_kinv_def)
  obtain k2 where k2: "mb_send_loop m v 0 RT_UNINTERRUPTIBLE (current k1) k1 = Some (k2, Ret RT_EOK)" "mb_kinv m k2"
    "mb_contents (mailboxes k2 m) = mb_contents (mailboxes k1 m) @ [v]" "mb_size (mailboxes k2 m) = mb_size (mailboxes k1 m)"
    "lists k2 (Wait m) = tl (lists k1 (Wait m))" "lists k2 (WaitSend m) = lists k1 (WaitSend m)"
    "lists k1 (Wait m) \<noteq> [] \<Longrightarrow> runnable (threads k2 (hd (lists k1 (Wait m)))) \<and> error (threads k2 (hd (lists k1 (Wait m)))) = RT_EOK"
    by (rule mb_send_room [OF k1(2) ne]) (rule that)
  have r: "rt_mb_send m v k1 = Some (k2, Ret RT_EOK)"
    using k2(1) ty1 ne by (simp add: rt_mb_send_def rt_mb_send_wait_def mb_send_wait_def scheduler_available_def)
  have t2: "runnable (threads k2 t)" "error (threads k2 t) = RT_EOK" using k2(7) l1 by simp_all
  have "mb_contents (mailboxes k1 m) = []" using empty k1(3) by (simp add: mb_contents_def)
  then have c2: "mb_contents (mailboxes k2 m) = [v]" using k2(3) by simp
  then have "length (mb_contents (mailboxes k2 m)) \<noteq> 0" by (simp del: length_mb_contents)
  then have "mb_entry (mailboxes k2 m) \<noteq> 0" by simp
  from k2(2) this obtain k3 where k3: "mb_recv_loop m (time_left timeout (tick k) k2) fl (Some t) k2 = Some (k3, Ret (RT_EOK, Some (hd (mb_contents (mailboxes k2 m)))))" "mb_kinv m k3"
    "mb_contents (mailboxes k3 m) = tl (mb_contents (mailboxes k2 m))" by (rule mb_recv_some)
  then show ?thesis using s k1(5) r t2 c2 by (auto simp: mb_recv_resume_def)
qed

text \<open>
  The life of a mailbox as a step relation.  A call that may block runs in a thread, one with no timeout anywhere; a thread that has blocked runs the
  rest of its call when it is scheduled again; in between threads time out, yield and sleep.  The label says what was accepted or delivered.
\<close>

datatype mb_label = Sent u32 | Received u32 | Silent

definition sent_label :: "u32 \<Rightarrow> err outcome \<Rightarrow> mb_label" where
  "sent_label v r = (if r = Ret RT_EOK then Sent v else Silent)"

definition received_label :: "(err \<times> u32 option) outcome \<Rightarrow> mb_label" where
  "received_label r = (case r of Ret (RT_EOK, Some v) \<Rightarrow> Received v | _ \<Rightarrow> Silent)"

definition may_call :: "kernel \<Rightarrow> cint \<Rightarrow> bool" where
  "may_call k n \<longleftrightarrow> n = 0 \<or> (\<exists>t. in_thread k t) \<and> wait_time n"

inductive mb_step :: "oid \<Rightarrow> kernel \<Rightarrow> mb_label \<Rightarrow> kernel \<Rightarrow> bool" for m where
  send: "may_call k n \<Longrightarrow> mb_send_wait m v n fl k = Some (k', r) \<Longrightarrow> mb_step m k (sent_label v r) k'"
| send_resume: "in_thread k t \<Longrightarrow> wait_time (time_left n start k) \<Longrightarrow> mb_send_resume m v n fl t start k = Some (k', r) \<Longrightarrow>
    mb_step m k (sent_label v r) k'"
| recv: "may_call k n \<Longrightarrow> mb_recv m n fl k = Some (k', r') \<Longrightarrow> mb_step m k (received_label r') k'"
| recv_resume: "in_thread k t \<Longrightarrow> wait_time (time_left n start k) \<Longrightarrow> mb_recv_resume m n fl t start k = Some (k', r') \<Longrightarrow>
    mb_step m k (received_label r') k'"
| timed_out: "thread_timeout t k = Some k' \<Longrightarrow> mb_step m k Silent k'"
| yields: "rt_thread_yield k = Some k' \<Longrightarrow> mb_step m k Silent k'"
| sleeps: "rt_thread_sleep ticks k = Some (k', x) \<Longrightarrow> mb_step m k Silent k'"

inductive mb_run :: "oid \<Rightarrow> kernel \<Rightarrow> mb_label list \<Rightarrow> kernel \<Rightarrow> bool" for m k where
  start: "mb_run m k [] k"
| step: "mb_run m k ls k1 \<Longrightarrow> mb_step m k1 l k2 \<Longrightarrow> mb_run m k (ls @ [l]) k2"

definition mb_accepted :: "mb_label list \<Rightarrow> u32 list" where
  "mb_accepted ls = concat (map (\<lambda>l. case l of Sent v \<Rightarrow> [v] | _ \<Rightarrow> []) ls)"

definition mb_delivered :: "mb_label list \<Rightarrow> u32 list" where
  "mb_delivered ls = concat (map (\<lambda>l. case l of Received v \<Rightarrow> [v] | _ \<Rightarrow> []) ls)"

text \<open>The first thread waiting on a list has been woken, if there is one.\<close>

definition woke_first :: "qid \<Rightarrow> kernel \<Rightarrow> kernel \<Rightarrow> bool" where
  "woke_first q k k' \<longleftrightarrow> lists k' q = tl (lists k q) \<and>
     (lists k q \<noteq> [] \<longrightarrow> runnable (threads k' (hd (lists k q))) \<and> error (threads k' (hd (lists k q))) = RT_EOK)"

text \<open>What one step does to the mailbox and to the waiting threads.\<close>

definition mb_effect :: "oid \<Rightarrow> kernel \<Rightarrow> mb_label \<Rightarrow> kernel \<Rightarrow> bool" where
  "mb_effect m k l k' \<longleftrightarrow> mb_kinv m k' \<and> mb_size (mailboxes k' m) = mb_size (mailboxes k m) \<and>
     (case l of
        Sent v \<Rightarrow> mb_contents (mailboxes k' m) = mb_contents (mailboxes k m) @ [v] \<and> woke_first (Wait m) k k'
      | Received v \<Rightarrow> mb_contents (mailboxes k m) = v # mb_contents (mailboxes k' m) \<and> woke_first (WaitSend m) k k'
      | Silent \<Rightarrow> mb_contents (mailboxes k' m) = mb_contents (mailboxes k m))"

lemma mb_effect_frame:
  assumes i: "mb_kinv m k" and k': "sched_inv k'" "current k' \<noteq> None" "only_core k k'" "shrinks k k'"
  shows "mb_effect m k Silent k'"
proof -
  have "waiters_ok k' q" if "q = Wait m \<or> q = WaitSend m" for q
  proof -
    have "set (lists k' q) \<subseteq> set (lists k q)" using that k'(4) [unfolded shrinks_def, rule_format, of q] by auto
    moreover have "waiters_ok k q" using i that by (auto simp: mb_kinv_def endpoints_ok_def)
    ultimately show ?thesis using registered_cong [OF only_coreD(1) [OF k'(3)]] by (auto simp: waiters_ok_def)
  qed
  then show ?thesis
    using i k' only_coreD(1,12) [OF k'(3)] by (simp add: mb_effect_def mb_kinv_def endpoints_ok_def rt_object_get_type_def)
qed

lemma mb_kinv_error [simp]: "mb_kinv m (upd_thread t (\<lambda>th. th\<lparr>error := e\<rparr>) k) = mb_kinv m k"
  by (simp add: mb_kinv_def endpoints_ok_def waiters_ok_def registered_def rt_object_get_type_def)

lemma mailboxes_upd_thread [simp]: "mailboxes (upd_thread t f k) = mailboxes k"
  by (simp add: upd_thread_def)

lemma mb_effect_sent:
  assumes "mb_kinv m k'" "mb_contents (mailboxes k' m) = mb_contents (mailboxes k m) @ [v]" "mb_size (mailboxes k' m) = mb_size (mailboxes k m)"
    "lists k' (Wait m) = tl (lists k (Wait m))"
    "lists k (Wait m) \<noteq> [] \<Longrightarrow> runnable (threads k' (hd (lists k (Wait m)))) \<and> error (threads k' (hd (lists k (Wait m)))) = RT_EOK"
  shows "mb_effect m k (sent_label v (Ret RT_EOK)) k'"
  using assms by (simp add: mb_effect_def sent_label_def woke_first_def)

lemma mb_effect_received:
  assumes "mb_kinv m k'" "mb_contents (mailboxes k' m) = tl (mb_contents (mailboxes k m))" "mb_size (mailboxes k' m) = mb_size (mailboxes k m)"
    "lists k' (WaitSend m) = tl (lists k (WaitSend m))"
    "lists k (WaitSend m) \<noteq> [] \<Longrightarrow> runnable (threads k' (hd (lists k (WaitSend m)))) \<and> error (threads k' (hd (lists k (WaitSend m)))) = RT_EOK"
    "mb_contents (mailboxes k m) \<noteq> []"
  shows "mb_effect m k (received_label (Ret (RT_EOK, Some (hd (mb_contents (mailboxes k m)))))) k'"
  using assms by (simp add: mb_effect_def received_label_def woke_first_def)

lemma mb_send_loop_effect:
  assumes i: "mb_kinv m k" and t: "mb_entry (mailboxes k m) = mb_size (mailboxes k m) \<Longrightarrow> \<exists>t. th = Some t \<and> in_thread k t \<and> wait_time n"
  obtains k' r where "mb_send_loop m v n fl th k = Some (k', r)" "mb_effect m k (sent_label v r) k'"
    "r = Ret RT_EOK \<longleftrightarrow> mb_entry (mailboxes k m) < mb_size (mailboxes k m)"
proof (cases "mb_entry (mailboxes k m) = mb_size (mailboxes k m)")
  case False
  then have "mb_entry (mailboxes k m) < mb_size (mailboxes k m)" using i by (simp add: mb_kinv_def mb_inv_def)
  with that show thesis
    using mb_send_room [OF i False, of v n fl th] by (metis (mono_tags, lifting) mb_effect_sent)
next
  case True
  then obtain t where t: "th = Some t" "in_thread k t" "wait_time n" using t by blast
  let ?k = "upd_thread t (\<lambda>th. th\<lparr>error := RT_EINTR\<rparr>) k"
  show thesis
  proof (cases "n = 0")
    case n: True
    have "mb_send_loop m v n fl th k = Some (?k, Ret RT_EFULL)" using True t(1) n by (simp add: mb_send_loop_def)
    then show thesis by (rule that) (use i True in \<open>simp_all add: mb_effect_def sent_label_def\<close>)
  next
    case n: False
    obtain k' where k': "ipc_wait (WaitSend m) t (mb_flag (mailboxes k m)) fl n ?k = Some (k', Blocked)" "mb_kinv m k'" "mailboxes k' = mailboxes k"
      "lists k' (WaitSend m) = enqueue_waiter k (mb_flag (mailboxes k m)) t (lists k (WaitSend m))" "stat (threads k' t) = TH_SUSPEND fl"
      by (rule mb_kinv_wait [OF i t(2,3) disjI2 [OF refl], where flag = "mb_flag (mailboxes k m)" and fl = fl]) (rule that)
    have "mb_send_loop m v n fl th k = Some (k', Blocked)" using True t(1) n k'(1) by (simp add: mb_send_loop_def)
    then show thesis by (rule that) (use k' True in \<open>simp_all add: mb_effect_def sent_label_def\<close>)
  qed
qed

lemma mb_recv_loop_effect:
  assumes i: "mb_kinv m k" and t: "mb_entry (mailboxes k m) = 0 \<Longrightarrow> \<exists>t. th = Some t \<and> in_thread k t \<and> wait_time n"
  obtains k' r where "mb_recv_loop m n fl th k = Some (k', r)" "mb_effect m k (received_label r) k'"
    "(\<exists>v. r = Ret (RT_EOK, Some v)) \<longleftrightarrow> 0 < mb_entry (mailboxes k m)"
proof (cases "mb_entry (mailboxes k m) = 0")
  case False
  then have "length (mb_contents (mailboxes k m)) \<noteq> 0" by simp
  then have c: "mb_contents (mailboxes k m) \<noteq> []" by (simp only: length_0_conv) simp
  show thesis
    using mb_recv_some [OF i False, of n fl th] that False c by (metis (mono_tags, lifting) mb_effect_received gr0I)
next
  case True
  then obtain t where t: "th = Some t" "in_thread k t" "wait_time n" using t by blast
  let ?k = "upd_thread t (\<lambda>th. th\<lparr>error := RT_EINTR\<rparr>) k"
  show thesis
  proof (cases "n = 0")
    case n: True
    have "mb_recv_loop m n fl th k = Some (upd_thread t (\<lambda>th. th\<lparr>error := RT_ETIMEOUT\<rparr>) ?k, Ret (RT_ETIMEOUT, None))"
      using True t(1) n by (simp add: mb_recv_loop_def)
    then show thesis by (rule that) (use i True in \<open>simp_all add: mb_effect_def received_label_def\<close>)
  next
    case n: False
    obtain k' where k': "ipc_wait (Wait m) t (mb_flag (mailboxes k m)) fl n ?k = Some (k', Blocked)" "mb_kinv m k'" "mailboxes k' = mailboxes k"
      "lists k' (Wait m) = enqueue_waiter k (mb_flag (mailboxes k m)) t (lists k (Wait m))" "stat (threads k' t) = TH_SUSPEND fl"
      by (rule mb_kinv_wait [OF i t(2,3) disjI1 [OF refl], where flag = "mb_flag (mailboxes k m)" and fl = fl]) (rule that)
    have "mb_recv_loop m n fl th k = Some (k', Blocked)" using True t(1) n k'(1) by (simp add: mb_recv_loop_def)
    then show thesis by (rule that) (use k' True in \<open>simp_all add: mb_effect_def received_label_def\<close>)
  qed
qed

text \<open>Calls that may be made return, and are accepted exactly when there is room or a message.\<close>

lemma mb_send_effect:
  assumes i: "mb_kinv m k" and c: "may_call k n"
  obtains k' r where "mb_send_wait m v n fl k = Some (k', r)" "mb_effect m k (sent_label v r) k'"
    "r = Ret RT_EOK \<longleftrightarrow> mb_entry (mailboxes k m) < mb_size (mailboxes k m)"
proof -
  have ty: "rt_object_get_type (OMailBox m) k = Class_MailBox" using i by (simp add: mb_kinv_def)
  have av: "scheduler_available (n \<noteq> 0) k = Some ()"
    using c in_thread_available by (cases "n = 0") (auto simp: may_call_def scheduler_available_def [of False])
  show thesis
  proof (cases "mb_entry (mailboxes k m) = mb_size (mailboxes k m) \<and> n = 0")
    case True
    then have "mb_send_wait m v n fl k = Some (k, Ret RT_EFULL)" using ty av by (simp add: mb_send_wait_def)
    then show thesis by (rule that) (use i True in \<open>simp_all add: mb_effect_def sent_label_def\<close>)
  next
    case False
    have t: "\<exists>t. current k = Some t \<and> in_thread k t \<and> wait_time n" if "mb_entry (mailboxes k m) = mb_size (mailboxes k m)"
      using False that c by (auto simp: may_call_def in_thread_def)
    have "mb_send_wait m v n fl k = mb_send_loop m v n fl (current k) k" using ty av False by (auto simp: mb_send_wait_def)
    then show thesis using mb_send_loop_effect [OF i t, of v fl] that by metis
  qed
qed

lemma mb_recv_effect:
  assumes i: "mb_kinv m k" and c: "may_call k n"
  obtains k' r where "mb_recv m n fl k = Some (k', r)" "mb_effect m k (received_label r) k'"
    "(\<exists>v. r = Ret (RT_EOK, Some v)) \<longleftrightarrow> 0 < mb_entry (mailboxes k m)"
proof -
  have ty: "rt_object_get_type (OMailBox m) k = Class_MailBox" using i by (simp add: mb_kinv_def)
  have av: "scheduler_available (n \<noteq> 0) k = Some ()"
    using c in_thread_available by (cases "n = 0") (auto simp: may_call_def scheduler_available_def [of False])
  show thesis
  proof (cases "mb_entry (mailboxes k m) = 0 \<and> n = 0")
    case True
    then have "mb_recv m n fl k = Some (k, Ret (RT_ETIMEOUT, None))" using ty av by (simp add: mb_recv_def)
    then show thesis by (rule that) (use i True in \<open>simp_all add: mb_effect_def received_label_def\<close>)
  next
    case False
    have t: "\<exists>t. current k = Some t \<and> in_thread k t \<and> wait_time n" if "mb_entry (mailboxes k m) = 0"
      using False that c by (auto simp: may_call_def in_thread_def)
    have "mb_recv m n fl k = mb_recv_loop m n fl (current k) k" using ty av False by (auto simp: mb_recv_def)
    then show thesis using mb_recv_loop_effect [OF i t, of fl] that by metis
  qed
qed

lemma mb_step_effect:
  assumes "mb_step m k l k'" "mb_kinv m k"
  shows "mb_effect m k l k'"
  using assms
proof cases
  case (send n v fl r)
  then show ?thesis using mb_send_effect [OF assms(2) send(2), of v fl] by (metis option.inject prod.inject)
next
  case (send_resume t n start v fl r)
  show ?thesis
  proof (cases "error (threads k t) = RT_EOK")
    case True
    have "\<exists>t'. Some t = Some t' \<and> in_thread k t' \<and> wait_time (time_left n start k)" using send_resume by blast
    from mb_send_loop_effect [OF assms(2) this, of v fl] True send_resume show ?thesis
      by (metis mb_send_resume_def option.inject prod.inject)
  qed (use send_resume assms(2) in \<open>auto simp: mb_send_resume_def mb_effect_def sent_label_def\<close>)
next
  case (recv n fl r)
  then show ?thesis using mb_recv_effect [OF assms(2) recv(2), of fl] by (metis option.inject prod.inject)
next
  case (recv_resume t n start fl r)
  show ?thesis
  proof (cases "error (threads k t) = RT_EOK")
    case True
    have "\<exists>t'. Some t = Some t' \<and> in_thread k t' \<and> wait_time (time_left n start k)" using recv_resume by blast
    from mb_recv_loop_effect [OF assms(2) this, of fl] True recv_resume show ?thesis
      by (metis mb_recv_resume_def option.inject prod.inject)
  next
    case False
    then show ?thesis using recv_resume assms(2) by (auto simp: mb_recv_resume_def mb_effect_def received_label_def split: err.splits)
  qed
next
  case (timed_out t)
  have i: "sched_inv k" "current k \<noteq> None" using assms(2) by (simp_all add: mb_kinv_def endpoints_ok_def)
  have "current k' \<noteq> None" using timed_out i(2)
    by (auto simp: thread_timeout_def Let_def split: if_splits dest!: rt_schedule_current simp: tlist_remove_def)
  then show ?thesis using mb_effect_frame [OF assms(2)] timed_out i(1) sched_timeout only_core_timeout shrinks_timeout by metis
next
  case yields
  have i: "sched_inv k" "current k \<noteq> None" using assms(2) by (simp_all add: mb_kinv_def endpoints_ok_def)
  have "current k' \<noteq> None" using yields i(2) by (auto simp: rt_thread_yield_def dest!: rt_schedule_current)
  then show ?thesis using mb_effect_frame [OF assms(2)] yields i(1) sched_yield only_core_yield shrinks_yield by metis
next
  case (sleeps n x)
  have i: "sched_inv k" "current k \<noteq> None" using assms(2) by (simp_all add: mb_kinv_def endpoints_ok_def)
  have "current k' \<noteq> None" by (rule sleep_current [OF i(1) sleeps(2) i(2)])
  then show ?thesis using mb_effect_frame [OF assms(2)] sleeps i(1) sched_sleep only_core_sleep shrinks_sleep by metis
qed

lemma mb_run_contents:
  assumes "mb_run m k ls k'" "mb_kinv m k"
  shows "mb_kinv m k' \<and> mb_size (mailboxes k' m) = mb_size (mailboxes k m) \<and>
    mb_contents (mailboxes k m) @ mb_accepted ls = mb_delivered ls @ mb_contents (mailboxes k' m)"
  using assms
proof induction
  case (step ls k1 l k2)
  then have "mb_effect m k1 l k2" using mb_step_effect by blast
  then show ?case using step by (cases l) (auto simp: mb_effect_def mb_accepted_def mb_delivered_def)
qed (simp add: mb_accepted_def mb_delivered_def)

text \<open>
  C4: For any interleaving of sends and receives on a mailbox, blocking or not, by threads and interrupts, with threads that time out, yield and sleep in
  between: the messages stored at the start followed by the accepted ones are the delivered ones followed by those stored at the end, so that
  nothing is lost, repeated or reordered, and the mailbox never holds more than its size.  In every state reached a call that may be made returns or
  blocks, a send is accepted exactly when there is room and a receive delivers exactly when there is a message, and every accepted send wakes the first
  waiting receiver and every delivery the first waiting sender.
\<close>
theorem mailbox_fifo:
  assumes "mb_kinv m k" "mb_run m k ls k'"
  shows "mb_contents (mailboxes k m) @ mb_accepted ls = mb_delivered ls @ mb_contents (mailboxes k' m) \<and> mb_kinv m k' \<and>
    length (mb_contents (mailboxes k' m)) \<le> mb_size (mailboxes k m) \<and>
    (\<forall>v k2. mb_step m k' (Sent v) k2 \<longrightarrow> woke_first (Wait m) k' k2) \<and>
    (\<forall>v k2. mb_step m k' (Received v) k2 \<longrightarrow> woke_first (WaitSend m) k' k2) \<and>
    (\<forall>n fl v. may_call k' n \<longrightarrow>
       (\<exists>k2 r. mb_send_wait m v n fl k' = Some (k2, r) \<and> (r = Ret RT_EOK \<longleftrightarrow> length (mb_contents (mailboxes k' m)) < mb_size (mailboxes k m))) \<and>
       (\<exists>k2 r. mb_recv m n fl k' = Some (k2, r) \<and> ((\<exists>x. r = Ret (RT_EOK, Some x)) \<longleftrightarrow> mb_contents (mailboxes k' m) \<noteq> [])))"
proof -
  have r: "mb_kinv m k'" "mb_size (mailboxes k' m) = mb_size (mailboxes k m)"
    "mb_contents (mailboxes k m) @ mb_accepted ls = mb_delivered ls @ mb_contents (mailboxes k' m)"
    using mb_run_contents [OF assms(2,1)] by simp_all
  have e: "0 < mb_entry (mailboxes k' m) \<longleftrightarrow> mb_contents (mailboxes k' m) \<noteq> []" by (simp flip: length_greater_0_conv)
  show ?thesis
  proof (intro conjI allI impI)
    show "mb_contents (mailboxes k m) @ mb_accepted ls = mb_delivered ls @ mb_contents (mailboxes k' m)" "mb_kinv m k'" by (fact r)+
    show "length (mb_contents (mailboxes k' m)) \<le> mb_size (mailboxes k m)" using r(1,2) by (simp add: mb_kinv_def mb_inv_def)
    show "woke_first (Wait m) k' k2" if "mb_step m k' (Sent v) k2" for v k2 using mb_step_effect [OF that r(1)] by (simp add: mb_effect_def)
    show "woke_first (WaitSend m) k' k2" if "mb_step m k' (Received v) k2" for v k2 using mb_step_effect [OF that r(1)] by (simp add: mb_effect_def)
    fix n fl v assume c: "may_call k' n"
    obtain k2 x where "mb_send_wait m v n fl k' = Some (k2, x)" "x = Ret RT_EOK \<longleftrightarrow> mb_entry (mailboxes k' m) < mb_size (mailboxes k' m)"
      by (rule mb_send_effect [OF r(1) c, of v fl])
    then show "\<exists>k2 r. mb_send_wait m v n fl k' = Some (k2, r) \<and> (r = Ret RT_EOK \<longleftrightarrow> length (mb_contents (mailboxes k' m)) < mb_size (mailboxes k m))"
      using r(2) by auto
    obtain k3 y where "mb_recv m n fl k' = Some (k3, y)" "(\<exists>v. y = Ret (RT_EOK, Some v)) \<longleftrightarrow> 0 < mb_entry (mailboxes k' m)"
      by (rule mb_recv_effect [OF r(1) c, of fl])
    then show "\<exists>k2 r. mb_recv m n fl k' = Some (k2, r) \<and> ((\<exists>x. r = Ret (RT_EOK, Some x)) \<longleftrightarrow> mb_contents (mailboxes k' m) \<noteq> [])"
      unfolding e [symmetric] by (intro exI conjI)
  qed
qed

text \<open>
  C23: \<open>rt_mb_urgent\<close> puts its message in front of the stored ones, so that the next receive returns it, and
  wakes the first receiver; on a full mailbox it fails with \<open>-RT_EFULL\<close> and changes nothing.
\<close>
theorem mb_urgent_first:
  assumes i: "mb_kinv m k"
  shows "if mb_entry (mailboxes k m) = mb_size (mailboxes k m) then rt_mb_urgent m v k = Some (k, Ret RT_EFULL)
    else \<exists>k'. rt_mb_urgent m v k = Some (k', Ret RT_EOK) \<and> mb_kinv m k' \<and>
      mb_contents (mailboxes k' m) = v # mb_contents (mailboxes k m) \<and> lists k' (Wait m) = tl (lists k (Wait m)) \<and>
      (lists k (Wait m) \<noteq> [] \<longrightarrow> runnable (threads k' (hd (lists k (Wait m)))))"
proof (cases "mb_entry (mailboxes k m) = mb_size (mailboxes k m)")
  case True
  then show ?thesis using i by (simp add: rt_mb_urgent_def mb_kinv_def)
next
  case False
  have bi: "mb_inv (mailboxes k m)" and ty: "rt_object_get_type (OMailBox m) k = Class_MailBox" using i by (simp_all add: mb_kinv_def)
  note st = mb_store_front_inv [OF bi False refl, of v]
  let ?k = "upd_mb m (mb_store_front v) k"
  have k1: "?k = upd_mb m (\<lambda>_. mb_store_front v (mailboxes k m)) k" by (simp add: upd_mb_def)
  obtain k' where k': "wake_other (Wait m) RT_EOK ?k = Some (k', Ret RT_EOK)" "mb_kinv m k'"
    "mailboxes k' = (mailboxes k)(m := mb_store_front v (mailboxes k m))"
    "lists k' (Wait m) = tl (lists k (Wait m))" "\<And>q'. \<not> is_ready q' \<Longrightarrow> q' \<noteq> Wait m \<Longrightarrow> lists k' q' = lists k q'"
    "lists k (Wait m) \<noteq> [] \<Longrightarrow> runnable (threads k' (hd (lists k (Wait m)))) \<and> error (threads k' (hd (lists k (Wait m)))) = RT_EOK"
    by (rule mb_kinv_wake [OF i st(1) k1 disjI1 [OF refl], where r = RT_EOK]) (rule that)
  then show ?thesis using False ty st(2) by (auto simp: rt_mb_urgent_def)
qed


subsection \<open>Witnesses\<close>

text \<open>The demonstration kernel with a mailbox of one word, empty or full.\<close>

definition demo_mb :: "nat \<Rightarrow> kernel \<Rightarrow> kernel" where
  "demo_mb n k = upd_mb 9 (\<lambda>_. \<lparr>mb_flag = RT_IPC_FLAG_FIFO, msg_pool = [7], mb_size = 1, mb_entry = n, in_offset = 0, out_offset = 0\<rparr>) k"

lemma demo_mb_type [simp]: "rt_object_get_type x (demo_mb n k) = rt_object_get_type x k"
  by (simp add: demo_mb_def rt_object_get_type_def)

lemma demo_mb:
  assumes "n \<le> 1"
  shows "mb_kinv 9 (demo_mb n demo_ipc)" "in_thread (demo_mb n demo_ipc) 1" "mb_entry (mailboxes (demo_mb n k) 9) = n"
    "mb_size (mailboxes (demo_mb n k) 9) = 1" "lists (demo_mb n k) = lists k"
proof -
  have it: "in_thread demo_ipc 1" by (rule demo_ipc_thread)
  have "registered (demo_mb n demo_ipc) 1" by (simp add: registered_def)
  then show "in_thread (demo_mb n demo_ipc) 1" using it by (simp add: in_thread_def) (simp add: demo_mb_def upd_mb_def)
  have c: "sched_inv (demo_mb n demo_ipc)" "current (demo_mb n demo_ipc) \<noteq> None" "lists (demo_mb n demo_ipc) (Wait 9) = []"
    "lists (demo_mb n demo_ipc) (WaitSend 9) = []"
    using it demo_ipc_thread(2,3) by (simp_all add: demo_mb_def in_thread_def)
  show "mb_kinv 9 (demo_mb n demo_ipc)"
    using assms c by (simp add: mb_kinv_def endpoints_ok_def waiters_ok_def) (simp add: demo_mb_def mb_inv_def)
  show "mb_entry (mailboxes (demo_mb n k) 9) = n" "mb_size (mailboxes (demo_mb n k) 9) = 1" "lists (demo_mb n k) = lists k"
    by (simp_all add: demo_mb_def)
qed

lemma demo_mb_contents [simp]: "mb_contents (mailboxes (demo_mb (Suc 0) k) 9) = [7]"
  by (simp add: demo_mb_def mb_contents_def)

theorem mb_blocked_sender_witness:
  "\<exists>k1 k2 k3. mb_send_wait 9 8 25 RT_UNINTERRUPTIBLE (demo_mb 1 demo_ipc) = Some (k1, Blocked) \<and>
     rt_mb_recv 9 0 k1 = Some (k2, Ret (RT_EOK, Some 7)) \<and>
     mb_send_resume 9 8 25 RT_UNINTERRUPTIBLE 1 (tick (demo_mb 1 demo_ipc)) k2 = Some (k3, Ret RT_EOK) \<and>
     mb_contents (mailboxes k3 9) = [8]"
  using mb_blocked_sender [OF demo_mb(1,2), of 1 25 8 RT_UNINTERRUPTIBLE]
  by (simp add: demo_mb demo_ipc_thread wait_time_def RT_TICK_MAX2_def) blast

theorem mb_blocked_receiver_witness:
  "\<exists>k1 k2 k3. mb_recv 9 25 RT_UNINTERRUPTIBLE (demo_mb 0 demo_ipc) = Some (k1, Blocked) \<and>
     rt_mb_send 9 8 k1 = Some (k2, Ret RT_EOK) \<and>
     mb_recv_resume 9 25 RT_UNINTERRUPTIBLE 1 (tick (demo_mb 0 demo_ipc)) k2 = Some (k3, Ret (RT_EOK, Some 8))"
  using mb_blocked_receiver [OF demo_mb(1,2), of 0 25 RT_UNINTERRUPTIBLE 8]
  by (simp add: demo_mb demo_ipc_thread wait_time_def RT_TICK_MAX2_def) blast

text \<open>The full mailbox: a sender blocks, a receive delivers the stored word and wakes the sender.\<close>

theorem mailbox_fifo_witness:
  "\<exists>k1 k2. mb_run 9 (demo_mb 1 demo_ipc) [Silent] k1 \<and> mb_step 9 k1 (Received 7) k2 \<and> mb_contents (mailboxes k1 9) = [7] \<and>
     woke_first (WaitSend 9) k1 k2"
proof -
  let ?k = "demo_mb 1 demo_ipc"
  have d: "mb_kinv 9 ?k" "in_thread ?k 1" by (rule demo_mb; simp)+
  have c: "may_call ?k 25" using d(2) by (auto simp: may_call_def wait_time_def RT_TICK_MAX2_def)
  obtain k1 r where k1: "mb_send_wait 9 8 25 RT_UNINTERRUPTIBLE ?k = Some (k1, r)" "mb_effect 9 ?k (sent_label 8 r) k1"
    "r = Ret RT_EOK \<longleftrightarrow> mb_entry (mailboxes ?k 9) < mb_size (mailboxes ?k 9)"
    by (rule mb_send_effect [OF d(1) c]) (rule that)
  have l: "sent_label 8 r = Silent" using k1(3) by (simp add: sent_label_def demo_mb)
  have c1: "mb_contents (mailboxes k1 9) = [7]" "mb_kinv 9 k1" using k1(2) by (simp_all add: l mb_effect_def)
  have run: "mb_run 9 ?k [Silent] k1"
    using mb_run.step [OF mb_run.start mb_step.send [OF c k1(1)]] by (simp add: l)
  have "may_call k1 0" by (simp add: may_call_def)
  then obtain k2 r2 where k2: "mb_recv 9 0 RT_UNINTERRUPTIBLE k1 = Some (k2, r2)" "mb_effect 9 k1 (received_label r2) k2"
    "(\<exists>v. r2 = Ret (RT_EOK, Some v)) \<longleftrightarrow> 0 < mb_entry (mailboxes k1 9)"
    by (rule mb_recv_effect [OF c1(2)]) (rule that)
  have "0 < length (mb_contents (mailboxes k1 9))" by (simp only: c1) simp
  then obtain v where v: "r2 = Ret (RT_EOK, Some v)" using k2(3) by auto
  then have "v = 7" using k2(2) c1(1) by (simp add: received_label_def mb_effect_def)
  then have "mb_step 9 k1 (Received 7) k2"
    using mb_step.recv [OF \<open>may_call k1 0\<close> k2(1)] v by (simp add: received_label_def)
  with mailbox_fifo [OF d(1) run] run c1(1) show ?thesis by blast
qed

theorem mb_urgent_first_witness:
  "\<exists>k'. rt_mb_urgent 9 8 (demo_mb 0 demo_ipc) = Some (k', Ret RT_EOK) \<and> mb_contents (mailboxes k' 9) = [8]"
proof -
  have i: "mb_kinv 9 (demo_mb 0 demo_ipc)" by (rule demo_mb) simp
  have "mb_contents (mailboxes (demo_mb 0 demo_ipc) 9) = []" by (simp add: mb_contents_def demo_mb)
  then show ?thesis using mb_urgent_first [OF i, of 8] by (auto simp: demo_mb)
qed

end
