(* ===== verification/KMq.thy ===== *)
theory KMq
  imports KIpc Fifo
begin

text \<open>
  Message queues (\<open>src/ipc.c\<close>): message blocks of a fixed size on two singly linked lists, the queued
  messages and the free blocks.  Interrupts are enabled while a message is copied, so that a block is on
  neither list between the critical sections of a send or a receive.
\<close>

subsection \<open>The code\<close>

definition upd_mq :: "oid \<Rightarrow> (rt_messagequeue \<Rightarrow> rt_messagequeue) \<Rightarrow> kernel \<Rightarrow> kernel" where
  "upd_mq m f k = k\<lparr>mqs := (mqs k)(m := f (mqs k m))\<rparr>"

text \<open>\<open>RT_ALIGN (n, RT_ALIGN_SIZE)\<close> on 32-bit sizes, and the initialisation of the free list.\<close>

definition rt_align :: "nat \<Rightarrow> nat" where
  "rt_align n = (n + 7) mod 2 ^ 32 div 8 * 8"

definition mq_add_free :: "nat \<Rightarrow> rt_messagequeue \<Rightarrow> rt_messagequeue" where
  "mq_add_free b mq = mq\<lparr>mq_next := (mq_next mq)(b := mq_free mq), mq_free := Some b\<rparr>"

definition mq_setup :: "(nat \<Rightarrow> u8 list) \<Rightarrow> nat \<Rightarrow> nat \<Rightarrow> ipc_flag \<Rightarrow> rt_messagequeue \<Rightarrow> rt_messagequeue" where
  "mq_setup pool msize msgs flag mq =
     fold mq_add_free [0..<msgs]
       (mq\<lparr>mq_flag := flag, msg_size := msize, max_msgs := msgs, mq_entry := 0, mq_head := None, mq_tail := None,
           mq_free := None, mq_data := pool\<rparr>)"

definition rt_mq_init ::
  "oid \<Rightarrow> string \<Rightarrow> (nat \<Rightarrow> u8 list) \<Rightarrow> nat \<Rightarrow> nat \<Rightarrow> ipc_flag \<Rightarrow> kernel \<Rightarrow> (kernel \<times> err) option" where
  "rt_mq_init m name pool msize pool_size flag k =
     do {
       k \<leftarrow> rt_object_init (OMq m) Class_MessageQueue name k;
       let k = ipc_object_init m k;
       let msgs = pool_size div (rt_align msize + 4) mod 0x10000;
       if msgs = 0
       then Some (upd_mq m (\<lambda>mq. mq\<lparr>mq_flag := flag, msg_size := msize mod 0x10000, max_msgs := 0\<rparr>) k, RT_EINVAL)
       else
         let k = upd_mq m (mq_setup pool (msize mod 0x10000) msgs flag) k
         in Some (k\<lparr>lists := (lists k)(WaitSend m := [])\<rparr>, RT_EOK)
     }"

definition rt_mq_detach :: "oid \<Rightarrow> kernel \<Rightarrow> kernel option" where
  "rt_mq_detach m k =
     do {
       rt_assert (rt_object_get_type (OMq m) k = Class_MessageQueue);
       rt_assert (rt_object_is_systemobject (OMq m) k);
       k \<leftarrow> ipc_list_resume_all (Wait m) k;
       k \<leftarrow> ipc_list_resume_all (WaitSend m) k;
       Some (rt_object_detach (OMq m) k)
     }"

definition rt_mq_create ::
  "oid option \<Rightarrow> (nat \<Rightarrow> u8 list) option \<Rightarrow> string \<Rightarrow> nat \<Rightarrow> nat \<Rightarrow> ipc_flag \<Rightarrow> kernel \<Rightarrow> (kernel \<times> oid option) option" where
  "rt_mq_create block pool name msize msgs flag k =
     do {
       not_in_interrupt k;
       (k, _) \<leftarrow> rt_object_allocate (map_option OMq block) Class_MessageQueue name k;
       case block of
         None \<Rightarrow> Some (k, None)
       | Some m \<Rightarrow>
           let k = ipc_object_init m k in
           (case pool of
              None \<Rightarrow> do { k \<leftarrow> rt_object_delete (OMq m) k; Some (k, None) }
            | Some p \<Rightarrow>
                let k = upd_mq m (mq_setup p (msize mod 0x10000) (msgs mod 0x10000) flag) k
                in Some (k\<lparr>lists := (lists k)(WaitSend m := [])\<rparr>, Some m))
     }"

definition rt_mq_delete :: "oid \<Rightarrow> kernel \<Rightarrow> kernel option" where
  "rt_mq_delete m k =
     do {
       rt_assert (rt_object_get_type (OMq m) k = Class_MessageQueue);
       rt_assert (\<not> rt_object_is_systemobject (OMq m) k);
       not_in_interrupt k;
       k \<leftarrow> ipc_list_resume_all (Wait m) k;
       k \<leftarrow> ipc_list_resume_all (WaitSend m) k;
       rt_object_delete (OMq m) k
     }"

text \<open>The critical sections of a send: taking a free block, filling it outside the lock, linking it.\<close>

definition mq_take_free :: "nat \<Rightarrow> rt_messagequeue \<Rightarrow> rt_messagequeue" where
  "mq_take_free b mq = mq\<lparr>mq_free := mq_next mq b\<rparr>"

definition mq_copy_in :: "nat \<Rightarrow> u8 list \<Rightarrow> rt_messagequeue \<Rightarrow> rt_messagequeue" where
  "mq_copy_in b buf mq = mq\<lparr>mq_data := (mq_data mq)(b := buf @ drop (length buf) (mq_data mq b))\<rparr>"

definition mq_fill :: "nat \<Rightarrow> u8 list \<Rightarrow> rt_messagequeue \<Rightarrow> rt_messagequeue" where
  "mq_fill b buf mq = mq_copy_in b buf (mq\<lparr>mq_next := (mq_next mq)(b := None)\<rparr>)"

definition mq_link_tail :: "nat \<Rightarrow> rt_messagequeue \<Rightarrow> rt_messagequeue" where
  "mq_link_tail b mq =
     (let mq = (case mq_tail mq of None \<Rightarrow> mq | Some t \<Rightarrow> mq\<lparr>mq_next := (mq_next mq)(t := Some b)\<rparr>);
          mq = mq\<lparr>mq_tail := Some b\<rparr>
      in (if mq_head mq = None then mq\<lparr>mq_head := Some b\<rparr> else mq))"

definition mq_link_head :: "nat \<Rightarrow> rt_messagequeue \<Rightarrow> rt_messagequeue" where
  "mq_link_head b mq =
     (let mq = mq\<lparr>mq_next := (mq_next mq)(b := mq_head mq), mq_head := Some b\<rparr>
      in (if mq_tail mq = None then mq\<lparr>mq_tail := Some b\<rparr> else mq))"

text \<open>The two critical sections of a receive.\<close>

definition mq_unlink :: "nat \<Rightarrow> rt_messagequeue \<Rightarrow> rt_messagequeue" where
  "mq_unlink b mq =
     (let mq = mq\<lparr>mq_head := mq_next mq b\<rparr>;
          mq = (if mq_tail mq = Some b then mq\<lparr>mq_tail := None\<rparr> else mq)
      in (if mq_entry mq > 0 then mq\<lparr>mq_entry := mq_entry mq - 1\<rparr> else mq))"

text \<open>The count of a queue after linking; at 65535 messages the send fails.\<close>

definition mq_count :: "oid \<Rightarrow> kernel \<Rightarrow> (kernel \<times> err outcome) option" where
  "mq_count m k =
     (if mq_entry (mqs k m) < 0xffff
      then wake_other (Wait m) RT_EOK (upd_mq m (\<lambda>mq. mq\<lparr>mq_entry := mq_entry mq + 1\<rparr>) k)
      else Some (k, Ret RT_EFULL))"

definition mq_send_loop ::
  "oid \<Rightarrow> u8 list \<Rightarrow> cint \<Rightarrow> suspend_flag \<Rightarrow> tid option \<Rightarrow> kernel \<Rightarrow> (kernel \<times> err outcome) option" where
  "mq_send_loop m buf timeout sflag thread k =
     (case mq_free (mqs k m) of
        None \<Rightarrow> do {
          t \<leftarrow> thread;
          let k = upd_thread t (\<lambda>th. th\<lparr>error := RT_EINTR\<rparr>) k;
          if timeout = 0 then Some (k, Ret RT_EFULL)
          else ipc_wait (WaitSend m) t (mq_flag (mqs k m)) sflag timeout k
        }
      | Some b \<Rightarrow> mq_count m (upd_mq m (\<lambda>mq. mq_link_tail b (mq_fill b buf (mq_take_free b mq))) k))"

definition mq_send_wait :: "oid \<Rightarrow> u8 list \<Rightarrow> cint \<Rightarrow> suspend_flag \<Rightarrow> kernel \<Rightarrow> (kernel \<times> err outcome) option" where
  "mq_send_wait m buf timeout sflag k =
     do {
       rt_assert (rt_object_get_type (OMq m) k = Class_MessageQueue);
       rt_assert (length buf \<noteq> 0);
       scheduler_available (timeout \<noteq> 0) k;
       if length buf > msg_size (mqs k m) then Some (k, Ret RT_ERROR)
       else if mq_free (mqs k m) = None \<and> timeout = 0 then Some (k, Ret RT_EFULL)
       else mq_send_loop m buf timeout sflag (current k) k
     }"

definition mq_send_resume ::
  "oid \<Rightarrow> u8 list \<Rightarrow> cint \<Rightarrow> suspend_flag \<Rightarrow> tid \<Rightarrow> u32 \<Rightarrow> kernel \<Rightarrow> (kernel \<times> err outcome) option" where
  "mq_send_resume m buf timeout sflag t start k =
     (if error (threads k t) \<noteq> RT_EOK then Some (k, Ret (error (threads k t)))
      else mq_send_loop m buf (time_left timeout start k) sflag (Some t) k)"


definition rt_mq_send_wait_interruptible :: "oid \<Rightarrow> u8 list \<Rightarrow> cint \<Rightarrow> kernel \<Rightarrow> (kernel \<times> err outcome) option" where
  "rt_mq_send_wait_interruptible m buf timeout k = mq_send_wait m buf timeout RT_INTERRUPTIBLE k"

definition rt_mq_send_wait_killable :: "oid \<Rightarrow> u8 list \<Rightarrow> cint \<Rightarrow> kernel \<Rightarrow> (kernel \<times> err outcome) option" where
  "rt_mq_send_wait_killable m buf timeout k = mq_send_wait m buf timeout RT_KILLABLE k"


definition rt_mq_send_interrupt :: "oid \<Rightarrow> u8 list \<Rightarrow> kernel \<Rightarrow> (kernel \<times> err outcome) option" where
  "rt_mq_send_interrupt m buf k = rt_mq_send_wait_interruptible m buf 0 k"

definition rt_mq_send_killable :: "oid \<Rightarrow> u8 list \<Rightarrow> kernel \<Rightarrow> (kernel \<times> err outcome) option" where
  "rt_mq_send_killable m buf k = rt_mq_send_wait_killable m buf 0 k"

definition rt_mq_urgent :: "oid \<Rightarrow> u8 list \<Rightarrow> kernel \<Rightarrow> (kernel \<times> err outcome) option" where
  "rt_mq_urgent m buf k =
     do {
       rt_assert (rt_object_get_type (OMq m) k = Class_MessageQueue);
       rt_assert (length buf \<noteq> 0);
       if length buf > msg_size (mqs k m) then Some (k, Ret RT_ERROR)
       else (case mq_free (mqs k m) of
          None \<Rightarrow> Some (k, Ret RT_EFULL)
        | Some b \<Rightarrow> mq_count m (upd_mq m (\<lambda>mq. mq_link_head b (mq_copy_in b buf (mq_take_free b mq))) k))
     }"

text \<open>A receive into a buffer of \<open>n\<close> bytes returns the bytes copied into it.\<close>

definition mq_recv_loop ::
  "oid \<Rightarrow> nat \<Rightarrow> cint \<Rightarrow> suspend_flag \<Rightarrow> tid option \<Rightarrow> kernel \<Rightarrow> (kernel \<times> (err \<times> u8 list option) outcome) option" where
  "mq_recv_loop m n timeout sflag thread k =
     (if mq_entry (mqs k m) = 0 then do {
        t \<leftarrow> thread;
        let k = upd_thread t (\<lambda>th. th\<lparr>error := RT_EINTR\<rparr>) k;
        if timeout = 0 then Some (upd_thread t (\<lambda>th. th\<lparr>error := RT_ETIMEOUT\<rparr>) k, Ret (RT_ETIMEOUT, None))
        else map_option failed (ipc_wait (Wait m) t (mq_flag (mqs k m)) sflag timeout k)
      }
      else do {
        b \<leftarrow> mq_head (mqs k m);
        let k = upd_mq m (mq_unlink b) k;
        let buf = take (if n > msg_size (mqs k m) then msg_size (mqs k m) else n) (mq_data (mqs k m) b);
        wake_other (WaitSend m) (RT_EOK, Some buf) (upd_mq m (mq_add_free b) k)
      })"

definition mq_recv ::
  "oid \<Rightarrow> nat \<Rightarrow> cint \<Rightarrow> suspend_flag \<Rightarrow> kernel \<Rightarrow> (kernel \<times> (err \<times> u8 list option) outcome) option" where
  "mq_recv m n timeout sflag k =
     do {
       rt_assert (rt_object_get_type (OMq m) k = Class_MessageQueue);
       rt_assert (n \<noteq> 0);
       scheduler_available (timeout \<noteq> 0) k;
       if mq_entry (mqs k m) = 0 \<and> timeout = 0 then Some (k, Ret (RT_ETIMEOUT, None))
       else mq_recv_loop m n timeout sflag (current k) k
     }"

definition mq_recv_resume ::
  "oid \<Rightarrow> nat \<Rightarrow> cint \<Rightarrow> suspend_flag \<Rightarrow> tid \<Rightarrow> u32 \<Rightarrow> kernel \<Rightarrow> (kernel \<times> (err \<times> u8 list option) outcome) option" where
  "mq_recv_resume m n timeout sflag t start k =
     (if error (threads k t) \<noteq> RT_EOK then Some (k, Ret (error (threads k t), None))
      else mq_recv_loop m n (time_left timeout start k) sflag (Some t) k)"


definition rt_mq_recv_interruptible :: "oid \<Rightarrow> nat \<Rightarrow> cint \<Rightarrow> kernel \<Rightarrow> (kernel \<times> (err \<times> u8 list option) outcome) option" where
  "rt_mq_recv_interruptible m n timeout k = mq_recv m n timeout RT_INTERRUPTIBLE k"

definition rt_mq_recv_killable :: "oid \<Rightarrow> nat \<Rightarrow> cint \<Rightarrow> kernel \<Rightarrow> (kernel \<times> (err \<times> u8 list option) outcome) option" where
  "rt_mq_recv_killable m n timeout k = mq_recv m n timeout RT_KILLABLE k"

text \<open>The loop of the reset moves every queued block to the free list.\<close>

partial_function (option) mq_drain :: "rt_messagequeue \<Rightarrow> rt_messagequeue option" where
  "mq_drain mq =
     (case mq_head mq of
        None \<Rightarrow> Some mq
      | Some b \<Rightarrow>
          let mq = mq\<lparr>mq_head := mq_next mq b\<rparr>;
              mq = (if mq_tail mq = Some b then mq\<lparr>mq_tail := None\<rparr> else mq)
          in mq_drain (mq_add_free b mq))"

definition rt_mq_control :: "oid \<Rightarrow> ipc_cmd \<Rightarrow> kernel \<Rightarrow> (kernel \<times> err) option" where
  "rt_mq_control m cmd k =
     do {
       rt_assert (rt_object_get_type (OMq m) k = Class_MessageQueue);
       case cmd of
         RT_IPC_CMD_RESET _ \<Rightarrow> do {
           k \<leftarrow> ipc_list_resume_all (Wait m) k;
           k \<leftarrow> ipc_list_resume_all (WaitSend m) k;
           mq \<leftarrow> mq_drain (mqs k m);
           let k = upd_mq m (\<lambda>_. mq\<lparr>mq_entry := 0\<rparr>) k;
           k \<leftarrow> rt_schedule k;
           Some (k, RT_EOK)
         }
       | RT_IPC_CMD_OTHER _ \<Rightarrow> Some (k, RT_ERROR)
     }"


subsection \<open>The two linked lists\<close>

fun chain :: "(nat \<Rightarrow> nat option) \<Rightarrow> nat option \<Rightarrow> nat list \<Rightarrow> bool" where
  "chain nx p [] \<longleftrightarrow> p = None"
| "chain nx p (b # bs) \<longleftrightarrow> p = Some b \<and> chain nx (nx b) bs"

lemma chain_upd [simp]: "b \<notin> set bs \<Longrightarrow> chain (nx(b := x)) p bs = chain nx p bs"
  by (induction bs arbitrary: p) auto

lemma chain_unique: "chain nx p as \<Longrightarrow> chain nx p bs \<Longrightarrow> as = bs"
  by (induction as arbitrary: p bs) (case_tac bs; auto)+

lemma chain_snoc:
  "chain nx p bs \<Longrightarrow> bs \<noteq> [] \<Longrightarrow> distinct bs \<Longrightarrow> b \<notin> set bs \<Longrightarrow> nx b = None \<Longrightarrow>
    chain (nx(last bs := Some b)) p (bs @ [b])"
  by (induction bs arbitrary: p) auto

text \<open>
  The blocks of a queue are either queued (\<open>qs\<close>), free (\<open>fs\<close>), or in the hands of a sender or receiver
  between its critical sections (\<open>F\<close>).
\<close>

definition mq_lists :: "nat set \<Rightarrow> rt_messagequeue \<Rightarrow> nat list \<Rightarrow> nat list \<Rightarrow> bool" where
  "mq_lists F mq qs fs \<longleftrightarrow> chain (mq_next mq) (mq_head mq) qs \<and> chain (mq_next mq) (mq_free mq) fs \<and>
     distinct (qs @ fs) \<and> F \<inter> set (qs @ fs) = {} \<and> F \<union> set (qs @ fs) = {0..<max_msgs mq} \<and>
     mq_tail mq = (if qs = [] then None else Some (last qs)) \<and> mq_entry mq = length qs \<and>
     max_msgs mq \<le> 0xffff \<and> (\<forall>b<max_msgs mq. length (mq_data mq b) = msg_size mq)"

lemma mq_lists_take_free:
  assumes "mq_lists F mq qs (b # fs)"
  shows "mq_lists (insert b F) (mq_take_free b mq) qs fs" "mq_free mq = Some b"
  using assms by (auto simp: mq_lists_def mq_take_free_def)

lemma mq_lists_copy:
  assumes "mq_lists F mq qs fs" "b \<in> F" "length buf \<le> msg_size mq"
  shows "mq_lists F (mq_copy_in b buf mq) qs fs"
  using assms by (auto simp: mq_lists_def mq_copy_in_def)

lemma mq_lists_fill:
  assumes "mq_lists F mq qs fs" "b \<in> F" "length buf \<le> msg_size mq"
  shows "mq_lists F (mq_fill b buf mq) qs fs"
proof -
  have "b \<notin> set qs" "b \<notin> set fs" using assms by (auto simp: mq_lists_def)
  then have "mq_lists F (mq\<lparr>mq_next := (mq_next mq)(b := None)\<rparr>) qs fs" using assms by (simp add: mq_lists_def)
  then show ?thesis unfolding mq_fill_def by (rule mq_lists_copy) (use assms in simp_all)
qed

lemma mq_lists_count: "mq_lists F mq qs fs \<Longrightarrow> length qs + length fs + card F = max_msgs mq"
proof -
  assume m: "mq_lists F mq qs fs"
  have "card (F \<union> set (qs @ fs)) = card F + card (set (qs @ fs))"
    by (rule card_Un_disjoint) (use m in \<open>auto simp: mq_lists_def intro: finite_subset [of _ "{0..<max_msgs mq}"]\<close>)
  then show ?thesis using m distinct_card [of "qs @ fs"] by (simp add: mq_lists_def)
qed

lemma mq_lists_link_tail:
  assumes m: "mq_lists F mq qs fs" and b: "b \<in> F" "mq_next mq b = None" and mq': "mq' = mq_link_tail b mq"
  shows "mq_lists (F - {b}) (mq'\<lparr>mq_entry := mq_entry mq' + 1\<rparr>) (qs @ [b]) fs" "mq_entry mq' < 0xffff"
    "mq_data mq' = mq_data mq" "msg_size mq' = msg_size mq" "max_msgs mq' = max_msgs mq"
proof -
  have n: "b \<notin> set qs" "b \<notin> set fs" using m b by (auto simp: mq_lists_def)
  have f: "finite F" using m by (auto simp: mq_lists_def intro: finite_subset [of _ "{0..<max_msgs mq}"])
  then have "0 < card F" using b by (auto simp: card_gt_0_iff)
  then have "length qs < 0xffff" using mq_lists_count [OF m] m by (simp add: mq_lists_def)
  then show "mq_entry mq' < 0xffff" using m by (simp add: mq_lists_def mq' mq_link_tail_def Let_def split: option.splits)
  show "mq_data mq' = mq_data mq" "msg_size mq' = msg_size mq" "max_msgs mq' = max_msgs mq"
    by (simp_all add: mq' mq_link_tail_def Let_def split: option.splits)
  show "mq_lists (F - {b}) (mq'\<lparr>mq_entry := mq_entry mq' + 1\<rparr>) (qs @ [b]) fs"
  proof (cases "qs = []")
    case True
    then show ?thesis using m b n by (auto simp: mq_lists_def mq' mq_link_tail_def Let_def)
  next
    case False
    have "last qs \<in> set qs" using False by simp
    then have "last qs \<notin> set fs" using m by (auto simp: mq_lists_def)
    moreover obtain h where "mq_head mq = Some h" using m False by (cases qs) (auto simp: mq_lists_def)
    ultimately show ?thesis
      using m b n False chain_snoc [of "mq_next mq" "mq_head mq" qs b] by (auto simp: mq_lists_def mq' mq_link_tail_def Let_def)
  qed
qed

lemma mq_lists_link_head:
  assumes m: "mq_lists F mq qs fs" and b: "b \<in> F" and mq': "mq' = mq_link_head b mq"
  shows "mq_lists (F - {b}) (mq'\<lparr>mq_entry := mq_entry mq' + 1\<rparr>) (b # qs) fs" "mq_entry mq' < 0xffff"
    "mq_data mq' = mq_data mq" "msg_size mq' = msg_size mq" "max_msgs mq' = max_msgs mq"
proof -
  have n: "b \<notin> set qs" "b \<notin> set fs" using m b by (auto simp: mq_lists_def)
  have f: "finite F" using m by (auto simp: mq_lists_def intro: finite_subset [of _ "{0..<max_msgs mq}"])
  then have "0 < card F" using b by (auto simp: card_gt_0_iff)
  then have "length qs < 0xffff" using mq_lists_count [OF m] m by (simp add: mq_lists_def)
  then show "mq_entry mq' < 0xffff" using m by (simp add: mq_lists_def mq' mq_link_head_def Let_def)
  show "mq_data mq' = mq_data mq" "msg_size mq' = msg_size mq" "max_msgs mq' = max_msgs mq"
    by (simp_all add: mq' mq_link_head_def Let_def)
  show "mq_lists (F - {b}) (mq'\<lparr>mq_entry := mq_entry mq' + 1\<rparr>) (b # qs) fs"
    using m b n by (auto simp: mq_lists_def mq' mq_link_head_def Let_def split: if_splits)
qed

lemma mq_lists_unlink:
  assumes m: "mq_lists F mq (b # qs) fs" and mq': "mq' = mq_unlink b mq"
  shows "mq_lists (insert b F) mq' qs fs" "mq_head mq = Some b"
    "mq_data mq' = mq_data mq" "msg_size mq' = msg_size mq" "max_msgs mq' = max_msgs mq"
  using m by (auto simp: mq_lists_def mq' mq_unlink_def Let_def split: if_splits)

lemma mq_lists_add_free:
  assumes m: "mq_lists F mq qs fs" and b: "b \<in> F" and mq': "mq' = mq_add_free b mq"
  shows "mq_lists (F - {b}) mq' qs (b # fs)"
    "mq_data mq' = mq_data mq" "msg_size mq' = msg_size mq" "max_msgs mq' = max_msgs mq" "mq_entry mq' = mq_entry mq"
proof -
  have n: "b \<notin> set qs" "b \<notin> set fs" using m b by (auto simp: mq_lists_def)
  then show "mq_lists (F - {b}) mq' qs (b # fs)" using m b by (auto simp: mq_lists_def mq' mq_add_free_def)
qed (simp_all add: mq' mq_add_free_def)

lemma setup_lists:
  assumes "n \<le> 0xffff" "\<forall>b<n. length (pool b) = msize"
  shows "mq_lists {} (mq_setup pool msize n flag mq) [] (rev [0..<n])"
    "msg_size (mq_setup pool msize n flag mq) = msize" "max_msgs (mq_setup pool msize n flag mq) = n"
proof -
  let ?mq0 = "mq\<lparr>mq_flag := flag, msg_size := msize, max_msgs := n, mq_entry := 0, mq_head := None, mq_tail := None,
           mq_free := None, mq_data := pool\<rparr>"
  have "mq_lists {i..<n} (fold mq_add_free [0..<i] ?mq0) [] (rev [0..<i]) \<and>
      msg_size (fold mq_add_free [0..<i] ?mq0) = msize \<and> max_msgs (fold mq_add_free [0..<i] ?mq0) = n" if "i \<le> n" for i
    using that
  proof (induction i)
    case 0
    then show ?case using assms by (simp add: mq_lists_def)
  next
    case (Suc i)
    let ?mq = "fold mq_add_free [0..<i] ?mq0"
    have e: "{i..<n} - {i} = {Suc i..<n}" by auto
    have "mq_lists {i..<n} ?mq [] (rev [0..<i])" using Suc by simp
    from mq_lists_add_free [OF this _ refl, of i] show ?case using Suc e by auto
  qed
  from this [of n] show "mq_lists {} (mq_setup pool msize n flag mq) [] (rev [0..<n])"
    "msg_size (mq_setup pool msize n flag mq) = msize" "max_msgs (mq_setup pool msize n flag mq) = n"
    by (simp_all add: mq_setup_def)
qed

text \<open>The stored messages, oldest first.\<close>

primrec follow :: "(nat \<Rightarrow> nat option) \<Rightarrow> nat \<Rightarrow> nat option \<Rightarrow> nat list" where
  "follow nx 0 p = []"
| "follow nx (Suc n) p = (case p of None \<Rightarrow> [] | Some b \<Rightarrow> b # follow nx n (nx b))"

definition mq_contents :: "rt_messagequeue \<Rightarrow> u8 list list" where
  "mq_contents mq = map (mq_data mq) (follow (mq_next mq) (mq_entry mq) (mq_head mq))"

lemma follow_chain: "chain nx p bs \<Longrightarrow> follow nx (length bs) p = bs"
  by (induction bs arbitrary: p) auto

lemma mq_lists_contents: "mq_lists F mq qs fs \<Longrightarrow> mq_contents mq = map (mq_data mq) qs"
  by (simp add: mq_contents_def mq_lists_def follow_chain)

definition mq_inv :: "rt_messagequeue \<Rightarrow> bool" where
  "mq_inv mq \<longleftrightarrow> (\<exists>qs fs. mq_lists {} mq qs fs)"


lemma mq_urgent_block:
  assumes m: "mq_lists {} mq qs (b # fs)" and l: "length buf \<le> msg_size mq"
    and mq': "mq' = mq_link_head b (mq_copy_in b buf (mq_take_free b mq))"
  shows "mq_lists {} (mq'\<lparr>mq_entry := mq_entry mq' + 1\<rparr>) (b # qs) fs" "mq_entry mq' < 0xffff"
    "map (mq_data mq') (b # qs) = (buf @ drop (length buf) (mq_data mq b)) # map (mq_data mq) qs"
    "msg_size mq' = msg_size mq" "max_msgs mq' = max_msgs mq"
proof -
  let ?m1 = "mq_take_free b mq" let ?m2 = "mq_copy_in b buf ?m1"
  have m1: "mq_lists {b} ?m1 qs fs" using mq_lists_take_free(1) [OF m] by simp
  have s1: "msg_size ?m1 = msg_size mq" "mq_data ?m1 = mq_data mq" "max_msgs ?m1 = max_msgs mq" by (simp_all add: mq_take_free_def)
  have m2: "mq_lists {b} ?m2 qs fs" by (rule mq_lists_copy [OF m1]) (use l s1 in simp_all)
  have d2: "mq_data ?m2 = (mq_data mq)(b := buf @ drop (length buf) (mq_data mq b))"
    "msg_size ?m2 = msg_size mq" "max_msgs ?m2 = max_msgs mq"
    by (simp_all add: mq_copy_in_def s1)
  note t = mq_lists_link_head [OF m2 _ mq']
  show "mq_lists {} (mq'\<lparr>mq_entry := mq_entry mq' + 1\<rparr>) (b # qs) fs" "mq_entry mq' < 0xffff" using t(1,2) by simp_all
  show "msg_size mq' = msg_size mq" "max_msgs mq' = max_msgs mq" using t(4,5) d2 by simp_all
  have "b \<notin> set qs" using m by (auto simp: mq_lists_def)
  then show "map (mq_data mq') (b # qs) = (buf @ drop (length buf) (mq_data mq b)) # map (mq_data mq) qs"
    using t(3) d2(1) by simp
qed


text \<open>The reset loop ends with every block free.\<close>

lemma drain_lists:
  "mq_lists {} (mq\<lparr>mq_entry := length qs\<rparr>) qs fs \<Longrightarrow>
     \<exists>mq'. mq_drain mq = Some mq' \<and> mq_lists {} (mq'\<lparr>mq_entry := 0\<rparr>) [] (rev qs @ fs) \<and>
       msg_size mq' = msg_size mq \<and> max_msgs mq' = max_msgs mq"
proof (induction qs arbitrary: mq fs)
  case Nil
  then show ?case by (subst mq_drain.simps) (auto simp: mq_lists_def)
next
  case (Cons b qs)
  define m2 where "m2 = (let mq = mq\<lparr>mq_head := mq_next mq b\<rparr> in if mq_tail mq = Some b then mq\<lparr>mq_tail := None\<rparr> else mq)"
  have h: "mq_head mq = Some b" using Cons.prems by (simp add: mq_lists_def)
  have "mq_unlink b (mq\<lparr>mq_entry := length (b # qs)\<rparr>) = m2\<lparr>mq_entry := length qs\<rparr>"
    by (simp add: mq_unlink_def m2_def Let_def)
  then have "mq_lists {b} (m2\<lparr>mq_entry := length qs\<rparr>) qs fs" using mq_lists_unlink(1) [OF Cons.prems refl] by simp
  moreover have "mq_add_free b (m2\<lparr>mq_entry := length qs\<rparr>) = (mq_add_free b m2)\<lparr>mq_entry := length qs\<rparr>"
    by (cases m2) (simp add: mq_add_free_def)
  ultimately have "mq_lists {} ((mq_add_free b m2)\<lparr>mq_entry := length qs\<rparr>) qs (b # fs)"
    using mq_lists_add_free(1) [of "{b}" _ qs fs b] by fastforce
  from Cons.IH [OF this] obtain mq' where "mq_drain (mq_add_free b m2) = Some mq'"
    "mq_lists {} (mq'\<lparr>mq_entry := 0\<rparr>) [] (rev qs @ b # fs)" "msg_size mq' = msg_size (mq_add_free b m2)"
    "max_msgs mq' = max_msgs (mq_add_free b m2)" by blast
  moreover have "mq_drain mq = mq_drain (mq_add_free b m2)"
    using h by (subst mq_drain.simps) (simp add: m2_def Let_def)
  moreover have "msg_size (mq_add_free b m2) = msg_size mq" "max_msgs (mq_add_free b m2) = max_msgs mq"
    by (simp_all add: mq_add_free_def m2_def Let_def)
  ultimately show ?case by simp
qed


subsection \<open>Sending and receiving\<close>

lemma mqs_upd_mq [simp]: "mqs (upd_mq m f k) = (mqs k)(m := f (mqs k m))"
  by (simp add: upd_mq_def)

lemma upd_mq_frame [simp]:
  "sched_but S (upd_mq m f k) = sched_but S k" "lists (upd_mq m f k) = lists k" "threads (upd_mq m f k) = threads k"
  "current (upd_mq m f k) = current k" "objects (upd_mq m f k) = objects k" "waiters_ok (upd_mq m f k) q = waiters_ok k q"
  "upd_mq m f (upd_mq m g k) = upd_mq m (f \<circ> g) k"
  by (simp_all add: upd_mq_def waiters_ok_def registered_def rt_object_get_type_def)

definition mq_kinv :: "oid \<Rightarrow> kernel \<Rightarrow> bool" where
  "mq_kinv m k \<longleftrightarrow> endpoints_ok m k \<and> rt_object_get_type (OMq m) k = Class_MessageQueue \<and> mq_inv (mqs k m)"





subsection \<open>A message queue is a bounded FIFO\<close>



definition mq_sized :: "oid \<Rightarrow> nat \<Rightarrow> kernel \<Rightarrow> bool" where
  "mq_sized m n k \<longleftrightarrow> mq_kinv m k \<and> msg_size (mqs k m) = n \<and> 0 < n"






subsection \<open>Interleaved critical sections\<close>

text \<open>
  Sends and receives of several threads and interrupts interleaved at their critical sections: \<open>W\<close> are
  the blocks taken by senders, \<open>L\<close> those filled and not yet linked, \<open>R\<close> those unlinked by receivers and not
  yet free.
\<close>

inductive mq_run :: "rt_messagequeue \<Rightarrow> nat set \<Rightarrow> nat set \<Rightarrow> nat set \<Rightarrow> rt_messagequeue \<Rightarrow> bool" for mq0 where
  start: "mq_run mq0 {} {} {} mq0"
| take: "mq_run mq0 W L R mq \<Longrightarrow> mq_free mq = Some b \<Longrightarrow> mq_run mq0 (insert b W) L R (mq_take_free b mq)"
| fill: "mq_run mq0 W L R mq \<Longrightarrow> b \<in> W \<Longrightarrow> length buf \<le> msg_size mq \<Longrightarrow> mq_run mq0 (W - {b}) (insert b L) R (mq_fill b buf mq)"
| link: "mq_run mq0 W L R mq \<Longrightarrow> b \<in> L \<Longrightarrow> mq' = mq_link_tail b mq \<Longrightarrow>
    mq_run mq0 W (L - {b}) R (if mq_entry mq' < 0xffff then mq'\<lparr>mq_entry := mq_entry mq' + 1\<rparr> else mq')"
| copy: "mq_run mq0 W L R mq \<Longrightarrow> b \<in> W \<Longrightarrow> length buf \<le> msg_size mq \<Longrightarrow> mq_run mq0 W L R (mq_copy_in b buf mq)"
| urgent: "mq_run mq0 W L R mq \<Longrightarrow> b \<in> W \<Longrightarrow> mq' = mq_link_head b mq \<Longrightarrow>
    mq_run mq0 (W - {b}) L R (if mq_entry mq' < 0xffff then mq'\<lparr>mq_entry := mq_entry mq' + 1\<rparr> else mq')"
| unlink: "mq_run mq0 W L R mq \<Longrightarrow> mq_entry mq \<noteq> 0 \<Longrightarrow> mq_head mq = Some b \<Longrightarrow> mq_run mq0 W L (insert b R) (mq_unlink b mq)"
| free: "mq_run mq0 W L R mq \<Longrightarrow> b \<in> R \<Longrightarrow> mq_run mq0 W L (R - {b}) (mq_add_free b mq)"

definition mq_transit :: "nat set \<Rightarrow> nat set \<Rightarrow> nat set \<Rightarrow> rt_messagequeue \<Rightarrow> bool" where
  "mq_transit W L R mq \<longleftrightarrow> (\<exists>qs fs. mq_lists (W \<union> L \<union> R) mq qs fs) \<and> W \<inter> L = {} \<and> W \<inter> R = {} \<and> L \<inter> R = {} \<and>
     (\<forall>b\<in>L. mq_next mq b = None)"

lemma mq_step_sizes [simp]:
  "msg_size (mq_take_free b mq) = msg_size mq" "max_msgs (mq_take_free b mq) = max_msgs mq"
  "msg_size (mq_fill b buf mq) = msg_size mq" "max_msgs (mq_fill b buf mq) = max_msgs mq"
  "msg_size (mq_copy_in b buf mq) = msg_size mq" "max_msgs (mq_copy_in b buf mq) = max_msgs mq"
  "msg_size (mq_link_tail b mq) = msg_size mq" "max_msgs (mq_link_tail b mq) = max_msgs mq"
  "msg_size (mq_link_head b mq) = msg_size mq" "max_msgs (mq_link_head b mq) = max_msgs mq"
  "msg_size (mq_unlink b mq) = msg_size mq" "max_msgs (mq_unlink b mq) = max_msgs mq"
  "msg_size (mq_add_free b mq) = msg_size mq" "max_msgs (mq_add_free b mq) = max_msgs mq"
  by (simp_all add: mq_take_free_def mq_fill_def mq_copy_in_def mq_link_tail_def mq_link_head_def mq_unlink_def mq_add_free_def
      Let_def split: option.splits)

lemma mq_transitE:
  assumes "mq_transit W L R mq"
  obtains qs fs where "mq_lists (W \<union> L \<union> R) mq qs fs" "W \<inter> L = {}" "W \<inter> R = {}" "L \<inter> R = {}" "\<forall>b\<in>L. mq_next mq b = None"
  using assms by (auto simp: mq_transit_def)

lemma transit_take:
  assumes "mq_transit W L R mq" "mq_free mq = Some b"
  shows "mq_transit (insert b W) L R (mq_take_free b mq)"
  using assms(1)
proof (rule mq_transitE)
  fix qs fs assume q: "mq_lists (W \<union> L \<union> R) mq qs fs" and d: "W \<inter> L = {}" "W \<inter> R = {}" "L \<inter> R = {}" "\<forall>b\<in>L. mq_next mq b = None"
  obtain fs' where fs: "fs = b # fs'" using q assms(2) by (cases fs) (auto simp: mq_lists_def)
  have "b \<notin> W \<union> L \<union> R" using q by (auto simp: mq_lists_def fs)
  moreover have "insert b W \<union> L \<union> R = insert b (W \<union> L \<union> R)" by auto
  ultimately show ?thesis
    using mq_lists_take_free(1) [OF q [unfolded fs]] d by (auto simp: mq_transit_def mq_take_free_def)
qed

lemma transit_fill:
  assumes "mq_transit W L R mq" "b \<in> W" "length buf \<le> msg_size mq"
  shows "mq_transit (W - {b}) (insert b L) R (mq_fill b buf mq)"
  using assms(1)
proof (rule mq_transitE)
  fix qs fs assume q: "mq_lists (W \<union> L \<union> R) mq qs fs" and d: "W \<inter> L = {}" "W \<inter> R = {}" "L \<inter> R = {}" "\<forall>b\<in>L. mq_next mq b = None"
  have "(W - {b}) \<union> insert b L \<union> R = W \<union> L \<union> R" using assms(2) by auto
  moreover have "mq_next (mq_fill b buf mq) = (mq_next mq)(b := None)" by (simp add: mq_fill_def mq_copy_in_def)
  ultimately show ?thesis
    using mq_lists_fill [OF q _ assms(3), of b] d assms(2) by (auto simp: mq_transit_def)
qed

lemma transit_link:
  assumes "mq_transit W L R mq" "b \<in> L" "mq' = mq_link_tail b mq"
  shows "mq_transit W (L - {b}) R (if mq_entry mq' < 0xffff then mq'\<lparr>mq_entry := mq_entry mq' + 1\<rparr> else mq')"
  using assms(1)
proof (rule mq_transitE)
  fix qs fs assume q: "mq_lists (W \<union> L \<union> R) mq qs fs" and d: "W \<inter> L = {}" "W \<inter> R = {}" "L \<inter> R = {}" "\<forall>b\<in>L. mq_next mq b = None"
  have e: "W \<union> (L - {b}) \<union> R = W \<union> L \<union> R - {b}" using d assms(2) by auto
  have "last qs \<notin> L" if "qs \<noteq> []" using q last_in_set [OF that] by (auto simp: mq_lists_def)
  then have "\<forall>x\<in>L. mq_next mq' x = None"
    using q d(4) by (auto simp: assms(3) mq_link_tail_def Let_def mq_lists_def split: option.splits if_splits)
  then show ?thesis
    using mq_lists_link_tail(1,2) [OF q _ _ assms(3)] d assms(2) unfolding mq_transit_def e by auto
qed

lemma transit_urgent:
  assumes "mq_transit W L R mq" "b \<in> W" "mq' = mq_link_head b mq"
  shows "mq_transit (W - {b}) L R (if mq_entry mq' < 0xffff then mq'\<lparr>mq_entry := mq_entry mq' + 1\<rparr> else mq')"
  using assms(1)
proof (rule mq_transitE)
  fix qs fs assume q: "mq_lists (W \<union> L \<union> R) mq qs fs" and d: "W \<inter> L = {}" "W \<inter> R = {}" "L \<inter> R = {}" "\<forall>b\<in>L. mq_next mq b = None"
  have e: "W - {b} \<union> L \<union> R = W \<union> L \<union> R - {b}" using d assms(2) by auto
  have "\<forall>x\<in>L. mq_next mq' x = None" using d assms(2) by (auto simp: assms(3) mq_link_head_def Let_def)
  then show ?thesis
    using mq_lists_link_head(1,2) [OF q _ assms(3)] d assms(2) unfolding mq_transit_def e by auto
qed

lemma transit_copy:
  assumes "mq_transit W L R mq" "b \<in> W" "length buf \<le> msg_size mq"
  shows "mq_transit W L R (mq_copy_in b buf mq)"
  using assms(1)
proof (rule mq_transitE)
  fix qs fs assume q: "mq_lists (W \<union> L \<union> R) mq qs fs" and d: "W \<inter> L = {}" "W \<inter> R = {}" "L \<inter> R = {}" "\<forall>b\<in>L. mq_next mq b = None"
  then show ?thesis using mq_lists_copy [OF q _ assms(3), of b] assms(2) by (auto simp: mq_transit_def mq_copy_in_def)
qed

lemma transit_unlink:
  assumes "mq_transit W L R mq" "mq_head mq = Some b"
  shows "mq_transit W L (insert b R) (mq_unlink b mq)"
  using assms(1)
proof (rule mq_transitE)
  fix qs fs assume q: "mq_lists (W \<union> L \<union> R) mq qs fs" and d: "W \<inter> L = {}" "W \<inter> R = {}" "L \<inter> R = {}" "\<forall>b\<in>L. mq_next mq b = None"
  obtain qs' where qs: "qs = b # qs'" using q assms(2) by (cases qs) (auto simp: mq_lists_def)
  have "b \<notin> W \<union> L \<union> R" using q by (auto simp: mq_lists_def qs)
  moreover have "W \<union> L \<union> insert b R = insert b (W \<union> L \<union> R)" by auto
  moreover have "mq_next (mq_unlink b mq) = mq_next mq" by (simp add: mq_unlink_def Let_def)
  ultimately show ?thesis
    using mq_lists_unlink(1) [OF q [unfolded qs] refl] d by (auto simp: mq_transit_def)
qed

lemma transit_free:
  assumes "mq_transit W L R mq" "b \<in> R"
  shows "mq_transit W L (R - {b}) (mq_add_free b mq)"
  using assms(1)
proof (rule mq_transitE)
  fix qs fs assume q: "mq_lists (W \<union> L \<union> R) mq qs fs" and d: "W \<inter> L = {}" "W \<inter> R = {}" "L \<inter> R = {}" "\<forall>b\<in>L. mq_next mq b = None"
  have e: "W \<union> L \<union> (R - {b}) = W \<union> L \<union> R - {b}" using d assms(2) by auto
  show ?thesis
    using mq_lists_add_free(1) [OF q _ refl, of b] d assms(2) unfolding mq_transit_def e by (auto simp: mq_add_free_def)
qed

lemma mq_run_transit:
  "mq_run mq0 W L R mq \<Longrightarrow> mq_inv mq0 \<Longrightarrow> mq_transit W L R mq \<and> max_msgs mq = max_msgs mq0"
proof (induction rule: mq_run.induct)
  case start
  then show ?case by (auto simp: mq_transit_def mq_inv_def)
next
  case (link W L R mq b mq')
  then show ?case using transit_link [OF _ link.hyps(2,3)] by simp
next
  case (urgent W L R mq b mq')
  then show ?case using transit_urgent [OF _ urgent.hyps(2,3)] by simp
qed (auto intro: transit_take transit_fill transit_copy transit_unlink transit_free)


subsection \<open>Properties\<close>


text \<open>
  C3: However the critical sections of senders (normal and urgent) and receivers on a freshly initialised
  queue are interleaved, no block is lost, shared or on two lists: the queued blocks, the free blocks and
  those in transit together are exactly the pool, the count is the number of queued blocks, and a receiver
  that finds the count non-zero finds a message.
\<close>
theorem mq_blocks_conserved:
  assumes "mq_run (mq_setup pool msize n flag mq0) W L R mq" "n \<le> 0xffff" "\<forall>b<n. length (pool b) = msize"
  shows "\<exists>qs fs. mq_lists (W \<union> L \<union> R) mq qs fs \<and> mq_contents mq = map (mq_data mq) qs \<and>
    length qs + length fs + card (W \<union> L \<union> R) = n \<and> mq_entry mq = length qs \<and>
    (mq_entry mq \<noteq> 0 \<longrightarrow> mq_head mq \<noteq> None) \<and> W \<inter> L = {} \<and> W \<inter> R = {} \<and> L \<inter> R = {}"
proof -
  note s = setup_lists [OF assms(2,3), of flag mq0]
  have "mq_inv (mq_setup pool msize n flag mq0)" using s(1) by (auto simp: mq_inv_def)
  from mq_run_transit [OF assms(1) this] have r: "mq_transit W L R mq" "max_msgs mq = n" using s(3) by simp_all
  from r(1) show ?thesis
  proof (rule mq_transitE)
    fix qs fs assume q: "mq_lists (W \<union> L \<union> R) mq qs fs" and d: "W \<inter> L = {}" "W \<inter> R = {}" "L \<inter> R = {}"
    have "mq_head mq \<noteq> None" if "mq_entry mq \<noteq> 0" using q that by (cases qs) (auto simp: mq_lists_def)
    moreover have "mq_entry mq = length qs" using q by (simp add: mq_lists_def)
    ultimately show ?thesis using q d mq_lists_contents [OF q] mq_lists_count [OF q] r(2) by blast
  qed
qed

text \<open>
  C24: Resetting a message queue terminates: every waiting receiver and sender becomes runnable with the
  error \<open>-RT_ERROR\<close>, the queue is empty and all its blocks are free again.
\<close>
theorem mq_reset_frees:
  assumes i: "mq_kinv m k"
  shows "\<exists>k'. rt_mq_control m (RT_IPC_CMD_RESET v) k = Some (k', RT_EOK) \<and> mq_kinv m k' \<and> mq_contents (mqs k' m) = [] \<and>
    max_msgs (mqs k' m) = max_msgs (mqs k m) \<and> lists k' (Wait m) = [] \<and> lists k' (WaitSend m) = [] \<and>
    (\<exists>fs. mq_lists {} (mqs k' m) [] fs) \<and>
    (\<forall>t\<in>set (lists k (Wait m)) \<union> set (lists k (WaitSend m)). runnable (threads k' t) \<and> error (threads k' t) = RT_ERROR)"
proof -
  have e: "sched_inv k" "current k \<noteq> None" "waiters_ok k (Wait m)" "waiters_ok k (WaitSend m)"
    and ty: "rt_object_get_type (OMq m) k = Class_MessageQueue" and mi: "mq_inv (mqs k m)"
    using i by (simp_all add: mq_kinv_def endpoints_ok_def)
  obtain k1 where k1: "ipc_list_resume_all (Wait m) k = Some k1" "sched_inv k1" "only_core k k1" "current k1 = current k" "lists k1 (Wait m) = []"
    "\<forall>q'. \<not> is_ready q' \<longrightarrow> q' \<noteq> Wait m \<longrightarrow> lists k1 q' = lists k q'"
    "\<forall>t\<in>set (lists k (Wait m)). runnable (threads k1 t) \<and> error (threads k1 t) = RT_ERROR"
    "\<forall>t. t \<notin> set (lists k (Wait m)) \<longrightarrow> threads k1 t = threads k t"
    using resume_all_spec [OF e(1) disjI1 [OF refl] refl, of m] e(3) unfolding waiters_ok_def by blast
  have w: "\<And>t. t \<in> set (lists k1 (WaitSend m)) \<Longrightarrow> registered k1 t"
    using e(4) k1(6) registered_cong [OF only_coreD(1) [OF k1(3)]] by (simp add: waiters_ok_def)
  obtain k2 where k2: "ipc_list_resume_all (WaitSend m) k1 = Some k2" "sched_inv k2" "only_core k1 k2" "current k2 = current k1" "lists k2 (WaitSend m) = []"
    "\<forall>q'. \<not> is_ready q' \<longrightarrow> q' \<noteq> WaitSend m \<longrightarrow> lists k2 q' = lists k1 q'"
    "\<forall>t\<in>set (lists k1 (WaitSend m)). runnable (threads k2 t) \<and> error (threads k2 t) = RT_ERROR"
    "\<forall>t. t \<notin> set (lists k1 (WaitSend m)) \<longrightarrow> threads k2 t = threads k1 t"
    using resume_all_spec [OF k1(2) disjI2 [OF refl] refl w] by blast
  have mq2: "mqs k2 = mqs k" using only_coreD(13) [OF k1(3)] only_coreD(13) [OF k2(3)] by simp
  obtain qs fs where q: "mq_lists {} (mqs k m) qs fs" using mi by (auto simp: mq_inv_def)
  then have "(mqs k m)\<lparr>mq_entry := length qs\<rparr> = mqs k m" by (cases "mqs k m") (simp add: mq_lists_def)
  then obtain mq where mq: "mq_drain (mqs k m) = Some mq" "mq_lists {} (mq\<lparr>mq_entry := 0\<rparr>) [] (rev qs @ fs)" "max_msgs mq = max_msgs (mqs k m)"
    using drain_lists [of qs "mqs k m" fs] q by auto
  let ?k3 = "upd_mq m (\<lambda>_. mq\<lparr>mq_entry := 0\<rparr>) k2"
  have i3: "sched_inv ?k3" "current ?k3 \<noteq> None" using k2(2,4) k1(4) e(2) by simp_all
  obtain k4 where k4: "rt_schedule ?k3 = Some k4" using rt_schedule_total [of ?k3] i3(2) by auto
  note l4 = rt_schedule_lists [OF i3(1) k4] and t4 = rt_schedule_threads [OF i3(1) k4] and o4 = only_coreD [OF only_core_schedule [OF k4]]
  have r: "rt_mq_control m (RT_IPC_CMD_RESET v) k = Some (k4, RT_EOK)"
    using ty k1(1) k2(1) mq(1) k4 mq2 by (simp add: rt_mq_control_def)
  have l: "lists k4 (Wait m) = []" "lists k4 (WaitSend m) = []"
    using l4 [of "Wait m"] l4 [of "WaitSend m"] k2(5,6) k1(5) by simp_all
  have m4: "mqs k4 m = mq\<lparr>mq_entry := 0\<rparr>" using o4(13) by simp
  have ob: "objects k4 = objects k" using o4(1) only_coreD(1) [OF k1(3)] only_coreD(1) [OF k2(3)] by simp
  have kv: "mq_kinv m k4"
    using ty ob l m4 mq(2) sched_schedule [OF i3(1) k4] rt_schedule_current [OF k4 i3(2)]
    by (auto simp: mq_kinv_def endpoints_ok_def waiters_ok_def rt_object_get_type_def mq_inv_def)
  have "runnable (threads k2 t) \<and> error (threads k2 t) = RT_ERROR" if "t \<in> set (lists k (Wait m)) \<union> set (lists k (WaitSend m))" for t
    using that k2(7,8) k1(6,7) by (cases "t \<in> set (lists k1 (WaitSend m))") auto
  then have "runnable (threads k4 t) \<and> error (threads k4 t) = RT_ERROR" if "t \<in> set (lists k (Wait m)) \<union> set (lists k (WaitSend m))" for t
    using that rescheduledD(2,3) [OF t4 [of t]] by simp
  then show ?thesis using r kv l m4 mq(2,3) mq_lists_contents [OF mq(2)] by auto
qed


subsection \<open>Witnesses\<close>

text \<open>The demonstration kernel with a queue of two blocks of two bytes.\<close>

definition demo_queue :: "rt_messagequeue \<Rightarrow> rt_messagequeue" where
  "demo_queue = mq_setup (\<lambda>_. [0, 0]) 2 2 RT_IPC_FLAG_FIFO"

lemma demo_queue: "mq_lists {} (demo_queue mq) [] [1, 0]" "msg_size (demo_queue mq) = 2" "max_msgs (demo_queue mq) = 2"
  using setup_lists [of 2 "\<lambda>_. [0, 0]" 2 RT_IPC_FLAG_FIFO mq] by (simp_all add: demo_queue_def upt_rec)

lemma demo_mq:
  assumes "k = demo_ipc \<or> k = demo_waiting (WaitSend 9)"
  shows "mq_sized 9 2 (upd_mq 9 demo_queue k)" "mq_contents (mqs (upd_mq 9 demo_queue k) 9) = []"
    "max_msgs (mqs (upd_mq 9 demo_queue k) 9) = 2"
proof -
  have "endpoints_ok 9 demo_ipc"
    using demo_ipc_thread(1) demo_ipc_thread(2,3) [of 9] by (auto simp: endpoints_ok_def in_thread_def waiters_ok_def)
  moreover have "endpoints_ok 9 (demo_waiting (WaitSend 9))"
  proof -
    have "lists (demo_waiting (WaitSend 9)) (Wait 9) = []"
      using demo_ipc_thread(2) [of 9] by (simp add: demo_waiting_def tlist_insert_before_def)
    then show ?thesis using demo_waiting [OF disjI2 [OF refl], where x = 9] by (simp add: endpoints_ok_def waiters_ok_def)
  qed
  ultimately have "endpoints_ok 9 (upd_mq 9 demo_queue k)" using assms by (auto simp: endpoints_ok_def)
  moreover have "rt_object_get_type (OMq 9) (upd_mq 9 demo_queue k) = Class_MessageQueue"
    using assms demo_ipc_type [of "OMq 9"] demo_waiting(5) [OF disjI2 [OF refl], where x = 9 and y = "OMq 9"] by (auto simp: rt_object_get_type_def)
  ultimately show "mq_sized 9 2 (upd_mq 9 demo_queue k)"
    using demo_queue by (auto simp: mq_sized_def mq_kinv_def mq_inv_def)
  show "mq_contents (mqs (upd_mq 9 demo_queue k) 9) = []" "max_msgs (mqs (upd_mq 9 demo_queue k) 9) = 2"
    using mq_lists_contents [OF demo_queue(1)] demo_queue(3) by simp_all
qed


theorem mq_blocks_conserved_witness:
  "\<exists>qs fs. mq_lists {1} (mq_take_free 1 (demo_queue (mqs kernel0 9))) qs fs \<and> length qs + length fs + card {1 :: nat} = 2"
proof -
  let ?q = "demo_queue (mqs kernel0 9)"
  have "mq_free ?q = Some 1" using demo_queue(1) by (simp add: mq_lists_def)
  from mq_run.take [OF mq_run.start this] have r: "mq_run ?q {1} {} {} (mq_take_free 1 ?q)" by simp
  show ?thesis using mq_blocks_conserved [OF r [unfolded demo_queue_def]] by (auto simp flip: demo_queue_def)
qed

theorem mq_reset_frees_witness:
  "\<exists>k'. rt_mq_control 9 (RT_IPC_CMD_RESET 0) (upd_mq 9 demo_queue (demo_waiting (WaitSend 9))) = Some (k', RT_EOK) \<and>
     lists k' (WaitSend 9) = [] \<and> runnable (threads k' 4) \<and> error (threads k' 4) = RT_ERROR"
proof -
  have "mq_kinv 9 (upd_mq 9 demo_queue (demo_waiting (WaitSend 9)))" using demo_mq(1) [OF disjI2 [OF refl]] by (simp add: mq_sized_def)
  from mq_reset_frees [OF this, of 0] show ?thesis
    using demo_waiting(3) [OF disjI2 [OF refl], where x = 9] by auto
qed

end
