(* ===== verification/KEvent.thy ===== *)
theory KEvent
  imports KIpc
begin

unbundle bit_operations_syntax

text \<open>
  Events (\<open>src/ipc.c\<close>): a word of flags and the threads waiting for all or any flags of a set.  Sending
  scans the waiting threads in order, wakes those whose condition holds and clears the flags that a woken
  thread consumes.
\<close>

subsection \<open>The code\<close>

definition RT_EVENT_FLAG_AND :: u8 where "RT_EVENT_FLAG_AND = 1"
definition RT_EVENT_FLAG_OR :: u8 where "RT_EVENT_FLAG_OR = 2"
definition RT_EVENT_FLAG_CLEAR :: u8 where "RT_EVENT_FLAG_CLEAR = 4"

definition upd_event :: "oid \<Rightarrow> (rt_event \<Rightarrow> rt_event) \<Rightarrow> kernel \<Rightarrow> kernel" where
  "upd_event e f k = k\<lparr>events := (events k)(e := f (events k e))\<rparr>"

definition rt_event_init :: "oid \<Rightarrow> string \<Rightarrow> ipc_flag \<Rightarrow> kernel \<Rightarrow> kernel option" where
  "rt_event_init e name flag k =
     do {
       k \<leftarrow> rt_object_init (OEvent e) Class_Event name k;
       let k = ipc_object_init e k;
       Some (upd_event e (\<lambda>ev. ev\<lparr>event_flag := flag, ev_set := 0\<rparr>) k)
     }"

definition rt_event_detach :: "oid \<Rightarrow> kernel \<Rightarrow> kernel option" where
  "rt_event_detach e k =
     do {
       rt_assert (rt_object_get_type (OEvent e) k = Class_Event);
       rt_assert (rt_object_is_systemobject (OEvent e) k);
       k \<leftarrow> ipc_list_resume_all (Wait e) k;
       Some (rt_object_detach (OEvent e) k)
     }"

definition rt_event_create :: "oid option \<Rightarrow> string \<Rightarrow> ipc_flag \<Rightarrow> kernel \<Rightarrow> (kernel \<times> oid option) option" where
  "rt_event_create block name flag k =
     do {
       not_in_interrupt k;
       (k, _) \<leftarrow> rt_object_allocate (map_option OEvent block) Class_Event name k;
       Some (case block of
               None \<Rightarrow> (k, None)
             | Some e \<Rightarrow> (upd_event e (\<lambda>ev. ev\<lparr>event_flag := flag, ev_set := 0\<rparr>) (ipc_object_init e k), Some e))
     }"

definition rt_event_delete :: "oid \<Rightarrow> kernel \<Rightarrow> kernel option" where
  "rt_event_delete e k =
     do {
       rt_assert (rt_object_get_type (OEvent e) k = Class_Event);
       rt_assert (\<not> rt_object_is_systemobject (OEvent e) k);
       not_in_interrupt k;
       k \<leftarrow> ipc_list_resume_all (Wait e) k;
       rt_object_delete (OEvent e) k
     }"

text \<open>Whether the flags \<open>ev\<close> satisfy a wait for \<open>want\<close>; \<open>None\<close> when neither way of waiting is chosen.\<close>

definition event_match :: "u8 \<Rightarrow> u32 \<Rightarrow> u32 \<Rightarrow> bool option" where
  "event_match info want ev =
     (if info AND RT_EVENT_FLAG_AND \<noteq> 0 then Some (want AND ev = want)
      else if info AND RT_EVENT_FLAG_OR \<noteq> 0 then Some (want AND ev \<noteq> 0)
      else None)"

text \<open>One round of the loop in \<open>rt_event_send\<close> for a thread whose condition holds.\<close>

definition event_deliver :: "oid \<Rightarrow> tid \<Rightarrow> kernel \<Rightarrow> kernel option" where
  "event_deliver e t k =
     (let info = event_info (threads k t);
          k = (if info AND RT_EVENT_FLAG_AND \<noteq> 0 then k
               else upd_thread t (\<lambda>th. th\<lparr>event_set := event_set th AND ev_set (events k e)\<rparr>) k);
          k = (if info AND RT_EVENT_FLAG_CLEAR \<noteq> 0
               then upd_event e (\<lambda>ev. ev\<lparr>ev_set := ev_set ev AND NOT (event_set (threads k t))\<rparr>) k else k)
      in do {
        (k, _) \<leftarrow> rt_thread_resume t k;
        Some (upd_thread t (\<lambda>th. th\<lparr>error := RT_EOK\<rparr>) k)
      })"

text \<open>The loop over the waiting threads: the next node is read before a thread leaves the list, so the
  threads are those of the list at the start.  The result tells whether to reschedule and whether the
  loop was left with \<open>-RT_EINVAL\<close>.\<close>

fun event_scan :: "oid \<Rightarrow> tid list \<Rightarrow> bool \<Rightarrow> kernel \<Rightarrow> (kernel \<times> bool \<times> bool) option" where
  "event_scan e [] need k = Some (k, need, False)"
| "event_scan e (t # ts) need k =
     (case event_match (event_info (threads k t)) (event_set (threads k t)) (ev_set (events k e)) of
        None \<Rightarrow> Some (k, need, True)
      | Some False \<Rightarrow> event_scan e ts need k
      | Some True \<Rightarrow> do { k \<leftarrow> event_deliver e t k; event_scan e ts True k })"

definition rt_event_send :: "oid \<Rightarrow> u32 \<Rightarrow> kernel \<Rightarrow> (kernel \<times> err) option" where
  "rt_event_send e flags k =
     do {
       rt_assert (rt_object_get_type (OEvent e) k = Class_Event);
       if flags = 0 then Some (k, RT_ERROR)
       else do {
         let k = upd_event e (\<lambda>ev. ev\<lparr>ev_set := ev_set ev OR flags\<rparr>) k;
         (k, need, invalid) \<leftarrow> event_scan e (lists k (Wait e)) False k;
         if invalid then Some (k, RT_EINVAL)
         else if need then do { k \<leftarrow> rt_schedule k; Some (k, RT_EOK) }
         else Some (k, RT_EOK)
       }
     }"

text \<open>A receive returns the error code and the flags stored through the caller's pointer.\<close>

definition event_recv ::
  "oid \<Rightarrow> u32 \<Rightarrow> u8 \<Rightarrow> cint \<Rightarrow> suspend_flag \<Rightarrow> kernel \<Rightarrow> (kernel \<times> (err \<times> u32 option) outcome) option" where
  "event_recv e flags opt timeout sflag k =
     do {
       rt_assert (rt_object_get_type (OEvent e) k = Class_Event);
       scheduler_available True k;
       if flags = 0 then Some (k, Ret (RT_ERROR, None))
       else do {
         t \<leftarrow> current k;
         let k = upd_thread t (\<lambda>th. th\<lparr>error := RT_EINTR\<rparr>) k;
         ok \<leftarrow> event_match opt flags (ev_set (events k e));
         if ok then
           let got = ev_set (events k e) AND flags;
               k = upd_thread t (\<lambda>th. th\<lparr>error := RT_EOK, event_set := got, event_info := opt\<rparr>) k;
               k = (if opt AND RT_EVENT_FLAG_CLEAR \<noteq> 0
                    then upd_event e (\<lambda>ev. ev\<lparr>ev_set := ev_set ev AND NOT flags\<rparr>) k else k)
           in Some (k, Ret (RT_EOK, Some got))
         else if timeout = 0 then
           Some (upd_thread t (\<lambda>th. th\<lparr>error := RT_ETIMEOUT\<rparr>) k, Ret (RT_ETIMEOUT, None))
         else
           let k = upd_thread t (\<lambda>th. th\<lparr>event_set := flags, event_info := opt\<rparr>) k
           in map_option failed (ipc_wait (Wait e) t (event_flag (events k e)) sflag timeout k)
       }
     }"

definition event_recv_resume :: "tid \<Rightarrow> kernel \<Rightarrow> err \<times> u32 option" where
  "event_recv_resume t k =
     (if error (threads k t) \<noteq> RT_EOK then (error (threads k t), None)
      else (error (threads k t), Some (event_set (threads k t))))"

definition rt_event_recv :: "oid \<Rightarrow> u32 \<Rightarrow> u8 \<Rightarrow> cint \<Rightarrow> kernel \<Rightarrow> (kernel \<times> (err \<times> u32 option) outcome) option" where
  "rt_event_recv e flags opt timeout k = event_recv e flags opt timeout RT_UNINTERRUPTIBLE k"

definition rt_event_recv_interruptible :: "oid \<Rightarrow> u32 \<Rightarrow> u8 \<Rightarrow> cint \<Rightarrow> kernel \<Rightarrow> (kernel \<times> (err \<times> u32 option) outcome) option" where
  "rt_event_recv_interruptible e flags opt timeout k = event_recv e flags opt timeout RT_INTERRUPTIBLE k"

definition rt_event_recv_killable :: "oid \<Rightarrow> u32 \<Rightarrow> u8 \<Rightarrow> cint \<Rightarrow> kernel \<Rightarrow> (kernel \<times> (err \<times> u32 option) outcome) option" where
  "rt_event_recv_killable e flags opt timeout k = event_recv e flags opt timeout RT_KILLABLE k"

definition rt_event_control :: "oid \<Rightarrow> ipc_cmd \<Rightarrow> kernel \<Rightarrow> (kernel \<times> err) option" where
  "rt_event_control e cmd k =
     do {
       rt_assert (rt_object_get_type (OEvent e) k = Class_Event);
       case cmd of
         RT_IPC_CMD_RESET _ \<Rightarrow> do {
           k \<leftarrow> ipc_list_resume_all (Wait e) k;
           let k = upd_event e (\<lambda>ev. ev\<lparr>ev_set := 0\<rparr>) k;
           k \<leftarrow> rt_schedule k;
           Some (k, RT_EOK)
         }
       | RT_IPC_CMD_OTHER _ \<Rightarrow> Some (k, RT_ERROR)
     }"


subsection \<open>Conditions\<close>

lemma events_upd_event [simp]: "events (upd_event e f k) = (events k)(e := f (events k e))"
  by (simp add: upd_event_def)

lemma upd_event_frame [simp]:
  "sched_but S (upd_event e f k) = sched_but S k" "lists (upd_event e f k) = lists k" "threads (upd_event e f k) = threads k"
  "current (upd_event e f k) = current k" "objects (upd_event e f k) = objects k" "registered (upd_event e f k) = registered k"
  by (simp_all add: upd_event_def registered_def [abs_def] rt_object_get_type_def)

text \<open>Flags that satisfy a condition still satisfy it when more are set.\<close>

lemma event_match_mono:
  assumes "event_match info want ev = Some False" "ev' AND ev = ev'"
  shows "event_match info want ev' = Some False"
proof -
  have "want AND ev' = want \<Longrightarrow> want AND ev = want"
  proof -
    assume w: "want AND ev' = want"
    have "want AND ev = (want AND ev') AND ev" by (simp add: w)
    also have "\<dots> = want AND (ev' AND ev)" by (simp add: and.assoc)
    finally show ?thesis by (simp add: assms(2) w)
  qed
  moreover have "want AND ev' \<noteq> 0 \<Longrightarrow> want AND ev \<noteq> 0"
  proof
    assume a: "want AND ev' \<noteq> 0" "want AND ev = 0"
    have "want AND ev' = want AND (ev' AND ev)" by (simp add: assms(2))
    also have "\<dots> = ev' AND (want AND ev)" by (simp add: and.left_commute)
    finally show False using a by simp
  qed
  ultimately show ?thesis using assms(1) by (auto simp: event_match_def split: if_splits)
qed

text \<open>The threads waiting for an event wait for something, and their condition does not hold.\<close>

definition event_ok :: "kernel \<Rightarrow> oid \<Rightarrow> bool" where
  "event_ok k e \<longleftrightarrow> (\<forall>t\<in>set (lists k (Wait e)).
     event_match (event_info (threads k t)) (event_set (threads k t)) (ev_set (events k e)) = Some False)"

text \<open>What a thread receives from the flags \<open>ev\<close>: all it waits for, or those of them that are set.\<close>

definition got :: "rt_thread \<Rightarrow> u32 \<Rightarrow> u32" where
  "got th ev = (if event_info th AND RT_EVENT_FLAG_AND \<noteq> 0 then event_set th else event_set th AND ev)"

text \<open>The flags that woken threads take away, and the flags \<open>ev\<close> without those.\<close>

primrec consumed :: "kernel \<Rightarrow> tid list \<Rightarrow> u32" where
  "consumed k [] = 0"
| "consumed k (t # ts) = (if event_info (threads k t) AND RT_EVENT_FLAG_CLEAR \<noteq> 0 then event_set (threads k t) else 0) OR consumed k ts"

definition flags_left :: "kernel \<Rightarrow> u32 \<Rightarrow> tid list \<Rightarrow> u32" where
  "flags_left k ev ts = ev AND NOT (consumed k ts)"

text \<open>The threads that have left the list of an event, in their order.\<close>

definition woken :: "kernel \<Rightarrow> oid \<Rightarrow> tid list \<Rightarrow> tid list" where
  "woken k e = filter (\<lambda>t. t \<notin> set (lists k (Wait e)))"

lemma flags_left_Nil [simp]: "flags_left k ev [] = ev"
  by (simp add: flags_left_def)

lemma and_not_or: "(x AND NOT y) AND NOT z = x AND NOT (y OR z)" for x y z :: u32
  by (rule bit_eqI) (auto simp: bit_simps)

lemma flags_left_Cons:
  "flags_left k ev (t # ts) =
     flags_left k (ev AND NOT (if event_info (threads k t) AND RT_EVENT_FLAG_CLEAR \<noteq> 0 then event_set (threads k t) else 0)) ts"
  by (simp add: flags_left_def and_not_or)

lemma consumed_cong: "(\<And>t. t \<in> set ts \<Longrightarrow> event_info (threads k' t) = event_info (threads k t) \<and> event_set (threads k' t) = event_set (threads k t)) \<Longrightarrow>
    consumed k' ts = consumed k ts"
  by (induction ts) auto


subsection \<open>Sending\<close>

lemma and_not_below [simp]: "(x AND NOT y) AND x = x AND NOT y" for x y :: u32
  by (rule bit_eqI) (auto simp: bit_simps)

lemma deliver_spec:
  assumes i: "sched_inv k" and l: "lists k (Wait e) = pre @ t # post" and g: "registered k t"
    and m: "event_match (event_info (threads k t)) (event_set (threads k t)) (ev_set (events k e)) = Some True"
  obtains k' where "event_deliver e t k = Some k'" "sched_inv k'" "current k' = current k" "objects k' = objects k"
    "lists k' (Wait e) = pre @ post" "runnable (threads k' t)" "error (threads k' t) = RT_EOK"
    "event_set (threads k' t) = got (threads k t) (ev_set (events k e))" "event_info (threads k' t) = event_info (threads k t)"
    "\<And>u. u \<noteq> t \<Longrightarrow> threads k' u = threads k u"
    "ev_set (events k' e) = flags_left k' (ev_set (events k e)) [t]"
proof -
  let ?info = "event_info (threads k t)"
  define k1 where "k1 = (if ?info AND RT_EVENT_FLAG_AND \<noteq> 0 then k
    else upd_thread t (\<lambda>th. th\<lparr>event_set := event_set th AND ev_set (events k e)\<rparr>) k)"
  define k2 where "k2 = (if ?info AND RT_EVENT_FLAG_CLEAR \<noteq> 0
    then upd_event e (\<lambda>ev. ev\<lparr>ev_set := ev_set ev AND NOT (event_set (threads k1 t))\<rparr>) k1 else k1)"
  have f1: "sched_inv k1" "lists k1 = lists k" "current k1 = current k" "objects k1 = objects k" "events k1 = events k"
    "stat (threads k1 t) = stat (threads k t)" "error (threads k1 t) = error (threads k t)" "\<And>u. u \<noteq> t \<Longrightarrow> threads k1 u = threads k u"
    "registered k1 t"
    using i g
    by (simp_all add: k1_def registered_def rt_object_get_type_def sched_upd_same)
  have f2: "sched_inv k2" "lists k2 = lists k" "current k2 = current k" "objects k2 = objects k" "threads k2 = threads k1" "registered k2 t"
    using f1 by (simp_all add: k2_def)
  have rc: "event_set (threads k1 t) = got (threads k t) (ev_set (events k e))" "event_info (threads k1 t) = ?info"
    by (simp_all add: k1_def got_def)
  have ev: "ev_set (events k2 e) = ev_set (events k e) AND NOT (if ?info AND RT_EVENT_FLAG_CLEAR \<noteq> 0 then event_set (threads k1 t) else 0)"
    using f1(5) by (simp add: k2_def)
  have s: "suspended (threads k2 t)" using sched_butD(3) [OF i, of t "Wait e"] l f2(5) f1(6) by simp
  have d: "t \<notin> set pre" "t \<notin> set post" using sched_butD(2) [OF i, of "Wait e"] l by auto
  obtain k3 where k3: "rt_thread_resume t k2 = Some (k3, RT_EOK)" "sched_inv k3" "only_core k2 k3" "current k3 = current k2"
    "threads k3 = (threads k2)(t := (threads k2 t)\<lparr>stat := (if current k2 = Some t then TH_RUNNING else TH_READY)\<rparr>)"
    "\<And>q. \<not> is_ready q \<Longrightarrow> lists k3 q = removeAll t (lists k2 q)"
    by (rule resume_spec [OF f2(1) s f2(6)]) (rule that)
  let ?k4 = "upd_thread t (\<lambda>th. th\<lparr>error := RT_EOK\<rparr>) k3"
  have r: "event_deliver e t k = Some ?k4"
    unfolding event_deliver_def Let_def k1_def [symmetric] k2_def [symmetric] by (simp add: k3(1))
  show thesis
  proof (rule that [OF r])
    show "sched_inv ?k4" "current ?k4 = current k" using k3(2,4) f2(3) by simp_all
    show "objects ?k4 = objects k" using only_coreD(1) [OF k3(3)] f2(4) by (simp add: upd_thread_def)
    show "lists ?k4 (Wait e) = pre @ post" using k3(6) [of "Wait e"] f2(2) l d by simp
    show "runnable (threads ?k4 t)" "error (threads ?k4 t) = RT_EOK" by (simp_all add: k3(5) runnable_def)
    show rc4: "event_set (threads ?k4 t) = got (threads k t) (ev_set (events k e))" "event_info (threads ?k4 t) = ?info"
      using rc by (simp_all add: k3(5) f2(5))
    show "threads ?k4 u = threads k u" if "u \<noteq> t" for u using that f1(8) by (simp add: k3(5) f2(5))
    have "events ?k4 = events k2" using only_coreD(11) [OF k3(3)] by (simp add: upd_thread_def)
    then show "ev_set (events ?k4 e) = flags_left ?k4 (ev_set (events k e)) [t]"
      using ev rc(1) rc4 by (simp only: flags_left_Cons flags_left_Nil)
  qed
qed

text \<open>The whole scan.  The threads in \<open>post\<close> stay, in their order; whether a thread stays is decided by the flags that the threads woken
  before it have left.\<close>

definition scanned :: "kernel \<Rightarrow> kernel \<Rightarrow> u32 \<Rightarrow> tid list \<Rightarrow> tid list \<Rightarrow> bool" where
  "scanned k k' ev ts post \<longleftrightarrow> (\<forall>us t vs. ts = us @ t # vs \<longrightarrow>
     (let left = flags_left k' ev (filter (\<lambda>u. u \<notin> set post) us)
      in (t \<notin> set post \<longleftrightarrow> event_match (event_info (threads k t)) (event_set (threads k t)) left = Some True) \<and>
         (t \<notin> set post \<longrightarrow> runnable (threads k' t) \<and> error (threads k' t) = RT_EOK \<and> event_info (threads k' t) = event_info (threads k t) \<and>
            event_set (threads k' t) = got (threads k t) left)))"

lemma scannedD:
  assumes "scanned k k' ev ts post" "ts = us @ t # vs"
  shows "t \<notin> set post \<longleftrightarrow> event_match (event_info (threads k t)) (event_set (threads k t)) (flags_left k' ev (filter (\<lambda>u. u \<notin> set post) us)) = Some True"
    "t \<notin> set post \<Longrightarrow> runnable (threads k' t) \<and> error (threads k' t) = RT_EOK \<and> event_info (threads k' t) = event_info (threads k t) \<and>
       event_set (threads k' t) = got (threads k t) (flags_left k' ev (filter (\<lambda>u. u \<notin> set post) us))"
  using assms unfolding scanned_def Let_def by blast+

lemma scanned_Nil [simp]: "scanned k k' ev [] post"
  by (simp add: scanned_def)

text \<open>A thread in front that stays, and one that is woken.\<close>

lemma scanned_stay:
  assumes s: "scanned k k' ev ts post" and t: "t \<notin> set ts" and m: "event_match (event_info (threads k t)) (event_set (threads k t)) ev = Some False"
  shows "scanned k k' ev (t # ts) (t # post)"
  unfolding scanned_def Let_def
proof (intro allI impI, goal_cases)
  case (1 us u vs)
  show ?case
  proof (cases us)
    case Nil
    then show ?thesis using 1 m by simp
  next
    case (Cons w ws)
    then have w: "w = t" "ts = ws @ u # vs" using 1 by simp_all
    have f: "filter (\<lambda>x. x \<notin> set (t # post)) us = filter (\<lambda>x. x \<notin> set post) ws" using w t Cons by (auto intro: filter_cong)
    have "u \<noteq> t" using t w(2) by auto
    then show ?thesis using scannedD [OF s w(2)] unfolding f by simp
  qed
qed

lemma scanned_wake:
  assumes s: "scanned k1 k' (flags_left k' ev [t]) ts post" and t: "t \<notin> set ts" "t \<notin> set post" and f: "\<And>u. u \<noteq> t \<Longrightarrow> threads k1 u = threads k u"
    and m: "event_match (event_info (threads k t)) (event_set (threads k t)) ev = Some True"
    and r: "runnable (threads k' t)" "error (threads k' t) = RT_EOK" "event_info (threads k' t) = event_info (threads k t)"
      "event_set (threads k' t) = got (threads k t) ev"
  shows "scanned k k' ev (t # ts) post"
  unfolding scanned_def Let_def
proof (intro allI impI, goal_cases)
  case (1 us u vs)
  show ?case
  proof (cases us)
    case Nil
    then show ?thesis using 1 m t(2) r by simp
  next
    case (Cons w ws)
    then have w: "w = t" "ts = ws @ u # vs" using 1 by simp_all
    have l: "flags_left k' ev (filter (\<lambda>x. x \<notin> set post) us) = flags_left k' (flags_left k' ev [t]) (filter (\<lambda>x. x \<notin> set post) ws)"
      using Cons w t(2) by (simp add: flags_left_Cons [of k' ev t "filter _ _"] flags_left_Cons [of k' ev t "[]"])
    have "u \<noteq> t" using t w(2) by auto
    then show ?thesis using scannedD [OF s w(2)] f [of u] unfolding l by simp
  qed
qed

lemma scan_spec:
  assumes "sched_inv k" "lists k (Wait e) = pre @ ts" "\<forall>t\<in>set ts. registered k t"
    "\<forall>t\<in>set pre. event_match (event_info (threads k t)) (event_set (threads k t)) (ev_set (events k e)) = Some False"
    "\<forall>t\<in>set ts. event_match (event_info (threads k t)) (event_set (threads k t)) (ev_set (events k e)) \<noteq> None"
  shows "\<exists>k' need' post. event_scan e ts need k = Some (k', need', False) \<and> sched_inv k' \<and> current k' = current k \<and>
    objects k' = objects k \<and> lists k' (Wait e) = pre @ post \<and> post = filter (\<lambda>t. t \<in> set post) ts \<and> event_ok k' e \<and>
    scanned k k' (ev_set (events k e)) ts post \<and> (\<forall>t. t \<notin> set ts - set post \<longrightarrow> threads k' t = threads k t) \<and>
    ev_set (events k' e) = flags_left k' (ev_set (events k e)) (filter (\<lambda>t. t \<notin> set post) ts) \<and> (need \<or> post \<noteq> ts \<longrightarrow> need')"
  using assms
proof (induction ts arbitrary: k pre need)
  case Nil
  then show ?case by (auto simp: event_ok_def)
next
  case (Cons t ts)
  have dd: "distinct (pre @ t # ts)" using sched_butD(2) [OF Cons.prems(1), of "Wait e"] Cons.prems(2) by simp
  then have tt: "t \<notin> set ts" by simp
  let ?m = "\<lambda>k t. event_match (event_info (threads k t)) (event_set (threads k t)) (ev_set (events k e))"
  show ?case
  proof (cases "?m k t = Some True")
    case False
    then have f: "?m k t = Some False" using Cons.prems(5) by auto
    have "lists k (Wait e) = (pre @ [t]) @ ts" "\<forall>u\<in>set (pre @ [t]). ?m k u = Some False" using Cons.prems(2,4) f by auto
    from Cons.IH [OF Cons.prems(1) this(1) _ this(2), of need] Cons.prems(3,5)
    obtain k' need' post where k': "event_scan e ts need k = Some (k', need', False)" "sched_inv k'" "current k' = current k"
      "objects k' = objects k" "lists k' (Wait e) = (pre @ [t]) @ post" "post = filter (\<lambda>t. t \<in> set post) ts" "event_ok k' e"
      "scanned k k' (ev_set (events k e)) ts post" "\<forall>t. t \<notin> set ts - set post \<longrightarrow> threads k' t = threads k t"
      "ev_set (events k' e) = flags_left k' (ev_set (events k e)) (filter (\<lambda>t. t \<notin> set post) ts)" "need \<or> post \<noteq> ts \<longrightarrow> need'" by auto
    have "filter (\<lambda>u. u \<in> set (t # post)) (t # ts) = t # filter (\<lambda>u. u \<in> set post) ts"
      "filter (\<lambda>u. u \<notin> set (t # post)) (t # ts) = filter (\<lambda>u. u \<notin> set post) ts"
      using tt by (auto intro: filter_cong)
    moreover have "\<forall>u. u \<notin> set (t # ts) - set (t # post) \<longrightarrow> threads k' u = threads k u"
      using k'(9) tt by (metis DiffE DiffI insert_iff list.set(2))
    ultimately show ?thesis using f k'(1-8,10,11) scanned_stay [OF k'(8) tt f]
      by (intro exI [of _ k'] exI [of _ need'] exI [of _ "t # post"]) auto
  next
    case True
    have g: "registered k t" using Cons.prems(3) by simp
    obtain k1 where k1: "event_deliver e t k = Some k1" "sched_inv k1" "current k1 = current k" "objects k1 = objects k"
      "lists k1 (Wait e) = pre @ ts" "runnable (threads k1 t)" "error (threads k1 t) = RT_EOK"
      "event_set (threads k1 t) = got (threads k t) (ev_set (events k e))" "event_info (threads k1 t) = event_info (threads k t)"
      "\<And>u. u \<noteq> t \<Longrightarrow> threads k1 u = threads k u" "ev_set (events k1 e) = flags_left k1 (ev_set (events k e)) [t]"
      by (rule deliver_spec [OF Cons.prems(1,2) g True]) (rule that)
    have le: "ev_set (events k1 e) AND ev_set (events k e) = ev_set (events k1 e)" by (simp add: k1(11) flags_left_def)
    have p: "\<forall>u\<in>set pre. ?m k1 u = Some False"
    proof
      fix u assume u: "u \<in> set pre"
      then have "u \<noteq> t" using dd by auto
      then show "?m k1 u = Some False" using event_match_mono [OF _ le] Cons.prems(4) u k1(10) by simp
    qed
    have ts: "\<forall>u\<in>set ts. ?m k1 u \<noteq> None" "\<forall>u\<in>set ts. registered k1 u"
    proof -
      have "u \<noteq> t" if "u \<in> set ts" for u using that dd by auto
      then show "\<forall>u\<in>set ts. ?m k1 u \<noteq> None" "\<forall>u\<in>set ts. registered k1 u"
        using Cons.prems(3,5) k1(10) registered_cong [OF k1(4)] by (auto simp: event_match_def split: if_splits)
    qed
    from Cons.IH [OF k1(2,5) ts(2) p ts(1), of True]
    obtain k' need' post where k': "event_scan e ts True k1 = Some (k', need', False)" "sched_inv k'" "current k' = current k1"
      "objects k' = objects k1" "lists k' (Wait e) = pre @ post" "post = filter (\<lambda>t. t \<in> set post) ts" "event_ok k' e"
      "scanned k1 k' (ev_set (events k1 e)) ts post" "\<forall>t. t \<notin> set ts - set post \<longrightarrow> threads k' t = threads k1 t"
      "ev_set (events k' e) = flags_left k' (ev_set (events k1 e)) (filter (\<lambda>t. t \<notin> set post) ts)" "need'" by auto
    have tp: "t \<notin> set post" using tt by (subst k'(6)) simp
    have kt: "threads k' t = threads k1 t" using k'(9) tt by simp
    have ev: "ev_set (events k1 e) = flags_left k' (ev_set (events k e)) [t]" unfolding k1(11) by (simp add: flags_left_def kt)
    have "scanned k k' (ev_set (events k e)) (t # ts) post"
      by (rule scanned_wake [OF _ tt tp k1(10) True]) (use k'(8) ev k1(6-9) kt in simp_all)
    moreover have "threads k' u = threads k u" if "u \<notin> set (t # ts) - set post" for u
      using that k'(9) k1(10) [of u] tp by (cases "u = t") auto
    moreover have "ev_set (events k' e) = flags_left k' (ev_set (events k e)) (filter (\<lambda>t. t \<notin> set post) (t # ts))"
      using k'(10) tp by (simp add: ev flags_left_Cons [of k' _ t "filter _ _"] flags_left_Cons [of k' _ t "[]"])
    moreover have "post = filter (\<lambda>t. t \<in> set post) (t # ts)" using k'(6) tp by simp
    moreover have "event_scan e (t # ts) need k = Some (k', need', False)" using True k1(1) k'(1) by simp
    ultimately show ?thesis using k'(2-5,7,11) k1(3,4) by (intro exI [of _ k'] exI [of _ need'] exI [of _ post]) simp
  qed
qed


subsection \<open>Properties\<close>

text \<open>
  C14: \<open>rt_event_send\<close> wakes exactly the threads it should.  It sets the flags and passes along the waiting threads in their order.  A thread is
  taken off the list if and only if its condition holds for the flags that the threads woken before it have left; it becomes runnable, and its
  pending receive returns \<open>RT_EOK\<close> with all the flags it asked for or, when it asked for any, with those of them that are set.  The flags left in
  the event are those that no woken thread has cleared, the other threads keep waiting in their order, for something that does not hold, and no other
  thread is changed.
\<close>
theorem event_send_wakes:
  assumes i: "sched_inv k" and c: "current k \<noteq> None" and ty: "rt_object_get_type (OEvent e) k = Class_Event"
    and ok: "event_ok k e" and w: "waiters_ok k (Wait e)" and fl: "flags \<noteq> 0"
  shows "\<exists>k'. rt_event_send e flags k = Some (k', RT_EOK) \<and> sched_inv k' \<and> event_ok k' e \<and>
    (\<forall>us t vs left. lists k (Wait e) = us @ t # vs \<longrightarrow> left = flags_left k' (ev_set (events k e) OR flags) (woken k' e us) \<longrightarrow>
       (t \<notin> set (lists k' (Wait e)) \<longleftrightarrow> event_match (event_info (threads k t)) (event_set (threads k t)) left = Some True) \<and>
       (t \<notin> set (lists k' (Wait e)) \<longrightarrow> runnable (threads k' t) \<and> event_recv_resume t k' = (RT_EOK, Some (got (threads k t) left)))) \<and>
    lists k' (Wait e) = filter (\<lambda>t. t \<notin> set (woken k' e (lists k (Wait e)))) (lists k (Wait e)) \<and>
    ev_set (events k' e) = flags_left k' (ev_set (events k e) OR flags) (woken k' e (lists k (Wait e))) \<and>
    (\<forall>u. u \<notin> set (woken k' e (lists k (Wait e))) \<longrightarrow> rescheduled (threads k u) (threads k' u))"
proof -
  let ?k = "upd_event e (\<lambda>ev. ev\<lparr>ev_set := ev_set ev OR flags\<rparr>) k" and ?ts = "lists k (Wait e)" and ?ev = "ev_set (events k e) OR flags"
  let ?m = "\<lambda>t. event_match (event_info (threads k t)) (event_set (threads k t))"
  have def: "?m t ev' \<noteq> None" if "t \<in> set ?ts" for t ev'
    using ok that by (fastforce simp: event_ok_def event_match_def split: if_splits)
  have h: "sched_inv ?k" "lists ?k (Wait e) = [] @ ?ts" "\<forall>t\<in>set ?ts. registered ?k t"
    using i w by (simp_all add: waiters_ok_def)
  obtain k1 need post where k1: "event_scan e ?ts False ?k = Some (k1, need, False)" "sched_inv k1" "current k1 = current k"
    "lists k1 (Wait e) = post" "post = filter (\<lambda>t. t \<in> set post) ?ts" "event_ok k1 e" "scanned ?k k1 ?ev ?ts post"
    "\<forall>t. t \<notin> set ?ts - set post \<longrightarrow> threads k1 t = threads k t" "ev_set (events k1 e) = flags_left k1 ?ev (filter (\<lambda>t. t \<notin> set post) ?ts)"
    using scan_spec [OF h, of False] def by auto
  obtain k2 where k2: "rt_schedule k1 = Some k2" using rt_schedule_total [of k1] k1(3) c by auto
  define k' where "k' = (if need then k2 else k1)"
  have resched: "rescheduled (threads k1 t) (threads k' t)" for t
    using rt_schedule_threads [OF k1(2) k2, of t] by (simp add: k'_def rescheduled_def)
  have r: "rt_event_send e flags k = Some (k', RT_EOK)"
    using ty fl k1(1) k2 by (simp add: rt_event_send_def k'_def)
  have ev: "events k' = events k1" using only_coreD(11) [OF only_core_schedule [OF k2]] by (simp add: k'_def)
  have l: "lists k' (Wait e) = post" using rt_schedule_lists [OF k1(2) k2, of "Wait e"] k1(4) by (simp add: k'_def)
  have th: "event_info (threads k' t) = event_info (threads k1 t)" "event_set (threads k' t) = event_set (threads k1 t)" for t
    using resched [of t] by (auto simp: rescheduled_def)
  have fl1: "flags_left k' = flags_left k1" using consumed_cong [of _ k' k1] th by (simp add: flags_left_def [abs_def])
  have i': "sched_inv k'" using k1(2) sched_schedule [OF k1(2) k2] by (simp add: k'_def)
  have ok': "event_ok k' e" using k1(4,6) by (simp add: event_ok_def l th ev)
  let ?left = "\<lambda>us. flags_left k' ?ev (filter (\<lambda>t. t \<notin> set post) us)"
  have w: "woken k' e = filter (\<lambda>t. t \<notin> set post)" by (simp add: woken_def l fun_eq_iff)
  have each: "(t \<notin> set post \<longleftrightarrow> ?m t (?left us) = Some True) \<and>
      (t \<notin> set post \<longrightarrow> runnable (threads k' t) \<and> event_recv_resume t k' = (RT_EOK, Some (got (threads k t) (?left us))))"
    if s: "?ts = us @ t # vs" for us t vs
  proof -
    note d = scannedD [OF k1(7) s, folded fl1, simplified]
    have "runnable (threads k' t) \<and> event_recv_resume t k' = (RT_EOK, Some (got (threads k t) (?left us)))" if "t \<notin> set post"
      using d(2) [OF that] rescheduledD(2,3) [OF resched [of t]] th [of t] by (simp add: event_recv_resume_def)
    then show ?thesis using d(1) by blast
  qed
  have "post = filter (\<lambda>t. t \<notin> set (filter (\<lambda>t. t \<notin> set post) ?ts)) ?ts" by (subst k1(5)) (auto intro: filter_cong)
  moreover have "rescheduled (threads k u) (threads k' u)" if "u \<notin> set (filter (\<lambda>t. t \<notin> set post) ?ts)" for u
    using resched [of u] k1(8) that by auto
  ultimately show ?thesis using r i' ok' each k1(9) by (intro exI [of _ k']) (simp only: l w ev fl1, blast)
qed

text \<open>The two outcomes that change the event or the waiting list.\<close>

lemma event_recv_now:
  assumes it: "in_thread k t" and ty: "rt_object_get_type (OEvent e) k = Class_Event" and ok: "event_ok k e"
    and m: "event_match opt flags (ev_set (events k e)) = Some True" and fl: "flags \<noteq> 0"
  shows "\<exists>k'. event_recv e flags opt timeout sf k = Some (k', Ret (RT_EOK, Some (ev_set (events k e) AND flags))) \<and>
       sched_inv k' \<and> event_ok k' e \<and>
       ev_set (events k' e) = (if opt AND RT_EVENT_FLAG_CLEAR \<noteq> 0 then ev_set (events k e) AND NOT flags else ev_set (events k e))"
proof -
  have i: "sched_inv k" and c: "current k = Some t" and st: "stat (threads k t) = TH_RUNNING" using it by (simp_all add: in_thread_def)
  have nw: "t \<notin> set (lists k (Wait e))" using running_not_listed [OF i st] by (simp add: unlisted_def)
  let ?k = "upd_thread t (\<lambda>th. th\<lparr>error := RT_EOK, event_set := ev_set (events k e) AND flags, event_info := opt\<rparr>)
    (upd_thread t (\<lambda>th. th\<lparr>error := RT_EINTR\<rparr>) k)"
  let ?k' = "if opt AND RT_EVENT_FLAG_CLEAR \<noteq> 0 then upd_event e (\<lambda>ev. ev\<lparr>ev_set := ev_set ev AND NOT flags\<rparr>) ?k else ?k"
  have r: "event_recv e flags opt timeout sf k = Some (?k', Ret (RT_EOK, Some (ev_set (events k e) AND flags)))"
    using ty it c m fl by (simp add: event_recv_def Let_def)
  have i': "sched_inv ?k'" using i by (simp add: sched_upd_same)
  have ev: "ev_set (events ?k' e) = (if opt AND RT_EVENT_FLAG_CLEAR \<noteq> 0 then ev_set (events k e) AND NOT flags else ev_set (events k e))"
    by simp
  have "ev_set (events ?k' e) AND ev_set (events k e) = ev_set (events ?k' e)" unfolding ev by simp
  note mono = event_match_mono [OF _ this]
  have "event_ok ?k' e" unfolding event_ok_def
  proof
    fix u assume "u \<in> set (lists ?k' (Wait e))"
    then have u: "u \<in> set (lists k (Wait e))" by (simp split: if_splits)
    then have "threads ?k' u = threads k u" using nw by auto
    then show "event_match (event_info (threads ?k' u)) (event_set (threads ?k' u)) (ev_set (events ?k' e)) = Some False"
      using mono ok u by (simp only: event_ok_def)
  qed
  then show ?thesis using r i' ev by auto
qed

lemma event_recv_wait:
  assumes it: "in_thread k t" and ty: "rt_object_get_type (OEvent e) k = Class_Event" and ok: "event_ok k e"
    and m: "event_match opt flags (ev_set (events k e)) = Some False" and fl: "flags \<noteq> 0" and wt: "wait_time timeout" "timeout \<noteq> 0"
  shows "\<exists>k'. event_recv e flags opt timeout sf k = Some (k', Blocked) \<and> sched_inv k' \<and> event_ok k' e \<and> events k' = events k \<and>
       stat (threads k' t) = TH_SUSPEND sf \<and> event_set (threads k' t) = flags \<and> event_info (threads k' t) = opt \<and>
       lists k' (Wait e) = enqueue_waiter k (event_flag (events k e)) t (lists k (Wait e)) \<and>
       (sint timeout > 0 \<longrightarrow> remaining k' (ThreadTimer t) = timeout)"
proof -
  have c: "current k = Some t" using it by (simp add: in_thread_def)
  let ?k = "upd_thread t (\<lambda>th. th\<lparr>event_set := flags, event_info := opt\<rparr>) (upd_thread t (\<lambda>th. th\<lparr>error := RT_EINTR\<rparr>) k)"
  have it': "in_thread ?k t" using it by (simp add: in_thread_def registered_def rt_object_get_type_def sched_upd_same)
    (simp add: upd_thread_def)
  obtain k' where k': "ipc_wait (Wait e) t (event_flag (events k e)) sf timeout ?k = Some (k', Blocked)" "sched_inv k'" "only_core ?k k'"
    "threads k' t = (threads ?k t)\<lparr>stat := TH_SUSPEND sf\<rparr>"
    "lists k' (Wait e) = enqueue_waiter ?k (event_flag (events k e)) t (lists ?k (Wait e))"
    "\<And>u. u \<noteq> t \<Longrightarrow> rescheduled (threads ?k u) (threads k' u)"
    "\<And>q'. \<not> is_ready q' \<Longrightarrow> q' \<noteq> Wait e \<Longrightarrow> lists k' q' = lists ?k q'"
    "sint timeout > 0 \<Longrightarrow> ThreadTimer t \<in> set (timer_list k') \<and> remaining k' (ThreadTimer t) = timeout"
    "current k' \<noteq> None"
    by (rule ipc_wait_spec [OF it' disjI1 [OF refl] wt(1), where flag = "event_flag (events k e)" and sflag = sf]) (rule that)
  have r: "event_recv e flags opt timeout sf k = Some (k', Blocked)"
    using ty it c m fl wt(2) k'(1) by (simp add: event_recv_def Let_def)
  have "(\<lambda>u. current_priority (threads ?k u)) = (\<lambda>u. current_priority (threads k u))" by auto
  then have "enqueue_waiter ?k = enqueue_waiter k" unfolding enqueue_waiter_def by presburger
  then have l: "lists k' (Wait e) = enqueue_waiter k (event_flag (events k e)) t (lists k (Wait e))" using k'(5) by simp
  have ev: "events k' = events k" using only_coreD(11) [OF k'(3)] by simp
  have "event_ok k' e" unfolding event_ok_def
  proof
    fix u assume "u \<in> set (lists k' (Wait e))"
    then consider "u = t" | "u \<noteq> t" "u \<in> set (lists k (Wait e))" unfolding l by auto
    then show "event_match (event_info (threads k' u)) (event_set (threads k' u)) (ev_set (events k' e)) = Some False"
    proof cases
      case 1
      then show ?thesis using m by (simp add: k'(4) ev)
    next
      case 2
      then have "event_info (threads k' u) = event_info (threads k u)" "event_set (threads k' u) = event_set (threads k u)"
        using k'(6) [of u] by (auto simp: rescheduled_def)
      then show ?thesis using ok 2 by (simp add: event_ok_def ev)
    qed
  qed
  then show ?thesis using r k'(2,4,8) l ev by auto
qed

text \<open>
  C25: \<open>rt_event_recv\<close> in a thread, waiting for all or any of a set of flags.  When the condition holds the
  call returns the flags that are set at once and clears the requested ones if asked to; otherwise, with no
  timeout, it fails with \<open>-RT_ETIMEOUT\<close> and leaves the event unchanged, and with a timeout the caller is
  suspended with its condition recorded.
\<close>
theorem event_recv_spec:
  assumes it: "in_thread k t" and ty: "rt_object_get_type (OEvent e) k = Class_Event" and ok: "event_ok k e"
    and m: "event_match opt flags (ev_set (events k e)) = Some sat" and fl: "flags \<noteq> 0" and wt: "wait_time timeout"
  shows "if sat then \<exists>k'. event_recv e flags opt timeout sf k = Some (k', Ret (RT_EOK, Some (ev_set (events k e) AND flags))) \<and>
       sched_inv k' \<and> event_ok k' e \<and>
       ev_set (events k' e) = (if opt AND RT_EVENT_FLAG_CLEAR \<noteq> 0 then ev_set (events k e) AND NOT flags else ev_set (events k e))
     else if timeout = 0 then \<exists>k'. event_recv e flags opt timeout sf k = Some (k', Ret (RT_ETIMEOUT, None)) \<and>
       sched_inv k' \<and> event_ok k' e \<and> events k' = events k
     else \<exists>k'. event_recv e flags opt timeout sf k = Some (k', Blocked) \<and> sched_inv k' \<and> event_ok k' e \<and> events k' = events k \<and>
       stat (threads k' t) = TH_SUSPEND sf \<and> event_set (threads k' t) = flags \<and> event_info (threads k' t) = opt \<and>
       lists k' (Wait e) = enqueue_waiter k (event_flag (events k e)) t (lists k (Wait e)) \<and>
       (sint timeout > 0 \<longrightarrow> remaining k' (ThreadTimer t) = timeout)"
proof -
  have i: "sched_inv k" and c: "current k = Some t" and st: "stat (threads k t) = TH_RUNNING" using it by (simp_all add: in_thread_def)
  have nw: "t \<notin> set (lists k (Wait e))" using running_not_listed [OF i st] by (simp add: unlisted_def)
  consider "sat" | "\<not> sat" "timeout = 0" | "\<not> sat" "timeout \<noteq> 0" by blast
  then show ?thesis
  proof cases
    case 1
    then show ?thesis using event_recv_now [OF it ty ok _ fl, of opt timeout sf] m by simp
  next
    case 2
    let ?k = "upd_thread t (\<lambda>th. th\<lparr>error := RT_ETIMEOUT\<rparr>) (upd_thread t (\<lambda>th. th\<lparr>error := RT_EINTR\<rparr>) k)"
    have r: "event_recv e flags opt timeout sf k = Some (?k, Ret (RT_ETIMEOUT, None))"
      using ty it c m fl 2 by (simp add: event_recv_def Let_def)
    have "event_ok ?k e" using ok nw by (auto simp: event_ok_def)
    then show ?thesis using 2 r i by auto
  next
    case 3
    then show ?thesis using event_recv_wait [OF it ty ok _ fl wt, of opt sf] m by simp
  qed
qed


subsection \<open>Witnesses\<close>

text \<open>A kernel whose fourth thread waits for flags 1 and 4, and receives them after flag 4 was set.\<close>

definition demo_event :: kernel where
  "demo_event = upd_thread 4 (\<lambda>th. th\<lparr>event_set := 5, event_info := RT_EVENT_FLAG_AND\<rparr>)
     (upd_event 9 (\<lambda>ev. ev\<lparr>ev_set := 4\<rparr>) (demo_waiting (Wait 9)))"

lemma demo_event:
  "sched_inv demo_event" "current demo_event \<noteq> None" "rt_object_get_type (OEvent 9) demo_event = Class_Event" "event_ok demo_event 9"
  "waiters_ok demo_event (Wait 9)" "lists demo_event (Wait 9) = [4]" "ev_set (events demo_event 9) = 4" "event_set (threads demo_event 4) = 5"
  "event_info (threads demo_event 4) = RT_EVENT_FLAG_AND"
proof -
  note w = demo_waiting [OF disjI1 [OF refl], where x = 9]
  show "sched_inv demo_event" "current demo_event \<noteq> None" "lists demo_event (Wait 9) = [4]" "ev_set (events demo_event 9) = 4"
    "event_set (threads demo_event 4) = 5" "event_info (threads demo_event 4) = RT_EVENT_FLAG_AND"
    using w(1-3) by (simp_all add: demo_event_def sched_upd_same)
  then show "event_ok demo_event 9" by (simp add: event_ok_def event_match_def RT_EVENT_FLAG_AND_def)
  show "rt_object_get_type (OEvent 9) demo_event = Class_Event"
    using w(5) [of "OEvent 9"] by (simp add: demo_event_def rt_object_get_type_def)
  show "waiters_ok demo_event (Wait 9)"
    using w(4) by (simp add: waiters_ok_def demo_event_def registered_def rt_object_get_type_def)
qed

theorem event_send_wakes_witness:
  "\<exists>k'. rt_event_send 9 1 demo_event = Some (k', RT_EOK) \<and> lists k' (Wait 9) = [] \<and> runnable (threads k' 4) \<and>
     event_recv_resume 4 k' = (RT_EOK, Some 5)"
proof -
  have m: "event_match RT_EVENT_FLAG_AND 5 5 = Some True" by (simp add: event_match_def RT_EVENT_FLAG_AND_def)
  have g: "got (threads demo_event 4) ev = 5" for ev by (simp add: got_def demo_event(8,9) RT_EVENT_FLAG_AND_def)
  have "(1 :: u32) \<noteq> 0" by simp
  from event_send_wakes [OF demo_event(1-5) this] obtain k' where k': "rt_event_send 9 1 demo_event = Some (k', RT_EOK)"
    and each: "\<forall>us t vs left. lists demo_event (Wait 9) = us @ t # vs \<longrightarrow> left = flags_left k' (ev_set (events demo_event 9) OR 1) (woken k' 9 us) \<longrightarrow>
       (t \<notin> set (lists k' (Wait 9)) \<longleftrightarrow> event_match (event_info (threads demo_event t)) (event_set (threads demo_event t)) left = Some True) \<and>
       (t \<notin> set (lists k' (Wait 9)) \<longrightarrow> runnable (threads k' t) \<and> event_recv_resume t k' = (RT_EOK, Some (got (threads demo_event t) left)))"
    and l: "lists k' (Wait 9) = filter (\<lambda>t. t \<notin> set (woken k' 9 (lists demo_event (Wait 9)))) (lists demo_event (Wait 9))"
    by blast
  have "woken k' 9 [] = []" by (simp add: woken_def)
  then have n: "4 \<notin> set (lists k' (Wait 9))" "runnable (threads k' 4)" "event_recv_resume 4 k' = (RT_EOK, Some 5)"
    using each [rule_format, of "[]" 4 "[]"] m g by (simp_all add: demo_event(6-9))
  then have "lists k' (Wait 9) = []" by (subst l) (simp add: woken_def demo_event(6))
  with k' n show ?thesis by blast
qed

theorem event_recv_spec_witness:
  "\<exists>k'. event_recv 9 3 RT_EVENT_FLAG_OR 25 RT_UNINTERRUPTIBLE demo_ipc = Some (k', Blocked) \<and> event_ok k' 9 \<and>
     lists k' (Wait 9) = [1] \<and> event_set (threads k' 1) = 3"
proof -
  have ev: "events demo_ipc 9 = \<lparr>event_flag = RT_IPC_FLAG_FIFO, ev_set = 0\<rparr>"
    by (simp add: demo_ipc_def demo_eval demo_ffs kernel0_def)
  have "event_ok demo_ipc 9" by (simp add: event_ok_def demo_ipc_thread)
  moreover have "event_match RT_EVENT_FLAG_OR 3 (ev_set (events demo_ipc 9)) = Some False"
    by (simp add: event_match_def ev RT_EVENT_FLAG_OR_def RT_EVENT_FLAG_AND_def)
  ultimately show ?thesis
    using event_recv_spec [OF demo_ipc_thread(1), of 9 RT_EVENT_FLAG_OR 3 False 25 RT_UNINTERRUPTIBLE]
    by (auto simp: wait_time_def RT_TICK_MAX2_def demo_ipc_thread ev enqueue_waiter_def)
qed

end
