(* ===== verification/KInherit.thy ===== *)
theory KInherit
  imports KMutex
begin

text \<open>
  Correctness of mutexes: what a take and a release do, that both keep the invariant of priority
  inheritance, and that the invariant holds along every run in which no wait for a mutex times out.
\<close>

subsection \<open>Taking\<close>

lemma upd_mutex_simps [simp]:
  "threads (upd_mutex m f k) = threads k" "lists (upd_mutex m f k) = lists k" "objects (upd_mutex m f k) = objects k"
  "current (upd_mutex m f k) = current k" "taken (upd_mutex m f k) = taken k" "ready_group (upd_mutex m f k) = ready_group k"
  "mutexes (upd_mutex m f k) = (mutexes k)(m := f (mutexes k m))" "timers (upd_mutex m f k) = timers k"
  "sched_but S (upd_mutex m f k) = sched_but S k" "rt_object_get_type x (upd_mutex m f k) = rt_object_get_type x k"
  "registered (upd_mutex m f k) t = registered k t"
  by (simp_all add: upd_mutex_def rt_object_get_type_def registered_def cong: sched_but_cong)

lemma taken_insert_simps [simp]:
  "threads (taken_insert t m k) = threads k" "lists (taken_insert t m k) = lists k" "objects (taken_insert t m k) = objects k"
  "current (taken_insert t m k) = current k" "mutexes (taken_insert t m k) = mutexes k"
  "taken (taken_insert t m k) = (taken k)(t := m # taken k t)" "sched_but S (taken_insert t m k) = sched_but S k"
  "rt_object_get_type x (taken_insert t m k) = rt_object_get_type x k" "registered (taken_insert t m k) u = registered k u"
  by (simp_all add: taken_insert_def rt_object_get_type_def registered_def cong: sched_but_cong)

lemma pi_error: "pi_but S k \<Longrightarrow> pi_but S (upd_thread t (\<lambda>th. th\<lparr>error := e\<rparr>) k)"
  by (rule pi_cong) (auto simp: started_def pi_butD intro!: finite_subset [OF _ pi_butD(2)])

text \<open>The running thread waits for nothing.\<close>

lemma running_not_pending:
  assumes "pi_but S k" "stat (threads k t) = TH_RUNNING"
  shows "pending_object (threads k t) = None" "t \<notin> set (lists k q)"
proof -
  have u: "t \<notin> set (lists k q)" for q using running_not_listed [OF pi_butD(1) [OF assms(1)] assms(2)] by (simp add: unlisted_def)
  then show "t \<notin> set (lists k q)" .
  show "pending_object (threads k t) = None"
    using u pi_butD(5) [OF assms(1), of t] by (cases "pending_object (threads k t)") auto
qed

lemma pi_hold:
  assumes i: "pi_inv k" and m: "is_mutex k m" and n: "0 < n" "n \<le> 0xff"
  shows "pi_inv (upd_mutex m (\<lambda>mx. mx\<lparr>mutex_hold := n\<rparr>) k)"
proof (rule pi_butI)
  let ?k = "upd_mutex m (\<lambda>mx. mx\<lparr>mutex_hold := n\<rparr>) k"
  show "registered ?k t" if "started (threads ?k t)" for t using pi_butD(3) [OF i, of t] that by simp
  show "m' \<in> set (taken ?k t) \<longleftrightarrow> is_mutex ?k m' \<and> owner (mutexes ?k m') = Some t" for t m' using pi_butD(4) [OF i, of m' t] by simp
  show "pending_object (threads ?k t) = Some m' \<longleftrightarrow> is_mutex ?k m' \<and> t \<in> set (lists ?k (Wait m'))" for t m'
    using pi_butD(5) [OF i, of t m'] by simp
  show "mutex_ok ?k m'" if "is_mutex ?k m'" for m'
    using pi_butD(6) [OF i, of m'] that n by (auto simp: mutex_ok_def split: option.splits)
  show "thread_get_mutex_priority t ?k = prio ?k t" for t
    using pi_butD(7) [OF i, of t] mutex_priority_cong [of ?k t k] by simp
qed (use pi_butD(1,2,8) [OF i] in simp_all)

lemma pi_acquire:
  assumes i: "pi_inv k" and m: "is_mutex k m" and o: "owner (mutexes k m) = None" and st: "started (threads k t)"
  shows "pi_inv (taken_insert t m (upd_mutex m (\<lambda>mx. mx\<lparr>owner := Some t, mutex_priority := 0xff, mutex_hold := 1\<rparr>) k))"
proof (rule pi_butI)
  let ?k = "taken_insert t m (upd_mutex m (\<lambda>mx. mx\<lparr>owner := Some t, mutex_priority := 0xff, mutex_hold := 1\<rparr>) k)"
  note ok = mutex_okD [OF pi_butD(6) [OF i m]]
  have e: "lists k (Wait m) = []" using ok(5) o by auto
  have nt: "m \<notin> set (taken k u)" for u using pi_butD(4) [OF i, of m u] o by simp
  show "registered ?k u" if "started (threads ?k u)" for u using pi_butD(3) [OF i, of u] that by simp
  show "m' \<in> set (taken ?k u) \<longleftrightarrow> is_mutex ?k m' \<and> owner (mutexes ?k m') = Some u" for u m'
    using pi_butD(4) [OF i, of m' u] m nt by auto
  show "pending_object (threads ?k u) = Some m' \<longleftrightarrow> is_mutex ?k m' \<and> u \<in> set (lists ?k (Wait m'))" for u m'
    using pi_butD(5) [OF i, of u m'] by simp
  show "mutex_ok ?k m'" if "is_mutex ?k m'" for m'
    using pi_butD(6) [OF i, of m'] that ok(1,2) e st by (auto simp: mutex_ok_def front_priority_def split: option.splits)
  show "thread_get_mutex_priority u ?k = prio ?k u" for u
  proof -
    have "thread_get_mutex_priority u ?k = thread_get_mutex_priority u k"
    proof (rule mutex_priority_eqI)
      fix p
      have "p \<le> thread_get_mutex_priority u k \<Longrightarrow> p \<le> 0xff"
        using le_mutex_priority [of p u k] pi_butD(8) [OF i, of u] by simp
      then show "p \<le> thread_get_mutex_priority u k \<longleftrightarrow> p \<le> init_priority (threads ?k u) \<and>
          (\<forall>m\<in>set (taken ?k u). p \<le> mutex_priority (mutexes ?k m) \<and> p \<le> ceiling_priority (mutexes ?k m))"
        using nt ok(2) unfolding le_mutex_priority by (auto simp: fun_upd_apply)
    qed
    then show ?thesis using pi_butD(7) [OF i, of u] by simp
  qed
qed (use pi_butD(1,2,8) [OF i] in simp_all)


text \<open>The running thread \<open>t\<close> joins the waiting list of \<open>m\<close>; the owner still has its old priority.\<close>

definition join_wait :: "oid \<Rightarrow> tid \<Rightarrow> kernel \<Rightarrow> kernel" where
  "join_wait m t k = upd_mutex m (\<lambda>mx. mx\<lparr>mutex_priority := min (current_priority (threads k t)) (mutex_priority mx)\<rparr>)
     (upd_thread t (\<lambda>th. th\<lparr>pending_object := Some m\<rparr>) k)"

lemma front_insert:
  "pr t < 0xff \<Longrightarrow> front_priority pr (prio_insert pr t l) = min (pr t) (front_priority pr l)"
  by (cases l) (auto simp: front_priority_def)

lemma pi_join:
  assumes i: "pi_inv k" and t: "stat (threads k t) = TH_RUNNING" and m: "is_mutex k m" and own: "owner (mutexes k m) = Some own" "own \<noteq> t"
    and s: "sched_inv k1" and o: "only_core k k1"
    and th: "threads k1 = (threads k)(t := (threads k t)\<lparr>stat := TH_SUSPEND sf\<rparr>)"
    and l: "lists k1 = (lists k)(Wait m := prio_insert (prio k) t (lists k (Wait m)))"
  shows "pi_but {own} (join_wait m t k1)"
    "thread_get_mutex_priority own (join_wait m t k1) = min (prio k own) (prio k t)"
proof -
  let ?k = "join_wait m t k1"
  note np = running_not_pending [OF i t]
  note ok = mutex_okD [OF pi_butD(6) [OF i m]]
  have mx: "mutexes k1 = mutexes k" "objects k1 = objects k" "taken k1 = taken k" using only_coreD(1,8,10) [OF o] by simp_all
  have ty: "rt_object_get_type x k1 = rt_object_get_type x k" for x by (simp add: rt_object_get_type_def mx)
  have pt: "prio k t < 32" using sched_butD(5) [OF pi_butD(1) [OF i], of t] by (simp add: thread_ok_def)
  have pru: "prio ?k u = prio k u" for u by (simp add: join_wait_def th)
  have mk: "mutexes ?k = (mutexes k)(m := (mutexes k m)\<lparr>mutex_priority := min (prio k t) (mutex_priority (mutexes k m))\<rparr>)"
    by (simp add: join_wait_def mx th)
  have tk: "m \<in> set (taken k u) \<longleftrightarrow> u = own" for u using pi_butD(4) [OF i, of m u] m own by auto
  have f: "objects ?k = objects k" "taken ?k = taken k" "lists ?k = lists k1" by (simp_all add: join_wait_def mx)
  have tyk: "rt_object_get_type x ?k = rt_object_get_type x k" for x by (simp add: rt_object_get_type_def f)
  have tu: "threads ?k u = (if u = t then (threads k t)\<lparr>stat := TH_SUSPEND sf, pending_object := Some m\<rparr> else threads k u)" for u
    by (simp add: join_wait_def th)
  show "pi_but {own} ?k"
  proof (rule pi_butI)
    show "sched_inv ?k" using s by (simp add: join_wait_def)
    show "finite {u. suspended (threads ?k u)}"
      by (rule finite_subset [of _ "insert t {u. suspended (threads k u)}"]) (use pi_butD(2) [OF i] in \<open>auto simp: tu split: if_splits\<close>)
    show "registered ?k u" if "started (threads ?k u)" for u
      using pi_butD(3) [OF i, of u] that t registered_cong [OF f(1)] by (auto simp: tu started_def split: if_splits)
    show "m' \<in> set (taken ?k u) \<longleftrightarrow> is_mutex ?k m' \<and> owner (mutexes ?k m') = Some u" for u m'
      using pi_butD(4) [OF i, of m' u] by (simp add: tyk f mk)
    show "pending_object (threads ?k u) = Some m' \<longleftrightarrow> is_mutex ?k m' \<and> u \<in> set (lists ?k (Wait m'))" for u m'
      using pi_butD(5) [OF i, of u m'] np m by (auto simp: tyk f l tu)
    show "mutex_ok ?k m'" if m': "is_mutex ?k m'" for m'
    proof (cases "m' = m")
      case True
      have "started (threads ?k own)" using ok(6) [OF own(1)] own(2) by (simp add: tu)
      then show ?thesis using True ok(1-4) ok(6) [OF own(1)] own(1) pt prio_insert_sorted [OF ok(3), of t]
        by (simp add: mutex_ok_def f l mk pru front_insert)
    next
      case False
      then show ?thesis using pi_butD(6) [OF i, of m'] m' np t
        by - (rule mutex_ok_cong [of k]; auto simp: tyk f l mk tu started_def)
    qed
    show "thread_get_mutex_priority u ?k = prio ?k u" if "u \<notin> {own}" for u
    proof -
      have "thread_get_mutex_priority u ?k = thread_get_mutex_priority u k"
        by (rule mutex_priority_cong) (use tk [of u] that in \<open>auto simp: tu f mk\<close>)
      then show ?thesis using pi_butD(7) [OF i, of u] by (simp add: pru)
    qed
    show "init_priority (threads ?k u) < 32" for u using pi_butD(8) [OF i, of u] by (auto simp: tu)
  qed
  have "thread_get_mutex_priority own ?k = min (thread_get_mutex_priority own k) (min (prio k t) (mutex_priority (mutexes k m)))"
    by (rule mutex_priority_lower [of m]) (use tk [of own] in \<open>simp_all add: tu f mk\<close>)
  moreover have "thread_get_mutex_priority own k \<le> mutex_priority (mutexes k m)"
    using le_mutex_priority [of "thread_get_mutex_priority own k" own k] tk [of own] by simp
  ultimately show "thread_get_mutex_priority own ?k = min (prio k own) (prio k t)"
    using pi_butD(7) [OF i, of own] by (simp add: min_def)
qed


lemma pi_but_drop: "pi_but {t} k \<Longrightarrow> thread_get_mutex_priority t k = prio k t \<Longrightarrow> pi_inv k"
  by (auto simp: pi_but_def)

text \<open>The owner follows the thread that has joined the list.\<close>

lemma join_boost:
  assumes i: "pi_inv k" and t: "stat (threads k t) = TH_RUNNING" and m: "is_mutex k m" and own: "owner (mutexes k m) = Some own" "own \<noteq> t"
    and s: "sched_inv k1" and o: "only_core k k1"
    and th: "threads k1 = (threads k)(t := (threads k t)\<lparr>stat := TH_SUSPEND sf\<rparr>)"
    and l: "lists k1 = (lists k)(Wait m := prio_insert (prio k) t (lists k (Wait m)))"
  defines "k2 \<equiv> upd_thread t (\<lambda>th. th\<lparr>pending_object := Some m\<rparr>) k1"
  shows "\<exists>k4. (if prio k t < mutex_priority (mutexes k2 m) then
       let k3 = upd_mutex m (\<lambda>mx. mx\<lparr>mutex_priority := prio k t\<rparr>) k2 in
       if prio k t < prio k3 own then thread_update_priority own (prio k t) RT_UNINTERRUPTIBLE k3 else Some k3
     else Some k2) = Some k4 \<and> pi_inv k4 \<and> boosted (prio k t) (join_wait m t k1) k4"
proof -
  let ?k = "join_wait m t k1"
  note j = pi_join [OF i t m own s o th l]
  have mx: "mutexes k2 = mutexes k" using only_coreD(10) [OF o] by (simp add: k2_def)
  have pr: "prio ?k u = prio k u" "prio k2 u = prio k u" for u by (simp_all add: join_wait_def th k2_def)
  have "m \<in> set (taken k own)" using pi_butD(4) [OF i, of m own] m own by simp
  then have mp: "prio k own \<le> mutex_priority (mutexes k m)"
    using pi_butD(7) [OF i, of own] le_mutex_priority [of "prio k own" own k] by simp
  show ?thesis
  proof (cases "prio k t < mutex_priority (mutexes k m)")
    case False
    then have "upd_mutex m (\<lambda>mx. mx\<lparr>mutex_priority := min (prio k t) (mutex_priority mx)\<rparr>) k2 = k2"
      by (simp add: upd_mutex_def mx min_def)
    then have "?k = k2" by (simp add: join_wait_def k2_def th)
    moreover have "thread_get_mutex_priority own ?k = prio ?k own" using j(2) False mp by (simp add: pr)
    ultimately show ?thesis using False pi_but_drop [OF j(1)] by (auto simp: mx boosted_refl)
  next
    case True
    then have k: "upd_mutex m (\<lambda>mx. mx\<lparr>mutex_priority := prio k t\<rparr>) k2 = ?k"
      by (simp add: join_wait_def k2_def [symmetric] upd_mutex_def mx) (simp add: th min_def)
    show ?thesis
    proof (cases "prio k t < prio k own")
      case True
      have "is_mutex ?k m" "owner (mutexes ?k m) = Some own"
        using m own only_coreD(1,10) [OF o] by (simp_all add: join_wait_def rt_object_get_type_def)
      then have "started (threads ?k own)" using mutex_okD(6) [OF pi_butD(6) [OF j(1)]] by blast
      moreover have "thread_get_mutex_priority own ?k = prio k t" using j(2) True by simp
      moreover have "prio k t < prio ?k own" using True by (simp add: pr)
      ultimately obtain k4 where "thread_update_priority own (prio k t) RT_UNINTERRUPTIBLE ?k = Some k4" "pi_inv k4" "boosted (prio k t) ?k k4"
        using update_priority_spec [OF j(1), of "prio k t" RT_UNINTERRUPTIBLE] by blast
      then show ?thesis using True \<open>prio k t < mutex_priority (mutexes k m)\<close> by (simp add: mx k pr)
    next
      case False
      then have "thread_get_mutex_priority own ?k = prio ?k own" using j(2) by (simp add: pr)
      then show ?thesis using pi_but_drop [OF j(1)] False \<open>prio k t < mutex_priority (mutexes k m)\<close> by (simp add: mx k pr boosted_refl)
    qed
  qed
qed

lemma pi_reschedule:
  assumes i: "pi_inv k" and s: "sched_inv k'" and o: "only_core k k'" and th: "\<And>u. rescheduled (threads k u) (threads k' u)"
    and l: "\<And>q. \<not> is_ready q \<Longrightarrow> lists k' q = lists k q"
  shows "pi_inv k'"
proof (rule pi_cong [OF i s only_coreD(1,8,10) [OF o]])
  show "prio k' t = prio k t \<and> init_priority (threads k' t) = init_priority (threads k t) \<and>
      pending_object (threads k' t) = pending_object (threads k t) \<and> started (threads k' t) = started (threads k t)" for t
    using rescheduledD(4,6,7) [OF th [of t]] th [of t] by (auto simp: rescheduled_def runnable_def started_def)
  show "finite {t. suspended (threads k' t)}" using pi_butD(2) [OF i] rescheduledD(5) [OF th] by simp
qed (simp add: l)


text \<open>No owner runs below a thread that waits for its mutex.\<close>

lemma owner_outranks:
  assumes i: "pi_inv k" and m: "is_mutex k m" and own: "owner (mutexes k m) = Some own" and t: "t \<in> set (lists k (Wait m))"
  shows "prio k own \<le> prio k t"
proof -
  note ok = mutex_okD(3,4) [OF pi_butD(6) [OF i m]]
  have "m \<in> set (taken k own)" using pi_butD(4) [OF i, of m own] m own by simp
  then have "prio k own \<le> mutex_priority (mutexes k m)"
    using pi_butD(7) [OF i, of own] le_mutex_priority [of "prio k own" own k] by simp
  also have "\<dots> \<le> prio k t" using ok t by (cases "lists k (Wait m)") (auto simp: front_priority_def)
  finally show ?thesis .
qed

text \<open>A take that has to wait.\<close>

lemma mutex_wait_spec:
  assumes it: "in_thread k t" and i: "pi_inv k" and m: "is_mutex k m" and own: "owner (mutexes k m) = Some own" "own \<noteq> t"
    and wt: "wait_time timeout" "timeout \<noteq> 0"
  shows "\<exists>k'. mutex_take m timeout sf k = Some (k', Blocked) \<and> pi_inv k' \<and> owner (mutexes k' m) = Some own \<and> is_mutex k' m \<and>
    stat (threads k' t) = TH_SUSPEND sf \<and> t \<in> set (lists k' (Wait m)) \<and> prio k' own \<le> prio k t \<and>
    (sint timeout > 0 \<longrightarrow> remaining k' (ThreadTimer t) = timeout)"
proof -
  let ?k = "upd_thread t (\<lambda>th. th\<lparr>error := RT_EOK\<rparr>) k"
  have it': "in_thread ?k t" using it by simp
  have c: "current k = Some t" "stat (threads ?k t) = TH_RUNNING" and g: "registered k t" "\<not> soft (timers k (ThreadTimer t))"
    using it by (simp_all add: in_thread_def)
  have i': "pi_inv ?k" by (rule pi_error [OF i])
  have m': "is_mutex ?k m" "owner (mutexes ?k m) = Some own" using m own by (simp_all add: rt_object_get_type_def)
  note ok = mutex_okD(1) [OF pi_butD(6) [OF i' m'(1)]]
  obtain k1 where k1: "ipc_list_suspend (Wait m) t RT_IPC_FLAG_PRIO sf ?k = Some (k1, RT_EOK)" "sched_inv k1" "only_core ?k k1" "current k1 = Some t"
    "threads k1 = (threads ?k)(t := (threads ?k t)\<lparr>stat := TH_SUSPEND sf\<rparr>)"
    "lists k1 = (lists ?k)(Wait m := enqueue_waiter ?k RT_IPC_FLAG_PRIO t (lists ?k (Wait m)))" "\<And>tm. soft (timers k1 tm) = soft (timers ?k tm)"
    by (rule suspend_on_spec [OF it' disjI1 [OF refl], where flag = RT_IPC_FLAG_PRIO and sflag = sf]) (rule that)
  have l1: "lists k1 = (lists ?k)(Wait m := prio_insert (prio ?k) t (lists ?k (Wait m)))" using k1(6) by (simp only: enqueue_waiter_def ipc_flag.case)
  obtain k4 where k4: "(if prio ?k t < mutex_priority (mutexes (upd_thread t (\<lambda>th. th\<lparr>pending_object := Some m\<rparr>) k1) m) then
       let k3 = upd_mutex m (\<lambda>mx. mx\<lparr>mutex_priority := prio ?k t\<rparr>) (upd_thread t (\<lambda>th. th\<lparr>pending_object := Some m\<rparr>) k1) in
       if prio ?k t < prio k3 own then thread_update_priority own (prio ?k t) RT_UNINTERRUPTIBLE k3 else Some k3
     else Some (upd_thread t (\<lambda>th. th\<lparr>pending_object := Some m\<rparr>) k1)) = Some k4" "pi_inv k4" "boosted (prio ?k t) (join_wait m t k1) k4"
    using join_boost [OF i' c(2) m' own(2) k1(2,3,5) l1] by blast
  have j: "current (join_wait m t k1) = Some t" "objects (join_wait m t k1) = objects k" "timers (join_wait m t k1) = timers k1"
    "prio (join_wait m t k1) t = prio k t" "stat (threads (join_wait m t k1) t) = TH_SUSPEND sf"
    "pending_object (threads (join_wait m t k1) t) = Some m" "owner (mutexes (join_wait m t k1) m) = Some own"
    using only_coreD(1,10) [OF k1(3)] own k1(4) by (simp_all add: join_wait_def k1(5))
  note b = boostedD(1,3,4,8,10,11,13) [OF k4(3)]
  have g4: "registered k4 t" "\<not> soft (timers k4 (ThreadTimer t))" using g k1(7) registered_cong [of k4 k] by (simp_all add: b j)
  obtain k5 k' where k': "(if sint timeout > 0 then start_thread_timer t timeout k4 else Some k4) = Some k5" "rt_schedule k5 = Some k'"
    "sched_inv k'" "only_core k4 k'" "\<And>u. rescheduled (threads k4 u) (threads k' u)" "\<And>q'. \<not> is_ready q' \<Longrightarrow> lists k' q' = lists k4 q'"
    "sint timeout > 0 \<Longrightarrow> ThreadTimer t \<in> set (timer_list k') \<and> remaining k' (ThreadTimer t) = timeout" "current k' \<noteq> None"
    by (rule wait_finish_spec [OF pi_butD(1) [OF k4(2)] _ g4 wt(1)]) (simp add: b j, rule that)
  have pi: "pi_inv k'" by (rule pi_reschedule [OF k4(2) k'(3-6)])
  have r: "mutex_take m timeout sf k = Some (k', Blocked)"
    using it c(1) m own wt(2) k1(1) k4(1) k'(1,2) ok by (auto simp: mutex_take_def Let_def split: if_splits)
  have t4: "stat (threads k4 t) = TH_SUSPEND sf" "pending_object (threads k4 t) = Some m" "prio k4 t = prio k t"
    using boostedD(8,10,11) [OF k4(3), of t] by (auto simp: j)
  have t': "threads k' t = threads k4 t" using rescheduledD(1) [OF k'(5) [of t]] t4(1) by simp
  have o': "owner (mutexes k' m) = Some own" using only_coreD(10) [OF k'(4)] boostedD(13) [OF k4(3), of m] by (simp add: j)
  have w: "is_mutex k' m" "t \<in> set (lists k' (Wait m))" using pi_butD(5) [OF pi, of t m] t4(2) by (simp_all add: t')
  from owner_outranks [OF pi w(1) o' w(2)] show ?thesis using r pi o' w t4 k'(7) by (simp add: t')
qed


lemma mutex_take_free:
  assumes it: "in_thread k t" and i: "pi_inv k" and m: "is_mutex k m" and o: "owner (mutexes k m) = None"
  shows "\<exists>k'. mutex_take m timeout sf k = Some (k', Ret RT_EOK) \<and> pi_inv k' \<and> owner (mutexes k' m) = Some t \<and> mutex_hold (mutexes k' m) = 1"
proof -
  let ?k = "upd_thread t (\<lambda>th. th\<lparr>error := RT_EOK\<rparr>) k"
  let ?k' = "taken_insert t m (upd_mutex m (\<lambda>mx. mx\<lparr>owner := Some t, mutex_priority := 0xff, mutex_hold := 1\<rparr>) ?k)"
  have c: "current k = Some t" "started (threads ?k t)" using it by (simp_all add: in_thread_def started_def)
  have m': "is_mutex ?k m" using m by (simp add: rt_object_get_type_def)
  have "ceiling_priority (mutexes k m) = 0xff" using mutex_okD(2) [OF pi_butD(6) [OF i m]] .
  then have "mutex_take m timeout sf k = Some (?k', Ret RT_EOK)" using it m o c(1) by (simp add: mutex_take_def Let_def)
  moreover have "pi_inv ?k'" by (rule pi_acquire [OF pi_error [OF i] m' _ c(2)]) (simp add: o)
  ultimately show ?thesis by simp
qed

lemma mutex_take_again:
  assumes it: "in_thread k t" and i: "pi_inv k" and m: "is_mutex k m" and o: "owner (mutexes k m) = Some t"
  shows "\<exists>k'. mutex_take m timeout sf k = Some (k', Ret (if mutex_hold (mutexes k m) < 0xff then RT_EOK else RT_EFULL)) \<and> pi_inv k' \<and>
    owner (mutexes k' m) = Some t \<and> mutex_hold (mutexes k' m) = min 0xff (mutex_hold (mutexes k m) + 1)"
proof -
  let ?k = "upd_thread t (\<lambda>th. th\<lparr>error := RT_EOK\<rparr>) k"
  have c: "current k = Some t" using it by (simp add: in_thread_def)
  have m': "is_mutex ?k m" using m by (simp add: rt_object_get_type_def)
  have h: "0 < mutex_hold (mutexes k m)" "mutex_hold (mutexes k m) \<le> 0xff" using mutex_okD(6) [OF pi_butD(6) [OF i m] o] by simp_all
  show ?thesis
  proof (cases "mutex_hold (mutexes k m) < 0xff")
    case True
    let ?k' = "upd_mutex m (\<lambda>mx. mx\<lparr>mutex_hold := mutex_hold (mutexes k m) + 1\<rparr>) ?k"
    have "mutex_take m timeout sf k = Some (?k', Ret RT_EOK)" using it m o c True by (simp add: mutex_take_def Let_def upd_mutex_def)
    moreover have "pi_inv ?k'" by (rule pi_hold [OF pi_error [OF i] m']) (use True in simp_all)
    ultimately show ?thesis using True o by simp
  next
    case False
    then have "mutex_take m timeout sf k = Some (?k, Ret RT_EFULL)" using it m o c by (simp add: mutex_take_def Let_def)
    then show ?thesis using False o pi_error [OF i] h by simp
  qed
qed

lemma mutex_try_busy:
  assumes it: "in_thread k t" and i: "pi_inv k" and m: "is_mutex k m" and o: "owner (mutexes k m) = Some own" "own \<noteq> t"
  shows "\<exists>k'. mutex_take m 0 sf k = Some (k', Ret RT_ETIMEOUT) \<and> pi_inv k' \<and> mutexes k' = mutexes k"
proof -
  let ?k = "upd_thread t (\<lambda>th. th\<lparr>error := RT_EOK\<rparr>) k"
  have c: "current k = Some t" using it by (simp add: in_thread_def)
  have "mutex_take m 0 sf k = Some (upd_thread t (\<lambda>th. th\<lparr>error := RT_ETIMEOUT\<rparr>) ?k, Ret RT_ETIMEOUT)"
    using it m o c by (simp add: mutex_take_def Let_def)
  moreover have "pi_inv (upd_thread t (\<lambda>th. th\<lparr>error := RT_ETIMEOUT\<rparr>) ?k)" by (intro pi_error i)
  ultimately show ?thesis by simp
qed


subsection \<open>Releasing\<close>

lemma taken_remove_simps [simp]:
  "threads (taken_remove m k) = threads k" "lists (taken_remove m k) = lists k" "objects (taken_remove m k) = objects k"
  "current (taken_remove m k) = current k" "mutexes (taken_remove m k) = mutexes k" "taken (taken_remove m k) u = removeAll m (taken k u)"
  "sched_but S (taken_remove m k) = sched_but S k" "rt_object_get_type x (taken_remove m k) = rt_object_get_type x k"
  "registered (taken_remove m k) u = registered k u" "timers (taken_remove m k) = timers k"
  by (simp_all add: taken_remove_def rt_object_get_type_def registered_def cong: sched_but_cong)

lemma new_owner_priority:
  assumes "thread_get_mutex_priority u k = prio k u" "init_priority (threads k' u) = init_priority (threads k u)" "init_priority (threads k u) < 32"
    and tk: "set (taken k' u) = insert m (set (taken k u))" and mx: "\<And>x. x \<in> set (taken k u) \<Longrightarrow> mutexes k' x = mutexes k x"
    and f: "prio k u \<le> mutex_priority (mutexes k' m)" "ceiling_priority (mutexes k' m) = 0xff"
  shows "thread_get_mutex_priority u k' = prio k u"
proof (rule mutex_priority_eqI)
  show "p \<le> prio k u \<longleftrightarrow> p \<le> init_priority (threads k' u) \<and>
      (\<forall>m\<in>set (taken k' u). p \<le> mutex_priority (mutexes k' m) \<and> p \<le> ceiling_priority (mutexes k' m))" for p
    using le_mutex_priority [of p u k] assms(1-3) mx f unfolding tk by auto
qed

text \<open>The mutex after it has passed on.\<close>

lemma mutex_ok_pass:
  assumes ok: "mutex_ok k m" and rest: "rest = tl (lists k (Wait m))" "lists k' (Wait m) = rest" "w = None \<Longrightarrow> rest = []"
    and pr: "\<And>u. u \<in> set (lists k (Wait m)) \<Longrightarrow> prio k' u = prio k u"
    and mx: "mutexes k' m = (mutexes k m)\<lparr>mutex_hold := h, owner := w, mutex_priority := front_priority (prio k') rest\<rparr>"
    and w: "w \<noteq> None \<Longrightarrow> h = 1" "\<And>n. w = Some n \<Longrightarrow> started (threads k' n)"
  shows "mutex_ok k' m"
proof -
  have rs: "set rest \<subseteq> set (lists k (Wait m))" using rest(1) set_tl by simp
  have "sorted_wrt (\<lambda>a b. prio k a \<le> prio k b) rest" using mutex_okD(3) [OF ok] rest(1) by (cases "lists k (Wait m)") auto
  then have "sorted_wrt (\<lambda>a b. prio k' a \<le> prio k' b) rest"
    by (rule sorted_wrt_mono_rel [rotated]) (use pr rs in \<open>auto simp: subset_iff\<close>)
  then show ?thesis using mutex_okD(1,2) [OF ok] rest(2,3) w by (auto simp: mutex_ok_def mx split: option.splits)
qed

text \<open>The mutex \<open>m\<close> goes from thread \<open>t\<close> to the first waiting thread, if there is one.\<close>

lemma pi_pass_on:
  assumes i: "pi_inv k" and m: "is_mutex k m" and own: "owner (mutexes k m) = Some t" and run: "stat (threads k t) = TH_RUNNING"
    and l: "lists k (Wait m) = (case w of None \<Rightarrow> [] | Some n \<Rightarrow> n # rest)" "lists k' (Wait m) = rest" "w = None \<Longrightarrow> rest = []"
      "\<And>m'. m' \<noteq> m \<Longrightarrow> lists k' (Wait m') = lists k (Wait m')"
    and s: "sched_inv k'" and ob: "objects k' = objects k" and f: "finite {u. suspended (threads k' u)}"
    and tk: "\<And>u. taken k' u = (if w = Some u then m # removeAll m (taken k u) else removeAll m (taken k u))"
    and mx: "mutexes k' = (mutexes k)(m := (mutexes k m)\<lparr>mutex_hold := h, owner := w, mutex_priority := front_priority (prio k') rest\<rparr>)"
    and h: "w \<noteq> None \<Longrightarrow> h = 1"
    and th: "\<And>u. init_priority (threads k' u) = init_priority (threads k u) \<and> started (threads k' u) = started (threads k u) \<and>
      prio k' u = (if u = t then thread_get_mutex_priority t (taken_remove m k) else prio k u) \<and>
      pending_object (threads k' u) = (if w = Some u then None else pending_object (threads k u))"
  shows "pi_inv k'"
proof (rule pi_butI)
  have ty: "rt_object_get_type x k' = rt_object_get_type x k" for x by (simp add: rt_object_get_type_def ob)
  note np = running_not_pending [OF i run]
  note ok = mutex_okD [OF pi_butD(6) [OF i m]]
  have tm: "m \<in> set (taken k u) \<longleftrightarrow> u = t" for u using pi_butD(4) [OF i, of m u] m own by auto
  have wt: "w \<noteq> Some t" using np(2) [of "Wait m"] l(1) by auto
  have dw: "n \<notin> set rest" if "w = Some n" for n using sched_butD(2) [OF pi_butD(1) [OF i], of "Wait m"] l(1) that by simp
  have nw: "n \<notin> set (lists k (Wait m'))" if "w = Some n" "m' \<noteq> m" for n m'
    using sched_butD(4) [OF pi_butD(1) [OF i], of n "Wait m" "Wait m'"] l(1) that by auto
  have pr: "prio k' u = prio k u" if "u \<in> set (lists k (Wait m'))" for u m' using th [of u] np(2) [of "Wait m'"] that by auto
  have st: "started (threads k' u) = started (threads k u)" for u using th [of u] by blast
  have rest: "rest = tl (lists k (Wait m))" using l(1,3) by (cases w) auto
  show "registered k' u" if "started (threads k' u)" for u using pi_butD(3) [OF i, of u] that th [of u] registered_cong [OF ob] by simp
  show "m' \<in> set (taken k' u) \<longleftrightarrow> is_mutex k' m' \<and> owner (mutexes k' m') = Some u" for u m'
    using pi_butD(4) [OF i, of m' u] m by (auto simp: ty tk mx)
  show "pending_object (threads k' u) = Some m' \<longleftrightarrow> is_mutex k' m' \<and> u \<in> set (lists k' (Wait m'))" for u m'
    using pi_butD(5) [OF i, of u m'] th [of u] l nw [of u m'] dw [of u] m by (cases "m' = m"; cases w) (auto simp: ty)
  show "mutex_ok k' m'" if m': "is_mutex k' m'" for m'
  proof (cases "m' = m")
    case True
    have "started (threads k' n)" if "w = Some n" for n
      using sched_butD(3) [OF pi_butD(1) [OF i], of n "Wait m"] l(1) that suspended_started by (simp add: st)
    moreover have "mutexes k' m = (mutexes k m)\<lparr>mutex_hold := h, owner := w, mutex_priority := front_priority (prio k') rest\<rparr>" by (simp add: mx)
    ultimately show ?thesis unfolding True using mutex_ok_pass [OF pi_butD(6) [OF i m] rest l(2,3)] pr [of _ m] h by blast
  next
    case False
    then show ?thesis using pi_butD(6) [OF i, of m'] m' l(4) [OF False] st
      by - (rule mutex_ok_cong [of k]; simp add: ty mx pr)
  qed
  show "thread_get_mutex_priority u k' = prio k' u" for u
  proof (cases "w = Some u")
    case False
    have "thread_get_mutex_priority u k' = thread_get_mutex_priority u (taken_remove m k)"
      by (rule mutex_priority_cong) (use th [of u] False in \<open>auto simp: tk mx\<close>)
    moreover have "thread_get_mutex_priority u (taken_remove m k) = thread_get_mutex_priority u k" if "u \<noteq> t"
      by (rule mutex_priority_cong) (use that tm [of u] in auto)
    ultimately show ?thesis using th [of u] pi_butD(7) [OF i, of u] by auto
  next
    case True
    have ut: "u \<noteq> t" and ul: "lists k (Wait m) = u # rest" using wt True l(1) by auto
    have "thread_get_mutex_priority u k' = prio k u"
    proof (rule new_owner_priority [where k = k and m = m])
      have "prio k u < 32" using sched_butD(5) [OF pi_butD(1) [OF i], of u] by (simp add: thread_ok_def)
      then show "prio k u \<le> mutex_priority (mutexes k' m)" using ok(3) pr [of _ m] ul by (cases rest) (auto simp: front_priority_def mx)
      show "mutexes k' x = mutexes k x" if "x \<in> set (taken k u)" for x using that tm [of u] ut mx by auto
      show "set (taken k' u) = insert m (set (taken k u))" using True tm [of u] ut by (simp add: tk)
    qed (use th [of u] pi_butD(7,8) [OF i, of u] ok(2) in \<open>simp_all add: mx\<close>)
    then show ?thesis using th [of u] True wt by auto
  qed
  show "init_priority (threads k' u) < 32" for u using pi_butD(8) [OF i, of u] th [of u] by simp
qed (rule s, rule f)


lemma mutex_restore_spec:
  assumes i: "pi_inv k" and m: "is_mutex k m" and own: "owner (mutexes k m) = Some t"
  defines "k1 \<equiv> taken_remove m (upd_mutex m (\<lambda>mx. mx\<lparr>mutex_hold := 0\<rparr>) k)"
  obtains k2 b n where "mutex_restore m t k1 = Some (k2, b)" "sched_inv k2" "only_sched k1 k2" "current k2 = current k"
    "threads k2 = (threads k)(t := (threads k t)\<lparr>current_priority := thread_get_mutex_priority t (taken_remove m k), number_mask := n\<rparr>)"
    "\<And>q. \<not> is_ready q \<Longrightarrow> lists k2 q = lists k q"
proof -
  note ok = mutex_okD [OF pi_butD(6) [OF i m]]
  let ?p = "thread_get_mutex_priority t (taken_remove m k)"
  have g: "thread_get_mutex_priority t k1 = ?p" unfolding k1_def by (rule mutex_priority_cong) auto
  have st: "started (threads k t)" using ok(6) [OF own] by blast
  have s1: "sched_inv k1" "registered k1 t" using pi_butD(1) [OF i] pi_butD(3) [OF i, of t] st by (simp_all add: k1_def)
  have "?p \<le> init_priority (threads k t)" using le_mutex_priority [of ?p t "taken_remove m k"] by simp
  then have p32: "?p < 32" using pi_butD(8) [OF i, of t] by simp
  show thesis
  proof (cases "prio k t = mutex_priority (mutexes k m)")
    case True
    obtain k2 where k2: "change_priority t ?p k1 = Some k2" "sched_inv k2" "only_sched k1 k2" "current k2 = current k1"
      "threads k2 = (threads k1)(t := (threads k1 t)\<lparr>current_priority := ?p, number_mask := push_bit ?p 1\<rparr>)"
      "\<And>q. \<not> is_ready q \<Longrightarrow> lists k2 q = lists k1 q"
      by (rule change_priority_spec [OF s1(1) p32 s1(2)]) (rule that)
    have "mutex_restore m t k1 = Some (k2, True)" using True k2(1) g by (simp add: mutex_restore_def) (simp add: k1_def)
    then show thesis using that k2(2-6) by (simp add: k1_def)
  next
    case False
    have "mutex_restore m t k1 = Some (k1, False)" using False ok(2) by (simp add: mutex_restore_def k1_def)
    moreover have "prio k t = ?p"
    proof -
      have "m \<in> set (taken k t)" using pi_butD(4) [OF i, of m t] m own by simp
      then have mt: "set (taken k t) = insert m (set (removeAll m (taken k t)))" by auto
      have "p \<le> prio k t \<longleftrightarrow> p \<le> ?p \<and> p \<le> mutex_priority (mutexes k m)" for p
        using ok(2) pi_butD(8) [OF i, of t] unfolding pi_butD(7) [OF i, of t, simplified, symmetric] le_mutex_priority mt by auto
      then show ?thesis using False by (metis linorder_le_cases order_antisym order_refl)
    qed
    ultimately show thesis using that [of k1 False "number_mask (threads k t)"] s1(1) by (simp add: k1_def fun_upd_idem)
  qed
qed


text \<open>The last release when no thread waits, and when one does.\<close>

lemma mutex_hand_over_none:
  assumes i: "pi_inv k" and m: "is_mutex k m" and own: "owner (mutexes k m) = Some t" and run: "stat (threads k t) = TH_RUNNING"
    and e: "lists k (Wait m) = []" and k2: "sched_inv k2" "only_sched (taken_remove m (upd_mutex m (\<lambda>mx. mx\<lparr>mutex_hold := 0\<rparr>) k)) k2"
    "threads k2 = (threads k)(t := (threads k t)\<lparr>current_priority := thread_get_mutex_priority t (taken_remove m k), number_mask := n\<rparr>)"
    "\<And>q. \<not> is_ready q \<Longrightarrow> lists k2 q = lists k q"
  shows "\<exists>k3. mutex_hand_over m k2 = Some (k3, False) \<and> pi_inv k3 \<and> owner (mutexes k3 m) = None \<and> current k3 = current k2"
proof -
  let ?k1 = "taken_remove m (upd_mutex m (\<lambda>mx. mx\<lparr>mutex_hold := 0\<rparr>) k)"
  let ?k = "upd_mutex m (\<lambda>mx. mx\<lparr>owner := None, mutex_priority := 0xff\<rparr>) k2"
  have f: "objects k2 = objects k" "taken k2 = taken ?k1" "mutexes k2 = mutexes ?k1"
    using only_coreD(1,8,10) [OF only_sched_core [OF k2(2)]] by simp_all
  have "pi_inv ?k"
  proof (rule pi_pass_on [OF i m own run, where w = None and rest = "[]" and h = 0])
    show "finite {u. suspended (threads ?k u)}"
      by (rule finite_subset [OF _ pi_butD(2) [OF i]]) (auto simp: k2(3) split: if_splits)
    show "mutexes ?k = (mutexes k)(m := (mutexes k m)\<lparr>mutex_hold := 0, owner := None, mutex_priority := front_priority (prio ?k) []\<rparr>)"
      by (simp add: f front_priority_def)
  qed (use e k2 f in \<open>simp_all add: started_def\<close>)
  moreover have "mutex_hand_over m k2 = Some (?k, False)" by (simp add: mutex_hand_over_def k2(4) e)
  ultimately show ?thesis by simp
qed

lemma mutex_hand_over_some:
  assumes i: "pi_inv k" and m: "is_mutex k m" and own: "owner (mutexes k m) = Some t" and run: "stat (threads k t) = TH_RUNNING"
    and l: "lists k (Wait m) = w # rest" and k2: "sched_inv k2" "only_sched (taken_remove m (upd_mutex m (\<lambda>mx. mx\<lparr>mutex_hold := 0\<rparr>) k)) k2"
    "threads k2 = (threads k)(t := (threads k t)\<lparr>current_priority := thread_get_mutex_priority t (taken_remove m k), number_mask := n\<rparr>)"
    "\<And>q. \<not> is_ready q \<Longrightarrow> lists k2 q = lists k q"
  shows "\<exists>k3. mutex_hand_over m k2 = Some (k3, True) \<and> pi_inv k3 \<and> owner (mutexes k3 m) = Some w \<and> mutex_hold (mutexes k3 m) = 1 \<and>
    runnable (threads k3 w) \<and> lists k3 (Wait m) = rest \<and> current k3 = current k2"
proof -
  let ?k1 = "taken_remove m (upd_mutex m (\<lambda>mx. mx\<lparr>mutex_hold := 0\<rparr>) k)"
  let ?k = "upd_thread w (\<lambda>th. th\<lparr>pending_object := None\<rparr>) (taken_insert w m (upd_mutex m (\<lambda>mx. mx\<lparr>owner := Some w, mutex_hold := 1\<rparr>) (tlist_remove w k2)))"
  have f: "objects k2 = objects k" "taken k2 = taken ?k1" "mutexes k2 = mutexes ?k1"
    using only_coreD(1,8,10) [OF only_sched_core [OF k2(2)]] by simp_all
  have wt: "w \<noteq> t" using running_not_pending(2) [OF i run, of "Wait m"] l by auto
  have sw: "suspended (threads k w)" using sched_butD(3) [OF pi_butD(1) [OF i], of w "Wait m"] l by simp
  have sw2: "suspended (threads k2 w)" using sw wt by (simp add: k2(3))
  have "sched_inv (tlist_remove w k2)" using sched_tlist_remove [OF k2(1)] suspended_started [OF sw2] by auto
  then have s: "sched_inv ?k" by simp
  have tr: "threads (tlist_remove w k2) = threads k2" "objects (tlist_remove w k2) = objects k2" "taken (tlist_remove w k2) = taken k2"
    "mutexes (tlist_remove w k2) = mutexes k2" "lists (tlist_remove w k2) q = removeAll w (lists k2 q)" for q
    by (simp_all add: tlist_remove_def)
  have g: "registered ?k w" using pi_butD(3) [OF i, of w] suspended_started [OF sw] registered_cong [of ?k k] by (simp add: f tr)
  obtain k3 where k3: "rt_thread_resume w ?k = Some (k3, RT_EOK)" "sched_inv k3" "only_core ?k k3" "current k3 = current ?k"
    "threads k3 = (threads ?k)(w := (threads ?k w)\<lparr>stat := (if current ?k = Some w then TH_RUNNING else TH_READY)\<rparr>)"
    "\<And>q. \<not> is_ready q \<Longrightarrow> lists k3 q = removeAll w (lists ?k q)"
    by (rule resume_spec [OF s _ g]) (use sw2 in \<open>simp add: tr\<close>, rule that)
  let ?k' = "mutex_update_priority m k3"
  have mx: "mutexes k3 = (mutexes k)(m := (mutexes k m)\<lparr>mutex_hold := 1, owner := Some w\<rparr>)" "objects k3 = objects k" "taken k3 = taken ?k"
    using only_coreD(1,8,10) [OF k3(3)] by (simp_all add: f tr) (cases "mutexes k m"; simp)
  have dw: "w \<notin> set rest" using sched_butD(2) [OF pi_butD(1) [OF i], of "Wait m"] l by simp
  have l3: "lists k3 (Wait m) = rest" using k3(6) [of "Wait m"] l dw by (simp add: tr k2(4))
  have f': "threads ?k' = threads k3" "lists ?k' = lists k3" "objects ?k' = objects k" "taken ?k' = taken ?k" "current ?k' = current k3"
    "mutexes ?k' = (mutexes k)(m := (mutexes k m)\<lparr>mutex_hold := 1, owner := Some w, mutex_priority := front_priority (prio k3) rest\<rparr>)"
    using mx l3 by (simp_all add: mutex_update_priority_def front_priority_def)
  have "pi_inv ?k'"
  proof (rule pi_pass_on [OF i m own run, where w = "Some w" and rest = rest and h = 1])
    show "sched_inv ?k'" using k3(2) by (simp add: mutex_update_priority_def)
    show "finite {u. suspended (threads ?k' u)}"
      by (rule finite_subset [OF _ pi_butD(2) [OF i]]) (auto simp: f' k3(5) tr k2(3) split: if_splits)
    show "lists ?k' (Wait m') = lists k (Wait m')" if "m' \<noteq> m" for m'
    proof -
      have "w \<notin> set (lists k (Wait m'))" using sched_butD(4) [OF pi_butD(1) [OF i], of w "Wait m" "Wait m'"] l that by auto
      then show ?thesis by (simp add: f' k3(6) tr k2(4))
    qed
    show "taken ?k' u = (if Some w = Some u then m # removeAll m (taken k u) else removeAll m (taken k u))" for u
      by (simp add: f' tr f)
    show "init_priority (threads ?k' u) = init_priority (threads k u) \<and> started (threads ?k' u) = started (threads k u) \<and>
      prio ?k' u = (if u = t then thread_get_mutex_priority t (taken_remove m k) else prio k u) \<and>
      pending_object (threads ?k' u) = (if Some w = Some u then None else pending_object (threads k u))" for u
      using wt suspended_started [OF sw] by (simp add: f' k3(5) tr k2(3) started_def)
  qed (use l l3 in \<open>simp_all add: f'\<close>)
  moreover have "mutex_hand_over m k2 = Some (?k', True)"
    using k3(1) by (simp add: mutex_hand_over_def k2(4) l Let_def)
  ultimately show ?thesis using l3 k3(4) by (simp add: f' runnable_def k3(5) tlist_remove_def)
qed


subsection \<open>Steps that concern no mutex\<close>

lemma pi_schedule: "pi_inv k \<Longrightarrow> rt_schedule k = Some k' \<Longrightarrow> pi_inv k'"
  by (rule pi_reschedule [of k])
    (auto intro: sched_schedule [OF pi_butD(1)] only_core_schedule rt_schedule_threads [OF pi_butD(1)]
      rt_schedule_lists [OF pi_butD(1)] dest: not_is_ready)

lemma pi_upd:
  assumes "pi_inv k" "\<And>th. stat (f th) = stat th \<and> current_priority (f th) = current_priority th \<and> number_mask (f th) = number_mask th \<and>
    init_priority (f th) = init_priority th \<and> pending_object (f th) = pending_object th"
  shows "pi_inv (upd_thread t f k)"
  by (rule pi_cong [OF assms(1)])
    (use assms pi_butD(1,2) [OF assms(1)] in \<open>auto simp: sched_upd_same started_def intro!: finite_subset [OF _ pi_butD(2) [OF assms(1)]]\<close>)

lemma pi_yield:
  assumes i: "pi_inv k" and r: "rt_thread_yield k = Some k'"
  shows "pi_inv k'"
proof -
  obtain t where t: "rt_schedule (upd_thread t (\<lambda>th. th\<lparr>remaining_tick := slice_tick th, yield := True\<rparr>) k) = Some k'"
    using r by (auto simp: rt_thread_yield_def split: option.splits)
  show ?thesis by (rule pi_schedule [OF pi_upd [OF i] t]) simp
qed

lemma pi_timeout:
  assumes i: "pi_inv k" and p: "pending_object (threads k t) = None" and r: "thread_timeout t k = Some k'"
  shows "pi_inv k'"
proof -
  let ?k = "upd_thread t (\<lambda>th. th\<lparr>error := RT_ETIMEOUT\<rparr>) k"
  let ?k1 = "rt_schedule_insert_thread t (tlist_remove t ?k)"
  have s: "suspended (threads ?k t)" and k': "rt_schedule ?k1 = Some k'"
    using r by (auto simp: thread_timeout_def Let_def split: if_splits)
  have i': "pi_inv ?k" by (rule pi_error [OF i])
  have o: "only_core ?k ?k1" by (rule only_core_steps(8) [OF only_core_steps(7) [OF only_core_refl]])
  have th: "threads ?k1 = (threads ?k)(t := (threads ?k t)\<lparr>stat := (if current k = Some t then TH_RUNNING else TH_READY)\<rparr>)"
    by (simp add: threads_insert_thread tlist_remove_def)
  have "pi_inv ?k1"
  proof (rule pi_cong [OF i' _ only_coreD(1,8,10) [OF o]])
    show "sched_inv ?k1" by (rule sched_wake [OF pi_butD(1) [OF i'] s refl]) simp_all
    show "prio ?k1 u = prio ?k u \<and> init_priority (threads ?k1 u) = init_priority (threads ?k u) \<and>
      pending_object (threads ?k1 u) = pending_object (threads ?k u) \<and> started (threads ?k1 u) = started (threads ?k u)" for u
      using suspended_started [OF s] by (auto simp: th started_def)
    show "finite {u. suspended (threads ?k1 u)}"
      by (rule finite_subset [OF _ pi_butD(2) [OF i]]) (auto simp: th split: if_splits)
    show "lists ?k1 (Wait m) = lists ?k (Wait m)" if "is_mutex ?k m" for m
      using pi_butD(5) [OF i', of t m] that p by (simp add: rt_schedule_insert_thread_def kstate Let_def)
  qed
  from pi_schedule [OF this k'] show ?thesis .
qed

lemma suspend_soft:
  "rt_thread_suspend_with_flag t fl k = Some (k', e) \<Longrightarrow> soft (timers k' tm) = soft (timers k tm)"
  by (auto simp: rt_thread_suspend_with_flag_def rt_timer_stop_def Let_def bind_eq_Some_conv
      only_schedD(6) [OF only_sched_intros(7)] deactivate_def upd_timer_def timer_remove_def split: if_splits)

lemma pi_sleep:
  assumes i: "pi_inv k" and it: "in_thread k t" and n: "n < RT_TICK_MAX2" and r: "rt_thread_sleep n k = Some (k', x)"
  shows "pi_inv k'"
proof (cases "n = 0")
  case True
  then show ?thesis using r i by (simp add: rt_thread_sleep_def)
next
  case False
  let ?k = "upd_thread t (\<lambda>th. th\<lparr>error := RT_EOK\<rparr>) k"
  have t: "current k = Some t" "stat (threads ?k t) = TH_RUNNING" and g: "registered k t" "\<not> soft (timers k (ThreadTimer t))"
    using it by (simp_all add: in_thread_def)
  have i': "pi_inv ?k" by (rule pi_error [OF i])
  obtain k1 e where s: "rt_thread_suspend_with_flag t RT_INTERRUPTIBLE ?k = Some (k1, e)"
    and c: "if e = RT_EOK then \<exists>k2. start_thread_timer t n k1 = Some k2 \<and>
        rt_schedule (upd_thread t (\<lambda>th. th\<lparr>error := RT_EINTR\<rparr>) k2) = Some k' else k' = k1"
    using r False t by (auto simp: rt_thread_sleep_def bind_eq_Some_conv Let_def split: option.splits if_splits)
  show ?thesis
  proof (cases "e = RT_EOK")
    case True
    have o: "only_core ?k k1" by (rule only_core_suspend [OF s])
    have th: "threads k1 u = (if u = t then (threads ?k t)\<lparr>stat := TH_SUSPEND RT_INTERRUPTIBLE\<rparr> else threads ?k u)" for u
      using suspend_threads(1,2) [OF s] True by simp
    have "registered k1 t" "\<not> soft (timers k1 (ThreadTimer t))"
      using g suspend_soft [OF s] only_coreD(1) [OF o] registered_cong [of k1 k] by simp_all
    then obtain k2 where k2: "start_thread_timer t n k1 = Some k2" "threads k2 = threads k1" "lists k2 = lists k1"
      "current k2 = current k1" "ready_group k2 = ready_group k1" "only_core k1 k2"
      "\<And>S. sched_but S k2 = sched_but S k1"
      "ThreadTimer t \<in> set (timer_list k2)" "remaining k2 (ThreadTimer t) = n" "activated (timers k2 (ThreadTimer t))"
      by (rule start_timer_spec [OF _ n]) (rule that)
    have "pi_inv k2"
    proof (rule pi_cong [OF i' _ only_coreD(1,8,10) [OF only_core_trans [OF o k2(6)]]])
      show "sched_inv k2" using sched_suspend(1) [OF pi_butD(1) [OF i'] s] k2(7) by simp
      show "prio k2 u = prio ?k u \<and> init_priority (threads k2 u) = init_priority (threads ?k u) \<and>
        pending_object (threads k2 u) = pending_object (threads ?k u) \<and> started (threads k2 u) = started (threads ?k u)" for u
        using t(2) by (simp add: k2(2) th started_def)
      show "finite {u. suspended (threads k2 u)}"
        by (rule finite_subset [of _ "insert t {u. suspended (threads ?k u)}"])
          (use pi_butD(2) [OF i'] in \<open>auto simp: k2(2) th split: if_splits\<close>)
      show "lists k2 (Wait m) = lists ?k (Wait m)" for m
        using suspend_threads(3) [OF s True] running_not_pending(2) [OF i' t(2), of "Wait m"] by (simp add: k2(3))
    qed
    then show ?thesis using pi_schedule [OF pi_error] c True k2(1) by auto
  next
    case False
    then show ?thesis using c suspend_threads(4) [OF s] i' by simp
  qed
qed


subsection \<open>Properties\<close>

lemma mutex_release_last:
  assumes it: "in_thread k t" and i: "pi_inv k" and m: "is_mutex k m" and own: "owner (mutexes k m) = Some t" and h: "mutex_hold (mutexes k m) = 1"
  shows "\<exists>k'. rt_mutex_release m k = Some (k', RT_EOK) \<and> pi_inv k' \<and>
    (case lists k (Wait m) of [] \<Rightarrow> owner (mutexes k' m) = None
     | w # rest \<Rightarrow> owner (mutexes k' m) = Some w \<and> mutex_hold (mutexes k' m) = 1 \<and> runnable (threads k' w) \<and> lists k' (Wait m) = rest)"
proof -
  let ?k1 = "upd_mutex m (\<lambda>mx. mx\<lparr>mutex_hold := 0\<rparr>) k"
  have c: "current k = Some t" and run: "stat (threads k t) = TH_RUNNING" and ctx: "in_thread_context k = Some ()"
    using it by (simp_all add: in_thread_def in_thread_context_def not_in_interrupt_def)
  obtain k2 b n where k2: "mutex_restore m t (taken_remove m ?k1) = Some (k2, b)" "sched_inv k2" "only_sched (taken_remove m ?k1) k2" "current k2 = current k"
    "threads k2 = (threads k)(t := (threads k t)\<lparr>current_priority := thread_get_mutex_priority t (taken_remove m k), number_mask := n\<rparr>)"
    "\<And>q. \<not> is_ready q \<Longrightarrow> lists k2 q = lists k q"
    by (rule mutex_restore_spec [OF i m own]) (rule that)
  have u: "upd_mutex m (\<lambda>mx. mx\<lparr>mutex_hold := (mutex_hold mx + 0xff) mod 0x100\<rparr>) k = ?k1" by (simp add: upd_mutex_def h)
  have r: "rt_mutex_release m k = Some (k', RT_EOK)"
    if "mutex_hand_over m k2 = Some (k3, b')" "(if b \<or> b' then rt_schedule k3 else Some k3) = Some k'" for k3 b' k'
    using that k2(1) own m c ctx by (simp add: rt_mutex_release_def u)
  show ?thesis
  proof (cases "lists k (Wait m)")
    case Nil
    obtain k3 where k3: "mutex_hand_over m k2 = Some (k3, False)" "pi_inv k3" "owner (mutexes k3 m) = None" "current k3 = current k2"
      using mutex_hand_over_none [OF i m own run Nil k2(2,3,5,6)] by blast
    obtain k' where k': "(if b \<or> False then rt_schedule k3 else Some k3) = Some k'"
      using rt_schedule_total [of k3] k3(4) k2(4) c by (cases b) auto
    then have "pi_inv k'" "owner (mutexes k' m) = None"
      using pi_schedule [OF k3(2)] k3(2,3) only_coreD(10) [OF only_core_schedule] by (auto split: if_splits)
    then show ?thesis using r [OF k3(1) k'] Nil by simp
  next
    case (Cons w rest)
    obtain k3 where k3: "mutex_hand_over m k2 = Some (k3, True)" "pi_inv k3" "owner (mutexes k3 m) = Some w" "mutex_hold (mutexes k3 m) = 1"
      "runnable (threads k3 w)" "lists k3 (Wait m) = rest" "current k3 = current k2"
      using mutex_hand_over_some [OF i m own run Cons k2(2,3,5,6)] by blast
    obtain k' where k': "rt_schedule k3 = Some k'" using rt_schedule_total [of k3] k3(7) k2(4) c by auto
    have "mutexes k' = mutexes k3" "lists k' (Wait m) = rest" "runnable (threads k' w)" "pi_inv k'"
      using only_coreD(10) [OF only_core_schedule [OF k']] rt_schedule_lists [OF pi_butD(1) [OF k3(2)] k'] k3(5,6)
        rescheduledD(2) [OF rt_schedule_threads [OF pi_butD(1) [OF k3(2)] k']] pi_schedule [OF k3(2) k'] by auto
    then show ?thesis using r [OF k3(1)] k' Cons k3(3,4) by simp
  qed
qed

text \<open>
  C16: \<open>rt_mutex_take\<close> in a thread, in any kernel that meets the invariant of priority inheritance.  The call
  always ends, also when passing a priority on meets threads that wait for each other in a circle, and
  keeps the invariant.  A free mutex is acquired; the owner may take it again up to 255 times, then the
  call fails; a call that must not wait fails with a timeout; otherwise the caller is suspended on the
  mutex with its timer set and the owner runs at least at the caller's priority.
\<close>
theorem mutex_take_spec:
  assumes it: "in_thread k t" and i: "pi_inv k" and m: "is_mutex k m" and wt: "wait_time timeout"
  shows "\<exists>k' r. mutex_take m timeout sf k = Some (k', r) \<and> pi_inv k' \<and>
    (case owner (mutexes k m) of
       None \<Rightarrow> r = Ret RT_EOK \<and> owner (mutexes k' m) = Some t \<and> mutex_hold (mutexes k' m) = 1
     | Some own \<Rightarrow>
         if own = t then r = Ret (if mutex_hold (mutexes k m) < 0xff then RT_EOK else RT_EFULL) \<and>
           owner (mutexes k' m) = Some t \<and> mutex_hold (mutexes k' m) = min 0xff (mutex_hold (mutexes k m) + 1)
         else if timeout = 0 then r = Ret RT_ETIMEOUT \<and> mutexes k' = mutexes k
         else r = Blocked \<and> owner (mutexes k' m) = Some own \<and> stat (threads k' t) = TH_SUSPEND sf \<and> t \<in> set (lists k' (Wait m)) \<and>
           prio k' own \<le> prio k t \<and> (sint timeout > 0 \<longrightarrow> remaining k' (ThreadTimer t) = timeout))"
proof (cases "owner (mutexes k m)")
  case None
  then show ?thesis using mutex_take_free [OF it i m None, of timeout sf] by auto
next
  case (Some own)
  consider "own = t" | "own \<noteq> t" "timeout = 0" | "own \<noteq> t" "timeout \<noteq> 0" by blast
  then show ?thesis
  proof cases
    case 1
    then show ?thesis using mutex_take_again [OF it i m, of timeout sf] Some by auto
  next
    case 2
    then show ?thesis using mutex_try_busy [OF it i m Some, of sf] Some by auto
  next
    case 3
    obtain k' where "mutex_take m timeout sf k = Some (k', Blocked)" "pi_inv k'" "owner (mutexes k' m) = Some own"
      "stat (threads k' t) = TH_SUSPEND sf" "t \<in> set (lists k' (Wait m))" "prio k' own \<le> prio k t"
      "sint timeout > 0 \<longrightarrow> remaining k' (ThreadTimer t) = timeout"
      using mutex_wait_spec [OF it i m Some 3(1) wt 3(2), of sf] by blast
    then show ?thesis using 3 Some by (intro exI [of _ k'] exI [of _ Blocked]) simp
  qed
qed

text \<open>
  C17: \<open>rt_mutex_release\<close> in a thread.  Only the owner can release, any other caller gets \<open>-RT_ERROR\<close>.  The release
  undoes one take; the last one gives the owner back the priority that the mutexes it still holds ask for
  (part of the invariant) and hands the mutex to the first waiting thread, which no other waiting thread
  outranks, or leaves it free.
\<close>
theorem mutex_release_spec:
  assumes it: "in_thread k t" and i: "pi_inv k" and m: "is_mutex k m"
  shows "\<exists>k' r. rt_mutex_release m k = Some (k', r) \<and> pi_inv k' \<and>
    (if owner (mutexes k m) \<noteq> Some t then r = RT_ERROR \<and> mutexes k' = mutexes k
     else r = RT_EOK \<and> (if mutex_hold (mutexes k m) > 1
       then owner (mutexes k' m) = Some t \<and> mutex_hold (mutexes k' m) = mutex_hold (mutexes k m) - 1
       else case lists k (Wait m) of
         [] \<Rightarrow> owner (mutexes k' m) = None
       | w # rest \<Rightarrow> owner (mutexes k' m) = Some w \<and> mutex_hold (mutexes k' m) = 1 \<and> runnable (threads k' w) \<and>
           lists k' (Wait m) = rest \<and> list_all (\<lambda>u. prio k w \<le> prio k u) rest))"
proof -
  have c: "current k = Some t" and ctx: "in_thread_context k = Some ()"
    using it by (simp_all add: in_thread_def in_thread_context_def not_in_interrupt_def)
  show ?thesis
  proof (cases "owner (mutexes k m) = Some t")
    case False
    then have "rt_mutex_release m k = Some (upd_thread t (\<lambda>th. th\<lparr>error := RT_ERROR\<rparr>) k, RT_ERROR)"
      using c ctx m by (simp add: rt_mutex_release_def)
    then show ?thesis using pi_error [OF i] False by auto
  next
    case own: True
    note ok = mutex_okD [OF pi_butD(6) [OF i m]]
    have h: "0 < mutex_hold (mutexes k m)" "mutex_hold (mutexes k m) \<le> 0xff" using ok(6) [OF own] by simp_all
    show ?thesis
    proof (cases "mutex_hold (mutexes k m) > 1")
      case True
      let ?k = "upd_mutex m (\<lambda>mx. mx\<lparr>mutex_hold := mutex_hold (mutexes k m) - 1\<rparr>) k"
      have "(mutex_hold (mutexes k m) + 0xff) mod 0x100 = mutex_hold (mutexes k m) - 1" using True h by (simp add: mod_if)
      then have "rt_mutex_release m k = Some (?k, RT_EOK)"
        using True own m c ctx by (simp add: rt_mutex_release_def upd_mutex_def)
      moreover have "pi_inv ?k" by (rule pi_hold [OF i m]) (use True h in simp_all)
      ultimately show ?thesis using True own by simp
    next
      case False
      then have "mutex_hold (mutexes k m) = 1" using h by simp
      from mutex_release_last [OF it i m own this] show ?thesis using False own ok(3)
        by (cases "lists k (Wait m)") (auto simp: list_all_iff)
    qed
  qed
qed


text \<open>
  Runs of threads that take and release mutexes, yield, and sleep while they hold them; the timer of a
  sleeping thread, or of one that waits for another kind of object, may expire.
\<close>

inductive mutex_run :: "kernel \<Rightarrow> kernel \<Rightarrow> bool" for k where
  start: "mutex_run k k"
| takes: "mutex_run k k1 \<Longrightarrow> in_thread k1 t \<Longrightarrow> is_mutex k1 m \<Longrightarrow> wait_time n \<Longrightarrow> mutex_take m n sf k1 = Some (k2, r) \<Longrightarrow> mutex_run k k2"
| releases: "mutex_run k k1 \<Longrightarrow> in_thread k1 t \<Longrightarrow> is_mutex k1 m \<Longrightarrow> rt_mutex_release m k1 = Some (k2, e) \<Longrightarrow> mutex_run k k2"
| yields: "mutex_run k k1 \<Longrightarrow> rt_thread_yield k1 = Some k2 \<Longrightarrow> mutex_run k k2"
| sleeps: "mutex_run k k1 \<Longrightarrow> in_thread k1 t \<Longrightarrow> n < RT_TICK_MAX2 \<Longrightarrow> rt_thread_sleep n k1 = Some (k2, x) \<Longrightarrow> mutex_run k k2"
| wakes: "mutex_run k k1 \<Longrightarrow> pending_object (threads k1 t) = None \<Longrightarrow> thread_timeout t k1 = Some k2 \<Longrightarrow> mutex_run k k2"

text \<open>The shape of the wait-for relation: \<open>t\<close> waits for a mutex that \<open>u\<close> holds.\<close>

definition blocked_by :: "kernel \<Rightarrow> tid \<Rightarrow> tid \<Rightarrow> bool" where
  "blocked_by k t u \<longleftrightarrow> (\<exists>m. is_mutex k m \<and> t \<in> set (lists k (Wait m)) \<and> owner (mutexes k m) = Some u)"

lemma chain_outranks:
  assumes "pi_inv k" "(blocked_by k)\<^sup>*\<^sup>* t u"
  shows "prio k u \<le> prio k t"
  using assms(2)
proof (induction rule: rtranclp_induct)
  case (step v w)
  then show ?case using owner_outranks [OF assms(1)] by (fastforce simp: blocked_by_def)
qed simp


lemma pi_take:
  assumes it: "in_thread k t" and i: "pi_inv k" and m: "is_mutex k m" and wt: "wait_time n" and r: "mutex_take m n sf k = Some (k', x)"
  shows "pi_inv k'"
proof (cases "owner (mutexes k m)")
  case None
  from mutex_take_free [OF it i m None, of n sf] show ?thesis using r by auto
next
  case (Some own)
  from mutex_take_again [OF it i m, of n sf] mutex_try_busy [OF it i m Some, of sf] mutex_wait_spec [OF it i m Some _ wt, of sf]
  show ?thesis using r Some by (cases "own = t"; cases "n = 0") auto
qed

lemma pi_release:
  assumes it: "in_thread k t" and i: "pi_inv k" and m: "is_mutex k m" and r: "rt_mutex_release m k = Some (k', e)"
  shows "pi_inv k'"
proof (cases "owner (mutexes k m) = Some t \<and> mutex_hold (mutexes k m) = 1")
  case True
  from mutex_release_last [OF it i m] True show ?thesis using r by auto
next
  case False
  have c: "current k = Some t" using it by (simp add: in_thread_def)
  have h: "0 < mutex_hold (mutexes k m) \<and> mutex_hold (mutexes k m) \<le> 0xff" if "owner (mutexes k m) = Some t"
    using mutex_okD(6) [OF pi_butD(6) [OF i m] that] by simp
  show ?thesis
  proof (cases "owner (mutexes k m) = Some t")
    case own: True
    have n: "(mutex_hold (mutexes k m) + 0xff) mod 0x100 = mutex_hold (mutexes k m) - 1" "mutex_hold (mutexes k m) > 1"
      using False own h by (auto simp: mod_if)
    then have "k' = upd_mutex m (\<lambda>mx. mx\<lparr>mutex_hold := mutex_hold (mutexes k m) - 1\<rparr>) k"
      using r own c by (auto simp: rt_mutex_release_def upd_mutex_def bind_eq_Some_conv split: if_splits)
    then show ?thesis using pi_hold [OF i m, of "mutex_hold (mutexes k m) - 1"] n(2) h own by auto
  next
    case False
    then show ?thesis using r c pi_error [OF i] by (auto simp: rt_mutex_release_def bind_eq_Some_conv split: if_splits)
  qed
qed

text \<open>
  C1: Priority inheritance.  Along every run in which threads take and release mutexes, yield and sleep, no
  thread runs below a thread that waits for it, directly or through a chain of threads that wait for each
  other; the waiting lists, owners and priorities stay consistent.
\<close>
theorem mutex_run_inherits:
  assumes run: "mutex_run k k'" and i: "pi_inv k" and w: "(blocked_by k')\<^sup>*\<^sup>* t u"
  shows "pi_inv k' \<and> prio k' u \<le> prio k' t"
proof -
  from run have "pi_inv k'"
  proof (induction rule: mutex_run.induct)
    case (takes k1 t m n sf k2 r)
    then show ?case using pi_take by blast
  next
    case (releases k1 t m k2 e)
    then show ?case using pi_release by blast
  qed (use i pi_yield pi_sleep pi_timeout in blast)+
  then show ?thesis using chain_outranks [OF _ w] by blast
qed

subsection \<open>A waiting thread that times out\<close>

text \<open>A timeout leaves the mutex as the pending object of the thread.\<close>

lemma timeout_keeps_pending:
  assumes i: "sched_inv k" and r: "thread_timeout t k = Some k'"
  shows "pending_object (threads k' u) = pending_object (threads k u)" "init_priority (threads k' u) = init_priority (threads k u)"
    "error (threads k' t) = RT_ETIMEOUT" "runnable (threads k' t)" "lists k' (Wait m) = removeAll t (lists k (Wait m))"
proof -
  let ?k = "upd_thread t (\<lambda>th. th\<lparr>error := RT_ETIMEOUT\<rparr>) k" let ?k1 = "rt_schedule_insert_thread t (tlist_remove t ?k)"
  have s: "suspended (threads ?k t)" and k': "rt_schedule ?k1 = Some k'"
    using r by (auto simp: thread_timeout_def Let_def split: if_splits)
  have i1: "sched_inv ?k1" by (rule sched_wake [OF _ s refl]) (use i in simp_all)
  have th: "threads ?k1 = (threads ?k)(t := (threads ?k t)\<lparr>stat := (if current k = Some t then TH_RUNNING else TH_READY)\<rparr>)"
    by (simp add: threads_insert_thread tlist_remove_def)
  note d = rescheduledD [OF rt_schedule_threads [OF i1 k']]
  show "pending_object (threads k' u) = pending_object (threads k u)" "init_priority (threads k' u) = init_priority (threads k u)"
    "error (threads k' t) = RT_ETIMEOUT" using d(3,6,7) by (simp_all add: th)
  have "runnable (threads ?k1 t)" by (simp add: th runnable_def)
  then show "runnable (threads k' t)" by (rule d(2))
  show "lists k' (Wait m) = removeAll t (lists k (Wait m))"
    using rt_schedule_lists [OF i1 k', of "Wait m"] by (simp add: rt_schedule_insert_thread_def kstate Let_def)
qed

text \<open>The new owner does not get the ceiling priority of the mutex.\<close>

lemma hand_over_keeps_priority:
  assumes "mutex_hand_over m k = Some (k', b)"
  shows "prio k' u = prio k u"
proof -
  have "prio k2 u = prio k1 u" if "rt_thread_resume t k1 = Some (k2, e)" for t k1 k2 e
    using that timer_stop_frame(1)
    by (fastforce simp: rt_thread_resume_def Let_def bind_eq_Some_conv threads_insert_thread tlist_remove_def split: if_splits)
  note res = this
  show ?thesis
  proof (cases "lists k (Wait m)")
    case (Cons n rest)
    let ?k = "upd_thread n (\<lambda>th. th\<lparr>pending_object := None\<rparr>) (taken_insert n m (upd_mutex m (\<lambda>mx. mx\<lparr>owner := Some n, mutex_hold := 1\<rparr>) (tlist_remove n k)))"
    obtain k2 e where "rt_thread_resume n ?k = Some (k2, e)" "k' = mutex_update_priority m k2"
      using assms Cons by (auto simp: mutex_hand_over_def Let_def bind_eq_Some_conv)
    then show ?thesis using res [of n ?k k2 e] by (simp add: mutex_update_priority_def tlist_remove_def)
  qed (use assms in \<open>auto simp: mutex_hand_over_def\<close>)
qed

text \<open>
  C30: The timeout of a waiting thread races with the release.  When the only waiting thread times out and
  the owner, which runs at its priority, releases the mutex before that thread runs, the thread that
  timed out finds no owner and follows a null pointer when it looks at the owner's priority.
\<close>
theorem mutex_timeout_race:
  assumes i: "pi_inv k" and m: "is_mutex k m" and own: "owner (mutexes k m) = Some u" "mutex_hold (mutexes k m) = 1"
    and l: "lists k (Wait m) = [t]" and r: "thread_timeout t k = Some k1" and it: "in_thread k1 u"
  shows "\<exists>k2. rt_mutex_release m k1 = Some (k2, RT_EOK) \<and> runnable (threads k2 t) \<and> mutex_take_resume m t k2 = None"
proof -
  note to = timeout_keeps_pending [OF pi_butD(1) [OF i] r]
  have o: "objects k1 = objects k" "taken k1 = taken k" "mutexes k1 = mutexes k"
    using only_coreD(1,8,10) [OF only_core_timeout [OF r]] by simp_all
  have c: "current k1 = Some u" "sched_inv k1" "registered k1 u" and ctx: "in_thread_context k1 = Some ()"
    using it by (simp_all add: in_thread_def in_thread_context_def not_in_interrupt_def)
  have m1: "is_mutex k1 m" using m by (simp add: rt_object_get_type_def o)
  let ?k2 = "taken_remove m (upd_mutex m (\<lambda>mx. mx\<lparr>mutex_hold := 0\<rparr>) k1)"
  let ?p = "thread_get_mutex_priority u ?k2"
  have "?p \<le> init_priority (threads k1 u)" using le_mutex_priority [of ?p u ?k2] by simp
  then have p: "?p < 32" using pi_butD(8) [OF i, of u] to(2) [of u] by simp
  have i2: "sched_inv ?k2" "registered ?k2 u" using c by simp_all
  have "\<exists>k3 b. mutex_restore m u ?k2 = Some (k3, b) \<and> sched_inv k3 \<and> current k3 = Some u \<and> lists k3 (Wait m) = [] \<and>
      error (threads k3 t) = RT_ETIMEOUT \<and> runnable (threads k3 t)"
  proof (cases "prio k1 u = mutex_priority (mutexes k m)")
    case True
    obtain k3 where k3: "change_priority u ?p ?k2 = Some k3" "sched_inv k3" "only_sched ?k2 k3" "current k3 = current ?k2"
      "threads k3 = (threads ?k2)(u := (threads ?k2 u)\<lparr>current_priority := ?p, number_mask := push_bit ?p 1\<rparr>)"
      "\<And>q. \<not> is_ready q \<Longrightarrow> lists k3 q = lists ?k2 q"
      by (rule change_priority_spec [OF i2(1) p i2(2)]) (rule that)
    have "mutex_restore m u ?k2 = Some (k3, True)" using True k3(1) by (simp add: mutex_restore_def o)
    then show ?thesis using k3(2,4,5,6) to(3-5) l c(1) by (auto simp: runnable_def)
  next
    case False
    then have "mutex_restore m u ?k2 = Some (?k2, False)"
      using mutex_okD(2) [OF pi_butD(6) [OF i m]] by (simp add: mutex_restore_def o)
    then show ?thesis using i2 to(3-5) l c(1) by auto
  qed
  then obtain k3 b where k3: "mutex_restore m u ?k2 = Some (k3, b)" "sched_inv k3" "current k3 = Some u" "lists k3 (Wait m) = []"
    "error (threads k3 t) = RT_ETIMEOUT" "runnable (threads k3 t)" by blast
  let ?k4 = "upd_mutex m (\<lambda>mx. mx\<lparr>owner := None, mutex_priority := 0xff\<rparr>) k3"
  obtain k' where k': "(if b then rt_schedule ?k4 else Some ?k4) = Some k'" using rt_schedule_total [of ?k4] k3(3) by (cases b) auto
  have u: "upd_mutex m (\<lambda>mx. mx\<lparr>mutex_hold := (mutex_hold mx + 0xff) mod 0x100\<rparr>) k1 = upd_mutex m (\<lambda>mx. mx\<lparr>mutex_hold := 0\<rparr>) k1"
    by (simp add: upd_mutex_def o own)
  have "rt_mutex_release m k1 = Some (k', RT_EOK)"
    using own m1 c(1) ctx k3(1,4) k' by (simp add: rt_mutex_release_def mutex_hand_over_def u o)
  moreover have "mutexes k' = mutexes ?k4" "rescheduled (threads ?k4 t) (threads k' t)"
    using k' only_coreD(10) [OF only_core_schedule [of ?k4]] rt_schedule_threads [of ?k4 k' t] k3(2) by (auto split: if_splits)
  ultimately show ?thesis using rescheduledD(2,3) [of "threads ?k4 t" "threads k' t"] k3(5,6) by (simp add: mutex_take_resume_def)
qed


subsection \<open>Witnesses\<close>

text \<open>Thread 3 of priority 7 holds the mutex that the running thread of priority 5 wants.\<close>

definition demo_mutex :: kernel where
  "demo_mutex = demo_ipc\<lparr>mutexes := (\<lambda>_. mutex_fresh)(9 := mutex_fresh\<lparr>owner := Some 3, mutex_hold := 1\<rparr>), taken := (\<lambda>_. [])(3 := [9])\<rparr>"

lemma demo_mutex: "pi_inv demo_mutex" "in_thread demo_mutex 1" "is_mutex demo_mutex 9" "prio demo_mutex 1 = 5" "owner (mutexes demo_mutex 9) = Some 3"
proof -
  have it: "in_thread demo_mutex 1"
    using demo_ipc_thread(1) by (simp add: in_thread_def demo_mutex_def registered_def rt_object_get_type_def cong: sched_but_cong)
  then show "in_thread demo_mutex 1" .
  have ty: "rt_object_get_type x demo_mutex = class_of x" for x
    using demo_ipc_type [of x] by (simp add: demo_mutex_def rt_object_get_type_def)
  then show "is_mutex demo_mutex 9" by simp
  have th: "threads demo_mutex = (\<lambda>_. thread0)(1 := (prio_thread 5)\<lparr>stat := TH_RUNNING\<rparr>, 2 := (prio_thread 5)\<lparr>stat := TH_READY\<rparr>, 3 := (prio_thread 7)\<lparr>stat := TH_READY\<rparr>)"
    by (auto simp: demo_mutex_def demo_ipc_def demo_eval demo_ffs)
  show "prio demo_mutex 1 = 5" "owner (mutexes demo_mutex 9) = Some 3" by (simp_all add: th prio_thread_def) (simp add: demo_mutex_def)
  show "pi_inv demo_mutex"
  proof (rule pi_butI)
    show "sched_inv demo_mutex" using it by (simp add: in_thread_def)
    have "\<not> suspended (threads demo_mutex t)" for t by (simp add: th prio_thread_def thread0_def)
    then show "finite {t. suspended (threads demo_mutex t)}" by simp
    show "registered demo_mutex t" for t by (simp add: registered_def ty)
    show "m \<in> set (taken demo_mutex t) \<longleftrightarrow> is_mutex demo_mutex m \<and> owner (mutexes demo_mutex m) = Some t" for t m
      by (simp only: ty) (simp add: demo_mutex_def mutex_fresh_def)
    have l: "lists demo_mutex (Wait m) = []" for m using demo_ipc_thread(2) by (simp add: demo_mutex_def)
    show "pending_object (threads demo_mutex t) = Some m \<longleftrightarrow> is_mutex demo_mutex m \<and> t \<in> set (lists demo_mutex (Wait m))" for t m
      by (simp add: l th prio_thread_def thread0_def)
    show "mutex_ok demo_mutex m" for m
      unfolding mutex_ok_def l th by (simp add: demo_mutex_def mutex_fresh_def front_priority_def started_def prio_thread_def)
    show "thread_get_mutex_priority t demo_mutex = prio demo_mutex t" for t
      by (simp add: thread_get_mutex_priority_def th) (simp add: demo_mutex_def mutex_fresh_def prio_thread_def thread0_def)
    show "init_priority (threads demo_mutex t) < 32" for t by (simp add: th prio_thread_def thread0_def)
  qed
qed

theorem mutex_take_spec_witness:
  "\<exists>k'. mutex_take 9 25 RT_UNINTERRUPTIBLE demo_mutex = Some (k', Blocked) \<and> pi_inv k' \<and> prio k' 3 \<le> 5 \<and> 1 \<in> set (lists k' (Wait 9))"
  using mutex_take_spec [OF demo_mutex(2,1,3), of 25 RT_UNINTERRUPTIBLE] demo_mutex(4,5) by (auto simp: wait_time_def RT_TICK_MAX2_def)

theorem mutex_run_inherits_witness:
  "\<exists>k'. mutex_run demo_mutex k' \<and> blocked_by k' 1 3 \<and> prio k' 3 \<le> prio k' 1"
proof -
  obtain k' where k': "mutex_take 9 25 RT_UNINTERRUPTIBLE demo_mutex = Some (k', Blocked)" "pi_inv k'" "owner (mutexes k' 9) = Some 3"
    "1 \<in> set (lists k' (Wait 9))" "is_mutex k' 9"
    using mutex_wait_spec [OF demo_mutex(2,1,3,5), of 25 RT_UNINTERRUPTIBLE] by (auto simp: wait_time_def RT_TICK_MAX2_def)
  have r: "mutex_run demo_mutex k'"
    by (rule mutex_run.takes [OF mutex_run.start demo_mutex(2,3) _ k'(1)]) (simp add: wait_time_def RT_TICK_MAX2_def)
  have b: "blocked_by k' 1 3" using k'(3-5) by (auto simp: blocked_by_def)
  from mutex_run_inherits [OF r demo_mutex(1) r_into_rtranclp [of "blocked_by k'", OF b]] show ?thesis using r b by blast
qed


text \<open>The running thread holds the mutex and thread 4 of priority 6 waits for it.\<close>

definition demo_held :: kernel where
  "demo_held = upd_thread 4 (\<lambda>th. th\<lparr>pending_object := Some 9\<rparr>) ((demo_waiting (Wait 9))
     \<lparr>mutexes := (\<lambda>_. mutex_fresh)(9 := mutex_fresh\<lparr>owner := Some 1, mutex_hold := 1, mutex_priority := 6\<rparr>), taken := (\<lambda>_. [])(1 := [9])\<rparr>)"

lemma demo_held: "pi_inv demo_held" "in_thread demo_held 1" "is_mutex demo_held 9" "owner (mutexes demo_held 9) = Some 1"
  "mutex_hold (mutexes demo_held 9) = 1" "lists demo_held (Wait 9) = [4]" "threads demo_held 4 = (prio_thread 6)\<lparr>stat := TH_SUSPEND RT_UNINTERRUPTIBLE, pending_object := Some 9\<rparr>"
proof -
  note w = demo_waiting [OF disjI1 [OF refl], where x = 9]
  have s: "sched_inv demo_held" using w(1) by (simp add: demo_held_def sched_upd_same cong: sched_but_cong)
  have ty: "rt_object_get_type x demo_held = class_of x" for x
    using w(5) [of x] by (simp add: demo_held_def rt_object_get_type_def)
  then show "is_mutex demo_held 9" by simp
  have g: "registered demo_held t" for t by (simp add: registered_def ty)
  show it: "in_thread demo_held 1" using w(6) s g [of 1] by (simp add: in_thread_def) (simp add: demo_held_def upd_thread_def)
  show "owner (mutexes demo_held 9) = Some 1" "mutex_hold (mutexes demo_held 9) = 1" by (simp_all add: demo_held_def)
  have th: "threads demo_held = (\<lambda>_. thread0)(1 := (prio_thread 5)\<lparr>stat := TH_RUNNING\<rparr>, 2 := (prio_thread 5)\<lparr>stat := TH_READY\<rparr>, 3 := (prio_thread 7)\<lparr>stat := TH_READY\<rparr>,
      4 := (prio_thread 6)\<lparr>stat := TH_SUSPEND RT_UNINTERRUPTIBLE, pending_object := Some 9\<rparr>)"
    by (auto simp: demo_held_def demo_waiting_def tlist_insert_before_def demo_ipc_def demo_eval demo_ffs)
  then show "threads demo_held 4 = (prio_thread 6)\<lparr>stat := TH_SUSPEND RT_UNINTERRUPTIBLE, pending_object := Some 9\<rparr>" by simp
  have l: "lists demo_held (Wait m) = (if m = 9 then [4] else [])" for m
    using demo_ipc_thread(2) by (simp add: demo_held_def demo_waiting_def tlist_insert_before_def)
  then show "lists demo_held (Wait 9) = [4]" by simp
  show "pi_inv demo_held"
  proof (rule pi_butI)
    have "{t. suspended (threads demo_held t)} \<subseteq> {4}" by (auto simp: th prio_thread_def thread0_def split: if_splits)
    then show "finite {t. suspended (threads demo_held t)}" by (rule finite_subset) simp
    show "m \<in> set (taken demo_held t) \<longleftrightarrow> is_mutex demo_held m \<and> owner (mutexes demo_held m) = Some t" for t m
      by (simp only: ty) (auto simp: demo_held_def mutex_fresh_def)
    show "pending_object (threads demo_held t) = Some m \<longleftrightarrow> is_mutex demo_held m \<and> t \<in> set (lists demo_held (Wait m))" for t m
      by (simp add: l th ty prio_thread_def thread0_def)
    show "mutex_ok demo_held m" for m
      unfolding mutex_ok_def l th by (simp add: demo_held_def mutex_fresh_def front_priority_def started_def prio_thread_def)
    show "thread_get_mutex_priority t demo_held = prio demo_held t" for t
      by (simp add: thread_get_mutex_priority_def th) (simp add: demo_held_def mutex_fresh_def prio_thread_def thread0_def)
    show "init_priority (threads demo_held t) < 32" for t by (simp add: th prio_thread_def thread0_def)
  qed (rule s, rule g)
qed

theorem mutex_release_spec_witness:
  "\<exists>k'. rt_mutex_release 9 demo_held = Some (k', RT_EOK) \<and> pi_inv k' \<and> owner (mutexes k' 9) = Some 4 \<and> lists k' (Wait 9) = []"
  using mutex_release_spec [OF demo_held(2,1,3)] demo_held(4-6) by auto

theorem mutex_timeout_race_witness:
  "\<exists>k1 k2. thread_timeout 4 demo_held = Some k1 \<and> rt_mutex_release 9 k1 = Some (k2, RT_EOK) \<and> mutex_take_resume 9 4 k2 = None"
proof -
  have "suspended (threads demo_held 4)" by (simp add: demo_held(7))
  moreover have "current demo_held \<noteq> None" using demo_held(2) by (simp add: in_thread_def)
  moreover have "rt_object_get_type (OThread 4) demo_held = Class_Thread"
    using pi_butD(3) [OF demo_held(1), of 4] by (simp add: demo_held(7) registered_def started_def)
  ultimately obtain k1 where k1: "thread_timeout 4 demo_held = Some k1" "sched_inv k1" "only_sched demo_held k1"
    using thread_timeout_spec [OF pi_butD(1) [OF demo_held(1)]] by blast
  let ?k = "upd_thread 4 (\<lambda>th. th\<lparr>error := RT_ETIMEOUT\<rparr>) demo_held" let ?k1 = "rt_schedule_insert_thread 4 (tlist_remove 4 ?k)"
  have s: "rt_schedule ?k1 = Some k1" using k1(1) by (auto simp: thread_timeout_def Let_def split: if_splits)
  have c: "current ?k1 = Some 1" "stays ?k1 1" "ready_group ?k1 \<noteq> 0"
    by (simp_all add: stays_def demo_held_def demo_waiting_def tlist_insert_before_def tlist_remove_def demo_ipc_def demo_eval demo_ffs
        rt_ffs_def lowest_bit_bitmap_def lowest_bit_row_def)
  have "sched_inv ?k1" by (rule sched_wake [OF _ _ refl]) (use pi_butD(1) [OF demo_held(1)] in \<open>simp_all add: demo_held(7)\<close>)
  from this s have "current k1 = Some 1 \<and> stat (threads k1 1) = TH_RUNNING"
    by (cases rule: rt_schedule_cases) (use c in \<open>auto simp: stays_def\<close>)
  then have "in_thread k1 1" using demo_held(2) k1(2) only_schedD(1,3,4,6) [OF k1(3)] registered_cong [of k1 demo_held]
    by (simp add: in_thread_def)
  from mutex_timeout_race [OF demo_held(1,3-6) k1(1) this] show ?thesis using k1(1) by blast
qed

end
