(* ===== verification/KClose.thy ===== *)
theory KClose
  imports KInherit KHeap
begin

text \<open>
  The end of a thread: \<open>rt_thread_detach\<close>, \<open>rt_thread_delete\<close> and \<open>rt_thread_control\<close> (\<open>src/thread.c\<close>), which
  need the mutexes, and the idle thread's reaping of dead threads (\<open>src/idle.c\<close>).
\<close>

subsection \<open>The code\<close>

text \<open>The common body of detach and delete, after their assertions.\<close>

definition close_thread :: "tid \<Rightarrow> kernel \<Rightarrow> (kernel \<times> err) option" where
  "close_thread t k =
     (if stat (threads k t) = TH_CLOSE then Some (k, RT_EOK)
      else do {
        let k = (if stat (threads k t) \<noteq> TH_INIT then rt_schedule_remove_thread t k else k);
        k \<leftarrow> rt_timer_detach (ThreadTimer t) k;
        let k = upd_thread t (\<lambda>th. th\<lparr>stat := TH_CLOSE, yield := False\<rparr>) k;
        k \<leftarrow> (case pending_object (threads k t) of
                None \<Rightarrow> Some k
              | Some m \<Rightarrow>
                  if rt_object_get_type (OMutex m) k = Class_Mutex then do {
                    k \<leftarrow> rt_mutex_drop_thread m t k;
                    Some (upd_thread t (\<lambda>th. th\<lparr>pending_object := None\<rparr>) k)
                  }
                  else Some k);
        Some (rt_thread_defunct_enqueue t k, RT_EOK)
      })"

definition rt_thread_detach :: "tid \<Rightarrow> kernel \<Rightarrow> (kernel \<times> err) option" where
  "rt_thread_detach t k =
     do {
       rt_assert (rt_object_get_type (OThread t) k = Class_Thread);
       rt_assert (rt_object_is_systemobject (OThread t) k);
       close_thread t k
     }"

definition rt_thread_delete :: "tid \<Rightarrow> kernel \<Rightarrow> (kernel \<times> err) option" where
  "rt_thread_delete t k =
     do {
       rt_assert (rt_object_get_type (OThread t) k = Class_Thread);
       rt_assert (\<not> rt_object_is_systemobject (OThread t) k);
       close_thread t k
     }"

datatype thread_cmd = RT_THREAD_CTRL_CHANGE_PRIORITY nat | RT_THREAD_CTRL_STARTUP | RT_THREAD_CTRL_CLOSE | RT_THREAD_CTRL_OTHER

definition rt_thread_control :: "tid \<Rightarrow> thread_cmd \<Rightarrow> kernel \<Rightarrow> (kernel \<times> err) option" where
  "rt_thread_control t cmd k =
     do {
       rt_assert (rt_object_get_type (OThread t) k = Class_Thread);
       (case cmd of
          RT_THREAD_CTRL_CHANGE_PRIORITY p \<Rightarrow> do { k \<leftarrow> change_priority t p k; Some (k, RT_EOK) }
        | RT_THREAD_CTRL_STARTUP \<Rightarrow> do { k \<leftarrow> rt_thread_startup t k; Some (k, RT_EOK) }
        | RT_THREAD_CTRL_CLOSE \<Rightarrow> do {
            (k, e) \<leftarrow> (if rt_object_is_systemobject (OThread t) k then rt_thread_detach t k else rt_thread_delete t k);
            k \<leftarrow> rt_schedule k;
            Some (k, e)
          }
        | RT_THREAD_CTRL_OTHER \<Rightarrow> Some (k, RT_EOK))
     }"

text \<open>
  The reaping loop of the idle thread works on the kernel and its heap.  The fields of a thread that only matter here are its clean-up function
  (\<open>None\<close> is the null pointer that \<open>_thread_init\<close> stores; otherwise the number of a function of the application, \<open>app\<close>), the address of its stack
  and its own address: the stack and the control block of a thread made by \<open>rt_thread_create\<close> are blocks of the heap, and \<open>rt_object_delete\<close> ends by
  freeing the control block.
\<close>

record reaper =
  rkernel :: kernel
  rheap :: heap
  cleanup_fn :: "tid \<Rightarrow> nat option"
  stack_addr :: "tid \<Rightarrow> addr"
  thread_addr :: "tid \<Rightarrow> addr"

partial_function (option) rt_defunct_execute :: "(nat \<Rightarrow> tid \<Rightarrow> reaper \<Rightarrow> reaper option) \<Rightarrow> reaper \<Rightarrow> reaper option" where
  "rt_defunct_execute app s =
     (let (k, r) = rt_thread_defunct_dequeue (rkernel s); s = s\<lparr>rkernel := k\<rparr> in
      case r of
        None \<Rightarrow> Some s
      | Some t \<Rightarrow> do {
          let cleanup = cleanup_fn s t;
          let object_is_systemobject = rt_object_is_systemobject (OThread t) (rkernel s);
          let s = (if object_is_systemobject then s\<lparr>rkernel := rt_object_detach (OThread t) (rkernel s)\<rparr> else s);
          s \<leftarrow> (case cleanup of None \<Rightarrow> Some s | Some f \<Rightarrow> app f t s);
          s \<leftarrow> (if object_is_systemobject then Some s
               else do {
                 h \<leftarrow> rt_free (stack_addr s t) (rheap s);
                 k \<leftarrow> rt_object_delete (OThread t) (rkernel s);
                 h \<leftarrow> rt_free (thread_addr s t) h;
                 Some (s\<lparr>rkernel := k, rheap := h\<rparr>)
               });
          rt_defunct_execute app s
        })"


subsection \<open>Closing\<close>

lemma close_thread_spec:
  assumes i: "sched_inv k" and g: "registered k t" and tm: "obj_static (objects k (OTimer (ThreadTimer t)))"
    and live: "stat (threads k t) \<noteq> TH_CLOSE" and np: "pending_object (threads k t) = None"
  obtains k' where "close_thread t k = Some (k', RT_EOK)" "sched_inv k'" "stat (threads k' t) = TH_CLOSE" "t \<in> set (lists k' Defunct)"
    "rt_object_get_type (OTimer (ThreadTimer t)) k' = Class_Null" "ThreadTimer t \<notin> set (timer_list k')" "ThreadTimer t \<notin> set (soft_timer_list k')"
    "objects k' (OThread t) = objects k (OThread t)" "current k' = current k"
proof -
  define k1 where "k1 = (if stat (threads k t) \<noteq> TH_INIT then rt_schedule_remove_thread t k else k)"
  have o1: "only_sched k k1" by (simp add: k1_def)
  have th1: "threads k1 = threads k" "current k1 = current k" by (simp_all add: k1_def)
  let ?k2 = "rt_object_detach (OTimer (ThreadTimer t)) (deactivate (ThreadTimer t) (timer_remove (ThreadTimer t) k1))"
  let ?k3 = "upd_thread t (\<lambda>th. th\<lparr>stat := TH_CLOSE, yield := False\<rparr>) ?k2"
  have d: "rt_timer_detach (ThreadTimer t) k1 = Some ?k2"
    using g tm only_schedD(1) [OF o1] by (simp add: rt_timer_detach_def registered_def rt_object_get_type_def rt_object_is_systemobject_def)
  have "sched_inv ?k3 \<and> unlisted ?k3 t"
  proof (cases "stat (threads k t) = TH_INIT")
    case True
    have u: "unlisted ?k2 t" using init_unlisted [OF i True] True by (simp add: k1_def rt_object_detach_def unlisted_def rt_object_remove_def)
    have "sched_inv ?k3"
      by (rule sched_set_thread [OF _ u])
        (use i sched_butD(5) [OF i, of t] True in \<open>auto simp: k1_def rt_object_detach_def rt_object_remove_def thread_ok_def started_def intro: sched_but_mono sched_object_remove\<close>)
    then show ?thesis using u by simp
  next
    case False
    then have "mask_ok (threads k t)" using sched_butD(5) [OF i, of t] live by (intro thread_ok_mask) (auto simp: started_def)
    from sched_close [OF i this _ d] False show ?thesis by (simp add: k1_def)
  qed
  then have s: "sched_inv ?k3" "unlisted ?k3 t" by simp_all
  let ?k' = "rt_thread_defunct_enqueue t ?k3"
  have r: "close_thread t k = Some (?k', RT_EOK)"
    using live d np by (simp add: close_thread_def k1_def [symmetric] Let_def th1 rt_object_detach_def rt_object_remove_def)
  show thesis
    by (rule that [OF r])
      (use s sched_defunct_enqueue [OF s] in \<open>simp_all add: rt_thread_defunct_enqueue_def tlist_insert_after_def rt_object_get_type_def
        rt_object_detach_def rt_object_remove_def timer_remove_def deactivate_def upd_timer_def upd_thread_def th1 only_schedD(1) [OF o1]\<close>)
qed


text \<open>
  Closing a thread (\<open>RT_THREAD_CTRL_CLOSE\<close>, by detaching or deleting it) in any state of its life: the thread
  is dead, it is on the list of dead threads and on no other, its timer can no longer fire, and the
  scheduler's invariant holds.  This is for threads that do not wait for a mutex.
\<close>
theorem thread_close_spec:
  assumes i: "sched_inv k" and g: "registered k t" and tm: "obj_static (objects k (OTimer (ThreadTimer t)))"
    and live: "stat (threads k t) \<noteq> TH_CLOSE" and np: "pending_object (threads k t) = None" and c: "current k \<noteq> None"
  shows "\<exists>k'. rt_thread_control t RT_THREAD_CTRL_CLOSE k = Some (k', RT_EOK) \<and> sched_inv k' \<and> stat (threads k' t) = TH_CLOSE \<and>
    (\<forall>q. t \<in> set (lists k' q) \<longleftrightarrow> q = Defunct) \<and> ThreadTimer t \<notin> set (timer_list k') \<and> ThreadTimer t \<notin> set (soft_timer_list k')"
proof -
  obtain k1 where k1: "close_thread t k = Some (k1, RT_EOK)" "sched_inv k1" "stat (threads k1 t) = TH_CLOSE" "t \<in> set (lists k1 Defunct)"
    "rt_object_get_type (OTimer (ThreadTimer t)) k1 = Class_Null" "ThreadTimer t \<notin> set (timer_list k1)" "ThreadTimer t \<notin> set (soft_timer_list k1)"
    "objects k1 (OThread t) = objects k (OThread t)" "current k1 = current k"
    by (rule close_thread_spec [OF i g tm live np]) (rule that)
  obtain k' where k': "rt_schedule k1 = Some k'" using rt_schedule_total [of k1] k1(9) c by auto
  have ty: "rt_object_get_type (OThread t) k = Class_Thread" using g by (simp add: registered_def)
  have "rt_thread_control t RT_THREAD_CTRL_CLOSE k = Some (k', RT_EOK)"
    using k1(1) k' ty by (simp add: rt_thread_control_def rt_thread_detach_def rt_thread_delete_def)
  moreover have i': "sched_inv k'" by (rule sched_schedule [OF k1(2) k'])
  moreover have st: "stat (threads k' t) = TH_CLOSE"
    using rt_schedule_threads [OF k1(2) k', of t] k1(3) by (auto simp: rescheduled_def runnable_def)
  moreover have "t \<in> set (lists k' Defunct)" using rt_schedule_lists [OF k1(2) k', of Defunct] k1(4) by simp
  then have "t \<in> set (lists k' q) \<longleftrightarrow> q = Defunct" for q using sched_butD(4) [OF i', of t Defunct q] by auto
  ultimately show ?thesis using only_schedD(7,8) [OF only_sched_schedule [OF k']] k1(6,7) by simp
qed

subsection \<open>Reaping\<close>

lemma object_gone:
  "rt_object_get_type ob (rt_object_remove ob k) = Class_Null" "ob \<notin> set (containers (rt_object_remove ob k) cls)"
  "ob' \<noteq> ob \<Longrightarrow> objects (rt_object_remove ob k) ob' = objects k ob'" "lists (rt_object_remove ob k) = lists k"
  by (simp_all add: rt_object_get_type_def rt_object_remove_def)

text \<open>The addresses that the reaping of some threads frees, and the blocks \<open>(address, size)\<close> there.\<close>

definition own_addrs :: "reaper \<Rightarrow> tid list \<Rightarrow> addr list" where
  "own_addrs s ts = concat (map (\<lambda>t. if rt_object_is_systemobject (OThread t) (rkernel s) then [] else [stack_addr s t, thread_addr s t]) ts)"

definition blocks_at :: "(addr \<Rightarrow> nat) \<Rightarrow> addr list \<Rightarrow> (nat \<times> nat) set" where
  "blocks_at sz as = (\<lambda>a. (unat a, sz a)) ` set as"

lemma own_addrs_Nil [simp]: "own_addrs s [] = []"
  by (simp add: own_addrs_def)

lemma own_addrs_Cons: "own_addrs s (t # ts) =
    (if rt_object_is_systemobject (OThread t) (rkernel s) then [] else [stack_addr s t, thread_addr s t]) @ own_addrs s ts"
  by (simp add: own_addrs_def)

lemma own_addrs_cong:
  assumes "\<And>t. t \<in> set ts \<Longrightarrow> objects (rkernel s') (OThread t) = objects (rkernel s) (OThread t)" "stack_addr s' = stack_addr s" "thread_addr s' = thread_addr s"
  shows "own_addrs s' ts = own_addrs s ts"
  using assms by (auto simp: own_addrs_def rt_object_is_systemobject_def intro!: arg_cong [of _ _ concat])

text \<open>The memory of dead threads: their blocks are different live blocks of the heap.\<close>

definition memory_ok :: "(addr \<Rightarrow> nat) \<Rightarrow> reaper \<Rightarrow> tid list \<Rightarrow> bool" where
  "memory_ok sz s ts \<longleftrightarrow> smem_ok (fst (rheap s)) \<and> distinct (own_addrs s ts) \<and> NULL \<notin> set (own_addrs s ts) \<and>
     blocks_at sz (own_addrs s ts) \<subseteq> smem_live (fst (rheap s))"

text \<open>One round of the loop.\<close>

lemma reap_one:
  assumes i: "sched_inv (rkernel s)" and m: "memory_ok sz s (t # ts)" and c: "cleanup_fn s t = None" and l: "lists (rkernel s) Defunct = t # ts"
  obtains s' where "rt_defunct_execute app s = rt_defunct_execute app s'" "sched_inv (rkernel s')" "lists (rkernel s') Defunct = ts" "memory_ok sz s' ts"
    "cleanup_fn s' = cleanup_fn s" "rt_object_get_type (OThread t) (rkernel s') = Class_Null" "unlisted (rkernel s') t"
    "\<And>ob. ob \<noteq> OThread t \<Longrightarrow> objects (rkernel s') ob = objects (rkernel s) ob"
    "\<And>q u. u \<in> set (lists (rkernel s') q) \<Longrightarrow> u \<in> set (lists (rkernel s) q)" "snd (rheap s') = snd (rheap s)"
    "own_addrs s' ts = own_addrs s ts" "smem_live (fst (rheap s')) = smem_live (fst (rheap s)) - blocks_at sz (own_addrs s [t])"
proof -
  let ?k = "tlist_remove t (rkernel s)"
  obtain h d where h: "rheap s = (h, d)" by fastforce
  have st: "stat (threads (rkernel s) t) = TH_CLOSE" using sched_butD(3) [OF i, of t Defunct] l by simp
  have r: "sched_inv ?k" "unlisted ?k t" using sched_tlist_remove [OF i] st by auto
  have dt: "t \<notin> set ts" using sched_butD(2) [OF i, of Defunct] l by simp
  have lk: "lists ?k Defunct = ts" "objects ?k = objects (rkernel s)" "\<And>q. lists ?k q = removeAll t (lists (rkernel s) q)"
    using l dt by (simp_all add: tlist_remove_def)
  let ?k' = "rt_object_remove (OThread t) ?k"
  have k': "sched_inv ?k'" "lists ?k' Defunct = ts" "unlisted ?k' t" "\<And>q u. u \<in> set (lists ?k' q) \<Longrightarrow> u \<in> set (lists (rkernel s) q)"
    using r lk by (simp_all add: object_gone unlisted_def)
  have same: "own_addrs (s\<lparr>rkernel := ?k', rheap := h'\<rparr>) ts = own_addrs s ts" for h'
  proof (rule own_addrs_cong)
    fix u assume "u \<in> set ts"
    then have "OThread u \<noteq> OThread t" using dt by auto
    then show "objects (rkernel (s\<lparr>rkernel := ?k', rheap := h'\<rparr>)) (OThread u) = objects (rkernel s) (OThread u)"
      using object_gone(3) [where ob = "OThread t" and k = ?k] lk(2) by simp
  qed simp_all
  show thesis
  proof (cases "rt_object_is_systemobject (OThread t) (rkernel s)")
    case True
    have e: "own_addrs s (t # ts) = own_addrs s ts" "own_addrs s [t] = []" using True by (simp_all add: own_addrs_Cons)
    have s: "s\<lparr>rkernel := ?k', rheap := rheap s\<rparr> = s\<lparr>rkernel := ?k'\<rparr>" by simp
    have "rt_defunct_execute app s = rt_defunct_execute app (s\<lparr>rkernel := ?k'\<rparr>)"
      by (subst rt_defunct_execute.simps)
        (use True c l in \<open>simp add: rt_thread_defunct_dequeue_def rt_object_detach_def rt_object_is_systemobject_def lk Let_def\<close>)
    then show thesis
      by (rule that) (use k' m same [of "rheap s", unfolded s] e lk(2) object_gone [where ob = "OThread t" and k = ?k] in \<open>simp_all add: memory_ok_def blocks_at_def\<close>)
  next
    case False
    let ?a = "stack_addr s t" and ?b = "thread_addr s t"
    have o: "own_addrs s (t # ts) = ?a # ?b # own_addrs s ts" "own_addrs s [t] = [?a, ?b]" using False by (simp_all add: own_addrs_Cons)
    have m': "smem_ok h" "?a \<noteq> ?b" "?a \<noteq> NULL" "?b \<noteq> NULL" "(unat ?a, sz ?a) \<in> smem_live h" "(unat ?b, sz ?b) \<in> smem_live h"
      "?a \<notin> set (own_addrs s ts)" "?b \<notin> set (own_addrs s ts)" "distinct (own_addrs s ts)" "NULL \<notin> set (own_addrs s ts)"
      "blocks_at sz (own_addrs s ts) \<subseteq> smem_live h"
      using m by (auto simp: memory_ok_def o h blocks_at_def)
    obtain h1 where h1: "rt_free ?a (h, d) = Some (h1, d)" "smem_ok h1" "smem_live h1 = smem_live h - {(unat ?a, sz ?a)}"
      by (rule free_live [OF m'(1,5,3)]) (rule that)
    have "(unat ?b, sz ?b) \<in> smem_live h1" using m'(2,6) by (auto simp: h1(3) word_unat_eq_iff)
    then obtain h2 where h2: "rt_free ?b (h1, d) = Some (h2, d)" "smem_ok h2" "smem_live h2 = smem_live h1 - {(unat ?b, sz ?b)}"
      by (rule free_live [OF h1(2) _ m'(4)]) (rule that)
    have lv: "smem_live h2 = smem_live h - blocks_at sz [?a, ?b]" using h1(3) h2(3) by (auto simp: blocks_at_def)
    have nb: "blocks_at sz (own_addrs s ts) \<inter> blocks_at sz [?a, ?b] = {}" using m'(7,8) by (auto simp: blocks_at_def word_unat_eq_iff [symmetric])
    let ?s = "s\<lparr>rkernel := ?k', rheap := (h2, d)\<rparr>"
    have ex: "rt_defunct_execute app s = rt_defunct_execute app ?s"
      by (subst rt_defunct_execute.simps)
        (use False c l h h1(1) h2(1) in \<open>simp add: rt_thread_defunct_dequeue_def rt_object_delete_def rt_object_is_systemobject_def lk Let_def\<close>)
    have mo: "memory_ok sz ?s ts" using m' h2(2) lv nb same [of "(h2, d)"] by (auto simp: memory_ok_def)
    show thesis
      by (rule that [OF ex]) (use mo k' lv h same [of "(h2, d)"] o lk(2) object_gone [where ob = "OThread t" and k = ?k] in simp_all)
  qed
qed

lemma reap_all:
  assumes "sched_inv (rkernel s)" "memory_ok sz s ts" "\<forall>t\<in>set ts. cleanup_fn s t = None" "lists (rkernel s) Defunct = ts"
  shows "\<exists>s'. rt_defunct_execute app s = Some s' \<and> sched_inv (rkernel s') \<and> lists (rkernel s') Defunct = [] \<and>
    (\<forall>t\<in>set ts. rt_object_get_type (OThread t) (rkernel s') = Class_Null \<and> unlisted (rkernel s') t) \<and>
    (\<forall>ob. ob \<notin> OThread ` set ts \<longrightarrow> objects (rkernel s') ob = objects (rkernel s) ob) \<and>
    (\<forall>q. set (lists (rkernel s') q) \<subseteq> set (lists (rkernel s) q)) \<and> smem_ok (fst (rheap s')) \<and> snd (rheap s') = snd (rheap s) \<and>
    smem_live (fst (rheap s')) = smem_live (fst (rheap s)) - blocks_at sz (own_addrs s ts)"
  using assms
proof (induction ts arbitrary: s)
  case Nil
  then show ?case
    by (subst rt_defunct_execute.simps) (simp add: rt_thread_defunct_dequeue_def memory_ok_def blocks_at_def)
next
  case (Cons t ts)
  have c: "cleanup_fn s t = None" using Cons.prems(3) by simp
  obtain s1 where s1: "rt_defunct_execute app s = rt_defunct_execute app s1" "sched_inv (rkernel s1)" "lists (rkernel s1) Defunct = ts" "memory_ok sz s1 ts"
    "cleanup_fn s1 = cleanup_fn s" "rt_object_get_type (OThread t) (rkernel s1) = Class_Null" "unlisted (rkernel s1) t"
    "\<And>ob. ob \<noteq> OThread t \<Longrightarrow> objects (rkernel s1) ob = objects (rkernel s) ob"
    "\<And>q u. u \<in> set (lists (rkernel s1) q) \<Longrightarrow> u \<in> set (lists (rkernel s) q)" "snd (rheap s1) = snd (rheap s)"
    "own_addrs s1 ts = own_addrs s ts" "smem_live (fst (rheap s1)) = smem_live (fst (rheap s)) - blocks_at sz (own_addrs s [t])"
    by (rule reap_one [OF Cons.prems(1,2) c Cons.prems(4), where app = app]) (rule that)
  have d: "t \<notin> set ts" using sched_butD(2) [OF Cons.prems(1), of Defunct] Cons.prems(4) by simp
  have "\<forall>u\<in>set ts. cleanup_fn s1 u = None" using Cons.prems(3) s1(5) by simp
  then obtain s' where s': "rt_defunct_execute app s1 = Some s'" "sched_inv (rkernel s')" "lists (rkernel s') Defunct = []"
    "\<forall>t\<in>set ts. rt_object_get_type (OThread t) (rkernel s') = Class_Null \<and> unlisted (rkernel s') t"
    "\<forall>ob. ob \<notin> OThread ` set ts \<longrightarrow> objects (rkernel s') ob = objects (rkernel s1) ob"
    "\<forall>q. set (lists (rkernel s') q) \<subseteq> set (lists (rkernel s1) q)" "smem_ok (fst (rheap s'))" "snd (rheap s') = snd (rheap s1)"
    "smem_live (fst (rheap s')) = smem_live (fst (rheap s1)) - blocks_at sz (own_addrs s1 ts)"
    using Cons.IH [OF s1(2,4) _ s1(3)] by blast
  have "rt_object_get_type (OThread t) (rkernel s') = Class_Null" using s'(5) s1(6) d by (auto simp: rt_object_get_type_def)
  moreover have "unlisted (rkernel s') t" using s'(6) s1(7) unfolding unlisted_def by blast
  moreover have "set (lists (rkernel s') q) \<subseteq> set (lists (rkernel s) q)" for q using s'(6) s1(9) by blast
  moreover have "smem_live (fst (rheap s')) = smem_live (fst (rheap s)) - blocks_at sz (own_addrs s (t # ts))"
    using s'(9) s1(11,12) by (auto simp: own_addrs_Cons [of s t ts] own_addrs_Cons [of s t "[]"] blocks_at_def)
  ultimately show ?case using s1(1,8,10) s' by auto
qed

text \<open>
  C34: The idle thread's reaping of dead threads, for threads without a clean-up function (none has one unless the application installs it).  The loop
  ends and no dead thread is left: each of them is on no list of the kernel and is no longer a kernel object, while every other object is
  untouched.  Of the heap exactly the stacks and the control blocks of the dead threads made by \<open>rt_thread_create\<close> are freed.
\<close>
theorem defunct_reaped:
  assumes "sched_inv (rkernel s)" "\<forall>t\<in>set (lists (rkernel s) Defunct). cleanup_fn s t = None" "memory_ok sz s (lists (rkernel s) Defunct)"
  shows "\<exists>s'. rt_defunct_execute app s = Some s' \<and> sched_inv (rkernel s') \<and> lists (rkernel s') Defunct = [] \<and>
    (\<forall>t\<in>set (lists (rkernel s) Defunct). rt_object_get_type (OThread t) (rkernel s') = Class_Null \<and> unlisted (rkernel s') t) \<and>
    (\<forall>ob. ob \<notin> OThread ` set (lists (rkernel s) Defunct) \<longrightarrow> objects (rkernel s') ob = objects (rkernel s) ob) \<and>
    smem_ok (fst (rheap s')) \<and> snd (rheap s') = snd (rheap s) \<and>
    smem_live (fst (rheap s')) = smem_live (fst (rheap s)) - blocks_at sz (own_addrs s (lists (rkernel s) Defunct))"
  using reap_all [OF assms(1,3,2) refl, of app] by blast

subsection \<open>Witnesses\<close>

theorem thread_close_spec_witness:
  "\<exists>k'. rt_thread_control 3 RT_THREAD_CTRL_CLOSE demo_ipc = Some (k', RT_EOK) \<and> stat (threads k' 3) = TH_CLOSE \<and>
    3 \<in> set (lists k' Defunct) \<and> 3 \<notin> set (lists k' (Ready 7))"
proof -
  have i: "sched_inv demo_ipc" "current demo_ipc \<noteq> None" using demo_ipc_thread(1) by (simp_all add: in_thread_def)
  have "stat (threads demo_ipc 3) \<noteq> TH_CLOSE" "pending_object (threads demo_ipc 3) = None"
    by (simp_all add: demo_ipc_def demo_eval demo_ffs)
  moreover have "registered demo_ipc 3" by (simp add: registered_def)
  moreover have "obj_static (objects demo_ipc (OTimer (ThreadTimer 3)))" by (simp add: demo_ipc_def)
  ultimately show ?thesis using thread_close_spec [OF i(1) _ _ _ _ i(2), of 3] by blast
qed

text \<open>A kernel with a dead thread.\<close>

definition demo_dead :: kernel where
  "demo_dead = rt_thread_defunct_enqueue 4 (upd_thread 4 (\<lambda>_. (prio_thread 6)\<lparr>stat := TH_CLOSE\<rparr>) demo_ipc)"

lemma demo_dead: "sched_inv demo_dead" "lists demo_dead Defunct = [4]"
proof -
  have l: "lists demo_ipc q' = (case q' of Ready p \<Rightarrow> if p = 5 then [2] else if p = 7 then [3] else [] | _ \<Rightarrow> [])" for q'
    by (auto simp: demo_ipc_def demo_eval demo_ffs split: qid.splits)
  have u: "unlisted demo_ipc 4" by (auto simp: unlisted_def l split: qid.splits if_splits)
  have i: "sched_inv demo_ipc" "current demo_ipc = Some 1" using demo_ipc_thread(1) by (simp_all add: in_thread_def)
  have "sched_inv (upd_thread 4 (\<lambda>_. (prio_thread 6)\<lparr>stat := TH_CLOSE\<rparr>) demo_ipc)"
    by (rule sched_set_thread [OF sched_but_mono [OF i(1)] u]) (auto simp: thread_ok_def prio_thread_def thread0_def i)
  then show "sched_inv demo_dead" unfolding demo_dead_def by (rule sched_defunct_enqueue) (use u in \<open>simp_all add: unlisted_def\<close>)
  show "lists demo_dead Defunct = [4]" by (simp add: demo_dead_def rt_thread_defunct_enqueue_def tlist_insert_after_def l)
qed

text \<open>It was made by \<open>rt_thread_create\<close>, with a stack and a control block in the heap.\<close>

lemma demo_two_blocks:
  obtains m a b where "smem_ok m" "(unat a, 104) \<in> smem_live m" "(unat b, 104) \<in> smem_live m" "a \<noteq> b" "a \<noteq> NULL" "b \<noteq> NULL"
proof -
  have f: "first_fit (block_size 100) 0 [(936, False)] = Some (0, [(120, True), (816, False)])"
    "first_fit (block_size 100) 0 [(120, True), (816, False)] = Some (120, [(120, True), (120, True), (696, False)])"
    by (simp_all add: block_size_def RT_ALIGN8)
  obtain m where m: "smem_inv m [(120, True), (816, False)]" using smem_alloc_refines [OF demo_heap(1), of 100 None] f(1) by auto
  obtain m' where m': "smem_inv m' [(120, True), (120, True), (696, False)]" using smem_alloc_refines [OF m, of 100 None] f(2) by auto
  have ok: "smem_ok m'" "segs m' = [(120, True), (120, True), (696, False)]" using smem_okI [OF m'] by simp_all
  have w: "seg_total (segs m') \<le> heap_end m'" using smem_wfD(7) [OF smem_okD(2) [OF ok(1)]] by simp
  have u: "unat (heap_at m' 16) = unat (heap_ptr m') + 16" "unat (heap_at m' 136) = unat (heap_ptr m') + 136"
    using unat_heap_at [OF smem_okD(2) [OF ok(1)], of 16] unat_heap_at [OF smem_okD(2) [OF ok(1)], of 136] w ok(2) by simp_all
  then have "(unat (heap_at m' 16), 104) \<in> smem_live m'" "(unat (heap_at m' 136), 104) \<in> smem_live m'"
    using ok(2) by (simp_all add: smem_live_def shift_block_def)
  moreover have "heap_at m' 16 \<noteq> heap_at m' 136" "heap_at m' 16 \<noteq> NULL" "heap_at m' 136 \<noteq> NULL" using u by auto
  ultimately show thesis using that ok(1) by blast
qed

theorem defunct_reaped_witness:
  "\<exists>s s'. lists (rkernel s) Defunct = [4] \<and> rt_defunct_execute (\<lambda>_ _. Some) s = Some s' \<and> rt_object_get_type (OThread 4) (rkernel s') = Class_Null \<and>
    rt_object_get_type (OThread 3) (rkernel s') = Class_Thread \<and> (unat (stack_addr s 4), 104) \<in> smem_live (fst (rheap s)) - smem_live (fst (rheap s'))"
proof -
  obtain m a b where m: "smem_ok m" "(unat a, 104) \<in> smem_live m" "(unat b, 104) \<in> smem_live m" "a \<noteq> b" "a \<noteq> NULL" "b \<noteq> NULL"
    by (rule demo_two_blocks)
  let ?k = "demo_dead\<lparr>objects := (objects demo_dead)(OThread 4 := (objects demo_dead (OThread 4))\<lparr>obj_static := False\<rparr>)\<rparr>"
  let ?s = "\<lparr>rkernel = ?k, rheap = (m, \<lambda>_. 0), cleanup_fn = (\<lambda>_. None), stack_addr = (\<lambda>_. a), thread_addr = (\<lambda>_. b)\<rparr>"
  have k: "sched_inv ?k" "lists ?k Defunct = [4]" using demo_dead by simp_all
  have o: "own_addrs ?s [4] = [a, b]" by (simp add: own_addrs_Cons rt_object_is_systemobject_def)
  have i: "sched_inv (rkernel ?s)" "\<forall>t\<in>set (lists (rkernel ?s) Defunct). cleanup_fn ?s t = None" "memory_ok (\<lambda>_. 104) ?s (lists (rkernel ?s) Defunct)"
    using k m o by (simp_all add: memory_ok_def blocks_at_def)
  have "objects ?k (OThread 3) = objects demo_dead (OThread 3)" by simp
  moreover have "rt_object_get_type (OThread 3) demo_dead = Class_Thread"
    by (simp add: rt_object_get_type_def demo_dead_def rt_thread_defunct_enqueue_def tlist_insert_after_def upd_thread_def demo_ipc_def)
  ultimately have t: "obj_type (objects ?k (OThread 3)) = Class_Thread" by (simp add: rt_object_get_type_def)
  from defunct_reaped [OF i, of "\<lambda>_ _. Some"] obtain s' where s': "rt_defunct_execute (\<lambda>_ _. Some) ?s = Some s'"
    "\<forall>t\<in>set (lists (rkernel ?s) Defunct). rt_object_get_type (OThread t) (rkernel s') = Class_Null \<and> unlisted (rkernel s') t"
    "\<forall>ob. ob \<notin> OThread ` set (lists (rkernel ?s) Defunct) \<longrightarrow> objects (rkernel s') ob = objects (rkernel ?s) ob"
    "smem_live (fst (rheap s')) = smem_live (fst (rheap ?s)) - blocks_at (\<lambda>_. 104) (own_addrs ?s (lists (rkernel ?s) Defunct))" by blast
  have r: "rkernel ?s = ?k" "stack_addr ?s 4 = a" "fst (rheap ?s) = m" by simp_all
  have "rt_object_get_type (OThread 4) (rkernel s') = Class_Null" using s'(2) unfolding r(1) k(2) by simp
  moreover have "rt_object_get_type (OThread 3) (rkernel s') = Class_Thread"
    using s'(3) [rule_format, of "OThread 3"] t unfolding r(1) k(2) by (auto simp: rt_object_get_type_def)
  moreover have "(unat a, 104) \<in> smem_live m - smem_live (fst (rheap s'))"
    using s'(4) m(2) unfolding r(1,3) k(2) o by (simp add: blocks_at_def)
  ultimately show ?thesis using s'(1) k(2) by (intro exI [of _ ?s] exI [of _ s'] conjI) (simp_all only: r)
qed

end
