(* ===== verification/Spec2Isabelle.thy ===== *)
theory Spec2Isabelle
  imports KStdio Int64 SoftFloat AmTimer AmContext KPool KDataQueue KWaitq Ringblk Ringbuffer KSem KMailbox KMq KEvent KInherit KClose
begin

text \<open>
  Verification of the C software of the machine-designs-machine repository.

  The repository holds a RISC-V processor design (\<open>core\<close>), an emulator (\<open>emulator\<close>) and the workloads
  that run on them.  The workloads are the repository's C code, and this development is about the parts of
  it that carry logic of their own and that every workload uses: the freestanding C library \<^emph>\<open>klib\<close> and the
  64-bit arithmetic of the abstract machine (\<open>workloads/abstract-machine\<close>), and the RT-Thread kernel with
  its ring buffer (\<open>workloads/rt-thread-am\<close>).  The library runs below the kernel; inside the kernel the
  IPC objects suspend and wake threads through common waiting lists, those use the thread, timer and
  object operations, and all of them use the scheduler.

  \<^bold>\<open>Shared theories.\<close>  \<open>Prelude\<close>: machine integers as words, memory as a function from 32-bit
  addresses to bytes, C strings, decimal digits.  \<open>Allocator\<close>: the contract of a heap as a locale.
  \<open>Fifo\<close>: the contract of a bounded queue as a locale, with the theorem that any sequence of puts and gets
  behaves like a list; \<open>Ringbuffer\<close>, \<open>KMailbox\<close>, \<open>KMq\<close> and \<open>KDataQueue\<close> interpret it.

  \<^bold>\<open>klib.\<close>
  \<^item> \<open>KString\<close> (\<open>klib/src/string.c\<close>): every function.  Copies and comparisons agree with their
    specification; \<open>memmove\<close> is exact when the regions are far enough apart and wrong otherwise.
  \<^item> \<open>KCtype\<close> (\<open>klib/src/ctypes.c\<close>): the character classes.
  \<^item> \<open>KStdlib\<close> (\<open>klib/src/stdlib.c\<close>): \<open>rand\<close>, number parsing, sorting helpers and the bump allocator,
    which interprets \<open>Allocator\<close>.
  \<^item> \<open>KStdio\<close> (\<open>klib/src/stdio.c\<close>): \<open>printf\<close> sends what the items of its format mean
    (literals and conversions with a value and a layout, described without the interpreter), and a NUL byte the standard does not know;
    the family never writes outside the buffer; \<open>sscanf\<close>.  \<open>fmt_text\<close>, an intermediate form of the interpreter on lists, is not a
    specification: it carries the interpreter's faults, which the findings list.
  \<^item> \<open>Int64\<close> (\<open>am/src/riscv/npc/libgcc\<close>): division, remainder, multiplication and shifts of 64-bit
    numbers agree with the operations of the word library.

  \<^bold>\<open>RT-Thread.\<close>  Single core, 32 priorities, the configuration of the abstract-machine port.
  \<^item> \<open>KState\<close>: the kernel as one record.  Threads, timers and IPC objects are addresses; every intrusive
    list is a list of addresses; \<open>rt_list_remove\<close> takes a node off whatever list it is on.
  \<^item> \<open>KSched\<close> (\<open>src/scheduler_up.c\<close>, the bit search of \<open>src/kservice.c\<close>): the invariant \<open>sched_inv\<close> of
    ready queues, priority group, thread states and current thread, kept by every later operation;
    \<open>rt_schedule\<close> runs a highest-priority thread.
  \<^item> \<open>KObject\<close> (\<open>src/object.c\<close>), \<open>KTimer\<close> and the timer part of \<open>KThread\<close> (\<open>src/timer.c\<close>, \<open>src/clock.c\<close>):
    registration and lookup, timer lists ordered across the wrap-around of the tick, expiry.
  \<^item> \<open>KThread\<close> (\<open>src/thread.c\<close>, \<open>src/idle.c\<close>): the life of a thread, sleeping, yielding, priorities.
  \<^item> \<open>KIpc\<close>: the waiting lists every IPC object uses.  \<open>KSem\<close>, \<open>KMailbox\<close>, \<open>KMq\<close>, \<open>KEvent\<close>
    (\<open>src/ipc.c\<close>): semaphores conserve their units; mailboxes and message queues are bounded FIFOs, a mailbox along every run
    of blocking and non-blocking calls, resumptions and timeouts, with a thread woken by each accepted call; a message queue loses
    no block however the critical sections of its users interleave; a send to an event wakes exactly the threads whose
    condition holds.
  \<^item> \<open>KMutex\<close>, \<open>KInherit\<close>: mutexes.  \<open>KMutex\<close> has the code, the invariant of priority inheritance and the
    proof that passing a priority along a chain of owners ends; \<open>KInherit\<close> proves that takes and releases
    keep the invariant.
  \<^item> \<open>Ringbuffer\<close>, \<open>KCompletion\<close>, \<open>KDataQueue\<close>, \<open>KWaitq\<close>, \<open>Ringblk\<close> (\<open>components/drivers/ipc\<close>): the byte ring buffer; completions, which meet
    their waiting thread but can be lost at a timeout; data queues, bounded FIFOs with threads waiting on both sides and
    a ring that lives in the kernel's heap; wait queues, which remember a wake-up that finds nobody but can spend one on a thread
    that has already timed out; the ring block buffer, whose blocks do not overlap along any sequence of its operations
    (a step relation with an invariant by rule induction) that asks for no empty block and for no first block larger than the buffer;
    the code checks neither (\<open>rbb_zero_size_overlaps\<close>, \<open>rbb_alloc_overruns\<close>), and loses a descriptor with every refused request.
  \<^item> \<open>KClose\<close> (\<open>src/thread.c\<close>, \<open>src/idle.c\<close>): closing a thread in any state of its life, and the idle thread's reaping of
    dead threads.  The clean-up functions that an application may install are a parameter; without any the loop ends, leaves no dead
    thread and frees exactly the stacks and control blocks of the dynamic ones.

  \<^bold>\<open>Memory.\<close>
  \<^item> \<open>KService\<close> (\<open>src/kservice.c\<close>): the memory and string functions of the kernel.  The word-wise fills and copies are
    exact, \<open>rt_memmove\<close> is exact for every overlap, and the string functions agree with those of klib.
  \<^item> \<open>SmallMem\<close>, \<open>SmallHeap\<close> (\<open>src/mem.c\<close>): the heap of the kernel.  The headers describe a list of blocks; allocation
    refines first fit, freeing joins neighbours, and the manager interprets the contract \<open>heap_allocator\<close>: however a
    client allocates and frees, no check of the code fails and no two blocks overlap.
  \<^item> \<open>KHeap\<close> (\<open>src/mem.c\<close>, \<open>src/kservice.c\<close>): \<open>rt_realloc\<close> keeps contents, and the front end of the heap.
  \<^item> \<open>KPool\<close> (\<open>src/mempool.c\<close>): memory pools with blocks of one size, a second interpretation of \<open>heap_allocator\<close>;
    threads that wait for a block, and pools that live in a block of the kernel's heap.
  \<^bold>\<open>Platform.\<close>
  \<^item> \<open>AmContext\<close> (\<open>am/src/riscv/npc/trap.S\<close>, \<open>cte.c\<close>, \<open>bsp/abstract-machine/src/context.c\<close>): the trap path and the context switch
    on registers and memory; a thread that is switched out and in again continues where it was.
  \<^item> \<open>AmTimer\<close> (\<open>am/src/riscv/npc/timer.c\<close>): the 64-bit counter read in two halves.
  \<^item> \<open>SoftFloat\<close> (\<open>bsp/abstract-machine/src/libc.c\<close>): the conversion of integers to doubles is exact.

  \<^bold>\<open>Conventions.\<close>  \<open>None\<close> is the end of the system: a failed \<open>RT_ASSERT\<close> or the use of a null pointer.
  A call that can block is cut where it gives up the processor: the first half returns \<open>Blocked\<close>, and a
  definition with the suffix \<open>_resume\<close> is what the thread does when it runs again, so that any other
  thread may act in between.  A critical section of the code (interrupts disabled) is one atomic step.
  Loops are recursive functions where they are structural; the others are \<open>partial_function\<close>s in the
  option monad, with lemmas that they return (\<open>timer_check_wakes\<close>, \<open>mq_reset_frees\<close>, \<open>resume_all_spec\<close>,
  \<open>update_priority_spec\<close>); the number of iterations is bounded by the length of the list, or by the number
  of suspended threads for the priority chain.  Error codes are the constructors of \<open>err\<close>; the sign the
  code gives them is left out.  Widths are kept where they matter: ticks and event flags are 32-bit words,
  the scheduler lock is a 16-bit word, counters of mailboxes, queues, semaphores and mutexes are
  numbers with their limits written out.

  \<^bold>\<open>Not modelled.\<close>  The processor in Verilog and the emulator in C++ (not C); the start-up and device code of the
  abstract machine and of the board support package (memory-mapped I/O) and its native platform, which runs workloads as
  host processes; the instructions a thread executes between two context switches; hooks, debug and formatted output of
  the kernel, the device registry, signals and SMP (\<open>scheduler_mp.c\<close>, \<open>cpu.c\<close>), most of which the configuration
  leaves out; the memory managers the configuration does not use as heap (\<open>memheap.c\<close>, \<open>slab.c\<close>); the vendored components of
  RT-Thread (file systems, drivers, \<open>lwp\<close>, \<open>finsh\<close>, \<open>libc\<close> layers) and its build tools, which are third-party
  code that the kernel does not depend on.
\<close>

end
